(* ===== verification/Prelude.thy ===== *)
theory Prelude
  imports Main "HOL-Library.Word" "HOL-Library.Monad_Syntax"
begin

text \<open>
  What every component of the model shares: the machine integer types of the C++ code, the
  convention for operations that can fail, bounds-checked access to \<open>std::vector\<close>s, loops over
  an index range, and generic lemmas on words, lists and maps.

  An operation whose C++ body contains an \<open>assert\<close>, a vector subscript or a division returns an
  \<open>option\<close>: \<open>None\<close> is a failed assertion or undefined behaviour (a subscript out of range, a
  division by zero, an out-of-range float conversion, a loop that does not end), \<open>Some\<close> is a
  normal return. The predicate \<open>oks m P\<close> is total correctness: the operation returns normally and
  its result satisfies \<open>P\<close>.
\<close>

type_synonym u8 = "8 word"
type_synonym u32 = "32 word"
type_synonym u64 = "64 word"

named_theorems oks_intros

section \<open>Total correctness of operations that may fail\<close>

definition oks :: "'a option \<Rightarrow> ('a \<Rightarrow> bool) \<Rightarrow> bool" where
  "oks m P \<longleftrightarrow> (case m of None \<Rightarrow> False | Some x \<Rightarrow> P x)"

lemma oks_Some [simp]: "oks (Some x) P \<longleftrightarrow> P x"
  by (simp add: oks_def)

lemma oks_None [simp]: "\<not> oks None P"
  by (simp add: oks_def)

lemma oks_bind [simp]: "oks (m \<bind> f) P \<longleftrightarrow> oks m (\<lambda>x. oks (f x) P)"
  by (cases m) simp_all

lemma oks_mono: "oks m P \<Longrightarrow> (\<And>x. P x \<Longrightarrow> Q x) \<Longrightarrow> oks m Q"
  by (cases m) simp_all

lemma oks_bindI: "oks m Q \<Longrightarrow> (\<And>x. Q x \<Longrightarrow> oks (f x) P) \<Longrightarrow> oks (m \<bind> f) P"
  by (cases m) simp_all

lemma oksE: "oks m P \<Longrightarrow> (\<And>x. m = Some x \<Longrightarrow> P x \<Longrightarrow> R) \<Longrightarrow> R"
  by (cases m) simp_all

lemma oksD: "oks m P \<Longrightarrow> m = Some x \<Longrightarrow> P x"
  by simp

lemma oks_iff: "oks m P \<longleftrightarrow> (\<exists>x. m = Some x \<and> P x)"
  by (cases m) simp_all

lemma oks_if [simp]:
  "oks (if b then m else n) P \<longleftrightarrow> (b \<longrightarrow> oks m P) \<and> (\<not> b \<longrightarrow> oks n P)"
  by simp

lemma oks_Let [simp]: "oks (Let x f) P \<longleftrightarrow> oks (f x) P"
  by (simp add: Let_def)

lemma oks_case_prod [simp]: "oks (case p of (a, b) \<Rightarrow> f a b) P \<longleftrightarrow> (case p of (a, b) \<Rightarrow> oks (f a b) P)"
  by (cases p) simp

lemma oks_map_option [simp]: "oks (map_option f m) P \<longleftrightarrow> oks m (\<lambda>x. P (f x))"
  by (cases m) simp_all

definition guard :: "bool \<Rightarrow> unit option" where
  "guard b = (if b then Some () else None)"

lemma guard_True [simp]: "guard True = Some ()"
  by (simp add: guard_def)

lemma oks_guard [simp]: "oks (guard b) P \<longleftrightarrow> b \<and> P ()"
  by (cases b) (simp_all add: guard_def)

section \<open>Vectors\<close>

definition vget :: "'a list \<Rightarrow> u32 \<Rightarrow> 'a option" where
  "vget xs i = (if unat i < length xs then Some (xs ! unat i) else None)"

definition vset :: "'a list \<Rightarrow> u32 \<Rightarrow> 'a \<Rightarrow> 'a list option" where
  "vset xs i x = (if unat i < length xs then Some (xs[unat i := x]) else None)"

lemma oks_vget [simp]: "oks (vget xs i) P \<longleftrightarrow> unat i < length xs \<and> P (xs ! unat i)"
  by (auto simp: vget_def)

lemma oks_vset [simp]: "oks (vset xs i x) P \<longleftrightarrow> unat i < length xs \<and> P (xs[unat i := x])"
  by (auto simp: vset_def)

lemma nth_list_update_u32 [simp]:
  "unat i < length xs \<Longrightarrow> xs[unat i := x] ! unat j = (if i = j then x else xs ! unat j)"
  by (metis nth_list_update_eq nth_list_update_neq unsigned_word_eqI)

section \<open>Loops over an index range\<close>

text \<open>\<open>for (uint32_t i = 0; i < n; ++i) body(i)\<close> is a fold over the list of its indices.\<close>

fun ofold :: "('i \<Rightarrow> 's \<Rightarrow> 's option) \<Rightarrow> 'i list \<Rightarrow> 's \<Rightarrow> 's option" where
  "ofold f [] s = Some s"
| "ofold f (i # is) s = f i s \<bind> ofold f is"

definition upto32 :: "u32 \<Rightarrow> u32 list" where
  "upto32 n = map of_nat [0..<unat n]"

lemma ofold_append [simp]: "ofold f (xs @ ys) s = ofold f xs s \<bind> ofold f ys"
  by (induction xs arbitrary: s) (auto split: bind_splits)

lemma ofold_inv:
  assumes "\<And>i s. i \<in> set is \<Longrightarrow> I s \<Longrightarrow> oks (f i s) I" and "I s"
  shows "oks (ofold f is s) I"
  using assms
proof (induction "is" arbitrary: s)
  case (Cons i "is")
  have "oks (f i s) I" using Cons.prems by simp
  then show ?case
    by (auto elim!: oksE intro!: Cons.IH Cons.prems(1))
qed simp

lemma replicate_two: "replicate 2 x = [x, x]"
  by (simp add: numeral_2_eq_2)

lemma unat_of_nat_u32: "n < 2 ^ 32 \<Longrightarrow> unat (of_nat n :: u32) = n"
  by (simp add: unsigned_of_nat take_bit_nat_eq_self)

lemma unat_u32_bound: "unat (w :: u32) < 2 ^ 32"
  by (rule order_less_le_trans [OF unsigned_less]) simp

lemma unat_u64_bound: "unat (w :: u64) < 2 ^ 64"
  by (rule order_less_le_trans [OF unsigned_less]) simp

lemma set_upto32: "set (upto32 n) = {i. i < n}"
proof -
  have "i \<in> of_nat ` {0..<unat n}" if "i < n" for i
  proof -
    have "unat i < unat n" using that by (simp add: word_less_nat_alt)
    moreover have "i = of_nat (unat i)" by simp
    ultimately show ?thesis by (metis atLeastLessThan_iff image_eqI zero_le)
  qed
  moreover have "(of_nat k :: u32) < n" if "k < unat n" for k
    using that unat_u32_bound [of n]
    by (simp add: word_less_nat_alt unat_of_nat_u32)
  ultimately show ?thesis by (auto simp: upto32_def)
qed

lemma distinct_upto32: "distinct (upto32 n)"
proof -
  have "inj_on (of_nat :: nat \<Rightarrow> u32) {0..<unat n}"
    using unat_u32_bound [of n]
    by (intro inj_onI) (metis atLeastLessThan_iff order.strict_trans unat_of_nat_u32)
  then show ?thesis by (simp add: upto32_def distinct_map)
qed

lemma length_upto32 [simp]: "length (upto32 n) = unat n"
  by (simp add: upto32_def)

lemma card_less_u32: "card {i. i < (n :: u32)} = unat n"
  using distinct_card [OF distinct_upto32 [of n]] by (simp add: set_upto32)

section \<open>Word arithmetic without wrap-around\<close>

lemma unat_add_u32: "unat a + unat b < 2 ^ 32 \<Longrightarrow> unat (a + b :: u32) = unat a + unat b"
  by (simp add: unat_word_ariths)

lemma unat_mult_u32: "unat a * unat b < 2 ^ 32 \<Longrightarrow> unat (a * b :: u32) = unat a * unat b"
  by (simp add: unat_word_ariths)

lemma unat_Suc_u32: "unat a + 1 < 2 ^ 32 \<Longrightarrow> unat (a + 1 :: u32) = Suc (unat a)"
  by (simp add: unat_word_ariths)

lemma unat_pred_u32: "0 < unat a \<Longrightarrow> unat (a - 1 :: u32) = unat a - 1"
  by (metis less_irrefl unat_0 unat_minus_one)

lemma unat_sub_u32: "b \<le> a \<Longrightarrow> unat (a - b :: u32) = unat a - unat b"
  by (simp add: unat_sub)

section \<open>Ordered partial functions\<close>

lemma map_of_map_key:
  "distinct (map f xs) \<Longrightarrow> x \<in> set xs \<Longrightarrow> map_of (map (\<lambda>x. (f x, g x)) xs) (f x) = Some (g x)"
  by (induction xs) (auto simp: image_iff)

end
