(* ===== verification/Float32.thy ===== *)
theory Float32
  imports Prelude
begin

text \<open>
  The single-precision arithmetic the code uses: the product of an unsigned 32-bit integer and a
  positive \<open>float\<close>, truncated to an unsigned integer (\<open>static_cast<uint32_t>(capacity * pct)\<close>).
  A positive finite float is a 24-bit significand over a power of two. The integer operand is
  converted to float first (round to nearest, ties to even, 24 significant bits), the product is
  rounded the same way, and the conversion to an integer type truncates; a value that does not fit
  the integer type is undefined behaviour in C++ and \<open>None\<close> here. Subnormal results do not occur:
  a nonzero product is at least the float operand itself.
\<close>

record float32 =
  f_mant :: nat
  f_scale :: nat

fun bitlen :: "nat \<Rightarrow> nat" where
  "bitlen n = (if n = 0 then 0 else Suc (bitlen (n div 2)))"

declare bitlen.simps [simp del]

definition rne_shift :: "nat \<Rightarrow> nat \<Rightarrow> nat" where
  "rne_shift n k =
     (if k = 0 then n
      else let q = n div 2 ^ k; r = n mod 2 ^ k; half = 2 ^ (k - 1)
           in if r < half \<or> (r = half \<and> even q) then q else Suc q)"

definition f32_round :: "nat \<Rightarrow> nat" where
  "f32_round n = (let k = bitlen n - 24 in rne_shift n k * 2 ^ k)"

definition u32_times_f32 :: "u32 \<Rightarrow> float32 \<Rightarrow> nat" where
  "u32_times_f32 c f = f32_round (f32_round (unat c) * f_mant f) div 2 ^ f_scale f"

definition f32_to_u32 :: "nat \<Rightarrow> u32 option" where
  "f32_to_u32 n = (if n < 2 ^ 32 then Some (of_nat n) else None)"

definition f32_to_u64 :: "nat \<Rightarrow> u64 option" where
  "f32_to_u64 n = (if n < 2 ^ 64 then Some (of_nat n) else None)"

text \<open>The float literals of the code, as the compiler rounds them.\<close>

definition f32_0_01 :: float32 where
  "f32_0_01 = \<lparr>f_mant = 10737418, f_scale = 30\<rparr>"

definition f32_0_20 :: float32 where
  "f32_0_20 = \<lparr>f_mant = 13421773, f_scale = 26\<rparr>"

definition f32_0_80 :: float32 where
  "f32_0_80 = \<lparr>f_mant = 13421773, f_scale = 24\<rparr>"

lemma bitlen_upper: "n < 2 ^ bitlen n"
proof (induction n rule: bitlen.induct)
  case (1 n)
  show ?case
  proof (cases "n = 0")
    case True
    then show ?thesis by (simp add: bitlen.simps)
  next
    case False
    then have "n div 2 < 2 ^ bitlen (n div 2)" using 1 by simp
    then have "n < 2 * 2 ^ bitlen (n div 2)" by linarith
    then show ?thesis using False by (simp add: bitlen.simps [of n])
  qed
qed

lemma bitlen_le_iff: "bitlen n \<le> k \<longleftrightarrow> n < 2 ^ k"
proof (induction n arbitrary: k rule: bitlen.induct)
  case (1 n)
  show ?case
  proof (cases "n = 0")
    case True
    then show ?thesis by (simp add: bitlen.simps)
  next
    case False
    show ?thesis
    proof (cases k)
      case 0
      then show ?thesis using False by (simp add: bitlen.simps [of n])
    next
      case (Suc j)
      have "bitlen (n div 2) \<le> j \<longleftrightarrow> n div 2 < 2 ^ j" using 1 False by simp
      also have "\<dots> \<longleftrightarrow> n < 2 * 2 ^ j" by linarith
      finally show ?thesis using False Suc by (simp add: bitlen.simps [of n])
    qed
  qed
qed

lemma rne_shift_upper: "rne_shift n k * 2 ^ k \<le> 2 * n"
proof (cases "k = 0 \<or> rne_shift n k = n div 2 ^ k")
  case True
  have le: "n div 2 ^ k * 2 ^ k \<le> n" by (simp add: div_times_less_eq_dividend)
  show ?thesis
  proof (cases "k = 0")
    case False
    with True have "rne_shift n k = n div 2 ^ k" by simp
    then have "rne_shift n k * 2 ^ k \<le> n" using le by (simp only:)
    then show ?thesis by linarith
  qed (simp add: rne_shift_def)
next
  case False
  then have k: "0 < k" and r: "2 ^ (k - 1) \<le> n mod 2 ^ k" and s: "rne_shift n k = Suc (n div 2 ^ k)"
    by (auto simp: rne_shift_def Let_def split: if_splits)
  have two: "(2::nat) ^ k = 2 * 2 ^ (k - 1)"
    using k by (metis One_nat_def Suc_pred power_Suc)
  have "n div 2 ^ k * 2 ^ k + n mod 2 ^ k = n" by (rule div_mult_mod_eq)
  moreover have "rne_shift n k * 2 ^ k = n div 2 ^ k * 2 ^ k + 2 ^ k" by (simp add: s)
  ultimately show ?thesis using r two by linarith
qed

lemma f32_round_upper: "f32_round n \<le> 2 * n"
  by (simp add: f32_round_def Let_def rne_shift_upper)

lemma rne_shift_exact: "2 ^ k dvd n \<Longrightarrow> rne_shift n k * 2 ^ k = n"
  by (auto simp: rne_shift_def Let_def mod_eq_0_iff_dvd)

lemma f32_round_exact:
  assumes "m < 2 ^ 24" shows "f32_round (m * 2 ^ j) = m * 2 ^ j"
proof -
  have "m * 2 ^ j < 2 ^ (24 + j)" using assms by (simp add: power_add)
  then have "bitlen (m * 2 ^ j) - 24 \<le> j" using bitlen_le_iff [of "m * 2 ^ j" "24 + j"] by linarith
  then have "(2::nat) ^ (bitlen (m * 2 ^ j) - 24) dvd m * 2 ^ j"
    by (simp add: le_imp_power_dvd)
  then show ?thesis by (simp add: f32_round_def Let_def rne_shift_exact)
qed

text \<open>A power of two times a float is exact: only the truncation remains.\<close>

lemma u32_times_f32_pow2:
  assumes "unat c = 2 ^ j" and "f_mant f < 2 ^ 24"
  shows "u32_times_f32 c f = (2 ^ j * f_mant f) div 2 ^ f_scale f"
  using f32_round_exact [of 1 j] f32_round_exact [OF assms(2), of j]
  by (simp add: u32_times_f32_def assms(1) mult.commute)

lemma u32_times_f32_upper:
  "u32_times_f32 c f \<le> (4 * unat c * f_mant f) div 2 ^ f_scale f"
proof -
  have "f32_round (f32_round (unat c) * f_mant f) \<le> 2 * (f32_round (unat c) * f_mant f)"
    by (rule f32_round_upper)
  also have "\<dots> \<le> 2 * (2 * unat c * f_mant f)"
    by (intro mult_le_mono order_refl f32_round_upper)
  finally show ?thesis
    unfolding u32_times_f32_def by (intro div_le_mono) simp
qed

lemma u32_times_f32_zero [simp]: "u32_times_f32 0 f = 0"
  using u32_times_f32_upper [of 0 f] by simp

text \<open>A fraction of at most a quarter stays within the operand; below that it is strictly smaller.\<close>

lemma f32_fraction:
  assumes "4 * f_mant f < 2 ^ f_scale f"
  obtains w where "f32_to_u32 (u32_times_f32 c f) = Some w" and "unat w = u32_times_f32 c f"
    and "unat w \<le> unat c" and "0 < unat c \<Longrightarrow> unat w < unat c"
proof -
  have le: "u32_times_f32 c f \<le> unat c * (4 * f_mant f) div 2 ^ f_scale f"
    using u32_times_f32_upper [of c f] by (simp add: ac_simps)
  also have "\<dots> \<le> unat c * 2 ^ f_scale f div 2 ^ f_scale f"
    using assms by (intro div_le_mono mult_le_mono2) simp
  finally have c: "u32_times_f32 c f \<le> unat c" by simp
  have less: "u32_times_f32 c f < unat c" if "0 < unat c"
  proof -
    have "unat c * (4 * f_mant f) < unat c * 2 ^ f_scale f" using assms that by simp
    then have "unat c * (4 * f_mant f) div 2 ^ f_scale f < unat c"
      by (simp add: less_mult_imp_div_less)
    with le show ?thesis by simp
  qed
  have b: "u32_times_f32 c f < 2 ^ 32" using c unat_u32_bound [of c] by simp
  have "unat (of_nat (u32_times_f32 c f) :: u32) = u32_times_f32 c f" using b by (rule unat_of_nat_u32)
  then show ?thesis using that [of "of_nat (u32_times_f32 c f)"] b c less by (simp add: f32_to_u32_def)
qed

end
