(* ===== verification/Cache_Types.thy ===== *)
theory Cache_Types
  imports Prelude "HOL-Library.Char_ord"
begin

text \<open>
  \<open>include/types.h\<close>: the constants, the slab's node and the segment tags. A \<open>std::string\<close> is a
  sequence of bytes, hence HOL's \<open>string\<close> (a list of 8-bit characters).
\<close>

definition kNumStripes :: u32 where
  "kNumStripes = 64"

definition kInvalidIndex :: u32 where
  "kInvalidIndex = 0xFFFFFFFF"

record cache_node =
  n_prev :: u32
  n_next :: u32
  n_key :: string
  n_value :: string
  n_segment :: u8

text \<open>The default member initialisers, and \<open>reset()\<close>, which restores them.\<close>

definition node_default :: cache_node where
  "node_default = \<lparr>n_prev = kInvalidIndex, n_next = kInvalidIndex, n_key = [], n_value = [], n_segment = 0\<rparr>"

definition node_reset :: "cache_node \<Rightarrow> cache_node" where
  "node_reset n = n\<lparr>n_prev := kInvalidIndex, n_next := kInvalidIndex, n_key := [], n_value := [], n_segment := 0\<rparr>"

datatype segment = Free | Window | Probation | Protected | L2

primrec segment_code :: "segment \<Rightarrow> u8" where
  "segment_code Free = 0"
| "segment_code Window = 1"
| "segment_code Probation = 2"
| "segment_code Protected = 3"
| "segment_code L2 = 4"

text \<open>\<open>static_cast<Segment>(node.segment)\<close>; \<open>None\<close> is a byte that is no enumerator.\<close>

definition segment_of :: "u8 \<Rightarrow> segment option" where
  "segment_of b =
     (if b = 0 then Some Free else if b = 1 then Some Window else if b = 2 then Some Probation
      else if b = 3 then Some Protected else if b = 4 then Some L2 else None)"

lemma segment_of_code [simp]: "segment_of (segment_code s) = Some s"
  by (cases s) (simp_all add: segment_of_def)

lemma segment_code_inj [simp]: "segment_code s = segment_code t \<longleftrightarrow> s = t"
  by (cases s; cases t) simp_all

lemma node_reset_default [simp]: "node_reset n = node_default"
  by (cases n) (simp add: node_reset_def node_default_def)

lemma unat_invalid: "unat kInvalidIndex = 2 ^ 32 - 1"
  by (simp add: kInvalidIndex_def)

lemma less_invalid: "(i :: u32) < n \<Longrightarrow> i \<noteq> kInvalidIndex"
  using unat_u32_bound [of n] unat_invalid by (auto simp: word_less_nat_alt)

end
