(* ===== verification/Slab_Allocator.thy ===== *)
theory Slab_Allocator
  imports Cache_Types
begin

unbundle bit_operations_syntax

text \<open>
  \<open>SlabAllocator\<close> (\<open>include/slab_allocator.h\<close>, \<open>src/slab_allocator.cpp\<close>): the fixed pool of nodes
  shared by all stripes, with its free list threaded through \<open>free_next_\<close> and a head that packs an
  index with a 32-bit tag. This theory models the allocator as one thread sees it: each operation is
  one pass of its compare-and-swap loop. Theory \<open>Slab_Concurrent\<close> models the loop itself, thread by
  thread, and justifies that reading.
\<close>

record slab =
  sl_capacity :: u32
  sl_pool :: "cache_node list"
  sl_free_next :: "u32 list"
  sl_head :: u64
  sl_free_count :: u32

section \<open>The tagged head\<close>

definition pack :: "u32 \<Rightarrow> u32 \<Rightarrow> u64" where
  "pack index tag = push_bit 32 (ucast tag) OR ucast index"

definition unpack_index :: "u64 \<Rightarrow> u32" where
  "unpack_index p = ucast (p AND 0xFFFFFFFF)"

definition unpack_tag :: "u64 \<Rightarrow> u32" where
  "unpack_tag p = ucast (drop_bit 32 p)"

lemma mask32: "(0xFFFFFFFF :: u64) = mask 32"
  by (simp add: mask_eq_exp_minus_1)

lemmas pack_bits = pack_def unpack_index_def unpack_tag_def mask32 bit_simps

lemma unpack_index_pack [simp]: "unpack_index (pack i t) = i"
  by (rule bit_word_eqI) (auto simp: pack_bits)

lemma unpack_tag_pack [simp]: "unpack_tag (pack i t) = t"
  by (rule bit_word_eqI) (auto simp: pack_bits dest: bit_imp_le_length)

lemma pack_unpack [simp]: "pack (unpack_index p) (unpack_tag p) = p"
  by (rule bit_word_eqI) (auto simp: pack_bits)

lemma pack_eq_iff [simp]: "pack i t = pack j u \<longleftrightarrow> i = j \<and> t = u"
  by (metis unpack_index_pack unpack_tag_pack)

section \<open>Operations\<close>

text \<open>The constructor; a zero capacity throws \<open>std::invalid_argument\<close>, the left summand.\<close>

definition slab_new :: "u32 \<Rightarrow> string + slab" where
  "slab_new capacity =
     (if capacity = 0 then Inl ''SlabAllocator capacity must be > 0''
      else Inr \<lparr>sl_capacity = capacity,
                sl_pool = replicate (unat capacity) node_default,
                sl_free_next = map (\<lambda>i. of_nat i + 1) [0..<unat (capacity - 1)] @ [kInvalidIndex],
                sl_head = pack 0 0,
                sl_free_count = capacity\<rparr>)"

definition slab_allocate :: "slab \<Rightarrow> (u32 \<times> slab) option" where
  "slab_allocate s =
     (let old_packed = sl_head s;
          old_index = unpack_index old_packed;
          old_tag = unpack_tag old_packed
      in if old_index = kInvalidIndex then Some (kInvalidIndex, s)
         else do {
           new_index \<leftarrow> vget (sl_free_next s) old_index;
           let s = s\<lparr>sl_head := pack new_index (old_tag + 1)\<rparr>;
           n \<leftarrow> vget (sl_pool s) old_index;
           pool \<leftarrow> vset (sl_pool s) old_index (node_reset n);
           Some (old_index, s\<lparr>sl_pool := pool, sl_free_count := sl_free_count s - 1\<rparr>)
         })"

definition slab_deallocate :: "u32 \<Rightarrow> slab \<Rightarrow> slab option" where
  "slab_deallocate index s =
     do {
       guard (index < sl_capacity s);
       n \<leftarrow> vget (sl_pool s) index;
       pool \<leftarrow> vset (sl_pool s) index (node_reset n);
       let s = s\<lparr>sl_pool := pool\<rparr>;
       let old_packed = sl_head s;
       let old_index = unpack_index old_packed;
       let old_tag = unpack_tag old_packed;
       free_next \<leftarrow> vset (sl_free_next s) index old_index;
       Some (s\<lparr>sl_free_next := free_next, sl_head := pack index (old_tag + 1),
               sl_free_count := sl_free_count s + 1\<rparr>)
     }"

text \<open>\<open>node(index)\<close> returns a reference: reads go through \<open>slab_node\<close>, writes through
  \<open>slab_modify\<close>.\<close>

definition slab_node :: "slab \<Rightarrow> u32 \<Rightarrow> cache_node option" where
  "slab_node s index = do { guard (index < sl_capacity s); vget (sl_pool s) index }"

definition slab_modify :: "u32 \<Rightarrow> (cache_node \<Rightarrow> cache_node) \<Rightarrow> slab \<Rightarrow> slab option" where
  "slab_modify index f s =
     do {
       n \<leftarrow> slab_node s index;
       pool \<leftarrow> vset (sl_pool s) index (f n);
       Some (s\<lparr>sl_pool := pool\<rparr>)
     }"

definition slab_available :: "slab \<Rightarrow> u32" where
  "slab_available s = sl_free_count s"

section \<open>The free list\<close>

text \<open>\<open>chain nx h is\<close>: following \<open>nx\<close> from \<open>h\<close> visits exactly the indices \<open>is\<close> and ends at
  \<open>kInvalidIndex\<close>.\<close>

primrec chain :: "(u32 \<Rightarrow> u32) \<Rightarrow> u32 \<Rightarrow> u32 list \<Rightarrow> bool" where
  "chain nx h [] \<longleftrightarrow> h = kInvalidIndex"
| "chain nx h (i # is) \<longleftrightarrow> h = i \<and> i \<noteq> kInvalidIndex \<and> chain nx (nx i) is"

primrec walk :: "nat \<Rightarrow> (u32 \<Rightarrow> u32) \<Rightarrow> u32 \<Rightarrow> u32 list" where
  "walk 0 nx h = []"
| "walk (Suc n) nx h = (if h = kInvalidIndex then [] else h # walk n nx (nx h))"

definition slab_free_list :: "slab \<Rightarrow> u32 list" where
  "slab_free_list s =
     walk (unat (sl_free_count s)) (\<lambda>i. sl_free_next s ! unat i) (unpack_index (sl_head s))"

definition slab_rep :: "slab \<Rightarrow> u32 list \<Rightarrow> bool" where
  "slab_rep s fs \<longleftrightarrow>
     length (sl_pool s) = unat (sl_capacity s) \<and> length (sl_free_next s) = unat (sl_capacity s) \<and>
     distinct fs \<and> (\<forall>i \<in> set fs. i < sl_capacity s) \<and>
     chain (\<lambda>i. sl_free_next s ! unat i) (unpack_index (sl_head s)) fs \<and>
     sl_free_count s = of_nat (length fs)"

definition slab_inv :: "slab \<Rightarrow> bool" where
  "slab_inv s \<longleftrightarrow> slab_rep s (slab_free_list s)"

lemma chain_cong: "(\<And>i. i \<in> set is \<Longrightarrow> nx i = nx' i) \<Longrightarrow> chain nx h is = chain nx' h is"
  by (induction "is" arbitrary: h) auto

lemma chain_unique: "chain nx h is \<Longrightarrow> chain nx h js \<Longrightarrow> is = js"
proof (induction "is" arbitrary: h js)
  case Nil
  then show ?case by (cases js) auto
next
  case (Cons i "is")
  then show ?case by (cases js) auto
qed

lemma walk_chain: "chain nx h is \<Longrightarrow> walk (length is) nx h = is"
  by (induction "is" arbitrary: h) auto

lemma length_indices:
  assumes "distinct is" and "\<forall>i \<in> set is. i < (n :: u32)"
  shows "length is \<le> unat n"
proof -
  have "inj_on unat (set is)" by (rule inj_onI) (erule unsigned_word_eqI)
  then have "length is = card (unat ` set is)"
    using assms(1) by (simp add: distinct_card card_image)
  also have "unat ` set is \<subseteq> {0..<unat n}"
    using assms(2) by (auto simp: word_less_nat_alt)
  then have "card (unat ` set is) \<le> unat n"
    by (metis card_atLeastLessThan card_mono diff_zero finite_atLeastLessThan)
  finally show ?thesis .
qed

lemma unat_length_indices:
  assumes "distinct is" and "\<forall>i \<in> set is. i < (n :: u32)"
  shows "unat (of_nat (length is) :: u32) = length is"
  using length_indices [OF assms] unat_u32_bound [of n] by (simp add: unat_of_nat_u32)

lemma slab_free_count_length: "slab_rep s fs \<Longrightarrow> unat (sl_free_count s) = length fs"
  using unat_length_indices [of fs "sl_capacity s"] by (simp add: slab_rep_def)

lemma slab_rep_free_list:
  assumes "slab_rep s fs" shows "slab_free_list s = fs"
  unfolding slab_free_list_def slab_free_count_length [OF assms]
  by (rule walk_chain) (use assms in \<open>simp add: slab_rep_def\<close>)

lemma slab_rep_inv: "slab_rep s fs \<Longrightarrow> slab_inv s"
  by (simp add: slab_inv_def slab_rep_free_list)

lemma slab_rep_unique: "slab_rep s fs \<Longrightarrow> slab_rep s gs \<Longrightarrow> fs = gs"
  by (metis slab_rep_free_list)

section \<open>What the operations do to the free list and the nodes\<close>

lemma slab_allocate_empty: "slab_rep s [] \<Longrightarrow> slab_allocate s = Some (kInvalidIndex, s)"
  by (simp add: slab_rep_def slab_allocate_def)

lemma slab_allocate_Cons:
  assumes "slab_rep s (i # fs)"
  shows "oks (slab_allocate s) (\<lambda>(j, s'). j = i \<and> slab_rep s' fs \<and> sl_capacity s' = sl_capacity s \<and>
           sl_pool s' = (sl_pool s)[unat i := node_default])"
proof -
  have "unat i < unat (sl_capacity s)"
    using assms by (simp add: slab_rep_def word_less_nat_alt)
  then show ?thesis
    using assms by (simp add: slab_rep_def slab_allocate_def Let_def)
qed

lemma slab_deallocate_ok:
  assumes "slab_rep s fs" and "i < sl_capacity s" and "i \<notin> set fs"
  shows "oks (slab_deallocate i s) (\<lambda>s'. slab_rep s' (i # fs) \<and> sl_capacity s' = sl_capacity s \<and>
           sl_pool s' = (sl_pool s)[unat i := node_default])"
proof -
  have "unat i < unat (sl_capacity s)"
    using assms(2) by (simp add: word_less_nat_alt)
  moreover have "chain (\<lambda>j. (sl_free_next s)[unat i := h] ! unat j) h' fs = chain (\<lambda>j. sl_free_next s ! unat j) h' fs" for h h'
    using assms calculation by (intro chain_cong) (auto simp: slab_rep_def)
  ultimately show ?thesis
    using assms less_invalid [OF assms(2)]
    by (simp add: slab_rep_def slab_deallocate_def Let_def add.commute)
qed

definition slab_wf :: "slab \<Rightarrow> bool" where
  "slab_wf s \<longleftrightarrow> length (sl_pool s) = unat (sl_capacity s)"

abbreviation node_at :: "slab \<Rightarrow> u32 \<Rightarrow> cache_node" where
  "node_at s i \<equiv> sl_pool s ! unat i"

lemma slab_rep_wf: "slab_rep s fs \<Longrightarrow> slab_wf s"
  by (simp add: slab_rep_def slab_wf_def)

lemma slab_node_ok:
  "slab_wf s \<Longrightarrow> i < sl_capacity s \<Longrightarrow> slab_node s i = Some (node_at s i)"
  by (simp add: slab_node_def slab_wf_def vget_def word_less_nat_alt)

text \<open>The effect of a write through a node reference.\<close>

definition node_upd :: "u32 \<Rightarrow> (cache_node \<Rightarrow> cache_node) \<Rightarrow> slab \<Rightarrow> slab" where
  "node_upd i f s = s\<lparr>sl_pool := (sl_pool s)[unat i := f (node_at s i)]\<rparr>"

lemma node_upd_fields [simp]:
  "sl_capacity (node_upd i f s) = sl_capacity s"
  "sl_free_next (node_upd i f s) = sl_free_next s"
  "sl_head (node_upd i f s) = sl_head s"
  "sl_free_count (node_upd i f s) = sl_free_count s"
  "length (sl_pool (node_upd i f s)) = length (sl_pool s)"
  "slab_wf (node_upd i f s) = slab_wf s"
  by (simp_all add: node_upd_def slab_wf_def)

lemma node_upd_at [simp]:
  "slab_wf s \<Longrightarrow> i < sl_capacity s \<Longrightarrow>
   node_at (node_upd i f s) j = (if i = j then f (node_at s i) else node_at s j)"
  by (simp add: node_upd_def slab_wf_def word_less_nat_alt)

lemma slab_modify_ok:
  "slab_wf s \<Longrightarrow> i < sl_capacity s \<Longrightarrow> slab_modify i f s = Some (node_upd i f s)"
  by (simp add: slab_modify_def slab_node_def slab_wf_def vget_def vset_def word_less_nat_alt node_upd_def)

lemma slab_rep_node_upd [simp]: "slab_rep (node_upd i f s) fs = slab_rep s fs"
  by (simp add: slab_rep_def)

lemma chain_range:
  assumes "k < n" and "n < 2 ^ 32"
    and "\<And>j. j < n \<Longrightarrow> nx (of_nat j) = (if Suc j < n then of_nat (Suc j) else kInvalidIndex)"
  shows "chain nx (of_nat k) (map of_nat [k..<n])"
  using assms(1)
proof (induction "n - k" arbitrary: k)
  case 0
  then show ?case by simp
next
  case (Suc d)
  have ne: "(of_nat k :: u32) \<noteq> kInvalidIndex"
    using Suc.prems assms(2) unat_of_nat_u32 [of k] unat_invalid by auto
  show ?case
  proof (cases "Suc k < n")
    case True
    then show ?thesis
      using Suc.hyps(1) [of "Suc k"] Suc.hyps(2) Suc.prems assms(3) [of k] ne
      by (simp add: upt_conv_Cons)
  next
    case False
    then have "[k..<n] = [k]" using Suc.prems by (simp add: upt_conv_Cons)
    then show ?thesis using False Suc.prems assms(3) [of k] ne by simp
  qed
qed

lemma slab_new_rep:
  assumes "slab_new c = Inr s"
  shows "slab_rep s (upto32 c)" and "sl_capacity s = c" and "sl_pool s = replicate (unat c) node_default"
proof -
  have c: "c \<noteq> 0" using assms by (auto simp: slab_new_def)
  then have pos: "0 < unat c" by (simp add: unat_gt_0)
  have pred: "unat (c - 1) = unat c - 1" using pos by (rule unat_pred_u32)
  have s: "s = \<lparr>sl_capacity = c, sl_pool = replicate (unat c) node_default,
      sl_free_next = map (\<lambda>i. of_nat i + 1) [0..<unat c - 1] @ [kInvalidIndex],
      sl_head = pack 0 0, sl_free_count = c\<rparr>"
    using assms c by (simp add: slab_new_def pred)
  have "chain (\<lambda>i. sl_free_next s ! unat i) (of_nat 0) (map of_nat [0..<unat c])"
  proof (rule chain_range [OF pos])
    show "unat c < 2 ^ 32" by (rule unat_u32_bound)
  next
    fix j assume "j < unat c"
    then show "sl_free_next s ! unat (of_nat j :: u32) = (if Suc j < unat c then of_nat (Suc j) else kInvalidIndex)"
      using unat_u32_bound [of c]
      by (cases "Suc j < unat c") (simp_all add: s unat_of_nat_u32 nth_append less_diff_conv)
  qed
  then show "slab_rep s (upto32 c)"
    using pos pred by (auto simp: slab_rep_def s distinct_upto32 set_upto32 simp flip: upto32_def)
qed (use assms in \<open>auto simp: slab_new_def split: if_splits\<close>)

lemma slab_new_zero: "slab_new 0 = Inl ''SlabAllocator capacity must be > 0''"
  by (simp add: slab_new_def)

end
