(* ===== verification/Lru_List.thy ===== *)
theory Lru_List
  imports Slab_Allocator
begin

text \<open>
  \<open>IntrusiveLRU\<close> (\<open>include/lru_list.h\<close>, \<open>src/lru_list.cpp\<close>): a doubly linked list threaded through
  the \<open>prev\<close> and \<open>next\<close> fields of slab nodes, addressed by index. The operations below follow the
  C++ statement by statement, re-reading a node wherever the source does, so aliasing between the
  nodes they touch is as in the code. The abstraction is the list of indices, front first.
\<close>

record lru =
  l_head :: u32
  l_tail :: u32
  l_size :: u32

definition lru_new :: lru where
  "lru_new = \<lparr>l_head = kInvalidIndex, l_tail = kInvalidIndex, l_size = 0\<rparr>"

section \<open>Operations\<close>

definition lru_push_front :: "u32 \<Rightarrow> slab \<times> lru \<Rightarrow> (slab \<times> lru) option" where
  "lru_push_front index = (\<lambda>(s, l). do {
     guard (index \<noteq> kInvalidIndex);
     s \<leftarrow> slab_modify index (\<lambda>node. node\<lparr>n_prev := kInvalidIndex, n_next := l_head l\<rparr>) s;
     (s, l) \<leftarrow> (if l_head l \<noteq> kInvalidIndex
               then do { s \<leftarrow> slab_modify (l_head l) (\<lambda>node. node\<lparr>n_prev := index\<rparr>) s; Some (s, l) }
               else Some (s, l\<lparr>l_tail := index\<rparr>));
     Some (s, l\<lparr>l_head := index, l_size := l_size l + 1\<rparr>)
   })"

definition lru_remove :: "u32 \<Rightarrow> slab \<times> lru \<Rightarrow> (slab \<times> lru) option" where
  "lru_remove index = (\<lambda>(s, l). do {
     guard (index \<noteq> kInvalidIndex);
     guard (0 < l_size l);
     node \<leftarrow> slab_node s index;
     (s, l) \<leftarrow> (if n_prev node \<noteq> kInvalidIndex
               then do { s \<leftarrow> slab_modify (n_prev node) (\<lambda>m. m\<lparr>n_next := n_next node\<rparr>) s; Some (s, l) }
               else Some (s, l\<lparr>l_head := n_next node\<rparr>));
     node \<leftarrow> slab_node s index;
     (s, l) \<leftarrow> (if n_next node \<noteq> kInvalidIndex
               then do { s \<leftarrow> slab_modify (n_next node) (\<lambda>m. m\<lparr>n_prev := n_prev node\<rparr>) s; Some (s, l) }
               else Some (s, l\<lparr>l_tail := n_prev node\<rparr>));
     s \<leftarrow> slab_modify index (\<lambda>node. node\<lparr>n_prev := kInvalidIndex, n_next := kInvalidIndex\<rparr>) s;
     Some (s, l\<lparr>l_size := l_size l - 1\<rparr>)
   })"

definition lru_pop_back :: "slab \<times> lru \<Rightarrow> (u32 \<times> slab \<times> lru) option" where
  "lru_pop_back = (\<lambda>(s, l).
     if l_tail l = kInvalidIndex then Some (kInvalidIndex, s, l)
     else do {
       let victim = l_tail l;
       (s, l) \<leftarrow> lru_remove victim (s, l);
       Some (victim, s, l)
     })"

definition lru_peek_front :: "lru \<Rightarrow> u32" where
  "lru_peek_front l = l_head l"

definition lru_peek_back :: "lru \<Rightarrow> u32" where
  "lru_peek_back l = l_tail l"

definition lru_empty :: "lru \<Rightarrow> bool" where
  "lru_empty l \<longleftrightarrow> l_size l = 0"

definition lru_move_to_front :: "u32 \<Rightarrow> slab \<times> lru \<Rightarrow> (slab \<times> lru) option" where
  "lru_move_to_front index = (\<lambda>(s, l). do {
     guard (index \<noteq> kInvalidIndex);
     if index = l_head l then Some (s, l)
     else do { sl \<leftarrow> lru_remove index (s, l); lru_push_front index sl }
   })"

section \<open>The list a header represents\<close>

primrec dll :: "(u32 \<Rightarrow> cache_node) \<Rightarrow> u32 \<Rightarrow> u32 list \<Rightarrow> u32 \<Rightarrow> bool" where
  "dll nd p [] n \<longleftrightarrow> True"
| "dll nd p (x # xs) n \<longleftrightarrow> n_prev (nd x) = p \<and> n_next (nd x) = hd (xs @ [n]) \<and> dll nd x xs n"

definition lru_rep :: "slab \<Rightarrow> lru \<Rightarrow> u32 list \<Rightarrow> bool" where
  "lru_rep s l xs \<longleftrightarrow>
     distinct xs \<and> (\<forall>i \<in> set xs. i < sl_capacity s) \<and>
     dll (node_at s) kInvalidIndex xs kInvalidIndex \<and>
     l_head l = hd (xs @ [kInvalidIndex]) \<and> l_tail l = last (kInvalidIndex # xs) \<and>
     l_size l = of_nat (length xs)"

text \<open>The same list, computed by following \<open>next\<close> from the head.\<close>

definition lru_nodes :: "slab \<Rightarrow> lru \<Rightarrow> u32 list" where
  "lru_nodes s l = walk (unat (l_size l)) (\<lambda>i. n_next (node_at s i)) (l_head l)"

text \<open>What a list operation may change: only the links of the nodes in \<open>A\<close>.\<close>

definition links_only :: "slab \<Rightarrow> slab \<Rightarrow> u32 set \<Rightarrow> bool" where
  "links_only s s' A \<longleftrightarrow>
     sl_capacity s' = sl_capacity s \<and> sl_free_next s' = sl_free_next s \<and> sl_head s' = sl_head s \<and>
     sl_free_count s' = sl_free_count s \<and> length (sl_pool s') = length (sl_pool s) \<and>
     (\<forall>i. n_key (node_at s' i) = n_key (node_at s i) \<and> n_value (node_at s' i) = n_value (node_at s i) \<and>
          n_segment (node_at s' i) = n_segment (node_at s i)) \<and>
     (\<forall>i. i \<notin> A \<longrightarrow> node_at s' i = node_at s i)"

lemma dll_append [simp]:
  "dll nd p (xs @ ys) n \<longleftrightarrow> dll nd p xs (hd (ys @ [n])) \<and> dll nd (last (p # xs)) ys n"
  by (induction xs arbitrary: p) (auto simp: hd_append)

lemma dll_cong:
  "(\<And>i. i \<in> set xs \<Longrightarrow> n_prev (nd i) = n_prev (nd' i) \<and> n_next (nd i) = n_next (nd' i)) \<Longrightarrow>
   dll nd p xs n = dll nd' p xs n"
  by (induction xs arbitrary: p) auto

lemma dll_chain: "dll nd p xs kInvalidIndex \<Longrightarrow> \<forall>i \<in> set xs. i \<noteq> kInvalidIndex \<Longrightarrow>
   chain (\<lambda>i. n_next (nd i)) (hd (xs @ [kInvalidIndex])) xs"
  by (induction xs arbitrary: p) auto

lemma lru_rep_new [simp]: "lru_rep s lru_new []"
  by (simp add: lru_rep_def lru_new_def)

lemma lru_rep_valid: "lru_rep s l xs \<Longrightarrow> i \<in> set xs \<Longrightarrow> i \<noteq> kInvalidIndex"
  by (auto simp: lru_rep_def dest: less_invalid)

lemma lru_rep_length: "lru_rep s l xs \<Longrightarrow> unat (l_size l) = length xs"
  using unat_length_indices [of xs "sl_capacity s"] by (simp add: lru_rep_def)

lemma lru_rep_nodes:
  assumes "lru_rep s l xs" shows "lru_nodes s l = xs"
  unfolding lru_nodes_def lru_rep_length [OF assms]
  by (rule walk_chain) (use assms dll_chain [of "node_at s" kInvalidIndex xs] lru_rep_valid [OF assms] in
      \<open>simp add: lru_rep_def\<close>)

lemma lru_rep_cong:
  assumes "sl_capacity s' = sl_capacity s"
    and "\<And>i. i \<in> set xs \<Longrightarrow> n_prev (node_at s' i) = n_prev (node_at s i) \<and> n_next (node_at s' i) = n_next (node_at s i)"
  shows "lru_rep s' l xs = lru_rep s l xs"
  using dll_cong [of xs "node_at s'" "node_at s"] assms by (auto simp: lru_rep_def)

lemma links_only_refl [simp]: "links_only s s A"
  by (simp add: links_only_def)

lemma links_only_trans: "links_only s s' A \<Longrightarrow> links_only s' s'' B \<Longrightarrow> links_only s s'' (A \<union> B)"
  by (simp add: links_only_def)

lemma links_only_trans_sub: "links_only s s' A \<Longrightarrow> links_only s' s'' B \<Longrightarrow> B \<subseteq> A \<Longrightarrow> links_only s s'' A"
  by (auto simp: links_only_def)

lemma links_only_mono: "links_only s s' A \<Longrightarrow> A \<subseteq> B \<Longrightarrow> links_only s s' B"
  by (auto simp: links_only_def)

lemma links_only_slab_rep: "links_only s s' A \<Longrightarrow> slab_rep s' fs = slab_rep s fs"
  by (simp add: links_only_def slab_rep_def)

lemma links_only_wf: "links_only s s' A \<Longrightarrow> slab_wf s' = slab_wf s"
  by (simp add: links_only_def slab_wf_def)

lemma links_only_lru_rep: "links_only s s' A \<Longrightarrow> A \<inter> set xs = {} \<Longrightarrow> lru_rep s' l xs = lru_rep s l xs"
  by (rule lru_rep_cong) (auto simp: links_only_def disjoint_iff)

section \<open>The operations on that list\<close>

lemma dll_only:
  assumes "dll nd p xs n" and "\<And>j. j \<notin> A \<Longrightarrow> nd' j = nd j" and "A \<inter> set xs = {}"
  shows "dll nd' p xs n"
  using assms dll_cong [of xs nd' nd] by (metis disjoint_iff)

lemma lru_push_front_ok:
  assumes wf: "slab_wf s" and rep: "lru_rep s l xs" and i: "i < sl_capacity s" "i \<notin> set xs"
  shows "oks (lru_push_front i (s, l)) (\<lambda>(s', l'). lru_rep s' l' (i # xs) \<and> links_only s s' (insert i (set xs)))"
proof (cases xs)
  case Nil
  then show ?thesis
    using assms less_invalid [OF i(1)]
    by (simp add: lru_push_front_def slab_modify_ok lru_rep_def links_only_def)
next
  case (Cons y ys)
  have y: "y < sl_capacity s" "y \<noteq> i" "y \<noteq> kInvalidIndex" and hd: "l_head l = y"
    using assms Cons less_invalid by (auto simp: lru_rep_def)
  let ?s2 = "node_upd y (\<lambda>n. n\<lparr>n_prev := i\<rparr>) (node_upd i (\<lambda>n. n\<lparr>n_prev := kInvalidIndex, n_next := y\<rparr>) s)"
  have run: "lru_push_front i (s, l) = Some (?s2, l\<lparr>l_head := i, l_size := l_size l + 1\<rparr>)"
    using wf i y hd less_invalid [OF i(1)] by (simp add: lru_push_front_def slab_modify_ok)
  have old: "dll (node_at s) y ys kInvalidIndex" and ys: "{i, y} \<inter> set ys = {}"
    using rep Cons i by (auto simp: lru_rep_def)
  have "dll (node_at ?s2) y ys kInvalidIndex"
    by (rule dll_only [OF old _ ys]) (use wf i y in auto)
  then show ?thesis
    using rep Cons i y wf unfolding run lru_rep_def links_only_def by simp
qed

text \<open>Unlinking a middle node rewrites the \<open>next\<close> of the last node before it and the \<open>prev\<close> of the
  first node after it.\<close>

lemma dll_set_last_next:
  assumes "dll nd p as n" and "distinct as" and "as \<noteq> []"
    and "\<And>j. j \<noteq> last as \<Longrightarrow> nd' j = nd j"
    and "n_prev (nd' (last as)) = n_prev (nd (last as))" and "n_next (nd' (last as)) = n'"
  shows "dll nd' p as n'"
  using assms
proof (induction as arbitrary: p)
  case (Cons a as)
  show ?case
  proof (cases "as = []")
    case False
    then have "a \<noteq> last as" using Cons.prems(2) by auto
    then show ?thesis using Cons False by (simp add: hd_append)
  qed (use Cons in simp)
qed simp

lemma dll_set_first_prev:
  assumes "dll nd p (b # bs) n" and "b \<notin> set bs"
    and "\<And>j. j \<noteq> b \<Longrightarrow> nd' j = nd j"
    and "n_next (nd' b) = n_next (nd b)" and "n_prev (nd' b) = p'"
  shows "dll nd' p' (b # bs) n"
proof -
  have "dll nd' b bs n = dll nd b bs n"
    using assms(2,3) by (intro dll_cong) metis
  then show ?thesis using assms by simp
qed

lemma lru_remove_ok:
  assumes wf: "slab_wf s" and rep: "lru_rep s l (as @ i # bs)"
  shows "oks (lru_remove i (s, l)) (\<lambda>(s', l').
           lru_rep s' l' (as @ bs) \<and> links_only s s' (set (as @ i # bs)))"
proof -
  have i: "i < sl_capacity s" and ilist: "i \<notin> set as" "i \<notin> set bs" and as: "set as \<inter> set bs = {}"
    using rep by (auto simp: lru_rep_def)
  have bnds: "j < sl_capacity s" "j \<noteq> kInvalidIndex" if "j \<in> set as \<union> set bs" for j
    using that rep less_invalid by (auto simp: lru_rep_def)
  have "unat (l_size l) = length (as @ i # bs)" using rep by (rule lru_rep_length)
  then have sz: "0 < l_size l" by (simp add: word_less_nat_alt)
  let ?P = "last (kInvalidIndex # as)" and ?N = "hd (bs @ [kInvalidIndex])"
  have PN: "n_prev (node_at s i) = ?P" "n_next (node_at s i) = ?N" and hd: "l_head l = hd (as @ [i])"
    and tl: "l_tail l = last (i # bs)" and P: "as \<noteq> [] \<longrightarrow> ?P \<in> set as" and N: "bs \<noteq> [] \<longrightarrow> ?N \<in> set bs"
    using rep by (auto simp: lru_rep_def hd_append)
  let ?s1 = "if as = [] then s else node_upd ?P (\<lambda>m. m\<lparr>n_next := ?N\<rparr>) s"
  let ?s2 = "if bs = [] then ?s1 else node_upd ?N (\<lambda>m. m\<lparr>n_prev := ?P\<rparr>) ?s1"
  let ?s3 = "node_upd i (\<lambda>m. m\<lparr>n_prev := kInvalidIndex, n_next := kInvalidIndex\<rparr>) ?s2"
  let ?l = "\<lparr>l_head = hd (as @ bs @ [kInvalidIndex]), l_tail = last (kInvalidIndex # as @ bs), l_size = l_size l - 1\<rparr>"
  have Pn: "?P < sl_capacity s" "?P \<noteq> kInvalidIndex" "?P \<noteq> i" "?P \<notin> set bs" if "as \<noteq> []"
    using that bnds P ilist as by (auto simp: disjoint_iff)
  have Nn: "?N < sl_capacity s" "?N \<noteq> kInvalidIndex" "?N \<noteq> i" "?N \<notin> set as" if "bs \<noteq> []"
    using that bnds N ilist as by auto
  have wf12: "slab_wf ?s1" "slab_wf ?s2" using wf by auto
  have run: "lru_remove i (s, l) = Some (?s3, ?l)"
    using wf i sz PN hd tl Pn Nn less_invalid [OF i]
    by (cases "as = []"; cases "bs = []") (simp_all add: lru_remove_def slab_node_ok slab_modify_ok)
  have d0: "dll (node_at s) kInvalidIndex as i" "dll (node_at s) i bs kInvalidIndex"
    using rep by (auto simp: lru_rep_def)
  have "dll (node_at ?s1) kInvalidIndex as ?N"
  proof (cases "as = []")
    case False
    have "dll (node_at ?s1) kInvalidIndex as (if as = [] then i else ?N)"
      by (rule dll_set_last_next [OF d0(1)]) (use False wf Pn rep in \<open>auto simp: lru_rep_def\<close>)
    with False show ?thesis by simp
  qed simp
  then have dA: "dll (node_at ?s3) kInvalidIndex as ?N"
    by (rule dll_only [where A = "insert i (set bs)"]) (use wf i N Nn Pn ilist as in auto)
  have d1: "dll (node_at ?s1) i bs kInvalidIndex"
    by (rule dll_only [OF d0(2), where A = "set as"]) (use wf P Pn as in auto)
  have "dll (node_at ?s2) ?P bs kInvalidIndex"
  proof (cases bs)
    case (Cons b bs')
    show ?thesis
      unfolding Cons
      by (rule dll_set_first_prev [OF d1 [unfolded Cons]])
        (use Cons rep wf Nn in \<open>auto simp: lru_rep_def\<close>)
  qed simp
  then have dB: "dll (node_at ?s3) ?P bs kInvalidIndex"
    by (rule dll_only [where A = "{i}"]) (use wf12 i ilist in auto)
  have "lru_rep ?s3 ?l (as @ bs)"
    using dA dB rep by (auto simp: lru_rep_def)
  moreover have "links_only s ?s3 (set (as @ i # bs))"
    using wf wf12 i P N Pn Nn by (auto simp: links_only_def)
  ultimately show ?thesis by (simp add: run)
qed

lemma lru_pop_back_Nil: "lru_rep s l [] \<Longrightarrow> lru_pop_back (s, l) = Some (kInvalidIndex, s, l)"
  by (simp add: lru_rep_def lru_pop_back_def)

lemma lru_pop_back_ok:
  assumes "slab_wf s" and rep: "lru_rep s l (xs @ [i])"
  shows "oks (lru_pop_back (s, l)) (\<lambda>(j, s', l'). j = i \<and> lru_rep s' l' xs \<and> links_only s s' (set (xs @ [i])))"
proof -
  have "l_tail l = i" "i \<noteq> kInvalidIndex"
    using rep lru_rep_valid [OF rep, of i] by (auto simp: lru_rep_def)
  then show ?thesis
    using lru_remove_ok [OF assms(1), of l xs i "[]"] rep
    by (auto simp: lru_pop_back_def elim!: oks_mono)
qed

lemma lru_move_to_front_ok:
  assumes wf: "slab_wf s" and rep: "lru_rep s l (as @ i # bs)"
  shows "oks (lru_move_to_front i (s, l)) (\<lambda>(s', l').
           lru_rep s' l' (i # as @ bs) \<and> links_only s s' (set (as @ i # bs)))"
proof (cases as)
  case Nil
  then show ?thesis
    using rep lru_rep_valid [OF rep, of i] by (simp add: lru_move_to_front_def lru_rep_def)
next
  case (Cons a as')
  have i: "i < sl_capacity s" "i \<notin> set (as @ bs)" "i \<noteq> l_head l"
    using rep Cons by (auto simp: lru_rep_def)
  have push: "oks (lru_push_front i (s', l')) (\<lambda>(s'', l'').
      lru_rep s'' l'' (i # as @ bs) \<and> links_only s s'' (set (as @ i # bs)))"
    if "lru_rep s' l' (as @ bs)" and fr: "links_only s s' (set (as @ i # bs))" for s' l'
  proof -
    have "slab_wf s'" "i < sl_capacity s'"
      using wf i(1) fr links_only_wf [OF fr] by (auto simp: links_only_def)
    then show ?thesis
      using that(1) i(2)
      by (intro oks_mono [OF lru_push_front_ok [of s' l' "as @ bs" i]])
        (auto intro: links_only_trans_sub [OF fr, simplified])
  qed
  show ?thesis
    using lru_remove_ok [OF wf rep] lru_rep_valid [OF rep, of i] i(3)
    by (auto simp: lru_move_to_front_def intro: push [simplified] elim!: oks_mono)
qed

lemma lru_size_empty: "lru_rep s l xs \<Longrightarrow> lru_empty l \<longleftrightarrow> xs = []"
  using lru_rep_length [of s l xs] by (auto simp: lru_empty_def unsigned_eq_0_iff)

lemma lru_peek_back_last: "lru_rep s l xs \<Longrightarrow> xs \<noteq> [] \<Longrightarrow> lru_peek_back l = last xs"
  by (simp add: lru_rep_def lru_peek_back_def)

end
