(* ===== verification/Freq_Sketch.thy ===== *)
theory Freq_Sketch
  imports Prelude
begin

text \<open>
  The interface the caches use of a frequency sketch: count an access, estimate, halve everything.
  Both sketches of the repository (\<open>CountMinSketch\<close> and the benchmark's \<open>TinyLFUSketch\<close>) provide it.
  The reference is \<open>sk_freq\<close>, the exact count of one key under the same sequence of accesses and
  halvings; the laws of the locale give that a sketch never reports less.
\<close>

datatype 'k sketch_event = Access 'k | Halve

primrec sk_freq :: "'k \<Rightarrow> 'k sketch_event list \<Rightarrow> nat \<Rightarrow> nat" where
  "sk_freq k [] n = n"
| "sk_freq k (e # es) n =
     sk_freq k es (case e of Access k' \<Rightarrow> (if k' = k then Suc n else n) | Halve \<Rightarrow> n div 2)"

definition sk_step :: "('k \<Rightarrow> 's \<Rightarrow> 's option) \<Rightarrow> ('s \<Rightarrow> 's) \<Rightarrow> 'k sketch_event \<Rightarrow> 's \<Rightarrow> 's option" where
  "sk_step inc dec e s = (case e of Access k \<Rightarrow> inc k s | Halve \<Rightarrow> Some (dec s))"

definition sk_run :: "('k \<Rightarrow> 's \<Rightarrow> 's option) \<Rightarrow> ('s \<Rightarrow> 's) \<Rightarrow> 'k sketch_event list \<Rightarrow> 's \<Rightarrow> 's option" where
  "sk_run inc dec es = ofold (sk_step inc dec) es"

lemma sk_freq_mono: "m \<le> n \<Longrightarrow> sk_freq k es m \<le> sk_freq k es n"
proof (induction es arbitrary: m n)
  case (Cons e es)
  have "(case e of Access k' \<Rightarrow> if k' = k then Suc m else m | Halve \<Rightarrow> m div 2) \<le>
        (case e of Access k' \<Rightarrow> if k' = k then Suc n else n | Halve \<Rightarrow> n div 2)"
    using Cons.prems by (auto split: sketch_event.split intro: div_le_mono)
  then show ?case by (simp add: Cons.IH)
qed simp

lemma sk_freq_le: "sk_freq k es n \<le> n + length es"
proof (induction es arbitrary: n)
  case (Cons e es)
  let ?n = "case e of Access k' \<Rightarrow> if k' = k then Suc n else n | Halve \<Rightarrow> n div 2"
  have "?n \<le> Suc n" by (auto split: sketch_event.split)
  with Cons [of ?n] show ?case by simp
qed simp

locale freq_sketch =
  fixes inc :: "'k \<Rightarrow> 's \<Rightarrow> 's option"
    and est :: "'s \<Rightarrow> 'k \<Rightarrow> u32 option"
    and dec :: "'s \<Rightarrow> 's"
    and ok :: "'s \<Rightarrow> bool"
    and room :: "nat \<Rightarrow> 's \<Rightarrow> bool"
    and val :: "'s \<Rightarrow> 'k \<Rightarrow> nat"
  assumes est_val: "ok s \<Longrightarrow> oks (est s k) (\<lambda>e. unat e = val s k)"
    and inc_val: "ok s \<Longrightarrow> room (Suc n) s \<Longrightarrow>
          oks (inc k s) (\<lambda>s'. ok s' \<and> room n s' \<and> val s' k = Suc (val s k) \<and>
            (\<forall>k'. val s k' \<le> val s' k' \<and> val s' k' \<le> Suc (val s k')))"
    and dec_val: "ok s \<Longrightarrow> ok (dec s) \<and> val (dec s) k = val s k div 2"
    and dec_room: "ok s \<Longrightarrow> room (Suc n) s \<Longrightarrow> room n (dec s)"
begin

lemma step_lower:
  assumes "ok s" and "room (Suc n) s" and "m \<le> val s k"
  shows "oks (sk_step inc dec e s) (\<lambda>s'. ok s' \<and> room n s' \<and> sk_freq k [e] m \<le> val s' k)"
proof (cases e)
  case (Access k')
  have "oks (inc k' s) (\<lambda>s'. ok s' \<and> room n s' \<and> sk_freq k [e] m \<le> val s' k)"
    by (rule oks_mono [OF inc_val [OF assms(1,2), of k']]) (use assms(3) Access in \<open>auto intro: order_trans\<close>)
  with Access show ?thesis by (simp add: sk_step_def)
next
  case Halve
  then show ?thesis
    using dec_val [OF assms(1), of k] dec_room [OF assms(1,2)] assms(3)
    by (simp add: sk_step_def div_le_mono)
qed

lemma run_lower:
  assumes "ok s" and "room (length es) s" and "m \<le> val s k"
  shows "oks (sk_run inc dec es s) (\<lambda>s'. ok s' \<and> sk_freq k es m \<le> val s' k)"
  using assms
proof (induction es arbitrary: s m)
  case Nil
  then show ?case by (simp add: sk_run_def)
next
  case (Cons e es)
  show ?case
    unfolding sk_run_def ofold.simps
  proof (rule oks_bindI [OF step_lower [of s "length es" m k e]])
    fix s' assume s': "ok s' \<and> room (length es) s' \<and> sk_freq k [e] m \<le> val s' k"
    then show "oks (ofold (sk_step inc dec) es s') (\<lambda>s'. ok s' \<and> sk_freq k (e # es) m \<le> val s' k)"
      using Cons.IH [of s' "sk_freq k [e] m"] by (simp add: sk_run_def)
  qed (use Cons.prems in auto)
qed

text \<open>The estimate after a run is at least the exact count.\<close>

lemma run_estimate:
  assumes "ok s" and "room (length es) s"
  shows "oks (sk_run inc dec es s) (\<lambda>s'. oks (est s' k) (\<lambda>e. sk_freq k es 0 \<le> unat e))"
  by (rule oks_mono [OF run_lower [OF assms, of 0 k]]) (auto elim!: oks_mono dest!: est_val [of _ k])

text \<open>Halving never reverses a comparison of two estimates.\<close>

lemma halve_keeps_order:
  assumes "ok s" and "val s a \<le> val s b"
  shows "val (dec s) a \<le> val (dec s) b"
  using assms by (simp add: dec_val div_le_mono)

end

end
