(* ===== verification/Count_Min_Sketch.thy ===== *)
theory Count_Min_Sketch
  imports Freq_Sketch
begin

text \<open>
  \<open>CountMinSketch\<close> (\<open>include/count_min_sketch.h\<close>, \<open>src/count_min_sketch.cpp\<close>): \<open>depth_\<close> rows of
  \<open>width_\<close> 32-bit counters in one vector, indexed by the 32-bit product and sum of the code. The hash
  \<open>XXH32(data, size, seed)\<close> belongs to the xxHash library and is the parameter \<open>h32\<close>: nothing is
  assumed of it.
\<close>

type_synonym hash32 = "string \<Rightarrow> u32 \<Rightarrow> u32"

record cms =
  cm_depth :: u32
  cm_width :: u32
  cm_counters :: "u32 list"
  cm_seeds :: "u32 list"
  cm_total :: u64

section \<open>Operations\<close>

definition cms_new :: "u32 \<Rightarrow> u32 \<Rightarrow> cms option" where
  "cms_new depth width = do {
     guard (0 < depth);
     guard (0 < width);
     Some \<lparr>cm_depth = depth, cm_width = width,
           cm_counters = replicate (unat depth * unat width) 0,
           cm_seeds = map (\<lambda>i. 0x9E3779B9 + i * 0x6C62272E) (upto32 depth),
           cm_total = 0\<rparr>
   }"

definition cms_hash :: "hash32 \<Rightarrow> cms \<Rightarrow> string \<Rightarrow> u32 \<Rightarrow> u32 option" where
  "cms_hash h32 c key row = do {
     seed \<leftarrow> vget (cm_seeds c) row;
     guard (cm_width c \<noteq> 0);
     Some (h32 key seed mod cm_width c)
   }"

definition cms_bump_row :: "hash32 \<Rightarrow> string \<Rightarrow> u32 \<Rightarrow> cms \<Rightarrow> cms option" where
  "cms_bump_row h32 key row c = do {
     col \<leftarrow> cms_hash h32 c key row;
     let cell = row * cm_width c + col;
     v \<leftarrow> vget (cm_counters c) cell;
     counters \<leftarrow> vset (cm_counters c) cell (v + 1);
     Some (c\<lparr>cm_counters := counters\<rparr>)
   }"

definition cms_increment :: "hash32 \<Rightarrow> string \<Rightarrow> cms \<Rightarrow> cms option" where
  "cms_increment h32 key c = do {
     c \<leftarrow> ofold (cms_bump_row h32 key) (upto32 (cm_depth c)) c;
     Some (c\<lparr>cm_total := cm_total c + 1\<rparr>)
   }"

definition cms_min_row :: "hash32 \<Rightarrow> cms \<Rightarrow> string \<Rightarrow> u32 \<Rightarrow> u32 \<Rightarrow> u32 option" where
  "cms_min_row h32 c key row min_val = do {
     col \<leftarrow> cms_hash h32 c key row;
     v \<leftarrow> vget (cm_counters c) (row * cm_width c + col);
     Some (min min_val v)
   }"

definition cms_estimate :: "hash32 \<Rightarrow> cms \<Rightarrow> string \<Rightarrow> u32 option" where
  "cms_estimate h32 c key = ofold (cms_min_row h32 c key) (upto32 (cm_depth c)) 0xFFFFFFFF"

definition cms_decay :: "cms \<Rightarrow> cms" where
  "cms_decay c = c\<lparr>cm_counters := map (drop_bit 1) (cm_counters c)\<rparr>"

definition cms_reset :: "cms \<Rightarrow> cms" where
  "cms_reset c = c\<lparr>cm_counters := map (\<lambda>_. 0) (cm_counters c), cm_total := 0\<rparr>"

section \<open>Well-formed sketches\<close>

definition cms_ok :: "cms \<Rightarrow> bool" where
  "cms_ok c \<longleftrightarrow> 0 < cm_depth c \<and> 0 < cm_width c \<and>
     unat (cm_depth c) * unat (cm_width c) < 2 ^ 32 \<and>
     length (cm_counters c) = unat (cm_depth c) * unat (cm_width c) \<and>
     length (cm_seeds c) = unat (cm_depth c)"

text \<open>The counter of a key in a row, and the vector index the code computes for it.\<close>

definition cms_cell :: "hash32 \<Rightarrow> cms \<Rightarrow> string \<Rightarrow> u32 \<Rightarrow> u32" where
  "cms_cell h32 c key row = row * cm_width c + h32 key (cm_seeds c ! unat row) mod cm_width c"

definition cms_counter :: "hash32 \<Rightarrow> cms \<Rightarrow> string \<Rightarrow> u32 \<Rightarrow> u32" where
  "cms_counter h32 c key row = cm_counters c ! unat (cms_cell h32 c key row)"

text \<open>The value of a key: the least of its counters.\<close>

definition cms_val :: "hash32 \<Rightarrow> cms \<Rightarrow> string \<Rightarrow> u32" where
  "cms_val h32 c key = fold min (map (cms_counter h32 c key) (upto32 (cm_depth c))) 0xFFFFFFFF"

text \<open>\<open>n\<close> more increments overflow no counter.\<close>

definition cms_room :: "nat \<Rightarrow> cms \<Rightarrow> bool" where
  "cms_room n c \<longleftrightarrow> (\<forall>v \<in> set (cm_counters c). unat v + n < 2 ^ 32)"

lemma cms_cell_nat:
  assumes "cms_ok c" and "row < cm_depth c"
  shows "unat (cms_cell h32 c key row) =
           unat row * unat (cm_width c) + unat (h32 key (cm_seeds c ! unat row)) mod unat (cm_width c)"
    and "unat (cms_cell h32 c key row) < unat (cm_depth c) * unat (cm_width c)"
proof -
  let ?w = "unat (cm_width c)" and ?k = "unat (h32 key (cm_seeds c ! unat row)) mod unat (cm_width c)"
  have r: "unat row < unat (cm_depth c)" and w: "0 < ?w"
    using assms by (auto simp: cms_ok_def word_less_nat_alt)
  have "unat row * ?w + ?k < (unat row + 1) * ?w" using w by simp
  also have "\<dots> \<le> unat (cm_depth c) * ?w" using r by (intro mult_le_mono) auto
  finally have lt: "unat row * ?w + ?k < unat (cm_depth c) * ?w" .
  then have "unat row * ?w + ?k < 2 ^ 32" using assms(1) by (simp add: cms_ok_def)
  then show eq: "unat (cms_cell h32 c key row) = unat row * ?w + ?k"
    by (simp add: cms_cell_def unat_add_u32 unat_mult_u32 unat_mod_distrib)
  show "unat (cms_cell h32 c key row) < unat (cm_depth c) * ?w" using lt by (simp only: eq)
qed

lemma cms_cell_row:
  assumes "cms_ok c" and "row < cm_depth c"
  shows "unat (cms_cell h32 c key row) div unat (cm_width c) = unat row"
proof -
  have "0 < unat (cm_width c)" using assms by (simp add: cms_ok_def word_less_nat_alt)
  then show ?thesis by (simp add: cms_cell_nat(1) [OF assms])
qed

lemma cms_cell_inj:
  assumes "cms_ok c" "row < cm_depth c" "row' < cm_depth c"
    and "cms_cell h32 c key row = cms_cell h32 c key' row'"
  shows "row = row'"
  using cms_cell_row [OF assms(1,2), of h32 key] cms_cell_row [OF assms(1,3), of h32 key'] assms(4)
  by (metis unsigned_word_eqI)

lemma cms_hash_ok:
  "cms_ok c \<Longrightarrow> row < cm_depth c \<Longrightarrow>
   cms_hash h32 c key row = Some (h32 key (cm_seeds c ! unat row) mod cm_width c)"
proof -
  assume *: "cms_ok c" "row < cm_depth c"
  then have "cm_width c \<noteq> 0" "unat row < length (cm_seeds c)"
    by (auto simp: cms_ok_def simp flip: word_less_nat_alt)
  then show ?thesis by (simp add: cms_hash_def vget_def)
qed

lemma cms_new_ok:
  assumes "0 < depth" "0 < width" "unat depth * unat width < 2 ^ 32"
  shows "oks (cms_new depth width) (\<lambda>c. cms_ok c \<and> cm_depth c = depth \<and> cm_width c = width \<and>
           set (cm_counters c) \<subseteq> {0})"
  using assms by (auto simp: cms_new_def cms_ok_def upto32_def)

section \<open>What increment, estimate and decay do to the counters\<close>

text \<open>Two sketches with the same shape have the same cells.\<close>

definition cms_shape :: "cms \<Rightarrow> cms \<Rightarrow> bool" where
  "cms_shape c c' \<longleftrightarrow> cm_depth c' = cm_depth c \<and> cm_width c' = cm_width c \<and> cm_seeds c' = cm_seeds c \<and>
     length (cm_counters c') = length (cm_counters c)"

lemma cms_shape_refl [simp]: "cms_shape c c"
  by (simp add: cms_shape_def)

lemma cms_shape_trans: "cms_shape c c' \<Longrightarrow> cms_shape c' c'' \<Longrightarrow> cms_shape c c''"
  by (simp add: cms_shape_def)

lemma cms_shape_ok: "cms_shape c c' \<Longrightarrow> cms_ok c' = cms_ok c"
  by (simp add: cms_shape_def cms_ok_def)

lemma cms_shape_cell: "cms_shape c c' \<Longrightarrow> cms_cell h32 c' = cms_cell h32 c"
  by (intro ext) (simp add: cms_shape_def cms_cell_def)

lemma cms_bump_row_ok:
  assumes "cms_ok c" and "row < cm_depth c"
  shows "oks (cms_bump_row h32 key row c) (\<lambda>c'. cms_shape c c' \<and> cm_total c' = cm_total c \<and>
           cm_counters c' = (cm_counters c)[unat (cms_cell h32 c key row) := cms_counter h32 c key row + 1])"
  using cms_cell_nat(2) [OF assms, of h32 key] assms(1)
  by (simp add: cms_bump_row_def cms_hash_ok [OF assms] cms_cell_def [symmetric] cms_counter_def
      cms_shape_def cms_ok_def)

lemma cms_bump_rows_ok:
  assumes "cms_ok c" "distinct rows" "\<forall>row \<in> set rows. row < cm_depth c"
  shows "oks (ofold (cms_bump_row h32 key) rows c) (\<lambda>c'. cms_shape c c' \<and> cm_total c' = cm_total c \<and>
           (\<forall>j < length (cm_counters c). cm_counters c' ! j =
              cm_counters c ! j + (if j \<in> (\<lambda>r. unat (cms_cell h32 c key r)) ` set rows then 1 else 0)))"
  using assms
proof (induction rows arbitrary: c)
  case (Cons row rows)
  have row: "row < cm_depth c" using Cons.prems by simp
  show ?case
    unfolding ofold.simps
  proof (rule oks_bindI [OF cms_bump_row_ok [OF Cons.prems(1) row]], elim conjE)
    fix c1
    assume sh: "cms_shape c c1" and tot: "cm_total c1 = cm_total c"
      and cnt: "cm_counters c1 = (cm_counters c)[unat (cms_cell h32 c key row) := cms_counter h32 c key row + 1]"
    have ok1: "cms_ok c1" and rows1: "\<forall>r \<in> set rows. r < cm_depth c1"
      using Cons.prems sh cms_shape_ok [OF sh] by (auto simp: cms_shape_def)
    have other: "unat (cms_cell h32 c key row) \<noteq> unat (cms_cell h32 c key r)" if "r \<in> set rows" for r
      using that Cons.prems cms_cell_inj [OF Cons.prems(1) row, of r h32 key key]
      by (metis distinct.simps(2) list.set_intros(2) unsigned_word_eqI)
    show "oks (ofold (cms_bump_row h32 key) rows c1) (\<lambda>c'. cms_shape c c' \<and> cm_total c' = cm_total c \<and>
           (\<forall>j < length (cm_counters c). cm_counters c' ! j =
              cm_counters c ! j + (if j \<in> (\<lambda>r. unat (cms_cell h32 c key r)) ` set (row # rows) then 1 else 0)))"
    proof (rule oks_mono [OF Cons.IH [OF ok1 _ rows1]], goal_cases)
      case 1
      show ?case using Cons.prems by simp
    next
      case (2 c')
      have "cm_counters c' ! j =
          cm_counters c ! j + (if j \<in> (\<lambda>r. unat (cms_cell h32 c key r)) ` set (row # rows) then 1 else 0)"
        if j: "j < length (cm_counters c)" for j
        using 2 j other cms_shape_cell [OF sh, of h32]
        by (cases "j = unat (cms_cell h32 c key row)") (auto simp: cnt cms_counter_def cms_shape_def)
      then show ?case using 2 tot sh by (auto dest: cms_shape_trans)
    qed
  qed
qed simp

definition cms_cells :: "hash32 \<Rightarrow> cms \<Rightarrow> string \<Rightarrow> nat set" where
  "cms_cells h32 c key = (\<lambda>r. unat (cms_cell h32 c key r)) ` {r. r < cm_depth c}"

lemma cms_increment_ok:
  assumes "cms_ok c"
  shows "oks (cms_increment h32 key c) (\<lambda>c'. cms_ok c' \<and> cms_shape c c' \<and> cm_total c' = cm_total c + 1 \<and>
           (\<forall>j < length (cm_counters c). cm_counters c' ! j =
              cm_counters c ! j + (if j \<in> cms_cells h32 c key then 1 else 0)))"
proof -
  have "oks (ofold (cms_bump_row h32 key) (upto32 (cm_depth c)) c) (\<lambda>c'. cms_shape c c' \<and> cm_total c' = cm_total c \<and>
           (\<forall>j < length (cm_counters c). cm_counters c' ! j =
              cm_counters c ! j + (if j \<in> cms_cells h32 c key then 1 else 0)))"
    unfolding cms_cells_def set_upto32 [symmetric]
    by (rule cms_bump_rows_ok [OF assms]) (auto simp: distinct_upto32 set_upto32)
  then show ?thesis
    unfolding cms_increment_def oks_bind
    by (rule oks_mono) (use assms in \<open>auto simp: cms_shape_def cms_ok_def\<close>)
qed

lemma cms_min_rows:
  assumes "cms_ok c" "\<forall>row \<in> set rows. row < cm_depth c"
  shows "ofold (cms_min_row h32 c key) rows m = Some (fold min (map (cms_counter h32 c key) rows) m)"
  using assms(2)
proof (induction rows arbitrary: m)
  case (Cons row rows)
  have row: "row < cm_depth c" using Cons.prems by simp
  have "unat (cms_cell h32 c key row) < length (cm_counters c)"
    using cms_cell_nat(2) [OF assms(1) row, of h32 key] assms(1) by (simp add: cms_ok_def)
  then have "cms_min_row h32 c key row m = Some (min (cms_counter h32 c key row) m)"
    by (simp add: cms_min_row_def cms_hash_ok [OF assms(1) row] vget_def cms_counter_def
        min.commute flip: cms_cell_def)
  with Cons show ?case by simp
qed simp

lemma cms_estimate_val: "cms_ok c \<Longrightarrow> cms_estimate h32 c key = Some (cms_val h32 c key)"
  by (simp add: cms_estimate_def cms_val_def cms_min_rows set_upto32)

lemma fold_min_word:
  "unat (fold min vs (m :: u32)) = n \<longleftrightarrow>
     (\<forall>v \<in> insert m (set vs). n \<le> unat v) \<and> (\<exists>v \<in> insert m (set vs). unat v = n)"
proof -
  let ?A = "insert m (set vs)"
  have eq: "fold min vs m = Min ?A"
    using Min.set_eq_fold [of m vs] by (simp only: list.set)
  have mem: "Min ?A \<in> ?A" by (rule Min_in) auto
  have le: "unat (Min ?A) \<le> unat v" if "v \<in> ?A" for v
    using that by (auto simp flip: word_le_nat_alt)
  show ?thesis
    unfolding eq
  proof
    assume "unat (Min ?A) = n"
    then show "(\<forall>v \<in> ?A. n \<le> unat v) \<and> (\<exists>v \<in> ?A. unat v = n)" using mem le by blast
  next
    assume R: "(\<forall>v \<in> ?A. n \<le> unat v) \<and> (\<exists>v \<in> ?A. unat v = n)"
    then obtain v where "v \<in> ?A" "unat v = n" by blast
    then have "unat (Min ?A) \<le> n" using le by blast
    moreover have "n \<le> unat (Min ?A)" using R mem by blast
    ultimately show "unat (Min ?A) = n" by simp
  qed
qed

lemma unat_max_u32: "unat (0xFFFFFFFF :: u32) = 2 ^ 32 - 1"
  by simp

lemma cms_val_iff:
  assumes "cms_ok c"
  shows "unat (cms_val h32 c key) = n \<longleftrightarrow>
           (\<forall>row < cm_depth c. n \<le> unat (cms_counter h32 c key row)) \<and>
           (\<exists>row < cm_depth c. unat (cms_counter h32 c key row) = n)"
proof -
  let ?v = "\<lambda>row. unat (cms_counter h32 c key row)" and ?M = "(0xFFFFFFFF :: u32)"
  have d: "0 < cm_depth c" using assms by (simp add: cms_ok_def)
  have le: "?v row \<le> unat ?M" for row
    using unat_u32_bound [of "cms_counter h32 c key row"] by simp
  have "unat (cms_val h32 c key) = n \<longleftrightarrow>
      (n \<le> unat ?M \<and> (\<forall>row < cm_depth c. n \<le> ?v row)) \<and>
      (unat ?M = n \<or> (\<exists>row < cm_depth c. ?v row = n))"
    unfolding cms_val_def fold_min_word by (auto simp: set_upto32)
  also have "\<dots> \<longleftrightarrow> (\<forall>row < cm_depth c. n \<le> ?v row) \<and> (\<exists>row < cm_depth c. ?v row = n)"
    using d le by (metis le_antisym)
  finally show ?thesis .
qed

lemma cms_counter_after:
  assumes "cms_ok c" and "cms_shape c c'" and "row < cm_depth c"
    and "\<forall>j < length (cm_counters c). cm_counters c' ! j = f j (cm_counters c ! j)"
  shows "cms_counter h32 c' key row = f (unat (cms_cell h32 c key row)) (cms_counter h32 c key row)"
proof -
  have "unat (cms_cell h32 c key row) < length (cm_counters c)"
    using cms_cell_nat(2) [OF assms(1,3), of h32 key] assms(1) by (simp add: cms_ok_def)
  then show ?thesis
    using assms(4) by (simp add: cms_counter_def cms_shape_cell [OF assms(2)])
qed

lemma cms_room_counter:
  assumes "cms_ok c" "cms_room n c" "row < cm_depth c"
  shows "unat (cms_counter h32 c key row) + n < 2 ^ 32"
proof -
  have "unat (cms_cell h32 c key row) < length (cm_counters c)"
    using cms_cell_nat(2) [OF assms(1,3), of h32 key] assms(1) by (simp add: cms_ok_def)
  then show ?thesis using assms(2) by (simp add: cms_room_def cms_counter_def)
qed

text \<open>One increment, counter by counter: the key's own counters grow by one, any other counter by at
  most one.\<close>

lemma cms_increment_counter:
  assumes ok: "cms_ok c" and room: "cms_room (Suc n) c"
  shows "oks (cms_increment h32 key c) (\<lambda>c'. cms_ok c' \<and> cms_shape c c' \<and> cms_room n c' \<and>
           (\<forall>row < cm_depth c. \<forall>k. unat (cms_counter h32 c' k row) = unat (cms_counter h32 c k row) +
              (if unat (cms_cell h32 c k row) \<in> cms_cells h32 c key then 1 else 0)))"
proof (rule oks_mono [OF cms_increment_ok [OF ok, of h32 key]], elim conjE)
  fix c' assume ok': "cms_ok c'" and sh: "cms_shape c c'"
    and cnt: "\<forall>j < length (cm_counters c). cm_counters c' ! j =
              cm_counters c ! j + (if j \<in> cms_cells h32 c key then 1 else 0)"
  have up: "unat (v + (if b then 1 else 0)) = unat v + (if b then 1 else 0)"
    if "unat v + Suc n < 2 ^ 32" for v :: u32 and b
    using that by (auto simp: unat_Suc_u32)
  have "cms_room n c'"
    unfolding cms_room_def
  proof
    fix v assume "v \<in> set (cm_counters c')"
    then obtain j where j: "j < length (cm_counters c)" "v = cm_counters c' ! j"
      using sh by (auto simp: in_set_conv_nth cms_shape_def)
    have "unat (cm_counters c ! j) + Suc n < 2 ^ 32" using room j(1) by (simp add: cms_room_def)
    then show "unat v + n < 2 ^ 32" using cnt j up [of "cm_counters c ! j"] by auto
  qed
  moreover have "unat (cms_counter h32 c' k row) = unat (cms_counter h32 c k row) +
      (if unat (cms_cell h32 c k row) \<in> cms_cells h32 c key then 1 else 0)" if "row < cm_depth c" for row k
    using cms_counter_after [OF ok sh that, of "\<lambda>j v. v + (if j \<in> cms_cells h32 c key then 1 else 0)" h32 k]
      cms_room_counter [OF ok room that, of h32 k] cnt
    by (simp add: up del: if_split)
  ultimately show "cms_ok c' \<and> cms_shape c c' \<and> cms_room n c' \<and>
           (\<forall>row < cm_depth c. \<forall>k. unat (cms_counter h32 c' k row) = unat (cms_counter h32 c k row) +
              (if unat (cms_cell h32 c k row) \<in> cms_cells h32 c key then 1 else 0))"
    using ok' sh by blast
qed

lemma cms_val_attained:
  assumes "cms_ok c"
  obtains row where "row < cm_depth c" "unat (cms_val h32 c k) = unat (cms_counter h32 c k row)"
  using cms_val_iff [OF assms, of h32 k "unat (cms_val h32 c k)"] by metis

lemma cms_val_le_counter:
  assumes "cms_ok c" "row < cm_depth c"
  shows "unat (cms_val h32 c k) \<le> unat (cms_counter h32 c k row)"
  using cms_val_iff [OF assms(1), of h32 k "unat (cms_val h32 c k)"] assms(2) by blast

lemma cms_val_le:
  assumes "cms_ok c" "cms_ok c'" "cm_depth c' = cm_depth c"
    and "\<And>row. row < cm_depth c \<Longrightarrow> unat (cms_counter h32 c k row) \<le> unat (cms_counter h32 c' k row) + n"
  shows "unat (cms_val h32 c k) \<le> unat (cms_val h32 c' k) + n"
proof -
  obtain row where row: "row < cm_depth c" "unat (cms_val h32 c' k) = unat (cms_counter h32 c' k row)"
    using cms_val_attained [OF assms(2), of h32 k] assms(3) by metis
  then show ?thesis
    using assms(4) [OF row(1)] cms_val_le_counter [OF assms(1) row(1), of h32 k] by simp
qed

lemma cms_increment_val:
  assumes ok: "cms_ok c" and room: "cms_room (Suc n) c"
  shows "oks (cms_increment h32 key c) (\<lambda>c'. cms_ok c' \<and> cms_room n c' \<and>
           unat (cms_val h32 c' key) = Suc (unat (cms_val h32 c key)) \<and>
           (\<forall>k. unat (cms_val h32 c k) \<le> unat (cms_val h32 c' k) \<and>
                unat (cms_val h32 c' k) \<le> Suc (unat (cms_val h32 c k))))"
proof (rule oks_mono [OF cms_increment_counter [OF assms, of h32 key]], elim conjE)
  fix c' assume ok': "cms_ok c'" and sh: "cms_shape c c'" and room': "cms_room n c'"
    and cnt: "\<forall>row < cm_depth c. \<forall>k. unat (cms_counter h32 c' k row) = unat (cms_counter h32 c k row) +
              (if unat (cms_cell h32 c k row) \<in> cms_cells h32 c key then 1 else 0)"
  have d: "cm_depth c' = cm_depth c" using sh by (simp add: cms_shape_def)
  have le: "unat (cms_val h32 c k) \<le> unat (cms_val h32 c' k)" for k
    using cms_val_le [OF ok ok' d, of h32 k 0] cnt by simp
  have ge: "unat (cms_val h32 c' k) \<le> Suc (unat (cms_val h32 c k))" for k
    using cms_val_le [OF ok' ok d [symmetric], of h32 k 1] cnt d by simp
  have own: "unat (cms_counter h32 c' key row) = Suc (unat (cms_counter h32 c key row))" if "row < cm_depth c" for row
    using cnt that by (auto simp: cms_cells_def)
  obtain row where "row < cm_depth c" "unat (cms_val h32 c' key) = unat (cms_counter h32 c' key row)"
    using cms_val_attained [OF ok', of h32 key] d by metis
  then have "Suc (unat (cms_val h32 c key)) \<le> unat (cms_val h32 c' key)"
    using own cms_val_le_counter [OF ok, of row h32 key] by simp
  then show "cms_ok c' \<and> cms_room n c' \<and> unat (cms_val h32 c' key) = Suc (unat (cms_val h32 c key)) \<and>
           (\<forall>k. unat (cms_val h32 c k) \<le> unat (cms_val h32 c' k) \<and>
                unat (cms_val h32 c' k) \<le> Suc (unat (cms_val h32 c k)))"
    using ok' room' le ge by (auto intro: le_antisym)
qed

lemma cms_decay_shape: "cms_shape c (cms_decay c)"
  by (simp add: cms_shape_def cms_decay_def)

lemma cms_decay_ok: "cms_ok c \<Longrightarrow> cms_ok (cms_decay c)"
  using cms_shape_ok [OF cms_decay_shape] by simp

lemma unat_half_u32: "unat (drop_bit 1 (v :: u32)) = unat v div 2"
  by (simp add: drop_bit_eq_div unat_div_distrib)

lemma cms_decay_counter:
  assumes "cms_ok c" "row < cm_depth c"
  shows "unat (cms_counter h32 (cms_decay c) k row) = unat (cms_counter h32 c k row) div 2"
proof -
  have "cms_counter h32 (cms_decay c) k row = drop_bit 1 (cms_counter h32 c k row)"
    using cms_counter_after [OF assms(1) cms_decay_shape assms(2), of "\<lambda>_. drop_bit 1" h32 k]
    by (simp add: cms_decay_def)
  then show ?thesis by (simp only: unat_half_u32)
qed

lemma cms_decay_val:
  assumes "cms_ok c"
  shows "unat (cms_val h32 (cms_decay c) k) = unat (cms_val h32 c k) div 2"
proof -
  have d: "cm_depth (cms_decay c) = cm_depth c" by (simp add: cms_decay_def)
  show ?thesis
    unfolding cms_val_iff [OF cms_decay_ok [OF assms]] d
    using cms_val_le_counter [OF assms, of _ h32 k] cms_val_attained [OF assms, of h32 k]
    by (metis cms_decay_counter [OF assms] div_le_mono)
qed

lemma cms_decay_room:
  assumes "cms_room (Suc n) c" shows "cms_room n (cms_decay c)"
  unfolding cms_room_def
proof
  fix v assume "v \<in> set (cm_counters (cms_decay c))"
  then obtain u where u: "u \<in> set (cm_counters c)" and v: "v = drop_bit 1 u"
    by (auto simp: cms_decay_def)
  have "unat v = unat u div 2" unfolding v by (rule unat_half_u32)
  moreover have "unat u + Suc n < 2 ^ 32" using assms u by (simp add: cms_room_def)
  ultimately show "unat v + n < 2 ^ 32" by linarith
qed

interpretation cms_sketch: freq_sketch "cms_increment h32" "cms_estimate h32" cms_decay cms_ok cms_room
  "\<lambda>c k. unat (cms_val h32 c k)" for h32
proof
  show "oks (cms_estimate h32 s k) (\<lambda>e. unat e = unat (cms_val h32 s k))" if "cms_ok s" for s k
    using that by (simp add: cms_estimate_val)
qed (simp_all add: cms_increment_val cms_decay_ok cms_decay_val cms_decay_room)

section \<open>Accuracy of the estimate\<close>

lemma cms_new_fresh:
  assumes "cms_new depth width = Some c" "unat depth * unat width < 2 ^ 32"
  shows "cms_ok c" "n < 2 ^ 32 \<Longrightarrow> cms_room n c" "row < cm_depth c \<Longrightarrow> cms_counter h32 c k row = 0"
proof -
  have pos: "0 < depth" "0 < width" using assms(1) by (auto simp: cms_new_def guard_def split: if_splits)
  then show ok: "cms_ok c" and "n < 2 ^ 32 \<Longrightarrow> cms_room n c"
    using cms_new_ok [OF pos assms(2)] assms(1) by (auto simp: cms_room_def)
  show "cms_counter h32 c k row = 0" if "row < cm_depth c"
  proof -
    have "unat (cms_cell h32 c k row) < length (cm_counters c)"
      using cms_cell_nat(2) [OF ok that, of h32 k] ok by (simp add: cms_ok_def)
    then show ?thesis
      using cms_new_ok [OF pos assms(2)] assms(1) nth_mem by (fastforce simp: cms_counter_def)
  qed
qed

text \<open>In a row where no other accessed key shares its cell, a key's counter is its exact count.\<close>

lemma cms_row_exact:
  assumes "cms_ok c" "cms_room (length es) c" "row < cm_depth c"
    and "\<And>k'. Access k' \<in> set es \<Longrightarrow> k' \<noteq> k \<Longrightarrow> cms_cell h32 c k' row \<noteq> cms_cell h32 c k row"
    and "unat (cms_counter h32 c k row) = m"
  shows "oks (sk_run (cms_increment h32) cms_decay es c) (\<lambda>c'. cms_ok c' \<and> cm_depth c' = cm_depth c \<and>
           unat (cms_counter h32 c' k row) = sk_freq k es m)"
  using assms
proof (induction es arbitrary: c m)
  case Nil
  then show ?case by (simp add: sk_run_def)
next
  case (Cons e es)
  have one: "oks (sk_step (cms_increment h32) cms_decay e c) (\<lambda>c'. cms_shape c c' \<and> cms_ok c' \<and>
      cms_room (length es) c' \<and> unat (cms_counter h32 c' k row) = sk_freq k [e] m)"
  proof (cases e)
    case (Access k')
    have "unat (cms_cell h32 c k row) \<in> cms_cells h32 c k' \<longleftrightarrow> k' = k"
    proof
      assume "unat (cms_cell h32 c k row) \<in> cms_cells h32 c k'"
      then obtain r where r: "r < cm_depth c" "cms_cell h32 c k row = cms_cell h32 c k' r"
        by (auto simp: cms_cells_def simp flip: word_unat_eq_iff)
      with cms_cell_inj [OF Cons.prems(1,3) r(1)] show "k' = k"
        using Cons.prems(4) [of k'] Access by auto
    qed (use Cons.prems(3) in \<open>auto simp: cms_cells_def\<close>)
    note own = this
    have room: "cms_room (Suc (length es)) c" using Cons.prems(2) by simp
    show ?thesis
      unfolding Access sk_step_def sketch_event.case
    proof (rule oks_mono [OF cms_increment_counter [OF Cons.prems(1) room, of h32 k']], elim conjE, intro conjI)
      fix c' assume "\<forall>row < cm_depth c. \<forall>k. unat (cms_counter h32 c' k row) = unat (cms_counter h32 c k row) +
              (if unat (cms_cell h32 c k row) \<in> cms_cells h32 c k' then 1 else 0)"
      then show "unat (cms_counter h32 c' k row) = sk_freq k [Access k'] m"
        using own Cons.prems(3,5) by simp
    qed
  next
    case Halve
    then show ?thesis
      using Cons.prems cms_decay_shape cms_decay_ok cms_decay_room [of "length es" c]
      by (simp add: sk_step_def cms_decay_counter)
  qed
  show ?case
    unfolding sk_run_def ofold.simps
  proof (rule oks_bindI [OF one], elim conjE)
    fix c' assume c': "cms_shape c c'" "cms_ok c'" "cms_room (length es) c'"
      "unat (cms_counter h32 c' k row) = sk_freq k [e] m"
    then have "row < cm_depth c'" "cm_depth c' = cm_depth c" using Cons.prems(3) by (auto simp: cms_shape_def)
    then show "oks (ofold (sk_step (cms_increment h32) cms_decay) es c') (\<lambda>c'. cms_ok c' \<and>
        cm_depth c' = cm_depth c \<and> unat (cms_counter h32 c' k row) = sk_freq k (e # es) m)"
      using Cons.IH [OF c'(2,3) _ _ c'(4)] Cons.prems(4)
      by (simp add: cms_shape_cell [OF c'(1)] sk_run_def)
  qed
qed

text \<open>C20. The sketch never underestimates. From a fresh sketch, after any sequence of fewer than \<open>2^32\<close>
  increments and decays, no operation fails and \<open>estimate(key)\<close> is at least the exact count of the
  key (one per increment, halved at each decay), whatever the hash function.
\<close>

theorem cms_never_underestimates:
  assumes "cms_new depth width = Some c" and "unat depth * unat width < 2 ^ 32" and "length es < 2 ^ 32"
  shows "oks (sk_run (cms_increment h32) cms_decay es c)
           (\<lambda>c'. oks (cms_estimate h32 c' key) (\<lambda>e. sk_freq key es 0 \<le> unat e))"
  using cms_sketch.run_estimate cms_new_fresh [OF assms(1,2)] assms(3) by blast

theorem cms_never_underestimates_witness:
  "oks (cms_new 2 4) (\<lambda>c. oks (sk_run (cms_increment (\<lambda>k s. s)) cms_decay [Access ''a'', Halve, Access ''b''] c)
     (\<lambda>c'. oks (cms_estimate (\<lambda>k s. s) c' ''b'') (\<lambda>e. sk_freq ''b'' [Access ''a'', Halve, Access ''b''] 0 \<le> unat e)))"
proof -
  obtain c where c: "cms_new 2 4 = Some c" by (auto simp: cms_new_def guard_def)
  show ?thesis
    using cms_never_underestimates [OF c, of "[Access ''a'', Halve, Access ''b'']" "\<lambda>k s. s" "''b''"] c by simp
qed

text \<open>Accuracy. If in some row no other accessed key hashes to the key's column, the estimate of the
  key is exactly its count, so overestimation comes from collisions in every row only.
\<close>

theorem cms_exact_without_collision:
  assumes "cms_new depth width = Some c" and "unat depth * unat width < 2 ^ 32" and "length es < 2 ^ 32"
    and "row < depth"
    and "\<And>k'. Access k' \<in> set es \<Longrightarrow> k' \<noteq> key \<Longrightarrow>
           cms_hash h32 c k' row \<noteq> cms_hash h32 c key row"
  shows "oks (sk_run (cms_increment h32) cms_decay es c)
           (\<lambda>c'. oks (cms_estimate h32 c' key) (\<lambda>e. unat e = sk_freq key es 0))"
proof -
  note fresh = cms_new_fresh [OF assms(1,2)]
  have d: "row < cm_depth c" using assms(1,4) by (auto simp: cms_new_def guard_def split: if_splits)
  have "cms_cell h32 c k' row \<noteq> cms_cell h32 c key row" if "Access k' \<in> set es" "k' \<noteq> key" for k'
    using assms(5) [OF that] by (simp add: cms_hash_ok [OF fresh(1) d] cms_cell_def)
  then have ex: "oks (sk_run (cms_increment h32) cms_decay es c) (\<lambda>c'. cms_ok c' \<and> cm_depth c' = cm_depth c \<and>
           unat (cms_counter h32 c' key row) = sk_freq key es 0)"
    using fresh(1) fresh(2) [OF assms(3)] fresh(3) [OF d] d by (intro cms_row_exact) auto
  have low: "oks (sk_run (cms_increment h32) cms_decay es c) (\<lambda>c'. cms_ok c' \<and> sk_freq key es 0 \<le> unat (cms_val h32 c' key))"
    by (rule cms_sketch.run_lower) (use fresh(1) fresh(2) [OF assms(3)] in auto)
  obtain c' where c': "sk_run (cms_increment h32) cms_decay es c = Some c'" using ex by (auto elim: oksE)
  have "unat (cms_val h32 c' key) \<le> sk_freq key es 0"
    using ex c' d cms_val_le_counter [of c' row h32 key] by auto
  then show ?thesis using low c' by (auto simp: cms_estimate_val)
qed

theorem cms_exact_without_collision_witness:
  "oks (cms_new 2 4) (\<lambda>c. oks (sk_run (cms_increment (\<lambda>k s. of_nat (length k))) cms_decay [Access ''a'', Access ''bb''] c)
     (\<lambda>c'. oks (cms_estimate (\<lambda>k s. of_nat (length k)) c' ''a'') (\<lambda>e. unat e = 1)))"
proof -
  obtain c where c: "cms_new 2 4 = Some c" by (auto simp: cms_new_def guard_def)
  have ok: "cms_ok c" and d: "0 < cm_depth c" and w: "cm_width c = 4"
    using cms_new_ok [of 2 4] c by auto
  show ?thesis
    using cms_exact_without_collision [OF c, of "[Access ''a'', Access ''bb'']" 0 "''a''" "\<lambda>k s. of_nat (length k)"] c
    by (auto simp: cms_hash_ok [OF ok d] w)
qed

end
