(* ===== verification/Demotion_Queue.thy ===== *)
theory Demotion_Queue
  imports Float32
begin

unbundle bit_operations_syntax

text \<open>
  \<open>DemotionQueue\<close> (\<open>include/demotion_queue.h\<close>, \<open>src/demotion_queue.cpp\<close>): a bounded ring buffer
  between the stripes and the drainer thread. Every operation runs under the queue's mutex, so each is
  one atomic step. \<open>write_pos_\<close> and \<open>read_pos_\<close> are free-running 64-bit counters reduced to a slot by
  a mask; the abstraction is the list of queued items, oldest first. A slot whose item has been moved
  out keeps its old content in the model: the code never reads it before overwriting it.
\<close>

record demotion_item =
  di_key :: string
  di_value :: string
  di_frequency :: u32

definition item_default :: demotion_item where
  "item_default = \<lparr>di_key = [], di_value = [], di_frequency = 0\<rparr>"

record dqueue =
  q_capacity :: u32
  q_mask :: u32
  q_buffer :: "demotion_item list"
  q_write :: u64
  q_read :: u64
  q_drops :: u64

section \<open>Operations\<close>

definition next_power_of_2 :: "u32 \<Rightarrow> u32" where
  "next_power_of_2 v =
     (if v = 0 then 1
      else let v = v - 1;
               v = v OR drop_bit 1 v;
               v = v OR drop_bit 2 v;
               v = v OR drop_bit 4 v;
               v = v OR drop_bit 8 v;
               v = v OR drop_bit 16 v
           in v + 1)"

definition dq_new :: "u32 \<Rightarrow> dqueue" where
  "dq_new capacity =
     (let cap = next_power_of_2 capacity
      in \<lparr>q_capacity = cap, q_mask = cap - 1, q_buffer = replicate (unat cap) item_default,
         q_write = 0, q_read = 0, q_drops = 0\<rparr>)"

definition dq_unlocked_size :: "dqueue \<Rightarrow> u64" where
  "dq_unlocked_size q = q_write q - q_read q"

text \<open>\<open>static_cast<uint64_t>(capacity_ * pressure_threshold_)\<close>.\<close>

definition dq_pressure_limit :: "dqueue \<Rightarrow> u64 option" where
  "dq_pressure_limit q = f32_to_u64 (u32_times_f32 (q_capacity q) f32_0_80)"

definition dq_slot :: "dqueue \<Rightarrow> u64 \<Rightarrow> u32" where
  "dq_slot q pos = ucast (pos AND ucast (q_mask q))"

definition dq_try_push :: "demotion_item \<Rightarrow> dqueue \<Rightarrow> (bool \<times> dqueue) option" where
  "dq_try_push item q = do {
     limit \<leftarrow> dq_pressure_limit q;
     if dq_unlocked_size q \<ge> limit then Some (False, q\<lparr>q_drops := q_drops q + 1\<rparr>)
     else if q_write q - q_read q \<ge> ucast (q_capacity q) then Some (False, q\<lparr>q_drops := q_drops q + 1\<rparr>)
     else do {
       buffer \<leftarrow> vset (q_buffer q) (dq_slot q (q_write q)) item;
       Some (True, q\<lparr>q_buffer := buffer, q_write := q_write q + 1\<rparr>)
     }
   }"

text \<open>\<open>try_pop(out)\<close>: the item moved to \<open>out\<close>, or nothing when the queue is empty.\<close>

definition dq_try_pop :: "dqueue \<Rightarrow> (demotion_item option \<times> dqueue) option" where
  "dq_try_pop q =
     (if q_read q = q_write q then Some (None, q)
      else do {
        item \<leftarrow> vget (q_buffer q) (dq_slot q (q_read q));
        Some (Some item, q\<lparr>q_read := q_read q + 1\<rparr>)
      })"

definition dq_try_pop_batch :: "u64 \<Rightarrow> dqueue \<Rightarrow> demotion_item list \<Rightarrow> (u64 \<times> demotion_item list \<times> dqueue) option" where
  "dq_try_pop_batch max_count q out =
     (let available = q_write q - q_read q
      in if available = 0 then Some (0, out, q)
         else do {
           let to_pop = min max_count available;
           out \<leftarrow> ofold (\<lambda>i out. do {
                    item \<leftarrow> vget (q_buffer q) (dq_slot q (q_read q + i));
                    Some (out @ [item])
                  }) (map of_nat [0..<unat to_pop]) out;
           Some (to_pop, out, q\<lparr>q_read := q_read q + to_pop\<rparr>)
         })"

definition dq_size :: "dqueue \<Rightarrow> u32" where
  "dq_size q = ucast (dq_unlocked_size q)"

definition dq_is_under_pressure :: "dqueue \<Rightarrow> bool option" where
  "dq_is_under_pressure q = map_option (\<lambda>limit. dq_unlocked_size q \<ge> limit) (dq_pressure_limit q)"

section \<open>Rounding up to a power of two\<close>

lemma smear_step:
  assumes "\<And>n. bit (w :: u32) n \<longleftrightarrow> (\<exists>j < s. bit m (n + j))"
  shows "bit (w OR drop_bit s w) n \<longleftrightarrow> (\<exists>j < 2 * s. bit m (n + j))"
proof -
  have "(\<exists>j < s. bit m (n + j)) \<or> (\<exists>j < s. bit m (s + n + j)) \<longleftrightarrow> (\<exists>j < 2 * s. bit m (n + j))" (is "?l \<longleftrightarrow> ?r")
  proof
    assume ?l
    then show ?r
    proof
      assume "\<exists>j < s. bit m (s + n + j)"
      then obtain j where "j < s" "bit m (n + (s + j))" by (auto simp: ac_simps)
      then show ?r by (intro exI [of _ "s + j"]) simp
    next
      assume "\<exists>j < s. bit m (n + j)"
      then obtain j where "j < s" "bit m (n + j)" by blast
      then show ?r by (intro exI [of _ j]) simp
    qed
  next
    assume ?r
    then obtain j where j: "j < 2 * s" "bit m (n + j)" by blast
    show ?l
    proof (cases "j < s")
      case False
      then have "j - s < s" "bit m (s + n + (j - s))" using j by (auto simp: ac_simps)
      then show ?l by blast
    qed (use j in blast)
  qed
  then show ?thesis
    by (auto simp: bit_or_iff bit_drop_bit_eq assms)
qed

lemma smear_bits:
  fixes m :: u32
  defines "w \<equiv> let v = m; v = v OR drop_bit 1 v; v = v OR drop_bit 2 v; v = v OR drop_bit 4 v;
                   v = v OR drop_bit 8 v in v OR drop_bit 16 v"
  shows "bit w n \<longleftrightarrow> (\<exists>j \<ge> n. bit m j)"
proof -
  let ?w1 = "m OR drop_bit 1 m"
  let ?w2 = "?w1 OR drop_bit 2 ?w1"
  let ?w4 = "?w2 OR drop_bit 4 ?w2"
  let ?w8 = "?w4 OR drop_bit 8 ?w4"
  have b1: "bit ?w1 n \<longleftrightarrow> (\<exists>j < 2. bit m (n + j))" for n
    using smear_step [of m 1 m] by simp
  have b2: "bit ?w2 n \<longleftrightarrow> (\<exists>j < 4. bit m (n + j))" for n
    using smear_step [OF b1] by simp
  have b4: "bit ?w4 n \<longleftrightarrow> (\<exists>j < 8. bit m (n + j))" for n
    using smear_step [OF b2] by simp
  have b8: "bit ?w8 n \<longleftrightarrow> (\<exists>j < 16. bit m (n + j))" for n
    using smear_step [OF b4] by simp
  have "bit w n \<longleftrightarrow> (\<exists>j < 32. bit m (n + j))"
    using smear_step [OF b8] by (simp add: w_def Let_def)
  also have "\<dots> \<longleftrightarrow> (\<exists>j \<ge> n. bit m j)"
  proof
    assume "\<exists>j \<ge> n. bit m j"
    then obtain j where "n \<le> j" "bit m j" by blast
    moreover from this have "j < 32" using bit_imp_le_length by fastforce
    ultimately show "\<exists>j < 32. bit m (n + j)" by (intro exI [of _ "j - n"]) simp
  qed (auto intro: le_add1)
  finally show ?thesis .
qed

lemma bit_le_unat: "bit (m :: u32) j \<Longrightarrow> 2 ^ j \<le> unat m"
proof -
  assume "bit m j"
  then have "bit (unat m) j" by (simp add: bit_unsigned_iff bit_imp_le_length)
  then have "odd (unat m div 2 ^ j)" by (simp add: bit_iff_odd)
  then show ?thesis by (metis div_less even_zero not_le)
qed

lemma unat_less_bits: "(\<And>j. b \<le> j \<Longrightarrow> \<not> bit (m :: u32) j) \<Longrightarrow> unat m < 2 ^ b"
proof -
  assume "\<And>j. b \<le> j \<Longrightarrow> \<not> bit m j"
  then have "take_bit b m = m" by (intro bit_word_eqI) (auto simp: bit_take_bit_iff not_le [symmetric])
  then have "unat m = take_bit b (unat m)" by (metis unsigned_take_bit_eq)
  then show ?thesis by (metis take_bit_nat_less_exp)
qed

lemma next_power_of_2_word:
  assumes "0 < v"
  obtains k where "k \<le> 32" "next_power_of_2 v = 2 ^ k" "unat v \<le> 2 ^ k" "2 ^ k < 2 * unat v"
proof -
  define m where "m = v - 1"
  define w where "w = (let v = m; v = v OR drop_bit 1 v; v = v OR drop_bit 2 v; v = v OR drop_bit 4 v;
                   v = v OR drop_bit 8 v in v OR drop_bit 16 v)"
  define k where "k = (if m = 0 then 0 else Suc (Max {j. bit m j}))"
  have vm: "unat v = unat m + 1"
    using assms unat_pred_u32 [of v] by (simp add: m_def word_less_nat_alt)
  have fin: "finite {j. bit m j}"
    by (rule finite_subset [of _ "{..<32}"]) (auto dest: bit_imp_le_length)
  have ne: "{j. bit m j} \<noteq> {}" if "m \<noteq> 0" using that bit_word_eqI [of m 0] by auto
  have top: "bit m (Max {j. bit m j})" if "m \<noteq> 0" using Max_in [OF fin ne [OF that]] by simp
  have below: "j < k" if "bit m j" for j
    using that Max_ge [OF fin, of j] by (auto simp: k_def less_Suc_eq_le)
  have ub: "unat m < 2 ^ k" using below by (intro unat_less_bits) (metis not_le)
  have lb: "2 ^ k < 2 * (unat m + 1)"
    using bit_le_unat [OF top] by (auto simp: k_def)
  have k: "k \<le> 32"
    using bit_imp_le_length [OF top] by (auto simp: k_def)
  have "w = mask k"
  proof (rule bit_word_eqI)
    fix n assume "n < LENGTH(32)"
    then have n: "n < 32" by simp
    have "bit w n \<longleftrightarrow> (\<exists>j \<ge> n. bit m j)" unfolding w_def by (rule smear_bits)
    also have "\<dots> \<longleftrightarrow> n < k"
    proof
      assume "n < k"
      then show "\<exists>j \<ge> n. bit m j"
        using top by (intro exI [of _ "Max {j. bit m j}"]) (auto simp: k_def split: if_splits)
    qed (use below in \<open>auto intro: le_less_trans\<close>)
    finally show "bit w n \<longleftrightarrow> bit (mask k :: u32) n" using n by (simp add: bit_mask_iff)
  qed
  then have "next_power_of_2 v = 2 ^ k"
    using assms by (simp add: next_power_of_2_def m_def [symmetric] w_def Let_def mask_eq_exp_minus_1 word_gt_0)
  then show thesis using that [of k] k ub lb vm by simp
qed

lemma next_power_of_2_spec:
  assumes "0 < v" and "unat v \<le> 2 ^ 31"
  obtains k where "k \<le> 31" "unat (next_power_of_2 v) = 2 ^ k" "unat v \<le> 2 ^ k" "2 ^ k < 2 * unat v"
proof -
  obtain k where k: "next_power_of_2 v = 2 ^ k" "unat v \<le> 2 ^ k" "2 ^ k < 2 * unat v"
    using next_power_of_2_word [OF assms(1)] by metis
  have "(2::nat) ^ k < 2 * 2 ^ 31" using k(3) assms(2) by linarith
  then have lt: "(2::nat) ^ k < 2 ^ 32" by simp
  then have "k < 32" using power_less_imp_less_exp [of 2 k 32] by simp
  moreover have "unat ((2 :: u32) ^ k) = 2 ^ k" using unat_of_nat_u32 [OF lt] by simp
  ultimately show thesis using that [of k] k by simp
qed

text \<open>Above \<open>2^31\<close> the rounding wraps to zero.\<close>

lemma next_power_of_2_wraps:
  assumes "2 ^ 31 < unat v" shows "next_power_of_2 v = 0"
proof -
  have "0 < v" using assms by (simp add: word_less_nat_alt)
  then obtain k where k: "k \<le> 32" "next_power_of_2 v = 2 ^ k" "unat v \<le> 2 ^ k"
    using next_power_of_2_word by metis
  then have "(2::nat) ^ 31 < 2 ^ k" using assms by linarith
  then have "31 < k" using power_less_imp_less_exp [of 2 31 k] by simp
  then have "k = 32" using k(1) by simp
  then show ?thesis using k(2) by simp
qed

section \<open>The queue as a list\<close>

definition dq_items :: "dqueue \<Rightarrow> demotion_item list" where
  "dq_items q =
     map (\<lambda>i. q_buffer q ! unat (dq_slot q (q_read q + of_nat i))) [0..<unat (q_write q - q_read q)]"

definition dq_inv :: "dqueue \<Rightarrow> bool" where
  "dq_inv q \<longleftrightarrow> (\<exists>k \<le> 31. unat (q_capacity q) = 2 ^ k) \<and> q_mask q = q_capacity q - 1 \<and>
     length (q_buffer q) = unat (q_capacity q) \<and> unat (q_write q - q_read q) \<le> unat (q_capacity q)"

text \<open>How many items the queue takes before it starts to drop: 80 percent of the capacity, computed
  in single precision (exactly, since the capacity is a power of two) and truncated.\<close>

definition dq_limit :: "dqueue \<Rightarrow> nat" where
  "dq_limit q = (unat (q_capacity q) * 13421773) div 2 ^ 24"

lemma dq_length_items [simp]: "length (dq_items q) = unat (q_write q - q_read q)"
  by (simp add: dq_items_def)

lemma dq_limit_less: "dq_inv q \<Longrightarrow> dq_limit q < unat (q_capacity q)"
proof -
  assume "dq_inv q"
  then have "0 < unat (q_capacity q)" by (auto simp: dq_inv_def)
  then show ?thesis unfolding dq_limit_def by (simp add: less_mult_imp_div_less)
qed

lemma dq_pressure_limit_val:
  assumes "dq_inv q"
  shows "\<exists>limit. dq_pressure_limit q = Some limit \<and> unat limit = dq_limit q"
proof -
  obtain k where k: "unat (q_capacity q) = 2 ^ k" using assms by (auto simp: dq_inv_def)
  have eq: "u32_times_f32 (q_capacity q) f32_0_80 = dq_limit q"
    using u32_times_f32_pow2 [OF k, of f32_0_80] by (simp add: dq_limit_def k f32_0_80_def)
  have lt: "dq_limit q < 2 ^ 64"
    using dq_limit_less [OF assms] unat_u32_bound [of "q_capacity q"] by simp
  then have "unat (of_nat (dq_limit q) :: u64) = dq_limit q"
    by (simp add: unsigned_of_nat take_bit_nat_eq_self)
  with eq lt show ?thesis by (simp add: dq_pressure_limit_def f32_to_u64_def)
qed

lemma dq_slot_nat:
  assumes "dq_inv q"
  shows "unat (dq_slot q p) = unat p mod unat (q_capacity q)"
    and "unat (dq_slot q p) < length (q_buffer q)"
proof -
  obtain k where k: "k \<le> 31" "unat (q_capacity q) = 2 ^ k" using assms by (auto simp: dq_inv_def)
  have pos: "0 < unat (q_capacity q)" using k by simp
  have "of_nat (unat (q_capacity q)) = q_capacity q" by simp
  then have "q_capacity q = 2 ^ k" using k(2) by simp
  then have "q_mask q = mask k" using assms by (simp add: dq_inv_def mask_eq_exp_minus_1)
  then have "dq_slot q p = ucast (take_bit k p)"
    using k(1) by (intro bit_word_eqI)
      (auto simp: dq_slot_def bit_simps)
  moreover have "unat (ucast (take_bit k p) :: u32) = unat (take_bit k p)"
  proof -
    have "unat (take_bit k p) < 2 ^ k" by (simp add: unsigned_take_bit_eq)
    also have "(2::nat) ^ k \<le> 2 ^ 31" using k(1) by (rule power_increasing) simp
    finally have "unat (take_bit k p) < 2 ^ 32" by simp
    then show ?thesis by (simp add: unsigned_ucast_eq take_bit_nat_eq_self)
  qed
  moreover have "unat (take_bit k p) = unat p mod 2 ^ k"
    by (rule trans [OF unsigned_take_bit_eq take_bit_eq_mod])
  ultimately show eq: "unat (dq_slot q p) = unat p mod unat (q_capacity q)"
    by (simp only: k(2))
  show "unat (dq_slot q p) < length (q_buffer q)"
    using pos assms by (simp add: eq dq_inv_def)
qed

lemma dq_slot_offset:
  assumes "dq_inv q"
  shows "unat (dq_slot q (p + of_nat i)) = (unat p + i) mod unat (q_capacity q)"
proof -
  obtain k where k: "k \<le> 31" "unat (q_capacity q) = 2 ^ k" using assms by (auto simp: dq_inv_def)
  have dvd: "(2::nat) ^ k dvd 2 ^ 64" by (rule le_imp_power_dvd) (use k(1) in simp)
  have "unat (p + of_nat i) = (unat p + i) mod 2 ^ 64"
    by (simp add: unat_word_ariths unsigned_of_nat take_bit_eq_mod mod_simps)
  then show ?thesis
    using mod_mod_cancel [OF dvd, of "unat p + i"] by (simp add: dq_slot_nat [OF assms] k(2))
qed

lemma dq_new_inv:
  assumes "unat capacity \<le> 2 ^ 31"
  shows "dq_inv (dq_new capacity)" and "dq_items (dq_new capacity) = []"
proof -
  have "\<exists>k \<le> 31. unat (next_power_of_2 capacity) = 2 ^ k"
  proof (cases "capacity = 0")
    case True
    then show ?thesis by (intro exI [of _ 0]) (simp add: next_power_of_2_def)
  next
    case False
    then show ?thesis using next_power_of_2_spec [of capacity] assms by (metis word_gt_0)
  qed
  then show "dq_inv (dq_new capacity)" by (simp add: dq_new_def dq_inv_def Let_def)
  show "dq_items (dq_new capacity) = []" by (simp add: dq_new_def dq_items_def Let_def)
qed

lemma unat_diff_Suc_u64:
  assumes "unat (w - r :: u64) < 2 ^ 64 - 1"
  shows "unat (w + 1 - r) = Suc (unat (w - r))"
proof -
  have "w + 1 - r = (w - r) + 1" by simp
  moreover have "unat ((w - r) + 1) = Suc (unat (w - r))"
    using assms by (simp add: unat_word_ariths)
  ultimately show ?thesis by (simp only:)
qed

lemma dq_push_item_ok:
  fixes item :: demotion_item
  assumes inv: "dq_inv q" and room: "unat (q_write q - q_read q) < unat (q_capacity q)"
  defines "q' \<equiv> q\<lparr>q_buffer := (q_buffer q)[unat (dq_slot q (q_write q)) := item], q_write := q_write q + 1\<rparr>"
  shows "dq_inv q'" and "dq_items q' = dq_items q @ [item]"
proof -
  let ?n = "unat (q_write q - q_read q)" and ?C = "unat (q_capacity q)"
  have n64: "?n < 2 ^ 64 - 1" using room unat_u32_bound [of "q_capacity q"] by simp
  have n': "unat (q_write q' - q_read q') = Suc ?n"
    using unat_diff_Suc_u64 [OF n64] by (simp add: q'_def)
  then show "dq_inv q'" using inv room by (simp add: dq_inv_def q'_def)
  have w: "q_write q = q_read q + of_nat ?n" by simp
  have slot: "dq_slot q' = dq_slot q" by (intro ext) (simp add: dq_slot_def q'_def)
  have other: "unat (dq_slot q (q_read q + of_nat i)) \<noteq> unat (dq_slot q (q_write q))" if "i < ?n" for i
  proof
    assume eq: "unat (dq_slot q (q_read q + of_nat i)) = unat (dq_slot q (q_write q))"
    have "unat (dq_slot q (q_write q)) = (unat (q_read q) + ?n) mod ?C"
      using dq_slot_offset [OF inv, of "q_read q" ?n] w by simp
    then have "(unat (q_read q) + i) mod ?C = (unat (q_read q) + ?n) mod ?C"
      using eq dq_slot_offset [OF inv, of "q_read q" i] by simp
    then have "?C dvd (unat (q_read q) + ?n) - (unat (q_read q) + i)"
      using that by (intro mod_eq_dvd_iff_nat [THEN iffD1]) auto
    then have "?C \<le> ?n - i" using that by (intro dvd_imp_le) auto
    then show False using room by simp
  qed
  have old: "q_buffer q' ! unat (dq_slot q' (q_read q' + of_nat i)) = q_buffer q ! unat (dq_slot q (q_read q + of_nat i))"
    if "i < ?n" for i
    using other [OF that] by (simp add: slot) (simp add: q'_def)
  have new: "q_buffer q' ! unat (dq_slot q' (q_read q' + of_nat ?n)) = item"
    using dq_slot_nat(2) [OF inv] w by (simp add: slot) (simp add: q'_def)
  show "dq_items q' = dq_items q @ [item]"
    unfolding dq_items_def n' using old new by simp
qed

lemma dq_try_push_ok:
  assumes "dq_inv q"
  shows "oks (dq_try_push item q) (\<lambda>(accepted, q'). dq_inv q' \<and> q_capacity q' = q_capacity q \<and>
           accepted = (length (dq_items q) < dq_limit q) \<and>
           dq_items q' = (if accepted then dq_items q @ [item] else dq_items q) \<and>
           q_drops q' = (if accepted then q_drops q else q_drops q + 1))"
proof -
  obtain limit where lim: "dq_pressure_limit q = Some limit" "unat limit = dq_limit q"
    using dq_pressure_limit_val [OF assms] by blast
  let ?n = "unat (q_write q - q_read q)"
  show ?thesis
  proof (cases "?n < dq_limit q")
    case True
    have "?n < unat (q_capacity q)" using True dq_limit_less [OF assms] by simp
    moreover have "unat (ucast (q_capacity q) :: u64) = unat (q_capacity q)"
      using unat_u32_bound [of "q_capacity q"] by (simp add: unsigned_ucast_eq take_bit_nat_eq_self)
    ultimately show ?thesis
      using True lim dq_push_item_ok [OF assms, of item] dq_slot_nat(2) [OF assms, of "q_write q"]
      by (simp add: dq_try_push_def dq_unlocked_size_def word_le_nat_alt)
  next
    case False
    then show ?thesis
      using assms lim
      by (simp add: dq_try_push_def dq_unlocked_size_def word_le_nat_alt dq_inv_def dq_items_def dq_slot_def)
  qed
qed

lemma dq_advance:
  assumes inv: "dq_inv q" and m: "unat m \<le> unat (q_write q - q_read q)"
  shows "dq_inv (q\<lparr>q_read := q_read q + m\<rparr>)"
    and "dq_items (q\<lparr>q_read := q_read q + m\<rparr>) = drop (unat m) (dq_items q)"
proof -
  let ?n = "unat (q_write q - q_read q)"
  have "q_write q - (q_read q + m) = (q_write q - q_read q) - m" by simp
  then have n': "unat (q_write q - (q_read q + m)) = ?n - unat m"
    using m by (simp only: unat_sub word_le_nat_alt)
  then show "dq_inv (q\<lparr>q_read := q_read q + m\<rparr>)" using inv by (auto simp: dq_inv_def)
  have slot: "dq_slot (q\<lparr>q_read := q_read q + m\<rparr>) = dq_slot q" by (intro ext) (simp add: dq_slot_def)
  have shift: "q_read q + m + of_nat i = q_read q + of_nat (unat m + i)" for i by (simp add: add.assoc)
  show "dq_items (q\<lparr>q_read := q_read q + m\<rparr>) = drop (unat m) (dq_items q)"
    by (rule nth_equalityI) (auto simp: dq_items_def n' slot shift simp del: of_nat_add)
qed

lemma dq_front:
  assumes "dq_inv q" and "i < unat (q_write q - q_read q)"
  shows "vget (q_buffer q) (dq_slot q (q_read q + of_nat i)) = Some (dq_items q ! i)"
  using assms dq_slot_nat(2) [OF assms(1)] by (simp add: vget_def dq_items_def)

lemma dq_empty_iff: "q_read q = q_write q \<longleftrightarrow> dq_items q = []"
  by (metis dq_length_items eq_iff_diff_eq_0 length_0_conv unsigned_eq_0_iff)

lemma dq_try_pop_ok:
  assumes "dq_inv q"
  shows "oks (dq_try_pop q) (\<lambda>(r, q'). dq_inv q' \<and> q_capacity q' = q_capacity q \<and> q_drops q' = q_drops q \<and>
           r = (case dq_items q of [] \<Rightarrow> None | x # xs \<Rightarrow> Some x) \<and> dq_items q' = tl (dq_items q))"
proof (cases "dq_items q")
  case Nil
  then show ?thesis using assms by (simp add: dq_try_pop_def dq_empty_iff)
next
  case (Cons x xs)
  then have "0 < unat (q_write q - q_read q)" by (metis dq_length_items length_greater_0_conv list.distinct(1))
  then show ?thesis
    using assms Cons dq_front [OF assms, of 0] dq_advance [OF assms, of 1]
    by (simp add: dq_try_pop_def dq_empty_iff Suc_le_eq drop_Suc)
qed

lemma dq_collect:
  assumes "dq_inv q" and "set is \<subseteq> {..<unat (q_write q - q_read q)}"
  shows "ofold (\<lambda>i out. do { item \<leftarrow> vget (q_buffer q) (dq_slot q (q_read q + i)); Some (out @ [item]) })
           (map of_nat is) out = Some (out @ map (nth (dq_items q)) is)"
  using assms(2) by (induction "is" arbitrary: out) (simp_all add: dq_front [OF assms(1)])

lemma dq_try_pop_batch_ok:
  assumes "dq_inv q"
  shows "oks (dq_try_pop_batch max_count q out) (\<lambda>(popped, out', q'). dq_inv q' \<and> q_capacity q' = q_capacity q \<and>
           q_drops q' = q_drops q \<and> unat popped = min (unat max_count) (length (dq_items q)) \<and>
           out' = out @ take (unat max_count) (dq_items q) \<and> dq_items q' = drop (unat max_count) (dq_items q))"
proof (cases "q_write q - q_read q = 0")
  case True
  then have "dq_items q = []" by (simp add: dq_items_def)
  with True assms show ?thesis by (simp add: dq_try_pop_batch_def)
next
  case False
  let ?n = "unat (q_write q - q_read q)" and ?m = "min max_count (q_write q - q_read q)"
  have m: "unat ?m = min (unat max_count) ?n" by (simp add: min_def word_le_nat_alt)
  have "map (nth (dq_items q)) [0..<unat ?m] = take (unat max_count) (dq_items q)"
    by (rule nth_equalityI) (auto simp: m)
  moreover have "drop (unat ?m) (dq_items q) = drop (unat max_count) (dq_items q)"
    by (auto simp: m min_def word_le_nat_alt)
  moreover have "set [0..<unat ?m] \<subseteq> {..<?n}" by (auto simp: m)
  ultimately show ?thesis
    using False assms dq_collect [OF assms, of "[0..<unat ?m]" out] dq_advance [OF assms, of ?m] m
    by (simp add: dq_try_pop_batch_def Let_def)
qed

lemma dq_size_items: "dq_inv q \<Longrightarrow> unat (dq_size q) = length (dq_items q)"
  using unat_u32_bound [of "q_capacity q"]
  by (simp add: dq_size_def dq_unlocked_size_def dq_inv_def unsigned_ucast_eq take_bit_nat_eq_self)

lemma dq_is_under_pressure_iff:
  assumes "dq_inv q"
  shows "dq_is_under_pressure q = Some (dq_limit q \<le> length (dq_items q))"
  using dq_pressure_limit_val [OF assms]
  by (auto simp: dq_is_under_pressure_def dq_unlocked_size_def word_le_nat_alt)

section \<open>The interface of a bounded queue\<close>

text \<open>
  The calls of \<open>DemotionQueue\<close> and their answers, and what a caller may rely on: a FIFO list with a limit
  and a counter of dropped items. The lemmas follow from the laws alone.
\<close>

datatype 'a queue_op = Try_push 'a | Try_pop | Try_pop_batch u64 | Ask_size | Ask_pressure

datatype 'a queue_answer = Accepted bool | Popped "'a option" | Popped_batch u64 "'a list" | Size_is u32 | Pressure_is bool

definition queue_step :: "('a \<Rightarrow> 'q \<Rightarrow> (bool \<times> 'q) option) \<Rightarrow> ('q \<Rightarrow> ('a option \<times> 'q) option) \<Rightarrow>
    (u64 \<Rightarrow> 'q \<Rightarrow> 'a list \<Rightarrow> (u64 \<times> 'a list \<times> 'q) option) \<Rightarrow> ('q \<Rightarrow> u32) \<Rightarrow> ('q \<Rightarrow> bool option) \<Rightarrow>
    'a queue_op \<Rightarrow> 'q \<Rightarrow> ('a queue_answer \<times> 'q) option" where
  "queue_step push pop pop_batch count pressure e q = (case e of
     Try_push x \<Rightarrow> do { (b, q) \<leftarrow> push x q; Some (Accepted b, q) }
   | Try_pop \<Rightarrow> do { (r, q) \<leftarrow> pop q; Some (Popped r, q) }
   | Try_pop_batch n \<Rightarrow> do { (k, out, q) \<leftarrow> pop_batch n q []; Some (Popped_batch k out, q) }
   | Ask_size \<Rightarrow> Some (Size_is (count q), q)
   | Ask_pressure \<Rightarrow> do { b \<leftarrow> pressure q; Some (Pressure_is b, q) })"

primrec queue_run :: "('e \<Rightarrow> 'q \<Rightarrow> ('r \<times> 'q) option) \<Rightarrow> 'e list \<Rightarrow> 'q \<Rightarrow> ('r list \<times> 'q) option" where
  "queue_run step [] q = Some ([], q)"
| "queue_run step (e # es) q = do { (r, q) \<leftarrow> step e q; (rs, q) \<leftarrow> queue_run step es q; Some (r # rs, q) }"

text \<open>The specification: the queued items, oldest first, and the number of dropped ones.\<close>

fun fifo_step :: "nat \<Rightarrow> 'a queue_op \<Rightarrow> 'a list \<times> u64 \<Rightarrow> 'a queue_answer \<times> 'a list \<times> u64" where
  "fifo_step lim (Try_push x) (xs, n) =
     (if length xs < lim then (Accepted True, xs @ [x], n) else (Accepted False, xs, n + 1))"
| "fifo_step lim Try_pop (xs, n) = (Popped (case xs of [] \<Rightarrow> None | x # _ \<Rightarrow> Some x), tl xs, n)"
| "fifo_step lim (Try_pop_batch k) (xs, n) =
     (Popped_batch (of_nat (min (unat k) (length xs))) (take (unat k) xs), drop (unat k) xs, n)"
| "fifo_step lim Ask_size (xs, n) = (Size_is (of_nat (length xs)), xs, n)"
| "fifo_step lim Ask_pressure (xs, n) = (Pressure_is (lim \<le> length xs), xs, n)"

primrec fifo_run :: "nat \<Rightarrow> 'a queue_op list \<Rightarrow> 'a list \<times> u64 \<Rightarrow> 'a queue_answer list \<times> 'a list \<times> u64" where
  "fifo_run lim [] s = ([], s)"
| "fifo_run lim (e # es) s = (let (r, s) = fifo_step lim e s; (rs, s) = fifo_run lim es s in (r # rs, s))"

locale bounded_queue =
  fixes push :: "'a \<Rightarrow> 'q \<Rightarrow> (bool \<times> 'q) option"
    and pop :: "'q \<Rightarrow> ('a option \<times> 'q) option"
    and pop_batch :: "u64 \<Rightarrow> 'q \<Rightarrow> 'a list \<Rightarrow> (u64 \<times> 'a list \<times> 'q) option"
    and count :: "'q \<Rightarrow> u32"
    and pressure :: "'q \<Rightarrow> bool option"
    and items :: "'q \<Rightarrow> 'a list"
    and drops :: "'q \<Rightarrow> u64"
    and limit :: "'q \<Rightarrow> nat"
    and inv :: "'q \<Rightarrow> bool"
  assumes push_ok: "inv q \<Longrightarrow> oks (push x q) (\<lambda>(b, q'). inv q' \<and> limit q' = limit q \<and>
            b = (length (items q) < limit q) \<and> items q' = (if b then items q @ [x] else items q) \<and>
            drops q' = (if b then drops q else drops q + 1))"
    and pop_ok: "inv q \<Longrightarrow> oks (pop q) (\<lambda>(r, q'). inv q' \<and> limit q' = limit q \<and> drops q' = drops q \<and>
            r = (case items q of [] \<Rightarrow> None | x # _ \<Rightarrow> Some x) \<and> items q' = tl (items q))"
    and pop_batch_ok: "inv q \<Longrightarrow> oks (pop_batch n q out) (\<lambda>(k, out', q'). inv q' \<and> limit q' = limit q \<and> drops q' = drops q \<and>
            k = of_nat (min (unat n) (length (items q))) \<and> out' = out @ take (unat n) (items q) \<and>
            items q' = drop (unat n) (items q))"
    and count_ok: "inv q \<Longrightarrow> count q = of_nat (length (items q))"
    and pressure_ok: "inv q \<Longrightarrow> pressure q = Some (limit q \<le> length (items q))"
begin

abbreviation "step \<equiv> queue_step push pop pop_batch count pressure"

lemma step_fifo:
  assumes "inv q"
  shows "oks (step e q) (\<lambda>(r, q'). inv q' \<and> limit q' = limit q \<and>
           (r, items q', drops q') = fifo_step (limit q) e (items q, drops q))"
proof (cases e)
  case (Try_push x)
  then show ?thesis
    using assms by (auto simp: queue_step_def intro!: oks_mono [OF push_ok [OF assms, of x]])
next
  case Try_pop
  then show ?thesis
    using assms by (auto simp: queue_step_def intro!: oks_mono [OF pop_ok [OF assms]])
next
  case (Try_pop_batch n)
  then show ?thesis
    using assms by (auto simp: queue_step_def intro!: oks_mono [OF pop_batch_ok [OF assms, of n "[]"]])
qed (use assms in \<open>simp_all add: queue_step_def count_ok pressure_ok\<close>)

lemma run_fifo:
  assumes "inv q"
  shows "oks (queue_run step es q) (\<lambda>(rs, q'). inv q' \<and> (rs, items q', drops q') = fifo_run (limit q) es (items q, drops q))"
  using assms
proof (induction es arbitrary: q)
  case (Cons e es)
  obtain r q1 where s: "step e q = Some (r, q1)"
    and q1: "inv q1" "limit q1 = limit q" "fifo_step (limit q) e (items q, drops q) = (r, items q1, drops q1)"
    using step_fifo [OF Cons.prems, of e] by (auto elim!: oksE)
  show ?case using Cons.IH [OF q1(1)] by (simp add: s q1(2,3)) (auto elim!: oks_mono split: prod.splits)
qed simp

end

lemma unat_eq_of_nat: "unat w = n \<Longrightarrow> w = of_nat n"
  by auto

interpretation dq: bounded_queue dq_try_push dq_try_pop dq_try_pop_batch dq_size dq_is_under_pressure
  dq_items q_drops dq_limit dq_inv
proof
  fix q assume inv: "dq_inv q"
  show "oks (dq_try_push x q) (\<lambda>(b, q'). dq_inv q' \<and> dq_limit q' = dq_limit q \<and>
          b = (length (dq_items q) < dq_limit q) \<and> dq_items q' = (if b then dq_items q @ [x] else dq_items q) \<and>
          q_drops q' = (if b then q_drops q else q_drops q + 1))" for x
    by (rule oks_mono [OF dq_try_push_ok [OF inv, of x]]) (auto simp: dq_limit_def)
  show "oks (dq_try_pop q) (\<lambda>(r, q'). dq_inv q' \<and> dq_limit q' = dq_limit q \<and> q_drops q' = q_drops q \<and>
          r = (case dq_items q of [] \<Rightarrow> None | x # _ \<Rightarrow> Some x) \<and> dq_items q' = tl (dq_items q))"
    by (rule oks_mono [OF dq_try_pop_ok [OF inv]]) (auto simp: dq_limit_def)
  show "oks (dq_try_pop_batch n q out) (\<lambda>(k, out', q'). dq_inv q' \<and> dq_limit q' = dq_limit q \<and> q_drops q' = q_drops q \<and>
          k = of_nat (min (unat n) (length (dq_items q))) \<and> out' = out @ take (unat n) (dq_items q) \<and>
          dq_items q' = drop (unat n) (dq_items q))" for n out
    by (rule oks_mono [OF dq_try_pop_batch_ok [OF inv, of n out]])
      (clarsimp simp: dq_limit_def simp del: of_nat_min dest!: unat_eq_of_nat)
  show "dq_size q = of_nat (length (dq_items q))"
    by (rule unat_eq_of_nat [OF dq_size_items [OF inv]])
  show "dq_is_under_pressure q = Some (dq_limit q \<le> length (dq_items q))" by (rule dq_is_under_pressure_iff [OF inv])
qed

lemma dq_new_capacity:
  assumes "unat capacity \<le> 2 ^ 31"
  obtains k where "unat (q_capacity (dq_new capacity)) = 2 ^ k" "unat capacity \<le> 2 ^ k"
    "2 ^ k < 2 * unat capacity \<or> capacity = 0 \<and> k = 0"
proof (cases "capacity = 0")
  case True
  then show thesis using that [of 0] by (simp add: dq_new_def next_power_of_2_def)
next
  case False
  then obtain k where "unat (next_power_of_2 capacity) = 2 ^ k" "unat capacity \<le> 2 ^ k" "2 ^ k < 2 * unat capacity"
    using assms next_power_of_2_spec [of capacity] by (metis word_gt_0)
  then show thesis using that [of k] by (simp add: dq_new_def Let_def)
qed

text \<open>C16. The ring buffer is a bounded FIFO queue. For a requested capacity up to \<open>2^31\<close>, rounded up to a power of
  two \<open>2^k\<close>, any sequence of \<open>try_push\<close>, \<open>try_pop\<close>, \<open>try_pop_batch\<close>, \<open>size\<close> and \<open>is_under_pressure\<close> on a new
  queue runs without an access outside the buffer and gives exactly the answers of a list: a push is appended when
  fewer than 80 percent of \<open>2^k\<close> are queued (\<open>0.80f\<close> is \<open>13421773 / 2^24\<close>), and is otherwise refused and counted in
  \<open>drops_\<close>; \<open>try_pop\<close> takes the oldest item; a batch takes the oldest \<open>max_count\<close> or as many as there are. The
  64-bit positions may wrap around.
\<close>

theorem dq_fifo:
  assumes "unat capacity \<le> 2 ^ 31"
  shows "\<exists>k q. unat capacity \<le> 2 ^ k \<and> (2 ^ k < 2 * unat capacity \<or> capacity = 0 \<and> k = 0) \<and>
           (let (answers, items, drops) = fifo_run (2 ^ k * 13421773 div 2 ^ 24) ops ([], 0)
            in queue_run (queue_step dq_try_push dq_try_pop dq_try_pop_batch dq_size dq_is_under_pressure) ops
                 (dq_new capacity) = Some (answers, q) \<and> dq_items q = items \<and> q_drops q = drops)"
proof -
  obtain k where k: "unat (q_capacity (dq_new capacity)) = 2 ^ k" "unat capacity \<le> 2 ^ k"
      "2 ^ k < 2 * unat capacity \<or> capacity = 0 \<and> k = 0"
    by (rule dq_new_capacity [OF assms])
  have "dq_limit (dq_new capacity) = 2 ^ k * 13421773 div 2 ^ 24" by (simp add: dq_limit_def k(1))
  moreover have "q_drops (dq_new capacity) = 0" by (simp add: dq_new_def Let_def)
  ultimately show ?thesis
    using dq.run_fifo [OF dq_new_inv(1) [OF assms], of ops] k(2,3) dq_new_inv(2) [OF assms]
    by (intro exI [of _ k]) (auto simp: oks_iff split: prod.splits)
qed

theorem dq_fifo_witness:
  "\<exists>q. queue_run (queue_step dq_try_push dq_try_pop dq_try_pop_batch dq_size dq_is_under_pressure)
         [Try_push item_default, Try_push item_default, Ask_pressure, Try_pop, Try_pop_batch 4, Try_pop] (dq_new 2) =
       Some ([Accepted True, Accepted False, Pressure_is True, Popped (Some item_default), Popped_batch 0 [], Popped None], q) \<and>
       dq_items q = [] \<and> q_drops q = 1"
proof -
  let ?ops = "[Try_push item_default, Try_push item_default, Ask_pressure, Try_pop, Try_pop_batch 4, Try_pop]"
  obtain k q where k: "(2::nat) \<le> 2 ^ k" "(2::nat) ^ k < 4"
    and r: "let (answers, items, drops) = fifo_run (2 ^ k * 13421773 div 2 ^ 24) ?ops ([], 0)
            in queue_run (queue_step dq_try_push dq_try_pop dq_try_pop_batch dq_size dq_is_under_pressure) ?ops
                 (dq_new 2) = Some (answers, q) \<and> dq_items q = items \<and> q_drops q = drops"
    using dq_fifo [of 2 ?ops] by auto
  have "k < 2" using power_less_imp_less_exp [of "2::nat" k 2] k(2) by simp
  moreover have "k \<noteq> 0" using k(1) by (cases k) simp_all
  ultimately have "k = 1" by simp
  then show ?thesis using r by (auto simp: Let_def)
qed

text \<open>Backpressure. A push is accepted exactly when fewer than 80 percent of the capacity (rounded up
  to a power of two) are queued; otherwise the item is dropped and counted in \<open>drops_\<close>, and the
  separate full check of \<open>try_push\<close> is never the reason.
\<close>

theorem dq_backpressure:
  assumes "dq_inv q"
  shows "oks (dq_try_push item q) (\<lambda>(accepted, q').
           accepted = (length (dq_items q) < dq_limit q) \<and>
           dq_items q' = (if accepted then dq_items q @ [item] else dq_items q) \<and>
           q_drops q' = (if accepted then q_drops q else q_drops q + 1)) \<and>
         dq_limit q < unat (q_capacity q) \<and> dq_is_under_pressure q = Some (dq_limit q \<le> length (dq_items q))"
  by (intro conjI dq_limit_less dq_is_under_pressure_iff assms)
    (rule oks_mono [OF dq_try_push_ok [OF assms, of item]], auto)

theorem dq_backpressure_witness:
  "dq_inv (dq_new 16) \<and> dq_limit (dq_new 16) = 12 \<and>
   oks (dq_try_push item_default (dq_new 16)) (\<lambda>(accepted, q'). accepted)"
proof -
  have inv: "dq_inv (dq_new 16)" by (rule dq_new_inv) simp
  have lim: "dq_limit (dq_new 16) = 12"
    by (simp add: dq_limit_def dq_new_def next_power_of_2_def Let_def)
  show ?thesis
    using inv lim dq_backpressure [OF inv, of item_default] dq_new_inv(2) [of 16]
    by (auto elim!: oks_mono)
qed

text \<open>Above \<open>2^31\<close> the capacity wraps to zero; the pressure limit is then zero.\<close>

lemma dq_wrapped_rejects:
  assumes "2 ^ 31 < unat capacity"
  shows "dq_try_push item (dq_new capacity) = Some (False, (dq_new capacity)\<lparr>q_drops := 1\<rparr>)"
  by (simp add: dq_try_push_def dq_new_def next_power_of_2_wraps [OF assms] dq_pressure_limit_def
      f32_to_u64_def Let_def)

text \<open>The requested capacity is rounded up to the next power of two, up to \<open>2^31\<close>; a larger request
  wraps to a queue of capacity zero that rejects every push.
\<close>

theorem dq_capacity_rounding:
  assumes "0 < capacity"
  shows "if unat capacity \<le> 2 ^ 31
         then \<exists>k. unat (q_capacity (dq_new capacity)) = 2 ^ k \<and> unat capacity \<le> 2 ^ k \<and> 2 ^ k < 2 * unat capacity
         else dq_try_push item (dq_new capacity) = Some (False, (dq_new capacity)\<lparr>q_drops := 1\<rparr>)"
proof (cases "unat capacity \<le> 2 ^ 31")
  case True
  then obtain k where "unat (next_power_of_2 capacity) = 2 ^ k" "unat capacity \<le> 2 ^ k" "2 ^ k < 2 * unat capacity"
    using assms by (metis next_power_of_2_spec)
  then show ?thesis using True by (auto simp: dq_new_def Let_def)
qed (use dq_wrapped_rejects in simp)

theorem dq_capacity_rounding_witness: "\<exists>k. unat (q_capacity (dq_new 10)) = 2 ^ k \<and> 10 \<le> (2::nat) ^ k \<and> 2 ^ k < (20::nat)"
  using dq_capacity_rounding [of 10 item_default] by simp

text \<open>A queue of capacity one never accepts anything: 80 percent of one truncates to zero.\<close>

lemma dq_capacity_one_rejects: "dq_limit (dq_new 1) = 0"
  by (simp add: dq_limit_def dq_new_def next_power_of_2_def Let_def)

end
