(* ===== verification/Demotion_Drainer.thy ===== *)
theory Demotion_Drainer
  imports Demotion_Queue
begin

text \<open>
  \<open>DemotionDrainer\<close> (\<open>include/demotion_drainer.h\<close>, \<open>src/demotion_drainer.cpp\<close>): a background thread
  that pops batches of at most 64 items and hands each to a callback, until \<open>stop()\<close> clears
  \<open>running_\<close>; it then drains what is left and ends. The thread is a state machine whose steps are the
  atomic actions of \<open>run()\<close> (reading the flag, popping under the queue's lock, calling the callback),
  interleaved with pushes by other threads and with \<open>stop()\<close>. The callback's effect is the log of the
  batches it was given. Calling \<open>insert_fn_\<close> on a batch and adding its length to \<open>drained_\<close> is one step of the
  model: in the code another thread may read \<open>drained()\<close> between the two and see the batch not yet counted. The
  timed wait of the idle loop is a step that changes nothing.
\<close>

declare dq_length_items [simp del]

section \<open>The final drain, as a function\<close>

text \<open>The last loop of \<open>run()\<close>, with the callback as a parameter acting on a state.\<close>

partial_function (option) final_drain ::
  "(demotion_item list \<Rightarrow> 's \<Rightarrow> 's option) \<Rightarrow> dqueue \<Rightarrow> u64 \<Rightarrow> 's \<Rightarrow> (dqueue \<times> u64 \<times> 's) option" where
  "final_drain insert_fn q drained st =
     dq_try_pop_batch 64 q [] \<bind> (\<lambda>(popped, batch, q).
       if popped > 0
       then insert_fn batch st \<bind> (\<lambda>st. final_drain insert_fn q (drained + of_nat (length batch)) st)
       else Some (q, drained, st))"

text \<open>The batches it hands over: consecutive chunks of at most 64.\<close>

function chunks64 :: "'a list \<Rightarrow> 'a list list" where
  "chunks64 xs = (if xs = [] then [] else take 64 xs # chunks64 (drop 64 xs))"
  by pat_completeness auto
termination by (relation "measure length") auto

declare chunks64.simps [simp del]

lemma chunks64_Nil [simp]: "chunks64 [] = []"
  by (simp add: chunks64.simps)

lemma concat_chunks64: "concat (chunks64 xs) = xs"
proof (induction xs rule: chunks64.induct)
  case (1 xs)
  then show ?case by (cases "xs = []") (simp_all add: chunks64.simps [of xs])
qed

lemma chunks64_bounds: "b \<in> set (chunks64 xs) \<Longrightarrow> 0 < length b \<and> length b \<le> 64"
proof (induction xs rule: chunks64.induct)
  case (1 xs)
  then show ?case by (cases "xs = []") (auto simp: chunks64.simps [of xs])
qed

lemma final_drain_ok:
  assumes "dq_inv q" and "ofold insert_fn (chunks64 (dq_items q)) st = Some st'"
  shows "oks (final_drain insert_fn q drained st) (\<lambda>(q', drained', st''). dq_inv q' \<and> dq_items q' = [] \<and>
           drained' = drained + of_nat (length (dq_items q)) \<and> st'' = st')"
  using assms
proof (induction "dq_items q" arbitrary: q drained st rule: chunks64.induct)
  case 1
  obtain popped batch q1 where pop: "dq_try_pop_batch 64 q [] = Some (popped, batch, q1)"
    and q1: "dq_inv q1" "unat popped = min 64 (length (dq_items q))" "batch = take 64 (dq_items q)"
      "dq_items q1 = drop 64 (dq_items q)"
    using dq_try_pop_batch_ok [OF 1(2), of 64 "[]"] by (auto elim!: oksE)
  show ?case
  proof (cases "dq_items q = []")
    case True
    then have "popped = 0" using q1(2) by (simp add: unsigned_eq_0_iff)
    then show ?thesis
      using pop q1 True 1(3) by (simp add: final_drain.simps [of insert_fn q] chunks64.simps)
  next
    case False
    then have pos: "popped > 0" using q1(2) by (simp add: word_less_nat_alt)
    have ch: "chunks64 (dq_items q) = batch # chunks64 (dq_items q1)"
      using False q1 by (simp add: chunks64.simps [of "dq_items q"])
    then obtain st1 where st1: "insert_fn batch st = Some st1" "ofold insert_fn (chunks64 (dq_items q1)) st1 = Some st'"
      using 1(3) by (auto split: bind_splits)
    have "oks (final_drain insert_fn q1 (drained + of_nat (length batch)) st1) (\<lambda>(q', drained', st''). dq_inv q' \<and> dq_items q' = [] \<and>
           drained' = drained + of_nat (length batch) + of_nat (length (dq_items q1)) \<and> st'' = st')"
      by (rule 1(1)) (use False q1 st1 in auto)
    moreover have "length batch + length (dq_items q1) = length (dq_items q)"
      using q1 by simp
    ultimately show ?thesis
      using pop pos st1(1)
      by (simp add: final_drain.simps [of insert_fn q] add.assoc flip: of_nat_add)
  qed
qed

section \<open>The thread\<close>

datatype drainer_pc = Check | Pop | Deliver "demotion_item list"
  | Final_pop | Final_deliver "demotion_item list" | Finished

record drainer =
  dr_queue :: dqueue
  dr_running :: bool
  dr_drained :: u64
  dr_pc :: drainer_pc
  dr_log :: "demotion_item list list"
  dr_accepted :: "demotion_item list"
  dr_late :: "demotion_item list"

text \<open>\<open>dr_log\<close> records the batches given to \<open>insert_fn_\<close>, \<open>dr_accepted\<close> the items accepted by
  \<open>try_push\<close>, and \<open>dr_late\<close> those of them accepted after the thread had ended: no step reads them.\<close>

definition drainer_init :: "dqueue \<Rightarrow> drainer" where
  "drainer_init q = \<lparr>dr_queue = q, dr_running = True, dr_drained = 0, dr_pc = Check, dr_log = [], dr_accepted = [], dr_late = []\<rparr>"

inductive drainer_step :: "drainer \<Rightarrow> drainer \<Rightarrow> bool" where
  push: "dq_try_push item (dr_queue d) = Some (b, q) \<Longrightarrow>
     drainer_step d (d\<lparr>dr_queue := q, dr_accepted := (if b then dr_accepted d @ [item] else dr_accepted d),
       dr_late := (if b \<and> dr_pc d = Finished then dr_late d @ [item] else dr_late d)\<rparr>)"
| stop: "drainer_step d (d\<lparr>dr_running := False\<rparr>)"
| check_run: "dr_pc d = Check \<Longrightarrow> dr_running d \<Longrightarrow> drainer_step d (d\<lparr>dr_pc := Pop\<rparr>)"
| check_stop: "dr_pc d = Check \<Longrightarrow> \<not> dr_running d \<Longrightarrow> drainer_step d (d\<lparr>dr_pc := Final_pop\<rparr>)"
| pop: "dr_pc d = Pop \<Longrightarrow> dq_try_pop_batch 64 (dr_queue d) [] = Some (popped, batch, q) \<Longrightarrow> popped > 0 \<Longrightarrow>
     drainer_step d (d\<lparr>dr_queue := q, dr_pc := Deliver batch\<rparr>)"
| idle: "dr_pc d = Pop \<Longrightarrow> dq_try_pop_batch 64 (dr_queue d) [] = Some (popped, batch, q) \<Longrightarrow> popped = 0 \<Longrightarrow>
     drainer_step d (d\<lparr>dr_queue := q, dr_pc := Check\<rparr>)"
| deliver: "dr_pc d = Deliver batch \<Longrightarrow>
     drainer_step d (d\<lparr>dr_log := dr_log d @ [batch], dr_drained := dr_drained d + of_nat (length batch), dr_pc := Check\<rparr>)"
| final_pop: "dr_pc d = Final_pop \<Longrightarrow> dq_try_pop_batch 64 (dr_queue d) [] = Some (popped, batch, q) \<Longrightarrow> popped > 0 \<Longrightarrow>
     drainer_step d (d\<lparr>dr_queue := q, dr_pc := Final_deliver batch\<rparr>)"
| final_end: "dr_pc d = Final_pop \<Longrightarrow> dq_try_pop_batch 64 (dr_queue d) [] = Some (popped, batch, q) \<Longrightarrow> popped = 0 \<Longrightarrow>
     drainer_step d (d\<lparr>dr_queue := q, dr_pc := Finished\<rparr>)"
| final_deliver: "dr_pc d = Final_deliver batch \<Longrightarrow>
     drainer_step d (d\<lparr>dr_log := dr_log d @ [batch], dr_drained := dr_drained d + of_nat (length batch), dr_pc := Final_pop\<rparr>)"

inductive drainer_reachable :: "dqueue \<Rightarrow> drainer \<Rightarrow> bool" for q0 where
  init: "drainer_reachable q0 (drainer_init q0)"
| step: "drainer_reachable q0 d \<Longrightarrow> drainer_step d d' \<Longrightarrow> drainer_reachable q0 d'"

inductive_cases drainer_reachableE: "drainer_reachable q0 d"

primrec in_flight :: "drainer_pc \<Rightarrow> demotion_item list" where
  "in_flight Check = []"
| "in_flight Pop = []"
| "in_flight (Deliver b) = b"
| "in_flight Final_pop = []"
| "in_flight (Final_deliver b) = b"
| "in_flight Finished = []"

definition drainer_inv :: "drainer \<Rightarrow> bool" where
  "drainer_inv d \<longleftrightarrow> dq_inv (dr_queue d) \<and>
     dr_accepted d = concat (dr_log d) @ in_flight (dr_pc d) @ dq_items (dr_queue d) \<and>
     dr_drained d = of_nat (length (concat (dr_log d))) \<and>
     (\<forall>b \<in> set (dr_log d). 0 < length b \<and> length b \<le> 64) \<and>
     (\<forall>b. dr_pc d = Deliver b \<or> dr_pc d = Final_deliver b \<longrightarrow> 0 < length b \<and> length b \<le> 64) \<and>
     (dr_pc d \<in> {Final_pop, Finished} \<union> range Final_deliver \<longrightarrow> \<not> dr_running d) \<and>
     dr_late d = (if dr_pc d = Finished then dq_items (dr_queue d) else [])"

lemma drainer_inv_init: "dq_inv q \<Longrightarrow> dq_items q = [] \<Longrightarrow> drainer_inv (drainer_init q)"
  by (auto simp: drainer_inv_def drainer_init_def)

lemma batch64:
  assumes "dq_inv q" and "dq_try_pop_batch 64 q [] = Some (popped, batch, q')"
  shows "dq_inv q'" "batch @ dq_items q' = dq_items q" "popped > 0 \<longleftrightarrow> batch \<noteq> []" "length batch \<le> 64"
    "popped = 0 \<longleftrightarrow> dq_items q = []"
proof -
  have *: "dq_inv q'" "unat popped = min 64 (length (dq_items q))" "batch = take 64 (dq_items q)"
      "dq_items q' = drop 64 (dq_items q)"
    using dq_try_pop_batch_ok [OF assms(1), of 64 "[]"] assms(2) by auto
  then show "dq_inv q'" "batch @ dq_items q' = dq_items q" "length batch \<le> 64" by auto
  have "unat popped = 0 \<longleftrightarrow> dq_items q = []" using *(2) by (auto simp: min_def)
  then show z: "popped = 0 \<longleftrightarrow> dq_items q = []" by (simp add: unsigned_eq_0_iff)
  show "popped > 0 \<longleftrightarrow> batch \<noteq> []" using z *(3) by (auto simp: word_gt_0)
qed

lemma drainer_step_inv:
  assumes "drainer_step d d'" and "drainer_inv d"
  shows "drainer_inv d'"
  using assms
proof (cases rule: drainer_step.cases)
  case (push item b q)
  have "dq_inv q" "dq_items q = (if b then dq_items (dr_queue d) @ [item] else dq_items (dr_queue d))"
    using dq_try_push_ok [of "dr_queue d" item] push assms(2) by (auto simp: drainer_inv_def)
  then show ?thesis using push assms(2) by (auto simp: drainer_inv_def)
next
  case (pop popped batch q)
  then show ?thesis
    using batch64 [OF _ pop(3)] assms(2) by (auto simp: drainer_inv_def)
next
  case (idle popped batch q)
  then show ?thesis
    using batch64 [OF _ idle(3)] assms(2) by (auto simp: drainer_inv_def)
next
  case (final_pop popped batch q)
  then show ?thesis
    using batch64 [OF _ final_pop(3)] assms(2) by (auto simp: drainer_inv_def)
next
  case (final_end popped batch q)
  then show ?thesis
    using batch64 [OF _ final_end(3)] assms(2) by (auto simp: drainer_inv_def)
qed (auto simp: drainer_inv_def)

lemma drainer_reachable_inv:
  "drainer_reachable q0 d \<Longrightarrow> dq_inv q0 \<Longrightarrow> dq_items q0 = [] \<Longrightarrow> drainer_inv d"
  by (induction rule: drainer_reachable.induct) (auto intro: drainer_inv_init drainer_step_inv)

text \<open>C17. The drainer delivers every accepted item exactly once and in order, and leaves nothing behind, however its
  steps interleave with pushes and \<open>stop()\<close>. In every reachable state the accepted items are those already
  delivered, then those in the batch being delivered, then those queued; once the thread has ended, which it does
  only after \<open>stop()\<close>, every item accepted before its end has been delivered, and the queue holds nothing but what
  was pushed after it. \<open>drained_\<close> counts the delivered items, and every batch given to the callback has between 1
  and 64 items.
\<close>

theorem drainer_exactly_once:
  assumes "unat capacity \<le> 2 ^ 31" and "drainer_reachable (dq_new capacity) d"
  shows "dr_accepted d = concat (dr_log d) @ in_flight (dr_pc d) @ dq_items (dr_queue d) \<and>
         (dr_pc d = Finished \<longrightarrow> \<not> dr_running d \<and> dr_accepted d = concat (dr_log d) @ dr_late d \<and>
            dq_items (dr_queue d) = dr_late d) \<and>
         (dr_pc d \<noteq> Finished \<longrightarrow> dr_late d = []) \<and>
         dr_drained d = of_nat (length (concat (dr_log d))) \<and>
         (\<forall>b \<in> set (dr_log d). 0 < length b \<and> length b \<le> 64)"
  using drainer_reachable_inv [OF assms(2) dq_new_inv [OF assms(1)]] by (auto simp: drainer_inv_def)

lemma drainer_demo_run:
  "\<exists>d. drainer_reachable (dq_new 16) d \<and> dr_pc d = Pop \<and> dr_accepted d = [item_default] \<and>
       dr_log d = [] \<and> dr_late d = []"
proof -
  let ?q = "dq_new 16"
  let ?d1 = "(drainer_init ?q)\<lparr>dr_pc := Pop\<rparr>"
  have r1: "drainer_reachable ?q ?d1"
    by (rule drainer_reachable.step [OF drainer_reachable.init]) (rule drainer_step.check_run; simp add: drainer_init_def)
  have inv: "dq_inv ?q" "dq_items ?q = []" by (rule dq_new_inv; simp)+
  have lim: "dq_limit ?q = 12" by (simp add: dq_limit_def dq_new_def next_power_of_2_def Let_def)
  obtain q' where q': "dq_try_push item_default ?q = Some (True, q')"
    using dq_try_push_ok [OF inv(1), of item_default] inv(2) lim by (auto elim!: oksE)
  have "drainer_reachable ?q (?d1\<lparr>dr_queue := q', dr_accepted := [item_default], dr_late := []\<rparr>)"
    using drainer_reachable.step [OF r1 drainer_step.push [of item_default ?d1 True q']] q'
    by (simp add: drainer_init_def)
  then show ?thesis by (intro exI conjI) (assumption, simp_all add: drainer_init_def)
qed

lemma drainer_demo_delivered:
  "\<exists>d. drainer_reachable (dq_new 16) d \<and> dr_pc d = Finished \<and> dr_accepted d = [item_default] \<and> dr_late d = []"
proof -
  note go = drainer_reachable.step
  obtain d where d: "drainer_reachable (dq_new 16) d" "dr_pc d = Pop" "dr_accepted d = [item_default]" "dr_log d = []"
    "dr_late d = []" using drainer_demo_run by blast
  have inv: "drainer_inv d" by (rule drainer_reachable_inv [OF d(1) dq_new_inv]) simp_all
  then have q: "dq_inv (dr_queue d)" "dq_items (dr_queue d) = [item_default]"
    using d(2-) by (simp_all add: drainer_inv_def)
  obtain popped batch q' where pop: "dq_try_pop_batch 64 (dr_queue d) [] = Some (popped, batch, q')"
    using dq_try_pop_batch_ok [OF q(1), of 64 "[]"] by (auto elim!: oksE)
  have q': "dq_inv q'" "dq_items q' = []" "popped > 0"
    using dq_try_pop_batch_ok [OF q(1), of 64 "[]"] pop q(2) batch64 [OF q(1) pop] by (auto simp: word_gt_0)
  obtain popped' batch' q'' where pop': "dq_try_pop_batch 64 q' [] = Some (popped', batch', q'')"
    using dq_try_pop_batch_ok [OF q'(1), of 64 "[]"] by (auto elim!: oksE)
  have "popped' = 0" using batch64(5) [OF q'(1) pop'] q'(2) by simp
  let ?d1 = "d\<lparr>dr_queue := q', dr_pc := Deliver batch\<rparr>"
  let ?d2 = "?d1\<lparr>dr_log := [batch], dr_drained := dr_drained d + of_nat (length batch), dr_pc := Check\<rparr>"
  let ?d3 = "?d2\<lparr>dr_running := False\<rparr>" and ?d4 = "?d2\<lparr>dr_running := False, dr_pc := Final_pop\<rparr>"
  have "drainer_reachable (dq_new 16) ?d1" using go [OF d(1) drainer_step.pop [OF d(2) pop q'(3)]] .
  from go [OF this drainer_step.deliver [of ?d1 batch]] have "drainer_reachable (dq_new 16) ?d2" using d(4) by simp
  from go [OF this drainer_step.stop] have "drainer_reachable (dq_new 16) ?d3" .
  from go [OF this drainer_step.check_stop [of ?d3]] have "drainer_reachable (dq_new 16) ?d4" by simp
  from go [OF this drainer_step.final_end [of ?d4 popped' batch' q'']]
  have "drainer_reachable (dq_new 16) (?d4\<lparr>dr_queue := q'', dr_pc := Finished\<rparr>)" using pop' \<open>popped' = 0\<close> by simp
  then show ?thesis using d(3,5) by (intro exI conjI) (assumption, simp_all)
qed

theorem drainer_exactly_once_witness:
  "\<exists>d. drainer_reachable (dq_new 16) d \<and> dr_pc d = Finished \<and> dr_accepted d = [item_default] \<and>
       concat (dr_log d) = [item_default] \<and> dq_items (dr_queue d) = []"
proof -
  obtain d where d: "drainer_reachable (dq_new 16) d" "dr_pc d = Finished" "dr_accepted d = [item_default]" "dr_late d = []"
    using drainer_demo_delivered by blast
  show ?thesis using d drainer_exactly_once [OF _ d(1)] by auto
qed

text \<open>Nothing is left behind: when the thread ends (which it does only after \<open>stop()\<close>), everything
  accepted up to then has been delivered and the queue is empty.
\<close>

theorem drainer_finish_empties:
  assumes "unat capacity \<le> 2 ^ 31" and "drainer_reachable (dq_new capacity) d"
    and "drainer_step d d'" and "dr_pc d \<noteq> Finished" and "dr_pc d' = Finished"
  shows "concat (dr_log d') = dr_accepted d' \<and> dq_items (dr_queue d') = [] \<and> \<not> dr_running d'"
proof -
  have inv: "drainer_inv d" using drainer_reachable_inv [OF assms(2) dq_new_inv [OF assms(1)]] .
  have inv': "drainer_inv d'" using drainer_step_inv [OF assms(3) inv] .
  have "dq_items (dr_queue d') = []"
    using assms(3)
  proof (cases rule: drainer_step.cases)
    case (final_end popped batch q)
    have q: "dq_inv (dr_queue d)" using inv by (simp add: drainer_inv_def)
    then have "dq_items (dr_queue d) = []" using batch64(5) [OF q final_end(3)] final_end(4) by simp
    then show ?thesis using batch64(2) [OF q final_end(3)] final_end(1) by simp
  qed (use assms(4,5) in auto)
  then show ?thesis using inv' assms(5) by (simp add: drainer_inv_def)
qed

lemma drainer_demo_finish:
  defines "d \<equiv> (drainer_init (dq_new 16))\<lparr>dr_running := False, dr_pc := Final_pop\<rparr>"
  shows "drainer_reachable (dq_new 16) d" and "drainer_step d (d\<lparr>dr_pc := Finished\<rparr>)"
proof -
  have r1: "drainer_reachable (dq_new 16) ((drainer_init (dq_new 16))\<lparr>dr_running := False\<rparr>)"
    by (rule drainer_reachable.step [OF drainer_reachable.init drainer_step.stop])
  have "drainer_step ((drainer_init (dq_new 16))\<lparr>dr_running := False\<rparr>) d"
    using drainer_step.check_stop [of "(drainer_init (dq_new 16))\<lparr>dr_running := False\<rparr>"]
    by (simp add: d_def drainer_init_def)
  then show "drainer_reachable (dq_new 16) d" by (rule drainer_reachable.step [OF r1])
  have "dq_try_pop_batch 64 (dr_queue d) [] = Some (0, [], dr_queue d)"
    by (simp add: d_def drainer_init_def dq_try_pop_batch_def dq_new_def Let_def)
  then show "drainer_step d (d\<lparr>dr_pc := Finished\<rparr>)"
    using drainer_step.final_end [of d 0 "[]" "dr_queue d"] by (simp add: d_def)
qed

theorem drainer_finish_empties_witness:
  "\<exists>d d'. drainer_reachable (dq_new 16) d \<and> drainer_step d d' \<and> dr_pc d' = Finished \<and>
          concat (dr_log d') = dr_accepted d' \<and> dq_items (dr_queue d') = []"
proof -
  let ?d = "(drainer_init (dq_new 16))\<lparr>dr_running := False, dr_pc := Final_pop\<rparr>"
  have "concat (dr_log (?d\<lparr>dr_pc := Finished\<rparr>)) = dr_accepted (?d\<lparr>dr_pc := Finished\<rparr>) \<and>
        dq_items (dr_queue (?d\<lparr>dr_pc := Finished\<rparr>)) = [] \<and> \<not> dr_running (?d\<lparr>dr_pc := Finished\<rparr>)"
    by (rule drainer_finish_empties [OF _ drainer_demo_finish]) simp_all
  then show ?thesis using drainer_demo_finish by (intro exI [of _ ?d] exI [of _ "?d\<lparr>dr_pc := Finished\<rparr>"]) simp
qed

text \<open>The final drain terminates and is complete: for any callback that returns, the loop ends with an
  empty queue, having called the callback on consecutive chunks of at most 64 items, in order, and
  having added their number to \<open>drained_\<close>.
\<close>

theorem final_drain_terminates:
  assumes "dq_inv q" and "ofold insert_fn (chunks64 (dq_items q)) st = Some st'"
  shows "\<exists>q'. final_drain insert_fn q drained st = Some (q', drained + of_nat (length (dq_items q)), st') \<and>
           dq_items q' = []"
  using final_drain_ok [OF assms, of drained] by (auto elim!: oksE)

theorem final_drain_terminates_witness:
  "\<exists>q'. final_drain (\<lambda>b st. Some (st @ b)) (dq_new 16) 0 [] = Some (q', 0, []) \<and> dq_items q' = []"
  using final_drain_terminates [OF dq_new_inv(1) [of 16], of "\<lambda>b st. Some (st @ b)" "[]" "[]" 0] dq_new_inv(2) [of 16]
  by simp

end
