(* ===== verification/Cache_Stripe.thy ===== *)
theory Cache_Stripe
  imports Lru_List Count_Min_Sketch Demotion_Queue
begin

text \<open>
  \<open>CacheStripe\<close> (\<open>include/cache_stripe.h\<close>, \<open>src/cache_stripe.cpp\<close>): one shard of the L1 cache, with a
  window, a probation and a protected LRU list over the shared slab, a key index, a frequency sketch
  and counters. Every public operation runs under the stripe's mutex and is one atomic step here.
  This theory holds the code: state, constructor and operations, in the uninstrumented form
  (\<open>bd == nullptr\<close>); \<open>Cache_Stripe_Timed\<close> has the instrumented one. Its correctness is in
  \<open>Cache_Stripe_Inv\<close> and \<open>Cache_Stripe_Spec\<close>.
\<close>

datatype lru_id = Win | Prob | Prot

primrec id_segment :: "lru_id \<Rightarrow> segment" where
  "id_segment Win = Window"
| "id_segment Prob = Probation"
| "id_segment Prot = Protected"

text \<open>\<open>st_demotion_queue\<close> says whether the pointer \<open>demotion_queue_\<close> is set.\<close>

record stripe =
  st_total_capacity :: u32
  st_window_capacity :: u32
  st_main_capacity :: u32
  st_probation_capacity :: u32
  st_protected_capacity :: u32
  st_index_map :: "string \<rightharpoonup> u32"
  st_window :: lru
  st_probation :: lru
  st_protected :: lru
  st_cms :: cms
  st_decay_interval :: u64
  st_ops_since_decay :: u64
  st_hits :: u64
  st_misses :: u64
  st_evictions :: u64
  st_admissions :: u64
  st_rejections :: u64
  st_demotion_queue :: bool

text \<open>A stripe together with the objects its members \<open>slab_\<close> and \<open>demotion_queue_\<close> refer to.\<close>

record shard =
  sh_slab :: slab
  sh_queue :: dqueue
  sh_stripe :: stripe

section \<open>Construction\<close>

definition stripe_new :: "u32 \<Rightarrow> float32 \<Rightarrow> float32 \<Rightarrow> stripe option" where
  "stripe_new capacity window_pct probation_pct = do {
     cms \<leftarrow> cms_new 4 512;
     guard (3 \<le> capacity);
     w \<leftarrow> f32_to_u32 (u32_times_f32 capacity window_pct);
     let window_capacity = max 3 w;
     let window_capacity = (if window_capacity \<ge> capacity - 2 then capacity div 4 else window_capacity);
     let main_capacity = capacity - window_capacity;
     p \<leftarrow> f32_to_u32 (u32_times_f32 main_capacity probation_pct);
     let probation_capacity = max 1 p;
     let protected_capacity = main_capacity - probation_capacity;
     let decay_interval = ucast capacity * 5;
     let decay_interval = (if decay_interval = 0 then 1 else decay_interval);
     Some \<lparr>st_total_capacity = capacity, st_window_capacity = window_capacity,
           st_main_capacity = main_capacity, st_probation_capacity = probation_capacity,
           st_protected_capacity = protected_capacity, st_index_map = Map.empty,
           st_window = lru_new, st_probation = lru_new, st_protected = lru_new, st_cms = cms,
           st_decay_interval = decay_interval, st_ops_since_decay = 0, st_hits = 0, st_misses = 0,
           st_evictions = 0, st_admissions = 0, st_rejections = 0, st_demotion_queue = False\<rparr>
   }"

definition stripe_set_demotion_queue :: "bool \<Rightarrow> stripe \<Rightarrow> stripe" where
  "stripe_set_demotion_queue present st = st\<lparr>st_demotion_queue := present\<rparr>"

section \<open>Access to the parts of a shard\<close>

abbreviation upd_stripe :: "(stripe \<Rightarrow> stripe) \<Rightarrow> shard \<Rightarrow> shard" where
  "upd_stripe f v \<equiv> v\<lparr>sh_stripe := f (sh_stripe v)\<rparr>"

primrec get_lru :: "lru_id \<Rightarrow> stripe \<Rightarrow> lru" where
  "get_lru Win st = st_window st"
| "get_lru Prob st = st_probation st"
| "get_lru Prot st = st_protected st"

primrec set_lru :: "lru_id \<Rightarrow> lru \<Rightarrow> stripe \<Rightarrow> stripe" where
  "set_lru Win l st = st\<lparr>st_window := l\<rparr>"
| "set_lru Prob l st = st\<lparr>st_probation := l\<rparr>"
| "set_lru Prot l st = st\<lparr>st_protected := l\<rparr>"

text \<open>A call of a list operation on \<open>window_\<close>, \<open>probation_\<close> or \<open>protected_\<close>.\<close>

definition on_lru :: "lru_id \<Rightarrow> (slab \<times> lru \<Rightarrow> (slab \<times> lru) option) \<Rightarrow> shard \<Rightarrow> shard option" where
  "on_lru g f v = do {
     (s, l) \<leftarrow> f (sh_slab v, get_lru g (sh_stripe v));
     Some (upd_stripe (set_lru g l) (v\<lparr>sh_slab := s\<rparr>))
   }"

definition pop_lru :: "lru_id \<Rightarrow> shard \<Rightarrow> (u32 \<times> shard) option" where
  "pop_lru g v = do {
     (i, s, l) \<leftarrow> lru_pop_back (sh_slab v, get_lru g (sh_stripe v));
     Some (i, upd_stripe (set_lru g l) (v\<lparr>sh_slab := s\<rparr>))
   }"

definition lru_size_of :: "lru_id \<Rightarrow> shard \<Rightarrow> u32" where
  "lru_size_of g v = l_size (get_lru g (sh_stripe v))"

definition shard_node :: "shard \<Rightarrow> u32 \<Rightarrow> cache_node option" where
  "shard_node v i = slab_node (sh_slab v) i"

definition set_segment :: "u32 \<Rightarrow> segment \<Rightarrow> shard \<Rightarrow> shard option" where
  "set_segment i g v = do {
     s \<leftarrow> slab_modify i (\<lambda>n. n\<lparr>n_segment := segment_code g\<rparr>) (sh_slab v);
     Some (v\<lparr>sh_slab := s\<rparr>)
   }"

definition index_erase :: "string \<Rightarrow> shard \<Rightarrow> shard" where
  "index_erase key = upd_stripe (\<lambda>st. st\<lparr>st_index_map := (st_index_map st)(key := None)\<rparr>)"

definition shard_deallocate :: "u32 \<Rightarrow> shard \<Rightarrow> shard option" where
  "shard_deallocate i v = do { s \<leftarrow> slab_deallocate i (sh_slab v); Some (v\<lparr>sh_slab := s\<rparr>) }"

section \<open>Internal operations\<close>

definition maybe_decay_cms :: "shard \<Rightarrow> shard" where
  "maybe_decay_cms = upd_stripe (\<lambda>st.
     let ops = st_ops_since_decay st + 1
     in if ops \<ge> st_decay_interval st
        then st\<lparr>st_cms := cms_decay (st_cms st), st_ops_since_decay := 0\<rparr>
        else st\<lparr>st_ops_since_decay := ops\<rparr>)"

definition count_access :: "hash32 \<Rightarrow> string \<Rightarrow> shard \<Rightarrow> shard option" where
  "count_access h32 key v = do {
     c \<leftarrow> cms_increment h32 key (st_cms (sh_stripe v));
     Some (upd_stripe (\<lambda>st. st\<lparr>st_cms := c\<rparr>) v)
   }"

definition promote_to_protected :: "u32 \<Rightarrow> shard \<Rightarrow> shard option" where
  "promote_to_protected idx v = do {
     _ \<leftarrow> shard_node v idx;
     v \<leftarrow> on_lru Prob (lru_remove idx) v;
     v \<leftarrow> (if lru_size_of Prot v \<ge> st_protected_capacity (sh_stripe v)
          then do {
            (demoted_idx, v) \<leftarrow> pop_lru Prot v;
            if demoted_idx \<noteq> kInvalidIndex
            then do { v \<leftarrow> set_segment demoted_idx Probation v; on_lru Prob (lru_push_front demoted_idx) v }
            else Some v
          }
          else Some v);
     v \<leftarrow> set_segment idx Protected v;
     on_lru Prot (lru_push_front idx) v
   }"

text \<open>
  The moved-from strings of the victim node are not modelled as a separate state: \<open>deallocate\<close> resets
  the node before anything reads it.
\<close>

definition demote_victim :: "hash32 \<Rightarrow> u32 \<Rightarrow> shard \<Rightarrow> shard option" where
  "demote_victim h32 victim_idx v = do {
     victim \<leftarrow> shard_node v victim_idx;
     let v = index_erase (n_key victim) v;
     v \<leftarrow> (if st_demotion_queue (sh_stripe v)
          then do {
            freq \<leftarrow> cms_estimate h32 (st_cms (sh_stripe v)) (n_key victim);
            v \<leftarrow> shard_deallocate victim_idx v;
            (_, q) \<leftarrow> dq_try_push \<lparr>di_key = n_key victim, di_value = n_value victim, di_frequency = freq\<rparr> (sh_queue v);
            Some (v\<lparr>sh_queue := q\<rparr>)
          }
          else shard_deallocate victim_idx v);
     Some (upd_stripe (\<lambda>st. st\<lparr>st_evictions := st_evictions st + 1\<rparr>) v)
   }"

definition admit_candidate :: "u32 \<Rightarrow> shard \<Rightarrow> shard option" where
  "admit_candidate candidate_idx v = do {
     v \<leftarrow> set_segment candidate_idx Probation v;
     v \<leftarrow> on_lru Prob (lru_push_front candidate_idx) v;
     Some (upd_stripe (\<lambda>st. st\<lparr>st_admissions := st_admissions st + 1\<rparr>) v)
   }"

definition reject_candidate :: "u32 \<Rightarrow> cache_node \<Rightarrow> shard \<Rightarrow> shard option" where
  "reject_candidate candidate_idx candidate v = do {
     v \<leftarrow> shard_deallocate candidate_idx (index_erase (n_key candidate) v);
     Some (upd_stripe (\<lambda>st. st\<lparr>st_rejections := st_rejections st + 1\<rparr>) v)
   }"

definition try_admit_from_window :: "hash32 \<Rightarrow> shard \<Rightarrow> shard option" where
  "try_admit_from_window h32 v = do {
     (candidate_idx, v) \<leftarrow> pop_lru Win v;
     if candidate_idx = kInvalidIndex then Some v
     else do {
       candidate \<leftarrow> shard_node v candidate_idx;
       let main_size = lru_size_of Prob v + lru_size_of Prot v;
       if main_size < st_main_capacity (sh_stripe v) then admit_candidate candidate_idx v
       else if lru_empty (st_probation (sh_stripe v)) then reject_candidate candidate_idx candidate v
       else do {
         let victim_idx = lru_peek_back (st_probation (sh_stripe v));
         victim \<leftarrow> shard_node v victim_idx;
         candidate_freq \<leftarrow> cms_estimate h32 (st_cms (sh_stripe v)) (n_key candidate);
         victim_freq \<leftarrow> cms_estimate h32 (st_cms (sh_stripe v)) (n_key victim);
         if candidate_freq > victim_freq
         then do {
           (_, v) \<leftarrow> pop_lru Prob v;
           v \<leftarrow> demote_victim h32 victim_idx v;
           admit_candidate candidate_idx v
         }
         else reject_candidate candidate_idx candidate v
       }
     }
   }"

partial_function (option) admit_loop :: "hash32 \<Rightarrow> shard \<Rightarrow> shard option" where
  "admit_loop h32 v =
     (if lru_size_of Win v > st_window_capacity (sh_stripe v)
      then try_admit_from_window h32 v \<bind> admit_loop h32
      else Some v)"

definition insert_into_window :: "hash32 \<Rightarrow> u32 \<Rightarrow> shard \<Rightarrow> shard option" where
  "insert_into_window h32 idx v = do {
     v \<leftarrow> on_lru Win (lru_push_front idx) v;
     admit_loop h32 v
   }"

text \<open>The \<open>switch\<close> over the node's segment that \<open>get\<close> and \<open>put\<close> share.\<close>

definition touch :: "u32 \<Rightarrow> shard \<Rightarrow> shard option" where
  "touch idx v = do {
     node \<leftarrow> shard_node v idx;
     case segment_of (n_segment node) of
       Some Window \<Rightarrow> on_lru Win (lru_move_to_front idx) v
     | Some Probation \<Rightarrow> promote_to_protected idx v
     | Some Protected \<Rightarrow> on_lru Prot (lru_move_to_front idx) v
     | _ \<Rightarrow> Some v
   }"

section \<open>Public operations\<close>

definition stripe_get :: "hash32 \<Rightarrow> string \<Rightarrow> shard \<Rightarrow> (string option \<times> shard) option" where
  "stripe_get h32 key v =
     (case st_index_map (sh_stripe v) key of
        None \<Rightarrow> Some (None, upd_stripe (\<lambda>st. st\<lparr>st_misses := st_misses st + 1\<rparr>) v)
      | Some idx \<Rightarrow> do {
          v \<leftarrow> count_access h32 key v;
          v \<leftarrow> touch idx v;
          let v = upd_stripe (\<lambda>st. st\<lparr>st_hits := st_hits st + 1\<rparr>) v;
          node \<leftarrow> shard_node v idx;
          Some (Some (n_value node), v)
        })"

text \<open>The two branches of \<open>put\<close>: a key that is in the cache, and a new key.\<close>

definition put_existing :: "u32 \<Rightarrow> string \<Rightarrow> shard \<Rightarrow> (bool \<times> shard) option" where
  "put_existing idx val v = do {
     s \<leftarrow> slab_modify idx (\<lambda>n. n\<lparr>n_value := val\<rparr>) (sh_slab v);
     v \<leftarrow> touch idx (v\<lparr>sh_slab := s\<rparr>);
     Some (False, v)
   }"

definition fill_node :: "string \<Rightarrow> string \<Rightarrow> cache_node \<Rightarrow> cache_node" where
  "fill_node key val n = n\<lparr>n_key := key, n_value := val, n_segment := segment_code Window\<rparr>"

definition put_new :: "hash32 \<Rightarrow> string \<Rightarrow> string \<Rightarrow> shard \<Rightarrow> (bool \<times> shard) option" where
  "put_new h32 key val v = do {
     (idx, s) \<leftarrow> slab_allocate (sh_slab v);
     if idx = kInvalidIndex then Some (False, v\<lparr>sh_slab := s\<rparr>)
     else do {
       s \<leftarrow> slab_modify idx (fill_node key val) s;
       let v = upd_stripe (\<lambda>st. st\<lparr>st_index_map := (st_index_map st)(key \<mapsto> idx)\<rparr>) (v\<lparr>sh_slab := s\<rparr>);
       v \<leftarrow> insert_into_window h32 idx v;
       Some (True, v)
     }
   }"

definition stripe_put :: "hash32 \<Rightarrow> string \<Rightarrow> string \<Rightarrow> shard \<Rightarrow> (bool \<times> shard) option" where
  "stripe_put h32 key val v = do {
     v \<leftarrow> count_access h32 key v;
     let v = maybe_decay_cms v;
     case st_index_map (sh_stripe v) key of
       Some idx \<Rightarrow> put_existing idx val v
     | None \<Rightarrow> put_new h32 key val v
   }"

definition stripe_remove :: "string \<Rightarrow> shard \<Rightarrow> (bool \<times> shard) option" where
  "stripe_remove key v =
     (case st_index_map (sh_stripe v) key of
        None \<Rightarrow> Some (False, v)
      | Some idx \<Rightarrow> do {
          node \<leftarrow> shard_node v idx;
          v \<leftarrow> (case segment_of (n_segment node) of
                 Some Window \<Rightarrow> on_lru Win (lru_remove idx) v
               | Some Probation \<Rightarrow> on_lru Prob (lru_remove idx) v
               | Some Protected \<Rightarrow> on_lru Prot (lru_remove idx) v
               | _ \<Rightarrow> Some v);
          v \<leftarrow> shard_deallocate idx (index_erase key v);
          Some (True, v)
        })"

definition stripe_size :: "stripe \<Rightarrow> u32" where
  "stripe_size st = l_size (st_window st) + l_size (st_probation st) + l_size (st_protected st)"

end
