(* ===== verification/Cache_Stripe_Inv.thy ===== *)
theory Cache_Stripe_Inv
  imports Cache_Stripe
begin

text \<open>
  The representation invariant of a stripe over the shared slab, and what the small steps of the code
  do to it. \<open>shard_rep v fs G os\<close> reads: the free list of the slab is \<open>fs\<close>, the list \<open>g\<close> of the stripe
  holds the nodes \<open>G g\<close> (front first), the nodes \<open>os\<close> belong to the stripe but are on no list at the
  moment, all of these are disjoint, every node on a list carries the list's tag, and the key index maps
  exactly the keys of the stripe's nodes to them.
\<close>

section \<open>The invariant\<close>

definition owned :: "(lru_id \<Rightarrow> u32 list) \<Rightarrow> u32 set" where
  "owned G = (\<Union>g. set (G g))"

definition index_ok :: "(string \<rightharpoonup> u32) \<Rightarrow> (u32 \<Rightarrow> string) \<Rightarrow> u32 set \<Rightarrow> bool" where
  "index_ok m key A \<longleftrightarrow> (\<forall>k i. m k = Some i \<longleftrightarrow> i \<in> A \<and> key i = k)"

abbreviation nkey :: "shard \<Rightarrow> u32 \<Rightarrow> string" where
  "nkey v i \<equiv> n_key (node_at (sh_slab v) i)"

abbreviation nval :: "shard \<Rightarrow> u32 \<Rightarrow> string" where
  "nval v i \<equiv> n_value (node_at (sh_slab v) i)"

definition shard_rep :: "shard \<Rightarrow> u32 list \<Rightarrow> (lru_id \<Rightarrow> u32 list) \<Rightarrow> u32 list \<Rightarrow> bool" where
  "shard_rep v fs G os \<longleftrightarrow>
     slab_rep (sh_slab v) fs \<and>
     (\<forall>g. lru_rep (sh_slab v) (get_lru g (sh_stripe v)) (G g)) \<and>
     distinct os \<and> (\<forall>i \<in> set os. i < sl_capacity (sh_slab v)) \<and> set fs \<inter> set os = {} \<and>
     (\<forall>g. set (G g) \<inter> (set fs \<union> set os) = {}) \<and> (\<forall>g h. g \<noteq> h \<longrightarrow> set (G g) \<inter> set (G h) = {}) \<and>
     (\<forall>g. \<forall>i \<in> set (G g). n_segment (node_at (sh_slab v) i) = segment_code (id_segment g)) \<and>
     index_ok (st_index_map (sh_stripe v)) (nkey v) (owned G \<union> set os)"

text \<open>The stripe without its list headers and key index: what the list steps leave alone.\<close>

definition aux :: "shard \<Rightarrow> stripe" where
  "aux v = (sh_stripe v)\<lparr>st_window := lru_new, st_probation := lru_new, st_protected := lru_new,
             st_index_map := Map.empty\<rparr>"

text \<open>\<open>changes v v' T D\<close>: nodes outside \<open>T\<close> are untouched, keys and values outside \<open>D\<close> are kept.\<close>

definition changes :: "shard \<Rightarrow> shard \<Rightarrow> u32 set \<Rightarrow> u32 set \<Rightarrow> bool" where
  "changes v v' T D \<longleftrightarrow> sl_capacity (sh_slab v') = sl_capacity (sh_slab v) \<and>
     (\<forall>i. i \<notin> T \<longrightarrow> node_at (sh_slab v') i = node_at (sh_slab v) i) \<and>
     (\<forall>i. i \<notin> D \<longrightarrow> nkey v' i = nkey v i \<and> nval v' i = nval v i)"

definition foot :: "u32 list \<Rightarrow> (lru_id \<Rightarrow> u32 list) \<Rightarrow> u32 list \<Rightarrow> u32 set" where
  "foot fs G os = set fs \<union> owned G \<union> set os"

lemma owned_iff [simp]: "i \<in> owned G \<longleftrightarrow> (\<exists>g. i \<in> set (G g))"
  by (simp add: owned_def)

lemma ex_lru_id: "(\<exists>g. P g) \<longleftrightarrow> P Win \<or> P Prob \<or> P Prot"
  by (metis lru_id.exhaust)

lemma all_lru_id: "(\<forall>g. P g) \<longleftrightarrow> P Win \<and> P Prob \<and> P Prot"
  by (metis lru_id.exhaust)

lemma get_set_lru [simp]: "get_lru g (set_lru h l st) = (if g = h then l else get_lru g st)"
  by (cases g; cases h) simp_all

lemma set_lru_fields [simp]:
  "st_index_map (set_lru g l st) = st_index_map st"
  "st_demotion_queue (set_lru g l st) = st_demotion_queue st"
  by (cases g; simp)+

lemma aux_set_lru [simp]:
  "aux (upd_stripe (set_lru g l) v) = aux v"
  "aux (v\<lparr>sh_slab := s, sh_stripe := set_lru g l (sh_stripe v)\<rparr>) = aux v"
  by (cases g; simp add: aux_def)+

lemma aux_slab [simp]: "aux (v\<lparr>sh_slab := s\<rparr>) = aux v" "aux (v\<lparr>sh_queue := q\<rparr>) = aux v"
  by (simp_all add: aux_def)

lemma changes_refl [simp]: "changes v v T D"
  by (simp add: changes_def)

lemma changes_trans:
  "changes v v' T D \<Longrightarrow> changes v' v'' T D' \<Longrightarrow> D \<subseteq> E \<Longrightarrow> D' \<subseteq> E \<Longrightarrow> changes v v'' T E"
  unfolding changes_def by (metis subsetD)

lemma owned_split: "owned G = set (G g) \<union> owned (G(g := []))"
  by (auto simp: owned_def split: if_splits)

lemma owned_upd: "owned (G(g := xs)) = set xs \<union> owned (G(g := []))"
  by (auto simp: owned_def split: if_splits)

lemma foot_upd:
  assumes "set xs \<union> set os' = set (G g) \<union> set os"
  shows "owned (G(g := xs)) \<union> set os' = owned G \<union> set os" and "foot fs (G(g := xs)) os' = foot fs G os"
proof -
  show 1: "owned (G(g := xs)) \<union> set os' = owned G \<union> set os"
    unfolding owned_upd [of G g xs] owned_split [of G g] using assms by blast
  show "foot fs (G(g := xs)) os' = foot fs G os"
    using 1 by (simp add: foot_def Un_assoc)
qed

lemma shard_rep_wf: "shard_rep v fs G os \<Longrightarrow> slab_wf (sh_slab v)"
  by (auto simp: shard_rep_def dest: slab_rep_wf)

lemma shard_rep_bound: "shard_rep v fs G os \<Longrightarrow> i \<in> foot fs G os \<Longrightarrow> i < sl_capacity (sh_slab v)"
  by (auto simp: shard_rep_def foot_def slab_rep_def lru_rep_def)

lemma shard_rep_tag:
  "shard_rep v fs G os \<Longrightarrow> i \<in> set (G g) \<Longrightarrow> n_segment (node_at (sh_slab v) i) = segment_code (id_segment g)"
  by (auto simp: shard_rep_def)

lemma shard_rep_index:
  "shard_rep v fs G os \<Longrightarrow> st_index_map (sh_stripe v) k = Some i \<longleftrightarrow> i \<in> owned G \<union> set os \<and> nkey v i = k"
  by (simp add: shard_rep_def index_ok_def)

lemma shard_rep_node:
  "shard_rep v fs G os \<Longrightarrow> i \<in> foot fs G os \<Longrightarrow> shard_node v i = Some (node_at (sh_slab v) i)"
  using shard_rep_bound [of v fs G os i] shard_rep_wf [of v fs G os] by (simp add: shard_node_def slab_node_ok)

section \<open>List steps\<close>

text \<open>A step that only relinks nodes of the list \<open>g\<close> and of \<open>os\<close>, described by the new content of \<open>g\<close>.\<close>

lemma relink:
  assumes rep: "shard_rep v fs G os"
    and links: "links_only (sh_slab v) s A" and A: "A \<subseteq> set (G g) \<union> set os"
    and new: "lru_rep s l xs" and os': "distinct os'" "set xs \<inter> set os' = {}"
    and keep: "set xs \<union> set os' = set (G g) \<union> set os"
    and tag: "\<forall>i \<in> set xs. n_segment (node_at (sh_slab v) i) = segment_code (id_segment g)"
  defines "v' \<equiv> upd_stripe (set_lru g l) (v\<lparr>sh_slab := s\<rparr>)"
  shows "shard_rep v' fs (G(g := xs)) os'" and "changes v v' (foot fs G os) {}"
proof -
  have sl: "slab_rep s fs" using rep links_only_slab_rep [OF links] by (simp add: shard_rep_def)
  have cap: "sl_capacity s = sl_capacity (sh_slab v)"
    and dat: "\<And>i. n_key (node_at s i) = nkey v i \<and> n_value (node_at s i) = nval v i \<and>
                  n_segment (node_at s i) = n_segment (node_at (sh_slab v) i)"
    and out: "\<And>i. i \<notin> A \<Longrightarrow> node_at s i = node_at (sh_slab v) i"
    using links by (auto simp: links_only_def)
  have other: "lru_rep s (get_lru h (sh_stripe v)) (G h)" if "h \<noteq> g" for h
  proof -
    have "A \<inter> set (G h) = {}" using A that rep by (fastforce simp: shard_rep_def)
    then show ?thesis using rep links_only_lru_rep [OF links] by (simp add: shard_rep_def)
  qed
  have dj: "set (G g) \<inter> (set fs \<union> set os) = {}" "set fs \<inter> set os = {}"
      "\<And>h. set (G h) \<inter> (set fs \<union> set os) = {}" "\<And>h. h \<noteq> g \<Longrightarrow> set (G h) \<inter> set (G g) = {}"
      "\<And>h h'. h \<noteq> h' \<Longrightarrow> set (G h) \<inter> set (G h') = {}"
    using rep by (auto simp: shard_rep_def)
  have sub: "set xs \<subseteq> set (G g) \<union> set os" "set os' \<subseteq> set (G g) \<union> set os" using keep by auto
  have 1: "set fs \<inter> set os' = {}" using dj(1,2) sub by blast
  have 2: "set ((G(g := xs)) h) \<inter> (set fs \<union> set os') = {}" for h
  proof (cases "h = g")
    case True
    then show ?thesis using dj(1,2) sub os' by auto
  next
    case False
    then show ?thesis using dj(3) [of h] dj(4) [OF False] sub by fastforce
  qed
  have 3: "set ((G(g := xs)) h) \<inter> set ((G(g := xs)) h') = {}" if "h \<noteq> h'" for h h'
    using that dj(3) [of h] dj(3) [of h'] dj(4) [of h] dj(4) [of h'] dj(5) [OF that] sub by auto
  have 4: "i < sl_capacity s" if "i \<in> set os'" for i
    using that sub(2) shard_rep_bound [OF rep, of i] by (auto simp: foot_def cap)
  have 5: "lru_rep s (get_lru h (set_lru g l (sh_stripe v))) ((G(g := xs)) h)" for h
    using new other by simp
  have 6: "n_segment (node_at s i) = segment_code (id_segment h)" if "i \<in> set ((G(g := xs)) h)" for h i
    using that tag shard_rep_tag [OF rep] by (simp add: dat split: if_splits)
  have 7: "index_ok (st_index_map (sh_stripe v)) (\<lambda>i. n_key (node_at s i)) (owned (G(g := xs)) \<union> set os')"
    unfolding foot_upd(1) [of xs os' G g os, OF keep] using rep dat by (simp add: shard_rep_def)
  show "shard_rep v' fs (G(g := xs)) os'"
    unfolding shard_rep_def v'_def using sl os'(1) 1 2 3 4 5 6 7 by simp
  show "changes v v' (foot fs G os) {}"
    using out A dat cap by (auto simp: changes_def foot_def v'_def)
qed

text \<open>One step of the code that keeps every node the stripe can reach (the free nodes, its lists, its
  loose nodes), the counters and the queue.\<close>

definition moves :: "shard \<Rightarrow> u32 list \<Rightarrow> (lru_id \<Rightarrow> u32 list) \<Rightarrow> u32 list \<Rightarrow>
    shard \<Rightarrow> u32 list \<Rightarrow> (lru_id \<Rightarrow> u32 list) \<Rightarrow> u32 list \<Rightarrow> u32 set \<Rightarrow> bool" where
  "moves v fs G os v' fs' G' os' D \<longleftrightarrow>
     shard_rep v' fs' G' os' \<and> foot fs' G' os' = foot fs G os \<and> changes v v' (foot fs G os) D \<and>
     aux v' = aux v \<and> sh_queue v' = sh_queue v"

lemma moves_rep: "moves v fs G os v' fs' G' os' D \<Longrightarrow> shard_rep v' fs' G' os'"
  by (simp add: moves_def)

lemma moves_trans:
  "moves v fs G os v' fs' G' os' D \<Longrightarrow> moves v' fs' G' os' v'' fs'' G'' os'' D' \<Longrightarrow>
   moves v fs G os v'' fs'' G'' os'' (D \<union> D')"
  by (auto simp: moves_def elim: changes_trans)

lemma moves_trans0:
  "moves v fs G os v' fs' G' os' {} \<Longrightarrow> moves v' fs' G' os' v'' fs'' G'' os'' D \<Longrightarrow>
   moves v fs G os v'' fs'' G'' os'' D"
  using moves_trans [of v fs G os v' fs' G' os' "{}"] by simp

lemma relink_moves:
  assumes "shard_rep v fs G os" and "links_only (sh_slab v) s A" and "A \<subseteq> set (G g) \<union> set os"
    and "lru_rep s l xs" and "distinct os'" and "set xs \<inter> set os' = {}"
    and "set xs \<union> set os' = set (G g) \<union> set os"
    and "\<forall>i \<in> set xs. n_segment (node_at (sh_slab v) i) = segment_code (id_segment g)"
  shows "moves v fs G os (upd_stripe (set_lru g l) (v\<lparr>sh_slab := s\<rparr>)) fs (G(g := xs)) os' {}"
  using relink [OF assms] foot_upd(2) [of xs os' G g os fs, OF assms(7)] by (simp add: moves_def)

lemma shard_rep_list:
  assumes "shard_rep v fs G os"
  shows "lru_rep (sh_slab v) (get_lru g (sh_stripe v)) (G g)" and "distinct (G g)"
    and "set (G g) \<inter> set os = {}" and "distinct os"
  using assms by (auto simp: shard_rep_def lru_rep_def)

lemma st_remove:
  assumes rep: "shard_rep v fs G os" and g: "G g = as @ i # bs"
  shows "oks (on_lru g (lru_remove i) v) (\<lambda>v'. moves v fs G os v' fs (G(g := as @ bs)) (i # os) {})"
proof -
  have "moves v fs G os (upd_stripe (set_lru g l) (v\<lparr>sh_slab := s\<rparr>)) fs (G(g := as @ bs)) (i # os) {}"
    if "lru_rep s l (as @ bs)" "links_only (sh_slab v) s (set (as @ i # bs))" for s l
    by (rule relink_moves [OF rep that(2) _ that(1)])
      (use g shard_rep_list(1-3) [OF rep, of g] shard_rep_list(4) [OF rep] shard_rep_tag [OF rep, of _ g] in auto)
  then show ?thesis
    using shard_rep_list(1) [OF rep, of g] g
    by (auto simp: on_lru_def intro!: oks_mono [OF lru_remove_ok [OF shard_rep_wf [OF rep], of _ as i bs]])
qed

lemma st_push:
  assumes rep: "shard_rep v fs G (i # os)"
    and tag: "n_segment (node_at (sh_slab v) i) = segment_code (id_segment g)"
  shows "oks (on_lru g (lru_push_front i) v) (\<lambda>v'. moves v fs G (i # os) v' fs (G(g := i # G g)) os {})"
proof -
  note l = shard_rep_list(1-3) [OF rep, of g] shard_rep_list(4) [OF rep]
  have "moves v fs G (i # os) (upd_stripe (set_lru g l) (v\<lparr>sh_slab := s\<rparr>)) fs (G(g := i # G g)) os {}"
    if "lru_rep s l (i # G g)" "links_only (sh_slab v) s (insert i (set (G g)))" for s l
    by (rule relink_moves [OF rep that(2) _ that(1)])
      (use l tag shard_rep_tag [OF rep, of _ g] in auto)
  then show ?thesis
    using lru_push_front_ok [OF shard_rep_wf [OF rep] l(1), of i] l(3) shard_rep_bound [OF rep, of i]
    by (auto simp: on_lru_def foot_def elim!: oks_mono)
qed

lemma st_move:
  assumes rep: "shard_rep v fs G os" and g: "G g = as @ i # bs"
  shows "oks (on_lru g (lru_move_to_front i) v) (\<lambda>v'. moves v fs G os v' fs (G(g := i # as @ bs)) os {})"
proof -
  have "moves v fs G os (upd_stripe (set_lru g l) (v\<lparr>sh_slab := s\<rparr>)) fs (G(g := i # as @ bs)) os {}"
    if "lru_rep s l (i # as @ bs)" "links_only (sh_slab v) s (set (as @ i # bs))" for s l
    by (rule relink_moves [OF rep that(2) _ that(1)])
      (use g shard_rep_list(1-3) [OF rep, of g] shard_rep_list(4) [OF rep] shard_rep_tag [OF rep, of _ g] in auto)
  then show ?thesis
    using shard_rep_list(1) [OF rep, of g] g
    by (auto simp: on_lru_def intro!: oks_mono [OF lru_move_to_front_ok [OF shard_rep_wf [OF rep], of _ as i bs]])
qed

lemma set_get_lru [simp]: "set_lru g (get_lru g st) st = st"
  by (cases g) simp_all

lemma st_pop_Nil:
  "shard_rep v fs G os \<Longrightarrow> G g = [] \<Longrightarrow> pop_lru g v = Some (kInvalidIndex, v)"
  using lru_pop_back_Nil [of "sh_slab v" "get_lru g (sh_stripe v)"] shard_rep_list(1) [of v fs G os g]
  by (simp add: pop_lru_def)

lemma st_pop:
  assumes rep: "shard_rep v fs G os" and g: "G g = xs @ [i]"
  shows "oks (pop_lru g v) (\<lambda>(j, v'). j = i \<and> moves v fs G os v' fs (G(g := xs)) (i # os) {})"
proof -
  have "moves v fs G os (upd_stripe (set_lru g l) (v\<lparr>sh_slab := s\<rparr>)) fs (G(g := xs)) (i # os) {}"
    if "lru_rep s l xs" "links_only (sh_slab v) s (set (xs @ [i]))" for s l
    by (rule relink_moves [OF rep that(2) _ that(1)])
      (use g shard_rep_list(1-3) [OF rep, of g] shard_rep_list(4) [OF rep] shard_rep_tag [OF rep, of _ g] in auto)
  then show ?thesis
    using shard_rep_list(1) [OF rep, of g] g
    by (auto simp: pop_lru_def intro!: oks_mono [OF lru_pop_back_ok [OF shard_rep_wf [OF rep], of _ xs i]])
qed

section \<open>Steps on nodes that are on no list\<close>

abbreviation set_index :: "(string \<rightharpoonup> u32) \<Rightarrow> shard \<Rightarrow> shard" where
  "set_index m \<equiv> upd_stripe (\<lambda>st. st\<lparr>st_index_map := m\<rparr>)"

lemma get_lru_index [simp]: "get_lru g (st\<lparr>st_index_map := m\<rparr>) = get_lru g st"
  by (cases g) simp_all

lemma data_step:
  assumes rep: "shard_rep v fs G os" and i: "i \<in> set fs \<union> set os"
    and s: "slab_rep s fs'" "sl_capacity s = sl_capacity (sh_slab v)"
    and node: "\<And>j. j \<noteq> i \<Longrightarrow> node_at s j = node_at (sh_slab v) j"
    and data: "\<And>j. j \<notin> D \<Longrightarrow> n_key (node_at s j) = nkey v j \<and> n_value (node_at s j) = nval v j"
    and os': "distinct os'" "set fs' \<inter> set os' = {}" "set fs' \<union> set os' = set fs \<union> set os"
    and idx: "index_ok m (\<lambda>j. n_key (node_at s j)) (owned G \<union> set os')"
  shows "moves v fs G os (set_index m (v\<lparr>sh_slab := s\<rparr>)) fs' G os' D"
proof -
  have dj: "set (G g) \<inter> (set fs \<union> set os) = {}" for g using rep by (simp add: shard_rep_def)
  then have out: "i \<notin> set (G g)" for g using i by (auto simp: disjoint_iff)
  have same: "node_at s j = node_at (sh_slab v) j" if "j \<in> set (G g)" for j g
    using that out [of g] by (intro node) auto
  have 1: "lru_rep s (get_lru g (sh_stripe v)) (G g)" for g
    using lru_rep_cong [OF s(2), of "G g"] same shard_rep_list(1) [OF rep, of g] by simp
  have 2: "j < sl_capacity s" if "j \<in> set os'" for j
    using that os'(3) shard_rep_bound [OF rep, of j] by (auto simp: foot_def s(2))
  have 3: "set (G g) \<inter> (set fs' \<union> set os') = {}" for g unfolding os'(3) by (rule dj)
  have 4: "n_segment (node_at s j) = segment_code (id_segment g)" if "j \<in> set (G g)" for j g
    using shard_rep_tag [OF rep that] by (simp add: same [OF that])
  have "shard_rep (set_index m (v\<lparr>sh_slab := s\<rparr>)) fs' G os'"
    using rep s(1) 1 2 3 4 os'(1,2) idx by (simp add: shard_rep_def)
  moreover have "foot fs' G os' = foot fs G os" using os'(3) by (auto simp: foot_def)
  moreover have "node_at s j = node_at (sh_slab v) j" if "j \<notin> foot fs G os" for j
    using that i by (intro node) (auto simp: foot_def)
  then have "changes v (set_index m (v\<lparr>sh_slab := s\<rparr>)) (foot fs G os) D"
    using data s(2) by (auto simp: changes_def)
  ultimately show ?thesis by (simp add: moves_def aux_def)
qed

lemma shard_rep_index_ok: "shard_rep v fs G os \<Longrightarrow> index_ok (st_index_map (sh_stripe v)) (nkey v) (owned G \<union> set os)"
  by (simp add: shard_rep_def)

lemma shard_rep_slab: "shard_rep v fs G os \<Longrightarrow> slab_rep (sh_slab v) fs"
  by (simp add: shard_rep_def)

lemma shard_rep_unat: "shard_rep v fs G os \<Longrightarrow> i \<in> foot fs G os \<Longrightarrow> unat i < length (sl_pool (sh_slab v))"
  using shard_rep_bound [of v fs G os i] shard_rep_wf [of v fs G os] by (simp add: slab_wf_def word_less_nat_alt)

lemma index_ok_cong: "(\<And>i. i \<in> A \<Longrightarrow> key i = key' i) \<Longrightarrow> index_ok m key A = index_ok m key' A"
  unfolding index_ok_def by metis

lemma index_ok_erase: "index_ok m key A \<Longrightarrow> i \<in> A \<Longrightarrow> index_ok (m(key i := None)) key (A - {i})"
  unfolding index_ok_def by (auto; metis option.inject)

lemma index_ok_insert:
  "index_ok m key A \<Longrightarrow> m k = None \<Longrightarrow> i \<notin> A \<Longrightarrow> index_ok (m(k \<mapsto> i)) (key(i := k)) (insert i A)"
  unfolding index_ok_def by (auto split: if_splits) (metis option.distinct(1))

text \<open>Setting the segment byte of a loose node.\<close>

lemma st_tag:
  assumes rep: "shard_rep v fs G os" and i: "i \<in> set os"
  shows "oks (set_segment i sg v) (\<lambda>v'. moves v fs G os v' fs G os {} \<and>
    n_segment (node_at (sh_slab v') i) = segment_code sg)"
proof -
  have if': "i \<in> foot fs G os" using i by (simp add: foot_def)
  let ?s = "node_upd i (\<lambda>n. n\<lparr>n_segment := segment_code sg\<rparr>) (sh_slab v)"
  note at = node_upd_at [OF shard_rep_wf [OF rep] shard_rep_bound [OF rep if']]
  have "moves v fs G os (set_index (st_index_map (sh_stripe v)) (v\<lparr>sh_slab := ?s\<rparr>)) fs G os {}"
    by (rule data_step [OF rep, where i = i])
      (use rep i shard_rep_slab [OF rep] shard_rep_index_ok [OF rep] shard_rep_list(4) [OF rep] in
        \<open>auto simp: shard_rep_def at if_distrib cong: if_cong\<close>)
  then show ?thesis
    using slab_modify_ok [OF shard_rep_wf [OF rep] shard_rep_bound [OF rep if']]
    by (simp add: set_segment_def at)
qed

text \<open>Dropping a loose node: its key leaves the index and its slot returns to the slab.\<close>

lemma st_drop:
  assumes rep: "shard_rep v fs G (i # os)"
  shows "oks (slab_deallocate i (sh_slab v)) (\<lambda>s.
    moves v fs G (i # os) (index_erase (nkey v i) (v\<lparr>sh_slab := s\<rparr>)) (i # fs) G os {i})"
proof -
  have i: "i \<in> foot fs G (i # os)" "i \<notin> set fs" "i \<notin> owned G" "i \<notin> set os"
    using rep by (auto simp: foot_def shard_rep_def)
  have "moves v fs G (i # os) (set_index ((st_index_map (sh_stripe v))(nkey v i := None)) (v\<lparr>sh_slab := s\<rparr>)) (i # fs) G os {i}"
    if s: "slab_rep s (i # fs)" "sl_capacity s = sl_capacity (sh_slab v)" "sl_pool s = (sl_pool (sh_slab v))[unat i := node_default]" for s
  proof (rule data_step [OF rep, where i = i])
    have "index_ok ((st_index_map (sh_stripe v))(nkey v i := None)) (nkey v) (owned G \<union> set os)"
      using index_ok_erase [OF shard_rep_index_ok [OF rep], of i] i by (simp add: insert_Diff_if)
    then show "index_ok ((st_index_map (sh_stripe v))(nkey v i := None)) (\<lambda>j. n_key (node_at s j)) (owned G \<union> set os)"
      using i shard_rep_unat [OF rep i(1)]
      by (subst index_ok_cong [where key' = "nkey v"]) (auto simp: s(3))
  qed (use s i rep shard_rep_unat [OF rep i(1)] in \<open>auto simp: shard_rep_def\<close>)
  then show ?thesis
    using slab_deallocate_ok [OF shard_rep_slab [OF rep] shard_rep_bound [OF rep i(1)] i(2)]
    by (auto simp: index_erase_def elim!: oks_mono)
qed

text \<open>Taking a node from the slab and filling it in, as \<open>put\<close> does for a new key.\<close>

lemma st_alloc:
  assumes rep: "shard_rep v (i # fs) G os" and new: "st_index_map (sh_stripe v) key = None"
  shows "oks (slab_allocate (sh_slab v)) (\<lambda>(j, s). j = i \<and> i \<noteq> kInvalidIndex \<and>
    oks (slab_modify i (fill_node key val) s) (\<lambda>s'.
      moves v (i # fs) G os (set_index ((st_index_map (sh_stripe v))(key \<mapsto> i)) (v\<lparr>sh_slab := s'\<rparr>)) fs G (i # os) {i} \<and>
      n_key (node_at s' i) = key \<and> n_value (node_at s' i) = val \<and> n_segment (node_at s' i) = segment_code Window))"
proof -
  have i: "i \<in> foot (i # fs) G os" "i \<notin> set fs" "i \<notin> owned G \<union> set os"
    using rep shard_rep_slab [OF rep] by (auto simp: foot_def shard_rep_def slab_rep_def)
  have b: "unat i < length (sl_pool (sh_slab v))" by (rule shard_rep_unat [OF rep i(1)])
  have "oks (slab_modify i (fill_node key val) s) (\<lambda>s'.
      moves v (i # fs) G os (set_index ((st_index_map (sh_stripe v))(key \<mapsto> i)) (v\<lparr>sh_slab := s'\<rparr>)) fs G (i # os) {i} \<and>
      n_key (node_at s' i) = key \<and> n_value (node_at s' i) = val \<and> n_segment (node_at s' i) = segment_code Window)"
    if s: "slab_rep s fs" "sl_capacity s = sl_capacity (sh_slab v)" "sl_pool s = (sl_pool (sh_slab v))[unat i := node_default]" for s
  proof -
    let ?s = "node_upd i (fill_node key val) s"
    have bd: "i < sl_capacity s" using shard_rep_bound [OF rep i(1)] s(2) by simp
    have at: "node_at ?s j = (if j = i then fill_node key val node_default else node_at (sh_slab v) j)" for j
      using node_upd_at [OF slab_rep_wf [OF s(1)] bd, of "fill_node key val" j] b by (auto simp: s(3))
    have "moves v (i # fs) G os (set_index ((st_index_map (sh_stripe v))(key \<mapsto> i)) (v\<lparr>sh_slab := ?s\<rparr>)) fs G (i # os) {i}"
    proof (rule data_step [OF rep, where i = i])
      have "index_ok ((st_index_map (sh_stripe v))(key \<mapsto> i)) ((nkey v)(i := key)) (insert i (owned G \<union> set os))"
        using index_ok_insert [OF shard_rep_index_ok [OF rep] new i(3)] .
      also have "(nkey v)(i := key) = (\<lambda>j. n_key (node_at ?s j))"
        by (auto simp: at fill_node_def)
      finally show "index_ok ((st_index_map (sh_stripe v))(key \<mapsto> i)) (\<lambda>j. n_key (node_at ?s j)) (owned G \<union> set (i # os))"
        by (simp only: list.set Un_insert_right)
    qed (use s i rep shard_rep_list(4) [OF rep] at in \<open>auto simp: shard_rep_def\<close>)
    then show ?thesis
      using slab_modify_ok [OF slab_rep_wf [OF s(1)] bd, of "fill_node key val"] at by (simp add: fill_node_def)
  qed
  then show ?thesis
    using slab_allocate_Cons [OF shard_rep_slab [OF rep]] less_invalid [OF shard_rep_bound [OF rep i(1)]]
    by (auto elim!: oks_mono)
qed

text \<open>Overwriting the value of a node on a list, as \<open>put\<close> does for a present key.\<close>

lemma st_value:
  assumes rep: "shard_rep v fs G os" and i: "i \<in> foot fs G os"
  shows "oks (slab_modify i (\<lambda>n. n\<lparr>n_value := val\<rparr>) (sh_slab v)) (\<lambda>s.
    moves v fs G os (v\<lparr>sh_slab := s\<rparr>) fs G os {i} \<and>
    (\<forall>j. node_at s j = (node_at (sh_slab v) j)\<lparr>n_value := if j = i then val else nval v j\<rparr>))"
proof -
  let ?s = "node_upd i (\<lambda>n. n\<lparr>n_value := val\<rparr>) (sh_slab v)"
  note w = shard_rep_wf [OF rep] shard_rep_bound [OF rep i]
  have at: "node_at ?s j = (node_at (sh_slab v) j)\<lparr>n_value := if j = i then val else nval v j\<rparr>" for j
    using node_upd_at [OF w, of "\<lambda>n. n\<lparr>n_value := val\<rparr>" j] by simp
  have "lru_rep ?s l xs = lru_rep (sh_slab v) l xs" for l xs
    by (rule lru_rep_cong) (simp_all add: at)
  then have "shard_rep (v\<lparr>sh_slab := ?s\<rparr>) fs G os"
    using rep by (simp add: shard_rep_def at)
  moreover have "changes v (v\<lparr>sh_slab := ?s\<rparr>) (foot fs G os) {i}"
    using i by (auto simp: changes_def at)
  ultimately show ?thesis
    using slab_modify_ok [OF w, of "\<lambda>n. n\<lparr>n_value := val\<rparr>"] at by (simp add: moves_def)
qed

text \<open>Counters, the sketch and the queue are not part of the representation.\<close>

lemma shard_rep_cong:
  assumes "sh_slab v' = sh_slab v" and "\<And>g. get_lru g (sh_stripe v') = get_lru g (sh_stripe v)"
    and "st_index_map (sh_stripe v') = st_index_map (sh_stripe v)"
  shows "shard_rep v' fs G os = shard_rep v fs G os"
  using assms by (simp add: shard_rep_def)

lemma get_lru_counters [simp]:
  "get_lru g (st\<lparr>st_cms := c\<rparr>) = get_lru g st" "get_lru g (st\<lparr>st_ops_since_decay := n\<rparr>) = get_lru g st"
  "get_lru g (st\<lparr>st_hits := n\<rparr>) = get_lru g st" "get_lru g (st\<lparr>st_misses := n\<rparr>) = get_lru g st"
  "get_lru g (st\<lparr>st_evictions := n\<rparr>) = get_lru g st" "get_lru g (st\<lparr>st_admissions := n\<rparr>) = get_lru g st"
  "get_lru g (st\<lparr>st_rejections := n\<rparr>) = get_lru g st" "get_lru g (st\<lparr>st_demotion_queue := b\<rparr>) = get_lru g st"
  by (cases g; simp)+

end
