(* ===== verification/Cache_Stripe_Spec.thy ===== *)
theory Cache_Stripe_Spec
  imports Cache_Stripe
begin

text \<open>
  The abstract specification of a stripe: the W-TinyLFU policy on three plain lists of entries,
  most recently used first, with no nodes, links or slab. The list functions are polymorphic in the
  element, so that the same function acts on node indices (in the proof) and on key-value pairs (in the
  specification). \<open>Cache_Stripe_Correct\<close> proves that \<open>CacheStripe\<close> implements it.
\<close>

section \<open>Three recency lists\<close>

type_synonym 'a tiers = "lru_id \<Rightarrow> 'a list"

definition t_all :: "'a tiers \<Rightarrow> 'a list" where
  "t_all L = L Win @ L Prob @ L Prot"

definition t_map :: "('a \<Rightarrow> 'b) \<Rightarrow> 'a tiers \<Rightarrow> 'b tiers" where
  "t_map f L = (\<lambda>g. map f (L g))"

text \<open>A hit moves the element to the front of its list; a hit in probation promotes it, and a full
  protected list gives its last element back to the front of probation.\<close>

definition t_move :: "lru_id \<Rightarrow> ('a \<Rightarrow> bool) \<Rightarrow> 'a tiers \<Rightarrow> 'a tiers" where
  "t_move g P L = L(g := filter P (L g) @ filter (\<lambda>x. \<not> P x) (L g))"

definition t_promote :: "nat \<Rightarrow> ('a \<Rightarrow> bool) \<Rightarrow> 'a tiers \<Rightarrow> 'a tiers" where
  "t_promote cap P L =
     (let hit = filter P (L Prob); rest = filter (\<lambda>x. \<not> P x) (L Prob)
      in if cap \<le> length (L Prot) \<and> L Prot \<noteq> []
         then L(Prob := last (L Prot) # rest, Prot := hit @ butlast (L Prot))
         else L(Prob := rest, Prot := hit @ L Prot))"

definition t_touch :: "nat \<Rightarrow> ('a \<Rightarrow> bool) \<Rightarrow> 'a tiers \<Rightarrow> 'a tiers" where
  "t_touch cap P L =
     (if \<exists>x \<in> set (L Win). P x then t_move Win P L
      else if \<exists>x \<in> set (L Prob). P x then t_promote cap P L
      else t_move Prot P L)"

definition t_drop :: "('a \<Rightarrow> bool) \<Rightarrow> 'a tiers \<Rightarrow> 'a tiers" where
  "t_drop P L = (\<lambda>g. filter (\<lambda>x. \<not> P x) (L g))"

text \<open>The admission of the window's last element into the main region, with a frequency \<open>f\<close>.\<close>

datatype 'a outcome = Idle | Admitted | Rejected 'a | Replaced 'a

definition t_judge :: "nat \<Rightarrow> ('a \<Rightarrow> u32) \<Rightarrow> 'a \<Rightarrow> 'a tiers \<Rightarrow> 'a tiers \<times> 'a outcome" where
  "t_judge cap f c L =
     (let p = L Prob
      in if length p + length (L Prot) < cap then (L(Prob := c # p), Admitted)
         else if p = [] \<or> f c \<le> f (last p) then (L, Rejected c)
         else (L(Prob := c # butlast p), Replaced (last p)))"

definition t_admit :: "nat \<Rightarrow> ('a \<Rightarrow> u32) \<Rightarrow> 'a tiers \<Rightarrow> 'a tiers \<times> 'a outcome" where
  "t_admit cap f L =
     (if L Win = [] then (L, Idle) else t_judge cap f (last (L Win)) (L(Win := butlast (L Win))))"

section \<open>The policy\<close>

type_synonym entry = "string \<times> string"

record policy =
  p_tiers :: "entry tiers"
  p_stripe :: stripe
  p_free :: nat
  p_queue :: "demotion_item list"
  p_limit :: nat
  p_drops :: u64

definition p_lookup :: "policy \<Rightarrow> string \<Rightarrow> string option" where
  "p_lookup p = map_of (t_all (p_tiers p))"

definition p_freq :: "hash32 \<Rightarrow> policy \<Rightarrow> string \<Rightarrow> u32" where
  "p_freq h32 p = cms_val h32 (st_cms (p_stripe p))"

definition p_count :: "hash32 \<Rightarrow> string \<Rightarrow> policy \<Rightarrow> policy" where
  "p_count h32 key p =
     p\<lparr>p_stripe := (p_stripe p)\<lparr>st_cms := the (cms_increment h32 key (st_cms (p_stripe p)))\<rparr>\<rparr>"

definition p_tick :: "policy \<Rightarrow> policy" where
  "p_tick p = (let st = p_stripe p; ops = st_ops_since_decay st + 1
     in p\<lparr>p_stripe := (if ops \<ge> st_decay_interval st
                      then st\<lparr>st_cms := cms_decay (st_cms st), st_ops_since_decay := 0\<rparr>
                      else st\<lparr>st_ops_since_decay := ops\<rparr>)\<rparr>)"

definition p_push :: "demotion_item \<Rightarrow> policy \<Rightarrow> policy" where
  "p_push item p =
     (if length (p_queue p) < p_limit p then p\<lparr>p_queue := p_queue p @ [item]\<rparr>
      else p\<lparr>p_drops := p_drops p + 1\<rparr>)"

definition p_demote :: "hash32 \<Rightarrow> entry \<Rightarrow> policy \<Rightarrow> policy" where
  "p_demote h32 e p =
     (let p = (if st_demotion_queue (p_stripe p)
               then p_push \<lparr>di_key = fst e, di_value = snd e, di_frequency = p_freq h32 p (fst e)\<rparr> p else p)
      in p\<lparr>p_free := Suc (p_free p), p_stripe := (p_stripe p)\<lparr>st_evictions := st_evictions (p_stripe p) + 1\<rparr>\<rparr>)"

definition p_admitted :: "policy \<Rightarrow> policy" where
  "p_admitted p = p\<lparr>p_stripe := (p_stripe p)\<lparr>st_admissions := st_admissions (p_stripe p) + 1\<rparr>\<rparr>"

definition p_rejected :: "policy \<Rightarrow> policy" where
  "p_rejected p = p\<lparr>p_free := Suc (p_free p),
     p_stripe := (p_stripe p)\<lparr>st_rejections := st_rejections (p_stripe p) + 1\<rparr>\<rparr>"

definition p_account :: "hash32 \<Rightarrow> entry outcome \<Rightarrow> policy \<Rightarrow> policy" where
  "p_account h32 out p =
     (case out of Idle \<Rightarrow> p | Admitted \<Rightarrow> p_admitted p | Rejected _ \<Rightarrow> p_rejected p
      | Replaced e \<Rightarrow> p_admitted (p_demote h32 e p))"

definition p_admit :: "hash32 \<Rightarrow> policy \<Rightarrow> policy" where
  "p_admit h32 p =
     (let (L, out) = t_admit (unat (st_main_capacity (p_stripe p))) (p_freq h32 p \<circ> fst) (p_tiers p)
      in p_account h32 out (p\<lparr>p_tiers := L\<rparr>))"

definition p_touch :: "string \<Rightarrow> policy \<Rightarrow> policy" where
  "p_touch key p = p\<lparr>p_tiers := t_touch (unat (st_protected_capacity (p_stripe p))) (\<lambda>e. fst e = key) (p_tiers p)\<rparr>"

definition p_insert :: "entry \<Rightarrow> policy \<Rightarrow> policy" where
  "p_insert e p = p\<lparr>p_tiers := (p_tiers p)(Win := e # p_tiers p Win), p_free := p_free p - 1\<rparr>"

definition p_overflow :: "policy \<Rightarrow> nat" where
  "p_overflow p = length (p_tiers p Win) - unat (st_window_capacity (p_stripe p))"

definition set_value :: "string \<Rightarrow> string \<Rightarrow> entry \<Rightarrow> entry" where
  "set_value key val e = (if fst e = key then (key, val) else e)"

definition p_get :: "hash32 \<Rightarrow> string \<Rightarrow> policy \<Rightarrow> string option \<times> policy" where
  "p_get h32 key p =
     (case p_lookup p key of
        None \<Rightarrow> (None, p\<lparr>p_stripe := (p_stripe p)\<lparr>st_misses := st_misses (p_stripe p) + 1\<rparr>\<rparr>)
      | Some val \<Rightarrow>
          (Some val, (let p = p_touch key (p_count h32 key p)
                      in p\<lparr>p_stripe := (p_stripe p)\<lparr>st_hits := st_hits (p_stripe p) + 1\<rparr>\<rparr>)))"

definition p_put :: "hash32 \<Rightarrow> string \<Rightarrow> string \<Rightarrow> policy \<Rightarrow> bool \<times> policy" where
  "p_put h32 key val p =
     (let p = p_tick (p_count h32 key p)
      in if p_lookup p key \<noteq> None then (False, p_touch key (p\<lparr>p_tiers := t_map (set_value key val) (p_tiers p)\<rparr>))
         else if p_free p = 0 then (False, p)
         else let p = p_insert (key, val) p in (True, (p_admit h32 ^^ p_overflow p) p))"

definition p_remove :: "string \<Rightarrow> policy \<Rightarrow> bool \<times> policy" where
  "p_remove key p =
     (if p_lookup p key = None then (False, p)
      else (True, p\<lparr>p_tiers := t_drop (\<lambda>e. fst e = key) (p_tiers p), p_free := Suc (p_free p)\<rparr>))"

section \<open>Lists: maps and elements\<close>

lemma t_map_apply [simp]: "t_map f L g = map f (L g)"
  by (simp add: t_map_def)

lemma t_map_upd [simp]: "t_map f (L(g := xs)) = (t_map f L)(g := map f xs)"
  by (auto simp: t_map_def)

lemma t_all_map: "t_all (t_map f L) = map f (t_all L)"
  by (simp add: t_all_def)

lemma UNIV_lru_id: "(UNIV :: lru_id set) = {Win, Prob, Prot}"
  by (auto intro: lru_id.exhaust)

lemma set_t_all: "set (t_all L) = (\<Union>g. set (L g))"
  unfolding UNIV_lru_id by (simp add: t_all_def)

lemma t_move_map: "t_move g P (t_map f L) = t_map f (t_move g (P \<circ> f) L)"
  by (simp add: t_move_def filter_map comp_def)

lemma t_promote_map: "t_promote cap P (t_map f L) = t_map f (t_promote cap (P \<circ> f) L)"
  by (simp add: t_promote_def Let_def filter_map comp_def last_map map_butlast)

lemma t_touch_map: "t_touch cap P (t_map f L) = t_map f (t_touch cap (P \<circ> f) L)"
  by (simp add: t_touch_def t_move_map t_promote_map)

lemma t_drop_map: "t_drop P (t_map f L) = t_map f (t_drop (P \<circ> f) L)"
  by (rule ext) (simp add: t_drop_def filter_map comp_def)

lemma t_admit_map:
  "t_admit cap F (t_map f L) = (let (L', out) = t_admit cap (F \<circ> f) L in (t_map f L', map_outcome f out))"
  by (simp add: t_admit_def t_judge_def Let_def last_map map_butlast)

lemma t_touch_cong:
  assumes "\<And>g x. x \<in> set (L g) \<Longrightarrow> P x = Q x"
  shows "t_touch cap P L = t_touch cap Q L"
proof -
  have f: "filter P (L g) = filter Q (L g)" "filter (\<lambda>x. \<not> P x) (L g) = filter (\<lambda>x. \<not> Q x) (L g)" for g
    using assms by (auto intro!: filter_cong)
  show ?thesis using assms by (simp add: t_touch_def t_move_def t_promote_def Let_def f)
qed

lemma t_drop_cong: "(\<And>g x. x \<in> set (L g) \<Longrightarrow> P x = Q x) \<Longrightarrow> t_drop P L = t_drop Q L"
  by (auto simp: t_drop_def intro!: filter_cong)

end
