(* ===== verification/Cache_Stripe_Correct.thy ===== *)
theory Cache_Stripe_Correct
  imports Cache_Stripe_Inv Cache_Stripe_Spec
begin

text \<open>
  \<open>CacheStripe\<close> implements the policy of \<open>Cache_Stripe_Spec\<close>: every operation returns (no assertion
  fails, no node index is out of range, the admission loop ends), the stripe's lists hold the entries of
  the policy's lists in the same order, and nodes outside the stripe's footprint are untouched.
\<close>

section \<open>Internal operations on node indices\<close>

lemma lru_size_of_len: "shard_rep v fs G os \<Longrightarrow> unat (lru_size_of g v) = length (G g)"
  using lru_rep_length [OF shard_rep_list(1)] by (simp add: lru_size_of_def)

lemma aux_fields:
  "st_total_capacity (aux v) = st_total_capacity (sh_stripe v)"
  "st_window_capacity (aux v) = st_window_capacity (sh_stripe v)"
  "st_main_capacity (aux v) = st_main_capacity (sh_stripe v)"
  "st_probation_capacity (aux v) = st_probation_capacity (sh_stripe v)"
  "st_protected_capacity (aux v) = st_protected_capacity (sh_stripe v)"
  "st_cms (aux v) = st_cms (sh_stripe v)"
  "st_decay_interval (aux v) = st_decay_interval (sh_stripe v)"
  "st_ops_since_decay (aux v) = st_ops_since_decay (sh_stripe v)"
  "st_hits (aux v) = st_hits (sh_stripe v)" "st_misses (aux v) = st_misses (sh_stripe v)"
  "st_evictions (aux v) = st_evictions (sh_stripe v)" "st_admissions (aux v) = st_admissions (sh_stripe v)"
  "st_rejections (aux v) = st_rejections (sh_stripe v)"
  "st_demotion_queue (aux v) = st_demotion_queue (sh_stripe v)"
  by (simp_all add: aux_def)

lemmas aux_sym = aux_fields [symmetric]

lemma moves_stripe:
  assumes "moves v fs G os v' fs' G' os' D"
  shows "st_protected_capacity (sh_stripe v') = st_protected_capacity (sh_stripe v)"
    and "st_main_capacity (sh_stripe v') = st_main_capacity (sh_stripe v)"
    and "st_window_capacity (sh_stripe v') = st_window_capacity (sh_stripe v)"
    and "st_cms (sh_stripe v') = st_cms (sh_stripe v)"
    and "st_demotion_queue (sh_stripe v') = st_demotion_queue (sh_stripe v)"
    and "sh_queue v' = sh_queue v"
proof -
  have "aux v' = aux v" "sh_queue v' = sh_queue v" using assms by (auto simp: moves_def)
  then show "st_protected_capacity (sh_stripe v') = st_protected_capacity (sh_stripe v)"
    "st_main_capacity (sh_stripe v') = st_main_capacity (sh_stripe v)"
    "st_window_capacity (sh_stripe v') = st_window_capacity (sh_stripe v)"
    "st_cms (sh_stripe v') = st_cms (sh_stripe v)"
    "st_demotion_queue (sh_stripe v') = st_demotion_queue (sh_stripe v)"
    "sh_queue v' = sh_queue v"
    by (metis aux_fields)+
qed

lemma foot_list: "i \<in> set (G g) \<Longrightarrow> i \<in> foot fs G os"
  by (auto simp: foot_def)

lemma filter_one:
  assumes "distinct (as @ i # bs)"
  shows "filter (\<lambda>j. j = i) (as @ i # bs) = [i]" and "filter (\<lambda>j. j \<noteq> i) (as @ i # bs) = as @ bs"
proof -
  have "i \<notin> set as" "i \<notin> set bs" using assms by auto
  then have "filter (\<lambda>j. j = i) as = []" "filter (\<lambda>j. j = i) bs = []"
    "filter (\<lambda>j. j \<noteq> i) as = as" "filter (\<lambda>j. j \<noteq> i) bs = bs"
    by (auto simp: filter_empty_conv filter_id_conv)
  then show "filter (\<lambda>j. j = i) (as @ i # bs) = [i]" "filter (\<lambda>j. j \<noteq> i) (as @ i # bs) = as @ bs"
    by simp_all
qed

lemma promote_ix:
  assumes rep: "shard_rep v fs G []" and G: "G Prob = as @ i # bs"
  shows "oks (promote_to_protected i v) (\<lambda>v'. moves v fs G [] v' fs
           (t_promote (unat (st_protected_capacity (sh_stripe v))) (\<lambda>j. j = i) G) [] {})"
proof -
  let ?cap = "st_protected_capacity (sh_stripe v)"
  note f = filter_one [OF shard_rep_list(2) [OF rep, of Prob, unfolded G], folded G]
  let ?G1 = "G(Prob := as @ bs)"
  have fin: "oks (set_segment i Protected w) (\<lambda>w. oks (on_lru Prot (lru_push_front i) w)
      (\<lambda>v'. moves v fs G [] v' fs (H(Prot := i # H Prot)) [] {}))"
    if w: "moves v fs G [] w fs H [i] {}" for w H
  proof (rule oks_mono [OF st_tag [OF moves_rep [OF w]]])
    fix w' assume w': "moves w fs H [i] w' fs H [i] {} \<and> n_segment (node_at (sh_slab w') i) = segment_code Protected"
    show "oks (on_lru Prot (lru_push_front i) w') (\<lambda>v'. moves v fs G [] v' fs (H(Prot := i # H Prot)) [] {})"
      by (rule oks_mono [OF st_push [OF moves_rep, where g = Prot]])
        (use w w' in \<open>auto intro: moves_trans0\<close>)
  qed simp
  have giveback: "oks (if j \<noteq> kInvalidIndex
        then do { w \<leftarrow> set_segment j Probation w; on_lru Prob (lru_push_front j) w } else Some w)
      (\<lambda>w'. moves v fs G [] w' fs (H(Prob := j # H Prob)) [i] {})"
    if w: "moves v fs G [] w fs H [j, i] {}" for w H j
  proof -
    have "j \<noteq> kInvalidIndex"
      using less_invalid [OF shard_rep_bound [OF moves_rep [OF w], of j]] by (simp add: foot_def)
    moreover have "oks (set_segment j Probation w) (\<lambda>w. oks (on_lru Prob (lru_push_front j) w)
        (\<lambda>w'. moves v fs G [] w' fs (H(Prob := j # H Prob)) [i] {}))"
    proof (rule oks_mono [OF st_tag [OF moves_rep [OF w]]])
      fix w' assume w': "moves w fs H [j, i] w' fs H [j, i] {} \<and> n_segment (node_at (sh_slab w') j) = segment_code Probation"
      show "oks (on_lru Prob (lru_push_front j) w') (\<lambda>w'. moves v fs G [] w' fs (H(Prob := j # H Prob)) [i] {})"
        by (rule oks_mono [OF st_push [OF moves_rep, where g = Prob]])
          (use w w' in \<open>auto intro: moves_trans0\<close>)
    qed simp
    ultimately show ?thesis by simp
  qed
  have node: "shard_node v i = Some (node_at (sh_slab v) i)"
    using G by (intro shard_rep_node [OF rep] foot_list [of i G Prob]) simp
  have main: "oks (do {
        w \<leftarrow> (if lru_size_of Prot w \<ge> st_protected_capacity (sh_stripe w)
             then do {
               (j, w) \<leftarrow> pop_lru Prot w;
               if j \<noteq> kInvalidIndex
               then do { w \<leftarrow> set_segment j Probation w; on_lru Prob (lru_push_front j) w }
               else Some w
             }
             else Some w);
        w \<leftarrow> set_segment i Protected w;
        on_lru Prot (lru_push_front i) w
      }) (\<lambda>v'. moves v fs G [] v' fs (t_promote (unat ?cap) (\<lambda>j. j = i) G) [] {})"
    if w: "moves v fs G [] w fs ?G1 [i] {}" for w
  proof -
    have sz: "lru_size_of Prot w \<ge> st_protected_capacity (sh_stripe w) \<longleftrightarrow> unat ?cap \<le> length (G Prot)"
      using lru_size_of_len [OF moves_rep [OF w], of Prot] moves_stripe(1) [OF w]
      by (simp add: word_le_nat_alt)
    show ?thesis
    proof (cases "unat ?cap \<le> length (G Prot) \<and> G Prot \<noteq> []")
      case True
      then obtain xs j where xs: "G Prot = xs @ [j]" by (metis append_butlast_last_id)
      let ?H = "?G1(Prot := xs)"
      have pop: "oks (pop_lru Prot w) (\<lambda>(k, w'). k = j \<and> moves v fs G [] w' fs ?H [j, i] {})"
        by (rule oks_mono [OF st_pop [OF moves_rep [OF w], of Prot xs j]])
          (use xs in \<open>auto intro: moves_trans0 [OF w]\<close>)
      have "oks (do {
               (j, w) \<leftarrow> pop_lru Prot w;
               if j \<noteq> kInvalidIndex
               then do { w \<leftarrow> set_segment j Probation w; on_lru Prob (lru_push_front j) w }
               else Some w
             }) (\<lambda>w'. moves v fs G [] w' fs (?H(Prob := j # ?H Prob)) [i] {})"
      proof (rule oks_bindI [OF pop])
        fix x assume "case x of (k, w') \<Rightarrow> k = j \<and> moves v fs G [] w' fs ?H [j, i] {}"
        then obtain w' where "x = (j, w')" "moves v fs G [] w' fs ?H [j, i] {}" by auto
        then show "oks (case x of (j, w) \<Rightarrow> if j \<noteq> kInvalidIndex
               then do { w \<leftarrow> set_segment j Probation w; on_lru Prob (lru_push_front j) w }
               else Some w) (\<lambda>w'. moves v fs G [] w' fs (?H(Prob := j # ?H Prob)) [i] {})"
          using giveback by (simp only: prod.case)
      qed
      then have A: "oks (if lru_size_of Prot w \<ge> st_protected_capacity (sh_stripe w)
             then do {
               (j, w) \<leftarrow> pop_lru Prot w;
               if j \<noteq> kInvalidIndex
               then do { w \<leftarrow> set_segment j Probation w; on_lru Prob (lru_push_front j) w }
               else Some w
             }
             else Some w) (\<lambda>w'. moves v fs G [] w' fs (?H(Prob := j # ?H Prob)) [i] {})"
        using True sz by simp
      have E: "t_promote (unat ?cap) (\<lambda>j. j = i) G = (?H(Prob := j # ?H Prob))(Prot := i # (?H(Prob := j # ?H Prob)) Prot)"
        using True by (auto simp: t_promote_def Let_def f xs)
      show ?thesis
        unfolding E by (rule oks_bindI [OF A], drule fin) simp
    next
      case False
      then have "unat ?cap \<le> length (G Prot) \<Longrightarrow> pop_lru Prot w = Some (kInvalidIndex, w)"
        using st_pop_Nil [OF moves_rep [OF w], of Prot] by simp
      then show ?thesis
        using False sz fin [OF w] by (auto simp: t_promote_def Let_def f)
    qed
  qed
  show ?thesis
    unfolding promote_to_protected_def node bind.bind_lunit
    using main by (auto intro!: oks_mono [OF st_remove [OF rep G]])
qed

lemma touch_ix:
  assumes rep: "shard_rep v fs G []" and i: "i \<in> owned G"
  shows "oks (touch i v) (\<lambda>v'. moves v fs G [] v' fs
           (t_touch (unat (st_protected_capacity (sh_stripe v))) (\<lambda>j. j = i) G) [] {})"
proof -
  obtain g as bs where g: "G g = as @ i # bs" using i by (auto dest: split_list)
  have dj: "set (G h) \<inter> set (G g) = {}" if "h \<noteq> g" for h using rep that by (auto simp: shard_rep_def)
  have out: "i \<notin> set (G h)" if "h \<noteq> g" for h using dj [OF that] g by auto
  have node: "shard_node v i = Some (node_at (sh_slab v) i)"
    using g by (intro shard_rep_node [OF rep] foot_list [of i G g]) simp
  have tag: "segment_of (n_segment (node_at (sh_slab v) i)) = Some (id_segment g)"
    using shard_rep_tag [OF rep, of i g] g by simp
  have move: "t_move g (\<lambda>j. j = i) G = G(g := i # as @ bs)"
    using filter_one [of as i bs] shard_rep_list(2) [OF rep, of g] g by (simp add: t_move_def)
  show ?thesis
  proof (cases g)
    case Prob
    then show ?thesis using promote_ix [OF rep, of as i bs] g out [of Win]
      by (simp add: touch_def node tag t_touch_def)
  next
    case Win
    then show ?thesis using st_move [OF rep g] g move
      by (simp add: touch_def node tag t_touch_def)
  next
    case Prot
    then show ?thesis using st_move [OF rep g] g move out [of Win] out [of Prob]
      by (simp add: touch_def node tag t_touch_def)
  qed
qed

lemma owned_touch: "owned (t_touch cap P L) = owned L"
proof -
  have f: "set (filter P xs) \<union> set (filter (\<lambda>x. \<not> P x) xs) = set xs" for xs by auto
  have b: "insert (last xs) (set (butlast xs)) = set xs" if "xs \<noteq> []" for xs :: "u32 list"
    using that by (metis append_butlast_last_id list.set(2) rotate1.simps(2) set_rotate1)
  have m: "owned (t_move g P L) = owned L" for g
    unfolding t_move_def
    by (subst owned_upd, subst owned_split [of L g], simp only: set_append f)
  have "owned (t_promote cap P L) = owned L"
    unfolding owned_def UNIV_lru_id t_promote_def Let_def using f [of "L Prob"] b [of "L Prot"] by auto
  with m show ?thesis by (simp add: t_touch_def)
qed

section \<open>Admission on node indices\<close>

definition main_len :: "u32 tiers \<Rightarrow> nat" where
  "main_len G = length (G Prob) + length (G Prot)"

lemma main_size_len:
  assumes rep: "shard_rep v fs G os"
  shows "unat (lru_size_of Prob v + lru_size_of Prot v) = main_len G"
proof -
  have "distinct (G Prob @ G Prot)"
    using rep shard_rep_list(2) [OF rep] by (auto simp: shard_rep_def)
  moreover have "\<forall>i \<in> set (G Prob @ G Prot). i < sl_capacity (sh_slab v)"
    using shard_rep_bound [OF rep] foot_list by fastforce
  ultimately have "main_len G \<le> unat (sl_capacity (sh_slab v))"
    using length_indices [of "G Prob @ G Prot"] by (simp add: main_len_def)
  then show ?thesis
    using lru_size_of_len [OF rep] unat_u32_bound [of "sl_capacity (sh_slab v)"]
    by (subst unat_add_u32) (auto simp: main_len_def)
qed

text \<open>Like \<open>moves\<close>, for steps that also count or push to the queue.\<close>

definition steps :: "shard \<Rightarrow> u32 list \<Rightarrow> u32 tiers \<Rightarrow> u32 list \<Rightarrow>
    shard \<Rightarrow> u32 list \<Rightarrow> u32 tiers \<Rightarrow> u32 list \<Rightarrow> u32 set \<Rightarrow> bool" where
  "steps v fs G os v' fs' G' os' D \<longleftrightarrow>
     shard_rep v' fs' G' os' \<and> foot fs' G' os' = foot fs G os \<and> changes v v' (foot fs G os) D"

lemma moves_steps:
  "moves v fs G os v' fs' G' os' D \<longleftrightarrow>
   steps v fs G os v' fs' G' os' D \<and> aux v' = aux v \<and> sh_queue v' = sh_queue v"
  by (auto simp: moves_def steps_def)

lemma steps_rep: "steps v fs G os v' fs' G' os' D \<Longrightarrow> shard_rep v' fs' G' os'"
  by (simp add: steps_def)

lemma steps_trans:
  "steps v fs G os v' fs' G' os' D \<Longrightarrow> steps v' fs' G' os' v'' fs'' G'' os'' D' \<Longrightarrow> D \<union> D' \<subseteq> E \<Longrightarrow>
   steps v fs G os v'' fs'' G'' os'' E"
  by (auto simp: steps_def elim: changes_trans)

lemma steps_mono: "steps v fs G os v' fs' G' os' D \<Longrightarrow> D \<subseteq> E \<Longrightarrow> steps v fs G os v' fs' G' os' E"
  by (auto simp: steps_def changes_def)

lemma steps_refl: "shard_rep v fs G os \<Longrightarrow> steps v fs G os v fs G os D"
  by (simp add: steps_def)

text \<open>What follows a step may touch the counters, the sketch and the queue.\<close>

lemma steps_cong:
  assumes "sh_slab w = sh_slab v'" and "\<And>g. get_lru g (sh_stripe w) = get_lru g (sh_stripe v')"
    and "st_index_map (sh_stripe w) = st_index_map (sh_stripe v')"
  shows "steps v fs G os w fs' G' os' D = steps v fs G os v' fs' G' os' D"
  using shard_rep_cong [OF assms, of fs' G' os'] assms by (simp add: steps_def changes_def)

lemma get_lru_updates [simp]:
  "get_lru g (st_admissions_update h st) = get_lru g st" "get_lru g (st_rejections_update h st) = get_lru g st"
  "get_lru g (st_evictions_update h st) = get_lru g st" "get_lru g (st_hits_update h st) = get_lru g st"
  "get_lru g (st_misses_update h st) = get_lru g st" "get_lru g (st_cms_update k st) = get_lru g st"
  by (cases g; simp)+

lemma steps_counters [simp]:
  "steps v fs G os (upd_stripe (st_admissions_update h) x) fs' G' os' D = steps v fs G os x fs' G' os' D"
  "steps v fs G os (upd_stripe (st_rejections_update h) x) fs' G' os' D = steps v fs G os x fs' G' os' D"
  "steps v fs G os (upd_stripe (st_evictions_update h) x) fs' G' os' D = steps v fs G os x fs' G' os' D"
  "steps v fs G os (upd_stripe (st_hits_update h) x) fs' G' os' D = steps v fs G os x fs' G' os' D"
  "steps v fs G os (upd_stripe (st_misses_update h) x) fs' G' os' D = steps v fs G os x fs' G' os' D"
  "steps v fs G os (upd_stripe (st_cms_update k) x) fs' G' os' D = steps v fs G os x fs' G' os' D"
  "steps v fs G os (x\<lparr>sh_queue := q\<rparr>) fs' G' os' D = steps v fs G os x fs' G' os' D"
  by (rule steps_cong; simp)+

lemma aux_counters [simp]:
  "aux (upd_stripe (st_admissions_update h) v) = st_admissions_update h (aux v)"
  "aux (upd_stripe (st_rejections_update h) v) = st_rejections_update h (aux v)"
  "aux (upd_stripe (st_evictions_update h) v) = st_evictions_update h (aux v)"
  "aux (upd_stripe (st_hits_update h) v) = st_hits_update h (aux v)"
  "aux (upd_stripe (st_misses_update h) v) = st_misses_update h (aux v)"
  "aux (upd_stripe (st_cms_update k) v) = st_cms_update k (aux v)"
  "aux (index_erase key v) = aux v"
  by (simp_all add: aux_def index_erase_def)

lemma admit_ix:
  assumes rep: "shard_rep w fs G [c]"
  shows "oks (admit_candidate c w) (\<lambda>v'. steps w fs G [c] v' fs (G(Prob := c # G Prob)) [] {} \<and>
           aux v' = (aux w)\<lparr>st_admissions := st_admissions (aux w) + 1\<rparr> \<and> sh_queue v' = sh_queue w)"
  unfolding admit_candidate_def oks_bind
proof (rule oks_mono [OF st_tag [OF rep]])
  fix w' assume w': "moves w fs G [c] w' fs G [c] {} \<and> n_segment (node_at (sh_slab w') c) = segment_code Probation"
  then have rep': "shard_rep w' fs G [c]" by (simp add: moves_def)
  show "oks (on_lru Prob (lru_push_front c) w') (\<lambda>x. oks (Some (upd_stripe (\<lambda>st. st\<lparr>st_admissions := st_admissions st + 1\<rparr>) x))
      (\<lambda>v'. steps w fs G [c] v' fs (G(Prob := c # G Prob)) [] {} \<and>
           aux v' = (aux w)\<lparr>st_admissions := st_admissions (aux w) + 1\<rparr> \<and> sh_queue v' = sh_queue w))"
  proof (rule oks_mono [OF st_push [OF rep', where g = Prob]])
    fix x assume x: "moves w' fs G [c] x fs (G(Prob := c # G Prob)) [] {}"
    have "moves w fs G [c] x fs (G(Prob := c # G Prob)) [] {}"
      using moves_trans0 [OF _ x] w' by blast
    then show "oks (Some (upd_stripe (\<lambda>st. st\<lparr>st_admissions := st_admissions st + 1\<rparr>) x))
      (\<lambda>v'. steps w fs G [c] v' fs (G(Prob := c # G Prob)) [] {} \<and>
           aux v' = (aux w)\<lparr>st_admissions := st_admissions (aux w) + 1\<rparr> \<and> sh_queue v' = sh_queue w)"
      by (simp add: moves_steps aux_sym)
  qed (use w' in simp)
qed simp

lemma reject_ix:
  assumes rep: "shard_rep w fs G [c]"
  shows "oks (reject_candidate c (node_at (sh_slab w) c) w) (\<lambda>v'. steps w fs G [c] v' (c # fs) G [] {c} \<and>
           aux v' = (aux w)\<lparr>st_rejections := st_rejections (aux w) + 1\<rparr> \<and> sh_queue v' = sh_queue w)"
proof -
  have "shard_deallocate c (index_erase (nkey w c) w) =
      map_option (\<lambda>s. index_erase (nkey w c) (w\<lparr>sh_slab := s\<rparr>)) (slab_deallocate c (sh_slab w))"
    by (cases "slab_deallocate c (sh_slab w)") (simp_all add: shard_deallocate_def index_erase_def)
  then show ?thesis
    using st_drop [OF rep]
    by (auto simp: reject_candidate_def moves_steps aux_sym elim!: oksE)
qed

definition pushed :: "demotion_item \<Rightarrow> dqueue \<Rightarrow> dqueue" where
  "pushed item q = (case dq_try_push item q of Some (_, q') \<Rightarrow> q' | None \<Rightarrow> q)"

lemma pushed_ok:
  assumes "dq_inv q"
  shows "dq_try_push item q = Some (length (dq_items q) < dq_limit q, pushed item q)"
    and "dq_inv (pushed item q)" and "q_capacity (pushed item q) = q_capacity q"
    and "dq_items (pushed item q) = (if length (dq_items q) < dq_limit q then dq_items q @ [item] else dq_items q)"
    and "q_drops (pushed item q) = (if length (dq_items q) < dq_limit q then q_drops q else q_drops q + 1)"
  using dq_try_push_ok [OF assms, of item] by (auto simp: pushed_def elim!: oksE)

definition victim_item :: "hash32 \<Rightarrow> shard \<Rightarrow> u32 \<Rightarrow> demotion_item" where
  "victim_item h32 v i = \<lparr>di_key = nkey v i, di_value = nval v i,
     di_frequency = cms_val h32 (st_cms (sh_stripe v)) (nkey v i)\<rparr>"

definition demoted :: "hash32 \<Rightarrow> shard \<Rightarrow> u32 \<Rightarrow> dqueue" where
  "demoted h32 v i = (if st_demotion_queue (sh_stripe v) then pushed (victim_item h32 v i) (sh_queue v) else sh_queue v)"

lemma demote_ix:
  assumes rep: "shard_rep w fs G (i # os)" and ok: "cms_ok (st_cms (sh_stripe w))" "dq_inv (sh_queue w)"
  shows "oks (demote_victim h32 i w) (\<lambda>v'. steps w fs G (i # os) v' (i # fs) G os {i} \<and>
           aux v' = (aux w)\<lparr>st_evictions := st_evictions (aux w) + 1\<rparr> \<and> sh_queue v' = demoted h32 w i)"
proof -
  have node: "shard_node w i = Some (node_at (sh_slab w) i)"
    by (rule shard_rep_node [OF rep]) (simp add: foot_def)
  have drop: "shard_deallocate i (index_erase (nkey w i) w) =
      map_option (\<lambda>s. index_erase (nkey w i) (w\<lparr>sh_slab := s\<rparr>)) (slab_deallocate i (sh_slab w))"
    by (cases "slab_deallocate i (sh_slab w)") (simp_all add: shard_deallocate_def index_erase_def)
  have fields: "sh_queue (index_erase k u) = sh_queue u" "st_cms (sh_stripe (index_erase k u)) = st_cms (sh_stripe u)"
    "st_demotion_queue (sh_stripe (index_erase k u)) = st_demotion_queue (sh_stripe u)" for k u
    by (simp_all add: index_erase_def)
  have "oks (slab_deallocate i (sh_slab w)) (\<lambda>s. steps w fs G (i # os) (index_erase (nkey w i) (w\<lparr>sh_slab := s\<rparr>)) (i # fs) G os {i} \<and>
      aux (index_erase (nkey w i) (w\<lparr>sh_slab := s\<rparr>)) = aux w)"
    using st_drop [OF rep] by (auto simp: moves_steps elim!: oks_mono)
  then show ?thesis
    using ok unfolding demote_victim_def node
    by (auto simp: drop fields pushed_ok(1) cms_estimate_val demoted_def victim_item_def
        aux_sym elim!: oksE)
qed

text \<open>What the bookkeeping of an admission does, by its outcome.\<close>

definition booked :: "hash32 \<Rightarrow> shard \<Rightarrow> u32 list \<Rightarrow> u32 outcome \<Rightarrow> shard \<Rightarrow> u32 list \<Rightarrow> bool" where
  "booked h32 v fs out v' fs' \<longleftrightarrow>
     (case out of
        Idle \<Rightarrow> fs' = fs \<and> aux v' = aux v \<and> sh_queue v' = sh_queue v
      | Admitted \<Rightarrow> fs' = fs \<and> aux v' = (aux v)\<lparr>st_admissions := st_admissions (aux v) + 1\<rparr> \<and> sh_queue v' = sh_queue v
      | Rejected i \<Rightarrow> fs' = i # fs \<and> aux v' = (aux v)\<lparr>st_rejections := st_rejections (aux v) + 1\<rparr> \<and> sh_queue v' = sh_queue v
      | Replaced i \<Rightarrow> fs' = i # fs \<and> aux v' = (aux v)\<lparr>st_evictions := st_evictions (aux v) + 1,
          st_admissions := st_admissions (aux v) + 1\<rparr> \<and> sh_queue v' = demoted h32 v i)"

lemma moves_data:
  assumes "moves v fs G os w fs' G' os' {}"
  shows "nkey w i = nkey v i" and "nval w i = nval v i"
  using assms by (auto simp: moves_def changes_def)

lemma booked_moves:
  assumes "moves v fs G os w fs' G' os' {}"
  shows "booked h32 w fs out v' fs'' = booked h32 v fs out v' fs''"
proof -
  have "aux w = aux v" "sh_queue w = sh_queue v" "demoted h32 w = demoted h32 v"
    using moves_data [OF assms] moves_stripe [OF assms] assms
    by (auto simp: moves_def demoted_def victim_item_def fun_eq_iff)
  then show ?thesis by (simp add: booked_def split: outcome.split)
qed

lemma replace_ix:
  assumes rep: "shard_rep w fs G [c]" and xs: "G Prob = xs @ [i]"
    and ok: "cms_ok (st_cms (sh_stripe w))" "dq_inv (sh_queue w)"
  shows "oks (do { (_, v) \<leftarrow> pop_lru Prob w; v \<leftarrow> demote_victim h32 i v; admit_candidate c v })
           (\<lambda>v'. steps w fs G [c] v' (i # fs) (G(Prob := c # xs)) [] {i} \<and> booked h32 w fs (Replaced i) v' (i # fs))"
proof (rule oks_bindI [OF st_pop [OF rep xs]], clarify)
  fix u assume u: "moves w fs G [c] u fs (G(Prob := xs)) [i, c] {}"
  have oku: "cms_ok (st_cms (sh_stripe u))" "dq_inv (sh_queue u)"
    using ok moves_stripe [OF u] by simp_all
  have dem: "demoted h32 u i = demoted h32 w i"
    using moves_data [OF u] moves_stripe [OF u] by (simp add: demoted_def victim_item_def)
  show "oks (do { v \<leftarrow> demote_victim h32 i u; admit_candidate c v })
           (\<lambda>v'. steps w fs G [c] v' (i # fs) (G(Prob := c # xs)) [] {i} \<and> booked h32 w fs (Replaced i) v' (i # fs))"
  proof (rule oks_bindI [OF demote_ix [OF moves_rep [OF u] oku]], elim conjE)
    fix u' assume u': "steps u fs (G(Prob := xs)) [i, c] u' (i # fs) (G(Prob := xs)) [c] {i}"
      and a: "aux u' = (aux u)\<lparr>st_evictions := st_evictions (aux u) + 1\<rparr>" "sh_queue u' = demoted h32 u i"
    have wu: "steps w fs G [c] u' (i # fs) (G(Prob := xs)) [c] {i}"
      using u u' by (auto simp: moves_steps elim: steps_trans)
    show "oks (admit_candidate c u')
        (\<lambda>v'. steps w fs G [c] v' (i # fs) (G(Prob := c # xs)) [] {i} \<and> booked h32 w fs (Replaced i) v' (i # fs))"
      by (rule oks_mono [OF admit_ix [OF steps_rep [OF u']]])
        (use wu u a dem in \<open>auto simp: moves_steps booked_def intro: steps_trans\<close>)
  qed
qed

lemma judge_ix:
  fixes h32 :: hash32
  assumes rep: "shard_rep w fs G [c]" and ok: "cms_ok (st_cms (sh_stripe w))" "dq_inv (sh_queue w)"
  defines "r \<equiv> t_judge (unat (st_main_capacity (sh_stripe w))) (\<lambda>i. cms_val h32 (st_cms (sh_stripe w)) (nkey w i)) c G"
  shows "oks (do {
       candidate \<leftarrow> shard_node w c;
       let main_size = lru_size_of Prob w + lru_size_of Prot w;
       if main_size < st_main_capacity (sh_stripe w) then admit_candidate c w
       else if lru_empty (st_probation (sh_stripe w)) then reject_candidate c candidate w
       else do {
         let victim_idx = lru_peek_back (st_probation (sh_stripe w));
         victim \<leftarrow> shard_node w victim_idx;
         candidate_freq \<leftarrow> cms_estimate h32 (st_cms (sh_stripe w)) (n_key candidate);
         victim_freq \<leftarrow> cms_estimate h32 (st_cms (sh_stripe w)) (n_key victim);
         if candidate_freq > victim_freq
         then do {
           (_, v) \<leftarrow> pop_lru Prob w;
           v \<leftarrow> demote_victim h32 victim_idx v;
           admit_candidate c v
         }
         else reject_candidate c candidate w
       }
     }) (\<lambda>v'. \<exists>fs'. steps w fs G [c] v' fs' (fst r) [] (set fs') \<and> booked h32 w fs (snd r) v' fs')"
proof -
  have node: "shard_node w c = Some (node_at (sh_slab w) c)"
    by (rule shard_rep_node [OF rep]) (simp add: foot_def)
  have sz: "lru_size_of Prob w + lru_size_of Prot w < st_main_capacity (sh_stripe w) \<longleftrightarrow>
      length (G Prob) + length (G Prot) < unat (st_main_capacity (sh_stripe w))"
    using main_size_len [OF rep] by (simp add: word_less_nat_alt main_len_def)
  have pr: "lru_rep (sh_slab w) (st_probation (sh_stripe w)) (G Prob)"
    using shard_rep_list(1) [OF rep, of Prob] by simp
  note reject = oks_mono [OF reject_ix [OF rep]]
  show ?thesis
  proof (cases "G Prob = []")
    case True
    then show ?thesis
      using sz lru_size_empty [OF pr]
      by (auto simp: node r_def t_judge_def booked_def intro!: oks_mono [OF admit_ix [OF rep]] reject
          elim: steps_mono)
  next
    case False
    then obtain xs i where xs: "G Prob = xs @ [i]" by (metis append_butlast_last_id)
    have peek: "lru_peek_back (st_probation (sh_stripe w)) = i"
      using lru_peek_back_last [OF pr] xs by simp
    have nodei: "shard_node w i = Some (node_at (sh_slab w) i)"
      using xs by (intro shard_rep_node [OF rep] foot_list [of i G Prob]) simp
    show ?thesis
    proof (cases "length (G Prob) + length (G Prot) < unat (st_main_capacity (sh_stripe w))")
      case True
      then show ?thesis
        using sz by (auto simp: node r_def t_judge_def Let_def booked_def
            intro!: oks_mono [OF admit_ix [OF rep]] elim: steps_mono)
    next
      case big: False
      have ne: "\<not> lru_empty (st_probation (sh_stripe w))" using lru_size_empty [OF pr] False by simp
      have replace: "oks (do { (_, v) \<leftarrow> pop_lru Prob w; v \<leftarrow> demote_victim h32 i v; admit_candidate c v })
          (\<lambda>v'. \<exists>fs'. steps w fs G [c] v' fs' (G(Prob := c # xs)) [] (set fs') \<and> booked h32 w fs (Replaced i) v' fs')"
        by (rule oks_mono [OF replace_ix [OF rep xs ok]]) (auto intro!: exI [of _ "i # fs"] elim: steps_mono)
      have rej: "oks (reject_candidate c (node_at (sh_slab w) c) w)
          (\<lambda>v'. \<exists>fs'. steps w fs G [c] v' fs' G [] (set fs') \<and> booked h32 w fs (Rejected c) v' fs')"
        by (rule reject) (auto simp: booked_def elim: steps_mono)
      show ?thesis
        using sz big ne replace rej False
        by (simp add: node nodei peek cms_estimate_val ok(1) r_def t_judge_def Let_def xs not_le [symmetric] del: oks_bind)
    qed
  qed
qed

lemma admit_from_window_ix:
  fixes h32 :: hash32
  assumes rep: "shard_rep v fs G []" and ok: "cms_ok (st_cms (sh_stripe v))" "dq_inv (sh_queue v)"
  defines "r \<equiv> t_admit (unat (st_main_capacity (sh_stripe v))) (\<lambda>i. cms_val h32 (st_cms (sh_stripe v)) (nkey v i)) G"
  shows "oks (try_admit_from_window h32 v) (\<lambda>v'. \<exists>fs'. steps v fs G [] v' fs' (fst r) [] (set fs') \<and>
           booked h32 v fs (snd r) v' fs')"
proof (cases "G Win = []")
  case True
  then show ?thesis
    using st_pop_Nil [OF rep] steps_refl [OF rep, of "set fs"]
    by (simp add: try_admit_from_window_def r_def t_admit_def booked_def)
next
  case False
  then obtain xs c where xs: "G Win = xs @ [c]" by (metis append_butlast_last_id)
  have c: "c \<noteq> kInvalidIndex"
    using xs by (intro less_invalid [OF shard_rep_bound [OF rep foot_list [of c G Win]]]) simp
  let ?r = "\<lambda>w. t_judge (unat (st_main_capacity (sh_stripe w))) (\<lambda>i. cms_val h32 (st_cms (sh_stripe w)) (nkey w i)) c (G(Win := xs))"
  have ok': "cms_ok (st_cms (sh_stripe w))" "dq_inv (sh_queue w)" and r: "r = ?r w"
    if "moves v fs G [] w fs (G(Win := xs)) [c] {}" for w
    using ok moves_data [OF that] moves_stripe [OF that] by (simp_all add: r_def t_admit_def xs)
  have fin: "\<exists>fs'. steps v fs G [] v' fs' (fst r) [] (set fs') \<and> booked h32 v fs (snd r) v' fs'"
    if w: "moves v fs G [] w fs (G(Win := xs)) [c] {}"
      and "\<exists>fs'. steps w fs (G(Win := xs)) [c] v' fs' (fst (?r w)) [] (set fs') \<and> booked h32 w fs (snd (?r w)) v' fs'" for w v'
    using that booked_moves [OF w] r [OF w] by (auto simp: moves_steps elim: steps_trans)
  show ?thesis
    unfolding try_admit_from_window_def
    by (rule oks_bindI [OF st_pop [OF rep xs]], clarify, unfold if_not_P [OF c] prod.case)
      (rule oks_mono [OF judge_ix [OF moves_rep]]; use fin ok' in blast)
qed

section \<open>The policy a stripe implements\<close>

definition entry_of :: "shard \<Rightarrow> u32 \<Rightarrow> entry" where
  "entry_of v i = (nkey v i, nval v i)"

definition policy_of :: "shard \<Rightarrow> u32 list \<Rightarrow> u32 tiers \<Rightarrow> policy" where
  "policy_of v fs G = \<lparr>p_tiers = t_map (entry_of v) G, p_stripe = aux v, p_free = length fs,
     p_queue = dq_items (sh_queue v), p_limit = dq_limit (sh_queue v), p_drops = q_drops (sh_queue v)\<rparr>"

definition shard_ok :: "shard \<Rightarrow> u32 list \<Rightarrow> u32 tiers \<Rightarrow> bool" where
  "shard_ok v fs G \<longleftrightarrow> shard_rep v fs G [] \<and> cms_ok (st_cms (sh_stripe v)) \<and> dq_inv (sh_queue v)"

text \<open>\<open>implements v F p\<close>: the shard is well-formed, its free nodes and its own nodes are \<open>F\<close>, and it
  holds what the policy state \<open>p\<close> holds.\<close>

definition implements :: "shard \<Rightarrow> u32 set \<Rightarrow> policy \<Rightarrow> bool" where
  "implements v F p \<longleftrightarrow> (\<exists>fs G. shard_ok v fs G \<and> foot fs G [] = F \<and> p = policy_of v fs G)"

lemma policy_of_fields [simp]:
  "p_tiers (policy_of v fs G) = t_map (entry_of v) G" "p_stripe (policy_of v fs G) = aux v"
  "p_free (policy_of v fs G) = length fs" "p_queue (policy_of v fs G) = dq_items (sh_queue v)"
  "p_limit (policy_of v fs G) = dq_limit (sh_queue v)" "p_drops (policy_of v fs G) = q_drops (sh_queue v)"
  by (simp_all add: policy_of_def)

lemma t_map_cong: "(\<And>i. i \<in> owned G \<Longrightarrow> f i = g i) \<Longrightarrow> t_map f G = t_map g G"
  by (auto simp: t_map_def fun_eq_iff)

lemma steps_entries:
  assumes "steps v fs G os v' fs' G' os' D" and "D \<inter> owned G' = {}"
  shows "t_map (entry_of v') G' = t_map (entry_of v) G'"
proof (rule t_map_cong)
  fix i assume "i \<in> owned G'"
  then have "i \<notin> D" using assms(2) by blast
  then show "entry_of v' i = entry_of v i"
    using assms(1) by (simp add: steps_def changes_def entry_of_def)
qed

lemma steps_free_owned: "steps v fs G os v' fs' G' os' D \<Longrightarrow> set fs' \<inter> owned G' = {}"
  by (auto simp: steps_def shard_rep_def owned_def)

lemma dq_limit_capacity: "q_capacity q' = q_capacity q \<Longrightarrow> dq_limit q' = dq_limit q"
  by (simp add: dq_limit_def)

lemma demoted_ok:
  assumes "dq_inv (sh_queue v)"
  shows "dq_inv (demoted h32 v i)" and "dq_limit (demoted h32 v i) = dq_limit (sh_queue v)"
  using assms pushed_ok [OF assms, of "victim_item h32 v i"] by (auto simp: demoted_def intro: dq_limit_capacity)

lemma booked_account:
  assumes "booked h32 v fs out v' fs'" and "dq_inv (sh_queue v)"
    and "t_map (entry_of v') G' = t_map (entry_of v) G'"
  shows "policy_of v' fs' G' =
           p_account h32 (map_outcome (entry_of v) out) ((policy_of v fs G)\<lparr>p_tiers := t_map (entry_of v) G'\<rparr>)"
proof (cases out)
  case (Replaced i)
  let ?item = "victim_item h32 v i"
  have "dq_items (demoted h32 v i) = (if st_demotion_queue (sh_stripe v) \<and> length (dq_items (sh_queue v)) < dq_limit (sh_queue v)
          then dq_items (sh_queue v) @ [?item] else dq_items (sh_queue v))"
    and "q_drops (demoted h32 v i) = (if st_demotion_queue (sh_stripe v) \<and> \<not> length (dq_items (sh_queue v)) < dq_limit (sh_queue v)
          then q_drops (sh_queue v) + 1 else q_drops (sh_queue v))"
    using pushed_ok(4,5) [OF assms(2), of ?item] by (simp_all add: demoted_def)
  moreover have "p_freq h32 (policy_of v fs G\<lparr>p_tiers := T\<rparr>) k = cms_val h32 (st_cms (sh_stripe v)) k" for T k
    by (simp add: p_freq_def aux_fields)
  ultimately show ?thesis
    using assms Replaced demoted_ok(2) [OF assms(2)]
    by (simp add: booked_def p_account_def p_demote_def p_push_def p_admitted_def policy_of_def Let_def
        victim_item_def entry_of_def aux_fields)
qed (use assms in \<open>simp_all add: booked_def p_account_def p_admitted_def p_rejected_def policy_of_def\<close>)

lemma booked_ok:
  assumes "booked h32 v fs out v' fs'" and "dq_inv (sh_queue v)"
  shows "dq_inv (sh_queue v')" and "st_cms (sh_stripe v') = st_cms (sh_stripe v)"
    and "st_window_capacity (sh_stripe v') = st_window_capacity (sh_stripe v)"
  using assms demoted_ok(1) [OF assms(2)]
  by (auto simp: booked_def aux_sym split: outcome.splits)

lemma steps_outside: "steps v fs G os v' fs' G' os' D \<Longrightarrow> changes v v' (foot fs G os) UNIV"
  by (simp add: steps_def changes_def)

lemma admit_implements:
  assumes "implements v F p"
  shows "oks (try_admit_from_window h32 v) (\<lambda>v'. implements v' F (p_admit h32 p) \<and> changes v v' F UNIV)"
proof -
  obtain fs G where v: "shard_rep v fs G []" "cms_ok (st_cms (sh_stripe v))" "dq_inv (sh_queue v)"
      and F: "foot fs G [] = F" and p: "p = policy_of v fs G"
    using assms by (auto simp: implements_def shard_ok_def)
  let ?r = "t_admit (unat (st_main_capacity (sh_stripe v))) (\<lambda>i. cms_val h32 (st_cms (sh_stripe v)) (nkey v i)) G"
  have r: "t_admit (unat (st_main_capacity (aux v))) (p_freq h32 p \<circ> fst) (t_map (entry_of v) G) =
      (t_map (entry_of v) (fst ?r), map_outcome (entry_of v) (snd ?r))"
    unfolding t_admit_map by (simp add: p p_freq_def entry_of_def aux_fields comp_def case_prod_beta)
  show ?thesis
  proof (rule oks_mono [OF admit_from_window_ix [OF v]], elim exE conjE)
    fix v' fs' assume s: "steps v fs G [] v' fs' (fst ?r) [] (set fs')" and b: "booked h32 v fs (snd ?r) v' fs'"
    have e: "t_map (entry_of v') (fst ?r) = t_map (entry_of v) (fst ?r)"
      by (rule steps_entries [OF s steps_free_owned [OF s]])
    have "policy_of v' fs' (fst ?r) = p_admit h32 p"
      using booked_account [OF b v(3) e] r by (simp add: p_admit_def p)
    moreover have "shard_ok v' fs' (fst ?r)"
      using s v booked_ok [OF b v(3)] by (simp add: shard_ok_def steps_def)
    moreover have "foot fs' (fst ?r) [] = F" using s F by (simp add: steps_def)
    ultimately show "implements v' F (p_admit h32 p) \<and> changes v v' F UNIV"
      using steps_outside [OF s] F unfolding implements_def by metis
  qed
qed

section \<open>The public operations\<close>

text \<open>One round of the loop in \<open>insert_into_window\<close> per element beyond the window's capacity.\<close>

lemma p_admit_window:
  "p_tiers (p_admit h32 p) Win = butlast (p_tiers p Win)"
  "st_window_capacity (p_stripe (p_admit h32 p)) = st_window_capacity (p_stripe p)"
  by (auto simp: p_admit_def t_admit_def t_judge_def p_account_def p_admitted_def p_rejected_def p_demote_def
      p_push_def Let_def)

lemma implements_window:
  assumes "implements v F p"
  shows "lru_size_of Win v > st_window_capacity (sh_stripe v) \<longleftrightarrow> 0 < p_overflow p"
proof -
  obtain fs G where "shard_rep v fs G []" and p: "p = policy_of v fs G"
    using assms by (auto simp: implements_def shard_ok_def)
  then have "unat (lru_size_of Win v) = length (G Win)" using lru_size_of_len by blast
  then show ?thesis by (simp add: p p_overflow_def word_less_nat_alt aux_fields)
qed

lemma admit_loop_implements:
  "implements v F p \<Longrightarrow>
   oks (admit_loop h32 v) (\<lambda>v'. implements v' F ((p_admit h32 ^^ p_overflow p) p) \<and> changes v v' F UNIV)"
proof (induction "p_overflow p" arbitrary: v p)
  case 0
  then show ?case using implements_window [OF 0(2)] by (simp add: admit_loop.simps [of h32 v])
next
  case (Suc n)
  have n: "n = p_overflow (p_admit h32 p)"
    using Suc.hyps(2) by (simp add: p_overflow_def p_admit_window)
  have "oks (admit_loop h32 w) (\<lambda>v'. implements v' F ((p_admit h32 ^^ p_overflow p) p) \<and> changes v v' F UNIV)"
    if w: "implements w F (p_admit h32 p)" and c: "changes v w F UNIV" for w
    by (rule oks_mono [OF Suc.hyps(1) [OF n w]])
      (auto simp: Suc.hyps(2) [symmetric] n [symmetric] funpow_swap1 intro: changes_trans [OF c])
  then show ?case
    using implements_window [OF Suc.prems] Suc.hyps(2) admit_implements [OF Suc.prems, of h32]
    by (auto simp: admit_loop.simps [of h32 v] elim!: oks_mono)
qed

text \<open>The key index and the policy's lookup.\<close>

lemma shard_rep_disj: "shard_rep v fs G os \<Longrightarrow> g \<noteq> h \<Longrightarrow> set (G g) \<inter> set (G h) = {}"
  by (simp add: shard_rep_def)

lemma entries_distinct:
  assumes "shard_rep v fs G []"
  shows "distinct (map fst (t_all (t_map (entry_of v) G)))"
proof -
  have "distinct (t_all G)"
    using shard_rep_list(2) [OF assms] shard_rep_disj [OF assms, of Win Prob] shard_rep_disj [OF assms, of Win Prot]
      shard_rep_disj [OF assms, of Prob Prot]
    by (simp add: t_all_def Int_Un_distrib)
  moreover have "inj_on (nkey v) (set (t_all G))"
    using shard_rep_index [OF assms] by (auto simp: inj_on_def set_t_all) (metis option.inject)
  ultimately show ?thesis by (simp add: t_all_map distinct_map comp_def entry_of_def)
qed

lemma lookup_index:
  assumes rep: "shard_rep v fs G []"
  shows "p_lookup (policy_of v fs G) key = map_option (nval v) (st_index_map (sh_stripe v) key)"
proof (cases "st_index_map (sh_stripe v) key")
  case None
  then have "nkey v i \<noteq> key" if "i \<in> set (G g)" for i g
    using shard_rep_index [OF rep, of key i] that by auto
  then have "key \<notin> fst ` set (t_all (t_map (entry_of v) G))"
    by (fastforce simp: t_all_map set_t_all entry_of_def)
  then show ?thesis using None by (simp add: p_lookup_def map_of_eq_None_iff)
next
  case (Some i)
  then have "i \<in> owned G" "nkey v i = key" using shard_rep_index [OF rep] by auto
  then have "(key, nval v i) \<in> set (t_all (t_map (entry_of v) G))"
    by (auto simp: t_all_map set_t_all entry_of_def image_iff)
  then show ?thesis using Some entries_distinct [OF rep] by (simp add: p_lookup_def)
qed

lemma index_pred:
  assumes "shard_rep v fs G []" and "st_index_map (sh_stripe v) key = Some i" and "j \<in> set (G g)"
  shows "j = i \<longleftrightarrow> fst (entry_of v j) = key"
  using shard_rep_index [OF assms(1), of key i] shard_rep_index [OF assms(1), of key j] assms(2,3)
  by (auto simp: entry_of_def)

text \<open>A hit.\<close>

lemma touch_implements:
  assumes v: "shard_ok v fs G" and i: "st_index_map (sh_stripe v) key = Some i"
  shows "oks (touch i v) (\<lambda>v'. \<exists>G'. shard_ok v' fs G' \<and> moves v fs G [] v' fs G' [] {} \<and>
           policy_of v' fs G' = p_touch key (policy_of v fs G))"
proof -
  have rep: "shard_rep v fs G []" using v by (simp add: shard_ok_def)
  let ?G = "t_touch (unat (st_protected_capacity (sh_stripe v))) (\<lambda>j. j = i) G"
  have io: "i \<in> owned G" using shard_rep_index [OF rep] i by auto
  have G: "?G = t_touch (unat (st_protected_capacity (sh_stripe v))) ((\<lambda>e. fst e = key) \<circ> entry_of v) G"
    by (rule t_touch_cong) (use index_pred [OF rep i] in simp)
  show ?thesis
  proof (rule oks_mono [OF touch_ix [OF rep io]])
    fix v' assume m: "moves v fs G [] v' fs ?G [] {}"
    have e: "t_map (entry_of v') ?G = t_map (entry_of v) ?G"
      using m by (intro steps_entries [of v fs G "[]" v' fs ?G "[]" "{}"]) (simp_all add: moves_steps)
    have "policy_of v' fs ?G = p_touch key (policy_of v fs G)"
      using m e by (simp add: policy_of_def p_touch_def moves_def t_touch_map aux_fields flip: G)
    moreover have "shard_ok v' fs ?G"
      using v m moves_stripe [OF m] by (simp add: shard_ok_def moves_def)
    ultimately show "\<exists>G'. shard_ok v' fs G' \<and> moves v fs G [] v' fs G' [] {} \<and>
           policy_of v' fs G' = p_touch key (policy_of v fs G)"
      using m by blast
  qed
qed

lemma shard_ok_cong:
  assumes "sh_slab w = sh_slab v" "\<And>g. get_lru g (sh_stripe w) = get_lru g (sh_stripe v)"
    and "st_index_map (sh_stripe w) = st_index_map (sh_stripe v)" and "sh_queue w = sh_queue v"
    and "cms_ok (st_cms (sh_stripe w))" and "shard_ok v fs G"
  shows "shard_ok w fs G"
  using assms shard_rep_cong [OF assms(1-3)] by (simp add: shard_ok_def)

lemma policy_of_cong:
  "sh_slab w = sh_slab v \<Longrightarrow> sh_queue w = sh_queue v \<Longrightarrow>
   policy_of w fs G = (policy_of v fs G)\<lparr>p_stripe := aux w\<rparr>"
  by (auto simp: policy_of_def entry_of_def t_map_def)

lemma policy_of_stripe:
  "policy_of (u\<lparr>sh_stripe := s\<rparr>) fs G = (policy_of u fs G)\<lparr>p_stripe := aux (u\<lparr>sh_stripe := s\<rparr>)\<rparr>"
  by (rule policy_of_cong) simp_all

lemma count_implements:
  assumes v: "shard_ok v fs G"
  shows "oks (count_access h32 key v) (\<lambda>w. shard_ok w fs G \<and> policy_of w fs G = p_count h32 key (policy_of v fs G) \<and>
           sh_slab w = sh_slab v \<and> st_index_map (sh_stripe w) = st_index_map (sh_stripe v))"
proof -
  have "cms_ok (st_cms (sh_stripe v))" using v by (simp add: shard_ok_def)
  then obtain c where c: "cms_increment h32 key (st_cms (sh_stripe v)) = Some c" "cms_ok c"
    using cms_increment_ok by (blast elim: oksE)
  let ?w = "upd_stripe (\<lambda>st. st\<lparr>st_cms := c\<rparr>) v"
  have "shard_ok ?w fs G" by (rule shard_ok_cong [OF _ _ _ _ _ v]) (simp_all add: c)
  moreover have "policy_of ?w fs G = p_count h32 key (policy_of v fs G)"
    by (simp add: policy_of_stripe p_count_def c aux_fields)
  ultimately show ?thesis by (simp add: count_access_def c)
qed

lemma tick_implements:
  assumes v: "shard_ok v fs G"
  shows "shard_ok (maybe_decay_cms v) fs G \<and> policy_of (maybe_decay_cms v) fs G = p_tick (policy_of v fs G) \<and>
    sh_slab (maybe_decay_cms v) = sh_slab v \<and> st_index_map (sh_stripe (maybe_decay_cms v)) = st_index_map (sh_stripe v)"
proof -
  let ?w = "maybe_decay_cms v"
  have s: "sh_slab ?w = sh_slab v" "sh_queue ?w = sh_queue v"
      "st_index_map (sh_stripe ?w) = st_index_map (sh_stripe v)"
    by (auto simp: maybe_decay_cms_def Let_def)
  have "shard_ok ?w fs G"
    by (rule shard_ok_cong [OF s(1) _ s(3,2) _ v])
      (use v in \<open>auto simp: maybe_decay_cms_def Let_def shard_ok_def cms_decay_ok\<close>)
  moreover have "aux ?w = p_stripe (p_tick (policy_of v fs G))"
    by (simp add: maybe_decay_cms_def p_tick_def Let_def aux_def)
  ultimately show ?thesis
    by (simp add: s policy_of_cong [OF s(1,2)] p_tick_def Let_def)
qed

lemma changes_sub: "changes v v' T D \<Longrightarrow> changes v v' T UNIV"
  by (simp add: changes_def)

lemma changes_slab: "sh_slab w = sh_slab v \<Longrightarrow> changes w v' T D = changes v v' T D"
  by (simp add: changes_def)

lemma implementsI: "shard_ok v fs G \<Longrightarrow> implements v (foot fs G []) (policy_of v fs G)"
  by (auto simp: implements_def)

lemma stripe_get_implements:
  assumes "implements v F p"
  shows "oks (stripe_get h32 key v) (\<lambda>(r, v'). r = fst (p_get h32 key p) \<and> implements v' F (snd (p_get h32 key p)) \<and>
           changes v v' F UNIV)"
proof -
  obtain fs G where v: "shard_ok v fs G" and F: "F = foot fs G []" and p: "p = policy_of v fs G"
    using assms by (auto simp: implements_def)
  have rep: "shard_rep v fs G []" using v by (simp add: shard_ok_def)
  note lookup = lookup_index [OF rep, of key, folded p]
  show ?thesis
  proof (cases "st_index_map (sh_stripe v) key")
    case None
    let ?w = "upd_stripe (\<lambda>st. st\<lparr>st_misses := st_misses st + 1\<rparr>) v"
    have "shard_ok ?w fs G" by (rule shard_ok_cong [OF _ _ _ _ _ v]) (use v in \<open>simp_all add: shard_ok_def\<close>)
    from implementsI [OF this] show ?thesis
      using None lookup by (simp add: stripe_get_def p_get_def p F policy_of_stripe aux_fields changes_def)
  next
    case (Some i)
    show ?thesis
      unfolding stripe_get_def Some option.case
    proof (rule oks_bindI [OF count_implements [OF v]], elim conjE, rule oks_bindI [OF touch_implements])
      fix w assume w: "shard_ok w fs G" "policy_of w fs G = p_count h32 key (policy_of v fs G)"
        "sh_slab w = sh_slab v" "st_index_map (sh_stripe w) = st_index_map (sh_stripe v)"
      show "shard_ok w fs G" by (rule w)
      show "st_index_map (sh_stripe w) key = Some i" using Some w(4) by simp
      fix u assume "\<exists>G'. shard_ok u fs G' \<and> moves w fs G [] u fs G' [] {} \<and>
           policy_of u fs G' = p_touch key (policy_of w fs G)"
      then obtain G' where u: "shard_ok u fs G'" "moves w fs G [] u fs G' [] {}"
        "policy_of u fs G' = p_touch key (p_count h32 key p)" by (auto simp: w p)
      let ?x = "upd_stripe (\<lambda>st. st\<lparr>st_hits := st_hits st + 1\<rparr>) u"
      have x: "shard_ok ?x fs G'" by (rule shard_ok_cong [OF _ _ _ _ _ u(1)]) (use u in \<open>simp_all add: shard_ok_def\<close>)
      have "i \<in> foot fs G []" using shard_rep_index [OF rep] Some by (auto simp: foot_def)
      then have "shard_node ?x i = Some (node_at (sh_slab u) i)"
        using x u(2) by (subst shard_rep_node [of ?x fs G' "[]"]) (auto simp: shard_ok_def moves_def)
      moreover have "nval u i = nval v i" using moves_data [OF u(2)] w(3) by simp
      moreover have "policy_of ?x fs G' = snd (p_get h32 key p)"
        using u(3) lookup Some
        by (simp add: p_get_def Let_def policy_of_stripe aux_sym flip: u(3))
      ultimately show "oks (let v = ?x in do { node \<leftarrow> shard_node v i; Some (Some (n_value node), v) })
         (\<lambda>(r, v'). r = fst (p_get h32 key p) \<and> implements v' F (snd (p_get h32 key p)) \<and> changes v v' F UNIV)"
        using implementsI [OF x] lookup Some u(2) w(3)
        by (auto simp: p_get_def moves_def F changes_def)
    qed
  qed
qed

lemma moves_ok:
  assumes "shard_ok v fs G" and "moves v fs G [] v' fs' G' [] D"
  shows "shard_ok v' fs' G'"
  using assms moves_stripe [OF assms(2)] by (simp add: shard_ok_def moves_def)

lemma moves_policy:
  assumes "moves v fs G os v' fs' G' os' D"
  shows "policy_of v' fs' G' = (policy_of v fs G)\<lparr>p_tiers := t_map (entry_of v') G', p_free := length fs'\<rparr>"
  using assms by (simp add: policy_of_def moves_def)

lemma update_implements:
  assumes v: "shard_ok v fs G" and i: "st_index_map (sh_stripe v) key = Some i"
  shows "oks (put_existing i val v) (\<lambda>(r, v'). \<not> r \<and> implements v' (foot fs G []) (p_touch key ((policy_of v fs G)\<lparr>p_tiers := t_map (set_value key val) (t_map (entry_of v) G)\<rparr>)) \<and>
          changes v v' (foot fs G []) UNIV)"
proof -
  have rep: "shard_rep v fs G []" using v by (simp add: shard_ok_def)
  have io: "i \<in> owned G" using shard_rep_index [OF rep] i by auto
  then have "i \<in> foot fs G []" by (auto simp: foot_def)
  then show ?thesis
    unfolding put_existing_def
  proof (rule oks_bindI [OF st_value [OF rep]], elim conjE)
    fix s assume m: "moves v fs G [] (v\<lparr>sh_slab := s\<rparr>) fs G [] {i}"
      and s: "\<forall>j. node_at s j = (node_at (sh_slab v) j)\<lparr>n_value := if j = i then val else nval v j\<rparr>"
    let ?u = "v\<lparr>sh_slab := s\<rparr>"
    have "t_map (entry_of ?u) G = t_map (\<lambda>j. set_value key val (entry_of v j)) G"
    proof (rule t_map_cong)
      fix j assume "j \<in> owned G"
      then show "entry_of ?u j = set_value key val (entry_of v j)"
        using index_pred [OF rep i, of j] io shard_rep_index [OF rep, of key i] i
        by (auto simp: set_value_def entry_of_def s)
    qed
    then have p: "policy_of ?u fs G = (policy_of v fs G)\<lparr>p_tiers := t_map (set_value key val) (t_map (entry_of v) G)\<rparr>"
      by (simp add: moves_policy [OF m] policy_of_def t_map_def comp_def)
    have "oks (touch i ?u) (\<lambda>v'. implements v' (foot fs G []) (p_touch key ((policy_of v fs G)\<lparr>p_tiers := t_map (set_value key val) (t_map (entry_of v) G)\<rparr>)) \<and>
          changes v v' (foot fs G []) UNIV)"
    proof (rule oks_mono [OF touch_implements [OF moves_ok [OF v m]]])
      show "st_index_map (sh_stripe ?u) key = Some i" using i by simp
      fix v' assume "\<exists>G'. shard_ok v' fs G' \<and> moves ?u fs G [] v' fs G' [] {} \<and> policy_of v' fs G' = p_touch key (policy_of ?u fs G)"
      then obtain G' where u: "shard_ok v' fs G'" "moves ?u fs G [] v' fs G' [] {}" "policy_of v' fs G' = p_touch key (policy_of ?u fs G)"
        by blast
      have f: "foot fs G' [] = foot fs G []" using u(2) by (simp add: moves_def)
      then show "implements v' (foot fs G []) (p_touch key ((policy_of v fs G)\<lparr>p_tiers := t_map (set_value key val) (t_map (entry_of v) G)\<rparr>)) \<and>
          changes v v' (foot fs G []) UNIV"
        using implementsI [OF u(1)] u(2,3) m unfolding f p [symmetric]
        by (auto simp: moves_def elim: changes_trans)
    qed
    then show "oks (do { v \<leftarrow> touch i ?u; Some (False, v) }) (\<lambda>(r, v'). \<not> r \<and> implements v' (foot fs G [])
        (p_touch key ((policy_of v fs G)\<lparr>p_tiers := t_map (set_value key val) (t_map (entry_of v) G)\<rparr>)) \<and>
        changes v v' (foot fs G []) UNIV)"
      by simp
  qed
qed

lemma insert_implements:
  assumes v: "shard_ok v (i # fs) G" and key: "st_index_map (sh_stripe v) key = None"
  shows "oks (slab_allocate (sh_slab v)) (\<lambda>(j, s). j = i \<and> i \<noteq> kInvalidIndex \<and>
    oks (slab_modify i (fill_node key val) s) (\<lambda>s'.
      oks (on_lru Win (lru_push_front i) (set_index ((st_index_map (sh_stripe v))(key \<mapsto> i)) (v\<lparr>sh_slab := s'\<rparr>)))
        (\<lambda>v'. implements v' (foot (i # fs) G []) (p_insert (key, val) (policy_of v (i # fs) G)) \<and>
          changes v v' (foot (i # fs) G []) UNIV)))"
proof -
  have rep: "shard_rep v (i # fs) G []" using v by (simp add: shard_ok_def)
  have push: "oks (on_lru Win (lru_push_front i) u)
      (\<lambda>v'. implements v' (foot (i # fs) G []) (p_insert (key, val) (policy_of v (i # fs) G)) \<and>
          changes v v' (foot (i # fs) G []) UNIV)"
    if m: "moves v (i # fs) G [] u fs G [i] {i}" and n: "nkey u i = key" "nval u i = val"
      "n_segment (node_at (sh_slab u) i) = segment_code Window" for u
  proof (rule oks_mono [OF st_push [OF moves_rep [OF m], of Win]])
    let ?G = "G(Win := i # G Win)"
    show "n_segment (node_at (sh_slab u) i) = segment_code (id_segment Win)" using n by simp
    fix v' assume p: "moves u fs G [i] v' fs ?G [] {}"
    have vm: "moves v (i # fs) G [] v' fs ?G [] {i}" using moves_trans [OF m p] by simp
    have "entry_of v' j = entry_of v j" if "j \<in> set (G g)" for j g
      using that rep vm by (auto simp: moves_def changes_def entry_of_def shard_rep_def)
    moreover have "entry_of v' i = (key, val)" using moves_data [OF p] n by (simp add: entry_of_def)
    ultimately have "t_map (entry_of v') ?G = (t_map (entry_of v) G)(Win := (key, val) # map (entry_of v) (G Win))"
      by (auto simp: t_map_def)
    then have "policy_of v' fs ?G = p_insert (key, val) (policy_of v (i # fs) G)"
      by (simp add: moves_policy [OF vm] p_insert_def)
    moreover have "foot fs ?G [] = foot (i # fs) G []" using vm by (simp add: moves_def)
    ultimately show "implements v' (foot (i # fs) G []) (p_insert (key, val) (policy_of v (i # fs) G)) \<and>
          changes v v' (foot (i # fs) G []) UNIV"
      using implementsI [OF moves_ok [OF v vm]] vm by (auto simp: moves_def changes_sub)
  qed
  show ?thesis
    by (rule oks_mono [OF st_alloc [OF rep key, of val]], clarify, intro conjI refl, assumption)
      (erule oks_mono, elim conjE, erule push, simp_all)
qed

text \<open>The public operations: each returns, computes what the policy computes, keeps the representation,
  and leaves nodes outside the footprint alone.\<close>

lemma insert_into_window_implements:
  assumes "oks (on_lru Win (lru_push_front i) v) (\<lambda>w. implements w F p \<and> changes v0 w F UNIV)"
  shows "oks (insert_into_window h32 i v)
    (\<lambda>v'. implements v' F ((p_admit h32 ^^ p_overflow p) p) \<and> changes v0 v' F UNIV)"
  unfolding insert_into_window_def
  by (rule oks_bindI [OF assms], elim conjE, rule oks_mono [OF admit_loop_implements])
    (auto elim: changes_trans)

lemma put_new_implements:
  fixes val :: string
  assumes v: "shard_ok v fs G" and key: "st_index_map (sh_stripe v) key = None"
  defines "p \<equiv> policy_of v fs G"
  defines "q \<equiv> p_insert (key, val) p"
  shows "oks (put_new h32 key val v) (\<lambda>(r, v'). r = (p_free p \<noteq> 0) \<and>
           implements v' (foot fs G []) (if p_free p = 0 then p else (p_admit h32 ^^ p_overflow q) q) \<and>
           changes v v' (foot fs G []) UNIV)"
proof (cases fs)
  case Nil
  then have "slab_allocate (sh_slab v) = Some (kInvalidIndex, sh_slab v)"
    using v slab_allocate_empty by (auto simp: shard_ok_def shard_rep_def)
  then show ?thesis using implementsI [OF v] Nil by (simp add: put_new_def p_def)
next
  case (Cons i fs')
  have sp: "oks (slab_allocate (sh_slab v)) (\<lambda>(j, s). j = i \<and> i \<noteq> kInvalidIndex \<and>
    oks (slab_modify i (fill_node key val) s) (\<lambda>s'.
      oks (insert_into_window h32 i (set_index ((st_index_map (sh_stripe v))(key \<mapsto> i)) (v\<lparr>sh_slab := s'\<rparr>)))
        (\<lambda>v'. implements v' (foot fs G []) ((p_admit h32 ^^ p_overflow q) q) \<and> changes v v' (foot fs G []) UNIV)))"
    by (rule oks_mono [OF insert_implements [OF v [unfolded Cons] key, of val]])
      (auto simp: Cons q_def p_def elim!: oks_mono intro: insert_into_window_implements)
  have free: "p_free p \<noteq> 0" by (simp add: p_def Cons)
  show ?thesis
    unfolding put_new_def
    by (rule oks_bindI [OF sp], clarify) (use free in \<open>simp add: Let_def\<close>)
qed

lemma stripe_put_implements:
  assumes "implements v F p"
  shows "oks (stripe_put h32 key val v) (\<lambda>(r, v'). r = fst (p_put h32 key val p) \<and>
           implements v' F (snd (p_put h32 key val p)) \<and> changes v v' F UNIV)"
proof -
  obtain fs G where v: "shard_ok v fs G" and F: "F = foot fs G []" and p: "p = policy_of v fs G"
    using assms by (auto simp: implements_def)
  let ?p = "p_tick (p_count h32 key p)"
  have body: "oks (case st_index_map (sh_stripe w) key of Some idx \<Rightarrow> put_existing idx val w | None \<Rightarrow> put_new h32 key val w)
      (\<lambda>(r, v'). r = fst (p_put h32 key val p) \<and> implements v' F (snd (p_put h32 key val p)) \<and> changes v v' F UNIV)"
    if w: "shard_ok w fs G" "policy_of w fs G = ?p" "sh_slab w = sh_slab v" for w
  proof -
    have rep: "shard_rep w fs G []" using w(1) by (simp add: shard_ok_def)
    note lookup = lookup_index [OF rep, of key, unfolded w(2)]
    have T: "t_map (entry_of w) G = p_tiers ?p" by (simp flip: w(2))
    show ?thesis
    proof (cases "st_index_map (sh_stripe w) key")
      case None
      then show ?thesis
        using lookup put_new_implements [OF w(1) None, of h32 val]
        by (auto simp: p_put_def Let_def F w(2) changes_slab [OF w(3)] elim!: oks_mono)
    next
      case (Some i)
      then show ?thesis
        using lookup update_implements [OF w(1) Some, of val]
        by (auto simp: p_put_def Let_def F w(2) T changes_slab [OF w(3)] elim!: oks_mono)
    qed
  qed
  show ?thesis
    unfolding stripe_put_def Let_def
    by (rule oks_bindI [OF count_implements [OF v]], rule body) (use tick_implements in \<open>auto simp: p\<close>)
qed

lemma unlink_ix:
  assumes rep: "shard_rep v fs G []" and i: "i \<in> owned G"
  shows "oks (do {
       node \<leftarrow> shard_node v i;
       case segment_of (n_segment node) of
         Some Window \<Rightarrow> on_lru Win (lru_remove i) v
       | Some Probation \<Rightarrow> on_lru Prob (lru_remove i) v
       | Some Protected \<Rightarrow> on_lru Prot (lru_remove i) v
       | _ \<Rightarrow> Some v
     }) (\<lambda>w. moves v fs G [] w fs (t_drop (\<lambda>j. j = i) G) [i] {})"
proof -
  obtain g as bs where g: "G g = as @ i # bs" using i by (auto dest: split_list)
  have out: "filter (\<lambda>j. j \<noteq> i) (G h) = G h" if "h \<noteq> g" for h
    using shard_rep_disj [OF rep that] g by (auto simp: filter_id_conv)
  have drop: "t_drop (\<lambda>j. j = i) G = G(g := as @ bs)"
    using out filter_one(2) [of as i bs] shard_rep_list(2) [OF rep, of g] g by (auto simp: t_drop_def)
  have node: "shard_node v i = Some (node_at (sh_slab v) i)"
    using g by (intro shard_rep_node [OF rep] foot_list [of i G g]) simp
  have "segment_of (n_segment (node_at (sh_slab v) i)) = Some (id_segment g)"
    using shard_rep_tag [OF rep, of i g] g by simp
  then show ?thesis
    using st_remove [OF rep g] by (cases g) (simp_all add: node drop)
qed

lemma stripe_remove_implements:
  assumes "implements v F p"
  shows "oks (stripe_remove key v) (\<lambda>(r, v'). r = fst (p_remove key p) \<and>
           implements v' F (snd (p_remove key p)) \<and> changes v v' F UNIV)"
proof -
  obtain fs G where v: "shard_ok v fs G" and F: "F = foot fs G []" and p: "p = policy_of v fs G"
    using assms by (auto simp: implements_def)
  have rep: "shard_rep v fs G []" using v by (simp add: shard_ok_def)
  note lookup = lookup_index [OF rep, of key, folded p]
  show ?thesis
  proof (cases "st_index_map (sh_stripe v) key")
    case None
    then show ?thesis using lookup assms by (simp add: stripe_remove_def p_remove_def)
  next
    case (Some i)
    have io: "i \<in> owned G" and key: "nkey v i = key" using shard_rep_index [OF rep] Some by auto
    let ?G = "t_drop (\<lambda>j. j = i) G"
    have G: "?G = t_drop ((\<lambda>e. fst e = key) \<circ> entry_of v) G"
      by (rule t_drop_cong) (use index_pred [OF rep Some] in simp)
    have fin: "oks (shard_deallocate i (index_erase key w)) (\<lambda>v'. implements v' F (snd (p_remove key p)) \<and> changes v v' F UNIV)"
      if w: "moves v fs G [] w fs ?G [i] {}" for w
    proof -
      have drop: "shard_deallocate i (index_erase key w) =
          map_option (\<lambda>s. index_erase (nkey w i) (w\<lparr>sh_slab := s\<rparr>)) (slab_deallocate i (sh_slab w))"
        using moves_data [OF w, of i] key
        by (cases "slab_deallocate i (sh_slab w)") (simp_all add: shard_deallocate_def index_erase_def)
      have "implements u F (snd (p_remove key p)) \<and> changes v u F UNIV"
        if u: "moves w fs ?G [i] u (i # fs) ?G [] {i}" for u
      proof -
        have m: "moves v fs G [] u (i # fs) ?G [] {i}" using moves_trans [OF w u] by simp
        have "i \<notin> owned ?G" by (auto simp: t_drop_def)
        then have "t_map (entry_of u) ?G = t_map (entry_of v) ?G"
          using m by (intro steps_entries [of v fs G "[]" u "i # fs" ?G "[]" "{i}"]) (simp_all add: moves_steps)
        then have "policy_of u (i # fs) ?G = snd (p_remove key p)"
          using lookup Some by (simp add: moves_policy [OF m] p_remove_def p t_drop_map flip: G)
        moreover have "foot (i # fs) ?G [] = F" using m F by (simp add: moves_def)
        ultimately show ?thesis
          using implementsI [OF moves_ok [OF v m]] m F by (auto simp: moves_def changes_sub)
      qed
      then show ?thesis
        using st_drop [OF moves_rep [OF w]] by (auto simp: drop elim!: oksE)
    qed
    show ?thesis
      using unlink_ix [OF rep io] fin lookup Some
      by (auto simp: stripe_remove_def p_remove_def elim!: oksE) 
  qed
qed

end
