(* ===== verification/Cache_Stripe_Policy.thy ===== *)
theory Cache_Stripe_Policy
  imports Cache_Stripe_Spec "HOL-Library.Multiset"
begin

text \<open>
  What the policy guarantees: keys stay unique, the lists stay within their capacities, no entry appears
  or disappears except where the policy says so, and the entries of the main region are only given up
  for a candidate with a strictly higher frequency.
\<close>

section \<open>Entries are moved, not made\<close>

definition p_entries :: "policy \<Rightarrow> entry multiset" where
  "p_entries p = mset (t_all (p_tiers p))"

definition outcome_mset :: "'a outcome \<Rightarrow> 'a multiset" where
  "outcome_mset out = (case out of Rejected x \<Rightarrow> {#x#} | Replaced x \<Rightarrow> {#x#} | _ \<Rightarrow> {#})"

lemma mset_t_all: "mset (t_all L) = mset (L Win) + mset (L Prob) + mset (L Prot)"
  by (simp add: t_all_def)

lemma mset_filter_split: "mset (filter P xs) + mset (filter (\<lambda>x. \<not> P x) xs) = mset xs"
  by (induction xs) auto

lemma mset_butlast: "xs \<noteq> [] \<Longrightarrow> add_mset (last xs) (mset (butlast xs)) = mset xs"
  by (metis add_mset_add_single append_butlast_last_id mset.simps(1,2) mset_append)

lemma t_move_mset: "mset (t_move g P L h) = mset (L h)"
  using mset_filter_split [of P "L g"] by (simp add: t_move_def)

lemma t_move_length: "length (t_move g P L h) = length (L h)"
  by (metis t_move_mset size_mset)

lemma t_promote_mset:
  "mset (t_promote cap P L Prob) + mset (t_promote cap P L Prot) = mset (L Prob) + mset (L Prot)"
  using mset_filter_split [of P "L Prob"] mset_butlast [of "L Prot"]
  by (auto simp: t_promote_def Let_def ac_simps)

lemma t_promote_Win [simp]: "t_promote cap P L Win = L Win"
  by (simp add: t_promote_def Let_def)

lemma t_touch_mset: "mset (t_all (t_touch cap P L)) = mset (t_all L)"
  using t_promote_mset [of cap P L] by (simp add: t_touch_def mset_t_all t_move_mset ac_simps)

lemma t_touch_Win: "length (t_touch cap P L Win) = length (L Win)"
  by (simp add: t_touch_def t_move_length)

lemma t_touch_main: "length (t_touch cap P L Prob) + length (t_touch cap P L Prot) = length (L Prob) + length (L Prot)"
proof -
  have "size (mset (t_promote cap P L Prob) + mset (t_promote cap P L Prot)) = length (L Prob) + length (L Prot)"
    unfolding t_promote_mset by simp
  then show ?thesis by (simp add: t_touch_def t_move_length)
qed

lemma t_touch_Prot:
  assumes "length (filter P (L Prob)) \<le> 1" and "length (L Prot) \<le> max 1 cap"
  shows "length (t_touch cap P L Prot) \<le> max 1 cap"
  using assms by (auto simp: t_touch_def t_move_length t_promote_def Let_def max_def split: if_splits)

lemma t_admit_mset: "mset (t_all L) = mset (t_all (fst (t_admit cap f L))) + outcome_mset (snd (t_admit cap f L))"
proof (cases "L Win = []")
  case False
  then show ?thesis
    using mset_butlast [of "L Win"] mset_butlast [of "L Prob"]
    by (auto simp: t_admit_def t_judge_def Let_def mset_t_all outcome_mset_def ac_simps)
qed (simp add: t_admit_def outcome_mset_def)

lemma t_admit_length:
  assumes "fst (t_admit cap f L) = L'" and "length (L Prob) + length (L Prot) \<le> cap"
  shows "length (L' Win) = length (L Win) - 1" and "length (L' Prob) + length (L' Prot) \<le> cap" and "L' Prot = L Prot"
  using assms by (auto simp: t_admit_def t_judge_def Let_def)

section \<open>The policy's invariant\<close>

definition policy_ok :: "policy \<Rightarrow> bool" where
  "policy_ok p \<longleftrightarrow> distinct (map fst (t_all (p_tiers p))) \<and>
     length (p_tiers p Win) \<le> unat (st_window_capacity (p_stripe p)) \<and>
     length (p_tiers p Prob) + length (p_tiers p Prot) \<le> unat (st_main_capacity (p_stripe p)) \<and>
     length (p_tiers p Prot) \<le> max 1 (unat (st_protected_capacity (p_stripe p)))"

lemma distinct_fst_mset: "mset xs = mset ys \<Longrightarrow> distinct (map fst xs) = distinct (map fst ys)"
  by (metis mset_map mset_eq_imp_distinct_iff)

definition policy_core :: "policy \<Rightarrow> bool" where
  "policy_core p \<longleftrightarrow> distinct (map fst (t_all (p_tiers p))) \<and>
     length (p_tiers p Prob) + length (p_tiers p Prot) \<le> unat (st_main_capacity (p_stripe p)) \<and>
     length (p_tiers p Prot) \<le> max 1 (unat (st_protected_capacity (p_stripe p)))"

lemma policy_ok_core:
  "policy_ok p \<longleftrightarrow> policy_core p \<and> length (p_tiers p Win) \<le> unat (st_window_capacity (p_stripe p))"
  by (auto simp: policy_ok_def policy_core_def)

text \<open>The parts of the stripe no operation changes.\<close>

definition caps :: "policy \<Rightarrow> u32 \<times> u32 \<times> u32 \<times> bool \<times> nat" where
  "caps p = (st_window_capacity (p_stripe p), st_main_capacity (p_stripe p), st_protected_capacity (p_stripe p),
     st_demotion_queue (p_stripe p), p_limit p)"

lemma account_simps [simp]:
  "p_tiers (p_account h32 out p) = p_tiers p" "caps (p_account h32 out p) = caps p"
  by (auto simp: p_account_def p_admitted_def p_rejected_def p_demote_def p_push_def caps_def Let_def split: outcome.split)

lemma tick_simps [simp]:
  "p_tiers (p_tick p) = p_tiers p" "p_free (p_tick p) = p_free p" "caps (p_tick p) = caps p" "p_queue (p_tick p) = p_queue p"
  by (auto simp: p_tick_def caps_def Let_def)

lemma count_simps [simp]:
  "p_tiers (p_count h32 k p) = p_tiers p" "p_free (p_count h32 k p) = p_free p" "caps (p_count h32 k p) = caps p"
  "p_queue (p_count h32 k p) = p_queue p"
  by (auto simp: p_count_def caps_def)

lemma core_caps:
  "p_tiers p = p_tiers q \<Longrightarrow> caps p = caps q \<Longrightarrow> policy_core p = policy_core q"
  by (simp add: policy_core_def caps_def)

lemma distinct_sub_mset:
  assumes "mset xs \<subseteq># mset ys" and "distinct ys"
  shows "distinct xs"
proof -
  obtain zs where "mset ys = mset (xs @ zs)"
    using assms(1) by (metis ex_mset mset_append mset_subset_eq_exists_conv)
  then have "distinct (xs @ zs)" using assms(2) by (metis mset_eq_imp_distinct_iff)
  then show ?thesis by simp
qed

lemma core_sub:
  assumes "policy_core q" and "caps p = caps q" and "mset (t_all (p_tiers p)) \<subseteq># mset (t_all (p_tiers q))"
    and "length (p_tiers p Prob) + length (p_tiers p Prot) \<le> unat (st_main_capacity (p_stripe q))"
    and "length (p_tiers p Prot) \<le> max 1 (unat (st_protected_capacity (p_stripe q)))"
  shows "policy_core p"
proof -
  have "mset (map fst (t_all (p_tiers p))) \<subseteq># mset (map fst (t_all (p_tiers q)))"
    using assms(3) by (simp add: image_mset_subseteq_mono)
  then have "distinct (map fst (t_all (p_tiers p)))"
    using assms(1) distinct_sub_mset unfolding policy_core_def by blast
  then show ?thesis using assms by (simp add: policy_core_def caps_def)
qed

lemma p_admit_split:
  obtains L out where "t_admit (unat (st_main_capacity (p_stripe p))) (p_freq h32 p \<circ> fst) (p_tiers p) = (L, out)"
    and "p_tiers (p_admit h32 p) = L" and "caps (p_admit h32 p) = caps p"
    and "p_admit h32 p = p_account h32 out (p\<lparr>p_tiers := L\<rparr>)"
  by (cases "t_admit (unat (st_main_capacity (p_stripe p))) (p_freq h32 p \<circ> fst) (p_tiers p)")
    (auto simp: p_admit_def caps_def [of "p\<lparr>p_tiers := _\<rparr>"] caps_def [of p])

lemma p_admit_caps: "caps (p_admit h32 p) = caps p"
  by (rule p_admit_split)

lemma p_admit_tiers: "length (p_tiers (p_admit h32 p) Win) = length (p_tiers p Win) - 1"
  by (rule p_admit_split [of p h32]) (auto simp: t_admit_def t_judge_def Let_def split: if_splits)

lemma p_admit_core:
  assumes "policy_core p" shows "policy_core (p_admit h32 p)"
proof -
  obtain L out where a: "t_admit (unat (st_main_capacity (p_stripe p))) (p_freq h32 p \<circ> fst) (p_tiers p) = (L, out)"
    and L: "p_tiers (p_admit h32 p) = L" and c: "caps (p_admit h32 p) = caps p"
    by (rule p_admit_split)
  have "mset (t_all L) \<subseteq># mset (t_all (p_tiers p))"
    using t_admit_mset [of "p_tiers p" "unat (st_main_capacity (p_stripe p))" "p_freq h32 p \<circ> fst"] a by simp
  then show ?thesis
    using t_admit_length [of "unat (st_main_capacity (p_stripe p))" "p_freq h32 p \<circ> fst" "p_tiers p" L] a L c assms
    by (intro core_sub [OF assms c]) (auto simp: policy_core_def)
qed

lemma p_touch_core:
  assumes "policy_core p" shows "policy_core (p_touch key p)"
proof (rule core_sub [OF assms])
  have d: "distinct (map fst (p_tiers p Prob))" using assms by (auto simp: policy_core_def t_all_def)
  then have "distinct (map fst (filter (\<lambda>e. fst e = key) (p_tiers p Prob)))" by (simp add: distinct_map_filter)
  moreover have "set (map fst (filter (\<lambda>e. fst e = key) (p_tiers p Prob))) \<subseteq> {key}" by auto
  ultimately have "length (filter (\<lambda>e. fst e = key) (p_tiers p Prob)) \<le> 1"
    by (metis card_mono card.empty card.insert distinct_card empty_iff finite.intros length_map One_nat_def)
  then show "length (p_tiers (p_touch key p) Prot) \<le> max 1 (unat (st_protected_capacity (p_stripe p)))"
    unfolding p_touch_def using assms by (simp del: One_nat_def add: t_touch_Prot policy_core_def)
qed (use assms in \<open>auto simp: p_touch_def caps_def t_touch_mset t_touch_main policy_core_def\<close>)

lemma set_value_fst [simp]: "fst (set_value key val e) = fst e"
  by (simp add: set_value_def)

lemma update_core:
  "policy_core p \<Longrightarrow> policy_core (p\<lparr>p_tiers := t_map (set_value key val) (p_tiers p)\<rparr>)"
  by (simp add: policy_core_def t_all_map comp_def)

lemma insert_core:
  assumes "policy_core p" and "p_lookup p (fst e) = None"
  shows "policy_core (p_insert e p)"
  using assms by (auto simp: policy_core_def p_insert_def p_lookup_def t_all_def map_of_eq_None_iff)

lemma p_admits:
  "policy_core p \<Longrightarrow> policy_core ((p_admit h32 ^^ n) p) \<and> caps ((p_admit h32 ^^ n) p) = caps p \<and>
     length (p_tiers ((p_admit h32 ^^ n) p) Win) = length (p_tiers p Win) - n"
proof (induction n)
  case (Suc n)
  then show ?case
    by (auto simp: p_admit_core p_admit_tiers p_admit_caps)
qed simp

section \<open>The operations keep the invariant\<close>

lemma policy_ok_get: "policy_ok p \<Longrightarrow> policy_ok (snd (p_get h32 key p)) \<and> caps (snd (p_get h32 key p)) = caps p"
proof -
  assume ok: "policy_ok p"
  let ?q = "p_touch key (p_count h32 key p)"
  have "policy_core ?q" using ok core_caps [of "p_count h32 key p" p] by (simp add: policy_ok_core p_touch_core)
  then have "policy_ok ?q \<and> caps ?q = caps p"
    using ok by (simp add: policy_ok_core p_touch_def t_touch_Win p_count_def caps_def)
  then show ?thesis
    using ok by (auto simp: p_get_def Let_def policy_ok_def caps_def split: option.split)
qed

lemma policy_ok_remove: "policy_ok p \<Longrightarrow> policy_ok (snd (p_remove key p)) \<and> caps (snd (p_remove key p)) = caps p"
proof -
  assume ok: "policy_ok p"
  let ?L = "t_drop (\<lambda>e. fst e = key) (p_tiers p)"
  have le: "length (?L g) \<le> length (p_tiers p g)" for g by (simp add: t_drop_def)
  have "t_all ?L = filter (\<lambda>e. fst e \<noteq> key) (t_all (p_tiers p))" by (simp add: t_all_def t_drop_def)
  then have "distinct (map fst (t_all ?L))" using ok by (simp add: policy_ok_def distinct_map_filter)
  then show ?thesis
    using ok le [of Win] le [of Prob] le [of Prot] by (auto simp: p_remove_def policy_ok_def caps_def)
qed

text \<open>A put of a new key runs the admission at most once.\<close>

lemma put_new_once:
  assumes "policy_ok p"
  shows "p_overflow (p_insert e p) = (if length (p_tiers p Win) = unat (st_window_capacity (p_stripe p)) then 1 else 0)"
  using assms by (auto simp: p_overflow_def p_insert_def policy_ok_def)

lemma policy_ok_put: "policy_ok p \<Longrightarrow> policy_ok (snd (p_put h32 key val p)) \<and> caps (snd (p_put h32 key val p)) = caps p"
proof -
  assume ok: "policy_ok p"
  define q where "q = p_tick (p_count h32 key p)"
  have qt: "p_tiers q = p_tiers p" "caps q = caps p" by (simp_all add: q_def)
  have okq: "policy_core q" "length (p_tiers q Win) \<le> unat (st_window_capacity (p_stripe q))"
    using ok core_caps [OF qt] qt by (auto simp: policy_ok_core caps_def)
  show ?thesis
  proof (cases "p_lookup q key = None \<and> p_free q \<noteq> 0")
    case True
    let ?i = "p_insert (key, val) q"
    have "policy_core ?i" using insert_core [OF okq(1)] True by simp
    from p_admits [OF this, of "p_overflow ?i" h32] show ?thesis
      using True qt(2) okq(2)
      by (auto simp: p_put_def policy_ok_core caps_def p_overflow_def p_insert_def simp flip: q_def)
  next
    case False
    let ?u = "q\<lparr>p_tiers := t_map (set_value key val) (p_tiers q)\<rparr>"
    have "policy_core (p_touch key ?u)" using update_core [OF okq(1)] by (rule p_touch_core)
    then have "policy_ok (p_touch key ?u) \<and> caps (p_touch key ?u) = caps p"
      using okq(2) qt(2) by (simp add: policy_ok_core p_touch_def t_touch_Win caps_def)
    then show ?thesis
      using False okq qt by (auto simp: p_put_def policy_ok_core simp flip: q_def)
  qed
qed

section \<open>Lookups\<close>

lemma map_of_sub_mset:
  assumes "mset xs \<subseteq># mset ys" and "distinct (map fst ys)"
  shows "map_of xs \<subseteq>\<^sub>m map_of ys"
  unfolding map_le_def
proof
  fix k assume "k \<in> dom (map_of xs)"
  then obtain v where v: "map_of xs k = Some v" by blast
  then have "(k, v) \<in># mset ys" using map_of_SomeD [OF v] mset_subset_eqD [OF assms(1), of "(k, v)"] by simp
  then show "map_of xs k = map_of ys k" using v assms(2) by simp
qed

lemma map_of_mset:
  assumes "distinct (map fst xs)" and "mset xs = mset ys"
  shows "map_of xs = map_of ys"
  using map_of_sub_mset [of xs ys] map_of_sub_mset [of ys xs] assms distinct_fst_mset [OF assms(2)]
  by (simp add: map_le_antisym)

lemma lookup_touch: "policy_core p \<Longrightarrow> p_lookup (p_touch key p) = p_lookup p"
  using map_of_mset [OF _ t_touch_mset [symmetric], of "p_tiers p"]
  by (simp add: p_lookup_def p_touch_def policy_core_def)

lemma lookup_update:
  "p_lookup (p\<lparr>p_tiers := t_map (set_value key val) (p_tiers p)\<rparr>) =
   (if p_lookup p key = None then p_lookup p else (p_lookup p)(key \<mapsto> val))"
proof -
  have "map_of (map (set_value key val) xs) = (if map_of xs key = None then map_of xs else (map_of xs)(key \<mapsto> val))" for xs
    by (induction xs) (auto simp: set_value_def fun_eq_iff)
  then show ?thesis by (simp add: p_lookup_def t_all_map)
qed

lemma lookup_insert: "p_lookup (p_insert e p) = (p_lookup p)(fst e \<mapsto> snd e)"
  by (cases e) (simp add: p_lookup_def p_insert_def t_all_def fun_eq_iff)

lemma lookup_drop: "p_lookup (p\<lparr>p_tiers := t_drop (\<lambda>e. fst e = key) (p_tiers p), p_free := n\<rparr>) = (p_lookup p)(key := None)"
proof -
  have "map_of (filter (\<lambda>e. fst e \<noteq> key) xs) = (map_of xs)(key := None)" for xs :: "entry list"
    by (induction xs) (auto simp: fun_eq_iff)
  moreover have "t_all (t_drop (\<lambda>e. fst e = key) (p_tiers p)) = filter (\<lambda>e. fst e \<noteq> key) (t_all (p_tiers p))"
    by (simp add: t_all_def t_drop_def)
  ultimately show ?thesis by (simp add: p_lookup_def)
qed

lemma p_lookup_cong: "p_tiers p = p_tiers q \<Longrightarrow> p_lookup p = p_lookup q"
  by (simp add: p_lookup_def)

section \<open>What a put does to the other entries\<close>

text \<open>The state in which the admission of a new key is decided: the access counted, the sketch possibly
  halved, the new entry at the front of the window.\<close>

definition p_arrival :: "hash32 \<Rightarrow> entry \<Rightarrow> policy \<Rightarrow> policy" where
  "p_arrival h32 e p = p_insert e (p_tick (p_count h32 (fst e) p))"

lemma arrival_simps [simp]:
  "p_tiers (p_arrival h32 e p) = (p_tiers p)(Win := e # p_tiers p Win)" "caps (p_arrival h32 e p) = caps p"
  "p_queue (p_arrival h32 e p) = p_queue p"
  using tick_simps(3) [of "p_count h32 (fst e) p"] count_simps(3) [of h32 "fst e" p] 
  by (simp_all add: p_arrival_def p_insert_def caps_def)

lemma insert_caps: "caps (p_insert e p) = caps p"
  by (simp add: caps_def p_insert_def)

lemma put_new:
  assumes "policy_ok p" and "p_lookup p key = None" and "p_free p \<noteq> 0"
  shows "p_put h32 key val p =
    (True, if length (p_tiers p Win) = unat (st_window_capacity (p_stripe p))
           then p_admit h32 (p_arrival h32 (key, val) p) else p_arrival h32 (key, val) p)"
proof -
  let ?q = "p_tick (p_count h32 key p)"
  have "policy_ok ?q"
    using assms(1) core_caps [of ?q p] tick_simps(3) [of "p_count h32 key p"] count_simps(3) [of h32 key p]
    by (simp add: policy_ok_core caps_def)
  moreover have "st_window_capacity (p_stripe ?q) = st_window_capacity (p_stripe p)"
    using tick_simps(3) [of "p_count h32 key p"] count_simps(3) [of h32 key p] by (simp add: caps_def)
  moreover have "p_lookup ?q key = None" using assms(2) p_lookup_cong [of ?q p] by simp
  ultimately show ?thesis
    using assms(3) put_new_once [of ?q "(key, val)"] by (simp add: p_put_def Let_def p_arrival_def)
qed

lemma put_full_slab:
  assumes "p_lookup p key = None" and "p_free p = 0"
  shows "p_put h32 key val p = (False, p_tick (p_count h32 key p))"
  using assms p_lookup_cong [of "p_tick (p_count h32 key p)" p] by (simp add: p_put_def Let_def)

lemma put_existing:
  assumes "policy_core p" and "p_lookup p key \<noteq> None"
  shows "fst (p_put h32 key val p) = False" and "p_lookup (snd (p_put h32 key val p)) = (p_lookup p)(key \<mapsto> val)"
proof -
  let ?q = "p_tick (p_count h32 key p)"
  have q: "policy_core ?q" "p_lookup ?q = p_lookup p"
    using assms(1) core_caps [of ?q p] p_lookup_cong [of ?q p] by simp_all
  show "fst (p_put h32 key val p) = False" using assms(2) q(2) by (simp add: p_put_def Let_def)
  show "p_lookup (snd (p_put h32 key val p)) = (p_lookup p)(key \<mapsto> val)"
    using assms(2) q(2) lookup_update [where p = ?q] lookup_touch [OF update_core [OF q(1)]]
    by (auto simp: p_put_def Let_def)
qed

lemma admit_lookup:
  assumes "policy_core p"
  shows "p_lookup (p_admit h32 p) = (case snd (t_admit (unat (st_main_capacity (p_stripe p))) (p_freq h32 p \<circ> fst) (p_tiers p)) of
     Rejected e \<Rightarrow> (p_lookup p)(fst e := None) | Replaced e \<Rightarrow> (p_lookup p)(fst e := None) | _ \<Rightarrow> p_lookup p)"
proof -
  obtain L out where a: "t_admit (unat (st_main_capacity (p_stripe p))) (p_freq h32 p \<circ> fst) (p_tiers p) = (L, out)"
    and L: "p_tiers (p_admit h32 p) = L"
    by (rule p_admit_split)
  have m: "mset (t_all (p_tiers p)) = mset (t_all L) + outcome_mset out"
    using t_admit_mset [of "p_tiers p" "unat (st_main_capacity (p_stripe p))" "p_freq h32 p \<circ> fst"] a by simp
  have d: "distinct (map fst (t_all (p_tiers p)))" using assms by (simp add: policy_core_def)
  have one: "map_of (t_all L) = (map_of (t_all (p_tiers p)))(fst e := None)"
    if "mset (t_all (p_tiers p)) = mset (e # t_all L)" for e
  proof -
    have eq: "map_of (t_all (p_tiers p)) = map_of (e # t_all L)" by (rule map_of_mset [OF d that])
    have "distinct (map fst (e # t_all L))" using d distinct_fst_mset [OF that] by simp
    then have "map_of (t_all L) (fst e) = None" by (simp add: map_of_eq_None_iff)
    then show ?thesis unfolding eq by (cases e) (auto simp: fun_eq_iff)
  qed
  show ?thesis
    using m one map_of_mset [OF d] by (cases out) (auto simp: a L p_lookup_def outcome_mset_def)
qed

lemma arrival_lookup: "p_lookup (p_arrival h32 (key, val) p) = (p_lookup p)(key \<mapsto> val)"
  using p_lookup_cong [of "p_arrival h32 (key, val) p" "p_insert (key, val) p"] lookup_insert [of "(key, val)" p]
  by (simp add: p_insert_def)

lemma arrival_core:
  "policy_core p \<Longrightarrow> p_lookup p key = None \<Longrightarrow> policy_core (p_arrival h32 (key, val) p)"
  using insert_core [of p "(key, val)"] core_caps [of "p_arrival h32 (key, val) p" "p_insert (key, val) p"]
  by (simp add: insert_caps) (simp add: p_insert_def)

text \<open>\<open>gives_way h32 e p k x p'\<close>: the entry of \<open>k\<close> is lost to the arrival of \<open>e\<close> for a reason the
  policy allows. Window and main region were full, and either \<open>k\<close> was the window's oldest entry and did
  not beat the probation victim, or \<open>k\<close> was the probation victim and was strictly beaten; then it is on
  the demotion queue, if there is one with room.\<close>

definition gives_way :: "hash32 \<Rightarrow> entry \<Rightarrow> policy \<Rightarrow> string \<Rightarrow> string \<Rightarrow> policy \<Rightarrow> bool" where
  "gives_way h32 e p k x p' \<longleftrightarrow>
     (let a = p_arrival h32 e p; c = last (e # p_tiers p Win); prob = p_tiers p Prob
      in length (p_tiers p Win) = unat (st_window_capacity (p_stripe p)) \<and>
         unat (st_main_capacity (p_stripe p)) \<le> length prob + length (p_tiers p Prot) \<and>
         ((k, x) = c \<and> (prob = [] \<or> p_freq h32 a k \<le> p_freq h32 a (fst (last prob))) \<or>
          prob \<noteq> [] \<and> (k, x) = last prob \<and> p_freq h32 a k < p_freq h32 a (fst c) \<and>
          p_queue p' = (if st_demotion_queue (p_stripe p) \<and> length (p_queue p) < p_limit p
                        then p_queue p @ [\<lparr>di_key = k, di_value = x, di_frequency = p_freq h32 a k\<rparr>]
                        else p_queue p)))"

lemma account_replaced_queue:
  "p_queue (p_account h32 (Replaced e) p) = (if st_demotion_queue (p_stripe p) \<and> length (p_queue p) < p_limit p
     then p_queue p @ [\<lparr>di_key = fst e, di_value = snd e, di_frequency = p_freq h32 p (fst e)\<rparr>] else p_queue p)"
  by (simp add: p_account_def p_demote_def p_push_def p_admitted_def Let_def)

lemma put_gives_way:
  assumes ok: "policy_ok p" and k: "k \<noteq> key" "p_lookup p k = Some x" and lost: "p_lookup (snd (p_put h32 key val p)) k = None"
  shows "gives_way h32 (key, val) p k x (snd (p_put h32 key val p))"
proof -
  have core: "policy_core p" using ok by (simp add: policy_ok_core)
  have new: "p_lookup p key = None"
    using put_existing [OF core, of key h32 val] k lost by (cases "p_lookup p key") auto
  have free: "p_free p \<noteq> 0"
    using put_full_slab [OF new, of h32 val] k(2) lost p_lookup_cong [of "p_tick (p_count h32 key p)" p]
    by (cases "p_free p = 0") auto
  let ?a = "p_arrival h32 (key, val) p"
  note la = arrival_lookup [of h32 key val p]
  have full: "length (p_tiers p Win) = unat (st_window_capacity (p_stripe p))"
    and put: "p_put h32 key val p = (True, p_admit h32 ?a)"
    using put_new [OF ok new free, of h32 val] lost k la by (auto split: if_splits)
  note acore = arrival_core [OF core new, of h32 val]
  obtain L out where a: "t_admit (unat (st_main_capacity (p_stripe ?a))) (p_freq h32 ?a \<circ> fst) (p_tiers ?a) = (L, out)"
    and acc: "p_admit h32 ?a = p_account h32 out (?a\<lparr>p_tiers := L\<rparr>)"
    by (rule p_admit_split)
  have caps: "st_main_capacity (p_stripe ?a) = st_main_capacity (p_stripe p)" 
      "st_demotion_queue (p_stripe ?a) = st_demotion_queue (p_stripe p)" "p_limit ?a = p_limit p"
    using arrival_simps(2) [of h32 "(key, val)" p] by (simp_all add: caps_def)
  obtain e where e: "out = Rejected e \<or> out = Replaced e" "fst e = k"
    using lost k la admit_lookup [OF acore, of h32, unfolded a snd_conv] unfolding put snd_conv
    by (cases out) (auto split: if_splits)
  have m: "mset (t_all (p_tiers ?a)) = mset (t_all L) + outcome_mset out"
    using t_admit_mset [of "p_tiers ?a" "unat (st_main_capacity (p_stripe ?a))" "p_freq h32 ?a \<circ> fst"]
    unfolding a by simp
  have "e \<in># outcome_mset out" using e(1) by (auto simp: outcome_mset_def)
  then have "e \<in># mset (t_all (p_tiers ?a))" unfolding m by simp
  then have "map_of (t_all (p_tiers ?a)) (fst e) = Some (snd e)"
    using acore by (cases e) (simp add: policy_core_def)
  then have ex: "e = (k, x)" using la k e by (cases e) (simp add: p_lookup_def)
  let ?c = "last ((key, val) # p_tiers p Win)"
  have fr: "p_freq h32 (?a\<lparr>p_tiers := T\<rparr>) = p_freq h32 ?a" for T by (simp add: p_freq_def fun_eq_iff)
  have j: "t_judge (unat (st_main_capacity (p_stripe p))) (p_freq h32 ?a \<circ> fst) ?c
      ((p_tiers p)(Win := butlast ((key, val) # p_tiers p Win))) = (L, out)"
    using a by (simp add: t_admit_def caps del: last.simps butlast.simps)
  show ?thesis
    using e(1)
  proof
    assume "out = Rejected e"
    then show ?thesis
      using j full ex unfolding gives_way_def Let_def
      by (auto simp: t_judge_def Let_def simp del: last.simps butlast.simps split: if_splits)
  next
    assume o: "out = Replaced e"
    have "p_queue (p_admit h32 ?a) = (if st_demotion_queue (p_stripe p) \<and> length (p_queue p) < p_limit p
         then p_queue p @ [\<lparr>di_key = k, di_value = x, di_frequency = p_freq h32 ?a k\<rparr>] else p_queue p)"
      unfolding acc o account_replaced_queue by (simp add: caps ex fr)
    with o show ?thesis
      using j full ex unfolding gives_way_def Let_def put snd_conv
      by (auto simp: t_judge_def Let_def simp del: last.simps butlast.simps split: if_splits)
  qed
qed

lemma put_lookup_other:
  assumes "policy_ok p" and "k \<noteq> key"
  shows "p_lookup (snd (p_put h32 key val p)) k \<in> {p_lookup p k, None}"
proof (cases "p_lookup p key")
  case None
  have core: "policy_core p" using assms(1) by (simp add: policy_ok_core)
  show ?thesis
  proof (cases "p_free p = 0")
    case True
    then show ?thesis using put_full_slab [OF None] p_lookup_cong [of "p_tick (p_count h32 key p)" p] by simp
  next
    case False
    show ?thesis
      using put_new [OF assms(1) None False, of h32 val] assms(2) arrival_lookup [of h32 key val p]
        admit_lookup [OF arrival_core [OF core None], of h32 h32 val] by (simp split: outcome.split)
  qed
qed (use put_existing(2) assms in \<open>simp add: policy_ok_core\<close>)

end
