(* ===== verification/Cache_Stripe_Props.thy ===== *)
theory Cache_Stripe_Props
  imports Cache_Stripe_Correct Cache_Stripe_Policy Float32
begin

text \<open>
  The properties of a stripe, stated on the code's model: its operations against the policy of
  \<open>Cache_Stripe_Spec\<close>, its capacities, what a reader sees after a write, and when an entry is evicted.
\<close>

section \<open>The policy state a shard holds, computed\<close>

definition shard_lists :: "shard \<Rightarrow> u32 tiers" where
  "shard_lists v = (\<lambda>g. lru_nodes (sh_slab v) (get_lru g (sh_stripe v)))"

definition shard_view :: "shard \<Rightarrow> policy" where
  "shard_view v = policy_of v (slab_free_list (sh_slab v)) (shard_lists v)"

definition shard_inv :: "shard \<Rightarrow> u32 set \<Rightarrow> bool" where
  "shard_inv v F \<longleftrightarrow> shard_ok v (slab_free_list (sh_slab v)) (shard_lists v) \<and>
     foot (slab_free_list (sh_slab v)) (shard_lists v) [] = F"

lemma shard_ok_lists:
  assumes "shard_ok v fs G"
  shows "slab_free_list (sh_slab v) = fs" and "shard_lists v = G"
proof -
  have rep: "shard_rep v fs G []" using assms by (simp add: shard_ok_def)
  show "slab_free_list (sh_slab v) = fs" using shard_rep_slab [OF rep] by (rule slab_rep_free_list)
  show "shard_lists v = G" using shard_rep_list(1) [OF rep] by (auto simp: shard_lists_def lru_rep_nodes)
qed

lemma implements_view: "implements v F p \<longleftrightarrow> shard_inv v F \<and> p = shard_view v"
  unfolding implements_def shard_inv_def shard_view_def using shard_ok_lists by blast

section \<open>Construction\<close>

definition policy_new :: "u32 \<Rightarrow> dqueue \<Rightarrow> stripe \<Rightarrow> policy" where
  "policy_new n q st = \<lparr>p_tiers = (\<lambda>_. []), p_stripe = st, p_free = unat n, p_queue = dq_items q,
     p_limit = dq_limit q, p_drops = q_drops q\<rparr>"

lemma stripe_new_fields:
  assumes "stripe_new capacity wp pp = Some st"
  shows "get_lru g st = lru_new" and "st_index_map st = Map.empty" and "cms_ok (st_cms st)"
    and "\<not> st_demotion_queue st"
proof -
  obtain c where c: "cms_new 4 512 = Some c" "cms_ok c"
    using cms_new_ok [of 4 512] by (auto elim!: oksE)
  show "get_lru g st = lru_new" "st_index_map st = Map.empty" "cms_ok (st_cms st)" "\<not> st_demotion_queue st"
    using assms c by (cases g; auto simp: stripe_new_def guard_def Let_def split: bind_splits if_splits)+
qed

lemma shard_new_implements:
  fixes b :: bool
  assumes s: "slab_new n = Inr s" and st: "stripe_new capacity wp pp = Some st" and q: "dq_inv q"
  defines "v \<equiv> \<lparr>sh_slab = s, sh_queue = q, sh_stripe = stripe_set_demotion_queue b st\<rparr>"
  shows "implements v {i. i < n} (policy_new n q (stripe_set_demotion_queue b st))"
proof -
  have "get_lru g (stripe_set_demotion_queue b st) = lru_new" for g
    using stripe_new_fields(1) [OF st] by (simp add: stripe_set_demotion_queue_def)
  then have rep: "shard_rep v (upto32 n) (\<lambda>_. []) []"
    using slab_new_rep [OF s] stripe_new_fields [OF st]
    by (simp add: shard_rep_def v_def index_ok_def stripe_set_demotion_queue_def owned_def)
  moreover have "aux v = stripe_set_demotion_queue b st"
    using stripe_new_fields(1) [OF st, of Win] stripe_new_fields(1) [OF st, of Prob]
      stripe_new_fields(1) [OF st, of Prot] stripe_new_fields(2) [OF st]
    by (simp add: aux_def v_def stripe_set_demotion_queue_def)
  moreover have "shard_ok v (upto32 n) (\<lambda>_. [])"
    using rep q stripe_new_fields(3) [OF st] by (simp add: shard_ok_def v_def stripe_set_demotion_queue_def)
  moreover have "foot (upto32 n) (\<lambda>_. []) [] = {i. i < n}"
    by (simp add: foot_def owned_def set_upto32)
  moreover have "policy_of v (upto32 n) (\<lambda>_. []) = policy_new n q (aux v)"
    by (simp add: policy_of_def policy_new_def v_def t_map_def)
  ultimately show ?thesis unfolding implements_def by metis
qed

lemma stripe_capacities_ok:
  assumes "3 \<le> capacity"
  shows "oks (stripe_new capacity f32_0_01 f32_0_20) (\<lambda>st.
    unat (st_window_capacity st) + unat (st_main_capacity st) = unat capacity \<and>
    unat (st_probation_capacity st) + unat (st_protected_capacity st) = unat (st_main_capacity st) \<and>
    3 \<le> unat (st_main_capacity st) \<and> 1 \<le> unat (st_probation_capacity st) \<and> 1 \<le> unat (st_protected_capacity st) \<and>
    (st_window_capacity st = 0 \<longleftrightarrow> capacity = 3))"
proof -
  have c: "3 \<le> unat capacity" using assms by (simp add: word_le_nat_alt)
  obtain w where w: "f32_to_u32 (u32_times_f32 capacity f32_0_01) = Some w" "unat w \<le> unat capacity"
    by (rule f32_fraction [of f32_0_01 capacity]) (simp_all add: f32_0_01_def)
  define win where "win = (if max 3 w \<ge> capacity - 2 then capacity div 4 else max 3 w)"
  have two: "unat (capacity - 2) = unat capacity - 2" using c by (subst unat_sub_u32) (simp_all add: word_le_nat_alt)
  have mx: "unat (max 3 w) = max 3 (unat w)" by (simp add: max_def word_le_nat_alt)
  have win: "unat win = (if unat capacity - 2 \<le> max 3 (unat w) then unat capacity div 4 else max 3 (unat w))"
    by (simp add: win_def word_le_nat_alt two mx unat_div)
  then have winle: "unat win + 3 \<le> unat capacity" using c by (auto split: if_splits)
  define main where "main = capacity - win"
  have main: "unat main = unat capacity - unat win"
    using winle unfolding main_def by (subst unat_sub_u32) (simp_all add: word_le_nat_alt)
  obtain p where p: "f32_to_u32 (u32_times_f32 main f32_0_20) = Some p" "unat p < unat main"
    by (rule f32_fraction [of f32_0_20 main]) (use main winle in \<open>simp_all add: f32_0_20_def\<close>)
  define prob where "prob = max 1 p"
  have prob: "unat prob = max 1 (unat p)" by (simp add: prob_def max_def word_le_nat_alt)
  have prot: "unat (main - prob) = unat main - unat prob"
    using p(2) prob main winle by (subst unat_sub_u32) (simp_all add: word_le_nat_alt)
  obtain cms where cms: "cms_new 4 512 = Some cms" using cms_new_ok [of 4 512] by (auto elim!: oksE)
  have "win = 0 \<longleftrightarrow> unat win = 0" "capacity = 3 \<longleftrightarrow> unat capacity = 3"
    by (simp_all add: word_unat_eq_iff)
  moreover have "unat win = 0 \<longleftrightarrow> unat capacity = 3" using win c by (auto split: if_splits)
  moreover have "unat win + unat main = unat capacity" "3 \<le> unat main" using main winle by auto
  moreover have "unat prob + unat (main - prob) = unat main" "1 \<le> unat prob" "1 \<le> unat (main - prob)"
    using prot prob p(2) calculation by auto
  ultimately show ?thesis
    using assms w(1) p(1) cms
    by (simp add: stripe_new_def Let_def flip: win_def main_def prob_def)
qed

text \<open>The constructor splits the capacity: window and main region add up to it, probation and
  protected add up to the main region, and every region that has to hold an entry can hold one; only a
  stripe of the smallest capacity, 3, has no window.\<close>

theorem stripe_capacities:
  assumes "3 \<le> capacity"
  shows "oks (stripe_new capacity f32_0_01 f32_0_20) (\<lambda>st.
    unat (st_window_capacity st) + unat (st_main_capacity st) = unat capacity \<and>
    unat (st_probation_capacity st) + unat (st_protected_capacity st) = unat (st_main_capacity st) \<and>
    3 \<le> unat (st_main_capacity st) \<and> 1 \<le> unat (st_probation_capacity st) \<and> 1 \<le> unat (st_protected_capacity st) \<and>
    (st_window_capacity st = 0 \<longleftrightarrow> capacity = 3))"
  by (rule stripe_capacities_ok [OF assms])

theorem stripe_capacities_witness:
  "oks (stripe_new 128 f32_0_01 f32_0_20) (\<lambda>st.
    unat (st_window_capacity st) + unat (st_main_capacity st) = 128 \<and>
    unat (st_probation_capacity st) + unat (st_protected_capacity st) = unat (st_main_capacity st) \<and>
    3 \<le> unat (st_main_capacity st) \<and> 1 \<le> unat (st_probation_capacity st) \<and> 1 \<le> unat (st_protected_capacity st) \<and>
    (st_window_capacity st = 0 \<longleftrightarrow> (128 :: u32) = 3))"
  using stripe_capacities [of 128] by (simp add: word_le_nat_alt)

section \<open>Sequences of operations\<close>

datatype cache_op = Get string | Put string string | Remove string
datatype cache_result = Found "string option" | Flag bool

definition stripe_do :: "hash32 \<Rightarrow> cache_op \<Rightarrow> shard \<Rightarrow> (cache_result \<times> shard) option" where
  "stripe_do h32 op v =
     (case op of
        Get key \<Rightarrow> map_option (map_prod Found id) (stripe_get h32 key v)
      | Put key val \<Rightarrow> map_option (map_prod Flag id) (stripe_put h32 key val v)
      | Remove key \<Rightarrow> map_option (map_prod Flag id) (stripe_remove key v))"

definition policy_do :: "hash32 \<Rightarrow> cache_op \<Rightarrow> policy \<Rightarrow> cache_result \<times> policy" where
  "policy_do h32 op p =
     (case op of
        Get key \<Rightarrow> map_prod Found id (p_get h32 key p)
      | Put key val \<Rightarrow> map_prod Flag id (p_put h32 key val p)
      | Remove key \<Rightarrow> map_prod Flag id (p_remove key p))"

fun stripe_run :: "hash32 \<Rightarrow> cache_op list \<Rightarrow> shard \<Rightarrow> (cache_result list \<times> shard) option" where
  "stripe_run h32 [] v = Some ([], v)"
| "stripe_run h32 (op # ops) v = do {
     (r, v) \<leftarrow> stripe_do h32 op v;
     (rs, v) \<leftarrow> stripe_run h32 ops v;
     Some (r # rs, v)
   }"

fun policy_run :: "hash32 \<Rightarrow> cache_op list \<Rightarrow> policy \<Rightarrow> cache_result list \<times> policy" where
  "policy_run h32 [] p = ([], p)"
| "policy_run h32 (op # ops) p =
     (let (r, p) = policy_do h32 op p; (rs, p) = policy_run h32 ops p in (r # rs, p))"

lemma stripe_do_implements:
  assumes "implements v F p"
  shows "oks (stripe_do h32 op v) (\<lambda>(r, v'). r = fst (policy_do h32 op p) \<and>
           implements v' F (snd (policy_do h32 op p)) \<and> changes v v' F UNIV)"
proof (cases op)
  case (Get key)
  then show ?thesis
    by (auto simp: stripe_do_def policy_do_def intro!: oks_mono [OF stripe_get_implements [OF assms, of h32 key]])
next
  case (Put key val)
  then show ?thesis
    by (auto simp: stripe_do_def policy_do_def intro!: oks_mono [OF stripe_put_implements [OF assms, of h32 key val]])
next
  case (Remove key)
  then show ?thesis
    by (auto simp: stripe_do_def policy_do_def intro!: oks_mono [OF stripe_remove_implements [OF assms, of key]])
qed

lemma stripe_run_implements:
  "implements v F p \<Longrightarrow>
   oks (stripe_run h32 ops v) (\<lambda>(rs, v'). rs = fst (policy_run h32 ops p) \<and>
     implements v' F (snd (policy_run h32 ops p)) \<and> changes v v' F UNIV)"
proof (induction ops arbitrary: v p)
  case (Cons op ops)
  obtain r v1 where d: "stripe_do h32 op v = Some (r, v1)" "r = fst (policy_do h32 op p)"
      "implements v1 F (snd (policy_do h32 op p))" "changes v v1 F UNIV"
    using stripe_do_implements [OF Cons.prems, of h32 op] by (auto elim!: oksE)
  show ?case
    using Cons.IH [OF d(3)] d by (auto simp: case_prod_beta elim!: oksE intro: changes_trans)
qed simp

lemma policy_do_ok: "policy_ok p \<Longrightarrow> policy_ok (snd (policy_do h32 op p)) \<and> caps (snd (policy_do h32 op p)) = caps p"
  by (cases op) (simp_all add: policy_do_def policy_ok_get policy_ok_put policy_ok_remove)

lemma policy_run_ok: "policy_ok p \<Longrightarrow> policy_ok (snd (policy_run h32 ops p)) \<and> caps (snd (policy_run h32 ops p)) = caps p"
proof (induction ops arbitrary: p)
  case (Cons op ops)
  then show ?case using policy_do_ok [OF Cons.prems, of h32 op] by (simp add: case_prod_beta)
qed simp

lemma foot_card:
  assumes "shard_rep v fs G []"
  shows "card (foot fs G []) = length fs + length (t_all G)"
proof -
  have d: "distinct (t_all G)" using entries_distinct [OF assms] by (simp add: t_all_map distinct_map)
  moreover have "distinct fs" "set fs \<inter> set (t_all G) = {}"
    using assms shard_rep_slab [OF assms] by (auto simp: shard_rep_def slab_rep_def set_t_all)
  moreover have "foot fs G [] = set (fs @ t_all G)" by (auto simp: foot_def set_t_all)
  ultimately show ?thesis by (metis distinct_append distinct_card length_append)
qed

lemma policy_new_ok: "policy_ok (policy_new n q st)"
  by (simp add: policy_ok_def policy_new_def t_all_def)

lemma demo_parts:
  obtains s st where "slab_new 8 = Inr s" and "stripe_new 4 f32_0_01 f32_0_20 = Some st" and "dq_inv (dq_new 4)"
proof -
  obtain st where "stripe_new 4 f32_0_01 f32_0_20 = Some st"
    using stripe_capacities_ok [of 4] by (auto simp: word_le_nat_alt elim!: oksE)
  moreover have "dq_inv (dq_new 4)" by (rule dq_new_inv) (simp_all add: word_less_nat_alt)
  ultimately show ?thesis using that by (simp add: slab_new_def)
qed

abbreviation demo_ops :: "cache_op list" where
  "demo_ops \<equiv> [Put ''a'' ''1'', Put ''b'' ''2'', Get ''a'', Remove ''b'', Put ''c'' ''3'', Put ''d'' ''4'', Put ''e'' ''5'']"

abbreviation demo_hash :: hash32 where
  "demo_hash \<equiv> \<lambda>key seed. seed + of_nat (length key)"

text \<open>C12. A stripe refines its policy: whatever the percentages, the hash function and the sequence of
  operations, a stripe built over a fresh slab runs the sequence to its end (no assertion fails, no index
  is out of range, every loop ends), answers every operation as the policy does, and its three lists,
  its counters, the free nodes and the queue are then what the policy says.\<close>

theorem stripe_refines_policy:
  assumes "slab_new n = Inr s" and "stripe_new capacity wp pp = Some st" and "dq_inv q"
  shows "oks (stripe_run h32 ops \<lparr>sh_slab = s, sh_queue = q, sh_stripe = stripe_set_demotion_queue b st\<rparr>)
    (\<lambda>(rs, v). (rs, shard_view v) = policy_run h32 ops (policy_new n q (stripe_set_demotion_queue b st)))"
  by (rule oks_mono [OF stripe_run_implements [OF shard_new_implements [OF assms]]])
    (auto simp: implements_view prod_eq_iff)

theorem stripe_refines_policy_witness:
  "\<exists>s st. slab_new 8 = Inr s \<and> stripe_new 4 f32_0_01 f32_0_20 = Some st \<and>
    oks (stripe_run demo_hash demo_ops \<lparr>sh_slab = s, sh_queue = dq_new 4, sh_stripe = stripe_set_demotion_queue True st\<rparr>)
      (\<lambda>(rs, v). (rs, shard_view v) = policy_run demo_hash demo_ops (policy_new 8 (dq_new 4) (stripe_set_demotion_queue True st)))"
proof -
  obtain s st where d: "slab_new 8 = Inr s" "stripe_new 4 f32_0_01 f32_0_20 = Some st" "dq_inv (dq_new 4)"
    by (rule demo_parts)
  show ?thesis
    using d(1,2) stripe_refines_policy [OF d, of demo_hash demo_ops True]
    by blast
qed

text \<open>C13. The stripe's invariant after any sequence of operations: the window holds at most its capacity,
  probation and protected together at most the main capacity, and protected at most its own (a stripe whose
  protected capacity is 0 still protects one entry). Probation has no bound of its own: the code never compares it with
  \<open>probation_capacity_\<close>. Every key is in one list only, and the nodes on the lists and the free nodes are exactly the
  slab's nodes.\<close>

theorem stripe_bounded:
  assumes "slab_new n = Inr s" and "stripe_new capacity wp pp = Some st" and "dq_inv q"
  shows "oks (stripe_run h32 ops \<lparr>sh_slab = s, sh_queue = q, sh_stripe = stripe_set_demotion_queue b st\<rparr>)
    (\<lambda>(rs, v). let L = p_tiers (shard_view v) in
       length (L Win) \<le> unat (st_window_capacity st) \<and>
       length (L Prob) + length (L Prot) \<le> unat (st_main_capacity st) \<and>
       length (L Prot) \<le> max 1 (unat (st_protected_capacity st)) \<and>
       distinct (map fst (t_all L)) \<and>
       set (slab_free_list (sh_slab v)) \<union> owned (shard_lists v) = {i. i < n} \<and>
       p_free (shard_view v) + length (t_all L) = unat n)"
proof (rule oks_mono [OF stripe_run_implements [OF shard_new_implements [OF assms]]], clarify)
  fix v
  let ?p = "policy_new n q (stripe_set_demotion_queue b st)"
  assume "implements v {i. i < n} (snd (policy_run h32 ops ?p))"
  then have inv: "shard_inv v {i. i < n}" and view: "shard_view v = snd (policy_run h32 ops ?p)"
    by (simp_all add: implements_view)
  have ok: "policy_ok (shard_view v) \<and> caps (shard_view v) = caps ?p"
    unfolding view by (rule policy_run_ok [OF policy_new_ok])
  show "let L = p_tiers (shard_view v) in
       length (L Win) \<le> unat (st_window_capacity st) \<and>
       length (L Prob) + length (L Prot) \<le> unat (st_main_capacity st) \<and>
       length (L Prot) \<le> max 1 (unat (st_protected_capacity st)) \<and>
       distinct (map fst (t_all L)) \<and>
       set (slab_free_list (sh_slab v)) \<union> owned (shard_lists v) = {i. i < n} \<and>
       p_free (shard_view v) + length (t_all L) = unat n"
  proof -
    have rep: "shard_rep v (slab_free_list (sh_slab v)) (shard_lists v) []"
      and F: "foot (slab_free_list (sh_slab v)) (shard_lists v) [] = {i. i < n}"
      using inv by (simp_all add: shard_inv_def shard_ok_def)
    have "p_free (shard_view v) + length (t_all (p_tiers (shard_view v))) = unat n"
      using foot_card [OF rep] unfolding F card_less_u32 by (simp add: shard_view_def t_all_map)
    moreover have "set (slab_free_list (sh_slab v)) \<union> owned (shard_lists v) = {i. i < n}"
      using F by (simp only: foot_def list.set Un_empty_right)
    moreover have "st_window_capacity (p_stripe (shard_view v)) = st_window_capacity st"
        "st_main_capacity (p_stripe (shard_view v)) = st_main_capacity st"
        "st_protected_capacity (p_stripe (shard_view v)) = st_protected_capacity st"
      using ok by (simp_all add: caps_def policy_new_def stripe_set_demotion_queue_def)
    ultimately show ?thesis
      using ok unfolding Let_def policy_ok_def by simp
  qed
qed

theorem stripe_bounded_witness:
  "\<exists>s st. slab_new 8 = Inr s \<and> stripe_new 4 f32_0_01 f32_0_20 = Some st \<and>
    oks (stripe_run demo_hash demo_ops \<lparr>sh_slab = s, sh_queue = dq_new 4, sh_stripe = stripe_set_demotion_queue True st\<rparr>)
      (\<lambda>(rs, v). let L = p_tiers (shard_view v) in
       length (L Win) \<le> unat (st_window_capacity st) \<and>
       length (L Prob) + length (L Prot) \<le> unat (st_main_capacity st) \<and>
       length (L Prot) \<le> max 1 (unat (st_protected_capacity st)) \<and>
       distinct (map fst (t_all L)) \<and>
       set (slab_free_list (sh_slab v)) \<union> owned (shard_lists v) = {i. i < 8} \<and>
       p_free (shard_view v) + length (t_all L) = unat (8 :: u32))"
proof -
  obtain s st where d: "slab_new 8 = Inr s" "stripe_new 4 f32_0_01 f32_0_20 = Some st" "dq_inv (dq_new 4)"
    by (rule demo_parts)
  show ?thesis
    using d(1,2) stripe_bounded [OF d, of demo_hash demo_ops True]
    by blast
qed

section \<open>Reads, writes, removals and evictions\<close>

lemma stripe_run_ok:
  fixes b :: bool
  assumes "slab_new n = Inr s" and "stripe_new capacity wp pp = Some st" and "dq_inv q"
  defines "v0 \<equiv> \<lparr>sh_slab = s, sh_queue = q, sh_stripe = stripe_set_demotion_queue b st\<rparr>"
  shows "oks (stripe_run h32 ops v0) (\<lambda>(rs, v). implements v {i. i < n} (shard_view v) \<and> policy_ok (shard_view v) \<and>
           caps (shard_view v) = (st_window_capacity st, st_main_capacity st, st_protected_capacity st, b, dq_limit q) \<and>
           p_free (shard_view v) + length (t_all (p_tiers (shard_view v))) = unat n)"
proof -
  have "caps (policy_new n q (stripe_set_demotion_queue b st)) =
      (st_window_capacity st, st_main_capacity st, st_protected_capacity st, b, dq_limit q)"
    by (simp add: caps_def policy_new_def stripe_set_demotion_queue_def)
  then have c: "policy_ok p' \<and> caps p' = (st_window_capacity st, st_main_capacity st, st_protected_capacity st, b, dq_limit q)"
    if "p' = snd (policy_run h32 ops (policy_new n q (stripe_set_demotion_queue b st)))" for p'
    using that policy_run_ok [OF policy_new_ok] by simp
  have l: "p_free (shard_view v) + length (t_all (p_tiers (shard_view v))) = unat n" if "shard_inv v {i. i < n}" for v
    using that foot_card [of v "slab_free_list (sh_slab v)" "shard_lists v"]
    unfolding shard_inv_def shard_ok_def by (auto simp: shard_view_def t_all_map card_less_u32)
  show ?thesis
    unfolding v0_def
    by (rule oks_mono [OF stripe_run_implements [OF shard_new_implements [OF assms(1-3)]]])
      (use c l in \<open>auto simp: implements_view\<close>)
qed

lemma put_lookup_key:
  assumes ok: "policy_ok p" and room: "p_lookup p key \<noteq> None \<or> st_window_capacity (p_stripe p) \<noteq> 0 \<and> p_free p \<noteq> 0"
  shows "p_lookup (snd (p_put h32 key val p)) key = Some val"
proof (cases "p_lookup p key")
  case None
  let ?a = "p_arrival h32 (key, val) p"
  note la = arrival_lookup [of h32 key val p]
  show ?thesis
  proof (cases "length (p_tiers p Win) = unat (st_window_capacity (p_stripe p))")
    case True
    then have ne: "p_tiers p Win \<noteq> []" using room None by (auto simp: unsigned_eq_0_iff)
    note acore = arrival_core [OF ok [unfolded policy_ok_core, THEN conjunct1] None, of h32 val]
    have out: "key \<notin> fst ` set (t_all (p_tiers p))" using None by (simp add: p_lookup_def map_of_eq_None_iff)
    let ?o = "snd (t_admit (unat (st_main_capacity (p_stripe ?a))) (p_freq h32 ?a \<circ> fst) (p_tiers ?a))"
    have other: "fst e \<noteq> key" if "?o = Rejected e \<or> ?o = Replaced e" for e
      using that out ne by (auto simp: t_admit_def t_judge_def Let_def t_all_def split: if_splits)
    have "p_lookup (p_admit h32 ?a) key = Some val"
      unfolding admit_lookup [OF acore] using other la by (cases ?o) auto
    then show ?thesis using put_new [OF ok None] room None True by simp
  next
    case False
    then show ?thesis using put_new [OF ok None] room None la by auto
  qed
qed (use put_existing(2) ok in \<open>simp add: policy_ok_core\<close>)

lemma stripe_run_append:
  "stripe_run h32 (xs @ ys) v = do {
     (rs, v) \<leftarrow> stripe_run h32 xs v; (rs', v) \<leftarrow> stripe_run h32 ys v; Some (rs @ rs', v) }"
  by (induction xs arbitrary: v) (auto simp: case_prod_beta split: bind_splits)

lemma get_lookup: "policy_ok p \<Longrightarrow> fst (p_get h32 key p) = p_lookup p key"
  by (simp add: p_get_def split: option.split)

lemma get_keeps:
  assumes "policy_ok p"
  shows "p_lookup (snd (p_get h32 key p)) = p_lookup p" and "p_free (snd (p_get h32 key p)) = p_free p"
proof -
  have "p_lookup (p_touch key (p_count h32 key p)) = p_lookup p"
    using assms core_caps [of "p_count h32 key p" p] lookup_touch [of "p_count h32 key p" key]
      p_lookup_cong [of "p_count h32 key p" p] by (simp add: policy_ok_core)
  then show "p_lookup (snd (p_get h32 key p)) = p_lookup p"
    using p_lookup_cong [of "snd (p_get h32 key p)" "p_touch key (p_count h32 key p)"]
      p_lookup_cong [of "snd (p_get h32 key p)" p]
    by (cases "p_lookup p key") (simp_all add: p_get_def Let_def)
  show "p_free (snd (p_get h32 key p)) = p_free p"
    by (simp add: p_get_def Let_def p_touch_def split: option.split)
qed

lemma slab_available_free: "implements v F p \<Longrightarrow> unat (slab_available (sh_slab v)) = p_free p"
  using slab_free_count_length [OF shard_rep_slab]
  by (auto simp: implements_def shard_ok_def slab_available_def)

text \<open>C15. Read your write: on a stripe with a window (capacity at least 4, the percentages of the default
  configuration) over a slab with more nodes than the stripe's capacity, a value that was just put is
  found, whatever happened before.\<close>

theorem stripe_read_your_write:
  assumes "slab_new n = Inr s" and "stripe_new capacity f32_0_01 f32_0_20 = Some st" and "dq_inv q"
    and "4 \<le> capacity" and "capacity < n"
  shows "oks (stripe_run h32 (ops @ [Put key val, Get key])
           \<lparr>sh_slab = s, sh_queue = q, sh_stripe = stripe_set_demotion_queue b st\<rparr>)
         (\<lambda>(rs, v). last rs = Found (Some val))"
proof -
  have caps: "unat (st_window_capacity st) + unat (st_main_capacity st) = unat capacity" "st_window_capacity st \<noteq> 0"
    using stripe_capacities_ok [of capacity] assms(2,4) by (auto simp: word_le_nat_alt)
  show ?thesis
    unfolding stripe_run_append
  proof (rule oks_bindI [OF stripe_run_ok [OF assms(1-3)]], clarify)
    fix rs v
    let ?p = "shard_view v"
    assume v: "implements v {i. i < n} ?p" and ok: "policy_ok ?p"
      and c: "caps ?p = (st_window_capacity st, st_main_capacity st, st_protected_capacity st, b, dq_limit q)"
      and free: "p_free ?p + length (t_all (p_tiers ?p)) = unat n"
    have "length (t_all (p_tiers ?p)) \<le> unat capacity"
      using ok c caps(1) by (simp add: policy_ok_def caps_def t_all_def)
    then have "p_free ?p \<noteq> 0" using free assms(5) by (auto simp: word_less_nat_alt)
    then have l: "p_lookup (snd (p_put h32 key val ?p)) key = Some val"
      using put_lookup_key [OF ok, of key h32 val] caps(2) c by (simp add: caps_def)
    show "oks (do { (rs', v) \<leftarrow> stripe_run h32 [Put key val, Get key] v; Some (rs @ rs', v) })
        (\<lambda>(rs, v). last rs = Found (Some val))"
      using stripe_run_implements [OF v, of h32 "[Put key val, Get key]"] l
        get_lookup [of "snd (p_put h32 key val ?p)" h32 key] policy_ok_put [OF ok, of h32 key val]
      by (auto simp: policy_do_def case_prod_beta elim!: oks_mono)
  qed
qed

theorem stripe_read_your_write_witness:
  "\<exists>s st. slab_new 8 = Inr s \<and> stripe_new 4 f32_0_01 f32_0_20 = Some st \<and>
    oks (stripe_run demo_hash (demo_ops @ [Put ''a'' ''9'', Get ''a'']) \<lparr>sh_slab = s, sh_queue = dq_new 4, sh_stripe = stripe_set_demotion_queue True st\<rparr>)
      (\<lambda>(rs, v). last rs = Found (Some ''9''))"
proof -
  obtain s st where d: "slab_new 8 = Inr s" "stripe_new 4 f32_0_01 f32_0_20 = Some st" "dq_inv (dq_new 4)"
    by (rule demo_parts)
  show ?thesis
    using d(1,2) stripe_read_your_write [OF d, of demo_hash demo_ops "''a''" "''9''" True]
    by (simp add: word_le_nat_alt word_less_nat_alt del: stripe_run.simps)
qed

text \<open>After any sequence of operations, a get answers from the stripe's entries, keeps every entry and
  evicts nothing; a remove answers whether the key was present and deletes exactly that key, giving its
  node back to the slab.\<close>

theorem stripe_get_remove:
  assumes "slab_new n = Inr s" and "stripe_new capacity wp pp = Some st" and "dq_inv q"
  shows "oks (stripe_run h32 ops \<lparr>sh_slab = s, sh_queue = q, sh_stripe = stripe_set_demotion_queue b st\<rparr>) (\<lambda>(_, v).
    oks (stripe_get h32 key v) (\<lambda>(r, v'). r = p_lookup (shard_view v) key \<and>
      p_lookup (shard_view v') = p_lookup (shard_view v) \<and> slab_available (sh_slab v') = slab_available (sh_slab v)) \<and>
    oks (stripe_remove key v) (\<lambda>(r, v'). r = (p_lookup (shard_view v) key \<noteq> None) \<and>
      p_lookup (shard_view v') = (p_lookup (shard_view v))(key := None) \<and>
      p_free (shard_view v') = p_free (shard_view v) + (if r then 1 else 0)))"
proof (rule oks_mono [OF stripe_run_ok [OF assms]], clarify, intro conjI)
  fix v
  let ?p = "shard_view v"
  assume v: "implements v {i. i < n} ?p" and ok: "policy_ok ?p"
  have view: "shard_view w = p" "unat (slab_available (sh_slab w)) = p_free p" if "implements w {i. i < n} p" for w p
    using that slab_available_free [OF that] by (simp_all add: implements_view)
  show "oks (stripe_get h32 key v) (\<lambda>(r, v'). r = p_lookup ?p key \<and>
      p_lookup (shard_view v') = p_lookup ?p \<and> slab_available (sh_slab v') = slab_available (sh_slab v))"
    by (rule oks_mono [OF stripe_get_implements [OF v, of h32 key]])
      (use view(2) [OF v] get_lookup [OF ok, of h32 key] get_keeps [OF ok, of h32 key] in
        \<open>auto simp: word_unat_eq_iff dest: view\<close>)
  show "oks (stripe_remove key v) (\<lambda>(r, v'). r = (p_lookup ?p key \<noteq> None) \<and>
      p_lookup (shard_view v') = (p_lookup ?p)(key := None) \<and>
      p_free (shard_view v') = p_free ?p + (if r then 1 else 0))"
    by (rule oks_mono [OF stripe_remove_implements [OF v, of key]])
      (auto simp: p_remove_def lookup_drop dest!: view(1) split: if_splits)
qed

theorem stripe_get_remove_witness:
  "\<exists>s st. slab_new 8 = Inr s \<and> stripe_new 4 f32_0_01 f32_0_20 = Some st \<and>
    oks (stripe_run demo_hash demo_ops \<lparr>sh_slab = s, sh_queue = dq_new 4, sh_stripe = stripe_set_demotion_queue True st\<rparr>) (\<lambda>(_, v).
    oks (stripe_get demo_hash ''a'' v) (\<lambda>(r, v'). r = p_lookup (shard_view v) ''a'' \<and>
      p_lookup (shard_view v') = p_lookup (shard_view v) \<and> slab_available (sh_slab v') = slab_available (sh_slab v)) \<and>
    oks (stripe_remove ''a'' v) (\<lambda>(r, v'). r = (p_lookup (shard_view v) ''a'' \<noteq> None) \<and>
      p_lookup (shard_view v') = (p_lookup (shard_view v))(''a'' := None) \<and>
      p_free (shard_view v') = p_free (shard_view v) + (if r then 1 else 0)))"
proof -
  obtain s st where d: "slab_new 8 = Inr s" "stripe_new 4 f32_0_01 f32_0_20 = Some st" "dq_inv (dq_new 4)"
    by (rule demo_parts)
  show ?thesis
    using d(1,2) stripe_get_remove [OF d, of demo_hash demo_ops True "''a''"]
    by blast
qed

text \<open>C14. The admission gate: an entry other than the one being put is lost only when window and main
  region are full, and then only the window's oldest entry (when it does not beat the probation victim)
  or the probation victim (when it is strictly less frequent than the candidate, and then it is queued
  for demotion if the queue has room). Entries of the protected list are never lost to a put.\<close>

theorem stripe_admission_gate:
  assumes "slab_new n = Inr s" and "stripe_new capacity wp pp = Some st" and "dq_inv q"
  shows "oks (stripe_run h32 ops \<lparr>sh_slab = s, sh_queue = q, sh_stripe = stripe_set_demotion_queue b st\<rparr>) (\<lambda>(_, v).
    oks (stripe_put h32 key val v) (\<lambda>(_, v').
      \<forall>k x. k \<noteq> key \<longrightarrow> p_lookup (shard_view v) k = Some x \<longrightarrow>
        p_lookup (shard_view v') k = Some x \<or> gives_way h32 (key, val) (shard_view v) k x (shard_view v')))"
proof (rule oks_mono [OF stripe_run_ok [OF assms]], clarify)
  fix v
  let ?p = "shard_view v" and ?p' = "snd (p_put h32 key val (shard_view v))"
  assume v: "implements v {i. i < n} ?p" and ok: "policy_ok ?p"
  have "\<forall>k x. k \<noteq> key \<longrightarrow> p_lookup ?p k = Some x \<longrightarrow>
      p_lookup ?p' k = Some x \<or> gives_way h32 (key, val) ?p k x ?p'"
    using put_gives_way [OF ok, of _ key _ h32 val] put_lookup_other [OF ok, of _ key h32 val] by fastforce
  then show "oks (stripe_put h32 key val v) (\<lambda>(_, v').
      \<forall>k x. k \<noteq> key \<longrightarrow> p_lookup ?p k = Some x \<longrightarrow>
        p_lookup (shard_view v') k = Some x \<or> gives_way h32 (key, val) ?p k x (shard_view v'))"
    by (intro oks_mono [OF stripe_put_implements [OF v, of h32 key val]]) (auto simp: implements_view)
qed

theorem stripe_admission_gate_witness:
  "\<exists>s st. slab_new 8 = Inr s \<and> stripe_new 4 f32_0_01 f32_0_20 = Some st \<and>
    oks (stripe_run demo_hash demo_ops \<lparr>sh_slab = s, sh_queue = dq_new 4, sh_stripe = stripe_set_demotion_queue True st\<rparr>) (\<lambda>(_, v).
    oks (stripe_put demo_hash ''f'' ''6'' v) (\<lambda>(_, v').
      \<forall>k x. k \<noteq> ''f'' \<longrightarrow> p_lookup (shard_view v) k = Some x \<longrightarrow>
        p_lookup (shard_view v') k = Some x \<or> gives_way demo_hash (''f'', ''6'') (shard_view v) k x (shard_view v')))"
proof -
  obtain s st where d: "slab_new 8 = Inr s" "stripe_new 4 f32_0_01 f32_0_20 = Some st" "dq_inv (dq_new 4)"
    by (rule demo_parts)
  show ?thesis
    using d(1,2) stripe_admission_gate [OF d, of demo_hash demo_ops True "''f''" "''6''"]
    by blast
qed

end
