(* ===== verification/Striped_Cache.thy ===== *)
theory Striped_Cache
  imports Cache_Stripe_Props
begin

text \<open>
  \<open>StripedCache\<close> (\<open>include/striped_cache.h\<close>, \<open>src/striped_cache.cpp\<close>): 64 stripes over one slab, a key
  routed to a stripe by its 64-bit hash. The hash function (XXH64, third-party) is the parameter
  \<open>h64\<close>; nothing is assumed of it. Every operation locks one stripe at a time, so an operation is one
  atomic step of the stripe it is routed to; \<open>batch_get\<close> is a sequence of such steps.
\<close>

type_synonym hash64 = "string \<Rightarrow> u64 \<Rightarrow> u64"

record sc_config =
  cf_total_capacity :: u32
  cf_window_pct :: float32
  cf_probation_pct :: float32

definition default_config :: sc_config where
  "default_config = \<lparr>cf_total_capacity = 8192, cf_window_pct = f32_0_01, cf_probation_pct = f32_0_20\<rparr>"

text \<open>\<open>sc_queue\<close> is the queue the stripes' pointers refer to, when they are set.\<close>

record scache =
  sc_slab :: slab
  sc_queue :: dqueue
  sc_stripes :: "stripe list"

section \<open>Operations\<close>

definition per_stripe :: "u32 \<Rightarrow> u32" where
  "per_stripe total_capacity =
     (let per_stripe = total_capacity div kNumStripes in if per_stripe < 3 then 3 else per_stripe)"

definition make_stripes :: "sc_config \<Rightarrow> u32 \<Rightarrow> stripe list option" where
  "make_stripes config capacity =
     ofold (\<lambda>_ stripes. do {
         st \<leftarrow> stripe_new capacity (cf_window_pct config) (cf_probation_pct config);
         Some (stripes @ [st])
       }) (upto32 kNumStripes) []"

definition sc_new :: "dqueue \<Rightarrow> sc_config \<Rightarrow> (string + scache) option" where
  "sc_new queue config =
     (case slab_new (cf_total_capacity config + kNumStripes) of
        Inl error \<Rightarrow> Some (Inl error)
      | Inr slab \<Rightarrow> do {
          stripes \<leftarrow> make_stripes config (per_stripe (cf_total_capacity config));
          Some (Inr \<lparr>sc_slab = slab, sc_queue = queue, sc_stripes = stripes\<rparr>)
        })"

definition sc_set_demotion_queue :: "bool \<Rightarrow> scache \<Rightarrow> scache" where
  "sc_set_demotion_queue present c = c\<lparr>sc_stripes := map (stripe_set_demotion_queue present) (sc_stripes c)\<rparr>"

definition route :: "hash64 \<Rightarrow> string \<Rightarrow> u32" where
  "route h64 key = ucast (h64 key 0 mod ucast kNumStripes)"

text \<open>An operation of the stripe with the given number.\<close>

definition with_stripe :: "u32 \<Rightarrow> (shard \<Rightarrow> ('r \<times> shard) option) \<Rightarrow> scache \<Rightarrow> ('r \<times> scache) option" where
  "with_stripe i f c = do {
     st \<leftarrow> vget (sc_stripes c) i;
     (r, v) \<leftarrow> f \<lparr>sh_slab = sc_slab c, sh_queue = sc_queue c, sh_stripe = st\<rparr>;
     stripes \<leftarrow> vset (sc_stripes c) i (sh_stripe v);
     Some (r, c\<lparr>sc_slab := sh_slab v, sc_queue := sh_queue v, sc_stripes := stripes\<rparr>)
   }"

definition sc_get :: "hash32 \<Rightarrow> hash64 \<Rightarrow> string \<Rightarrow> scache \<Rightarrow> (string option \<times> scache) option" where
  "sc_get h32 h64 key = with_stripe (route h64 key) (stripe_get h32 key)"

definition sc_put :: "hash32 \<Rightarrow> hash64 \<Rightarrow> string \<Rightarrow> string \<Rightarrow> scache \<Rightarrow> (bool \<times> scache) option" where
  "sc_put h32 h64 key val = with_stripe (route h64 key) (stripe_put h32 key val)"

definition sc_remove :: "hash64 \<Rightarrow> string \<Rightarrow> scache \<Rightarrow> (bool \<times> scache) option" where
  "sc_remove h64 key = with_stripe (route h64 key) (stripe_remove key)"

text \<open>\<open>batch_get\<close>: the indices of the keys grouped by stripe, then one \<open>get\<close> per index, stripe by stripe.\<close>

definition stripe_groups :: "hash64 \<Rightarrow> string list \<Rightarrow> nat list list option" where
  "stripe_groups h64 keys =
     ofold (\<lambda>i groups. do {
         let s = route h64 (keys ! i);
         group \<leftarrow> vget groups s;
         vset groups s (group @ [i])
       }) [0..<length keys] (replicate (unat kNumStripes) [])"

definition batch_stripe :: "hash32 \<Rightarrow> string list \<Rightarrow> nat list list \<Rightarrow> u32 \<Rightarrow>
    string option list \<times> scache \<Rightarrow> (string option list \<times> scache) option" where
  "batch_stripe h32 keys groups s = (\<lambda>(results, c). do {
     group \<leftarrow> vget groups s;
     ofold (\<lambda>idx (results, c). do {
         (r, c) \<leftarrow> with_stripe s (stripe_get h32 (keys ! idx)) c;
         Some (results[idx := r], c)
       }) group (results, c)
   })"

definition sc_batch_get :: "hash32 \<Rightarrow> hash64 \<Rightarrow> string list \<Rightarrow> scache \<Rightarrow> (string option list \<times> scache) option" where
  "sc_batch_get h32 h64 keys c = do {
     groups \<leftarrow> stripe_groups h64 keys;
     ofold (batch_stripe h32 keys groups) (upto32 kNumStripes) (replicate (length keys) None, c)
   }"

text \<open>The totals are sums in the counters' own width.\<close>

definition total_hits :: "scache \<Rightarrow> u64" where
  "total_hits c = fold (\<lambda>s sum. sum + st_hits s) (sc_stripes c) 0"

definition total_misses :: "scache \<Rightarrow> u64" where
  "total_misses c = fold (\<lambda>s sum. sum + st_misses s) (sc_stripes c) 0"

definition total_evictions :: "scache \<Rightarrow> u64" where
  "total_evictions c = fold (\<lambda>s sum. sum + st_evictions s) (sc_stripes c) 0"

definition total_admissions :: "scache \<Rightarrow> u64" where
  "total_admissions c = fold (\<lambda>s sum. sum + st_admissions s) (sc_stripes c) 0"

definition total_rejections :: "scache \<Rightarrow> u64" where
  "total_rejections c = fold (\<lambda>s sum. sum + st_rejections s) (sc_stripes c) 0"

definition total_size :: "scache \<Rightarrow> u32" where
  "total_size c = fold (\<lambda>s sum. sum + stripe_size s) (sc_stripes c) 0"

definition stripe_hits :: "u32 \<Rightarrow> scache \<Rightarrow> u64 option" where
  "stripe_hits i c = map_option st_hits (vget (sc_stripes c) i)"

definition stripe_misses :: "u32 \<Rightarrow> scache \<Rightarrow> u64 option" where
  "stripe_misses i c = map_option st_misses (vget (sc_stripes c) i)"

lemma unat_kNumStripes [simp]: "unat kNumStripes = 64"
  by (simp add: kNumStripes_def)

lemma route_less: "route h64 key < 64"
proof -
  have "unat (route h64 key) = unat (h64 key 0) mod 64"
    by (simp add: route_def kNumStripes_def unsigned_ucast_eq unsigned_take_bit_eq unat_mod take_bit_nat_eq_self)
  then show ?thesis by (simp add: word_less_nat_alt)
qed

end
