(* ===== verification/Striped_Cache_Props.thy ===== *)
theory Striped_Cache_Props
  imports Striped_Cache
begin

text \<open>
  The whole L1 cache: 64 stripes sharing one slab and one demotion queue. Each stripe owns its nodes, the
  free nodes belong to all; an operation on one stripe leaves the entries of the others alone. The laws
  every operation of a stripe obeys are the locale \<open>stripe_operation\<close>, interpreted on \<open>get\<close>, \<open>put\<close> and
  \<open>remove\<close>; the preservation of the cache's invariant is proved once, for any such operation.
\<close>

declare owned_iff [simp del]

section \<open>The invariant of the cache\<close>

definition shard_at :: "scache \<Rightarrow> u32 \<Rightarrow> shard" where
  "shard_at c i = \<lparr>sh_slab = sc_slab c, sh_queue = sc_queue c, sh_stripe = sc_stripes c ! unat i\<rparr>"

definition cache_rep :: "scache \<Rightarrow> u32 list \<Rightarrow> (u32 \<Rightarrow> u32 tiers) \<Rightarrow> bool" where
  "cache_rep c fs Gs \<longleftrightarrow> length (sc_stripes c) = 64 \<and>
     (\<forall>i < 64. shard_ok (shard_at c i) fs (Gs i)) \<and>
     (\<forall>i < 64. \<forall>j < 64. i \<noteq> j \<longrightarrow> owned (Gs i) \<inter> owned (Gs j) = {}) \<and>
     set fs \<union> (\<Union>i \<in> {i. i < 64}. owned (Gs i)) = {i. i < sl_capacity (sc_slab c)}"

definition stripe_view :: "scache \<Rightarrow> u32 \<Rightarrow> policy" where
  "stripe_view c i = shard_view (shard_at c i)"

definition cache_ok :: "scache \<Rightarrow> u32 \<times> u32 \<times> u32 \<times> bool \<times> nat \<Rightarrow> bool" where
  "cache_ok c K \<longleftrightarrow> (\<exists>fs Gs. cache_rep c fs Gs) \<and>
     (\<forall>i < 64. policy_ok (stripe_view c i) \<and> caps (stripe_view c i) = K)"

text \<open>What the cache answers for a key, and how many nodes are in use.\<close>

definition sc_lookup :: "hash64 \<Rightarrow> scache \<Rightarrow> string \<Rightarrow> string option" where
  "sc_lookup h64 c key = p_lookup (stripe_view c (route h64 key)) key"

lemma cache_rep_view:
  assumes "cache_rep c fs Gs" and "i < 64"
  shows "stripe_view c i = policy_of (shard_at c i) fs (Gs i)"
  using assms shard_ok_lists [of "shard_at c i" fs "Gs i"]
  by (simp add: cache_rep_def stripe_view_def shard_view_def)

section \<open>One stripe moves, the others stay\<close>

lemma shard_rep_frame:
  assumes w: "shard_rep w fs H us" and v: "sh_slab w = sh_slab v"
    and v': "shard_rep v' fs' G' os'" "foot fs' G' os' = foot fs G os" "changes v v' (foot fs G os) UNIV"
    and dj: "(owned H \<union> set us) \<inter> (owned G \<union> set os) = {}"
  defines "w' \<equiv> w\<lparr>sh_slab := sh_slab v', sh_queue := sh_queue v'\<rparr>"
  shows "shard_rep w' fs' H us" and "\<And>i. i \<in> owned H \<union> set us \<Longrightarrow> entry_of w' i = entry_of w i"
    and "(owned H \<union> set us) \<inter> (owned G' \<union> set os') = {}"
proof -
  have "(owned H \<union> set us) \<inter> set fs = {}" using w unfolding shard_rep_def owned_def by blast
  then have out: "(owned H \<union> set us) \<inter> foot fs G os = {}" using dj by (auto simp: foot_def)
  then have dj': "(owned H \<union> set us) \<inter> set fs' = {}" "(owned H \<union> set us) \<inter> (owned G' \<union> set os') = {}"
    unfolding v'(2) [symmetric] by (auto simp: foot_def)
  then show "(owned H \<union> set us) \<inter> (owned G' \<union> set os') = {}" by simp
  have cap: "sl_capacity (sh_slab v') = sl_capacity (sh_slab w)" using v'(3) v by (simp add: changes_def)
  have same: "node_at (sh_slab v') i = node_at (sh_slab w) i" if "i \<in> owned H \<union> set us" for i
    using that out v'(3) v by (auto simp: changes_def disjoint_iff)
  have sg: "node_at (sh_slab v') i = node_at (sh_slab w) i" if "i \<in> set (H g)" for i g
    using that by (intro same) (auto simp: owned_iff)
  have s: "slab_rep (sh_slab v') fs'" using v'(1) by (simp add: shard_rep_def)
  have l: "lru_rep (sh_slab v') (get_lru g (sh_stripe w)) (H g)" for g
    using lru_rep_cong [OF cap, of "H g"] sg shard_rep_list(1) [OF w, of g] by simp
  have ix: "index_ok (st_index_map (sh_stripe w)) (\<lambda>i. n_key (node_at (sh_slab v') i)) (owned H \<union> set us)"
    using shard_rep_index_ok [OF w] index_ok_cong [of "owned H \<union> set us" "\<lambda>i. n_key (node_at (sh_slab v') i)" "nkey w"] same
    by simp
  have d: "set (H g) \<inter> set fs' = {}" "set fs' \<inter> set us = {}" for g using dj'(1) by (auto simp: owned_def)
  then have d': "set (H g) \<inter> (set fs' \<union> set us) = {}" for g using w by (auto simp: shard_rep_def)
  show "shard_rep w' fs' H us"
    using w s l ix d' d(2) sg cap by (simp add: shard_rep_def w'_def)
  show "\<And>i. i \<in> owned H \<union> set us \<Longrightarrow> entry_of w' i = entry_of w i" by (simp add: entry_of_def w'_def same)
qed

lemma shard_ok_frame:
  assumes w: "shard_ok w fs H" and v: "shard_ok v fs G" "sh_slab w = sh_slab v"
    and v': "shard_ok v' fs' G'" "foot fs' G' [] = foot fs G []" "changes v v' (foot fs G []) UNIV"
    and dj: "owned H \<inter> owned G = {}"
  defines "w' \<equiv> w\<lparr>sh_slab := sh_slab v', sh_queue := sh_queue v'\<rparr>"
  shows "shard_ok w' fs' H" and "t_map (entry_of w') H = t_map (entry_of w) H" and "owned H \<inter> owned G' = {}"
  using shard_rep_frame [of w fs H "[]" v v' fs' G' "[]" G "[]"] assms
  by (auto simp: shard_ok_def w'_def intro!: t_map_cong)

lemma shard_rep_lists_disj: "shard_ok w fs H \<Longrightarrow> set fs \<inter> owned H = {}"
  unfolding shard_ok_def shard_rep_def owned_def by auto

text \<open>The entries and the state of a stripe that another stripe's operation cannot change.\<close>

definition stays :: "scache \<Rightarrow> scache \<Rightarrow> u32 \<Rightarrow> bool" where
  "stays c c' j \<longleftrightarrow> p_tiers (stripe_view c' j) = p_tiers (stripe_view c j) \<and>
     p_stripe (stripe_view c' j) = p_stripe (stripe_view c j)"

locale stripe_operation =
  fixes f :: "shard \<Rightarrow> ('r \<times> shard) option" and g :: "policy \<Rightarrow> 'r \<times> policy"
  assumes implements: "implements v F p \<Longrightarrow>
      oks (f v) (\<lambda>(r, v'). r = fst (g p) \<and> implements v' F (snd (g p)) \<and> changes v v' F UNIV)"
    and keeps: "policy_ok p \<Longrightarrow> policy_ok (snd (g p)) \<and> caps (snd (g p)) = caps p"
begin

lemma with_stripe_rep:
  assumes rep: "cache_rep c fs Gs" and i: "i < 64"
  shows "oks (with_stripe i f c) (\<lambda>(r, c'). r = fst (g (stripe_view c i)) \<and>
    (\<exists>fs' Gs'. cache_rep c' fs' Gs') \<and> sl_capacity (sc_slab c') = sl_capacity (sc_slab c) \<and>
    stripe_view c' i = snd (g (stripe_view c i)) \<and> (\<forall>j < 64. j \<noteq> i \<longrightarrow> stays c c' j))"
proof -
  have len: "length (sc_stripes c) = 64" and ok: "\<And>j. j < 64 \<Longrightarrow> shard_ok (shard_at c j) fs (Gs j)"
    and dj: "\<And>j k. j < 64 \<Longrightarrow> k < 64 \<Longrightarrow> j \<noteq> k \<Longrightarrow> owned (Gs j) \<inter> owned (Gs k) = {}"
    and all: "set fs \<union> (\<Union>j \<in> {j. j < 64}. owned (Gs j)) = {i. i < sl_capacity (sc_slab c)}"
    using rep by (auto simp: cache_rep_def)
  have un: "unat j < 64" if "j < 64" for j :: u32 using that by (simp add: word_less_nat_alt)
  let ?v = "shard_at c i" and ?F = "foot fs (Gs i) []"
  have view: "stripe_view c i = policy_of ?v fs (Gs i)" by (rule cache_rep_view [OF rep i])
  have imp: "implements ?v ?F (stripe_view c i)" unfolding view by (rule implementsI [OF ok [OF i]])
  have get: "vget (sc_stripes c) i = Some (sc_stripes c ! unat i)" using len un [OF i] by (simp add: vget_def)
  have main: "(\<exists>fs' Gs'. cache_rep c' fs' Gs') \<and> sl_capacity (sc_slab c') = sl_capacity (sc_slab c) \<and>
      stripe_view c' i = p \<and> (\<forall>j < 64. j \<noteq> i \<longrightarrow> stays c c' j)"
    if v': "implements v' ?F p" "changes ?v v' ?F UNIV"
      and c': "c' = c\<lparr>sc_slab := sh_slab v', sc_queue := sh_queue v', sc_stripes := (sc_stripes c)[unat i := sh_stripe v']\<rparr>"
    for v' p c'
  proof -
    obtain fs' G' where ok': "shard_ok v' fs' G'" and F: "foot fs' G' [] = ?F" and p: "p = policy_of v' fs' G'"
      using v'(1) by (auto simp: implements_def)
    let ?Gs = "Gs(i := G')"
    have at_i: "shard_at c' i = v'" using len un [OF i] by (simp add: shard_at_def c')
    have at_j: "shard_at c' j = (shard_at c j)\<lparr>sh_slab := sh_slab v', sh_queue := sh_queue v'\<rparr>" if "j \<noteq> i" for j
      using that len un [OF i] by (simp add: shard_at_def c')
    have slab: "sh_slab (shard_at c j) = sh_slab (shard_at c i)" for j by (simp add: shard_at_def)
    have frame: "shard_ok (shard_at c' j) fs' (Gs j)" "t_map (entry_of (shard_at c' j)) (Gs j) = t_map (entry_of (shard_at c j)) (Gs j)"
        "owned (Gs j) \<inter> owned G' = {}" if j: "j < 64" "j \<noteq> i" for j
      using shard_ok_frame [OF ok [OF j(1)] ok [OF i] slab ok' F v'(2) dj [OF j(1) i j(2)]] at_j [OF j(2)] by simp_all
    have cap: "sl_capacity (sc_slab c') = sl_capacity (sc_slab c)"
      using v'(2) by (simp add: c' changes_def shard_at_def)
    have u: "set fs' \<union> owned G' = set fs \<union> owned (Gs i)" using F by (simp add: foot_def)
    have "set fs' \<union> (\<Union>j \<in> {j. j < 64}. owned (?Gs j)) = set fs' \<union> owned G' \<union> (\<Union>j \<in> {j. j < 64} - {i}. owned (Gs j))"
      using i by (auto split: if_splits)
    also have "\<dots> = set fs \<union> (\<Union>j \<in> {j. j < 64}. owned (Gs j))" unfolding u using i by blast
    finally have "cache_rep c' fs' ?Gs"
      using len frame ok' dj at_i all cap by (auto simp: cache_rep_def c' Int_commute)
    moreover have "stripe_view c' i = p" using cache_rep_view [OF calculation i] p at_i by simp
    moreover have "stays c c' j" if j: "j < 64" "j \<noteq> i" for j
      using cache_rep_view [OF rep j(1)] cache_rep_view [OF calculation(1) j(1)] frame(2) [OF j] at_j [OF j(2)] j
      by (simp add: stays_def aux_def)
    ultimately show ?thesis using cap by blast
  qed
  obtain r v' where f: "f ?v = Some (r, v')" "r = fst (g (stripe_view c i))"
      "implements v' ?F (snd (g (stripe_view c i)))" "changes ?v v' ?F UNIV"
    using implements [OF imp] by (auto elim!: oksE)
  show ?thesis
    using main [OF f(3,4) refl] len un [OF i] f(1,2)
    by (simp add: with_stripe_def get vset_def shard_at_def [symmetric])
qed

lemma with_stripe_ok:
  assumes ok: "cache_ok c K" and i: "i < 64"
  shows "oks (with_stripe i f c) (\<lambda>(r, c'). r = fst (g (stripe_view c i)) \<and> cache_ok c' K \<and>
    sl_capacity (sc_slab c') = sl_capacity (sc_slab c) \<and>
    stripe_view c' i = snd (g (stripe_view c i)) \<and> (\<forall>j < 64. j \<noteq> i \<longrightarrow> stays c c' j))"
proof -
  obtain fs Gs where rep: "cache_rep c fs Gs" using ok by (auto simp: cache_ok_def)
  have "cache_ok c' K" if c': "\<exists>fs' Gs'. cache_rep c' fs' Gs'"
    and p: "stripe_view c' i = snd (g (stripe_view c i))" and s: "\<forall>j < 64. j \<noteq> i \<longrightarrow> stays c c' j" for c'
  proof -
    obtain fs' Gs' where rep': "cache_rep c' fs' Gs'" using c' by blast
    have i_ok: "policy_ok (stripe_view c' i) \<and> caps (stripe_view c' i) = K"
      using ok i keeps [of "stripe_view c i"] unfolding p by (simp add: cache_ok_def)
    have lim: "p_limit (stripe_view c' j) = p_limit (stripe_view c' i)" if "j < 64" for j
      using cache_rep_view [OF rep' that] cache_rep_view [OF rep' i] by (simp add: shard_at_def)
    have "policy_ok (stripe_view c' j) \<and> caps (stripe_view c' j) = K" if j: "j < 64" "j \<noteq> i" for j
      using s j ok lim [OF j(1)] i_ok by (auto simp: stays_def cache_ok_def policy_ok_def caps_def)
    then show ?thesis using i_ok c' by (metis cache_ok_def)
  qed
  then show ?thesis by (intro oks_mono [OF with_stripe_rep [OF rep i]]) auto
qed

end

text \<open>The operations of a stripe obey the laws.\<close>

interpretation op_get: stripe_operation "stripe_get h32 key" "p_get h32 key" for h32 key
  by unfold_locales (rule stripe_get_implements, assumption, rule policy_ok_get)

interpretation op_put: stripe_operation "stripe_put h32 key val" "p_put h32 key val" for h32 key val
  by unfold_locales (rule stripe_put_implements, assumption, rule policy_ok_put)

interpretation op_remove: stripe_operation "stripe_remove key" "p_remove key" for key
  by unfold_locales (rule stripe_remove_implements, assumption, rule policy_ok_remove)

section \<open>The fresh cache\<close>

lemma make_stripes_eq:
  assumes "stripe_new capacity (cf_window_pct config) (cf_probation_pct config) = Some st"
  shows "make_stripes config capacity = Some (replicate 64 st)"
proof -
  have "ofold (\<lambda>_ stripes. do {
      st \<leftarrow> stripe_new capacity (cf_window_pct config) (cf_probation_pct config); Some (stripes @ [st]) }) xs acc =
    Some (acc @ replicate (length xs) st)" for xs :: "u32 list" and acc
    using assms by (induction xs arbitrary: acc) (simp_all add: replicate_append_same flip: append_assoc)
  from this [of "upto32 kNumStripes" "[]"] show ?thesis by (simp add: make_stripes_def)
qed

abbreviation stripe_caps :: "stripe \<Rightarrow> bool \<Rightarrow> dqueue \<Rightarrow> u32 \<times> u32 \<times> u32 \<times> bool \<times> nat" where
  "stripe_caps st b q \<equiv> (st_window_capacity st, st_main_capacity st, st_protected_capacity st, b, dq_limit q)"

lemma sc_new_ok:
  assumes "sc_new q config = Some (Inr c)" and q: "dq_inv q"
    and st: "stripe_new (per_stripe (cf_total_capacity config)) (cf_window_pct config) (cf_probation_pct config) = Some st"
  shows "cache_ok (sc_set_demotion_queue b c) (stripe_caps st b q)"
    and "sl_capacity (sc_slab c) = cf_total_capacity config + 64"
    and "\<And>i. i < 64 \<Longrightarrow> p_tiers (stripe_view (sc_set_demotion_queue b c) i) = (\<lambda>_. [])"
proof -
  let ?n = "cf_total_capacity config + 64" and ?c = "sc_set_demotion_queue b c"
  obtain s where s: "slab_new ?n = Inr s" and c: "c = \<lparr>sc_slab = s, sc_queue = q, sc_stripes = replicate 64 st\<rparr>"
    using assms(1) make_stripes_eq [OF st] by (auto simp: sc_new_def kNumStripes_def split: sum.splits)
  show cap: "sl_capacity (sc_slab c) = cf_total_capacity config + 64" using slab_new_rep(2) [OF s] by (simp add: c)
  have at: "shard_at ?c i = \<lparr>sh_slab = s, sh_queue = q, sh_stripe = stripe_set_demotion_queue b st\<rparr>" if "i < 64" for i
    using that by (simp add: c sc_set_demotion_queue_def shard_at_def word_less_nat_alt)
  have imp: "implements (shard_at ?c i) {j. j < ?n} (policy_new ?n q (stripe_set_demotion_queue b st))" if "i < 64" for i
    unfolding at [OF that] by (rule shard_new_implements [OF s st q])
  have free: "slab_free_list s = upto32 ?n" using slab_rep_free_list [OF slab_new_rep(1) [OF s]] .
  have lists: "shard_lists (shard_at ?c i) = (\<lambda>_. [])" if i: "i < 64" for i
  proof -
    have "lru_nodes s lru_new = []" using lru_rep_nodes [OF lru_rep_new] .
    moreover have "get_lru g (stripe_set_demotion_queue b st) = lru_new" for g
      using stripe_new_fields(1) [OF st] by (simp add: stripe_set_demotion_queue_def)
    ultimately show ?thesis by (simp add: shard_lists_def at [OF i])
  qed
  have ok: "shard_ok (shard_at ?c i) (upto32 ?n) (\<lambda>_. [])" if i: "i < 64" for i
    using imp [OF i] lists [OF i] free at [OF i] by (simp add: implements_view shard_inv_def)
  have "sc_slab ?c = s" by (simp add: c sc_set_demotion_queue_def)
  then have rep: "cache_rep ?c (upto32 ?n) (\<lambda>_ _. [])"
    using ok cap by (simp add: cache_rep_def c sc_set_demotion_queue_def set_upto32 owned_def)
  moreover have view: "stripe_view ?c i = policy_new ?n q (stripe_set_demotion_queue b st)" if "i < 64" for i
    using imp [OF that] by (simp add: implements_view stripe_view_def)
  ultimately show "cache_ok ?c (stripe_caps st b q)"
    using policy_new_ok by (auto simp: cache_ok_def caps_def policy_new_def stripe_set_demotion_queue_def)
  show "p_tiers (stripe_view ?c i) = (\<lambda>_. [])" if "i < 64" for i
    using view [OF that] by (simp add: policy_new_def)
qed

section \<open>Occupancy\<close>

definition stripe_len :: "scache \<Rightarrow> u32 \<Rightarrow> nat" where
  "stripe_len c i = length (t_all (p_tiers (stripe_view c i)))"

lemma cache_occupancy:
  assumes rep: "cache_rep c fs Gs"
  shows "length fs + (\<Sum>i \<in> {i. i < 64}. stripe_len c i) = unat (sl_capacity (sc_slab c))"
proof -
  have ok: "\<And>i. i < 64 \<Longrightarrow> shard_rep (shard_at c i) fs (Gs i) []"
    and dj: "\<And>i j. i < 64 \<Longrightarrow> j < 64 \<Longrightarrow> i \<noteq> j \<Longrightarrow> owned (Gs i) \<inter> owned (Gs j) = {}"
    and all: "set fs \<union> (\<Union>i \<in> {i. i < 64}. owned (Gs i)) = {i. i < sl_capacity (sc_slab c)}"
    using rep by (auto simp: cache_rep_def shard_ok_def)
  have fin: "finite (owned (Gs i))" for i by (simp add: owned_def UNIV_lru_id)
  have len: "card (owned (Gs i)) = stripe_len c i" if i: "i < 64" for i
  proof -
    have "distinct (t_all (Gs i))" using entries_distinct [OF ok [OF i]] by (simp add: t_all_map distinct_map)
    moreover have "owned (Gs i) = set (t_all (Gs i))" by (simp add: owned_def set_t_all)
    ultimately show ?thesis
      using cache_rep_view [OF rep i] by (simp add: stripe_len_def t_all_map distinct_card)
  qed
  have fs: "card (set fs) = length fs" "set fs \<inter> (\<Union>i \<in> {i. i < 64}. owned (Gs i)) = {}"
    using shard_rep_slab [OF ok [of 0]] rep shard_rep_lists_disj [of "shard_at c _" fs "Gs _"]
    by (auto simp: slab_rep_def distinct_card cache_rep_def)
  have "unat (sl_capacity (sc_slab c)) = card (set fs \<union> (\<Union>i \<in> {i. i < 64}. owned (Gs i)))"
    unfolding all by (simp add: card_less_u32)
  also have "\<dots> = length fs + card (\<Union>i \<in> {i. i < 64}. owned (Gs i))"
    using fs fin by (subst card_Un_disjoint) auto
  also have "card (\<Union>i \<in> {i. i < 64}. owned (Gs i)) = (\<Sum>i \<in> {i. i < 64}. card (owned (Gs i)))"
    using fin dj by (intro card_UN_disjoint) auto
  finally show ?thesis using len by simp
qed

lemma cache_free:
  assumes "cache_rep c fs Gs"
  shows "unat (slab_available (sc_slab c)) = length fs" and "i < 64 \<Longrightarrow> p_free (stripe_view c i) = length fs"
proof -
  have "shard_rep (shard_at c 0) fs (Gs 0) []" using assms by (simp add: cache_rep_def shard_ok_def)
  from shard_rep_slab [OF this] show "unat (slab_available (sc_slab c)) = length fs"
    using slab_free_count_length by (simp add: slab_available_def shard_at_def)
  show "i < 64 \<Longrightarrow> p_free (stripe_view c i) = length fs" using cache_rep_view [OF assms] by simp
qed

lemma unat_fold_sum:
  assumes "unat a + sum_list (map (unat \<circ> f) xs) < 2 ^ 32"
  shows "unat (fold (\<lambda>x s. s + f x) xs (a :: u32)) = unat a + sum_list (map (unat \<circ> f) xs)"
  using assms
proof (induction xs arbitrary: a)
  case (Cons x xs)
  have "unat (a + f x) = unat a + unat (f x)" using Cons.prems by (intro unat_add_u32) simp
  then show ?case using Cons.IH [of "a + f x"] Cons.prems by simp
qed simp

lemma stripe_size_len:
  assumes rep: "shard_rep v fs G []"
  shows "unat (stripe_size (sh_stripe v)) = length (t_all G)"
proof -
  have "distinct (t_all G)" using entries_distinct [OF rep] by (simp add: t_all_map distinct_map)
  moreover have "\<forall>i \<in> set (t_all G). i < sl_capacity (sh_slab v)"
    using shard_rep_bound [OF rep] by (auto simp: foot_def owned_def set_t_all)
  ultimately have b: "length (t_all G) < 2 ^ 32"
    using length_indices [of "t_all G" "sl_capacity (sh_slab v)"] unat_u32_bound [of "sl_capacity (sh_slab v)"] by simp
  have l: "unat (l_size (get_lru g (sh_stripe v))) = length (G g)" for g
    using lru_rep_length [OF shard_rep_list(1) [OF rep]] .
  show ?thesis
    using b l [of Win] l [of Prob] l [of Prot] by (simp add: stripe_size_def t_all_def unat_add_u32)
qed

lemma total_size_sum:
  assumes rep: "cache_rep c fs Gs"
  shows "unat (total_size c) = (\<Sum>i \<in> {i. i < 64}. stripe_len c i)"
proof -
  have len: "length (sc_stripes c) = 64" and ok: "\<And>i. i < 64 \<Longrightarrow> shard_rep (shard_at c i) fs (Gs i) []"
    using rep by (auto simp: cache_rep_def shard_ok_def)
  have size: "unat (stripe_size (sc_stripes c ! unat i)) = stripe_len c i" if i: "i < 64" for i :: u32
    using stripe_size_len [OF ok [OF i]] cache_rep_view [OF rep i]
    by (simp add: stripe_len_def t_all_map shard_at_def)
  have e: "sc_stripes c = map (\<lambda>i. sc_stripes c ! unat i) (upto32 64)"
    using len by (intro nth_equalityI) (simp_all add: upto32_def unat_of_nat_u32)
  have "map (unat \<circ> stripe_size) (map (\<lambda>i. sc_stripes c ! unat i) (upto32 64)) = map (stripe_len c) (upto32 64)"
    by (simp add: size set_upto32)
  then have "map (unat \<circ> stripe_size) (sc_stripes c) = map (stripe_len c) (upto32 64)"
    by (simp only: e [symmetric])
  then have "sum_list (map (unat \<circ> stripe_size) (sc_stripes c)) = sum_list (map (stripe_len c) (upto32 64))"
    by (simp only:)
  also have "\<dots> = (\<Sum>i \<in> {i. i < 64}. stripe_len c i)"
    by (simp add: sum_list_distinct_conv_sum_set distinct_upto32 set_upto32)
  finally show ?thesis
    using unat_fold_sum [of 0 stripe_size "sc_stripes c"] cache_occupancy [OF rep] unat_u32_bound [of "sl_capacity (sc_slab c)"]
    by (simp add: total_size_def)
qed

section \<open>Sequences of operations\<close>

definition sc_do :: "hash32 \<Rightarrow> hash64 \<Rightarrow> cache_op \<Rightarrow> scache \<Rightarrow> (cache_result \<times> scache) option" where
  "sc_do h32 h64 op c =
     (case op of
        Get key \<Rightarrow> map_option (map_prod Found id) (sc_get h32 h64 key c)
      | Put key val \<Rightarrow> map_option (map_prod Flag id) (sc_put h32 h64 key val c)
      | Remove key \<Rightarrow> map_option (map_prod Flag id) (sc_remove h64 key c))"

fun sc_run :: "hash32 \<Rightarrow> hash64 \<Rightarrow> cache_op list \<Rightarrow> scache \<Rightarrow> (cache_result list \<times> scache) option" where
  "sc_run h32 h64 [] c = Some ([], c)"
| "sc_run h32 h64 (op # ops) c = do {
     (r, c) \<leftarrow> sc_do h32 h64 op c;
     (rs, c) \<leftarrow> sc_run h32 h64 ops c;
     Some (r # rs, c)
   }"

lemma sc_do_ok:
  assumes ok: "cache_ok c K"
  shows "oks (sc_do h32 h64 op c) (\<lambda>(r, c'). cache_ok c' K \<and> sl_capacity (sc_slab c') = sl_capacity (sc_slab c))"
proof (cases op)
  case (Get key)
  then show ?thesis
    by (auto simp: sc_do_def sc_get_def intro!: oks_mono [OF op_get.with_stripe_ok [OF ok route_less]])
next
  case (Put key val)
  then show ?thesis
    by (auto simp: sc_do_def sc_put_def intro!: oks_mono [OF op_put.with_stripe_ok [OF ok route_less]])
next
  case (Remove key)
  then show ?thesis
    by (auto simp: sc_do_def sc_remove_def intro!: oks_mono [OF op_remove.with_stripe_ok [OF ok route_less]])
qed

lemma sc_run_ok:
  "cache_ok c K \<Longrightarrow> oks (sc_run h32 h64 ops c) (\<lambda>(rs, c'). cache_ok c' K \<and> sl_capacity (sc_slab c') = sl_capacity (sc_slab c))"
proof (induction ops arbitrary: c)
  case (Cons op ops)
  obtain r c1 where d: "sc_do h32 h64 op c = Some (r, c1)" "cache_ok c1 K" "sl_capacity (sc_slab c1) = sl_capacity (sc_slab c)"
    using sc_do_ok [OF Cons.prems, of h32 h64 op] by (auto elim!: oksE)
  show ?case using Cons.IH [OF d(2)] d by (auto elim!: oksE)
qed simp

lemma other_lookup:
  assumes "\<forall>j < 64. j \<noteq> i \<longrightarrow> stays c c' j" and "j < 64" and "j \<noteq> i"
  shows "p_lookup (stripe_view c' j) = p_lookup (stripe_view c j)"
  using assms by (intro p_lookup_cong) (simp add: stays_def)

lemma sc_get_ok:
  assumes ok: "cache_ok c K"
  shows "oks (sc_get h32 h64 key c) (\<lambda>(r, c'). r = sc_lookup h64 c key \<and> cache_ok c' K \<and>
    (\<forall>i < 64. p_lookup (stripe_view c' i) = p_lookup (stripe_view c i)) \<and> sc_lookup h64 c' = sc_lookup h64 c)"
proof -
  let ?i = "route h64 key"
  have pok: "policy_ok (stripe_view c ?i)" using ok route_less by (simp add: cache_ok_def)
  have look: "p_lookup (stripe_view c' i) = p_lookup (stripe_view c i)"
    if "stripe_view c' ?i = snd (p_get h32 key (stripe_view c ?i))" "\<forall>j < 64. j \<noteq> ?i \<longrightarrow> stays c c' j" "i < 64" for c' i
    using other_lookup [OF that(2,3)] that(1) get_keeps(1) [OF pok] by (cases "i = ?i") simp_all
  show ?thesis
    unfolding sc_get_def
    by (rule oks_mono [OF op_get.with_stripe_ok [OF ok route_less]])
      (use look get_lookup [OF pok] route_less in \<open>auto simp: sc_lookup_def fun_eq_iff\<close>)
qed

section \<open>Batched reads\<close>

text \<open>A loop whose rounds each add to the set of what is done.\<close>

lemma ofold_collect:
  assumes "\<And>x P s. x \<in> set xs \<Longrightarrow> I P s \<Longrightarrow> oks (f x s) (I (P \<union> A x))" and "I P s"
  shows "oks (ofold f xs s) (I (P \<union> (\<Union>x \<in> set xs. A x)))"
  using assms
proof (induction xs arbitrary: P s)
  case (Cons x xs)
  have "oks (ofold f xs s') (I ((P \<union> A x) \<union> (\<Union>x \<in> set xs. A x)))" if "I (P \<union> A x) s'" for s'
    using Cons.IH [OF Cons.prems(1) that] by simp
  then show ?case
    using Cons.prems(1) [of x P s] Cons.prems(2) by (auto simp: Un_assoc elim!: oks_mono)
qed simp

lemma stripe_groups_ok:
  "oks (stripe_groups h64 keys) (\<lambda>groups. length groups = 64 \<and>
     (\<forall>s < 64. groups ! unat s = filter (\<lambda>i. route h64 (keys ! i) = s) [0..<length keys]))"
proof -
  have "oks (ofold (\<lambda>i groups. do {
         let s = route h64 (keys ! i);
         group \<leftarrow> vget groups s;
         vset groups s (group @ [i])
       }) [0..<n] (replicate 64 []))
     (\<lambda>groups. length groups = 64 \<and> (\<forall>s < 64. groups ! unat s = filter (\<lambda>i. route h64 (keys ! i) = s) [0..<n]))" for n
  proof (induction n)
    case 0
    then show ?case by (simp add: word_less_nat_alt)
  next
    case (Suc n)
    have "unat (route h64 (keys ! n)) < 64" using route_less by (simp add: word_less_nat_alt)
    then show ?case
      using Suc route_less [of h64 "keys ! n"] by (auto elim!: oksE simp: vget_def vset_def)
  qed
  then show ?thesis by (simp add: stripe_groups_def del: oks_bind oks_vget)
qed

definition batch_inv :: "hash64 \<Rightarrow> string list \<Rightarrow> scache \<Rightarrow> u32 \<times> u32 \<times> u32 \<times> bool \<times> nat \<Rightarrow> nat set \<Rightarrow>
    string option list \<times> scache \<Rightarrow> bool" where
  "batch_inv h64 keys c0 K P rc \<longleftrightarrow> cache_ok (snd rc) K \<and> length (fst rc) = length keys \<and>
     (\<forall>i < 64. p_lookup (stripe_view (snd rc) i) = p_lookup (stripe_view c0 i)) \<and>
     (\<forall>i \<in> P. fst rc ! i = sc_lookup h64 c0 (keys ! i))"

lemma batch_step:
  assumes inv: "batch_inv h64 keys c0 K P (results, c)" and idx: "idx < length keys" "route h64 (keys ! idx) = s"
  shows "oks (with_stripe s (stripe_get h32 (keys ! idx)) c) (\<lambda>(r, c'). batch_inv h64 keys c0 K (P \<union> {idx}) (results[idx := r], c'))"
proof -
  have ok: "cache_ok c K" using inv by (simp add: batch_inv_def)
  show ?thesis
    unfolding idx(2) [symmetric]
    by (rule oks_mono [OF sc_get_ok [OF ok, of h32 h64 "keys ! idx", unfolded sc_get_def]])
      (use inv idx route_less in \<open>auto simp: batch_inv_def sc_lookup_def nth_list_update\<close>)
qed

lemma sc_batch_get_ok:
  assumes ok: "cache_ok c K"
  shows "oks (sc_batch_get h32 h64 keys c) (\<lambda>(results, c'). results = map (sc_lookup h64 c) keys \<and>
    cache_ok c' K \<and> sc_lookup h64 c' = sc_lookup h64 c)"
proof -
  obtain groups where g: "stripe_groups h64 keys = Some groups" "length groups = 64"
      "\<And>s. s < 64 \<Longrightarrow> groups ! unat s = filter (\<lambda>i. route h64 (keys ! i) = s) [0..<length keys]"
    using stripe_groups_ok [of h64 keys] by (auto elim!: oksE)
  have get: "vget groups s = Some (filter (\<lambda>i. route h64 (keys ! i) = s) [0..<length keys])" if "s < 64" for s
    using g(2,3) that by (simp add: vget_def word_less_nat_alt)
  let ?A = "\<lambda>s. {i. i < length keys \<and> route h64 (keys ! i) = s}"
  have stripe: "oks (batch_stripe h32 keys groups s rc) (batch_inv h64 keys c K (P \<union> ?A s))"
    if s: "s \<in> set (upto32 64)" and inv: "batch_inv h64 keys c K P rc" for s P rc
  proof -
    let ?f = "\<lambda>idx (results, c). do {
         (r, c) \<leftarrow> with_stripe s (stripe_get h32 (keys ! idx)) c; Some (results[idx := r], c) }"
    let ?group = "filter (\<lambda>i. route h64 (keys ! i) = s) [0..<length keys]"
    have "oks (ofold ?f ?group rc) (batch_inv h64 keys c K (P \<union> (\<Union>x \<in> set ?group. {x})))"
    proof (rule ofold_collect [where I = "batch_inv h64 keys c K" and A = "\<lambda>x. {x}", OF _ inv])
      fix idx P' rc' assume "idx \<in> set ?group" "batch_inv h64 keys c K P' rc'"
      then show "oks (?f idx rc') (batch_inv h64 keys c K (P' \<union> {idx}))"
        using batch_step [of h64 keys c K P' "fst rc'" "snd rc'" idx s h32]
        by (cases rc') (auto elim!: oks_mono)
    qed
    moreover have "(\<Union>x \<in> set ?group. {x}) = ?A s" by auto
    ultimately show ?thesis
      using get s by (cases rc) (simp add: batch_stripe_def set_upto32)
  qed
  have "batch_inv h64 keys c K {} (replicate (length keys) None, c)" using ok by (simp add: batch_inv_def)
  from ofold_collect [where f = "batch_stripe h32 keys groups" and I = "batch_inv h64 keys c K" and A = ?A, OF stripe this]
  have *: "oks (ofold (batch_stripe h32 keys groups) (upto32 64) (replicate (length keys) None, c))
      (batch_inv h64 keys c K (\<Union>s \<in> set (upto32 64). ?A s))" by simp
  have "(\<Union>s \<in> set (upto32 64). ?A s) = {..<length keys}" using route_less by (auto simp: set_upto32)
  with * show ?thesis
    using route_less unfolding sc_batch_get_def g(1) kNumStripes_def
    by (auto simp: batch_inv_def sc_lookup_def fun_eq_iff intro!: nth_equalityI elim!: oks_mono)
qed

section \<open>Properties\<close>

abbreviation default_pct :: "u32 \<Rightarrow> sc_config" where
  "default_pct capacity \<equiv> \<lparr>cf_total_capacity = capacity, cf_window_pct = f32_0_01, cf_probation_pct = f32_0_20\<rparr>"

lemma per_stripe_nat: "unat (per_stripe capacity) = max 3 (unat capacity div 64)"
proof -
  have "unat (capacity div 64) = unat capacity div 64" by (simp add: unat_div)
  then show ?thesis by (auto simp: per_stripe_def kNumStripes_def Let_def word_less_nat_alt max_def)
qed

lemma default_stripe:
  obtains st where "stripe_new (per_stripe capacity) f32_0_01 f32_0_20 = Some st"
    and "unat (st_window_capacity st) + unat (st_main_capacity st) = max 3 (unat capacity div 64)"
    and "256 \<le> unat capacity \<Longrightarrow> st_window_capacity st \<noteq> 0"
proof -
  have "3 \<le> per_stripe capacity" using per_stripe_nat [of capacity] by (simp add: word_le_nat_alt)
  moreover have "per_stripe capacity \<noteq> 3" if "256 \<le> unat capacity"
  proof
    assume "per_stripe capacity = 3"
    then have "unat (per_stripe capacity) = 3" by simp
    then show False using per_stripe_nat [of capacity] that by simp
  qed
  ultimately show ?thesis
    using stripe_capacities_ok [of "per_stripe capacity"] per_stripe_nat [of capacity] that by (auto elim!: oksE)
qed

text \<open>What holds in every state a cache of the default percentages can reach.\<close>

definition sc_good :: "u32 \<Rightarrow> u32 \<times> u32 \<times> u32 \<times> bool \<times> nat \<Rightarrow> scache \<Rightarrow> bool" where
  "sc_good capacity K c \<longleftrightarrow> cache_ok c K \<and>
     (192 \<le> unat capacity \<and> unat capacity + 64 < 2 ^ 32 \<longrightarrow>
        unat (slab_available (sc_slab c)) + unat (total_size c) = unat capacity + 64 \<and>
        unat (total_size c) \<le> unat capacity \<and> (\<forall>i < 64. 64 \<le> p_free (stripe_view c i)))"

lemma cache_room:
  assumes ok: "cache_ok c K" and cap: "sl_capacity (sc_slab c) = capacity + 64"
    and sum: "unat (fst K) + unat (fst (snd K)) \<le> max 3 (unat capacity div 64)"
    and big: "192 \<le> unat capacity" "unat capacity + 64 < 2 ^ 32"
  shows "unat (slab_available (sc_slab c)) + unat (total_size c) = unat capacity + 64 \<and>
      unat (total_size c) \<le> unat capacity \<and> (\<forall>i < 64. 64 \<le> p_free (stripe_view c i))"
proof -
  obtain fs Gs where rep: "cache_rep c fs Gs" using ok by (auto simp: cache_ok_def)
  have "stripe_len c i \<le> unat capacity div 64" if "i < 64" for i
    using ok that sum big(1) by (auto simp: cache_ok_def policy_ok_def caps_def stripe_len_def t_all_def)
  then have "(\<Sum>i \<in> {i. i < (64 :: u32)}. stripe_len c i) \<le> (\<Sum>i \<in> {i. i < (64 :: u32)}. unat capacity div 64)"
    by (intro sum_mono) simp
  also have "\<dots> \<le> unat capacity" by (simp add: card_less_u32)
  finally have le: "(\<Sum>i \<in> {i. i < 64}. stripe_len c i) \<le> unat capacity" .
  have "unat (capacity + 64) = unat capacity + 64" using big(2) by (subst unat_add_u32) simp_all
  then have "length fs + (\<Sum>i \<in> {i. i < 64}. stripe_len c i) = unat capacity + 64"
    using cache_occupancy [OF rep] cap by simp
  then show ?thesis
    using le cache_free [OF rep] total_size_sum [OF rep] by simp
qed

lemma sc_reach:
  assumes new: "sc_new q (default_pct capacity) = Some (Inr c0)" and q: "dq_inv q"
  obtains K where "oks (sc_run h32 h64 ops (sc_set_demotion_queue b c0)) (\<lambda>(rs, c). sc_good capacity K c)"
    and "256 \<le> unat capacity \<longrightarrow> fst K \<noteq> 0"
proof -
  obtain st where st: "stripe_new (per_stripe capacity) f32_0_01 f32_0_20 = Some st"
    and sum: "unat (st_window_capacity st) + unat (st_main_capacity st) = max 3 (unat capacity div 64)"
    and win: "256 \<le> unat capacity \<Longrightarrow> st_window_capacity st \<noteq> 0"
    by (rule default_stripe [of capacity]) blast
  let ?K = "stripe_caps st b q"
  note start = sc_new_ok(1) [OF new q, simplified, OF st, of b] sc_new_ok(2) [OF new q, simplified, OF st]
  have cap0: "sl_capacity (sc_slab (sc_set_demotion_queue b c0)) = capacity + 64"
    using start(2) by (simp add: sc_set_demotion_queue_def)
  have sum': "unat (fst ?K) + unat (fst (snd ?K)) \<le> max 3 (unat capacity div 64)" using sum by simp
  have "oks (sc_run h32 h64 ops (sc_set_demotion_queue b c0)) (\<lambda>(rs, c). sc_good capacity ?K c)"
    by (rule oks_mono [OF sc_run_ok [OF start(1)]])
      (use cache_room [OF _ _ sum'] cap0 in \<open>auto simp: sc_good_def\<close>)
  then show ?thesis by (rule that) (simp add: win)
qed

lemma demo_cache:
  obtains c0 where "sc_new (dq_new 4) (default_pct 256) = Some (Inr c0)" and "dq_inv (dq_new 4)"
proof -
  obtain st where "stripe_new (per_stripe 256) f32_0_01 f32_0_20 = Some st" by (rule default_stripe)
  then have "make_stripes (default_pct 256) (per_stripe 256) = Some (replicate 64 st)"
    by (intro make_stripes_eq) simp
  moreover have "dq_inv (dq_new 4)" by (rule dq_new_inv) (simp_all add: word_less_nat_alt)
  ultimately show ?thesis using that by (auto simp: sc_new_def slab_new_def kNumStripes_def)
qed

abbreviation demo_hash64 :: hash64 where
  "demo_hash64 \<equiv> \<lambda>key seed. seed + of_nat (length key)"

text \<open>The slab of the L1 cache is never exhausted: with at least 192 entries (below that every stripe is
  forced to 3) the stripes together never hold more than the configured capacity, free nodes and entries
  add up to the slab, and at least 64 nodes, one per stripe, stay free, whatever operations ran before.\<close>

theorem striped_slab_suffices:
  assumes "sc_new q (default_pct capacity) = Some (Inr c0)" and "dq_inv q"
    and "192 \<le> unat capacity" and "unat capacity + 64 < 2 ^ 32"
  shows "oks (sc_run h32 h64 ops (sc_set_demotion_queue b c0)) (\<lambda>(_, c).
    unat (total_size c) \<le> unat capacity \<and> 64 \<le> unat (slab_available (sc_slab c)) \<and>
    unat (slab_available (sc_slab c)) + unat (total_size c) = unat capacity + 64)"
  by (rule sc_reach [OF assms(1,2), of h32 h64 ops b], erule oks_mono) (use assms(3,4) in \<open>auto simp: sc_good_def\<close>)

theorem striped_slab_suffices_witness:
  "\<exists>c0. sc_new (dq_new 4) (default_pct 256) = Some (Inr c0) \<and>
    oks (sc_run demo_hash demo_hash64 demo_ops (sc_set_demotion_queue True c0)) (\<lambda>(_, c).
    unat (total_size c) \<le> 256 \<and> 64 \<le> unat (slab_available (sc_slab c)) \<and>
    unat (slab_available (sc_slab c)) + unat (total_size c) = 320)"
proof -
  obtain c0 where d: "sc_new (dq_new 4) (default_pct 256) = Some (Inr c0)" "dq_inv (dq_new 4)"
    by (rule demo_cache)
  show ?thesis
    using d(1) striped_slab_suffices [OF d, of demo_hash demo_hash64 demo_ops True] by simp
qed

lemma sc_put_ok:
  assumes ok: "cache_ok c K"
  shows "oks (sc_put h32 h64 key val c) (\<lambda>(r, c'). cache_ok c' K \<and> (r \<longrightarrow> sc_lookup h64 c key = None) \<and>
    (\<forall>k. k \<noteq> key \<longrightarrow> sc_lookup h64 c' k \<in> {sc_lookup h64 c k, None}) \<and>
    (\<forall>k. route h64 k \<noteq> route h64 key \<longrightarrow> sc_lookup h64 c' k = sc_lookup h64 c k) \<and>
    (sc_lookup h64 c key \<noteq> None \<or> fst K \<noteq> 0 \<and> p_free (stripe_view c (route h64 key)) \<noteq> 0 \<longrightarrow>
       sc_lookup h64 c' key = Some val))"
proof -
  let ?i = "route h64 key"
  let ?p = "stripe_view c ?i" and ?p' = "snd (p_put h32 key val (stripe_view c (route h64 key)))"
  have pok: "policy_ok ?p" and caps: "caps ?p = K" using ok route_less by (simp_all add: cache_ok_def)
  have same: "p_lookup (stripe_view c' (route h64 k)) k \<in> {p_lookup (stripe_view c (route h64 k)) k, None}"
    and far: "route h64 k \<noteq> ?i \<Longrightarrow> p_lookup (stripe_view c' (route h64 k)) k = p_lookup (stripe_view c (route h64 k)) k"
    if "stripe_view c' ?i = ?p'" "\<forall>j < 64. j \<noteq> ?i \<longrightarrow> stays c c' j" "k \<noteq> key" for c' k
    using other_lookup [OF that(2) route_less, of h64 k] that(1) put_lookup_other [OF pok that(3), of h32 val]
    by (cases "route h64 k = ?i", simp_all)+
  have flag: "p_lookup ?p key = None" if "fst (p_put h32 key val ?p)"
    using that put_existing(1) [of ?p key h32 val] pok by (cases "p_lookup ?p key") (auto simp: policy_ok_core)
  have win: "st_window_capacity (p_stripe ?p) = fst K" using caps by (auto simp: caps_def)
  have found: "p_lookup ?p' key = Some val"
    if "p_lookup ?p key \<noteq> None \<or> fst K \<noteq> 0 \<and> p_free ?p \<noteq> 0"
    using put_lookup_key [OF pok, of key h32 val] that win by auto
  have main: "cache_ok c' K \<and> (r \<longrightarrow> sc_lookup h64 c key = None) \<and>
      (\<forall>k. k \<noteq> key \<longrightarrow> sc_lookup h64 c' k \<in> {sc_lookup h64 c k, None}) \<and>
      (\<forall>k. route h64 k \<noteq> ?i \<longrightarrow> sc_lookup h64 c' k = sc_lookup h64 c k) \<and>
      (sc_lookup h64 c key \<noteq> None \<or> fst K \<noteq> 0 \<and> p_free ?p \<noteq> 0 \<longrightarrow> sc_lookup h64 c' key = Some val)"
    if r: "r = fst (p_put h32 key val ?p)" and c': "cache_ok c' K" "stripe_view c' ?i = ?p'" "\<forall>j < 64. j \<noteq> ?i \<longrightarrow> stays c c' j"
    for r c'
  proof -
    have "sc_lookup h64 c' k = sc_lookup h64 c k" if "route h64 k \<noteq> ?i" for k
      using far [OF c'(2,3) _ that] that by (auto simp: sc_lookup_def)
    then show ?thesis
      using same [OF c'(2,3)] flag found c' r unfolding sc_lookup_def by auto
  qed
  obtain r c' where e: "with_stripe ?i (stripe_put h32 key val) c = Some (r, c')"
    and c': "r = fst (p_put h32 key val ?p)" "cache_ok c' K" "stripe_view c' ?i = ?p'" "\<forall>j < 64. j \<noteq> ?i \<longrightarrow> stays c c' j"
    using op_put.with_stripe_ok [OF ok route_less, of h64 key h32 key val] by (auto elim!: oksE)
  show ?thesis
    unfolding sc_put_def e oks_Some prod.case by (rule main [OF c'])
qed

lemma sc_remove_ok:
  assumes ok: "cache_ok c K"
  shows "oks (sc_remove h64 key c) (\<lambda>(r, c'). cache_ok c' K \<and> r = (sc_lookup h64 c key \<noteq> None) \<and>
    sc_lookup h64 c' = (sc_lookup h64 c)(key := None))"
proof -
  let ?i = "route h64 key" and ?p = "stripe_view c (route h64 key)"
  have look: "p_lookup (snd (p_remove key ?p)) = (p_lookup ?p)(key := None)"
    by (auto simp: p_remove_def lookup_drop fun_eq_iff)
  have pw: "sc_lookup h64 c' k = ((sc_lookup h64 c)(key := None)) k"
    if "stripe_view c' ?i = snd (p_remove key ?p)" "\<forall>j < 64. j \<noteq> ?i \<longrightarrow> stays c c' j" for c' k
    using other_lookup [OF that(2) route_less, of h64 k] that(1) look
    by (cases "route h64 k = ?i") (auto simp: sc_lookup_def)
  have "sc_lookup h64 c' = (sc_lookup h64 c)(key := None)"
    if "stripe_view c' ?i = snd (p_remove key ?p)" "\<forall>j < 64. j \<noteq> ?i \<longrightarrow> stays c c' j" for c'
    by (intro ext pw that)
  moreover have "fst (p_remove key ?p) = (sc_lookup h64 c key \<noteq> None)" by (simp add: p_remove_def sc_lookup_def)
  ultimately show ?thesis
    unfolding sc_remove_def
    by (intro oks_mono [OF op_remove.with_stripe_ok [OF ok route_less]]) auto
qed

text \<open>C10. The striped cache is a map with eviction. After any sequence of operations, a get answers what
  the key's stripe holds and changes no entry; a put makes its key readable with the new value (capacity
  at least 256, so that every stripe has a window), can only remove other keys, never change them, and
  only those of the same stripe, and answers true only for a new key; a remove deletes exactly its key.\<close>

theorem striped_map:
  assumes "sc_new q (default_pct capacity) = Some (Inr c0)" and "dq_inv q"
    and "256 \<le> unat capacity" and "unat capacity + 64 < 2 ^ 32"
  shows "oks (sc_run h32 h64 ops (sc_set_demotion_queue b c0)) (\<lambda>(_, c).
    oks (sc_get h32 h64 key c) (\<lambda>(r, c'). r = sc_lookup h64 c key \<and> sc_lookup h64 c' = sc_lookup h64 c) \<and>
    oks (sc_put h32 h64 key val c) (\<lambda>(r, c'). sc_lookup h64 c' key = Some val \<and> (r \<longrightarrow> sc_lookup h64 c key = None) \<and>
      (\<forall>k. k \<noteq> key \<longrightarrow> sc_lookup h64 c' k \<in> {sc_lookup h64 c k, None}) \<and>
      (\<forall>k. route h64 k \<noteq> route h64 key \<longrightarrow> sc_lookup h64 c' k = sc_lookup h64 c k)) \<and>
    oks (sc_remove h64 key c) (\<lambda>(r, c'). r = (sc_lookup h64 c key \<noteq> None) \<and>
      sc_lookup h64 c' = (sc_lookup h64 c)(key := None)))"
proof -
  obtain K where run: "oks (sc_run h32 h64 ops (sc_set_demotion_queue b c0)) (\<lambda>(rs, c). sc_good capacity K c)"
    and K: "256 \<le> unat capacity \<longrightarrow> fst K \<noteq> 0"
    by (rule sc_reach [OF assms(1,2), of h32 h64 ops b])
  show ?thesis
  proof (rule oks_mono [OF run], clarify, intro conjI)
    fix c assume "sc_good capacity K c"
    then have ok: "cache_ok c K" and free: "\<forall>i < 64. 64 \<le> p_free (stripe_view c i)"
      using assms(3,4) by (auto simp: sc_good_def)
    show "oks (sc_get h32 h64 key c) (\<lambda>(r, c'). r = sc_lookup h64 c key \<and> sc_lookup h64 c' = sc_lookup h64 c)"
      by (rule oks_mono [OF sc_get_ok [OF ok]]) auto
    have "p_free (stripe_view c (route h64 key)) \<noteq> 0" using free route_less [of h64 key] by fastforce
    then show "oks (sc_put h32 h64 key val c) (\<lambda>(r, c'). sc_lookup h64 c' key = Some val \<and> (r \<longrightarrow> sc_lookup h64 c key = None) \<and>
      (\<forall>k. k \<noteq> key \<longrightarrow> sc_lookup h64 c' k \<in> {sc_lookup h64 c k, None}) \<and>
      (\<forall>k. route h64 k \<noteq> route h64 key \<longrightarrow> sc_lookup h64 c' k = sc_lookup h64 c k))"
      by (intro oks_mono [OF sc_put_ok [OF ok]]) (use K assms(3) in auto)
    show "oks (sc_remove h64 key c) (\<lambda>(r, c'). r = (sc_lookup h64 c key \<noteq> None) \<and>
      sc_lookup h64 c' = (sc_lookup h64 c)(key := None))"
      by (rule oks_mono [OF sc_remove_ok [OF ok]]) auto
  qed
qed

theorem striped_map_witness:
  "\<exists>c0. sc_new (dq_new 4) (default_pct 256) = Some (Inr c0) \<and>
    oks (sc_run demo_hash demo_hash64 demo_ops (sc_set_demotion_queue True c0)) (\<lambda>(_, c).
    oks (sc_get demo_hash demo_hash64 ''x'' c) (\<lambda>(r, c'). r = sc_lookup demo_hash64 c ''x'') \<and>
    oks (sc_put demo_hash demo_hash64 ''x'' ''7'' c) (\<lambda>(r, c'). sc_lookup demo_hash64 c' ''x'' = Some ''7'') \<and>
    oks (sc_remove demo_hash64 ''x'' c) (\<lambda>(r, c'). sc_lookup demo_hash64 c' ''x'' = None))"
proof -
  obtain c0 where d: "sc_new (dq_new 4) (default_pct 256) = Some (Inr c0)" "dq_inv (dq_new 4)"
    by (rule demo_cache)
  show ?thesis
    using d(1) striped_map [OF d, of demo_hash demo_hash64 demo_ops True "''x''" "''7''"] by (auto elim!: oks_mono)
qed

text \<open>A batched read is the list of the single reads: for every list of keys, duplicates included, the
  grouping by stripe puts each result at its key's position, and no entry changes.\<close>

theorem striped_batch_get:
  assumes "sc_new q (default_pct capacity) = Some (Inr c0)" and "dq_inv q"
  shows "oks (sc_run h32 h64 ops (sc_set_demotion_queue b c0)) (\<lambda>(_, c).
    oks (sc_batch_get h32 h64 keys c) (\<lambda>(results, c').
      results = map (sc_lookup h64 c) keys \<and> sc_lookup h64 c' = sc_lookup h64 c))"
proof -
  obtain K where "oks (sc_run h32 h64 ops (sc_set_demotion_queue b c0)) (\<lambda>(rs, c). sc_good capacity K c)"
    by (rule sc_reach [OF assms, of h32 h64 ops b])
  then show ?thesis
    by (rule oks_mono) (auto simp: sc_good_def intro!: oks_mono [OF sc_batch_get_ok])
qed

theorem striped_batch_get_witness:
  "\<exists>c0. sc_new (dq_new 4) (default_pct 256) = Some (Inr c0) \<and>
    oks (sc_run demo_hash demo_hash64 demo_ops (sc_set_demotion_queue True c0)) (\<lambda>(_, c).
    oks (sc_batch_get demo_hash demo_hash64 [''a'', ''bb'', ''a''] c) (\<lambda>(results, c').
      results = map (sc_lookup demo_hash64 c) [''a'', ''bb'', ''a''] \<and> sc_lookup demo_hash64 c' = sc_lookup demo_hash64 c))"
proof -
  obtain c0 where d: "sc_new (dq_new 4) (default_pct 256) = Some (Inr c0)" "dq_inv (dq_new 4)"
    by (rule demo_cache)
  show ?thesis
    using d(1) striped_batch_get [OF d, of demo_hash demo_hash64 demo_ops True "[''a'', ''bb'', ''a'']"] by blast
qed

end
