(* ===== verification/Lossy_Cache.thy ===== *)
theory Lossy_Cache
  imports Prelude
begin

text \<open>
  What every cache of the program promises its clients, as an interface: a cache may lose an entry
  whenever it likes, but it never invents one, never mixes up two keys and never answers an older value
  than the last one written. The laws are stated for one operation, in \<open>lossy_put\<close> and \<open>lossy_cache\<close>;
  what a client can rely on over any sequence of operations is proved once, inside the locales. The L1
  cache, one of its stripes, and the baseline caches are interpretations.
\<close>

datatype access = Read string | Write string string

fun run_access :: "(string \<Rightarrow> 's \<Rightarrow> (string option \<times> 's) option) \<Rightarrow> (string \<Rightarrow> string \<Rightarrow> 's \<Rightarrow> (bool \<times> 's) option) \<Rightarrow>
    access list \<Rightarrow> 's \<Rightarrow> (string option list \<times> 's) option" where
  "run_access get put [] s = Some ([], s)"
| "run_access get put (Read k # ops) s = do {
     (r, s) \<leftarrow> get k s;
     (rs, s) \<leftarrow> run_access get put ops s;
     Some (r # rs, s)
   }"
| "run_access get put (Write k v # ops) s = do {
     (_, s) \<leftarrow> put k v s;
     run_access get put ops s
   }"

text \<open>The same operations on a map that loses nothing: its final content, and the answers of the reads.\<close>

fun written :: "access list \<Rightarrow> (string \<rightharpoonup> string) \<Rightarrow> (string \<rightharpoonup> string)" where
  "written [] w = w"
| "written (Read k # ops) w = written ops w"
| "written (Write k v # ops) w = written ops (w(k \<mapsto> v))"

fun exact_answers :: "access list \<Rightarrow> (string \<rightharpoonup> string) \<Rightarrow> string option list" where
  "exact_answers [] w = []"
| "exact_answers (Read k # ops) w = w k # exact_answers ops w"
| "exact_answers (Write k v # ops) w = exact_answers ops (w(k \<mapsto> v))"

text \<open>An answer of a cache against the exact one: the same, or a miss.\<close>

definition sound_answer :: "string option \<Rightarrow> string option \<Rightarrow> bool" where
  "sound_answer r e \<longleftrightarrow> r = e \<or> r = None"

lemma map_le_pointwise: "m \<subseteq>\<^sub>m w \<longleftrightarrow> (\<forall>k. m k = None \<or> m k = w k)"
  unfolding map_le_def dom_def by (metis (mono_tags, lifting) mem_Collect_eq)

locale lossy_put =
  fixes put :: "string \<Rightarrow> string \<Rightarrow> 's \<Rightarrow> (bool \<times> 's) option"
    and lookup :: "'s \<Rightarrow> string \<Rightarrow> string option"
    and inv :: "'s \<Rightarrow> bool"
  assumes put_law: "inv s \<Longrightarrow> oks (put k v s) (\<lambda>(r, s'). inv s' \<and> lookup s' k \<in> {Some v, None} \<and>
    (\<forall>k'. k' \<noteq> k \<longrightarrow> lookup s' k' \<in> {lookup s k', None}))"
begin

lemma put_sound:
  assumes "inv s" and "lookup s \<subseteq>\<^sub>m w"
  shows "oks (put k v s) (\<lambda>(r, s'). inv s' \<and> lookup s' \<subseteq>\<^sub>m w(k \<mapsto> v))"
proof -
  have "lookup s' \<subseteq>\<^sub>m w(k \<mapsto> v)"
    if "lookup s' k \<in> {Some v, None}" "\<forall>k'. k' \<noteq> k \<longrightarrow> lookup s' k' \<in> {lookup s k', None}" for s'
    using that assms(2) unfolding map_le_pointwise by (metis empty_iff fun_upd_apply insert_iff)
  then show ?thesis by (intro oks_mono [OF put_law [OF assms(1)]]) auto
qed

lemma writes_sound:
  assumes "inv s" and "lookup s \<subseteq>\<^sub>m w"
  shows "oks (ofold (\<lambda>(k, v) s. map_option snd (put k v s)) kvs s)
    (\<lambda>s'. inv s' \<and> lookup s' \<subseteq>\<^sub>m fold (\<lambda>(k, v) w. w(k \<mapsto> v)) kvs w)"
  using assms
proof (induction kvs arbitrary: s w)
  case (Cons kv kvs)
  obtain k v where kv: "kv = (k, v)" by fastforce
  obtain r s1 where e: "put k v s = Some (r, s1)" "inv s1" "lookup s1 \<subseteq>\<^sub>m w(k \<mapsto> v)"
    using put_sound [OF Cons.prems, of k v] by (auto elim!: oksE)
  show ?case using Cons.IH [OF e(2,3)] by (simp add: kv e(1) del: fun_upd_apply)
qed simp

end

locale lossy_cache = lossy_put +
  fixes get :: "string \<Rightarrow> 's \<Rightarrow> (string option \<times> 's) option"
  assumes get_law: "inv s \<Longrightarrow> oks (get k s) (\<lambda>(r, s'). inv s' \<and> r = lookup s k \<and> lookup s' = lookup s)"
begin

lemma run_sound:
  assumes "inv s" and "lookup s \<subseteq>\<^sub>m w"
  shows "oks (run_access get put ops s) (\<lambda>(rs, s'). inv s' \<and> list_all2 sound_answer rs (exact_answers ops w) \<and>
    lookup s' \<subseteq>\<^sub>m written ops w)"
  using assms
proof (induction ops arbitrary: s w)
  case (Cons op ops)
  show ?case
  proof (cases op)
    case (Read k)
    obtain r s1 where e: "get k s = Some (r, s1)" "inv s1" "r = lookup s k" "lookup s1 = lookup s"
      using get_law [OF Cons.prems(1), of k] by (auto elim!: oksE)
    have "sound_answer r (w k)"
      using Cons.prems(2) e(3) by (cases "lookup s k") (auto simp: sound_answer_def map_le_def dom_def)
    then show ?thesis using Cons.IH [of s1 w] Cons.prems(2) e by (auto simp: Read elim!: oks_mono)
  next
    case (Write k v)
    obtain r s1 where e: "put k v s = Some (r, s1)" "inv s1" "lookup s1 \<subseteq>\<^sub>m w(k \<mapsto> v)"
      using put_sound [OF Cons.prems, of k v] by (auto elim!: oksE)
    show ?thesis using Cons.IH [OF e(2,3)] by (simp add: Write e(1) del: fun_upd_apply)
  qed
qed simp

text \<open>From an empty cache.\<close>

lemma run_from_empty:
  assumes "inv s" and "lookup s = Map.empty"
  shows "oks (run_access get put ops s) (\<lambda>(rs, s'). list_all2 sound_answer rs (exact_answers ops Map.empty) \<and>
    lookup s' \<subseteq>\<^sub>m written ops Map.empty)"
  using run_sound [OF assms(1), of Map.empty ops] assms(2) by (auto elim!: oks_mono)

end

end
