(* ===== verification/Cache_Flow.thy ===== *)
theory Cache_Flow
  imports Striped_Cache_Props Lossy_Cache
begin

text \<open>
  Where entries of the L1 cache go: what a put makes of its own key, and which entries reach the
  demotion queue. The stripe and the striped cache are lossy caches in the sense of \<open>Lossy_Cache\<close>.
\<close>

section \<open>One stripe\<close>

lemma put_lookup_self:
  assumes ok: "policy_ok p"
  shows "p_lookup (snd (p_put h32 key val p)) key \<in> {Some val, None}"
proof (cases "p_lookup p key")
  case None
  have core: "policy_core p" using ok by (simp add: policy_ok_core)
  note ac = arrival_core [OF core None, of h32 val] and la = arrival_lookup [of h32 key val p]
  show ?thesis
  proof (cases "p_free p = 0")
    case True
    then show ?thesis using put_full_slab [OF None] p_lookup_cong [of "p_tick (p_count h32 key p)" p] None by simp
  next
    case False
    have "p_lookup (p_admit h32 (p_arrival h32 (key, val) p)) key \<in> {Some val, None}"
      unfolding admit_lookup [OF ac] la by (auto split: outcome.splits)
    then show ?thesis using put_new [OF ok None False, of h32 val] la by simp
  qed
qed (use put_existing(2) [of p key h32 val] ok in \<open>simp add: policy_ok_core\<close>)

text \<open>A put queues at most one item, and that item is an entry the stripe held before.\<close>

lemma admit_queue:
  "p_queue (p_admit h32 p) = p_queue p \<or>
   (\<exists>e. e \<in> set (p_tiers p Prob) \<and>
      p_queue (p_admit h32 p) = p_queue p @ [\<lparr>di_key = fst e, di_value = snd e, di_frequency = p_freq h32 p (fst e)\<rparr>])"
proof -
  obtain L out where a: "t_admit (unat (st_main_capacity (p_stripe p))) (p_freq h32 p \<circ> fst) (p_tiers p) = (L, out)"
    and q: "p_admit h32 p = p_account h32 out (p\<lparr>p_tiers := L\<rparr>)"
    by (rule p_admit_split [of p h32])
  show ?thesis
  proof (cases out)
    case (Replaced e)
    have "p_tiers p Prob \<noteq> []" "e = last (p_tiers p Prob)"
      using a Replaced by (auto simp: t_admit_def t_judge_def Let_def split: if_splits)
    then have "e \<in> set (p_tiers p Prob)" by simp
    moreover have "p_freq h32 (p\<lparr>p_tiers := L\<rparr>) = p_freq h32 p" by (simp add: p_freq_def fun_eq_iff)
    ultimately show ?thesis unfolding q Replaced account_replaced_queue by auto
  qed (simp_all add: q p_account_def p_admitted_def p_rejected_def)
qed

lemma touch_queue [simp]: "p_queue (p_touch key p) = p_queue p"
  by (simp add: p_touch_def)

lemma put_queue:
  assumes ok: "policy_ok p"
  obtains "p_queue (snd (p_put h32 key val p)) = p_queue p"
  | k x f where "p_lookup p k = Some x" and "k \<noteq> key"
      and "p_queue (snd (p_put h32 key val p)) = p_queue p @ [\<lparr>di_key = k, di_value = x, di_frequency = f\<rparr>]"
proof (cases "p_lookup p key = None \<and> p_free p \<noteq> 0")
  case True
  let ?a = "p_arrival h32 (key, val) p"
  have "p_queue (p_admit h32 ?a) = p_queue p \<or> (\<exists>e. e \<in> set (p_tiers p Prob) \<and>
      p_queue (p_admit h32 ?a) = p_queue p @ [\<lparr>di_key = fst e, di_value = snd e, di_frequency = p_freq h32 ?a (fst e)\<rparr>])"
    using admit_queue [of h32 ?a] by simp
  moreover have held: "p_lookup p (fst e) = Some (snd e) \<and> fst e \<noteq> key" if "e \<in> set (p_tiers p Prob)" for e
  proof -
    have "e \<in> set (t_all (p_tiers p))" using that by (simp add: t_all_def)
    then have "p_lookup p (fst e) = Some (snd e)"
      using ok by (simp add: p_lookup_def policy_ok_def)
    then show ?thesis using True by auto
  qed
  ultimately consider "p_queue (p_admit h32 ?a) = p_queue p" | e where "e \<in> set (p_tiers p Prob)"
      "p_queue (p_admit h32 ?a) = p_queue p @ [\<lparr>di_key = fst e, di_value = snd e, di_frequency = p_freq h32 ?a (fst e)\<rparr>]"
    by blast
  then show ?thesis
  proof cases
    case 1
    then show ?thesis using that(1) put_new [OF ok, of key h32 val] True by (simp split: if_splits)
  next
    case 2
    then show ?thesis
      using that(1) that(2) [of "fst e" "snd e"] held [of e] put_new [OF ok, of key h32 val] True by (simp split: if_splits)
  qed
next
  case False
  have "p_queue (snd (p_put h32 key val p)) = p_queue p"
  proof (cases "p_lookup p key")
    case None
    then show ?thesis using False put_full_slab [OF None] by simp
  next
    case (Some x)
    then show ?thesis
      using p_lookup_cong [of "p_tick (p_count h32 key p)" p] by (simp add: p_put_def Let_def)
  qed
  then show ?thesis by (rule that(1))
qed

lemma get_queue: "p_queue (snd (p_get h32 key p)) = p_queue p"
  by (simp add: p_get_def Let_def split: option.split)

lemma remove_queue: "p_queue (snd (p_remove key p)) = p_queue p"
  by (simp add: p_remove_def)

section \<open>The striped cache\<close>

text \<open>The items waiting in the demotion queue the stripes share.\<close>

definition sc_items :: "scache \<Rightarrow> demotion_item list" where
  "sc_items c = dq_items (sc_queue c)"

lemma view_queue: "cache_ok c K \<Longrightarrow> i < 64 \<Longrightarrow> p_queue (stripe_view c i) = sc_items c"
  by (auto simp: cache_ok_def cache_rep_view sc_items_def shard_at_def)

text \<open>The demotion queue can be exchanged under the stripes: only its items and capacity are seen.\<close>

lemma cache_ok_queue:
  assumes ok: "cache_ok c K" and q: "dq_inv q" "dq_limit q = dq_limit (sc_queue c)"
  shows "cache_ok (c\<lparr>sc_queue := q\<rparr>) K" and "sc_lookup h64 (c\<lparr>sc_queue := q\<rparr>) = sc_lookup h64 c"
    and "i < 64 \<Longrightarrow> p_lookup (stripe_view (c\<lparr>sc_queue := q\<rparr>) i) = p_lookup (stripe_view c i)"
proof -
  let ?c = "c\<lparr>sc_queue := q\<rparr>"
  obtain fs Gs where rep: "cache_rep c fs Gs" using ok by (auto simp: cache_ok_def)
  have at: "shard_at ?c i = (shard_at c i)\<lparr>sh_queue := q\<rparr>" for i by (simp add: shard_at_def)
  have rep': "cache_rep ?c fs Gs"
    using rep q(1) unfolding cache_rep_def at by (simp add: shard_ok_def shard_rep_def)
  have ent: "entry_of (v\<lparr>sh_queue := q\<rparr>) = entry_of v" for v by (simp add: entry_of_def fun_eq_iff)
  have view: "p_tiers (stripe_view ?c i) = p_tiers (stripe_view c i)" "p_stripe (stripe_view ?c i) = p_stripe (stripe_view c i)"
      "p_limit (stripe_view ?c i) = p_limit (stripe_view c i)" if i: "i < 64" for i
    using cache_rep_view [OF rep' i] cache_rep_view [OF rep i] q(2)
    unfolding at by (simp_all add: ent aux_def) (simp_all add: shard_at_def)
  show "cache_ok ?c K"
    using ok view rep' by (auto simp: cache_ok_def policy_ok_def caps_def)
  show "sc_lookup h64 ?c = sc_lookup h64 c"
    by (rule ext) (simp add: sc_lookup_def p_lookup_def view(1) [OF route_less])
  show "p_lookup (stripe_view ?c i) = p_lookup (stripe_view c i)" if "i < 64"
    by (simp add: p_lookup_def view(1) [OF that])
qed

text \<open>Every key is in the stripe it is routed to. The shape of an L1 cache is the size of its slab with the
  capacities of its stripes: no operation changes it.\<close>

definition routed :: "hash64 \<Rightarrow> scache \<Rightarrow> bool" where
  "routed h64 c \<longleftrightarrow> (\<forall>i < 64. \<forall>k. p_lookup (stripe_view c i) k \<noteq> None \<longrightarrow> route h64 k = i)"

type_synonym l1_shape = "u32 \<times> u32 \<times> u32 \<times> u32 \<times> bool \<times> nat"

definition l1_ok :: "hash64 \<Rightarrow> l1_shape \<Rightarrow> scache \<Rightarrow> bool" where
  "l1_ok h64 K c \<longleftrightarrow> cache_ok c (snd K) \<and> routed h64 c \<and> sl_capacity (sc_slab c) = fst K"

lemma routed_step:
  assumes "routed h64 c" and "i < 64"
    and "\<And>k. p_lookup (stripe_view c' i) k \<noteq> None \<Longrightarrow> route h64 k = i"
    and "\<forall>j < 64. j \<noteq> i \<longrightarrow> stays c c' j"
  shows "routed h64 c'"
  unfolding routed_def
proof (intro allI impI)
  fix j :: u32 and k assume "j < 64" "p_lookup (stripe_view c' j) k \<noteq> None"
  then show "route h64 k = j"
    using assms(1,3) other_lookup [OF assms(4), of j] by (cases "j = i") (simp_all add: routed_def)
qed

lemma sc_put_flow:
  assumes ok: "l1_ok h64 K c"
  shows "oks (sc_put h32 h64 key val c) (\<lambda>(r, c'). l1_ok h64 K c' \<and> sc_lookup h64 c' key \<in> {Some val, None} \<and>
    (\<forall>k. k \<noteq> key \<longrightarrow> sc_lookup h64 c' k \<in> {sc_lookup h64 c k, None}) \<and>
    (sc_items c' = sc_items c \<or> (\<exists>k x f. sc_lookup h64 c k = Some x \<and> k \<noteq> key \<and>
       sc_items c' = sc_items c @ [\<lparr>di_key = k, di_value = x, di_frequency = f\<rparr>])))"
proof -
  let ?i = "route h64 key"
  let ?p = "stripe_view c ?i" and ?p' = "snd (p_put h32 key val (stripe_view c (route h64 key)))"
  have cok: "cache_ok c (snd K)" and rt: "routed h64 c" and n: "sl_capacity (sc_slab c) = fst K"
    using ok by (simp_all add: l1_ok_def)
  have pok: "policy_ok ?p" using cok route_less by (simp add: cache_ok_def)
  have home: "route h64 k = ?i" if "p_lookup ?p k \<noteq> None" for k
    using rt route_less that by (auto simp: routed_def)
  have near: "p_lookup ?p' k \<in> {p_lookup ?p k, None}" if "k \<noteq> key" for k
    using put_lookup_other [OF pok that] .
  have far: "sc_lookup h64 c' k \<in> {sc_lookup h64 c k, None}"
    if "stripe_view c' ?i = ?p'" "\<forall>j < 64. j \<noteq> ?i \<longrightarrow> stays c c' j" "k \<noteq> key" for c' k
    using other_lookup [OF that(2) route_less, of h64 k] that(1) near [OF that(3)]
    by (cases "route h64 k = ?i") (simp_all add: sc_lookup_def)
  have rt': "routed h64 c'" if c': "stripe_view c' ?i = ?p'" "\<forall>j < 64. j \<noteq> ?i \<longrightarrow> stays c c' j" for c'
  proof (rule routed_step [OF rt route_less _ c'(2)])
    show "route h64 k = ?i" if "p_lookup (stripe_view c' ?i) k \<noteq> None" for k
      using that home [of k] near [of k] c'(1) by (cases "k = key") auto
  qed
  have queue: "sc_items c' = sc_items c \<or> (\<exists>k x f. sc_lookup h64 c k = Some x \<and> k \<noteq> key \<and>
       sc_items c' = sc_items c @ [\<lparr>di_key = k, di_value = x, di_frequency = f\<rparr>])"
    if c': "cache_ok c' (snd K)" "stripe_view c' ?i = ?p'" for c'
  proof -
    note q = view_queue [OF cok route_less, of h64 key] view_queue [OF c'(1) route_less, of h64 key]
    show ?thesis
    proof (rule put_queue [OF pok, of h32 key val])
      fix k x f assume a: "p_lookup ?p k = Some x" "k \<noteq> key"
        "p_queue ?p' = p_queue ?p @ [\<lparr>di_key = k, di_value = x, di_frequency = f\<rparr>]"
      have "sc_lookup h64 c k = Some x" using a(1) home [of k] by (simp add: sc_lookup_def)
      moreover have "sc_items c' = sc_items c @ [\<lparr>di_key = k, di_value = x, di_frequency = f\<rparr>]"
        using a(3) unfolding q c'(2) [symmetric] .
      ultimately show ?thesis using a(2) by blast
    qed (use q c'(2) in simp)
  qed
  show ?thesis
    unfolding sc_put_def
  proof (rule oks_mono [OF op_put.with_stripe_ok [OF cok route_less]], clarify, intro conjI)
    fix r c' assume c': "cache_ok c' (snd K)" "stripe_view c' ?i = ?p'" "\<forall>j < 64. j \<noteq> ?i \<longrightarrow> stays c c' j"
      and n': "sl_capacity (sc_slab c') = sl_capacity (sc_slab c)"
    show "l1_ok h64 K c'" using c' rt' n n' by (simp add: l1_ok_def)
    show "sc_lookup h64 c' key \<in> {Some val, None}" 
      using put_lookup_self [OF pok, of h32 key val] c'(2) by (simp add: sc_lookup_def)
    show "\<forall>k. k \<noteq> key \<longrightarrow> sc_lookup h64 c' k \<in> {sc_lookup h64 c k, None}" using far c' by blast
    show "sc_items c' = sc_items c \<or> (\<exists>k x f. sc_lookup h64 c k = Some x \<and> k \<noteq> key \<and>
       sc_items c' = sc_items c @ [\<lparr>di_key = k, di_value = x, di_frequency = f\<rparr>])" by (rule queue [OF c'(1,2)])
  qed
qed

lemma sc_get_flow:
  assumes ok: "l1_ok h64 K c"
  shows "oks (sc_get h32 h64 key c) (\<lambda>(r, c'). l1_ok h64 K c' \<and> r = sc_lookup h64 c key \<and>
    sc_lookup h64 c' = sc_lookup h64 c \<and> sc_items c' = sc_items c)"
proof -
  let ?i = "route h64 key"
  have cok: "cache_ok c (snd K)" and rt: "routed h64 c" and n: "sl_capacity (sc_slab c) = fst K"
    using ok by (simp_all add: l1_ok_def)
  have pok: "policy_ok (stripe_view c ?i)" using cok route_less by (simp add: cache_ok_def)
  obtain r c' where e: "with_stripe ?i (stripe_get h32 key) c = Some (r, c')"
    and c': "cache_ok c' (snd K)" "stripe_view c' ?i = snd (p_get h32 key (stripe_view c ?i))" "\<forall>j < 64. j \<noteq> ?i \<longrightarrow> stays c c' j"
    and n': "sl_capacity (sc_slab c') = sl_capacity (sc_slab c)"
    using op_get.with_stripe_ok [OF cok route_less, of h64 key h32 key] by (auto elim!: oksE)
  have "routed h64 c'"
    using rt route_less c'(2) get_keeps(1) [OF pok] by (intro routed_step [OF rt route_less _ c'(3)]) (auto simp: routed_def)
  moreover have "sc_items c' = sc_items c"
    using view_queue [OF cok route_less, of h64 key] view_queue [OF c'(1) route_less, of h64 key] c'(2) get_queue by simp
  ultimately show ?thesis
    using sc_get_ok [OF cok, of h32 h64 key] e c'(1) n n' by (simp add: sc_get_def l1_ok_def)
qed

lemma sc_remove_flow:
  assumes ok: "l1_ok h64 K c"
  shows "oks (sc_remove h64 key c) (\<lambda>(r, c'). l1_ok h64 K c' \<and> r = (sc_lookup h64 c key \<noteq> None) \<and>
    sc_lookup h64 c' = (sc_lookup h64 c)(key := None) \<and> sc_items c' = sc_items c)"
proof -
  let ?i = "route h64 key"
  have cok: "cache_ok c (snd K)" and rt: "routed h64 c" and n: "sl_capacity (sc_slab c) = fst K"
    using ok by (simp_all add: l1_ok_def)
  obtain r c' where e: "with_stripe ?i (stripe_remove key) c = Some (r, c')"
    and c': "cache_ok c' (snd K)" "stripe_view c' ?i = snd (p_remove key (stripe_view c ?i))" "\<forall>j < 64. j \<noteq> ?i \<longrightarrow> stays c c' j"
    and n': "sl_capacity (sc_slab c') = sl_capacity (sc_slab c)"
    using op_remove.with_stripe_ok [OF cok route_less, of h64 key key] by (auto elim!: oksE)
  have "p_lookup (snd (p_remove key (stripe_view c ?i))) = (p_lookup (stripe_view c ?i))(key := None)"
    by (auto simp: p_remove_def lookup_drop fun_eq_iff)
  then have "routed h64 c'"
    using rt route_less c'(2) by (intro routed_step [OF rt route_less _ c'(3)]) (auto simp: routed_def split: if_splits)
  moreover have "sc_items c' = sc_items c"
    using view_queue [OF cok route_less, of h64 key] view_queue [OF c'(1) route_less, of h64 key] c'(2) remove_queue by simp
  ultimately show ?thesis
    using sc_remove_ok [OF cok, of h64 key] e c'(1) n n' by (simp add: sc_remove_def l1_ok_def)
qed

lemma l1_ok_queue:
  assumes "l1_ok h64 K c" and "dq_inv q" and "dq_limit q = dq_limit (sc_queue c)"
  shows "l1_ok h64 K (c\<lparr>sc_queue := q\<rparr>)"
  using assms cache_ok_queue [of c "snd K" q] by (simp add: l1_ok_def routed_def)

lemma l1_ok_dq_inv: "l1_ok h64 K c \<Longrightarrow> dq_inv (sc_queue c)"
proof -
  assume "l1_ok h64 K c"
  then obtain fs Gs where "cache_rep c fs Gs" by (auto simp: l1_ok_def cache_ok_def)
  then have "shard_ok (shard_at c 0) fs (Gs 0)" by (simp add: cache_rep_def)
  then show ?thesis by (simp add: shard_ok_def shard_at_def)
qed

lemma l1_ok_empty:
  assumes "cache_ok c K" and "\<And>i. i < 64 \<Longrightarrow> p_tiers (stripe_view c i) = (\<lambda>_. [])"
  shows "l1_ok h64 (sl_capacity (sc_slab c), K) c" and "sc_lookup h64 c = Map.empty"
  using assms route_less by (auto simp: l1_ok_def routed_def sc_lookup_def p_lookup_def t_all_def fun_eq_iff)

interpretation l1: lossy_cache "sc_put h32 h64" "sc_lookup h64" "l1_ok h64 K" "sc_get h32 h64" for h32 h64 K
  by unfold_locales (auto intro!: oks_mono [OF sc_put_flow] oks_mono [OF sc_get_flow])

interpretation shard_cache: lossy_cache "stripe_put h32" "\<lambda>v. p_lookup (shard_view v)"
    "\<lambda>v. shard_inv v F \<and> policy_ok (shard_view v)" "stripe_get h32" for h32 F
proof (unfold_locales, goal_cases)
  case (1 v key val)
  then have imp: "implements v F (shard_view v)" and ok: "policy_ok (shard_view v)" by (simp_all add: implements_view)
  have "\<forall>k. k \<noteq> key \<longrightarrow> p_lookup (snd (p_put h32 key val (shard_view v))) k \<in> {p_lookup (shard_view v) k, None}"
    using put_lookup_other [OF ok] by blast
  then show ?case
    by (intro oks_mono [OF stripe_put_implements [OF imp, of h32 key val]])
      (use policy_ok_put [OF ok, of h32 key val] put_lookup_self [OF ok, of h32 key val] in \<open>auto simp: implements_view\<close>)
next
  case (2 v key)
  then have imp: "implements v F (shard_view v)" and ok: "policy_ok (shard_view v)" by (simp_all add: implements_view)
  show ?case
    by (rule oks_mono [OF stripe_get_implements [OF imp, of h32 key]])
      (use policy_ok_get [OF ok, of h32 key] get_lookup [OF ok, of h32 key] get_keeps(1) [OF ok, of h32 key]
        in \<open>auto simp: implements_view\<close>)
qed

end
