(* ===== verification/Node_List.thy ===== *)
theory Node_List
  imports Prelude "HOL-Library.AList" "HOL-Library.Multiset"
begin

text \<open>
  \<open>std::list\<close> with an \<open>std::unordered_map\<close> from keys to iterators, the structure of the L2 stripes and of
  the baseline caches. A list node has an identity that survives every splice, which is what an
  iterator holds: a list is the sequence of its nodes, each an identity with its content, and an
  operation on an iterator that is not in the list is \<open>None\<close> (undefined behaviour). An
  \<open>unordered_map\<close> is an association list without duplicate keys, whose order nothing reads.
\<close>

type_synonym 'a nlist = "(nat \<times> 'a) list"
type_synonym 'k index = "('k \<times> nat) list"

definition nl_deref :: "nat \<Rightarrow> 'a nlist \<Rightarrow> 'a option" where
  "nl_deref i xs = map_of xs i"

definition nl_modify :: "nat \<Rightarrow> ('a \<Rightarrow> 'a) \<Rightarrow> 'a nlist \<Rightarrow> 'a nlist option" where
  "nl_modify i f xs = do {
     _ \<leftarrow> nl_deref i xs;
     Some (map (\<lambda>(j, x). (j, if j = i then f x else x)) xs)
   }"

definition nl_erase :: "nat \<Rightarrow> 'a nlist \<Rightarrow> 'a nlist option" where
  "nl_erase i xs = do {
     _ \<leftarrow> nl_deref i xs;
     Some (filter (\<lambda>(j, x). j \<noteq> i) xs)
   }"

text \<open>\<open>dst.splice(dst.begin(), src, it)\<close>, and the same with \<open>dst\<close> and \<open>src\<close> one list.\<close>

definition nl_splice :: "nat \<Rightarrow> 'a nlist \<Rightarrow> 'a nlist \<Rightarrow> ('a nlist \<times> 'a nlist) option" where
  "nl_splice i src dst = do {
     x \<leftarrow> nl_deref i src;
     src \<leftarrow> nl_erase i src;
     Some (src, (i, x) # dst)
   }"

definition nl_to_front :: "nat \<Rightarrow> 'a nlist \<Rightarrow> 'a nlist option" where
  "nl_to_front i xs = do {
     x \<leftarrow> nl_deref i xs;
     xs \<leftarrow> nl_erase i xs;
     Some ((i, x) # xs)
   }"

text \<open>\<open>std::prev(list.end())\<close> and \<open>list.back()\<close>, and \<open>pop_back()\<close>.\<close>

definition nl_last :: "'a nlist \<Rightarrow> (nat \<times> 'a) option" where
  "nl_last xs = (if xs = [] then None else Some (last xs))"

definition nl_pop_back :: "'a nlist \<Rightarrow> 'a nlist option" where
  "nl_pop_back xs = (if xs = [] then None else Some (butlast xs))"

lemma nl_deref_Some: "distinct (map fst xs) \<Longrightarrow> nl_deref i xs = Some x \<longleftrightarrow> (i, x) \<in> set xs"
  by (simp add: nl_deref_def)

lemma filter_not_fst [simp]: "i \<notin> fst ` set xs \<Longrightarrow> filter (\<lambda>(j, x). j \<noteq> i) xs = xs"
  by (rule filter_True) force

lemma nl_split:
  assumes "distinct (map fst xs)" and "(i, x) \<in> set xs"
  obtains as bs where "xs = as @ (i, x) # bs" and "i \<notin> fst ` set as" and "i \<notin> fst ` set bs"
    and "nl_deref i xs = Some x" and "nl_erase i xs = Some (as @ bs)"
    and "nl_to_front i xs = Some ((i, x) # as @ bs)"
    and "\<And>dst. nl_splice i xs dst = Some (as @ bs, (i, x) # dst)"
    and "\<And>f. nl_modify i f xs = Some (as @ (i, f x) # bs)"
proof -
  obtain as bs where e: "xs = as @ (i, x) # bs" using assms(2) by (meson split_list)
  have out: "i \<notin> fst ` set as" "i \<notin> fst ` set bs" using assms(1) by (auto simp: e)
  have d: "nl_deref i xs = Some x" using assms by (simp add: nl_deref_Some)
  have er: "nl_erase i xs = Some (as @ bs)" using d out by (simp add: nl_erase_def e)
  have "map (\<lambda>(j, y). (j, if j = i then f y else y)) as = as" "map (\<lambda>(j, y). (j, if j = i then f y else y)) bs = bs" for f
    using out by (force intro!: map_idI)+
  then have "nl_modify i f xs = Some (as @ (i, f x) # bs)" for f using d by (simp add: nl_modify_def e)
  then show ?thesis using that e out d er by (simp add: nl_to_front_def nl_splice_def)
qed

section \<open>A list with its index\<close>

text \<open>The index holds exactly the nodes of the list, under their keys; \<open>fresh\<close> bounds the identities.\<close>

definition indexed :: "('a \<Rightarrow> 'k) \<Rightarrow> 'a nlist \<Rightarrow> 'k index \<Rightarrow> nat \<Rightarrow> bool" where
  "indexed key xs m fresh \<longleftrightarrow> distinct (map fst xs) \<and> distinct (map (\<lambda>p. key (snd p)) xs) \<and> distinct (map fst m) \<and>
     set m = (\<lambda>p. (key (snd p), fst p)) ` set xs \<and> (\<forall>p \<in> set xs. fst p < fresh)"

lemma distinct_map_perm: "mset xs = mset ys \<Longrightarrow> distinct (map f xs) = distinct (map f ys)"
  by (metis mset_eq_imp_distinct_iff mset_map)

lemma indexed_perm: "mset xs = mset ys \<Longrightarrow> indexed key xs m n = indexed key ys m n"
  using distinct_map_perm [of xs ys fst] distinct_map_perm [of xs ys "\<lambda>p. key (snd p)"] mset_eq_setD [of xs ys]
  by (simp add: indexed_def)

lemma indexed_Nil [simp]: "indexed key [] [] n"
  by (simp add: indexed_def)

lemma indexed_insert:
  assumes "indexed key xs m n" and "key x \<notin> (\<lambda>p. key (snd p)) ` set xs"
  shows "indexed key ((n, x) # xs) (AList.update (key x) n m) (Suc n)"
proof -
  have nk: "key x \<notin> fst ` set m" using assms by (simp add: indexed_def image_image)
  then have "AList.update (key x) n m = m @ [(key x, n)]" by (induction m) auto
  moreover have "n \<notin> fst ` set xs" using assms by (auto simp: indexed_def)
  ultimately show ?thesis
    using assms nk by (auto simp: indexed_def less_Suc_eq)
qed

lemma indexed_delete:
  assumes "indexed key ((i, x) # xs) m n"
  shows "indexed key xs (AList.delete (key x) m) n"
proof -
  have out: "key x \<notin> (\<lambda>p. key (snd p)) ` set xs"
    and m: "set m = insert (key x, i) ((\<lambda>p. (key (snd p), fst p)) ` set xs)"
    using assms by (simp_all add: indexed_def)
  have "set (AList.delete (key x) m) = {p \<in> set m. fst p \<noteq> key x}"
    by (auto simp: AList.delete_eq)
  also have "\<dots> = (\<lambda>p. (key (snd p), fst p)) ` set xs"
    using out unfolding m by (auto simp: image_iff)
  finally show ?thesis
    using assms by (simp add: indexed_def AList.distinct_delete)
qed

lemma indexed_modify: "indexed key ((i, x) # xs) m n \<Longrightarrow> key x' = key x \<Longrightarrow> indexed key ((i, x') # xs) m n"
  by (simp add: indexed_def)

lemma indexed_find: "indexed key xs m n \<Longrightarrow> map_of m k = Some i \<longleftrightarrow> (\<exists>x. (i, x) \<in> set xs \<and> key x = k)"
proof -
  assume i: "indexed key xs m n"
  then have "map_of m k = Some i \<longleftrightarrow> (k, i) \<in> set m" by (simp add: indexed_def)
  also have "\<dots> \<longleftrightarrow> (\<exists>p \<in> set xs. k = key (snd p) \<and> i = fst p)" using i by (auto simp: indexed_def)
  finally show ?thesis by force
qed

lemma indexed_find_None: "indexed key xs m n \<Longrightarrow> map_of m k = None \<longleftrightarrow> k \<notin> (\<lambda>p. key (snd p)) ` set xs"
  by (simp add: indexed_def map_of_eq_None_iff image_image)

lemma indexed_length: "indexed key xs m n \<Longrightarrow> length m = length xs"
proof -
  assume i: "indexed key xs m n"
  have "fst ` set m = (\<lambda>p. key (snd p)) ` set xs" using i by (simp add: indexed_def image_image)
  then have "card (set (map fst m)) = card (set (map (\<lambda>p. key (snd p)) xs))" by simp
  moreover have "distinct (map fst m)" "distinct (map (\<lambda>p. key (snd p)) xs)" using i by (simp_all add: indexed_def)
  ultimately show ?thesis by (metis distinct_card length_map)
qed

lemma indexed_key_inj:
  assumes "indexed key xs m n" and "(i, x) \<in> set xs" and "(j, y) \<in> set xs" and "key x = key y"
  shows "i = j \<and> x = y"
proof -
  have "inj_on (\<lambda>p. key (snd p)) (set xs)" using assms(1) by (simp add: indexed_def distinct_map)
  from inj_onD [OF this _ assms(2,3)] show ?thesis using assms(4) by simp
qed

lemma indexed_ids: "indexed key xs m n \<Longrightarrow> distinct (map fst xs)"
  by (simp add: indexed_def)

end
