(* ===== verification/Lru_Map.thy ===== *)
theory Lru_Map
  imports Node_List
begin

text \<open>
  The structure \<open>{std::list<Node> list; std::unordered_map<std::string, std::list<Node>::iterator> map}\<close>
  that an L2 stripe (\<open>include/cache_engine.h\<close>) and the baseline LRU caches (\<open>benchmarks/lru_cache.h\<close>) are
  made of, with the steps their operations are composed of, and its abstraction: the list of its entries,
  most recently used first. \<open>lm_fresh\<close> is the identity of the next node that is allocated.
\<close>

record kv_node =
  kn_key :: string
  kn_value :: string

record lru_map =
  lm_list :: "kv_node nlist"
  lm_map :: "string index"
  lm_fresh :: nat

definition lm_empty :: lru_map where
  "lm_empty = \<lparr>lm_list = [], lm_map = [], lm_fresh = 0\<rparr>"

text \<open>\<open>map.find(key)\<close>, \<open>it->second->value\<close> read and written, \<open>list.splice(list.begin(), list, it->second)\<close>.\<close>

definition lm_find :: "string \<Rightarrow> lru_map \<Rightarrow> nat option" where
  "lm_find key l = map_of (lm_map l) key"

definition lm_value :: "nat \<Rightarrow> lru_map \<Rightarrow> string option" where
  "lm_value i l = map_option kn_value (nl_deref i (lm_list l))"

definition lm_set_value :: "nat \<Rightarrow> string \<Rightarrow> lru_map \<Rightarrow> lru_map option" where
  "lm_set_value i val l = do {
     xs \<leftarrow> nl_modify i (\<lambda>n. n\<lparr>kn_value := val\<rparr>) (lm_list l);
     Some (l\<lparr>lm_list := xs\<rparr>)
   }"

definition lm_splice_front :: "nat \<Rightarrow> lru_map \<Rightarrow> lru_map option" where
  "lm_splice_front i l = do {
     xs \<leftarrow> nl_to_front i (lm_list l);
     Some (l\<lparr>lm_list := xs\<rparr>)
   }"

text \<open>\<open>list.erase(it->second); map.erase(it)\<close>, then the eviction of \<open>list.back()\<close>, then the insertion.\<close>

definition lm_erase :: "string \<Rightarrow> nat \<Rightarrow> lru_map \<Rightarrow> lru_map option" where
  "lm_erase key i l = do {
     xs \<leftarrow> nl_erase i (lm_list l);
     Some (l\<lparr>lm_list := xs, lm_map := AList.delete key (lm_map l)\<rparr>)
   }"

definition lm_evict :: "lru_map \<Rightarrow> lru_map option" where
  "lm_evict l = do {
     (_, victim) \<leftarrow> nl_last (lm_list l);
     xs \<leftarrow> nl_pop_back (lm_list l);
     Some (l\<lparr>lm_list := xs, lm_map := AList.delete (kn_key victim) (lm_map l)\<rparr>)
   }"

definition lm_insert :: "string \<Rightarrow> string \<Rightarrow> lru_map \<Rightarrow> lru_map" where
  "lm_insert key val l = l\<lparr>lm_list := (lm_fresh l, \<lparr>kn_key = key, kn_value = val\<rparr>) # lm_list l,
     lm_map := AList.update key (lm_fresh l) (lm_map l), lm_fresh := Suc (lm_fresh l)\<rparr>"

section \<open>Abstraction\<close>

type_synonym kv = "string \<times> string"

definition lm_ok :: "lru_map \<Rightarrow> bool" where
  "lm_ok l \<longleftrightarrow> indexed kn_key (lm_list l) (lm_map l) (lm_fresh l)"

definition lm_entries :: "lru_map \<Rightarrow> kv list" where
  "lm_entries l = map (\<lambda>p. (kn_key (snd p), kn_value (snd p))) (lm_list l)"

definition e_touch :: "string \<Rightarrow> kv list \<Rightarrow> kv list" where
  "e_touch key es = filter (\<lambda>e. fst e = key) es @ filter (\<lambda>e. fst e \<noteq> key) es"

definition e_drop :: "string \<Rightarrow> kv list \<Rightarrow> kv list" where
  "e_drop key es = filter (\<lambda>e. fst e \<noteq> key) es"

definition e_write :: "string \<Rightarrow> string \<Rightarrow> kv list \<Rightarrow> kv list" where
  "e_write key val es = (key, val) # e_drop key es"

lemma lm_ok_empty [simp]: "lm_ok lm_empty" and lm_entries_empty [simp]: "lm_entries lm_empty = []"
  by (simp_all add: lm_ok_def lm_entries_def lm_empty_def)

lemma lm_length: "lm_ok l \<Longrightarrow> length (lm_map l) = length (lm_entries l)"
  using indexed_length by (simp add: lm_ok_def lm_entries_def)

lemma lm_keys: "fst ` set (lm_entries l) = (\<lambda>p. kn_key (snd p)) ` set (lm_list l)"
  by (simp add: lm_entries_def image_image)

lemma lm_find_None: "lm_ok l \<Longrightarrow> lm_find key l = None \<longleftrightarrow> map_of (lm_entries l) key = None"
  using indexed_find_None [of kn_key "lm_list l" "lm_map l" "lm_fresh l" key]
  by (simp add: lm_ok_def lm_find_def lm_entries_def map_of_eq_None_iff image_image)

lemma lm_distinct: "lm_ok l \<Longrightarrow> distinct (map fst (lm_entries l))"
  by (simp add: lm_ok_def lm_entries_def indexed_def comp_def)

lemma lm_hit:
  assumes ok: "lm_ok l" and find: "lm_find key l = Some i"
  obtains v where "map_of (lm_entries l) key = Some v" and "lm_value i l = Some v"
    and "oks (lm_splice_front i l) (\<lambda>l'. lm_ok l' \<and> lm_entries l' = e_touch key (lm_entries l) \<and> lm_value i l' = Some v)"
    and "oks (lm_erase key i l) (\<lambda>l'. lm_ok l' \<and> lm_entries l' = e_drop key (lm_entries l))"
    and "\<And>val. oks (lm_set_value i val l \<bind> lm_splice_front i) (\<lambda>l'. lm_ok l' \<and> lm_entries l' = e_write key val (lm_entries l))"
proof -
  have ix: "indexed kn_key (lm_list l) (lm_map l) (lm_fresh l)" using ok by (simp add: lm_ok_def)
  obtain n where n: "(i, n) \<in> set (lm_list l)" "kn_key n = key"
    using find indexed_find [OF ix] by (auto simp: lm_find_def)
  obtain as bs where e: "lm_list l = as @ (i, n) # bs" and out: "i \<notin> fst ` set as" "i \<notin> fst ` set bs"
    and d: "nl_deref i (lm_list l) = Some n" "nl_erase i (lm_list l) = Some (as @ bs)"
      "nl_to_front i (lm_list l) = Some ((i, n) # as @ bs)"
    and md: "\<And>f. nl_modify i f (lm_list l) = Some (as @ (i, f n) # bs)"
    by (rule nl_split [OF indexed_ids [OF ix] n(1)]) (rule that; assumption)
  let ?ab = "map (\<lambda>p. (kn_key (snd p), kn_value (snd p)))"
  have key: "kn_key (snd p) \<noteq> key" if "p \<in> set as \<union> set bs" for p
    using indexed_key_inj [OF ix n(1), of "fst p" "snd p"] that out n(2) e by force
  have fl: "filter (\<lambda>e. fst e \<noteq> key) (?ab as) = ?ab as" "filter (\<lambda>e. fst e \<noteq> key) (?ab bs) = ?ab bs"
      "filter (\<lambda>e. fst e = key) (?ab as) = []" "filter (\<lambda>e. fst e = key) (?ab bs) = []"
    using key by (auto simp: filter_id_conv filter_empty_conv)
  have ix1: "indexed kn_key ((i, n) # as @ bs) (lm_map l) (lm_fresh l)"
    using ix by (rule indexed_perm [THEN iffD1, rotated]) (simp add: e)
  let ?v = "kn_value n"
  show ?thesis
  proof (rule that [of ?v])
    show "map_of (lm_entries l) key = Some ?v" using key n(2) by (force simp: lm_entries_def e map_add_def split: option.split dest!: map_of_SomeD)
    show "lm_value i l = Some ?v" by (simp add: lm_value_def d)
    show "oks (lm_splice_front i l) (\<lambda>l'. lm_ok l' \<and> lm_entries l' = e_touch key (lm_entries l) \<and> lm_value i l' = Some ?v)"
      using ix1 n(2) fl by (simp add: lm_splice_front_def d [unfolded e] lm_ok_def lm_entries_def lm_value_def e_touch_def e nl_deref_def)
    show "oks (lm_erase key i l) (\<lambda>l'. lm_ok l' \<and> lm_entries l' = e_drop key (lm_entries l))"
      using indexed_delete [OF ix1] n(2) fl by (simp add: lm_erase_def d [unfolded e] lm_ok_def lm_entries_def e_drop_def e)
    fix val
    let ?m = "n\<lparr>kn_value := val\<rparr>"
    have "nl_to_front i (as @ (i, ?m) # bs) = Some ((i, ?m) # as @ bs)"
      using out by (simp add: nl_to_front_def nl_erase_def nl_deref_def map_add_def split: option.split)
        (force dest: map_of_SomeD)
    moreover have "indexed kn_key ((i, ?m) # as @ bs) (lm_map l) (lm_fresh l)"
      by (rule indexed_modify [OF ix1]) simp
    ultimately show "oks (lm_set_value i val l \<bind> lm_splice_front i)
        (\<lambda>l'. lm_ok l' \<and> lm_entries l' = e_write key val (lm_entries l))"
      using n(2) fl by (simp add: lm_set_value_def lm_splice_front_def md [unfolded e] lm_ok_def lm_entries_def e_write_def e_drop_def e)
  qed
qed

lemma lm_evict_ok:
  assumes ok: "lm_ok l" and ne: "lm_entries l \<noteq> []"
  shows "oks (lm_evict l) (\<lambda>l'. lm_ok l' \<and> lm_entries l' = butlast (lm_entries l))"
proof -
  have ne': "lm_list l \<noteq> []" using ne by (simp add: lm_entries_def)
  obtain i n where last: "last (lm_list l) = (i, n)" by fastforce
  have "mset (lm_list l) = mset ((i, n) # butlast (lm_list l))"
    using last append_butlast_last_id [OF ne'] by (metis mset_append mset.simps union_code add.commute add_mset_add_single)
  then have "indexed kn_key ((i, n) # butlast (lm_list l)) (lm_map l) (lm_fresh l)"
    by (rule indexed_perm [THEN iffD1]) (use ok in \<open>simp add: lm_ok_def\<close>)
  then show ?thesis
    using indexed_delete ne' by (simp add: lm_evict_def nl_last_def nl_pop_back_def last lm_ok_def lm_entries_def map_butlast)
qed

lemma lm_insert_ok:
  assumes "lm_ok l" and "lm_find key l = None"
  shows "lm_ok (lm_insert key val l)" and "lm_entries (lm_insert key val l) = (key, val) # lm_entries l"
  using indexed_insert [of kn_key "lm_list l" "lm_map l" "lm_fresh l" "\<lparr>kn_key = key, kn_value = val\<rparr>"]
    indexed_find_None [of kn_key "lm_list l" "lm_map l" "lm_fresh l" key] assms
  by (simp_all add: lm_ok_def lm_find_def lm_insert_def lm_entries_def)

lemma e_drop_absent: "map_of es key = None \<Longrightarrow> e_drop key es = es"
  by (force simp: e_drop_def map_of_eq_None_iff filter_id_conv)

lemma map_of_e_drop: "map_of (e_drop key es) = (map_of es)(key := None)"
  by (induction es) (auto simp: e_drop_def fun_eq_iff)

lemma map_of_e_write: "map_of (e_write key val es) = (map_of es)(key \<mapsto> val)"
  by (simp add: e_write_def map_of_e_drop)

lemma e_touch_perm: "mset (e_touch key es) = mset es"
  by (induction es) (auto simp: e_touch_def)

lemma length_e_touch [simp]: "length (e_touch key es) = length es"
  by (metis e_touch_perm size_mset)

lemma map_of_e_touch: "distinct (map fst es) \<Longrightarrow> map_of (e_touch key es) = map_of es"
  by (rule map_of_inject_set [THEN iffD2])
    (use e_touch_perm [of key es] distinct_map_perm [of "e_touch key es" es fst] mset_eq_setD in auto)

lemma length_e_drop: "length (e_drop key es) \<le> length es"
  by (simp add: e_drop_def)

lemma length_e_drop_present: "map_of es key \<noteq> None \<Longrightarrow> length (e_drop key es) < length es"
  unfolding e_drop_def by (rule length_filter_less [of "(key, the (map_of es key))"]) (auto dest: map_of_SomeD)

end
