(* ===== verification/Storage_Backend.thy ===== *)
theory Storage_Backend
  imports Prelude
begin

text \<open>
  \<open>StorageBackend\<close> (\<open>include/storage_backend.h\<close>, \<open>src/storage_backend.cpp\<close>): the interface the cache
  engine writes through to, as a record of operations over a state of any type, and the in-memory
  backend that implements it. What the engine relies on is the locale \<open>kv_store\<close>. Each operation of the
  in-memory backend holds its lock throughout, so it is one atomic step.
\<close>

text \<open>The virtual functions. The two counters have a default, 0.\<close>

record 'b backend =
  bk_get :: "string \<Rightarrow> 'b \<Rightarrow> string option \<times> 'b"
  bk_put :: "string \<Rightarrow> string \<Rightarrow> 'b \<Rightarrow> bool \<times> 'b"
  bk_remove :: "string \<Rightarrow> 'b \<Rightarrow> bool \<times> 'b"
  bk_reads :: "'b \<Rightarrow> u64"
  bk_writes :: "'b \<Rightarrow> u64"

definition default_counter :: "'b \<Rightarrow> u64" where
  "default_counter b = 0"

record memory_backend =
  mb_store :: "string \<rightharpoonup> string"
  mb_reads :: u64
  mb_writes :: u64

definition memory_new :: memory_backend where
  "memory_new = \<lparr>mb_store = Map.empty, mb_reads = 0, mb_writes = 0\<rparr>"

definition memory_get :: "string \<Rightarrow> memory_backend \<Rightarrow> string option \<times> memory_backend" where
  "memory_get key b =
     (let b = b\<lparr>mb_reads := mb_reads b + 1\<rparr>
      in case mb_store b key of None \<Rightarrow> (None, b) | Some val \<Rightarrow> (Some val, b))"

definition memory_put :: "string \<Rightarrow> string \<Rightarrow> memory_backend \<Rightarrow> bool \<times> memory_backend" where
  "memory_put key val b =
     (let b = b\<lparr>mb_writes := mb_writes b + 1\<rparr>
      in (True, b\<lparr>mb_store := (mb_store b)(key \<mapsto> val)\<rparr>))"

definition memory_remove :: "string \<Rightarrow> memory_backend \<Rightarrow> bool \<times> memory_backend" where
  "memory_remove key b =
     (case mb_store b key of
        None \<Rightarrow> (False, b)
      | Some _ \<Rightarrow> (True, b\<lparr>mb_store := (mb_store b)(key := None)\<rparr>))"

definition memory_ops :: "memory_backend backend" where
  "memory_ops = \<lparr>bk_get = memory_get, bk_put = memory_put, bk_remove = memory_remove,
     bk_reads = mb_reads, bk_writes = mb_writes\<rparr>"

section \<open>What the engine relies on\<close>

locale kv_store =
  fixes B :: "'b backend" and content :: "'b \<Rightarrow> string \<Rightarrow> string option"
  assumes get_law: "fst (bk_get B key b) = content b key" "content (snd (bk_get B key b)) = content b"
    and put_law: "content (snd (bk_put B key val b)) = (content b)(key \<mapsto> val)"
    and remove_law: "fst (bk_remove B key b) \<longleftrightarrow> content b key \<noteq> None"
      "content (snd (bk_remove B key b)) = (content b)(key := None)"

interpretation memory: kv_store memory_ops mb_store
proof
  show "fst (bk_get memory_ops key b) = mb_store b key" "mb_store (snd (bk_get memory_ops key b)) = mb_store b" for key b
    by (simp_all add: memory_ops_def memory_get_def Let_def split: option.split)
  show "mb_store (snd (bk_put memory_ops key val b)) = (mb_store b)(key \<mapsto> val)" for key val b
    by (simp add: memory_ops_def memory_put_def Let_def)
  show "fst (bk_remove memory_ops key b) \<longleftrightarrow> mb_store b key \<noteq> None"
    "mb_store (snd (bk_remove memory_ops key b)) = (mb_store b)(key := None)" for key b
    by (auto simp: memory_ops_def memory_remove_def split: option.split)
qed

end
