(* ===== verification/Cache_Engine.thy ===== *)
theory Cache_Engine
  imports Cache_Flow Lru_Map Storage_Backend Demotion_Drainer
begin

text \<open>
  \<open>CacheEngine\<close> (\<open>include/cache_engine.h\<close>, \<open>src/cache_engine.cpp\<close>): the L1 cache, the L2 cache of 16
  exclusive LRU stripes, and the backend. A get asks L1, then L2, then the backend, and puts what it
  found back into L1; a put writes through. Entries evicted from L1 reach L2 through the demotion queue
  and the drainer thread. The engine is parameterised by the backend's operations \<open>B\<close> and the two hash
  functions of XXHash. This theory holds the code in the uninstrumented form (\<open>bd == nullptr\<close>).

  A client's operation is a sequence of calls that each lock one component. The drainer's work is
  interleaved between client operations as two steps: popping a batch (\<open>en_batch\<close> is the batch it is
  working on, \<open>[]\<close> when it waits), and inserting one item of it, since \<open>l2_put_batch\<close> locks an L2 stripe
  per item.
\<close>

record engine_config =
  ec_l1 :: sc_config
  ec_l2_capacity :: u32
  ec_queue_size :: u32

definition default_engine_config :: engine_config where
  "default_engine_config = \<lparr>ec_l1 = default_config, ec_l2_capacity = 2048, ec_queue_size = 2048\<rparr>"

record l2_stripe =
  l2_store :: lru_map
  l2_hits :: u64
  l2_misses :: u64

record 'b engine =
  en_l1 :: scache
  en_backend :: 'b
  en_l2 :: "l2_stripe list"
  en_l2_capacity :: u32
  en_batch :: "demotion_item list"

definition kNumL2Stripes :: nat where
  "kNumL2Stripes = 16"

section \<open>Construction\<close>

text \<open>\<open>Inl\<close> is the exception of the slab's constructor. The demotion queue is a member of the engine; the
  L1 cache holds it as \<open>sc_queue\<close>, and its stripes point to it from \<open>set_demotion_queue\<close> on.\<close>

definition engine_new :: "engine_config \<Rightarrow> 'b \<Rightarrow> (string + 'b engine) option" where
  "engine_new config b = do {
     l1 \<leftarrow> sc_new (dq_new (ec_queue_size config)) (ec_l1 config);
     case l1 of
       Inl error \<Rightarrow> Some (Inl error)
     | Inr l1 \<Rightarrow>
         Some (Inr \<lparr>en_l1 = sc_set_demotion_queue True l1, en_backend = b,
           en_l2 = replicate kNumL2Stripes \<lparr>l2_store = lm_empty, l2_hits = 0, l2_misses = 0\<rparr>,
           en_l2_capacity = max 1 (ec_l2_capacity config div of_nat kNumL2Stripes), en_batch = []\<rparr>)
   }"

section \<open>L2\<close>

definition l2_index :: "hash64 \<Rightarrow> string \<Rightarrow> nat" where
  "l2_index h64 key = unat (h64 key 0x1234567890ABCDEF mod of_nat kNumL2Stripes)"

text \<open>A step on the L2 stripe with the given number, under its lock.\<close>

definition with_l2 :: "nat \<Rightarrow> (l2_stripe \<Rightarrow> ('r \<times> l2_stripe) option) \<Rightarrow> 'b engine \<Rightarrow> ('r \<times> 'b engine) option" where
  "with_l2 i f e =
     (if i < length (en_l2 e)
      then do { (r, s) \<leftarrow> f (en_l2 e ! i); Some (r, e\<lparr>en_l2 := (en_l2 e)[i := s]\<rparr>) }
      else None)"

definition l2_stripe_get :: "string \<Rightarrow> l2_stripe \<Rightarrow> (string option \<times> l2_stripe) option" where
  "l2_stripe_get key s =
     (case lm_find key (l2_store s) of
        None \<Rightarrow> Some (None, s\<lparr>l2_misses := l2_misses s + 1\<rparr>)
      | Some it \<Rightarrow> do {
          val \<leftarrow> lm_value it (l2_store s);
          store \<leftarrow> lm_erase key it (l2_store s);
          Some (Some val, s\<lparr>l2_store := store, l2_hits := l2_hits s + 1\<rparr>)
        })"

definition l2_stripe_put :: "u32 \<Rightarrow> demotion_item \<Rightarrow> l2_stripe \<Rightarrow> (unit \<times> l2_stripe) option" where
  "l2_stripe_put capacity item s =
     (case lm_find (di_key item) (l2_store s) of
        Some it \<Rightarrow> do {
          store \<leftarrow> lm_set_value it (di_value item) (l2_store s) \<bind> lm_splice_front it;
          Some ((), s\<lparr>l2_store := store\<rparr>)
        }
      | None \<Rightarrow> do {
          store \<leftarrow> (if length (lm_map (l2_store s)) \<ge> unat capacity then lm_evict (l2_store s)
                   else Some (l2_store s));
          Some ((), s\<lparr>l2_store := lm_insert (di_key item) (di_value item) store\<rparr>)
        })"

definition l2_stripe_remove :: "string \<Rightarrow> l2_stripe \<Rightarrow> (unit \<times> l2_stripe) option" where
  "l2_stripe_remove key s =
     (case lm_find key (l2_store s) of
        None \<Rightarrow> Some ((), s)
      | Some it \<Rightarrow> do { store \<leftarrow> lm_erase key it (l2_store s); Some ((), s\<lparr>l2_store := store\<rparr>) })"

definition l2_get :: "hash64 \<Rightarrow> string \<Rightarrow> 'b engine \<Rightarrow> (string option \<times> 'b engine) option" where
  "l2_get h64 key = with_l2 (l2_index h64 key) (l2_stripe_get key)"

definition l2_put_item :: "hash64 \<Rightarrow> demotion_item \<Rightarrow> 'b engine \<Rightarrow> 'b engine option" where
  "l2_put_item h64 item e =
     map_option snd (with_l2 (l2_index h64 (di_key item)) (l2_stripe_put (en_l2_capacity e) item) e)"

definition l2_put_batch :: "hash64 \<Rightarrow> demotion_item list \<Rightarrow> 'b engine \<Rightarrow> 'b engine option" where
  "l2_put_batch h64 batch e = (if batch = [] then Some e else ofold (l2_put_item h64) batch e)"

section \<open>Client operations\<close>

definition l1_put :: "hash32 \<Rightarrow> hash64 \<Rightarrow> string \<Rightarrow> string \<Rightarrow> 'b engine \<Rightarrow> (bool \<times> 'b engine) option" where
  "l1_put h32 h64 key val e = do {
     (r, l1) \<leftarrow> sc_put h32 h64 key val (en_l1 e);
     Some (r, e\<lparr>en_l1 := l1\<rparr>)
   }"

definition engine_get :: "'b backend \<Rightarrow> hash32 \<Rightarrow> hash64 \<Rightarrow> string \<Rightarrow> 'b engine \<Rightarrow> (string option \<times> 'b engine) option" where
  "engine_get B h32 h64 key e = do {
     (l1_result, l1) \<leftarrow> sc_get h32 h64 key (en_l1 e);
     let e = e\<lparr>en_l1 := l1\<rparr>;
     case l1_result of
       Some val \<Rightarrow> Some (Some val, e)
     | None \<Rightarrow> do {
         (l2_result, e) \<leftarrow> l2_get h64 key e;
         case l2_result of
           Some val \<Rightarrow> do { (_, e) \<leftarrow> l1_put h32 h64 key val e; Some (Some val, e) }
         | None \<Rightarrow>
             let (backend_result, b) = bk_get B key (en_backend e); e = e\<lparr>en_backend := b\<rparr>
             in case backend_result of
                  Some val \<Rightarrow> do { (_, e) \<leftarrow> l1_put h32 h64 key val e; Some (Some val, e) }
                | None \<Rightarrow> Some (None, e)
       }
   }"

definition engine_put :: "'b backend \<Rightarrow> hash32 \<Rightarrow> hash64 \<Rightarrow> string \<Rightarrow> string \<Rightarrow> 'b engine \<Rightarrow> (bool \<times> 'b engine) option" where
  "engine_put B h32 h64 key val e =
     (let (_, b) = bk_put B key val (en_backend e) in l1_put h32 h64 key val (e\<lparr>en_backend := b\<rparr>))"

definition engine_remove :: "'b backend \<Rightarrow> hash64 \<Rightarrow> string \<Rightarrow> 'b engine \<Rightarrow> (bool \<times> 'b engine) option" where
  "engine_remove B h64 key e = do {
     (in_l1, l1) \<leftarrow> sc_remove h64 key (en_l1 e);
     (_, e) \<leftarrow> with_l2 (l2_index h64 key) (l2_stripe_remove key) (e\<lparr>en_l1 := l1\<rparr>);
     let (in_backend, b) = bk_remove B key (en_backend e);
     Some (in_l1 \<or> in_backend, e\<lparr>en_backend := b\<rparr>)
   }"

section \<open>The drainer's steps, and shutdown\<close>

definition drain_pop :: "'b engine \<Rightarrow> 'b engine option" where
  "drain_pop e =
     (if en_batch e = []
      then do {
        (_, batch, q) \<leftarrow> dq_try_pop_batch 64 (sc_queue (en_l1 e)) [];
        Some (e\<lparr>en_l1 := (en_l1 e)\<lparr>sc_queue := q\<rparr>, en_batch := batch\<rparr>)
      }
      else Some e)"

definition drain_insert :: "hash64 \<Rightarrow> 'b engine \<Rightarrow> 'b engine option" where
  "drain_insert h64 e =
     (case en_batch e of
        [] \<Rightarrow> Some e
      | item # batch \<Rightarrow> do { e \<leftarrow> l2_put_item h64 item e; Some (e\<lparr>en_batch := batch\<rparr>) })"

text \<open>The destructor: the stripes' queue pointers are cleared, then the drainer finishes its batch and
  drains the queue, with \<open>l2_put_batch\<close> as its callback.\<close>

definition engine_close :: "hash64 \<Rightarrow> 'b engine \<Rightarrow> 'b engine option" where
  "engine_close h64 e = do {
     let e = e\<lparr>en_l1 := sc_set_demotion_queue False (en_l1 e)\<rparr>;
     e \<leftarrow> l2_put_batch h64 (en_batch e) e;
     (q, _, e) \<leftarrow> final_drain (l2_put_batch h64) (sc_queue (en_l1 e)) 0 (e\<lparr>en_batch := []\<rparr>);
     Some (e\<lparr>en_l1 := (en_l1 e)\<lparr>sc_queue := q\<rparr>\<rparr>)
   }"

section \<open>Statistics\<close>

definition engine_l2_hits :: "'b engine \<Rightarrow> u64" where
  "engine_l2_hits e = fold (\<lambda>s total. total + l2_hits s) (en_l2 e) 0"

definition engine_l2_misses :: "'b engine \<Rightarrow> u64" where
  "engine_l2_misses e = fold (\<lambda>s total. total + l2_misses s) (en_l2 e) 0"

definition engine_l2_size :: "'b engine \<Rightarrow> u32" where
  "engine_l2_size e = fold (\<lambda>s total. total + of_nat (length (lm_map (l2_store s)))) (en_l2 e) 0"

end
