(* ===== verification/Cache_Engine_Props.thy ===== *)
theory Cache_Engine_Props
  imports Cache_Engine
begin

text \<open>
  The cache engine as a whole: where copies of a value can be (L1, the demotion queue and the drainer's
  batch, L2), how each operation moves them, and what follows for a client: the engine never invents a
  value, always writes through, and is indistinguishable from the backend alone as long as no old copy of
  a key waits outside L1 when the key is overwritten or removed.
\<close>

section \<open>L2 as a map\<close>

definition l2_entries :: "'b engine \<Rightarrow> nat \<Rightarrow> kv list" where
  "l2_entries e i = lm_entries (l2_store (en_l2 e ! i))"

definition l2_stripe_ok :: "hash64 \<Rightarrow> u32 \<Rightarrow> nat \<Rightarrow> l2_stripe \<Rightarrow> bool" where
  "l2_stripe_ok h64 capacity i s \<longleftrightarrow> lm_ok (l2_store s) \<and> length (lm_entries (l2_store s)) \<le> unat capacity \<and>
     (\<forall>k \<in> fst ` set (lm_entries (l2_store s)). l2_index h64 k = i)"

definition l2_ok :: "hash64 \<Rightarrow> 'b engine \<Rightarrow> bool" where
  "l2_ok h64 e \<longleftrightarrow> length (en_l2 e) = kNumL2Stripes \<and> 0 < en_l2_capacity e \<and>
     (\<forall>i < kNumL2Stripes. l2_stripe_ok h64 (en_l2_capacity e) i (en_l2 e ! i))"

definition l2_lookup :: "hash64 \<Rightarrow> 'b engine \<Rightarrow> string \<Rightarrow> string option" where
  "l2_lookup h64 e key = map_of (l2_entries e (l2_index h64 key)) key"

lemma l2_index_less: "l2_index h64 key < kNumL2Stripes"
  by (simp add: l2_index_def kNumL2Stripes_def unat_mod)

definition l2_only :: "'b engine \<Rightarrow> 'b engine \<Rightarrow> bool" where
  "l2_only e e' \<longleftrightarrow> en_l1 e' = en_l1 e \<and> en_backend e' = en_backend e \<and> en_l2_capacity e' = en_l2_capacity e \<and>
     en_batch e' = en_batch e"

text \<open>A step on the stripe of a key: it changes that stripe only.\<close>

lemma with_l2_ok:
  assumes ok: "l2_ok h64 e" and f: "f (en_l2 e ! l2_index h64 key) = Some (r, s)"
    and s: "l2_stripe_ok h64 (en_l2_capacity e) (l2_index h64 key) s"
  obtains e' where "with_l2 (l2_index h64 key) f e = Some (r, e')" and "l2_ok h64 e'" and "l2_only e e'"
    and "\<And>k. l2_lookup h64 e' k =
      (if l2_index h64 k = l2_index h64 key then map_of (lm_entries (l2_store s)) k else l2_lookup h64 e k)"
proof -
  let ?e = "e\<lparr>en_l2 := (en_l2 e)[l2_index h64 key := s]\<rparr>"
  have i: "l2_index h64 key < length (en_l2 e)" using ok l2_index_less by (simp add: l2_ok_def)
  have "with_l2 (l2_index h64 key) f e = Some (r, ?e)" using i f by (simp add: with_l2_def)
  moreover have "l2_ok h64 ?e" using ok s i by (auto simp: l2_ok_def nth_list_update)
  moreover have "l2_lookup h64 ?e k =
      (if l2_index h64 k = l2_index h64 key then map_of (lm_entries (l2_store s)) k else l2_lookup h64 e k)" for k
    using i by (auto simp: l2_lookup_def l2_entries_def)
  ultimately show ?thesis by (intro that [of ?e]) (simp_all add: l2_only_def)
qed

lemma e_drop_keys: "fst ` set (e_drop key es) = fst ` set es - {key}"
  by (force simp: e_drop_def)

lemma l2_stripe_erase:
  assumes s: "l2_stripe_ok h64 c i s" and find: "lm_find key (l2_store s) = Some it"
  obtains v l where "map_of (lm_entries (l2_store s)) key = Some v" and "lm_value it (l2_store s) = Some v"
    and "lm_erase key it (l2_store s) = Some l" and "l2_stripe_ok h64 c i (s\<lparr>l2_store := l\<rparr>)"
    and "\<And>h. l2_stripe_ok h64 c i (s\<lparr>l2_store := l, l2_hits := h\<rparr>)"
    and "map_of (lm_entries l) = (map_of (lm_entries (l2_store s)))(key := None)"
proof -
  have lm: "lm_ok (l2_store s)" using s by (simp add: l2_stripe_ok_def)
  obtain v where v: "map_of (lm_entries (l2_store s)) key = Some v" "lm_value it (l2_store s) = Some v"
    and er: "oks (lm_erase key it (l2_store s)) (\<lambda>l'. lm_ok l' \<and> lm_entries l' = e_drop key (lm_entries (l2_store s)))"
    by (rule lm_hit [OF lm find]) (rule that; assumption)
  obtain l where l: "lm_erase key it (l2_store s) = Some l" "lm_ok l" "lm_entries l = e_drop key (lm_entries (l2_store s))"
    using er by (auto elim!: oksE)
  have "\<forall>k \<in> fst ` set (lm_entries l). l2_index h64 k = i"
    using s unfolding l2_stripe_ok_def l(3) e_drop_keys by blast
  moreover have "length (lm_entries l) \<le> unat c"
    using s length_e_drop [of key "lm_entries (l2_store s)"] by (simp add: l(3) l2_stripe_ok_def)
  ultimately show ?thesis using that v l by (simp add: l2_stripe_ok_def map_of_e_drop)
qed

lemma l2_get_ok:
  assumes ok: "l2_ok h64 e"
  obtains e' where "l2_get h64 key e = Some (l2_lookup h64 e key, e')" and "l2_ok h64 e'" and "l2_only e e'"
    and "l2_lookup h64 e' = (l2_lookup h64 e)(key := None)"
proof -
  let ?i = "l2_index h64 key" and ?c = "en_l2_capacity e"
  let ?s = "en_l2 e ! ?i"
  have s: "l2_stripe_ok h64 ?c ?i ?s" using ok l2_index_less by (simp add: l2_ok_def)
  obtain s' where s': "l2_stripe_get key ?s = Some (l2_lookup h64 e key, s')" "l2_stripe_ok h64 ?c ?i s'"
      "map_of (lm_entries (l2_store s')) = (map_of (lm_entries (l2_store ?s)))(key := None)"
  proof (cases "lm_find key (l2_store ?s)")
    case None
    have "lm_ok (l2_store ?s)" using s by (simp add: l2_stripe_ok_def)
    from lm_find_None [OF this, of key] have "map_of (lm_entries (l2_store ?s)) key = None" using None by blast
    then show ?thesis
      using s that [of "?s\<lparr>l2_misses := l2_misses ?s + 1\<rparr>"]
      by (simp add: l2_stripe_get_def None l2_stripe_ok_def l2_lookup_def l2_entries_def fun_upd_idem)
  next
    case (Some it)
    show ?thesis
    proof (rule l2_stripe_erase [OF s Some])
      fix v l
      assume "map_of (lm_entries (l2_store ?s)) key = Some v" "lm_value it (l2_store ?s) = Some v"
        "lm_erase key it (l2_store ?s) = Some l" "\<And>h. l2_stripe_ok h64 ?c ?i (?s\<lparr>l2_store := l, l2_hits := h\<rparr>)"
        "map_of (lm_entries l) = (map_of (lm_entries (l2_store ?s)))(key := None)"
      then show ?thesis
        by (intro that [of "?s\<lparr>l2_store := l, l2_hits := l2_hits ?s + 1\<rparr>"])
          (simp_all add: l2_stripe_get_def Some l2_lookup_def l2_entries_def)
    qed
  qed
  show ?thesis
    by (rule with_l2_ok [where f = "l2_stripe_get key" and key = key, OF ok s'(1,2)], rule that)
      (auto simp: l2_get_def s'(3) l2_lookup_def l2_entries_def)
qed

lemma l2_remove_ok:
  assumes ok: "l2_ok h64 e"
  obtains e' where "with_l2 (l2_index h64 key) (l2_stripe_remove key) e = Some ((), e')" and "l2_ok h64 e'"
    and "l2_only e e'" and "l2_lookup h64 e' = (l2_lookup h64 e)(key := None)"
proof -
  let ?i = "l2_index h64 key" and ?c = "en_l2_capacity e"
  let ?s = "en_l2 e ! ?i"
  have s: "l2_stripe_ok h64 ?c ?i ?s" using ok l2_index_less by (simp add: l2_ok_def)
  obtain s' where s': "l2_stripe_remove key ?s = Some ((), s')" "l2_stripe_ok h64 ?c ?i s'"
      "map_of (lm_entries (l2_store s')) = (map_of (lm_entries (l2_store ?s)))(key := None)"
  proof (cases "lm_find key (l2_store ?s)")
    case None
    have "lm_ok (l2_store ?s)" using s by (simp add: l2_stripe_ok_def)
    from lm_find_None [OF this, of key] have "map_of (lm_entries (l2_store ?s)) key = None" using None by blast
    then show ?thesis using s that [of ?s] by (simp add: l2_stripe_remove_def None fun_upd_idem)
  next
    case (Some it)
    show ?thesis
    proof (rule l2_stripe_erase [OF s Some])
      fix v l
      assume "lm_erase key it (l2_store ?s) = Some l" "l2_stripe_ok h64 ?c ?i (?s\<lparr>l2_store := l\<rparr>)"
        "map_of (lm_entries l) = (map_of (lm_entries (l2_store ?s)))(key := None)"
      then show ?thesis
        by (intro that [of "?s\<lparr>l2_store := l\<rparr>"]) (simp_all add: l2_stripe_remove_def Some)
    qed
  qed
  show ?thesis
    by (rule with_l2_ok [where f = "l2_stripe_remove key" and key = key, OF ok s'(1,2)], rule that) (auto simp: s'(3) l2_lookup_def l2_entries_def)
qed

text \<open>Inserting an item: an LRU insertion.\<close>

lemma l2_stripe_put_ok:
  assumes lm: "lm_ok (l2_store s)" and cap: "0 < capacity" "length (lm_entries (l2_store s)) \<le> unat capacity"
  shows "oks (l2_stripe_put capacity item s) (\<lambda>(_, s'). lm_ok (l2_store s') \<and>
    lm_entries (l2_store s') = take (unat capacity) (e_write (di_key item) (di_value item) (lm_entries (l2_store s))))"
proof (cases "lm_find (di_key item) (l2_store s)")
  case None
  let ?es = "lm_entries (l2_store s)"
  have absent: "map_of ?es (di_key item) = None" using None lm_find_None [OF lm] by simp
  have put: "lm_ok (lm_insert (di_key item) (di_value item) l)"
      "lm_entries (lm_insert (di_key item) (di_value item) l) = (di_key item, di_value item) # lm_entries l"
    if "lm_ok l" "set (lm_entries l) \<subseteq> set ?es" for l
  proof -
    have "map_of (lm_entries l) (di_key item) = None" using absent that(2) by (auto simp: map_of_eq_None_iff)
    then show "lm_ok (lm_insert (di_key item) (di_value item) l)"
      "lm_entries (lm_insert (di_key item) (di_value item) l) = (di_key item, di_value item) # lm_entries l"
      using lm_insert_ok [OF that(1)] lm_find_None [OF that(1)] by simp_all
  qed
  have pos: "0 < unat capacity" using cap(1) by (simp add: word_less_nat_alt)
  show ?thesis
  proof (cases "unat capacity \<le> length ?es")
    case True
    then have full: "length ?es = unat capacity" and ne: "?es \<noteq> []" using cap(2) pos by auto
    obtain l where l: "lm_evict (l2_store s) = Some l" "lm_ok l" "lm_entries l = butlast ?es"
      using lm_evict_ok [OF lm ne] by (auto elim!: oksE)
    have "take (unat capacity) (e_write (di_key item) (di_value item) ?es) = (di_key item, di_value item) # butlast ?es"
      using full pos e_drop_absent [OF absent] by (simp add: e_write_def take_Cons' butlast_conv_take)
    then show ?thesis
      using put [OF l(2)] l True None lm_length [OF lm] by (simp add: l2_stripe_put_def in_set_butlastD subsetI)
  next
    case False
    then show ?thesis
      using put [OF lm] lm_length [OF lm] None e_drop_absent [OF absent] by (simp add: l2_stripe_put_def e_write_def)
  qed
next
  case (Some i)
  let ?es = "lm_entries (l2_store s)"
  obtain v where v: "map_of ?es (di_key item) = Some v"
    and w: "oks (lm_set_value i (di_value item) (l2_store s) \<bind> lm_splice_front i)
      (\<lambda>l'. lm_ok l' \<and> lm_entries l' = e_write (di_key item) (di_value item) ?es)"
    by (rule lm_hit [OF lm Some]) (rule that; assumption)
  have "length (e_write (di_key item) (di_value item) ?es) \<le> unat capacity"
    using length_e_drop_present [of ?es "di_key item"] v cap(2) by (simp add: e_write_def)
  then show ?thesis using w by (auto simp: l2_stripe_put_def Some elim!: oksE)
qed

lemma map_of_take: "map_of (take n es) k = Some v \<Longrightarrow> distinct (map fst es) \<Longrightarrow> map_of es k = Some v"
  by (metis in_set_takeD map_of_SomeD map_of_eq_Some_iff)

lemma l2_put_item_ok:
  assumes ok: "l2_ok h64 e"
  obtains e' where "l2_put_item h64 item e = Some e'" and "l2_ok h64 e'" and "l2_only e e'"
    and "l2_lookup h64 e' (di_key item) = Some (di_value item)"
    and "\<And>k. k \<noteq> di_key item \<Longrightarrow> l2_lookup h64 e' k \<in> {l2_lookup h64 e k, None}"
proof -
  let ?key = "di_key item"
  let ?i = "l2_index h64 ?key" and ?c = "en_l2_capacity e"
  let ?s = "en_l2 e ! ?i"
  let ?es = "lm_entries (l2_store ?s)"
  let ?w = "e_write ?key (di_value item) ?es"
  have s: "l2_stripe_ok h64 ?c ?i ?s" and c: "0 < ?c" using ok l2_index_less by (simp_all add: l2_ok_def)
  then have lm: "lm_ok (l2_store ?s)" and len: "length ?es \<le> unat ?c" by (simp_all add: l2_stripe_ok_def)
  have dist: "distinct (map fst ?w)"
    using lm_distinct [OF lm] by (simp add: e_write_def e_drop_keys) (simp add: e_drop_def distinct_map_filter)
  have pos: "0 < unat ?c" using c by (simp add: word_less_nat_alt)
  obtain s' where s': "l2_stripe_put ?c item ?s = Some ((), s')" "lm_ok (l2_store s')"
      "lm_entries (l2_store s') = take (unat ?c) ?w"
    using l2_stripe_put_ok [OF lm c len, of item] by (auto elim!: oksE)
  have "fst ` set (take (unat ?c) ?w) \<subseteq> fst ` set ?w" by (auto dest: in_set_takeD)
  also have "\<dots> \<subseteq> insert ?key (fst ` set ?es)" using e_drop_keys [of ?key ?es] by (auto simp: e_write_def)
  finally have keys: "fst ` set (lm_entries (l2_store s')) \<subseteq> insert ?key (fst ` set ?es)" unfolding s'(3) .
  have "length (lm_entries (l2_store s')) \<le> unat ?c" by (simp add: s'(3))
  moreover have "l2_index h64 k = ?i" if "k \<in> fst ` set (lm_entries (l2_store s'))" for k
  proof -
    have home: "\<forall>k \<in> fst ` set ?es. l2_index h64 k = ?i" using s unfolding l2_stripe_ok_def by (elim conjE)
    have "k = ?key \<or> k \<in> fst ` set ?es" using subsetD [OF keys that] by (simp only: insert_iff)
    then show ?thesis
    proof
      show "k \<in> fst ` set ?es \<Longrightarrow> l2_index h64 k = ?i" by (rule bspec [OF home])
    qed (simp only:)
  qed
  ultimately have sok: "l2_stripe_ok h64 ?c ?i s'"
    using s'(2) unfolding l2_stripe_ok_def by (intro conjI ballI) assumption
  obtain e' where
    e': "with_l2 ?i (l2_stripe_put ?c item) e = Some ((), e')" "l2_ok h64 e'" "l2_only e e'"
    and look: "\<And>k. l2_lookup h64 e' k = (if l2_index h64 k = ?i then map_of (take (unat ?c) ?w) k else l2_lookup h64 e k)"
    by (rule with_l2_ok [where f = "l2_stripe_put ?c item" and key = ?key, OF ok s'(1) sok, unfolded s'(3)])
      (rule that; assumption)
  have "map_of (take (unat ?c) ?w) k \<in> {map_of ?es k, None}" if "k \<noteq> ?key" for k
    using map_of_take [OF _ dist, of "unat ?c" k] that
    by (cases "map_of (take (unat ?c) ?w) k") (auto simp: map_of_e_write)
  then have "l2_lookup h64 e' k \<in> {l2_lookup h64 e k, None}" if "k \<noteq> ?key" for k
    unfolding look using that by (auto simp: l2_lookup_def l2_entries_def)
  moreover have "l2_lookup h64 e' ?key = Some (di_value item)"
    using pos by (simp add: look e_write_def take_Cons')
  ultimately show ?thesis
    using e' by (intro that [of e']) (simp_all add: l2_put_item_def)
qed

section \<open>Where copies are\<close>

text \<open>The items on their way from L1 to L2, and every value some level holds for a key.\<close>

definition pending :: "'b engine \<Rightarrow> demotion_item list" where
  "pending e = en_batch e @ sc_items (en_l1 e)"

definition waits :: "'b engine \<Rightarrow> string \<Rightarrow> string \<Rightarrow> bool" where
  "waits e k v \<longleftrightarrow> (\<exists>item \<in> set (pending e). di_key item = k \<and> di_value item = v)"

definition holds :: "hash64 \<Rightarrow> 'b engine \<Rightarrow> string \<Rightarrow> string \<Rightarrow> bool" where
  "holds h64 e k v \<longleftrightarrow> sc_lookup h64 (en_l1 e) k = Some v \<or> waits e k v \<or> l2_lookup h64 e k = Some v"

text \<open>No copy of the key is outside L1.\<close>

definition only_in_l1 :: "hash64 \<Rightarrow> 'b engine \<Rightarrow> string \<Rightarrow> bool" where
  "only_in_l1 h64 e k \<longleftrightarrow> (\<forall>item \<in> set (pending e). di_key item \<noteq> k) \<and> l2_lookup h64 e k = None"

definition engine_inv :: "hash64 \<Rightarrow> l1_shape \<Rightarrow> 'b engine \<Rightarrow> bool" where
  "engine_inv h64 K e \<longleftrightarrow> l1_ok h64 K (en_l1 e) \<and> l2_ok h64 e"

text \<open>\<open>moved e e' key val\<close>: what a put of \<open>key\<close> into L1 can do to the copies.\<close>

lemma l2_only_simps:
  assumes "l2_only e e'"
  shows "en_l1 e' = en_l1 e" "en_backend e' = en_backend e" "en_l2_capacity e' = en_l2_capacity e"
    "en_batch e' = en_batch e" "pending e' = pending e" "waits e' = waits e"
  using assms by (auto simp: l2_only_def pending_def waits_def fun_eq_iff)

lemma l2_frame [simp]:
  "l2_ok h64 (e\<lparr>en_l1 := c\<rparr>) = l2_ok h64 e" "l2_lookup h64 (e\<lparr>en_l1 := c\<rparr>) = l2_lookup h64 e"
  "l2_ok h64 (e\<lparr>en_backend := b\<rparr>) = l2_ok h64 e" "l2_lookup h64 (e\<lparr>en_backend := b\<rparr>) = l2_lookup h64 e"
  "l2_ok h64 (e\<lparr>en_batch := items\<rparr>) = l2_ok h64 e" "l2_lookup h64 (e\<lparr>en_batch := items\<rparr>) = l2_lookup h64 e"
  by (simp_all add: l2_ok_def l2_lookup_def l2_entries_def fun_eq_iff)

lemma l1_put_ok:
  assumes inv: "engine_inv h64 K e"
  obtains r e' where "l1_put h32 h64 key val e = Some (r, e')" and "engine_inv h64 K e'"
    and "en_backend e' = en_backend e" and "en_batch e' = en_batch e" and "l2_lookup h64 e' = l2_lookup h64 e"
    and "sc_lookup h64 (en_l1 e') key \<in> {Some val, None}"
    and "\<And>k v. holds h64 e' k v \<Longrightarrow> k = key \<and> v = val \<or> holds h64 e k v"
    and "\<And>v. waits e' key v \<Longrightarrow> waits e key v"
proof -
  have l1: "l1_ok h64 K (en_l1 e)" using inv by (simp add: engine_inv_def)
  obtain r c' where c': "sc_put h32 h64 key val (en_l1 e) = Some (r, c')" "l1_ok h64 K c'"
      "sc_lookup h64 c' key \<in> {Some val, None}"
      "\<forall>k. k \<noteq> key \<longrightarrow> sc_lookup h64 c' k \<in> {sc_lookup h64 (en_l1 e) k, None}"
    and q: "sc_items c' = sc_items (en_l1 e) \<or> (\<exists>k x f. sc_lookup h64 (en_l1 e) k = Some x \<and> k \<noteq> key \<and>
      sc_items c' = sc_items (en_l1 e) @ [\<lparr>di_key = k, di_value = x, di_frequency = f\<rparr>])"
    by (rule oksE [OF sc_put_flow [OF l1, of h32 key val]]) (clarify, rule that; assumption)
  let ?e = "e\<lparr>en_l1 := c'\<rparr>"
  have w: "waits e k v \<or> k \<noteq> key \<and> sc_lookup h64 (en_l1 e) k = Some v" if "waits ?e k v" for k v
    using q that by (auto simp: waits_def pending_def)
  have l1': "k = key \<and> v = val \<or> sc_lookup h64 (en_l1 e) k = Some v" if "sc_lookup h64 c' k = Some v" for k v
  proof (cases "k = key")
    case False
    then have "sc_lookup h64 c' k \<in> {sc_lookup h64 (en_l1 e) k, None}" using c'(4) by blast
    then show ?thesis using that by simp
  qed (use that c'(3) in simp)
  show ?thesis
  proof (rule that [of r ?e])
    show "l1_put h32 h64 key val e = Some (r, ?e)" by (simp add: l1_put_def c'(1))
    show "engine_inv h64 K ?e" using inv c'(2) by (simp add: engine_inv_def)
    show "k = key \<and> v = val \<or> holds h64 e k v" if "holds h64 ?e k v" for k v
      using that w [of k v] l1' [of k v] unfolding holds_def by auto
    show "waits e key v" if "waits ?e key v" for v using w [OF that] by simp
  qed (use c'(3) in simp_all)
qed

lemma drain_pop_ok:
  assumes inv: "engine_inv h64 K e"
  obtains e' where "drain_pop e = Some e'" and "engine_inv h64 K e'" and "en_backend e' = en_backend e"
    and "pending e' = pending e" and "sc_lookup h64 (en_l1 e') = sc_lookup h64 (en_l1 e)"
    and "l2_lookup h64 e' = l2_lookup h64 e"
proof (cases "en_batch e = []")
  case True
  have l1: "l1_ok h64 K (en_l1 e)" using inv by (simp add: engine_inv_def)
  obtain n batch q where p: "dq_try_pop_batch 64 (sc_queue (en_l1 e)) [] = Some (n, batch, q)"
      "dq_inv q" "q_capacity q = q_capacity (sc_queue (en_l1 e))"
      "batch = take 64 (sc_items (en_l1 e))" "dq_items q = drop 64 (sc_items (en_l1 e))"
    using dq_try_pop_batch_ok [OF l1_ok_dq_inv [OF l1], of 64 "[]"] by (auto simp: sc_items_def elim!: oksE)
  let ?e = "e\<lparr>en_l1 := (en_l1 e)\<lparr>sc_queue := q\<rparr>, en_batch := batch\<rparr>"
  have lim: "dq_limit q = dq_limit (sc_queue (en_l1 e))" by (rule dq_limit_capacity [OF p(3)])
  show ?thesis
  proof (rule that [of ?e])
    show "drain_pop e = Some ?e" by (simp add: drain_pop_def True p(1))
    show "engine_inv h64 K ?e"
      using inv l1_ok_queue [OF l1 p(2) lim] by (simp add: engine_inv_def)
    show "pending ?e = pending e" using p(4,5) True by (simp add: pending_def sc_items_def)
    show "sc_lookup h64 (en_l1 ?e) = sc_lookup h64 (en_l1 e)"
      using cache_ok_queue(2) [OF l1 [unfolded l1_ok_def, THEN conjunct1] p(2) lim] by simp
  qed simp_all
next
  case False
  then show ?thesis using inv that by (simp add: drain_pop_def)
qed

lemma drain_insert_ok:
  assumes inv: "engine_inv h64 K e"
  obtains e' where "drain_insert h64 e = Some e'" and "engine_inv h64 K e'" and "en_backend e' = en_backend e"
    and "en_l1 e' = en_l1 e" and "pending e' = tl (en_batch e) @ sc_items (en_l1 e)"
    and "\<And>k v. holds h64 e' k v \<Longrightarrow> holds h64 e k v"
proof (cases "en_batch e")
  case Nil
  then show ?thesis using inv that [of e] by (simp add: drain_insert_def pending_def)
next
  case (Cons item batch)
  have l2: "l2_ok h64 e" and l1: "l1_ok h64 K (en_l1 e)" using inv by (simp_all add: engine_inv_def)
  obtain e1 where e1: "l2_put_item h64 item e = Some e1" "l2_ok h64 e1" "l2_only e e1"
      "l2_lookup h64 e1 (di_key item) = Some (di_value item)"
      "\<And>k. k \<noteq> di_key item \<Longrightarrow> l2_lookup h64 e1 k \<in> {l2_lookup h64 e k, None}"
    by (rule l2_put_item_ok [OF l2, of item]) (rule that; assumption)
  note same = l2_only_simps [OF e1(3)]
  let ?e = "e1\<lparr>en_batch := batch\<rparr>"
  have wait: "waits e (di_key item) (di_value item)" by (auto simp: waits_def pending_def Cons)
  have l2': "holds h64 e k v" if "l2_lookup h64 e1 k = Some v" for k v
  proof (cases "k = di_key item")
    case False
    then show ?thesis using that e1(5) [of k] by (simp add: holds_def)
  qed (use that e1(4) wait in \<open>simp add: holds_def\<close>)
  show ?thesis
  proof (rule that [of ?e])
    show "drain_insert h64 e = Some ?e" by (simp add: drain_insert_def Cons e1(1))
    show "engine_inv h64 K ?e" using l1 e1(2) same by (simp add: engine_inv_def)
    show "holds h64 e k v" if "holds h64 ?e k v" for k v
      using that l2' [of k v] same unfolding holds_def [of h64 ?e]
      by (auto simp: holds_def waits_def pending_def Cons)
  qed (simp_all add: same pending_def Cons)
qed

section \<open>Client operations\<close>

context kv_store
begin

lemma engine_get_ok:
  assumes inv: "engine_inv h64 K e"
  obtains r e' where "engine_get B h32 h64 key e = Some (r, e')" and "engine_inv h64 K e'"
    and "content (en_backend e') = content (en_backend e)"
    and "\<And>k v. holds h64 e' k v \<Longrightarrow> holds h64 e k v \<or> k = key \<and> content (en_backend e) key = Some v"
    and "\<And>v. r = Some v \<Longrightarrow> holds h64 e key v \<or> content (en_backend e) key = Some v"
    and "r = None \<Longrightarrow> content (en_backend e) key = None"
proof -
  have l1: "l1_ok h64 K (en_l1 e)" and l2: "l2_ok h64 e" using inv by (simp_all add: engine_inv_def)
  obtain c where c: "sc_get h32 h64 key (en_l1 e) = Some (sc_lookup h64 (en_l1 e) key, c)" "l1_ok h64 K c"
      "sc_lookup h64 c = sc_lookup h64 (en_l1 e)" "sc_items c = sc_items (en_l1 e)"
    using sc_get_flow [OF l1, of h32 key] by (auto elim!: oksE)
  let ?e1 = "e\<lparr>en_l1 := c\<rparr>"
  have l2': "l2_ok h64 ?e1" using l2 by simp
  have inv1: "engine_inv h64 K ?e1" using c(2) l2 by (simp add: engine_inv_def)
  have h1: "holds h64 ?e1 k v \<longleftrightarrow> holds h64 e k v" for k v
    by (simp add: holds_def waits_def pending_def c(3,4))
  show ?thesis
  proof (cases "sc_lookup h64 (en_l1 e) key")
    case (Some v)
    show ?thesis
      by (rule that [of "Some v" ?e1]) (use Some inv1 h1 in \<open>simp_all add: engine_get_def c(1) holds_def\<close>)
  next
    case None
    obtain e2 where e2: "l2_get h64 key ?e1 = Some (l2_lookup h64 e key, e2)" "l2_ok h64 e2" "l2_only ?e1 e2"
        "l2_lookup h64 e2 = (l2_lookup h64 e)(key := None)"
      by (rule l2_get_ok [OF l2', of key, unfolded l2_frame]) (rule that; assumption)
    note same = l2_only_simps [OF e2(3)]
    have inv2: "engine_inv h64 K e2" using c(2) e2(2) same by (simp add: engine_inv_def)
    have h2: "holds h64 e k v" if "holds h64 e2 k v" for k v
      using that same by (auto simp: holds_def waits_def pending_def c(3,4) e2(4) split: if_splits)
    show ?thesis
    proof (cases "l2_lookup h64 e key")
      case (Some v)
      have hv: "holds h64 e key v" using Some by (simp add: holds_def)
      obtain r e3 where e3: "l1_put h32 h64 key v e2 = Some (r, e3)" "engine_inv h64 K e3" "en_backend e3 = en_backend e2"
          "\<And>k x. holds h64 e3 k x \<Longrightarrow> k = key \<and> x = v \<or> holds h64 e2 k x"
        by (rule l1_put_ok [OF inv2, of h32 key v]) (rule that; assumption)
      show ?thesis
      proof (rule that [of "Some v" e3])
        show "engine_get B h32 h64 key e = Some (Some v, e3)"
          by (simp add: engine_get_def c(1) None e2(1) Some e3(1))
        show "holds h64 e k x \<or> k = key \<and> content (en_backend e) key = Some x" if "holds h64 e3 k x" for k x
          using e3(4) [OF that] h2 [of k x] hv by auto
      qed (use e3(2,3) same hv in simp_all)
    next
      case miss: None
      obtain b where b: "bk_get B key (en_backend e) = (content (en_backend e) key, b)" "content b = content (en_backend e)"
        using get_law [of key "en_backend e"] by (cases "bk_get B key (en_backend e)") simp
      let ?e3 = "e2\<lparr>en_backend := b\<rparr>"
      have inv3: "engine_inv h64 K ?e3" using inv2 by (simp add: engine_inv_def)
      have h3: "holds h64 ?e3 k v \<longleftrightarrow> holds h64 e2 k v" for k v by (simp add: holds_def waits_def pending_def)
      show ?thesis
      proof (cases "content (en_backend e) key")
        case None
        then show ?thesis
          by (intro that [of None ?e3])
            (use inv3 h2 in \<open>simp_all add: engine_get_def c(1) \<open>sc_lookup _ _ _ = None\<close> e2(1) miss same b h3\<close>)
      next
        case (Some v)
        obtain r e4 where e4: "l1_put h32 h64 key v ?e3 = Some (r, e4)" "engine_inv h64 K e4" "en_backend e4 = en_backend ?e3"
            "\<And>k x. holds h64 e4 k x \<Longrightarrow> k = key \<and> x = v \<or> holds h64 ?e3 k x"
          by (rule l1_put_ok [OF inv3, of h32 key v]) (rule that; assumption)
        show ?thesis
        proof (rule that [of "Some v" e4])
          show "engine_get B h32 h64 key e = Some (Some v, e4)"
            by (simp add: engine_get_def c(1) \<open>sc_lookup _ _ _ = None\<close> e2(1) miss same b Some e4(1))
          show "holds h64 e k x \<or> k = key \<and> content (en_backend e) key = Some x" if "holds h64 e4 k x" for k x
            using e4(4) [OF that] h2 [of k x] Some h3 [of k x] by auto
        qed (use e4(2,3) b Some in simp_all)
      qed
    qed
  qed
qed

lemma engine_put_ok:
  assumes inv: "engine_inv h64 K e"
  obtains r e' where "engine_put B h32 h64 key val e = Some (r, e')" and "engine_inv h64 K e'"
    and "content (en_backend e') = (content (en_backend e))(key \<mapsto> val)"
    and "\<And>k v. holds h64 e' k v \<Longrightarrow> k = key \<and> v = val \<or> holds h64 e k v"
    and "\<And>v. only_in_l1 h64 e key \<Longrightarrow> holds h64 e' key v \<Longrightarrow> v = val"
proof -
  obtain r b where b: "bk_put B key val (en_backend e) = (r, b)" by fastforce
  let ?e1 = "e\<lparr>en_backend := b\<rparr>"
  have inv1: "engine_inv h64 K ?e1" using inv by (simp add: engine_inv_def)
  have h1: "holds h64 ?e1 k v \<longleftrightarrow> holds h64 e k v" for k v by (simp add: holds_def waits_def pending_def)
  obtain r e2 where e2: "l1_put h32 h64 key val ?e1 = Some (r, e2)" "engine_inv h64 K e2" "en_backend e2 = en_backend ?e1"
      "l2_lookup h64 e2 = l2_lookup h64 ?e1" "sc_lookup h64 (en_l1 e2) key \<in> {Some val, None}"
      "\<And>k v. holds h64 e2 k v \<Longrightarrow> k = key \<and> v = val \<or> holds h64 ?e1 k v"
      "\<And>v. waits e2 key v \<Longrightarrow> waits ?e1 key v"
    by (rule l1_put_ok [OF inv1, of h32 key val]) (rule that; assumption)
  show ?thesis
  proof (rule that [of r e2])
    show "engine_put B h32 h64 key val e = Some (r, e2)" by (simp add: engine_put_def b e2(1))
    show "content (en_backend e2) = (content (en_backend e))(key \<mapsto> val)"
      using put_law [of key val "en_backend e"] by (simp add: b e2(3))
    show "v = val" if "only_in_l1 h64 e key" "holds h64 e2 key v" for v
      using that e2(4,5) e2(7) [of v] by (auto simp: holds_def only_in_l1_def waits_def pending_def)
  qed (rule e2(2), use e2(6) h1 in blast)
qed

lemma engine_remove_ok:
  assumes inv: "engine_inv h64 K e"
  obtains e' where "engine_remove B h64 key e =
      Some (sc_lookup h64 (en_l1 e) key \<noteq> None \<or> content (en_backend e) key \<noteq> None, e')" and "engine_inv h64 K e'"
    and "content (en_backend e') = (content (en_backend e))(key := None)"
    and "pending e' = pending e" and "\<And>k v. holds h64 e' k v \<Longrightarrow> holds h64 e k v"
    and "\<And>v. holds h64 e' key v \<Longrightarrow> waits e key v"
proof -
  have l1: "l1_ok h64 K (en_l1 e)" and l2: "l2_ok h64 e" using inv by (simp_all add: engine_inv_def)
  obtain c where c: "sc_remove h64 key (en_l1 e) = Some (sc_lookup h64 (en_l1 e) key \<noteq> None, c)" "l1_ok h64 K c"
      "sc_lookup h64 c = (sc_lookup h64 (en_l1 e))(key := None)" "sc_items c = sc_items (en_l1 e)"
    using sc_remove_flow [OF l1, of key] by (auto elim!: oksE)
  let ?e1 = "e\<lparr>en_l1 := c\<rparr>"
  have l2': "l2_ok h64 ?e1" using l2 by simp
  obtain e2 where e2: "with_l2 (l2_index h64 key) (l2_stripe_remove key) ?e1 = Some ((), e2)" "l2_ok h64 e2" "l2_only ?e1 e2"
      "l2_lookup h64 e2 = (l2_lookup h64 e)(key := None)"
    by (rule l2_remove_ok [OF l2', of key, unfolded l2_frame]) (rule that; assumption)
  note same = l2_only_simps [OF e2(3)]
  obtain b where b: "bk_remove B key (en_backend e) = (content (en_backend e) key \<noteq> None, b)"
      "content b = (content (en_backend e))(key := None)"
    using remove_law [of key "en_backend e"] by (cases "bk_remove B key (en_backend e)") simp
  let ?e3 = "e2\<lparr>en_backend := b\<rparr>"
  have w: "waits ?e3 = waits e" "pending ?e3 = pending e" by (simp_all add: waits_def pending_def same c(4) fun_eq_iff)
  show ?thesis
  proof (rule that [of ?e3])
    show "engine_remove B h64 key e =
      Some (sc_lookup h64 (en_l1 e) key \<noteq> None \<or> content (en_backend e) key \<noteq> None, ?e3)"
      by (simp add: engine_remove_def c(1) e2(1) same b(1))
    show "engine_inv h64 K ?e3" using c(2) e2(2) same by (simp add: engine_inv_def)
    show "content (en_backend ?e3) = (content (en_backend e))(key := None)" by (simp add: b(2))
    show "holds h64 e k v" if "holds h64 ?e3 k v" for k v
      using that by (auto simp: holds_def w same c(3) e2(4) split: if_splits)
    show "waits e key v" if "holds h64 ?e3 key v" for v
      using that by (auto simp: holds_def w same c(3) e2(4))
  qed (rule w(2))
qed

end

end
