(* ===== verification/Cache_Engine_Run.thy ===== *)
theory Cache_Engine_Run
  imports Cache_Engine_Props
begin

text \<open>
  Sequences of client operations and drainer steps on a cache engine, and the properties a client sees.
  The reference is the backend alone: a plain map.
\<close>

datatype engine_op = E_get string | E_put string string | E_remove string | Drain_pop | Drain_insert

datatype engine_result = Answer "string option" | Stored bool | Removed bool | Drained

fun engine_do :: "'b backend \<Rightarrow> hash32 \<Rightarrow> hash64 \<Rightarrow> engine_op \<Rightarrow> 'b engine \<Rightarrow> (engine_result \<times> 'b engine) option" where
  "engine_do B h32 h64 (E_get key) e = map_option (map_prod Answer id) (engine_get B h32 h64 key e)"
| "engine_do B h32 h64 (E_put key val) e = map_option (map_prod Stored id) (engine_put B h32 h64 key val e)"
| "engine_do B h32 h64 (E_remove key) e = map_option (map_prod Removed id) (engine_remove B h64 key e)"
| "engine_do B h32 h64 Drain_pop e = map_option (Pair Drained) (drain_pop e)"
| "engine_do B h32 h64 Drain_insert e = map_option (Pair Drained) (drain_insert h64 e)"

fun engine_run :: "'b backend \<Rightarrow> hash32 \<Rightarrow> hash64 \<Rightarrow> engine_op list \<Rightarrow> 'b engine \<Rightarrow> (engine_result list \<times> 'b engine) option" where
  "engine_run B h32 h64 [] e = Some ([], e)"
| "engine_run B h32 h64 (op # ops) e = do {
     (r, e) \<leftarrow> engine_do B h32 h64 op e;
     (rs, e) \<leftarrow> engine_run B h32 h64 ops e;
     Some (r # rs, e)
   }"

text \<open>The same operations on a plain map. What a put returns tells whether L1 took a new entry, which a
  map cannot know: \<open>agrees\<close> ignores it.\<close>

fun map_do :: "engine_op \<Rightarrow> (string \<rightharpoonup> string) \<Rightarrow> engine_result \<times> (string \<rightharpoonup> string)" where
  "map_do (E_get key) w = (Answer (w key), w)"
| "map_do (E_put key val) w = (Stored True, w(key \<mapsto> val))"
| "map_do (E_remove key) w = (Removed (w key \<noteq> None), w(key := None))"
| "map_do Drain_pop w = (Drained, w)"
| "map_do Drain_insert w = (Drained, w)"

fun map_run :: "engine_op list \<Rightarrow> (string \<rightharpoonup> string) \<Rightarrow> engine_result list \<times> (string \<rightharpoonup> string)" where
  "map_run [] w = ([], w)"
| "map_run (op # ops) w = (let (r, w) = map_do op w; (rs, w) = map_run ops w in (r # rs, w))"

definition agrees :: "engine_result \<Rightarrow> engine_result \<Rightarrow> bool" where
  "agrees r s \<longleftrightarrow> (case (r, s) of (Stored _, Stored _) \<Rightarrow> True | _ \<Rightarrow> r = s)"

text \<open>An operation is undisturbed when no old copy of the key it changes waits outside L1: for a put no
  copy in L2 or on its way there, for a remove (which purges L2) no copy on its way there.\<close>

definition undisturbed :: "hash64 \<Rightarrow> engine_op \<Rightarrow> 'b engine \<Rightarrow> bool" where
  "undisturbed h64 op e =
     (case op of
        E_put key _ \<Rightarrow> only_in_l1 h64 e key
      | E_remove key \<Rightarrow> (\<forall>item \<in> set (pending e). di_key item \<noteq> key)
      | _ \<Rightarrow> True)"

fun all_undisturbed :: "'b backend \<Rightarrow> hash32 \<Rightarrow> hash64 \<Rightarrow> engine_op list \<Rightarrow> 'b engine \<Rightarrow> bool" where
  "all_undisturbed B h32 h64 [] e = True"
| "all_undisturbed B h32 h64 (op # ops) e =
     (undisturbed h64 op e \<and>
      (case engine_do B h32 h64 op e of None \<Rightarrow> True | Some (_, e) \<Rightarrow> all_undisturbed B h32 h64 ops e))"

definition put_keys :: "engine_op list \<Rightarrow> string list" where
  "put_keys ops = concat (map (\<lambda>op. case op of E_put k _ \<Rightarrow> [k] | _ \<Rightarrow> []) ops)"

section \<open>The engine and the map, step by step\<close>

context kv_store
begin

definition coherent :: "hash64 \<Rightarrow> 'b engine \<Rightarrow> bool" where
  "coherent h64 e \<longleftrightarrow> (\<forall>k v. holds h64 e k v \<longrightarrow> content (en_backend e) k = Some v)"

text \<open>Every step returns, keeps the invariant, moves the backend as the map moves, and adds no copy but
  the one it writes.\<close>

lemma engine_do_ok:
  assumes inv: "engine_inv h64 K e"
  obtains r e' where "engine_do B h32 h64 op e = Some (r, e')" and "engine_inv h64 K e'"
    and "content (en_backend e') = snd (map_do op (content (en_backend e)))"
    and "\<And>k v. holds h64 e' k v \<Longrightarrow> holds h64 e k v \<or> content (en_backend e) k = Some v \<or> op = E_put k v"
    and "\<And>v. r = Answer (Some v) \<Longrightarrow> \<exists>k. op = E_get k \<and> (holds h64 e k v \<or> content (en_backend e) k = Some v)"
    and "coherent h64 e \<Longrightarrow> undisturbed h64 op e \<Longrightarrow> agrees r (fst (map_do op (content (en_backend e)))) \<and> coherent h64 e'"
proof (cases op)
  case (E_get key)
  obtain r e' where g: "engine_get B h32 h64 key e = Some (r, e')" "engine_inv h64 K e'"
      "content (en_backend e') = content (en_backend e)"
      "\<And>k v. holds h64 e' k v \<Longrightarrow> holds h64 e k v \<or> k = key \<and> content (en_backend e) key = Some v"
      "\<And>v. r = Some v \<Longrightarrow> holds h64 e key v \<or> content (en_backend e) key = Some v"
      "r = None \<Longrightarrow> content (en_backend e) key = None"
    by (rule engine_get_ok [OF inv, of h32 key]) (rule that; assumption)
  have "r = content (en_backend e) key" if "coherent h64 e"
    using that g(5,6) by (cases r) (auto simp: coherent_def)
  moreover have "coherent h64 e'" if "coherent h64 e"
    using that g(3,4) by (auto simp: coherent_def)
  ultimately show ?thesis
    using g by (intro that [of "Answer r" e']) (auto simp: E_get agrees_def)
next
  case (E_put key val)
  obtain r e' where p: "engine_put B h32 h64 key val e = Some (r, e')" "engine_inv h64 K e'"
      "content (en_backend e') = (content (en_backend e))(key \<mapsto> val)"
      "\<And>k v. holds h64 e' k v \<Longrightarrow> k = key \<and> v = val \<or> holds h64 e k v"
      "\<And>v. only_in_l1 h64 e key \<Longrightarrow> holds h64 e' key v \<Longrightarrow> v = val"
    by (rule engine_put_ok [OF inv, of h32 key val]) (rule that; assumption)
  have "coherent h64 e'" if "coherent h64 e" "only_in_l1 h64 e key"
    using that p(3,4,5) by (auto simp: coherent_def)
  then show ?thesis
    using p(1-4) by (intro that [of "Stored r" e']) (auto simp: E_put agrees_def undisturbed_def)
next
  case (E_remove key)
  let ?r = "sc_lookup h64 (en_l1 e) key \<noteq> None \<or> content (en_backend e) key \<noteq> None"
  obtain e' where p: "engine_remove B h64 key e = Some (?r, e')" "engine_inv h64 K e'"
      "content (en_backend e') = (content (en_backend e))(key := None)"
      "\<And>k v. holds h64 e' k v \<Longrightarrow> holds h64 e k v" "\<And>v. holds h64 e' key v \<Longrightarrow> waits e key v"
    by (rule engine_remove_ok [OF inv, of key]) (rule that; assumption)
  have "?r \<longleftrightarrow> content (en_backend e) key \<noteq> None" if "coherent h64 e"
    using that by (auto simp: coherent_def holds_def)
  moreover have "coherent h64 e'" if "coherent h64 e" "\<forall>item \<in> set (pending e). di_key item \<noteq> key"
    using that p(3,4,5) by (fastforce simp: coherent_def waits_def)
  ultimately show ?thesis
    using p(1-4) by (intro that [of "Removed ?r" e']) (auto simp: E_remove agrees_def undisturbed_def)
next
  case Drain_pop
  obtain e' where p: "drain_pop e = Some e'" "engine_inv h64 K e'" "en_backend e' = en_backend e"
      "pending e' = pending e" "sc_lookup h64 (en_l1 e') = sc_lookup h64 (en_l1 e)" "l2_lookup h64 e' = l2_lookup h64 e"
    by (rule drain_pop_ok [OF inv]) (rule that; assumption)
  have h: "holds h64 e' = holds h64 e" using p(4-6) by (simp add: holds_def waits_def fun_eq_iff)
  show ?thesis
    by (rule that [of Drained e']) (use p h in \<open>simp_all add: Drain_pop agrees_def coherent_def\<close>)
next
  case Drain_insert
  obtain e' where p: "drain_insert h64 e = Some e'" "engine_inv h64 K e'" "en_backend e' = en_backend e"
      "\<And>k v. holds h64 e' k v \<Longrightarrow> holds h64 e k v"
    by (rule drain_insert_ok [OF inv]) (rule that; assumption)
  show ?thesis
    by (rule that [of Drained e']) (use p in \<open>auto simp: Drain_insert agrees_def coherent_def\<close>)
qed

lemma engine_run_transparent:
  assumes "engine_inv h64 K e" and "coherent h64 e" and "all_undisturbed B h32 h64 ops e"
  shows "oks (engine_run B h32 h64 ops e) (\<lambda>(rs, e'). engine_inv h64 K e' \<and> coherent h64 e' \<and>
    list_all2 agrees rs (fst (map_run ops (content (en_backend e)))) \<and>
    content (en_backend e') = snd (map_run ops (content (en_backend e))))"
  using assms
proof (induction ops arbitrary: e)
  case (Cons op ops)
  obtain r e1 where e1: "engine_do B h32 h64 op e = Some (r, e1)" "engine_inv h64 K e1"
      "content (en_backend e1) = snd (map_do op (content (en_backend e)))"
      "coherent h64 e \<Longrightarrow> undisturbed h64 op e \<Longrightarrow> agrees r (fst (map_do op (content (en_backend e)))) \<and> coherent h64 e1"
    by (rule engine_do_ok [OF Cons.prems(1), of h32 op]) (rule that; assumption)
  have "coherent h64 e1" "agrees r (fst (map_do op (content (en_backend e))))" "all_undisturbed B h32 h64 ops e1"
    using e1(1,4) Cons.prems(2,3) by simp_all
  from Cons.IH [OF e1(2) this(1,3)] this(2) show ?case
    by (auto simp: e1(1,3) Let_def case_prod_beta elim!: oks_mono)
qed simp

text \<open>The backend follows the map whatever the copies are, and copies and answers are values that were
  in the backend or have been put.\<close>

lemma engine_run_known:
  assumes "engine_inv h64 K e" and "\<And>k v. holds h64 e k v \<Longrightarrow> (k, v) \<in> S"
    and "\<And>k v. content (en_backend e) k = Some v \<Longrightarrow> (k, v) \<in> S"
  shows "oks (engine_run B h32 h64 ops e) (\<lambda>(rs, e'). engine_inv h64 K e' \<and>
    content (en_backend e') = snd (map_run ops (content (en_backend e))) \<and> length rs = length ops \<and>
    (\<forall>i < length ops. \<forall>v. rs ! i = Answer (Some v) \<longrightarrow>
       (\<exists>k. ops ! i = E_get k \<and> ((k, v) \<in> S \<or> E_put k v \<in> set (take i ops)))))"
  using assms
proof (induction ops arbitrary: e S)
  case (Cons op ops)
  obtain r e1 where e1: "engine_do B h32 h64 op e = Some (r, e1)" "engine_inv h64 K e1"
      "content (en_backend e1) = snd (map_do op (content (en_backend e)))"
      "\<And>k v. holds h64 e1 k v \<Longrightarrow> holds h64 e k v \<or> content (en_backend e) k = Some v \<or> op = E_put k v"
      "\<And>v. r = Answer (Some v) \<Longrightarrow> \<exists>k. op = E_get k \<and> (holds h64 e k v \<or> content (en_backend e) k = Some v)"
    by (rule engine_do_ok [OF Cons.prems(1), of h32 op]) (rule that; assumption)
  let ?S = "S \<union> {(k, v). op = E_put k v}"
  have h: "(k, v) \<in> ?S" if "holds h64 e1 k v" for k v using e1(4) [OF that] Cons.prems(2,3) by auto
  have "content (en_backend e1) k = Some v \<Longrightarrow> content (en_backend e) k = Some v \<or> op = E_put k v" for k v
    unfolding e1(3) by (cases op) (auto split: if_splits)
  then have b: "(k, v) \<in> ?S" if "content (en_backend e1) k = Some v" for k v using that Cons.prems(3) by auto
  have first: "\<exists>k. op = E_get k \<and> (k, v) \<in> S" if "r = Answer (Some v)" for v
    using e1(5) [OF that] Cons.prems(2,3) by auto
  have shift: "(\<forall>i < Suc n. P i) \<longleftrightarrow> P 0 \<and> (\<forall>i < n. P (Suc i))" for n P by (auto simp: less_Suc_eq_0_disj)
  obtain rs e2 where run: "engine_run B h32 h64 ops e1 = Some (rs, e2)" "engine_inv h64 K e2"
      "content (en_backend e2) = snd (map_run ops (content (en_backend e1)))" "length rs = length ops"
      "\<forall>i < length ops. \<forall>v. rs ! i = Answer (Some v) \<longrightarrow>
         (\<exists>k. ops ! i = E_get k \<and> ((k, v) \<in> ?S \<or> E_put k v \<in> set (take i ops)))"
    by (rule oksE [OF Cons.IH [OF e1(2) h b]]) (assumption, assumption, clarify, (rule that; assumption))
  have "\<forall>i < length ops. \<forall>v. rs ! i = Answer (Some v) \<longrightarrow>
      (\<exists>k. ops ! i = E_get k \<and> ((k, v) \<in> S \<or> E_put k v \<in> insert op (set (take i ops))))"
    using run(5) by fastforce
  then show ?case
    using run(2-4) first by (simp add: e1(1,3) run(1) shift Let_def case_prod_beta)
qed simp

text \<open>When every key is put at most once, and only keys the backend did not have, nothing is disturbed.\<close>

lemma write_once_undisturbed:
  assumes "engine_inv h64 K e" and "coherent h64 e" and "\<forall>key. E_remove key \<notin> set ops"
    and "distinct (put_keys ops)" and "\<forall>k \<in> set (put_keys ops). content (en_backend e) k = None"
  shows "all_undisturbed B h32 h64 ops e"
  using assms
proof (induction ops arbitrary: e)
  case (Cons op ops)
  have und: "undisturbed h64 op e"
  proof (cases op)
    case (E_put key val)
    then have "\<not> holds h64 e key v" for v using Cons.prems(2,5) by (auto simp: coherent_def put_keys_def)
    then have "only_in_l1 h64 e key"
      by (cases "l2_lookup h64 e key") (auto simp: only_in_l1_def holds_def waits_def)
    then show ?thesis by (simp add: E_put undisturbed_def)
  qed (use Cons.prems(3) in \<open>auto simp: undisturbed_def\<close>)
  obtain r e1 where e1: "engine_do B h32 h64 op e = Some (r, e1)" "engine_inv h64 K e1"
      "content (en_backend e1) = snd (map_do op (content (en_backend e)))"
      "coherent h64 e \<Longrightarrow> undisturbed h64 op e \<Longrightarrow> agrees r (fst (map_do op (content (en_backend e)))) \<and> coherent h64 e1"
    by (rule engine_do_ok [OF Cons.prems(1), of h32 op]) (rule that; assumption)
  have "\<forall>k \<in> set (put_keys ops). content (en_backend e1) k = None"
    using Cons.prems(3-5) unfolding e1(3) by (cases op) (auto simp: put_keys_def)
  moreover have "\<forall>key. E_remove key \<notin> set ops" "distinct (put_keys ops)"
    using Cons.prems(3,4) by (auto simp: put_keys_def)
  ultimately have "all_undisturbed B h32 h64 ops e1"
    using Cons.IH [OF e1(2)] e1(4) und Cons.prems(2) by blast
  then show ?case by (simp add: und e1(1))
qed simp

end

section \<open>The fresh engine\<close>

lemma make_stripes_new:
  assumes "make_stripes config capacity = Some stripes"
  obtains st where "stripe_new capacity (cf_window_pct config) (cf_probation_pct config) = Some st"
proof -
  have "upto32 kNumStripes \<noteq> []" using length_upto32 [of kNumStripes] by fastforce
  then obtain i "is" where "upto32 kNumStripes = i # is" by (auto simp: neq_Nil_conv)
  then show ?thesis
    using assms that by (cases "stripe_new capacity (cf_window_pct config) (cf_probation_pct config)") (auto simp: make_stripes_def)
qed

lemma engine_new_parts:
  assumes "engine_new config b = Some (Inr e)" and "unat (ec_queue_size config) \<le> 2 ^ 31"
  obtains c st where "sc_new (dq_new (ec_queue_size config)) (ec_l1 config) = Some (Inr c)"
    and "stripe_new (per_stripe (cf_total_capacity (ec_l1 config))) (cf_window_pct (ec_l1 config)) (cf_probation_pct (ec_l1 config)) = Some st"
    and "dq_inv (dq_new (ec_queue_size config))"
    and "e = \<lparr>en_l1 = sc_set_demotion_queue True c, en_backend = b,
           en_l2 = replicate kNumL2Stripes \<lparr>l2_store = lm_empty, l2_hits = 0, l2_misses = 0\<rparr>,
           en_l2_capacity = max 1 (ec_l2_capacity config div of_nat kNumL2Stripes), en_batch = []\<rparr>"
proof -
  obtain c where c: "sc_new (dq_new (ec_queue_size config)) (ec_l1 config) = Some (Inr c)"
    and e: "e = \<lparr>en_l1 = sc_set_demotion_queue True c, en_backend = b,
           en_l2 = replicate kNumL2Stripes \<lparr>l2_store = lm_empty, l2_hits = 0, l2_misses = 0\<rparr>,
           en_l2_capacity = max 1 (ec_l2_capacity config div of_nat kNumL2Stripes), en_batch = []\<rparr>"
    using assms(1) by (auto simp: engine_new_def split: bind_splits sum.splits)
  obtain stripes where "make_stripes (ec_l1 config) (per_stripe (cf_total_capacity (ec_l1 config))) = Some stripes"
    using c by (auto simp: sc_new_def split: bind_splits sum.splits)
  then show ?thesis
    using that [OF c _ dq_new_inv(1) [OF assms(2)] e] by (auto elim: make_stripes_new)
qed

lemma engine_new_ok:
  assumes "engine_new config b = Some (Inr e)" and q: "unat (ec_queue_size config) \<le> 2 ^ 31"
  obtains K where "engine_inv h64 K e" and "en_backend e = b" and "\<And>k v. \<not> holds h64 e k v"
    and "en_l2_capacity e = max 1 (ec_l2_capacity config div of_nat kNumL2Stripes)"
    and "fst K = cf_total_capacity (ec_l1 config) + 64"
    and "\<exists>st. stripe_new (per_stripe (cf_total_capacity (ec_l1 config))) (cf_window_pct (ec_l1 config)) (cf_probation_pct (ec_l1 config)) = Some st \<and>
      fst (snd K) = st_window_capacity st \<and> fst (snd (snd K)) = st_main_capacity st"
proof (rule engine_new_parts [OF assms])
  fix c st
  let ?l1 = "sc_set_demotion_queue True c" and ?q = "dq_new (ec_queue_size config)"
  let ?cap = "max 1 (ec_l2_capacity config div of_nat kNumL2Stripes)"
  assume c: "sc_new ?q (ec_l1 config) = Some (Inr c)" and qi: "dq_inv ?q"
    and st: "stripe_new (per_stripe (cf_total_capacity (ec_l1 config))) (cf_window_pct (ec_l1 config)) (cf_probation_pct (ec_l1 config)) = Some st"
    and e: "e = \<lparr>en_l1 = ?l1, en_backend = b, en_l2 = replicate kNumL2Stripes \<lparr>l2_store = lm_empty, l2_hits = 0, l2_misses = 0\<rparr>,
           en_l2_capacity = ?cap, en_batch = []\<rparr>"
  note new = sc_new_ok(1) [OF c qi st, of True] sc_new_ok(2) [OF c qi st] sc_new_ok(3) [OF c qi st, of _ True]
  let ?K = "(sl_capacity (sc_slab ?l1), stripe_caps st True ?q)"
  have l1: "l1_ok h64 ?K ?l1" and lookup: "sc_lookup h64 ?l1 = Map.empty"
    by (rule l1_ok_empty [OF new(1,3)], assumption)+
  have "sc_queue c = ?q" using c by (auto simp: sc_new_def split: bind_splits sum.splits)
  then have items: "sc_items ?l1 = []" using dq_new_inv(2) [OF q] by (simp add: sc_items_def sc_set_demotion_queue_def)
  have l2: "l2_ok h64 e" by (auto simp: e l2_ok_def l2_stripe_ok_def max_def word_gt_0)
  show ?thesis
  proof (rule that [of ?K])
    show "engine_inv h64 ?K e" using l1 l2 by (simp add: engine_inv_def e)
    have "l2_lookup h64 e = Map.empty" using l2_index_less by (simp add: l2_lookup_def l2_entries_def e fun_eq_iff)
    then show "\<not> holds h64 e k v" for k v by (simp add: holds_def waits_def pending_def e lookup items)
    show "fst ?K = cf_total_capacity (ec_l1 config) + 64" using new(2) by (simp add: sc_set_demotion_queue_def)
    show "\<exists>st. stripe_new (per_stripe (cf_total_capacity (ec_l1 config))) (cf_window_pct (ec_l1 config)) (cf_probation_pct (ec_l1 config)) = Some st \<and>
      fst (snd ?K) = st_window_capacity st \<and> fst (snd (snd ?K)) = st_main_capacity st" using st by auto
  qed (simp_all add: e)
qed

text \<open>A concrete engine for the witnesses.\<close>

abbreviation demo_config :: engine_config where
  "demo_config \<equiv> \<lparr>ec_l1 = default_pct 256, ec_l2_capacity = 64, ec_queue_size = 16\<rparr>"

lemma demo_engine_on:
  obtains e where "engine_new demo_config b = Some (Inr e)"
proof -
  obtain st where "stripe_new (per_stripe 256) f32_0_01 f32_0_20 = Some st" by (rule default_stripe)
  then have "make_stripes (default_pct 256) (per_stripe 256) = Some (replicate 64 st)"
    by (intro make_stripes_eq) simp
  then show ?thesis using that by (auto simp: engine_new_def sc_new_def slab_new_def kNumStripes_def)
qed

lemmas demo_engine = demo_engine_on [of memory_new]

section \<open>Properties\<close>

text \<open>C1. The cache is transparent: for any interleaving of client operations with the drainer, if no put
  and no remove happens while an old copy of its key waits outside L1, then every get answers what the
  backend alone would answer, every remove reports what the map would, and the backend ends in the map's
  state.\<close>

theorem engine_transparent:
  assumes "engine_new config memory_new = Some (Inr e0)" and "unat (ec_queue_size config) \<le> 2 ^ 31"
    and "all_undisturbed memory_ops h32 h64 ops e0"
  shows "oks (engine_run memory_ops h32 h64 ops e0) (\<lambda>(rs, e).
    list_all2 agrees rs (fst (map_run ops Map.empty)) \<and> mb_store (en_backend e) = snd (map_run ops Map.empty))"
proof (rule engine_new_ok [OF assms(1,2), of h64])
  fix K assume e: "engine_inv h64 K e0" "en_backend e0 = memory_new" "\<And>k v. \<not> holds h64 e0 k v"
  then have "memory.coherent h64 e0" by (simp add: memory.coherent_def)
  from memory.engine_run_transparent [OF e(1) this assms(3)] show ?thesis
    by (rule oks_mono) (auto simp: e(2) memory_new_def)
qed

theorem engine_transparent_witness:
  "\<exists>e0. engine_new demo_config memory_new = Some (Inr e0) \<and>
    oks (engine_run memory_ops demo_hash demo_hash64 [E_put ''a'' ''1'', Drain_pop, E_get ''a''] e0) (\<lambda>(rs, e).
      list_all2 agrees rs [Stored True, Drained, Answer (Some ''1'')])"
proof -
  obtain e0 where e0: "engine_new demo_config memory_new = Some (Inr e0)" by (rule demo_engine)
  let ?ops = "[E_put ''a'' ''1'', Drain_pop, E_get ''a'']"
  have q: "unat (ec_queue_size demo_config) \<le> 2 ^ 31" by simp
  have "all_undisturbed memory_ops demo_hash demo_hash64 ?ops e0"
  proof (rule engine_new_ok [OF e0 q, of demo_hash64])
    fix K assume e: "engine_inv demo_hash64 K e0" "en_backend e0 = memory_new" "\<And>k v. \<not> holds demo_hash64 e0 k v"
    then show ?thesis
      by (intro memory.write_once_undisturbed [OF e(1)]) (auto simp: memory.coherent_def put_keys_def memory_new_def)
  qed
  from engine_transparent [OF e0 q this] show ?thesis
    by (intro exI [of _ e0] conjI e0) (auto elim!: oks_mono)
qed

text \<open>Write-once keys need no care: when every key is put at most once and nothing is removed, the
  engine answers like the backend under any interleaving of gets, puts and drainer steps.\<close>

theorem engine_write_once:
  assumes "engine_new config memory_new = Some (Inr e0)" and "unat (ec_queue_size config) \<le> 2 ^ 31"
    and "distinct (put_keys ops)" and "\<forall>key. E_remove key \<notin> set ops"
  shows "oks (engine_run memory_ops h32 h64 ops e0) (\<lambda>(rs, e). list_all2 agrees rs (fst (map_run ops Map.empty)))"
proof (rule engine_new_ok [OF assms(1,2), of h64])
  fix K assume e: "engine_inv h64 K e0" "en_backend e0 = memory_new" "\<And>k v. \<not> holds h64 e0 k v"
  then have coh: "memory.coherent h64 e0" by (simp add: memory.coherent_def)
  have "all_undisturbed memory_ops h32 h64 ops e0"
    by (rule memory.write_once_undisturbed [OF e(1) coh assms(4,3)]) (simp add: e(2) memory_new_def)
  from memory.engine_run_transparent [OF e(1) coh this] show ?thesis
    by (rule oks_mono) (auto simp: e(2) memory_new_def)
qed

theorem engine_write_once_witness:
  "\<exists>e0. engine_new demo_config memory_new = Some (Inr e0) \<and>
    oks (engine_run memory_ops demo_hash demo_hash64 [E_put ''a'' ''1'', E_put ''b'' ''2'', Drain_pop, E_get ''a''] e0)
      (\<lambda>(rs, e). list_all2 agrees rs [Stored True, Stored True, Drained, Answer (Some ''1'')])"
proof -
  obtain e0 where e0: "engine_new demo_config memory_new = Some (Inr e0)" by (rule demo_engine)
  show ?thesis
    using e0 engine_write_once [OF e0, of "[E_put ''a'' ''1'', E_put ''b'' ''2'', Drain_pop, E_get ''a'']" demo_hash demo_hash64]
    by (auto simp: put_keys_def)
qed

text \<open>C2. The engine never invents a value and always writes through, with no condition on the
  operations: every value a get answers was put for that key earlier, and the backend always holds
  exactly what a plain map would hold.\<close>

theorem engine_never_invents:
  assumes "engine_new config memory_new = Some (Inr e0)" and "unat (ec_queue_size config) \<le> 2 ^ 31"
  shows "oks (engine_run memory_ops h32 h64 ops e0) (\<lambda>(rs, e). length rs = length ops \<and>
    mb_store (en_backend e) = snd (map_run ops Map.empty) \<and>
    (\<forall>i < length ops. \<forall>v. rs ! i = Answer (Some v) \<longrightarrow>
       (\<exists>k. ops ! i = E_get k \<and> E_put k v \<in> set (take i ops))))"
proof (rule engine_new_ok [OF assms, of h64])
  fix K assume e: "engine_inv h64 K e0" "en_backend e0 = memory_new" "\<And>k v. \<not> holds h64 e0 k v"
  show ?thesis
    by (rule oks_mono [OF memory.engine_run_known [OF e(1), of "{}" h32 ops]])
      (use e in \<open>auto simp: memory_new_def\<close>)
qed

theorem engine_never_invents_witness:
  "\<exists>e0. engine_new demo_config memory_new = Some (Inr e0) \<and>
    oks (engine_run memory_ops demo_hash demo_hash64 [E_put ''a'' ''1'', E_remove ''a'', E_get ''a''] e0) (\<lambda>(rs, e).
      length rs = 3 \<and> mb_store (en_backend e) ''a'' = None)"
proof -
  obtain e0 where e0: "engine_new demo_config memory_new = Some (Inr e0)" by (rule demo_engine)
  show ?thesis
    using e0 engine_never_invents [OF e0, of demo_hash demo_hash64 "[E_put ''a'' ''1'', E_remove ''a'', E_get ''a'']"]
    by (intro exI [of _ e0] conjI) (auto elim!: oks_mono)
qed

lemma l1_put_readable:
  assumes inv: "engine_inv h64 K e" and win: "fst (snd K) \<noteq> 0"
    and room: "p_free (stripe_view (en_l1 e) (route h64 key)) \<noteq> 0"
    and put: "l1_put h32 h64 key val e = Some (r, e')"
  shows "sc_lookup h64 (en_l1 e') key = Some val"
proof -
  have ok: "cache_ok (en_l1 e) (snd K)" using inv by (simp add: engine_inv_def l1_ok_def)
  from sc_put_ok [OF ok, of h32 h64 key val] put win room show ?thesis
    by (auto simp: l1_put_def split: bind_splits)
qed

lemma drain_keeps_l1:
  assumes "set ds \<subseteq> {Drain_pop, Drain_insert}" and "engine_inv h64 K e"
  shows "oks (engine_run B h32 h64 ds e) (\<lambda>(_, e'). engine_inv h64 K e' \<and> sc_lookup h64 (en_l1 e') = sc_lookup h64 (en_l1 e))"
  using assms
proof (induction ds arbitrary: e)
  case (Cons d ds)
  obtain e1 where e1: "engine_do B h32 h64 d e = Some (Drained, e1)" "engine_inv h64 K e1"
      "sc_lookup h64 (en_l1 e1) = sc_lookup h64 (en_l1 e)"
  proof (cases "d = Drain_pop")
    case True
    obtain e1 where "drain_pop e = Some e1" "engine_inv h64 K e1" "sc_lookup h64 (en_l1 e1) = sc_lookup h64 (en_l1 e)"
      by (rule drain_pop_ok [OF Cons.prems(2)])
    then show ?thesis by (intro that [of e1]) (simp_all add: True)
  next
    case False
    then have d: "d = Drain_insert" using Cons.prems(1) by simp
    obtain e1 where e1: "drain_insert h64 e = Some e1" "engine_inv h64 K e1" "en_l1 e1 = en_l1 e"
      by (rule drain_insert_ok [OF Cons.prems(2)])
    then show ?thesis by (intro that [of e1]) (simp_all add: d)
  qed
  show ?case using Cons.IH [OF _ e1(2)] Cons.prems(1) e1(1,3) by (auto elim!: oks_mono)
qed simp

lemma engine_room:
  assumes new: "engine_new config b0 = Some (Inr e0)" "unat (ec_queue_size config) \<le> 2 ^ 31"
    and l1: "ec_l1 config = default_pct capacity" and big: "192 \<le> unat capacity" "unat capacity + 64 < 2 ^ 32"
  obtains K where "engine_inv h64 K e0" and "256 \<le> unat capacity \<Longrightarrow> fst (snd K) \<noteq> 0"
    and "\<And>e :: memory_backend engine. engine_inv h64 K e \<Longrightarrow>
      unat (total_size (en_l1 e)) \<le> unat capacity \<and> (\<forall>i < 64. 64 \<le> p_free (stripe_view (en_l1 e) i))"
proof (rule engine_new_ok [OF new, of h64])
  fix K
  assume inv: "engine_inv h64 K e0" and n: "fst K = cf_total_capacity (ec_l1 config) + 64"
    and ex: "\<exists>st. stripe_new (per_stripe (cf_total_capacity (ec_l1 config))) (cf_window_pct (ec_l1 config)) (cf_probation_pct (ec_l1 config)) = Some st \<and>
      fst (snd K) = st_window_capacity st \<and> fst (snd (snd K)) = st_main_capacity st"
  obtain st where st: "stripe_new (per_stripe capacity) f32_0_01 f32_0_20 = Some st"
      "unat (st_window_capacity st) + unat (st_main_capacity st) = max 3 (unat capacity div 64)"
      "256 \<le> unat capacity \<Longrightarrow> st_window_capacity st \<noteq> 0"
    by (rule default_stripe [of capacity]) (rule that; assumption)
  have K: "fst (snd K) = st_window_capacity st" "fst (snd (snd K)) = st_main_capacity st"
    using ex st(1) by (auto simp: l1)
  show ?thesis
  proof (rule that [OF inv])
    show "fst (snd K) \<noteq> 0" if "256 \<le> unat capacity" using st(3) [OF that] K by simp
    show "unat (total_size (en_l1 e)) \<le> unat capacity \<and> (\<forall>i < 64. 64 \<le> p_free (stripe_view (en_l1 e) i))"
      if "engine_inv h64 K e" for e :: "memory_backend engine"
      using that cache_room [of "en_l1 e" "snd K" capacity] st(2) K n big by (simp add: engine_inv_def l1_ok_def l1)
  qed
qed

text \<open>C3. Read your write: with at least 256 entries of L1, a get that follows a put answers the value put,
  whatever operations ran before (stale copies included) and whatever the drainer does in between.\<close>

theorem engine_read_your_write:
  assumes "engine_new config memory_new = Some (Inr e0)" and "unat (ec_queue_size config) \<le> 2 ^ 31"
    and "ec_l1 config = default_pct capacity" and "256 \<le> unat capacity" and "unat capacity + 64 < 2 ^ 32"
    and "set ds \<subseteq> {Drain_pop, Drain_insert}"
  shows "oks (engine_run memory_ops h32 h64 ops e0) (\<lambda>(_, e).
    oks (engine_put memory_ops h32 h64 key val e) (\<lambda>(_, e). oks (engine_run memory_ops h32 h64 ds e) (\<lambda>(_, e).
    oks (engine_get memory_ops h32 h64 key e) (\<lambda>(r, _). r = Some val))))"
proof -
  have big: "192 \<le> unat capacity" using assms(4) by simp
  obtain K where K: "engine_inv h64 K e0" "256 \<le> unat capacity \<Longrightarrow> fst (snd K) \<noteq> 0"
    and room: "\<And>e :: memory_backend engine. engine_inv h64 K e \<Longrightarrow>
      unat (total_size (en_l1 e)) \<le> unat capacity \<and> (\<forall>i < 64. 64 \<le> p_free (stripe_view (en_l1 e) i))"
    by (rule engine_room [OF assms(1-3) big assms(5), of h64]) (rule that; assumption)
  have main: "oks (engine_put memory_ops h32 h64 key val e) (\<lambda>(_, e). oks (engine_run memory_ops h32 h64 ds e) (\<lambda>(_, e).
    oks (engine_get memory_ops h32 h64 key e) (\<lambda>(r, _). r = Some val)))" if inv: "engine_inv h64 K e" for e
  proof -
    let ?e = "e\<lparr>en_backend := snd (bk_put memory_ops key val (en_backend e))\<rparr>"
    have inv1: "engine_inv h64 K ?e" using inv by (simp add: engine_inv_def)
    obtain r e1 where e1: "l1_put h32 h64 key val ?e = Some (r, e1)" "engine_inv h64 K e1"
      by (rule l1_put_ok [OF inv1, of h32 key val]) (rule that; assumption)
    have free: "p_free (stripe_view (en_l1 ?e) (route h64 key)) \<noteq> 0"
      using room [OF inv1] route_less [of h64 key] by fastforce
    have found: "sc_lookup h64 (en_l1 e1) key = Some val"
      by (rule l1_put_readable [OF inv1 K(2) free e1(1)]) (rule assms(4))
    have hit: "oks (engine_get memory_ops h32 h64 key e2) (\<lambda>(r, _). r = Some val)"
      if "engine_inv h64 K e2" "sc_lookup h64 (en_l1 e2) key = Some val" for e2 :: "memory_backend engine"
    proof -
      have l1: "l1_ok h64 K (en_l1 e2)" using that(1) by (simp add: engine_inv_def)
      show ?thesis using sc_get_flow [OF l1, of h32 key] that(2) by (auto simp: engine_get_def elim!: oksE)
    qed
    have "oks (engine_run memory_ops h32 h64 ds e1) (\<lambda>(_, e). oks (engine_get memory_ops h32 h64 key e) (\<lambda>(r, _). r = Some val))"
      by (rule oks_mono [OF drain_keeps_l1 [OF assms(6) e1(2)]]) (use hit found in auto)
    then show ?thesis by (simp add: engine_put_def case_prod_beta Let_def e1(1))
  qed
  show ?thesis
    by (rule oks_mono [OF memory.engine_run_known [OF K(1), of UNIV h32 ops]]) (use main in auto)
qed

theorem engine_read_your_write_witness:
  "\<exists>e0. engine_new demo_config memory_new = Some (Inr e0) \<and>
    oks (engine_run memory_ops demo_hash demo_hash64 [E_put ''a'' ''1''] e0) (\<lambda>(_, e).
    oks (engine_put memory_ops demo_hash demo_hash64 ''a'' ''2'' e) (\<lambda>(_, e).
    oks (engine_run memory_ops demo_hash demo_hash64 [Drain_pop, Drain_insert] e) (\<lambda>(_, e).
    oks (engine_get memory_ops demo_hash demo_hash64 ''a'' e) (\<lambda>(r, _). r = Some ''2''))))"
proof -
  obtain e0 where e0: "engine_new demo_config memory_new = Some (Inr e0)" by (rule demo_engine)
  show ?thesis
    using e0 engine_read_your_write [OF e0, of 256 "[Drain_pop, Drain_insert]" demo_hash demo_hash64 "[E_put ''a'' ''1'']" "''a''" "''2''"]
    by simp
qed

text \<open>The capacity of L2 is fixed.\<close>

lemma with_l2_capacity: "with_l2 i f e = Some (r, e') \<Longrightarrow> en_l2_capacity e' = en_l2_capacity e"
  by (auto simp: with_l2_def split: if_splits bind_splits)

lemma l1_put_capacity: "l1_put h32 h64 key val e = Some (r, e') \<Longrightarrow> en_l2_capacity e' = en_l2_capacity e"
  by (auto simp: l1_put_def split: bind_splits)

lemma engine_get_capacity: "engine_get B h32 h64 key e = Some (r, e') \<Longrightarrow> en_l2_capacity e' = en_l2_capacity e"
  by (auto simp: engine_get_def l2_get_def Let_def case_prod_beta split: bind_splits option.splits
      dest!: with_l2_capacity l1_put_capacity)

lemma engine_do_capacity: "engine_do B h32 h64 op e = Some (r, e') \<Longrightarrow> en_l2_capacity e' = en_l2_capacity e"
  by (cases op)
    (auto simp: engine_put_def engine_remove_def drain_pop_def drain_insert_def l2_put_item_def Let_def case_prod_beta
      split: bind_splits list.splits if_splits dest!: engine_get_capacity with_l2_capacity l1_put_capacity)

lemma engine_run_capacity: "engine_run B h32 h64 ops e = Some (rs, e') \<Longrightarrow> en_l2_capacity e' = en_l2_capacity e"
  by (induction ops arbitrary: e rs) (auto split: bind_splits dest!: engine_do_capacity)

text \<open>The engine is bounded: after any run the L1 cache holds at most its configured capacity, the L2
  cache at most its own (with a minimum of one entry per stripe), and every L2 stripe holds a key once.\<close>

theorem engine_bounded:
  assumes "engine_new config memory_new = Some (Inr e0)" and "unat (ec_queue_size config) \<le> 2 ^ 31"
    and "ec_l1 config = default_pct capacity" and "192 \<le> unat capacity" and "unat capacity + 64 < 2 ^ 32"
  shows "oks (engine_run memory_ops h32 h64 ops e0) (\<lambda>(_, e).
    unat (total_size (en_l1 e)) \<le> unat capacity \<and> length (en_l2 e) = 16 \<and>
    (\<forall>i < 16. length (l2_entries e i) \<le> max 1 (unat (ec_l2_capacity config) div 16) \<and> distinct (map fst (l2_entries e i))))"
proof -
  obtain K where K: "engine_inv h64 K e0"
    and room: "\<And>e :: memory_backend engine. engine_inv h64 K e \<Longrightarrow>
      unat (total_size (en_l1 e)) \<le> unat capacity \<and> (\<forall>i < 64. 64 \<le> p_free (stripe_view (en_l1 e) i))"
    by (rule engine_room [OF assms, of h64]) (rule that; assumption)
  let ?c = "max 1 (ec_l2_capacity config div of_nat kNumL2Stripes)"
  have c: "unat ?c = max 1 (unat (ec_l2_capacity config) div 16)"
    by (simp add: max_def kNumL2Stripes_def word_le_nat_alt unat_div)
  have l2: "length (en_l2 e) = 16 \<and> (\<forall>i < 16. length (l2_entries e i) \<le> unat (en_l2_capacity e) \<and> distinct (map fst (l2_entries e i)))"
    if "engine_inv h64 K e" for e :: "memory_backend engine"
    using that lm_distinct by (auto simp: engine_inv_def l2_ok_def l2_stripe_ok_def l2_entries_def kNumL2Stripes_def)
  have start: "en_l2_capacity e0 = ?c"
    by (rule engine_new_ok [OF assms(1,2)])
  obtain rs e where e: "engine_run memory_ops h32 h64 ops e0 = Some (rs, e)" "engine_inv h64 K e"
    using memory.engine_run_known [OF K, of UNIV h32 ops] by (auto elim!: oksE)
  show ?thesis
    using room [OF e(2)] l2 [OF e(2)] engine_run_capacity [OF e(1)] start c by (simp add: e(1))
qed

theorem engine_bounded_witness:
  "\<exists>e0. engine_new demo_config memory_new = Some (Inr e0) \<and>
    oks (engine_run memory_ops demo_hash demo_hash64 [E_put ''a'' ''1'', E_get ''b''] e0) (\<lambda>(_, e).
      unat (total_size (en_l1 e)) \<le> 256 \<and> (\<forall>i < 16. length (l2_entries e i) \<le> 4))"
proof -
  obtain e0 where e0: "engine_new demo_config memory_new = Some (Inr e0)" by (rule demo_engine)
  show ?thesis
    using e0 engine_bounded [OF e0, of 256 demo_hash demo_hash64 "[E_put ''a'' ''1'', E_get ''b'']"]
    by (intro exI [of _ e0] conjI e0) (auto elim!: oks_mono)
qed

section \<open>Shutdown\<close>

lemma ofold_concat: "ofold (ofold f) xss s = ofold f (concat xss) s"
proof (induction xss arbitrary: s)
  case (Cons xs xss)
  then show ?case by (cases "ofold f xs s") simp_all
qed simp

lemma l2_put_items_ok:
  assumes "l2_ok h64 e"
  obtains e' where "ofold (l2_put_item h64) items e = Some e'" and "l2_ok h64 e'" and "l2_only e e'"
    and "\<And>k v. l2_lookup h64 e' k = Some v \<Longrightarrow> l2_lookup h64 e k = Some v \<or> (\<exists>item \<in> set items. di_key item = k \<and> di_value item = v)"
    and "items \<noteq> [] \<Longrightarrow> l2_lookup h64 e' (di_key (last items)) = Some (di_value (last items))"
  using assms
proof (induction items arbitrary: e thesis)
  case Nil
  then show ?case by (simp add: l2_only_def)
next
  case (Cons item items)
  obtain e1 where e1: "l2_put_item h64 item e = Some e1" "l2_ok h64 e1" "l2_only e e1"
      "l2_lookup h64 e1 (di_key item) = Some (di_value item)"
      "\<And>k. k \<noteq> di_key item \<Longrightarrow> l2_lookup h64 e1 k \<in> {l2_lookup h64 e k, None}"
    by (rule l2_put_item_ok [OF Cons.prems(2), of item]) (rule that; assumption)
  obtain e2 where e2: "ofold (l2_put_item h64) items e1 = Some e2" "l2_ok h64 e2" "l2_only e1 e2"
      "\<And>k v. l2_lookup h64 e2 k = Some v \<Longrightarrow> l2_lookup h64 e1 k = Some v \<or> (\<exists>item \<in> set items. di_key item = k \<and> di_value item = v)"
      "items \<noteq> [] \<Longrightarrow> l2_lookup h64 e2 (di_key (last items)) = Some (di_value (last items))"
    by (rule Cons.IH [OF _ e1(2)]) (rule that; assumption)
  have one: "l2_lookup h64 e k = Some v \<or> di_key item = k \<and> di_value item = v" if "l2_lookup h64 e1 k = Some v" for k v
    using that e1(4) e1(5) [of k] by (cases "k = di_key item") auto
  show ?case
  proof (rule Cons.prems(1) [of e2])
    show "ofold (l2_put_item h64) (item # items) e = Some e2" using e1(1) e2(1) by simp
    show "l2_only e e2" using e1(3) e2(3) by (simp add: l2_only_def)
    show "l2_lookup h64 e k = Some v \<or> (\<exists>item' \<in> set (item # items). di_key item' = k \<and> di_value item' = v)"
      if "l2_lookup h64 e2 k = Some v" for k v
      using e2(4) [OF that] one [of k v] by auto
    show "l2_lookup h64 e2 (di_key (last (item # items))) = Some (di_value (last (item # items)))"
      using e2(1,5) e1(4) by (cases "items = []") simp_all
  qed (rule e2(2))
qed

text \<open>What an insertion does to the entries of its stripe, most recent first: an LRU insertion.\<close>

definition l2_insert :: "nat \<Rightarrow> demotion_item \<Rightarrow> kv list \<Rightarrow> kv list" where
  "l2_insert capacity item es = take capacity (e_write (di_key item) (di_value item) es)"

abbreviation l2_inserts :: "hash64 \<Rightarrow> nat \<Rightarrow> nat \<Rightarrow> demotion_item list \<Rightarrow> kv list \<Rightarrow> kv list" where
  "l2_inserts h64 capacity i items \<equiv> fold (l2_insert capacity) (filter (\<lambda>item. l2_index h64 (di_key item) = i) items)"

lemma l2_put_item_entries:
  assumes ok: "l2_ok h64 e" and put: "l2_put_item h64 item e = Some e'"
  shows "l2_entries e' i = l2_inserts h64 (unat (en_l2_capacity e)) i [item] (l2_entries e i)"
proof -
  let ?i = "l2_index h64 (di_key item)" and ?c = "en_l2_capacity e"
  have s: "l2_stripe_ok h64 ?c ?i (en_l2 e ! ?i)" and c: "0 < ?c" and i: "?i < length (en_l2 e)"
    using ok l2_index_less by (simp_all add: l2_ok_def)
  then obtain s' where s': "l2_stripe_put ?c item (en_l2 e ! ?i) = Some ((), s')"
      "lm_entries (l2_store s') = l2_insert (unat ?c) item (lm_entries (l2_store (en_l2 e ! ?i)))"
    using l2_stripe_put_ok [of "en_l2 e ! ?i" ?c item] by (auto simp: l2_stripe_ok_def l2_insert_def elim!: oksE)
  then have "e' = e\<lparr>en_l2 := (en_l2 e)[?i := s']\<rparr>" using put i by (simp add: l2_put_item_def with_l2_def)
  then show ?thesis using s'(2) i by (auto simp: l2_entries_def)
qed

lemma l2_put_items_entries:
  assumes "l2_ok h64 e" and "ofold (l2_put_item h64) items e = Some e'"
  shows "l2_entries e' i = l2_inserts h64 (unat (en_l2_capacity e)) i items (l2_entries e i)"
  using assms
proof (induction items arbitrary: e)
  case (Cons item items)
  obtain e1 where e1: "l2_put_item h64 item e = Some e1" "l2_ok h64 e1" "l2_only e e1"
    by (rule l2_put_item_ok [OF Cons.prems(1), of item]) (rule that; assumption)
  have "ofold (l2_put_item h64) items e1 = Some e'" using Cons.prems(2) e1(1) by simp
  from Cons.IH [OF e1(2) this] show ?case
    using l2_put_item_entries [OF Cons.prems(1) e1(1), of i] e1(3) by (simp add: l2_only_def)
qed simp

text \<open>An item stays while fewer than \<open>capacity\<close> other keys are inserted after it.\<close>

lemma l2_inserts_keep:
  assumes "\<forall>item \<in> set items. di_key item \<noteq> k" and "finite K" and "fst ` set pre \<subseteq> K" and "distinct (map fst pre)"
    and "card (K \<union> di_key ` set items) < c"
  shows "map_of (fold (l2_insert c) items (pre @ (k, v) # post)) k = Some v \<or> k \<in> K"
  using assms
proof (induction items arbitrary: pre post K)
  case Nil
  then show ?case by (auto simp: map_add_def split: option.split dest!: map_of_SomeD)
next
  case (Cons item items)
  let ?key = "di_key item" and ?K = "insert (di_key item) K"
  let ?pre = "(?key, di_value item) # e_drop ?key pre"
  have d: "distinct (map fst ?pre)" using Cons.prems(4) by (auto simp: e_drop_def distinct_map_filter)
  have sub: "fst ` set ?pre \<subseteq> ?K" using Cons.prems(3) by (auto simp: e_drop_def)
  have "length ?pre = card (fst ` set ?pre)" using distinct_card [OF d] by simp
  also have "\<dots> \<le> card (K \<union> di_key ` set (item # items))" using sub Cons.prems(2) by (intro card_mono) auto
  finally have len: "length ?pre < c" using Cons.prems(5) by simp
  have "e_write ?key (di_value item) (pre @ (k, v) # post) = ?pre @ (k, v) # e_drop ?key post"
    using Cons.prems(1) by (auto simp: e_write_def e_drop_def)
  then have "l2_insert c item (pre @ (k, v) # post) = ?pre @ (k, v) # take (c - Suc (length ?pre)) (e_drop ?key post)"
    using len by (simp add: l2_insert_def take_Cons' del: append.simps)
  moreover have "map_of (fold (l2_insert c) items (?pre @ (k, v) # take (c - Suc (length ?pre)) (e_drop ?key post))) k = Some v \<or> k \<in> ?K"
    using Cons.prems sub d by (intro Cons.IH) auto
  ultimately show ?case using Cons.prems(1) by auto
qed

lemma l2_inserts_last:
  assumes "\<forall>later \<in> set ys. di_key later \<noteq> di_key item" and "card (di_key ` set ys) < c"
  shows "map_of (fold (l2_insert c) (xs @ item # ys) es) (di_key item) = Some (di_value item)"
proof -
  obtain n where "c = Suc n" using assms(2) by (cases c) simp_all
  then obtain post where "l2_insert c item (fold (l2_insert c) xs es) = (di_key item, di_value item) # post"
    by (simp add: l2_insert_def e_write_def)
  then show ?thesis using l2_inserts_keep [of ys "di_key item" "{}" "[]" c "di_value item" post] assms by simp
qed

lemma l2_put_batch_fold: "l2_put_batch h64 = ofold (l2_put_item h64)"
  by (auto simp: l2_put_batch_def fun_eq_iff)

lemma engine_close_ok:
  assumes inv: "engine_inv h64 K e"
  shows "oks (engine_close h64 e) (\<lambda>e'. pending e' = [] \<and> en_backend e' = en_backend e \<and> l2_ok h64 e' \<and>
    (\<forall>k v. l2_lookup h64 e' k = Some v \<longrightarrow> l2_lookup h64 e k = Some v \<or> waits e k v) \<and>
    (\<forall>i. l2_entries e' i = l2_inserts h64 (unat (en_l2_capacity e)) i (pending e) (l2_entries e i)) \<and>
    (pending e \<noteq> [] \<longrightarrow> l2_lookup h64 e' (di_key (last (pending e))) = Some (di_value (last (pending e)))))"
proof -
  let ?e0 = "e\<lparr>en_l1 := sc_set_demotion_queue False (en_l1 e)\<rparr>"
  have q: "dq_inv (sc_queue (en_l1 e))" using inv unfolding engine_inv_def by (blast intro: l1_ok_dq_inv)
  have same: "sc_queue (en_l1 ?e0) = sc_queue (en_l1 e)" by (simp add: sc_set_demotion_queue_def)
  have ok0: "l2_ok h64 ?e0" using inv by (simp add: engine_inv_def)
  obtain e1 where e1: "ofold (l2_put_item h64) (en_batch e) ?e0 = Some e1" "l2_ok h64 e1" "l2_only ?e0 e1"
      "\<And>k v. l2_lookup h64 e1 k = Some v \<Longrightarrow> l2_lookup h64 ?e0 k = Some v \<or> (\<exists>item \<in> set (en_batch e). di_key item = k \<and> di_value item = v)"
      "en_batch e \<noteq> [] \<Longrightarrow> l2_lookup h64 e1 (di_key (last (en_batch e))) = Some (di_value (last (en_batch e)))"
    by (rule l2_put_items_ok [OF ok0, of "en_batch e"]) (rule that; assumption)
  let ?e1 = "e1\<lparr>en_batch := []\<rparr>" and ?items = "dq_items (sc_queue (en_l1 e))"
  have ok1: "l2_ok h64 ?e1" using e1(2) by simp
  obtain e2 where e2: "ofold (l2_put_item h64) ?items ?e1 = Some e2" "l2_ok h64 e2" "l2_only ?e1 e2"
      "\<And>k v. l2_lookup h64 e2 k = Some v \<Longrightarrow> l2_lookup h64 ?e1 k = Some v \<or> (\<exists>item \<in> set ?items. di_key item = k \<and> di_value item = v)"
      "?items \<noteq> [] \<Longrightarrow> l2_lookup h64 e2 (di_key (last ?items)) = Some (di_value (last ?items))"
    by (rule l2_put_items_ok [OF ok1, of ?items]) (rule that; assumption)
  have q1: "sc_queue (en_l1 e1) = sc_queue (en_l1 e)" using l2_only_simps(1) [OF e1(3)] same by simp
  have fold: "ofold (l2_put_batch h64) (chunks64 ?items) ?e1 = Some e2"
    unfolding l2_put_batch_fold ofold_concat concat_chunks64 by (rule e2(1))
  obtain q' n where d: "final_drain (l2_put_batch h64) (sc_queue (en_l1 e)) 0 ?e1 = Some (q', n, e2)" "dq_items q' = []"
    using final_drain_ok [OF q fold, of 0] by (auto elim!: oksE)
  let ?e3 = "e2\<lparr>en_l1 := (en_l1 e2)\<lparr>sc_queue := q'\<rparr>\<rparr>"
  have close: "engine_close h64 e = Some ?e3"
    using e1(1) d(1) q1 by (simp add: engine_close_def l2_put_batch_fold)
  have "pending ?e3 = []" using l2_only_simps(4) [OF e2(3)] d(2) by (simp add: pending_def sc_items_def)
  moreover have "en_backend ?e3 = en_backend e" using l2_only_simps(2) [OF e1(3)] l2_only_simps(2) [OF e2(3)] by simp
  moreover have "l2_lookup h64 e k = Some v \<or> waits e k v" if "l2_lookup h64 ?e3 k = Some v" for k v
    using that e2(4) [of k v] e1(4) [of k v] by (auto simp: waits_def pending_def sc_items_def)
  moreover have "l2_lookup h64 ?e3 (di_key (last (pending e))) = Some (di_value (last (pending e)))" if "pending e \<noteq> []"
  proof (cases "?items = []")
    case True
    then have "e2 = ?e1" using e2(1) by simp
    then have "l2_lookup h64 ?e3 = l2_lookup h64 e1" by simp
    then show ?thesis using that True e1(5) by (simp add: pending_def sc_items_def)
  qed (use e2(5) in \<open>simp add: pending_def sc_items_def\<close>)
  moreover have "l2_entries ?e3 i = l2_inserts h64 (unat (en_l2_capacity e)) i (pending e) (l2_entries e i)" for i
    using l2_put_items_entries [OF ok0 e1(1), of i] l2_put_items_entries [OF ok1 e2(1), of i] e1(3)
    by (simp add: l2_entries_def l2_only_def pending_def sc_items_def)
  ultimately show ?thesis using e2(2) by (simp add: close)
qed

lemma pending_kept:
  assumes "l2_entries e' (l2_index h64 (di_key item)) =
      l2_inserts h64 c (l2_index h64 (di_key item)) (xs @ item # ys) es"
    and "\<forall>later \<in> set ys. di_key later \<noteq> di_key item"
    and "card {k \<in> di_key ` set ys. l2_index h64 k = l2_index h64 (di_key item)} < c"
  shows "l2_lookup h64 e' (di_key item) = Some (di_value item)"
proof -
  let ?ys = "filter (\<lambda>later. l2_index h64 (di_key later) = l2_index h64 (di_key item)) ys"
  have "di_key ` set ?ys = {k \<in> di_key ` set ys. l2_index h64 k = l2_index h64 (di_key item)}" by auto
  then show ?thesis
    using l2_inserts_last [of ?ys item c] assms by (simp add: l2_lookup_def)
qed

text \<open>C32. Closing the engine always returns and moves everything on its way to L2 there: each pending item (first those
  of the drainer's batch, then those queued, oldest first) is inserted into its L2 stripe, which is an LRU list of
  \<open>l2_capacity_per_stripe_\<close> entries, and nothing else is. So every pending item that is not followed by another one for its key, nor
  by \<open>l2_capacity_per_stripe_\<close> or more other keys of its stripe, is in L2 afterwards with its value; nothing is pending any more,
  and the backend is left alone.\<close>

theorem engine_close_drains:
  assumes "engine_new config memory_new = Some (Inr e0)" and "unat (ec_queue_size config) \<le> 2 ^ 31"
  shows "oks (engine_run memory_ops h32 h64 ops e0) (\<lambda>(_, e). oks (engine_close h64 e) (\<lambda>e'.
    pending e' = [] \<and> en_backend e' = en_backend e \<and>
    (\<forall>i. l2_entries e' i = fold (\<lambda>item es. take (unat (en_l2_capacity e)) (e_write (di_key item) (di_value item) es))
       (filter (\<lambda>item. l2_index h64 (di_key item) = i) (pending e)) (l2_entries e i)) \<and>
    (\<forall>xs item ys. pending e = xs @ item # ys \<and> (\<forall>later \<in> set ys. di_key later \<noteq> di_key item) \<and>
       card {k \<in> di_key ` set ys. l2_index h64 k = l2_index h64 (di_key item)} < unat (en_l2_capacity e) \<longrightarrow>
       l2_lookup h64 e' (di_key item) = Some (di_value item)) \<and>
    (\<forall>k v. l2_lookup h64 e' k = Some v \<longrightarrow> l2_lookup h64 e k = Some v \<or> waits e k v)))"
proof (rule engine_new_ok [OF assms, of h64])
  fix K assume e: "engine_inv h64 K e0"
  have insert: "l2_insert c = (\<lambda>item es. take c (e_write (di_key item) (di_value item) es))" for c
    by (simp add: fun_eq_iff l2_insert_def)
  show ?thesis
    by (rule oks_mono [OF memory.engine_run_known [OF e(1), of UNIV h32 ops]])
      (auto intro!: oks_mono [OF engine_close_ok] pending_kept simp flip: insert)
qed

theorem engine_close_drains_witness:
  "\<exists>e0. engine_new demo_config memory_new = Some (Inr e0) \<and>
    oks (engine_run memory_ops demo_hash demo_hash64 [E_put ''a'' ''1''] e0) (\<lambda>(_, e).
      oks (engine_close demo_hash64 e) (\<lambda>e'. pending e' = [] \<and>
        (pending e = [] \<longrightarrow> (\<forall>i. l2_entries e' i = l2_entries e i))))"
proof -
  obtain e0 where e0: "engine_new demo_config memory_new = Some (Inr e0)" by (rule demo_engine)
  have "oks (engine_run memory_ops demo_hash demo_hash64 [E_put ''a'' ''1''] e0) (\<lambda>(_, e).
      oks (engine_close demo_hash64 e) (\<lambda>e'. pending e' = [] \<and>
        (pending e = [] \<longrightarrow> (\<forall>i. l2_entries e' i = l2_entries e i))))"
    by (rule oks_mono [OF engine_close_drains [OF e0]]) (auto elim!: oks_mono)
  then show ?thesis using e0 by blast
qed

end
