(* ===== verification/Engine_Stats.thy ===== *)
theory Engine_Stats
  imports Cache_Engine_Run Complex_Main
begin

text \<open>
  The statistics of the engine: what its counters count over any run, and the two hit rates. A rate is the
  exact rational of which the code computes the nearest \<open>double\<close>.
\<close>

definition l1_hit_rate :: "'b engine \<Rightarrow> rat" where
  "l1_hit_rate e =
     (let all = total_hits (en_l1 e) + total_misses (en_l1 e)
      in if all = 0 then 0 else of_nat (unat (total_hits (en_l1 e))) / of_nat (unat all))"

definition overall_hit_rate :: "'b engine \<Rightarrow> rat" where
  "overall_hit_rate e =
     (let all = total_hits (en_l1 e) + total_misses (en_l1 e);
          hits = total_hits (en_l1 e) + engine_l2_hits e
      in if all = 0 then 0 else of_nat (unat hits) / of_nat (unat all))"

section \<open>The counters of a stripe\<close>

text \<open>Only the two ends of a get count; everything in between leaves the counters alone.\<close>

abbreviation hm :: "stripe \<Rightarrow> u64 \<times> u64" where
  "hm st \<equiv> (st_hits st, st_misses st)"

abbreviation uncounted :: "shard \<Rightarrow> shard \<Rightarrow> bool" where
  "uncounted v v' \<equiv> hm (sh_stripe v') = hm (sh_stripe v)"

lemma set_lru_counters [simp]: "st_hits (set_lru g l st) = st_hits st" "st_misses (set_lru g l st) = st_misses st"
  by (cases g; simp)+

lemma on_lru_counters: "on_lru g f v = Some v' \<Longrightarrow> uncounted v v'"
  by (auto simp: on_lru_def split: Option.bind_splits)

lemma pop_lru_counters: "pop_lru g v = Some (i, v') \<Longrightarrow> uncounted v v'"
  by (auto simp: pop_lru_def split: Option.bind_splits)

lemma set_segment_counters: "set_segment i g v = Some v' \<Longrightarrow> uncounted v v'"
  by (auto simp: set_segment_def split: Option.bind_splits)

lemma deallocate_counters: "shard_deallocate i v = Some v' \<Longrightarrow> uncounted v v'"
  by (auto simp: shard_deallocate_def split: Option.bind_splits)

lemma index_erase_counters [simp]: 
  "st_hits (sh_stripe (index_erase key v)) = st_hits (sh_stripe v)"
  "st_misses (sh_stripe (index_erase key v)) = st_misses (sh_stripe v)"
  by (simp_all add: index_erase_def)

lemma count_access_counters: "count_access h32 key v = Some v' \<Longrightarrow> uncounted v v'"
  by (auto simp: count_access_def split: Option.bind_splits)

lemma decay_counters [simp]: 
  "st_hits (sh_stripe (maybe_decay_cms v)) = st_hits (sh_stripe v)"
  "st_misses (sh_stripe (maybe_decay_cms v)) = st_misses (sh_stripe v)"
  by (simp_all add: maybe_decay_cms_def Let_def)

lemmas shard_counters = on_lru_counters pop_lru_counters set_segment_counters deallocate_counters count_access_counters

lemma promote_counters: "promote_to_protected idx v = Some v' \<Longrightarrow> uncounted v v'"
  unfolding promote_to_protected_def by (auto split: Option.bind_splits if_splits dest!: shard_counters)

lemma touch_counters: "touch idx v = Some v' \<Longrightarrow> uncounted v v'"
  unfolding touch_def by (auto split: Option.bind_splits option.splits segment.splits dest!: shard_counters promote_counters)

lemma demote_counters: "demote_victim h32 i v = Some v' \<Longrightarrow> uncounted v v'"
  unfolding demote_victim_def by (auto simp: Let_def split: Option.bind_splits if_splits dest!: shard_counters)

lemma admit_counters: "admit_candidate i v = Some v' \<Longrightarrow> uncounted v v'"
  unfolding admit_candidate_def by (auto split: Option.bind_splits dest!: shard_counters)

lemma reject_counters: "reject_candidate i n v = Some v' \<Longrightarrow> uncounted v v'"
  unfolding reject_candidate_def by (auto simp: Let_def split: Option.bind_splits dest!: shard_counters)

lemma try_admit_counters: "try_admit_from_window h32 v = Some v' \<Longrightarrow> uncounted v v'"
  unfolding try_admit_from_window_def
  by (auto simp: Let_def split: Option.bind_splits if_splits
      dest!: shard_counters admit_counters reject_counters demote_counters)

lemma admit_loop_counters: "admit_loop h32 v = Some v' \<Longrightarrow> uncounted v v'"
proof (induction h32 v v' rule: admit_loop.raw_induct [rotated, consumes 1])
  case (1 loop h32 v v')
  show ?case
  proof (cases "lru_size_of Win v > st_window_capacity (sh_stripe v)")
    case True
    then obtain v1 where v1: "try_admit_from_window h32 v = Some v1" "loop h32 v1 = Some v'"
      using 1(2) by (auto split: Option.bind_splits)
    then show ?thesis using 1(1) [OF v1(2)] try_admit_counters [OF v1(1)] by simp
  qed (use 1(2) in simp)
qed

lemma stripe_put_counters: "stripe_put h32 key val v = Some (r, v') \<Longrightarrow> uncounted v v'"
  unfolding stripe_put_def put_existing_def put_new_def insert_into_window_def
  by (auto simp: Let_def split: Option.bind_splits if_splits option.splits
      dest!: shard_counters touch_counters admit_loop_counters)

lemma stripe_remove_counters: "stripe_remove key v = Some (r, v') \<Longrightarrow> uncounted v v'"
  unfolding stripe_remove_def
  by (auto split: Option.bind_splits option.splits segment.splits dest!: shard_counters)

lemma stripe_get_counters:
  "stripe_get h32 key v = Some (r, v') \<Longrightarrow>
     st_hits (sh_stripe v') = st_hits (sh_stripe v) + (if r = None then 0 else 1) \<and>
     st_misses (sh_stripe v') = st_misses (sh_stripe v) + (if r = None then 1 else 0)"
  unfolding stripe_get_def
  by (auto simp: Let_def split: Option.bind_splits option.splits dest!: shard_counters touch_counters)

section \<open>The totals\<close>

lemma fold_plus_map: "fold (\<lambda>s sum. sum + f s) xs (a :: u64) = a + sum_list (map f xs)"
  by (induction xs arbitrary: a) (simp_all add: ac_simps)

lemma totals:
  "total_hits c = sum_list (map st_hits (sc_stripes c))" "total_misses c = sum_list (map st_misses (sc_stripes c))"
  "engine_l2_hits e = sum_list (map l2_hits (en_l2 e))" "engine_l2_misses e = sum_list (map l2_misses (en_l2 e))"
  by (simp_all add: total_hits_def total_misses_def engine_l2_hits_def engine_l2_misses_def fold_plus_map)

lemma sum_map_update:
  "i < length xs \<Longrightarrow> f y = f (xs ! i) + d \<Longrightarrow> sum_list (map f (xs[i := y])) = sum_list (map f xs) + (d :: u64)"
proof (induction xs arbitrary: i)
  case (Cons x xs)
  then show ?case by (cases i) (simp_all add: ac_simps)
qed simp

lemma with_stripe_totals:
  assumes "with_stripe i f c = Some (r, c')"
    and "\<And>v v'. f v = Some (r, v') \<Longrightarrow> st_hits (sh_stripe v') = st_hits (sh_stripe v) + dh \<and>
           st_misses (sh_stripe v') = st_misses (sh_stripe v) + dm"
  shows "total_hits c' = total_hits c + dh \<and> total_misses c' = total_misses c + dm"
proof -
  obtain v where v: "unat i < length (sc_stripes c)"
      "f \<lparr>sh_slab = sc_slab c, sh_queue = sc_queue c, sh_stripe = sc_stripes c ! unat i\<rparr> = Some (r, v)"
      "sc_stripes c' = (sc_stripes c)[unat i := sh_stripe v]"
    using assms(1) by (auto simp: with_stripe_def vget_def vset_def split: Option.bind_splits if_splits)
  show ?thesis using assms(2) [OF v(2)] v(1) unfolding totals v(3) by (auto intro!: sum_map_update)
qed

lemma with_stripe_uncounted:
  assumes "with_stripe i f c = Some (r, c')" and "\<And>v v'. f v = Some (r, v') \<Longrightarrow> uncounted v v'"
  shows "total_hits c' = total_hits c \<and> total_misses c' = total_misses c"
  using with_stripe_totals [OF assms(1), of 0 0] assms(2) by simp

lemma sc_get_totals:
  assumes "sc_get h32 h64 key c = Some (r, c')"
  shows "total_hits c' = total_hits c + (if r = None then 0 else 1) \<and>
     total_misses c' = total_misses c + (if r = None then 1 else 0)"
  by (rule with_stripe_totals [OF assms [unfolded sc_get_def]]) (rule stripe_get_counters)

lemma sc_put_totals: "sc_put h32 h64 key val c = Some (r, c') \<Longrightarrow> total_hits c' = total_hits c \<and> total_misses c' = total_misses c"
  unfolding sc_put_def by (erule with_stripe_uncounted) (rule stripe_put_counters)

lemma sc_remove_totals: "sc_remove h64 key c = Some (r, c') \<Longrightarrow> total_hits c' = total_hits c \<and> total_misses c' = total_misses c"
  unfolding sc_remove_def by (erule with_stripe_uncounted) (rule stripe_remove_counters)

lemma with_l2_totals:
  assumes "with_l2 i f e = Some (r, e')"
    and "\<And>s s'. f s = Some (r, s') \<Longrightarrow> l2_hits s' = l2_hits s + dh \<and> l2_misses s' = l2_misses s + dm"
  shows "engine_l2_hits e' = engine_l2_hits e + dh \<and> engine_l2_misses e' = engine_l2_misses e + dm \<and> en_l1 e' = en_l1 e \<and> en_backend e' = en_backend e"
proof -
  obtain s where s: "i < length (en_l2 e)" "f (en_l2 e ! i) = Some (r, s)" "e' = e\<lparr>en_l2 := (en_l2 e)[i := s]\<rparr>"
    using assms(1) by (auto simp: with_l2_def split: Option.bind_splits if_splits)
  show ?thesis using assms(2) [OF s(2)] s(1) unfolding totals s(3) by (auto intro!: sum_map_update)
qed

lemma l2_get_totals:
  "l2_get h64 key e = Some (r, e') \<Longrightarrow> engine_l2_hits e' = engine_l2_hits e + (if r = None then 0 else 1) \<and>
     engine_l2_misses e' = engine_l2_misses e + (if r = None then 1 else 0) \<and> en_l1 e' = en_l1 e \<and> en_backend e' = en_backend e"
  unfolding l2_get_def
  by (rule with_l2_totals) (auto simp: l2_stripe_get_def split: Option.bind_splits option.splits)

lemma with_l2_uncounted:
  assumes "with_l2 i f e = Some (r, e')"
    and "\<And>s s'. f s = Some (r, s') \<Longrightarrow> l2_hits s' = l2_hits s \<and> l2_misses s' = l2_misses s"
  shows "engine_l2_hits e' = engine_l2_hits e \<and> engine_l2_misses e' = engine_l2_misses e \<and> en_l1 e' = en_l1 e \<and> en_backend e' = en_backend e"
  using with_l2_totals [OF assms(1), of 0 0] assms(2) by simp

lemma l2_put_totals:
  assumes "l2_put_item h64 item e = Some e'"
  shows "engine_l2_hits e' = engine_l2_hits e \<and> engine_l2_misses e' = engine_l2_misses e \<and> en_l1 e' = en_l1 e \<and> en_backend e' = en_backend e"
proof -
  obtain r where "with_l2 (l2_index h64 (di_key item)) (l2_stripe_put (en_l2_capacity e) item) e = Some (r, e')"
    using assms by (auto simp: l2_put_item_def)
  then show ?thesis
    by (rule with_l2_uncounted) (auto simp: l2_stripe_put_def split: Option.bind_splits option.splits if_splits)
qed

lemma l2_remove_totals:
  assumes "with_l2 i (l2_stripe_remove key) e = Some (r, e')"
  shows "engine_l2_hits e' = engine_l2_hits e \<and> engine_l2_misses e' = engine_l2_misses e \<and> en_l1 e' = en_l1 e \<and> en_backend e' = en_backend e"
  by (rule with_l2_uncounted [OF assms]) (auto simp: l2_stripe_remove_def split: Option.bind_splits option.splits)

section \<open>Runs\<close>

text \<open>Which level answers a get, by where a copy of the key is, and the levels that answer the gets of a run.\<close>

datatype level = From_L1 | From_L2 | From_backend

definition level_of :: "hash64 \<Rightarrow> 'b engine \<Rightarrow> string \<Rightarrow> level" where
  "level_of h64 e key =
     (if sc_lookup h64 (en_l1 e) key \<noteq> None then From_L1 else if l2_lookup h64 e key \<noteq> None then From_L2 else From_backend)"

fun run_levels :: "'b backend \<Rightarrow> hash32 \<Rightarrow> hash64 \<Rightarrow> engine_op list \<Rightarrow> 'b engine \<Rightarrow> level list" where
  "run_levels B h32 h64 [] e = []"
| "run_levels B h32 h64 (op # ops) e =
     (case op of E_get key \<Rightarrow> [level_of h64 e key] | _ \<Rightarrow> []) @
     (case engine_do B h32 h64 op e of Some (_, e) \<Rightarrow> run_levels B h32 h64 ops e | None \<Rightarrow> [])"

definition counted :: "level list \<Rightarrow> memory_backend engine \<Rightarrow> bool" where
  "counted ls e \<longleftrightarrow> total_hits (en_l1 e) = of_nat (count_list ls From_L1) \<and>
     total_misses (en_l1 e) = of_nat (count_list ls From_L2 + count_list ls From_backend) \<and>
     engine_l2_hits e = of_nat (count_list ls From_L2) \<and> engine_l2_misses e = of_nat (count_list ls From_backend) \<and>
     mb_reads (en_backend e) = of_nat (count_list ls From_backend)"

lemma counted_same:
  "counted ls e \<Longrightarrow> total_hits (en_l1 e') = total_hits (en_l1 e) \<Longrightarrow> total_misses (en_l1 e') = total_misses (en_l1 e) \<Longrightarrow>
     engine_l2_hits e' = engine_l2_hits e \<Longrightarrow> engine_l2_misses e' = engine_l2_misses e \<Longrightarrow>
     mb_reads (en_backend e') = mb_reads (en_backend e) \<Longrightarrow> counted ls e'"
  by (simp add: counted_def)

lemma count_levels: "length ls = count_list ls From_L1 + count_list ls From_L2 + count_list ls From_backend"
proof (induction ls)
  case (Cons l ls)
  then show ?case by (cases l) simp_all
qed simp

lemma l1_put_totals:
  "l1_put h32 h64 key val e = Some (r, e') \<Longrightarrow> total_hits (en_l1 e') = total_hits (en_l1 e) \<and>
     total_misses (en_l1 e') = total_misses (en_l1 e) \<and> en_l2 e' = en_l2 e \<and> en_backend e' = en_backend e"
  by (auto simp: l1_put_def split: Option.bind_splits dest!: sc_put_totals)

lemma memory_reads [simp]:
  "mb_reads (snd (bk_get memory_ops key b)) = mb_reads b + 1" "mb_reads (snd (bk_put memory_ops key val b)) = mb_reads b"
  "mb_reads (snd (bk_remove memory_ops key b)) = mb_reads b"
  by (simp_all add: memory_ops_def memory_get_def memory_put_def memory_remove_def Let_def split: option.split)

lemma engine_get_counted:
  assumes inv: "engine_inv h64 K e" and get: "engine_get memory_ops h32 h64 key e = Some (r, e')" and c: "counted ls e"
  shows "counted (ls @ [level_of h64 e key]) e'"
proof -
  have ok: "l1_ok h64 K (en_l1 e)" "l2_ok h64 e" using inv by (simp_all add: engine_inv_def)
  obtain l1 where l1: "sc_get h32 h64 key (en_l1 e) = Some (sc_lookup h64 (en_l1 e) key, l1)"
    using sc_get_flow [OF ok(1), of h32 key] by (auto elim!: oksE)
  note t1 = sc_get_totals [OF l1]
  show ?thesis
  proof (cases "sc_lookup h64 (en_l1 e) key")
    case (Some val)
    then have "e' = e\<lparr>en_l1 := l1\<rparr>" using get l1 by (simp add: engine_get_def)
    then show ?thesis using t1 Some c by (simp add: counted_def level_of_def totals)
  next
    case None
    let ?e1 = "e\<lparr>en_l1 := l1\<rparr>"
    have ok1: "l2_ok h64 ?e1" and look: "l2_lookup h64 ?e1 key = l2_lookup h64 e key" using ok(2) by simp_all
    obtain e2 where l2: "l2_get h64 key ?e1 = Some (l2_lookup h64 e key, e2)" "l2_only ?e1 e2"
      by (rule l2_get_ok [OF ok1, of key, unfolded look]) (rule that; assumption)
    note t2 = l2_get_totals [OF l2(1)]
    have "total_hits (en_l1 e') = total_hits (en_l1 e2) \<and> total_misses (en_l1 e') = total_misses (en_l1 e2) \<and> en_l2 e' = en_l2 e2 \<and>
        mb_reads (en_backend e') = mb_reads (en_backend e2) + (if l2_lookup h64 e key = None then 1 else 0)"
      using get l1 None l2
      by (auto simp: engine_get_def case_prod_beta Let_def split: option.splits Option.bind_splits dest!: l1_put_totals)
    then show ?thesis
      using t1 t2 None c l2(2) by (auto simp: counted_def level_of_def totals l2_only_def)
  qed
qed

lemma engine_do_counted:
  assumes inv: "engine_inv h64 K e" and do_op: "engine_do memory_ops h32 h64 op e = Some (r, e')" and c: "counted ls e"
  shows "counted (ls @ (case op of E_get key \<Rightarrow> [level_of h64 e key] | _ \<Rightarrow> [])) e'"
proof (cases op)
  case (E_get key)
  then show ?thesis using do_op engine_get_counted [OF inv _ c] by auto
next
  case (E_put key val)
  then have "total_hits (en_l1 e') = total_hits (en_l1 e) \<and> total_misses (en_l1 e') = total_misses (en_l1 e) \<and> en_l2 e' = en_l2 e \<and>
      mb_reads (en_backend e') = mb_reads (en_backend e)"
    using do_op by (auto simp: engine_put_def case_prod_beta dest!: l1_put_totals)
  then show ?thesis using E_put by (auto intro: counted_same [OF c] simp: totals)
next
  case (E_remove key)
  then show ?thesis
    using do_op
    by (auto simp: engine_remove_def case_prod_beta totals split: Option.bind_splits
        dest!: sc_remove_totals l2_remove_totals intro!: counted_same [OF c])
next
  case Drain_pop
  then show ?thesis
    using do_op by (auto simp: drain_pop_def totals split: Option.bind_splits if_splits intro!: counted_same [OF c])
next
  case Drain_insert
  then show ?thesis
    using do_op
    by (auto simp: drain_insert_def totals split: Option.bind_splits list.splits dest: l2_put_totals intro!: counted_same [OF c])
qed

definition gets :: "engine_op list \<Rightarrow> nat" where
  "gets ops = length (filter (\<lambda>op. case op of E_get _ \<Rightarrow> True | _ \<Rightarrow> False) ops)"

lemma engine_run_counted:
  assumes "engine_inv h64 K e" and "counted ls e"
  shows "oks (engine_run memory_ops h32 h64 ops e) (\<lambda>(_, e'). counted (ls @ run_levels memory_ops h32 h64 ops e) e') \<and>
    length (run_levels memory_ops h32 h64 ops e) = gets ops"
  using assms
proof (induction ops arbitrary: e ls)
  case (Cons op ops)
  obtain r e1 where e1: "engine_do memory_ops h32 h64 op e = Some (r, e1)" "engine_inv h64 K e1"
    by (rule memory.engine_do_ok [OF Cons.prems(1), of h32 op]) (rule that; assumption)
  show ?case
    using Cons.IH [OF e1(2) engine_do_counted [OF Cons.prems(1) e1(1) Cons.prems(2)]] e1(1)
    by (cases op) (auto simp: gets_def elim!: oks_mono)
qed (simp add: gets_def)

lemma engine_new_counted:
  assumes "engine_new config memory_new = Some (Inr e)" and "unat (ec_queue_size config) \<le> 2 ^ 31" shows "counted [] e"
proof (rule engine_new_parts [OF assms])
  fix c st
  assume c: "sc_new (dq_new (ec_queue_size config)) (ec_l1 config) = Some (Inr c)"
    and st: "stripe_new (per_stripe (cf_total_capacity (ec_l1 config))) (cf_window_pct (ec_l1 config)) (cf_probation_pct (ec_l1 config)) = Some st"
    and e: "e = \<lparr>en_l1 = sc_set_demotion_queue True c, en_backend = memory_new,
           en_l2 = replicate kNumL2Stripes \<lparr>l2_store = lm_empty, l2_hits = 0, l2_misses = 0\<rparr>,
           en_l2_capacity = max 1 (ec_l2_capacity config div of_nat kNumL2Stripes), en_batch = []\<rparr>"
  have "sc_stripes c = replicate 64 st"
    using c make_stripes_eq [OF st] by (auto simp: sc_new_def split: sum.splits Option.bind_splits option.splits)
  moreover have "st_hits st = 0" "st_misses st = 0"
    using st by (auto simp: stripe_new_def Let_def split: Option.bind_splits if_splits)
  ultimately show ?thesis
    unfolding counted_def
    by (simp add: e totals sc_set_demotion_queue_def stripe_set_demotion_queue_def map_replicate_const sum_list_replicate memory_new_def)
qed

section \<open>Property\<close>

text \<open>C33. The statistics say where gets were answered. Over any run of client operations and drainer steps, fewer than
  2 ^ 64 gets among them, L1 hits count the gets whose key was in L1, L2 hits those whose key was in L2 but not in L1, and
  L2 misses all others, which are the reads the backend was asked for; every other get of L1 is an L1 miss. The L1 hit
  rate is the share of gets answered by L1, the overall rate the share answered without the backend.\<close>

theorem engine_statistics:
  assumes "engine_new config memory_new = Some (Inr e0)" and "unat (ec_queue_size config) \<le> 2 ^ 31"
    and "gets ops < 2 ^ 64"
  shows "oks (engine_run memory_ops h32 h64 ops e0) (\<lambda>(_, e). let ls = run_levels memory_ops h32 h64 ops e0 in
    length ls = gets ops \<and> unat (total_hits (en_l1 e)) = count_list ls From_L1 \<and>
    unat (total_misses (en_l1 e)) = count_list ls From_L2 + count_list ls From_backend \<and>
    unat (engine_l2_hits e) = count_list ls From_L2 \<and> unat (engine_l2_misses e) = count_list ls From_backend \<and>
    unat (mb_reads (en_backend e)) = count_list ls From_backend \<and>
    l1_hit_rate e * of_nat (gets ops) = of_nat (count_list ls From_L1) \<and>
    overall_hit_rate e * of_nat (gets ops) = of_nat (count_list ls From_L1 + count_list ls From_L2) \<and>
    0 \<le> l1_hit_rate e \<and> l1_hit_rate e \<le> overall_hit_rate e \<and> overall_hit_rate e \<le> 1)"
proof (rule engine_new_ok [OF assms(1,2), of h64])
  fix K assume inv: "engine_inv h64 K e0"
  let ?ls = "run_levels memory_ops h32 h64 ops e0"
  let ?h = "count_list ?ls From_L1" and ?h2 = "count_list ?ls From_L2" and ?m2 = "count_list ?ls From_backend"
  obtain rs e where run: "engine_run memory_ops h32 h64 ops e0 = Some (rs, e)" and "counted ?ls e" and len: "length ?ls = gets ops"
    using engine_run_counted [OF inv engine_new_counted [OF assms(1,2)], of h32 ops] by (auto simp: oks_iff)
  then have c: "total_hits (en_l1 e) = of_nat ?h" "total_misses (en_l1 e) = of_nat (?h2 + ?m2)"
      "engine_l2_hits e = of_nat ?h2" "engine_l2_misses e = of_nat ?m2" "mb_reads (en_backend e) = of_nat ?m2"
    unfolding counted_def by blast+
  have n: "gets ops = ?h + ?h2 + ?m2" using count_levels [of ?ls] len by simp
  have u: "unat (of_nat k :: u64) = k" if "k \<le> gets ops" for k
    using that assms(3) by (simp add: unsigned_of_nat take_bit_nat_eq_self)
  have all: "unat (total_hits (en_l1 e)) = ?h" "unat (total_hits (en_l1 e) + total_misses (en_l1 e)) = gets ops"
      "unat (total_hits (en_l1 e) + engine_l2_hits e) = ?h + ?h2"
    unfolding c of_nat_add [symmetric] by (subst u, use n in simp, use n in simp)+
  then have zero: "total_hits (en_l1 e) + total_misses (en_l1 e) = 0 \<longleftrightarrow> gets ops = 0" by (metis unat_eq_zero)
  have rates: "l1_hit_rate e = of_nat ?h / of_nat (gets ops)" "overall_hit_rate e = of_nat (?h + ?h2) / of_nat (gets ops)"
    unfolding l1_hit_rate_def overall_hit_rate_def Let_def all zero by simp_all
  have "l1_hit_rate e * of_nat (gets ops) = of_nat ?h \<and> overall_hit_rate e * of_nat (gets ops) = of_nat (?h + ?h2)"
    using n by (cases "gets ops = 0") (simp_all add: rates)
  moreover have "0 \<le> l1_hit_rate e \<and> l1_hit_rate e \<le> overall_hit_rate e" by (simp add: rates divide_right_mono)
  moreover have "?h + ?h2 \<le> gets ops" using n by simp
  then have "overall_hit_rate e \<le> 1" using of_nat_mono [of "?h + ?h2" "gets ops", where 'a = rat] by (auto simp: rates divide_le_eq_1)
  moreover have "unat (total_misses (en_l1 e)) = ?h2 + ?m2" "unat (engine_l2_hits e) = ?h2" "unat (engine_l2_misses e) = ?m2"
      "unat (mb_reads (en_backend e)) = ?m2"
    unfolding c by (rule u; use n in simp)+
  ultimately show ?thesis using len all(1) by (simp add: run Let_def)
qed

theorem engine_statistics_witness:
  "\<exists>e0. engine_new demo_config memory_new = Some (Inr e0) \<and>
    oks (engine_run memory_ops demo_hash demo_hash64 [E_get ''a'', E_put ''a'' ''1'', E_get ''a''] e0) (\<lambda>(_, e).
      length (run_levels memory_ops demo_hash demo_hash64 [E_get ''a'', E_put ''a'' ''1'', E_get ''a''] e0) = 2 \<and>
      unat (mb_reads (en_backend e)) = unat (engine_l2_misses e) \<and> overall_hit_rate e \<le> 1)"
proof -
  obtain e0 where e0: "engine_new demo_config memory_new = Some (Inr e0)" by (rule demo_engine)
  have "gets [E_get ''a'', E_put ''a'' ''1'', E_get ''a''] = 2" by (simp add: gets_def)
  then show ?thesis
    using e0 engine_statistics [OF e0, of "[E_get ''a'', E_put ''a'' ''1'', E_get ''a'']" demo_hash demo_hash64]
    by (intro exI [of _ e0] conjI) (auto elim!: oks_mono simp: Let_def)
qed

end
