(* ===== verification/Latency.thy ===== *)
theory Latency
  imports Prelude Complex_Main
begin

text \<open>
  \<open>include/latency_instrumentation.h\<close>: the breakdown of one operation's time, the log-scale histogram and
  the per-path tracker. An \<open>int64_t\<close> is an integer with its range checked: signed overflow is undefined,
  and \<open><<\<close> follows C++17 (undefined on a negative operand or when the result needs more than 64 bits,
  converted modulo \<open>2 ^ 64\<close> when it only needs the sign bit). The microsecond results are the exact
  rationals of which the code computes the nearest \<open>double\<close>s; \<open>percentile_us(p)\<close> takes the integer
  \<open>static_cast<uint64_t>(p * total_count_)\<close> as its argument \<open>target\<close>.
\<close>

section \<open>Signed arithmetic\<close>

definition i64 :: "int \<Rightarrow> bool" where
  "i64 x \<longleftrightarrow> - (2 ^ 63) \<le> x \<and> x < 2 ^ 63"

definition i64_add :: "int \<Rightarrow> int \<Rightarrow> int option" where
  "i64_add x y = (if i64 (x + y) then Some (x + y) else None)"

definition i64_shl :: "int \<Rightarrow> nat \<Rightarrow> int option" where
  "i64_shl x k =
     (if x < 0 \<or> 2 ^ 64 \<le> x * 2 ^ k then None
      else if x * 2 ^ k < 2 ^ 63 then Some (x * 2 ^ k) else Some (x * 2 ^ k - 2 ^ 64))"

section \<open>The breakdown of one operation\<close>

datatype path = L1_HIT | L2_HIT | BACKEND_HIT | MISS

record breakdown =
  bd_total :: int
  bd_lock_wait :: int
  bd_lookup :: int
  bd_admission :: int
  bd_eviction :: int
  bd_l2 :: int
  bd_backend :: int
  bd_slab :: int
  bd_path :: path

definition breakdown_new :: breakdown where
  "breakdown_new = \<lparr>bd_total = 0, bd_lock_wait = 0, bd_lookup = 0, bd_admission = 0, bd_eviction = 0,
     bd_l2 = 0, bd_backend = 0, bd_slab = 0, bd_path = MISS\<rparr>"

section \<open>The histogram\<close>

record histogram =
  h_counts :: "u64 list"
  h_total_count :: u64
  h_total_sum :: int

definition kNumBuckets :: nat where
  "kNumBuckets = 64"

definition hist_new :: histogram where
  "hist_new = \<lparr>h_counts = replicate kNumBuckets 0, h_total_count = 0, h_total_sum = 0\<rparr>"

function bucket_loop :: "int \<Rightarrow> nat \<Rightarrow> int \<Rightarrow> nat option" where
  "bucket_loop ns bucket threshold =
     (if bucket < kNumBuckets - 1 \<and> ns \<ge> threshold
      then i64_shl threshold 1 \<bind> bucket_loop ns (bucket + 1)
      else Some bucket)"
  by pat_completeness auto
termination by (relation "measure (\<lambda>(ns, bucket, threshold). kNumBuckets - bucket)") auto

declare bucket_loop.simps [simp del]

definition hist_bucket :: "int \<Rightarrow> nat option" where
  "hist_bucket ns = (if ns \<ge> 100 then bucket_loop ns 1 200 else Some 0)"

definition hist_record :: "int \<Rightarrow> histogram \<Rightarrow> histogram option" where
  "hist_record ns h = do {
     bucket \<leftarrow> hist_bucket ns;
     sum \<leftarrow> i64_add (h_total_sum h) ns;
     Some (h\<lparr>h_counts := (h_counts h)[bucket := h_counts h ! bucket + 1],
            h_total_count := h_total_count h + 1, h_total_sum := sum\<rparr>)
   }"

text \<open>The body of the search for the bucket of the \<open>target\<close>-th sample: \<open>Inr\<close> is the \<open>return\<close> inside the loop.\<close>

definition bucket_mid :: "nat \<Rightarrow> rat option" where
  "bucket_mid i =
     (if i = 0 then Some (5 / 100)
      else do {
        lo \<leftarrow> i64_shl 100 (i - 1);
        hi \<leftarrow> i64_shl 100 i;
        sum \<leftarrow> i64_add lo hi;
        Some (rat_of_int sum / 2 / 1000)
      })"

fun percentile_loop :: "u64 \<Rightarrow> u64 list \<Rightarrow> nat \<Rightarrow> u64 \<Rightarrow> rat option" where
  "percentile_loop target [] i cumulative = Some (100 * 2 ^ (kNumBuckets - 2) / 1000)"
| "percentile_loop target (c # cs) i cumulative =
     (let cumulative = cumulative + c
      in if cumulative > target then bucket_mid i else percentile_loop target cs (i + 1) cumulative)"

definition percentile_us :: "u64 \<Rightarrow> histogram \<Rightarrow> rat option" where
  "percentile_us target h =
     (if h_total_count h = 0 then Some 0 else percentile_loop target (h_counts h) 0 0)"

definition mean_us :: "histogram \<Rightarrow> rat" where
  "mean_us h =
     (if h_total_count h = 0 then 0 else rat_of_int (h_total_sum h) / rat_of_nat (unat (h_total_count h)) / 1000)"

definition hist_merge :: "histogram \<Rightarrow> histogram \<Rightarrow> histogram option" where
  "hist_merge other h = do {
     sum \<leftarrow> i64_add (h_total_sum h) (h_total_sum other);
     Some (h\<lparr>h_counts := map2 (+) (h_counts h) (h_counts other),
            h_total_count := h_total_count h + h_total_count other, h_total_sum := sum\<rparr>)
   }"

definition hist_reset :: "histogram \<Rightarrow> histogram" where
  "hist_reset h = h\<lparr>h_counts := replicate kNumBuckets 0, h_total_count := 0, h_total_sum := 0\<rparr>"

section \<open>The tracker\<close>

record tracker =
  tr_total :: histogram
  tr_lock_wait :: histogram
  tr_lookup :: histogram
  tr_admission :: histogram
  tr_eviction :: histogram
  tr_l2 :: histogram
  tr_backend :: histogram
  tr_slab :: histogram
  tr_l1_hit :: histogram
  tr_l2_hit :: histogram
  tr_backend_hit :: histogram
  tr_full_miss :: histogram

definition tracker_new :: tracker where
  "tracker_new = \<lparr>tr_total = hist_new, tr_lock_wait = hist_new, tr_lookup = hist_new, tr_admission = hist_new,
     tr_eviction = hist_new, tr_l2 = hist_new, tr_backend = hist_new, tr_slab = hist_new, tr_l1_hit = hist_new,
     tr_l2_hit = hist_new, tr_backend_hit = hist_new, tr_full_miss = hist_new\<rparr>"

definition record_positive :: "int \<Rightarrow> histogram \<Rightarrow> histogram option" where
  "record_positive ns h = (if ns > 0 then hist_record ns h else Some h)"

definition tracker_record :: "breakdown \<Rightarrow> tracker \<Rightarrow> tracker option" where
  "tracker_record bd t = do {
     total \<leftarrow> hist_record (bd_total bd) (tr_total t);
     lock_wait \<leftarrow> hist_record (bd_lock_wait bd) (tr_lock_wait t);
     lookup \<leftarrow> hist_record (bd_lookup bd) (tr_lookup t);
     slab \<leftarrow> hist_record (bd_slab bd) (tr_slab t);
     admission \<leftarrow> record_positive (bd_admission bd) (tr_admission t);
     eviction \<leftarrow> record_positive (bd_eviction bd) (tr_eviction t);
     l2 \<leftarrow> record_positive (bd_l2 bd) (tr_l2 t);
     backend \<leftarrow> record_positive (bd_backend bd) (tr_backend t);
     let t = t\<lparr>tr_total := total, tr_lock_wait := lock_wait, tr_lookup := lookup, tr_slab := slab,
       tr_admission := admission, tr_eviction := eviction, tr_l2 := l2, tr_backend := backend\<rparr>;
     case bd_path bd of
       L1_HIT \<Rightarrow> map_option (\<lambda>h. t\<lparr>tr_l1_hit := h\<rparr>) (hist_record (bd_total bd) (tr_l1_hit t))
     | L2_HIT \<Rightarrow> map_option (\<lambda>h. t\<lparr>tr_l2_hit := h\<rparr>) (hist_record (bd_total bd) (tr_l2_hit t))
     | BACKEND_HIT \<Rightarrow> map_option (\<lambda>h. t\<lparr>tr_backend_hit := h\<rparr>) (hist_record (bd_total bd) (tr_backend_hit t))
     | MISS \<Rightarrow> map_option (\<lambda>h. t\<lparr>tr_full_miss := h\<rparr>) (hist_record (bd_total bd) (tr_full_miss t))
   }"

definition tracker_merge :: "tracker \<Rightarrow> tracker \<Rightarrow> tracker option" where
  "tracker_merge other t = do {
     total \<leftarrow> hist_merge (tr_total other) (tr_total t);
     lock_wait \<leftarrow> hist_merge (tr_lock_wait other) (tr_lock_wait t);
     lookup \<leftarrow> hist_merge (tr_lookup other) (tr_lookup t);
     admission \<leftarrow> hist_merge (tr_admission other) (tr_admission t);
     eviction \<leftarrow> hist_merge (tr_eviction other) (tr_eviction t);
     l2 \<leftarrow> hist_merge (tr_l2 other) (tr_l2 t);
     backend \<leftarrow> hist_merge (tr_backend other) (tr_backend t);
     slab \<leftarrow> hist_merge (tr_slab other) (tr_slab t);
     l1_hit \<leftarrow> hist_merge (tr_l1_hit other) (tr_l1_hit t);
     l2_hit \<leftarrow> hist_merge (tr_l2_hit other) (tr_l2_hit t);
     backend_hit \<leftarrow> hist_merge (tr_backend_hit other) (tr_backend_hit t);
     full_miss \<leftarrow> hist_merge (tr_full_miss other) (tr_full_miss t);
     Some \<lparr>tr_total = total, tr_lock_wait = lock_wait, tr_lookup = lookup, tr_admission = admission,
       tr_eviction = eviction, tr_l2 = l2, tr_backend = backend, tr_slab = slab, tr_l1_hit = l1_hit,
       tr_l2_hit = l2_hit, tr_backend_hit = backend_hit, tr_full_miss = full_miss\<rparr>
   }"

section \<open>Buckets\<close>

text \<open>Bucket 0 is below 100 ns, bucket \<open>b > 0\<close> from \<open>100 * 2 ^ (b - 1)\<close> to \<open>100 * 2 ^ b\<close>.\<close>

definition in_bucket :: "int \<Rightarrow> nat \<Rightarrow> bool" where
  "in_bucket ns b \<longleftrightarrow> (b = 0 \<or> 100 * 2 ^ (b - 1) \<le> ns) \<and> ns < 100 * 2 ^ b"

lemma i64_shl_small: "0 \<le> x \<Longrightarrow> x * 2 ^ k < 2 ^ 63 \<Longrightarrow> i64_shl x k = Some (x * 2 ^ k)"
  by (simp add: i64_shl_def)

lemma in_bucket_unique: "in_bucket ns a \<Longrightarrow> in_bucket ns b \<Longrightarrow> a = b"
proof (induction a b rule: linorder_wlog)
  case (le a b)
  show ?case
  proof (rule ccontr)
    assume "a \<noteq> b"
    then have "a \<le> b - 1" "b \<noteq> 0" using le by auto
    then have "(100 :: int) * 2 ^ a \<le> 100 * 2 ^ (b - 1)" by (simp add: power_increasing)
    moreover have "ns < 100 * 2 ^ a" "100 * 2 ^ (b - 1) \<le> ns" using le \<open>b \<noteq> 0\<close> unfolding in_bucket_def by auto
    ultimately show False by linarith
  qed
qed auto

lemma bucket_loop_ok:
  assumes "ns < 100 * 2 ^ 56" and "0 < b" and "b \<le> 56" and "100 * 2 ^ (b - 1) \<le> ns"
  shows "\<exists>c. bucket_loop ns b (100 * 2 ^ b) = Some c \<and> c \<le> 56 \<and> in_bucket ns c"
  using assms
proof (induction "56 - b" arbitrary: b)
  case 0
  then have "b = 56" by simp
  then show ?case using 0 by (simp add: bucket_loop.simps in_bucket_def)
next
  case (Suc n)
  show ?case
  proof (cases "100 * 2 ^ b \<le> ns")
    case True
    then have lt: "(100 :: int) * 2 ^ b < 100 * 2 ^ 56" using Suc.prems(1) by simp
    then have b: "b < 56" using power_strict_increasing_iff [of "2 :: int" b 56] by linarith
    have "(2 :: int) ^ b \<le> 2 ^ 55" using b by (intro power_increasing) auto
    then have "i64_shl (100 * 2 ^ b) 1 = Some (100 * 2 ^ (b + 1))" by (subst i64_shl_small) simp_all
    then have "bucket_loop ns b (100 * 2 ^ b) = bucket_loop ns (b + 1) (100 * 2 ^ (b + 1))"
      using True b by (simp add: bucket_loop.simps [of ns b] kNumBuckets_def)
    then show ?thesis using Suc.hyps(1) [of "b + 1"] Suc.hyps(2) Suc.prems(1) b True by simp
  next
    case False
    then show ?thesis
      using Suc.prems by (intro exI [of _ b]) (simp add: bucket_loop.simps [of ns b] in_bucket_def)
  qed
qed

lemma hist_bucket_ok:
  assumes "ns < 100 * 2 ^ 56"
  shows "\<exists>b. hist_bucket ns = Some b \<and> b \<le> 56 \<and> in_bucket ns b"
proof (cases "100 \<le> ns")
  case True
  then show ?thesis using bucket_loop_ok [of ns 1] assms by (simp add: hist_bucket_def)
qed (simp add: hist_bucket_def in_bucket_def)

lemma hist_bucket_iff: "ns < 100 * 2 ^ 56 \<Longrightarrow> hist_bucket ns = Some b \<longleftrightarrow> in_bucket ns b"
  using hist_bucket_ok in_bucket_unique by (metis option.inject)

end
