(* ===== verification/Cache_Stripe_Timed.thy ===== *)
theory Cache_Stripe_Timed
  imports Cache_Stripe Latency
begin

text \<open>
  The instrumented forms of \<open>CacheStripe::get\<close>, \<open>put\<close>, \<open>insert_into_window\<close> and \<open>try_admit_from_window\<close>
  (\<open>bd != nullptr\<close>), which \<open>src/cache_stripe.cpp\<close> writes out a second time. The steady clock is the
  parameter \<open>clk\<close>, the reading of the \<open>n\<close>-th call of \<open>now()\<close> in nanoseconds; a duration is a plain integer
  here (the phases of one operation are far from \<open>2 ^ 63\<close> ns). The theorems say that the two forms agree.
\<close>

type_synonym clock = "nat \<Rightarrow> int"

record timed =
  tm_reads :: nat
  tm_bd :: breakdown

definition now :: "clock \<Rightarrow> timed \<Rightarrow> int \<times> timed" where
  "now clk t = (clk (tm_reads t), t\<lparr>tm_reads := tm_reads t + 1\<rparr>)"

text \<open>A reading, and the store of the time since \<open>start\<close> in a field of the breakdown.\<close>

definition stop :: "clock \<Rightarrow> int \<Rightarrow> (int \<Rightarrow> breakdown \<Rightarrow> breakdown) \<Rightarrow> timed \<Rightarrow> timed" where
  "stop clk start upd t = (let (end, t) = now clk t in t\<lparr>tm_bd := upd (end - start) (tm_bd t)\<rparr>)"

definition set_lock_wait :: "int \<Rightarrow> breakdown \<Rightarrow> breakdown" where
  "set_lock_wait ns bd = bd\<lparr>bd_lock_wait := ns\<rparr>"

definition set_lookup :: "int \<Rightarrow> breakdown \<Rightarrow> breakdown" where
  "set_lookup ns bd = bd\<lparr>bd_lookup := ns\<rparr>"

definition set_slab :: "int \<Rightarrow> breakdown \<Rightarrow> breakdown" where
  "set_slab ns bd = bd\<lparr>bd_slab := ns\<rparr>"

definition add_admission :: "int \<Rightarrow> breakdown \<Rightarrow> breakdown" where
  "add_admission ns bd = bd\<lparr>bd_admission := bd_admission bd + ns\<rparr>"

definition add_eviction :: "int \<Rightarrow> breakdown \<Rightarrow> breakdown" where
  "add_eviction ns bd = bd\<lparr>bd_eviction := bd_eviction bd + ns\<rparr>"

definition stripe_get_timed :: "hash32 \<Rightarrow> clock \<Rightarrow> string \<Rightarrow> shard \<Rightarrow> timed \<Rightarrow> (string option \<times> shard \<times> timed) option" where
  "stripe_get_timed h32 clk key v t = do {
     let (lock_start, t) = now clk t;
     let t = stop clk lock_start set_lock_wait t;
     let (lookup_start, t) = now clk t;
     case st_index_map (sh_stripe v) key of
       None \<Rightarrow>
         let v = upd_stripe (\<lambda>st. st\<lparr>st_misses := st_misses st + 1\<rparr>) v
         in Some (None, v, stop clk lookup_start set_lookup t)
     | Some idx \<Rightarrow> do {
         v \<leftarrow> count_access h32 key v;
         v \<leftarrow> touch idx v;
         let t = stop clk lookup_start set_lookup t;
         let v = upd_stripe (\<lambda>st. st\<lparr>st_hits := st_hits st + 1\<rparr>) v;
         node \<leftarrow> shard_node v idx;
         Some (Some (n_value node), v, t)
       }
   }"

definition try_admit_timed :: "hash32 \<Rightarrow> clock \<Rightarrow> shard \<Rightarrow> timed \<Rightarrow> (shard \<times> timed) option" where
  "try_admit_timed h32 clk v t = do {
     (candidate_idx, v) \<leftarrow> pop_lru Win v;
     if candidate_idx = kInvalidIndex then Some (v, t)
     else do {
       candidate \<leftarrow> shard_node v candidate_idx;
       let main_size = lru_size_of Prob v + lru_size_of Prot v;
       if main_size < st_main_capacity (sh_stripe v)
       then do { v \<leftarrow> admit_candidate candidate_idx v; Some (v, t) }
       else if lru_empty (st_probation (sh_stripe v))
       then do { v \<leftarrow> reject_candidate candidate_idx candidate v; Some (v, t) }
       else do {
         let (admit_start, t) = now clk t;
         let victim_idx = lru_peek_back (st_probation (sh_stripe v));
         victim \<leftarrow> shard_node v victim_idx;
         candidate_freq \<leftarrow> cms_estimate h32 (st_cms (sh_stripe v)) (n_key candidate);
         victim_freq \<leftarrow> cms_estimate h32 (st_cms (sh_stripe v)) (n_key victim);
         let t = stop clk admit_start add_admission t;
         if candidate_freq > victim_freq
         then do {
           let (evict_start, t) = now clk t;
           (_, v) \<leftarrow> pop_lru Prob v;
           v \<leftarrow> demote_victim h32 victim_idx v;
           v \<leftarrow> set_segment candidate_idx Probation v;
           v \<leftarrow> on_lru Prob (lru_push_front candidate_idx) v;
           let t = stop clk evict_start add_eviction t;
           Some (upd_stripe (\<lambda>st. st\<lparr>st_admissions := st_admissions st + 1\<rparr>) v, t)
         }
         else do { v \<leftarrow> reject_candidate candidate_idx candidate v; Some (v, t) }
       }
     }
   }"

partial_function (option) admit_loop_timed :: "hash32 \<Rightarrow> clock \<Rightarrow> shard \<times> timed \<Rightarrow> (shard \<times> timed) option" where
  "admit_loop_timed h32 clk s =
     (if lru_size_of Win (fst s) > st_window_capacity (sh_stripe (fst s))
      then try_admit_timed h32 clk (fst s) (snd s) \<bind> admit_loop_timed h32 clk
      else Some s)"

definition insert_into_window_timed :: "hash32 \<Rightarrow> clock \<Rightarrow> u32 \<Rightarrow> shard \<Rightarrow> timed \<Rightarrow> (shard \<times> timed) option" where
  "insert_into_window_timed h32 clk idx v t = do {
     v \<leftarrow> on_lru Win (lru_push_front idx) v;
     admit_loop_timed h32 clk (v, t)
   }"

definition stripe_put_timed :: "hash32 \<Rightarrow> clock \<Rightarrow> string \<Rightarrow> string \<Rightarrow> shard \<Rightarrow> timed \<Rightarrow> (bool \<times> shard \<times> timed) option" where
  "stripe_put_timed h32 clk key val v t = do {
     let (lock_start, t) = now clk t;
     let t = stop clk lock_start set_lock_wait t;
     v \<leftarrow> count_access h32 key v;
     let v = maybe_decay_cms v;
     let (lookup_start, t) = now clk t;
     case st_index_map (sh_stripe v) key of
       Some idx \<Rightarrow> do {
         s \<leftarrow> slab_modify idx (\<lambda>n. n\<lparr>n_value := val\<rparr>) (sh_slab v);
         v \<leftarrow> touch idx (v\<lparr>sh_slab := s\<rparr>);
         Some (False, v, stop clk lookup_start set_lookup t)
       }
     | None \<Rightarrow> do {
         let t = stop clk lookup_start set_lookup t;
         let (slab_start, t) = now clk t;
         (idx, s) \<leftarrow> slab_allocate (sh_slab v);
         let t = stop clk slab_start set_slab t;
         if idx = kInvalidIndex then Some (False, v\<lparr>sh_slab := s\<rparr>, t)
         else do {
           s \<leftarrow> slab_modify idx (fill_node key val) s;
           let v = upd_stripe (\<lambda>st. st\<lparr>st_index_map := (st_index_map st)(key \<mapsto> idx)\<rparr>) (v\<lparr>sh_slab := s\<rparr>);
           (v, t) \<leftarrow> insert_into_window_timed h32 clk idx v t;
           Some (True, v, t)
         }
       }
   }"

section \<open>The two forms agree\<close>

lemma map_option_bind: "map_option f (m \<bind> g) = m \<bind> (\<lambda>x. map_option f (g x))"
  by (cases m) simp_all

lemma bind_cong_fun: "(\<And>x. m = Some x \<Longrightarrow> f x = g x) \<Longrightarrow> m \<bind> f = m \<bind> g"
  by (cases m) simp_all

lemma try_admit_timed_agrees: "map_option fst (try_admit_timed h32 clk v t) = try_admit_from_window h32 v"
  unfolding try_admit_timed_def try_admit_from_window_def
  by (auto simp: map_option_bind admit_candidate_def Let_def case_prod_beta intro!: bind_cong_fun)

lemma admit_loop_timed_sound: "admit_loop_timed h32 clk s = Some s' \<Longrightarrow> admit_loop h32 (fst s) = Some (fst s')"
proof (induction h32 clk s s' rule: admit_loop_timed.raw_induct [rotated, consumes 1])
  case (1 loop h32 clk s s')
  show ?case
  proof (cases "lru_size_of Win (fst s) > st_window_capacity (sh_stripe (fst s))")
    case True
    then obtain s1 where s1: "try_admit_timed h32 clk (fst s) (snd s) = Some s1" "loop h32 clk s1 = Some s'"
      using 1(2) by (auto split: bind_splits)
    then show ?thesis
      using 1(1) [OF s1(2)] try_admit_timed_agrees [of h32 clk "fst s" "snd s", symmetric] True
      by (simp add: admit_loop.simps [of h32 "fst s"])
  next
    case False
    then show ?thesis using 1(2) by (subst admit_loop.simps) simp
  qed
qed

lemma admit_loop_timed_complete:
  "admit_loop h32 v = Some v' \<Longrightarrow> \<exists>t'. admit_loop_timed h32 clk (v, t) = Some (v', t')"
proof (induction h32 v v' arbitrary: t rule: admit_loop.raw_induct [rotated, consumes 1])
  case (1 loop h32 v v')
  show ?case
  proof (cases "lru_size_of Win v > st_window_capacity (sh_stripe v)")
    case True
    then obtain v1 where v1: "try_admit_from_window h32 v = Some v1" "loop h32 v1 = Some v'"
      using 1(2) by (auto split: bind_splits)
    then obtain t1 where "try_admit_timed h32 clk v t = Some (v1, t1)"
      using try_admit_timed_agrees [of h32 clk v t] by (auto simp: map_option_eq_Some)
    then show ?thesis
      using 1(1) [OF v1(2), of t1] True by (simp add: admit_loop_timed.simps [of h32 clk "(v, t)"])
  next
    case False
    then show ?thesis using 1(2) by (subst admit_loop_timed.simps) simp
  qed
qed

lemma admit_loop_timed_agrees: "map_option fst (admit_loop_timed h32 clk (v, t)) = admit_loop h32 v"
proof (cases "admit_loop h32 v")
  case None
  then show ?thesis using admit_loop_timed_sound [of h32 clk "(v, t)"] by (cases "admit_loop_timed h32 clk (v, t)") auto
next
  case (Some v')
  then show ?thesis using admit_loop_timed_complete [OF Some, of clk t] by auto
qed

lemma insert_timed_agrees: "map_option fst (insert_into_window_timed h32 clk idx v t) = insert_into_window h32 idx v"
  by (simp add: insert_into_window_timed_def insert_into_window_def map_option_bind admit_loop_timed_agrees)

lemma stop_reads [simp]: "tm_reads (stop clk s upd t) = tm_reads t + 1" "tm_bd (stop clk s upd t) = upd (clk (tm_reads t) - s) (tm_bd t)"
  by (simp_all add: stop_def now_def)

lemma stripe_get_untimed:
  "map_option (\<lambda>(r, v, t). (r, v)) (stripe_get_timed h32 clk key v t) = stripe_get h32 key v"
  by (cases "st_index_map (sh_stripe v) key")
    (simp_all add: stripe_get_timed_def stripe_get_def now_def map_option_bind Let_def)

lemma stripe_put_untimed:
  "map_option (\<lambda>(r, v, t). (r, v)) (stripe_put_timed h32 clk key val v t) = stripe_put h32 key val v"
proof -
  have ins: "insert_into_window_timed h32 clk idx w u \<bind> (\<lambda>x. Some (True, fst x)) =
      insert_into_window h32 idx w \<bind> (\<lambda>v. Some (True, v))" for idx w u
    unfolding insert_timed_agrees [of h32 clk idx w u, symmetric]
    by (cases "insert_into_window_timed h32 clk idx w u") simp_all
  show ?thesis
    unfolding stripe_put_timed_def stripe_put_def
    by (auto simp: map_option_bind put_existing_def put_new_def ins Let_def case_prod_beta now_def
        split: option.split intro!: bind_cong_fun)
qed

section \<open>What is measured\<close>

text \<open>The admission loop only changes the admission and eviction times.\<close>

abbreviation clear_times :: "breakdown \<Rightarrow> breakdown" where
  "clear_times bd \<equiv> bd\<lparr>bd_slab := 0, bd_admission := 0, bd_eviction := 0\<rparr>"

lemma try_admit_times:
  "try_admit_timed h32 clk v t = Some (v', t') \<Longrightarrow> clear_times (tm_bd t') = clear_times (tm_bd t)"
  unfolding try_admit_timed_def
  by (auto simp: Let_def now_def add_admission_def add_eviction_def case_prod_beta split: Option.bind_splits if_splits)

lemma admit_loop_times:
  "admit_loop_timed h32 clk s = Some s' \<Longrightarrow> clear_times (tm_bd (snd s')) = clear_times (tm_bd (snd s))"
proof (induction h32 clk s s' rule: admit_loop_timed.raw_induct [rotated, consumes 1])
  case (1 loop h32 clk s s')
  show ?case
  proof (cases "lru_size_of Win (fst s) > st_window_capacity (sh_stripe (fst s))")
    case True
    then obtain s1 where s1: "try_admit_timed h32 clk (fst s) (snd s) = Some s1" "loop h32 clk s1 = Some s'"
      using 1(2) by (auto split: Option.bind_splits)
    then show ?thesis using 1(1) [OF s1(2)] try_admit_times [of h32 clk "fst s" "snd s" "fst s1" "snd s1"] by simp
  qed (use 1(2) in simp)
qed

lemma stripe_get_times:
  "stripe_get_timed h32 clk key v t = Some (r, v', t') \<Longrightarrow>
     tm_bd t' = (tm_bd t)\<lparr>bd_lock_wait := clk (tm_reads t + 1) - clk (tm_reads t),
                          bd_lookup := clk (tm_reads t + 3) - clk (tm_reads t + 2)\<rparr>"
  unfolding stripe_get_timed_def
  by (auto simp: now_def set_lock_wait_def set_lookup_def Let_def eval_nat_numeral
      split: Option.bind_splits option.splits)

lemma stripe_put_times:
  assumes "stripe_put_timed h32 clk key val v t = Some (r, v', t')"
  shows "clear_times (tm_bd t') = clear_times ((tm_bd t)\<lparr>bd_lock_wait := clk (tm_reads t + 1) - clk (tm_reads t),
           bd_lookup := clk (tm_reads t + 3) - clk (tm_reads t + 2)\<rparr>)"
  using assms unfolding stripe_put_timed_def insert_into_window_timed_def
  by (auto simp: Let_def now_def set_lock_wait_def set_lookup_def set_slab_def case_prod_beta eval_nat_numeral
      split: Option.bind_splits if_splits option.splits dest!: admit_loop_times)

text \<open>Measuring a stripe changes nothing but the measurement. The instrumented get and put are a second
  copy of the code, down to the admission gate: they answer and store exactly what the plain ones do,
  whatever the clock reads. Both fill in the lock and lookup times from consecutive readings, a get nothing
  else, and a put at most the slab, admission and eviction times besides.\<close>

theorem stripe_timed_agrees:
  "map_option (\<lambda>(r, v, t). (r, v)) (stripe_get_timed h32 clk key v t) = stripe_get h32 key v \<and>
   map_option (\<lambda>(r, v, t). (r, v)) (stripe_put_timed h32 clk key val v t) = stripe_put h32 key val v \<and>
   (let measured = (tm_bd t)\<lparr>bd_lock_wait := clk (tm_reads t + 1) - clk (tm_reads t),
                             bd_lookup := clk (tm_reads t + 3) - clk (tm_reads t + 2)\<rparr>
    in pred_option (\<lambda>(r, v', t'). tm_bd t' = measured) (stripe_get_timed h32 clk key v t) \<and>
       pred_option (\<lambda>(r, v', t'). tm_bd t' = measured\<lparr>bd_slab := bd_slab (tm_bd t'),
           bd_admission := bd_admission (tm_bd t'), bd_eviction := bd_eviction (tm_bd t')\<rparr>)
         (stripe_put_timed h32 clk key val v t))"
proof -
  have clear: "clear_times a = clear_times b \<Longrightarrow>
      a = b\<lparr>bd_slab := bd_slab a, bd_admission := bd_admission a, bd_eviction := bd_eviction a\<rparr>" for a b :: breakdown
    by (cases a; cases b) simp
  show ?thesis
    using stripe_get_times [of h32 clk key v t] clear [OF stripe_put_times [of h32 clk key val v t]]
    by (auto simp: stripe_get_untimed stripe_put_untimed Let_def pred_option_def elem_set)
qed

end
