(* ===== verification/Engine_Timed.thy ===== *)
theory Engine_Timed
  imports Cache_Engine Cache_Stripe_Timed
begin

text \<open>
  The instrumented forms of \<open>CacheEngine::get\<close>, \<open>put\<close> and \<open>l2_get\<close> (\<open>bd != nullptr\<close>), over those of the
  stripes. They agree with the plain forms, and the path they report is the level that answered.
\<close>

section \<open>The instrumented code\<close>

definition with_stripe_timed ::
    "u32 \<Rightarrow> (shard \<Rightarrow> timed \<Rightarrow> ('r \<times> shard \<times> timed) option) \<Rightarrow> scache \<Rightarrow> timed \<Rightarrow> ('r \<times> scache \<times> timed) option" where
  "with_stripe_timed i f c t = do {
     ((r, t), c) \<leftarrow> with_stripe i (\<lambda>v. do { (r, v, t) \<leftarrow> f v t; Some ((r, t), v) }) c;
     Some (r, c, t)
   }"

definition sc_get_timed :: "hash32 \<Rightarrow> hash64 \<Rightarrow> clock \<Rightarrow> string \<Rightarrow> scache \<Rightarrow> timed \<Rightarrow> (string option \<times> scache \<times> timed) option" where
  "sc_get_timed h32 h64 clk key = with_stripe_timed (route h64 key) (stripe_get_timed h32 clk key)"

definition sc_put_timed :: "hash32 \<Rightarrow> hash64 \<Rightarrow> clock \<Rightarrow> string \<Rightarrow> string \<Rightarrow> scache \<Rightarrow> timed \<Rightarrow> (bool \<times> scache \<times> timed) option" where
  "sc_put_timed h32 h64 clk key val = with_stripe_timed (route h64 key) (stripe_put_timed h32 clk key val)"

definition set_l2 :: "int \<Rightarrow> breakdown \<Rightarrow> breakdown" where
  "set_l2 ns bd = bd\<lparr>bd_l2 := ns\<rparr>"

definition set_backend :: "int \<Rightarrow> breakdown \<Rightarrow> breakdown" where
  "set_backend ns bd = bd\<lparr>bd_backend := ns\<rparr>"

definition set_path :: "path \<Rightarrow> timed \<Rightarrow> timed" where
  "set_path p t = t\<lparr>tm_bd := (tm_bd t)\<lparr>bd_path := p\<rparr>\<rparr>"

text \<open>\<open>l2_get\<close> with its \<open>l2_ns\<close>, which the caller stores in the breakdown.\<close>

definition l2_get_timed :: "hash64 \<Rightarrow> clock \<Rightarrow> string \<Rightarrow> 'b engine \<Rightarrow> timed \<Rightarrow> (string option \<times> 'b engine \<times> timed) option" where
  "l2_get_timed h64 clk key e t = do {
     let (start, t) = now clk t;
     (r, e) \<leftarrow> with_l2 (l2_index h64 key) (l2_stripe_get key) e;
     Some (r, e, stop clk start set_l2 t)
   }"

definition l1_put_timed :: "hash32 \<Rightarrow> hash64 \<Rightarrow> clock \<Rightarrow> string \<Rightarrow> string \<Rightarrow> 'b engine \<Rightarrow> timed \<Rightarrow> (bool \<times> 'b engine \<times> timed) option" where
  "l1_put_timed h32 h64 clk key val e t = do {
     (r, l1, t) \<leftarrow> sc_put_timed h32 h64 clk key val (en_l1 e) t;
     Some (r, e\<lparr>en_l1 := l1\<rparr>, t)
   }"

definition engine_get_timed ::
    "'b backend \<Rightarrow> hash32 \<Rightarrow> hash64 \<Rightarrow> clock \<Rightarrow> string \<Rightarrow> 'b engine \<Rightarrow> timed \<Rightarrow> (string option \<times> 'b engine \<times> timed) option" where
  "engine_get_timed B h32 h64 clk key e t = do {
     (l1_result, l1, t) \<leftarrow> sc_get_timed h32 h64 clk key (en_l1 e) t;
     let e = e\<lparr>en_l1 := l1\<rparr>;
     case l1_result of
       Some val \<Rightarrow> Some (Some val, e, set_path L1_HIT t)
     | None \<Rightarrow> do {
         (l2_result, e, t) \<leftarrow> l2_get_timed h64 clk key e t;
         case l2_result of
           Some val \<Rightarrow> do {
             (_, e, t) \<leftarrow> l1_put_timed h32 h64 clk key val e (set_path L2_HIT t);
             Some (Some val, e, t)
           }
         | None \<Rightarrow>
             let (backend_start, t) = now clk t;
                 (backend_result, b) = bk_get B key (en_backend e); e = e\<lparr>en_backend := b\<rparr>;
                 t = stop clk backend_start set_backend t
             in case backend_result of
                  Some val \<Rightarrow> do {
                    (_, e, t) \<leftarrow> l1_put_timed h32 h64 clk key val e (set_path BACKEND_HIT t);
                    Some (Some val, e, t)
                  }
                | None \<Rightarrow> Some (None, e, set_path MISS t)
       }
   }"

definition engine_put_timed ::
    "'b backend \<Rightarrow> hash32 \<Rightarrow> hash64 \<Rightarrow> clock \<Rightarrow> string \<Rightarrow> string \<Rightarrow> 'b engine \<Rightarrow> timed \<Rightarrow> (bool \<times> 'b engine \<times> timed) option" where
  "engine_put_timed B h32 h64 clk key val e t =
     (let (_, b) = bk_put B key val (en_backend e) in l1_put_timed h32 h64 clk key val (e\<lparr>en_backend := b\<rparr>) t)"

section \<open>Agreement\<close>

abbreviation untimed :: "('r \<times> 's \<times> timed) option \<Rightarrow> ('r \<times> 's) option" where
  "untimed \<equiv> map_option (\<lambda>(r, s, t). (r, s))"

lemma untimed_cases:
  assumes "untimed m = p"
  obtains "m = None" "p = None" | r s t where "m = Some (r, s, t)" "p = Some (r, s)"
  using assms by (cases m) auto

lemma with_stripe_timed_agrees:
  assumes "\<And>v. untimed (f v t) = g v" shows "untimed (with_stripe_timed i f c t) = with_stripe i g c"
  unfolding with_stripe_timed_def with_stripe_def assms [symmetric]
  by (auto simp: map_option_bind case_prod_beta split: Option.bind_splits)

lemma sc_get_timed_agrees: "untimed (sc_get_timed h32 h64 clk key c t) = sc_get h32 h64 key c"
  unfolding sc_get_timed_def sc_get_def by (rule with_stripe_timed_agrees) (rule stripe_get_untimed)

lemma sc_put_timed_agrees: "untimed (sc_put_timed h32 h64 clk key val c t) = sc_put h32 h64 key val c"
  unfolding sc_put_timed_def sc_put_def by (rule with_stripe_timed_agrees) (rule stripe_put_untimed)

lemma l2_get_timed_agrees: "untimed (l2_get_timed h64 clk key e t) = l2_get h64 key e"
  by (simp add: l2_get_timed_def l2_get_def now_def case_prod_beta map_option_bind)

lemma l1_put_timed_agrees: "untimed (l1_put_timed h32 h64 clk key val e t) = l1_put h32 h64 key val e"
  unfolding l1_put_timed_def l1_put_def sc_put_timed_agrees [of h32 h64 clk key val _ t, symmetric]
  by (cases "sc_put_timed h32 h64 clk key val (en_l1 e) t") auto

lemma l1_put_timed_answer:
  "untimed (l1_put_timed h32 h64 clk key val e t \<bind> (\<lambda>(_, e, t). Some (r, e, t))) =
     l1_put h32 h64 key val e \<bind> (\<lambda>(_, e). Some (r, e))"
  unfolding l1_put_timed_agrees [of h32 h64 clk key val e t, symmetric]
  by (cases "l1_put_timed h32 h64 clk key val e t") auto

text \<open>The stripes keep the path field; only \<open>engine_get_timed\<close> sets it.\<close>

lemma stripe_put_path:
  assumes "stripe_put_timed h32 clk key val v t = Some (r, v', t')" shows "bd_path (tm_bd t') = bd_path (tm_bd t)"
  using arg_cong [OF stripe_put_times [OF assms], of bd_path] by simp

lemma l1_put_timed_path:
  "l1_put_timed h32 h64 clk key val e t = Some (r, e', t') \<Longrightarrow>
     bd_path (tm_bd t') = bd_path (tm_bd t) \<and> en_l2 e' = en_l2 e \<and> en_backend e' = en_backend e"
  unfolding l1_put_timed_def sc_put_timed_def with_stripe_timed_def with_stripe_def
  by (auto simp: case_prod_beta split: Option.bind_splits dest: stripe_put_path)

lemma l2_get_timed_frame:
  "l2_get_timed h64 clk key e t = Some (r, e', t') \<Longrightarrow> en_backend e' = en_backend e"
  unfolding l2_get_timed_def with_l2_def by (auto simp: case_prod_beta split: Option.bind_splits if_splits)

lemma engine_get_untimed: "untimed (engine_get_timed B h32 h64 clk key e t) = engine_get B h32 h64 key e"
proof -
  note get_defs = engine_get_timed_def engine_get_def Let_def now_def case_prod_beta
  show ?thesis
  proof (cases rule: untimed_cases [OF sc_get_timed_agrees [of h32 h64 clk key "en_l1 e" t]])
    case 1
    then show ?thesis by (simp add: get_defs)
  next
    case (2 r l1 t1)
    show ?thesis
    proof (cases r)
      case (Some val)
      then show ?thesis using 2 by (simp add: get_defs)
    next
      case None
      show ?thesis
        using 2 None
        by (cases rule: untimed_cases [OF l2_get_timed_agrees [of h64 clk key "e\<lparr>en_l1 := l1\<rparr>" t1]])
          (auto simp: get_defs l1_put_timed_answer split: option.split)
    qed
  qed
qed

lemma engine_put_untimed: "untimed (engine_put_timed B h32 h64 clk key val e t) = engine_put B h32 h64 key val e"
  by (simp add: engine_put_timed_def engine_put_def l1_put_timed_agrees case_prod_beta)

section \<open>Properties\<close>

text \<open>C34. Measuring changes nothing but the measurement, through the whole engine: get and put with a
  breakdown answer and store exactly what they do without one.\<close>

theorem engine_timed_agrees:
  "untimed (engine_get_timed B h32 h64 clk key e t) = engine_get B h32 h64 key e \<and>
   untimed (engine_put_timed B h32 h64 clk key val e t) = engine_put B h32 h64 key val e"
  by (simp add: engine_get_untimed engine_put_untimed)

text \<open>The path a measured get reports is the level that answered: an L1 hit touches neither L2 nor
  the backend, an L2 hit not the backend, and a miss means that no level has the key.\<close>

theorem engine_get_path:
  "case engine_get_timed B h32 h64 clk key e t of None \<Rightarrow> True | Some (r, e', t') \<Rightarrow>
     (case bd_path (tm_bd t') of
        L1_HIT \<Rightarrow> r \<noteq> None \<and> en_l2 e' = en_l2 e \<and> en_backend e' = en_backend e
      | L2_HIT \<Rightarrow> r \<noteq> None \<and> en_backend e' = en_backend e
      | BACKEND_HIT \<Rightarrow> r \<noteq> None \<and> (r, en_backend e') = bk_get B key (en_backend e)
      | MISS \<Rightarrow> r = None \<and> (r, en_backend e') = bk_get B key (en_backend e))"
proof (cases "engine_get_timed B h32 h64 clk key e t")
  case (Some x)
  then obtain r e' t' where "engine_get_timed B h32 h64 clk key e t = Some (r, e', t')" by (cases x) auto
  then show ?thesis
    unfolding engine_get_timed_def
    by (auto simp: Let_def now_def case_prod_beta set_path_def prod_eq_iff split: Option.bind_splits option.splits
        dest!: l1_put_timed_path l2_get_timed_frame dest: sym [of "Some _"])
qed simp

end
