(* ===== verification/Latency_Props.thy ===== *)
theory Latency_Props
  imports Latency
begin

text \<open>
  What the latency histogram and tracker compute: where a sample is counted, that merging per-thread
  histograms equals recording everything in one, and that the reported percentile is the midpoint of the
  bucket that holds that order statistic.
\<close>

section \<open>A histogram of a list of samples\<close>

definition bucket_of :: "int \<Rightarrow> nat" where
  "bucket_of ns = the (hist_bucket ns)"

definition below :: "nat \<Rightarrow> int list \<Rightarrow> nat" where
  "below b xs = length (filter (\<lambda>x. bucket_of x < b) xs)"

definition hist_of :: "int list \<Rightarrow> histogram" where
  "hist_of xs = \<lparr>h_counts = map (\<lambda>b. of_nat (length (filter (\<lambda>x. bucket_of x = b) xs))) [0..<kNumBuckets],
     h_total_count = of_nat (length xs), h_total_sum = sum_list xs\<rparr>"

abbreviation samples :: "int list \<Rightarrow> bool" where
  "samples xs \<equiv> (\<forall>x \<in> set xs. 0 \<le> x \<and> x < 100 * 2 ^ 56) \<and> sum_list xs < 2 ^ 63"

lemma bucket_of_ok: "x < 100 * 2 ^ 56 \<Longrightarrow> hist_bucket x = Some (bucket_of x) \<and> bucket_of x < kNumBuckets \<and> in_bucket x (bucket_of x)"
  using hist_bucket_ok [of x] by (auto simp: bucket_of_def kNumBuckets_def)

lemma sum_list_nonneg_int: "(\<And>x. x \<in> set xs \<Longrightarrow> 0 \<le> x) \<Longrightarrow> (0 :: int) \<le> sum_list xs"
  by (induction xs) auto

lemma hist_of_snoc:
  assumes "samples (xs @ [x])"
  shows "hist_record x (hist_of xs) = Some (hist_of (xs @ [x]))" and "samples xs"
proof -
  have x: "0 \<le> x" "x < 100 * 2 ^ 56" using assms by auto
  have pos: "0 \<le> sum_list xs" using assms by (intro sum_list_nonneg_int) auto
  show "samples xs" using assms x by auto
  have "i64 (sum_list xs + x)" using assms pos x by (simp add: i64_def)
  moreover have "(map f [0..<kNumBuckets])[bucket_of x := (map f [0..<kNumBuckets] ! bucket_of x :: u64) + 1] =
      map (\<lambda>b. of_nat (length (filter (\<lambda>y. bucket_of y = b) (xs @ [x])))) [0..<kNumBuckets]"
    if "f = (\<lambda>b. of_nat (length (filter (\<lambda>y. bucket_of y = b) xs)))" for f
    using bucket_of_ok [OF x(2)] that by (intro nth_equalityI) (auto simp: nth_list_update)
  ultimately show "hist_record x (hist_of xs) = Some (hist_of (xs @ [x]))"
    using bucket_of_ok [OF x(2)] by (simp add: hist_record_def hist_of_def i64_add_def ac_simps)
qed

lemma hist_of_Nil: "hist_of [] = hist_new"
  by (simp add: hist_of_def hist_new_def map_replicate_const)

lemma record_all: "samples xs \<Longrightarrow> ofold hist_record xs hist_new = Some (hist_of xs)"
proof (induction xs rule: rev_induct)
  case (snoc x xs)
  note s = hist_of_snoc [OF snoc.prems]
  show ?case using snoc.IH [OF s(2)] s(1) by simp
qed (simp add: hist_of_Nil)

section \<open>Order statistics\<close>

lemma bucket_of_mono:
  assumes "x \<le> y" and "y < 100 * 2 ^ 56" shows "bucket_of x \<le> bucket_of y"
proof (rule ccontr)
  assume "\<not> bucket_of x \<le> bucket_of y"
  then have le: "bucket_of y \<le> bucket_of x - 1" and ne: "bucket_of x \<noteq> 0" by auto
  have "in_bucket x (bucket_of x)" "in_bucket y (bucket_of y)" using bucket_of_ok assms by auto
  then have "100 * 2 ^ (bucket_of x - 1) \<le> x" "y < 100 * 2 ^ bucket_of y" using ne unfolding in_bucket_def by auto
  moreover have "(100 :: int) * 2 ^ bucket_of y \<le> 100 * 2 ^ (bucket_of x - 1)" using le by (simp add: power_increasing)
  ultimately show False using assms(1) by linarith
qed

lemma below_Suc: "below (Suc b) xs = below b xs + length (filter (\<lambda>x. bucket_of x = b) xs)"
  by (induction xs) (auto simp: below_def less_Suc_eq)

lemma below_mono: "a \<le> b \<Longrightarrow> below a xs \<le> below b xs"
  by (induction rule: dec_induct) (simp_all add: below_Suc)

lemma below_length: "below b xs \<le> length xs"
  by (simp add: below_def)

lemma below_sort: "below b (sort xs) = below b xs"
  by (simp add: below_def filter_sort)

lemma below_card: "below b xs = card {j. j < length xs \<and> bucket_of (xs ! j) < b}"
  by (simp add: below_def length_filter_conv_card)

lemma below_rank:
  assumes xs: "\<forall>x \<in> set xs. x < 100 * 2 ^ 56" and t: "t < length xs"
  defines "b \<equiv> bucket_of (sort xs ! t)"
  shows "below b xs \<le> t" and "t < below (Suc b) xs"
proof -
  let ?ys = "sort xs"
  have lim: "?ys ! j < 100 * 2 ^ 56" if "j < length xs" for j using xs that by (metis length_sort nth_mem set_sort)
  have mono: "bucket_of (?ys ! i) \<le> bucket_of (?ys ! j)" if "i \<le> j" "j < length xs" for i j
    using that lim [OF that(2)] by (intro bucket_of_mono sorted_nth_mono) auto
  have "{j. j < length ?ys \<and> bucket_of (?ys ! j) < b} \<subseteq> {..<t}"
  proof
    fix j assume j: "j \<in> {j. j < length ?ys \<and> bucket_of (?ys ! j) < b}"
    show "j \<in> {..<t}"
    proof (rule ccontr)
      assume "j \<notin> {..<t}"
      then have "b \<le> bucket_of (?ys ! j)" using j mono [of t j] by (simp add: b_def)
      then show False using j by simp
    qed
  qed
  then have "card {j. j < length ?ys \<and> bucket_of (?ys ! j) < b} \<le> t" using card_mono [of "{..<t}"] by force
  then show "below b xs \<le> t" using below_card [of b ?ys] by (simp only: below_sort)
  have "{..t} \<subseteq> {j. j < length ?ys \<and> bucket_of (?ys ! j) < Suc b}"
    using t mono [of _ t] by (auto simp: b_def less_Suc_eq_le)
  then have "card {..t} \<le> card {j. j < length ?ys \<and> bucket_of (?ys ! j) < Suc b}" by (intro card_mono) auto
  then show "t < below (Suc b) xs" using below_card [of "Suc b" ?ys] by (simp only: below_sort) simp
qed

lemma percentile_loop_ok:
  assumes "below b xs \<le> unat target" and "unat target < below (Suc b) xs" and "length xs < 2 ^ 64"
    and "i \<le> b" and "b < n"
  shows "percentile_loop target (map (\<lambda>b. of_nat (length (filter (\<lambda>x. bucket_of x = b) xs))) [i..<n]) i (of_nat (below i xs)) =
    bucket_mid b"
  using assms(4)
proof (induction "b - i" arbitrary: i)
  case 0
  then have "i = b" by simp
  moreover have "(of_nat (below (Suc b) xs) :: u64) > target"
    using assms(2,3) below_length [of "Suc b" xs] by (simp add: word_less_nat_alt unsigned_of_nat take_bit_nat_eq_self)
  ultimately show ?case
    using assms(5) by (simp add: upt_conv_Cons below_Suc [symmetric] Let_def flip: of_nat_add)
next
  case (Suc d)
  then have lt: "i < b" by simp
  have "below (Suc i) xs \<le> unat target" using below_mono [of "Suc i" b xs] lt assms(1) by simp
  then have "\<not> (of_nat (below (Suc i) xs) :: u64) > target"
    using assms(3) below_length [of "Suc i" xs] by (simp add: word_less_nat_alt unsigned_of_nat take_bit_nat_eq_self)
  then show ?case
    using Suc.hyps(1) [of "Suc i"] Suc.hyps(2) lt assms(5)
    by (simp add: upt_conv_Cons below_Suc [symmetric] Let_def flip: of_nat_add)
qed

lemma bucket_mid_ok:
  assumes "b \<le> 55" and "b \<noteq> 0"
  shows "bucket_mid b = Some (rat_of_int (100 * 2 ^ (b - 1) + 100 * 2 ^ b) / 2000)"
proof -
  have p: "(2 :: int) ^ b \<le> 2 ^ 55" "(2 :: int) ^ (b - 1) \<le> 2 ^ 54" using assms power_increasing [of b 55 "2 :: int"] power_increasing [of "b - 1" 54 "2 :: int"] by auto
  then have "i64_shl 100 (b - 1) = Some (100 * 2 ^ (b - 1))" "i64_shl 100 b = Some (100 * 2 ^ b)"
    by (auto intro!: i64_shl_small)
  moreover have "i64 (100 * 2 ^ (b - 1) + 100 * 2 ^ b)" using p by (auto simp: i64_def intro: order_trans [of _ 0])
  ultimately show ?thesis using assms(2) by (simp add: bucket_mid_def i64_add_def)
qed

lemma bucket_of_small:
  assumes "x < 100 * 2 ^ 55" shows "bucket_of x \<le> 55"
proof (rule ccontr)
  assume large: "\<not> bucket_of x \<le> 55"
  then have "(100 :: int) * 2 ^ 55 \<le> 100 * 2 ^ (bucket_of x - 1)"
    using power_increasing [of 55 "bucket_of x - 1" "2 :: int"] by simp
  moreover have "in_bucket x (bucket_of x)" using bucket_of_ok [of x] assms by simp
  ultimately show False using assms large unfolding in_bucket_def by linarith
qed

text \<open>A percentile of short samples exists, whatever the rank.\<close>

lemma percentile_loop_some:
  "\<not> target < cumulative \<Longrightarrow> (\<forall>j < length cs. cs ! j \<noteq> 0 \<longrightarrow> bucket_mid (i + j) \<noteq> None) \<Longrightarrow>
     percentile_loop target cs i cumulative \<noteq> None"
proof (induction target cs i cumulative rule: percentile_loop.induct)
  case (2 target c cs i cumulative)
  have "bucket_mid (Suc i + j) \<noteq> None" if "j < length cs" "cs ! j \<noteq> 0" for j
    using 2(3) [rule_format, of "Suc j"] that by simp
  moreover have "bucket_mid i \<noteq> None" if "c \<noteq> 0" using 2(3) [rule_format, of 0] that by simp
  ultimately show ?case using 2(1,2) by (cases "c = 0") (auto simp: Let_def)
qed simp

lemma percentile_us_some:
  assumes "\<forall>x \<in> set xs. x < 100 * 2 ^ 55"
  shows "percentile_us target (hist_of xs) \<noteq> None"
proof -
  have "bucket_mid j \<noteq> None" if "j < kNumBuckets" "h_counts (hist_of xs) ! j \<noteq> 0" for j
  proof -
    have "filter (\<lambda>x. bucket_of x = j) xs \<noteq> []" using that by (auto simp: hist_of_def)
    then obtain x where "x \<in> set xs" "bucket_of x = j" by (auto simp: filter_empty_conv)
    then have "j \<le> 55" using bucket_of_small [of x] assms by auto
    then show ?thesis using bucket_mid_ok [of j] by (cases "j = 0") (auto simp: bucket_mid_def)
  qed
  then have "percentile_loop target (h_counts (hist_of xs)) 0 0 \<noteq> None"
    by (intro percentile_loop_some) (simp_all add: hist_of_def)
  then show ?thesis by (simp add: percentile_us_def)
qed

section \<open>Properties\<close>

text \<open>A sample is counted in exactly one bucket, the one whose range holds it: below 100 ns the first,
  then ranges that double, and the count and the sum follow.\<close>

theorem hist_record_bucket:
  assumes "ns < 100 * 2 ^ 56" and "i64 (h_total_sum h + ns)" and "length (h_counts h) = 64"
  shows "\<exists>b h'. hist_record ns h = Some h' \<and> b < 64 \<and> in_bucket ns b \<and> (\<forall>c. in_bucket ns c \<longrightarrow> c = b) \<and>
    (\<forall>i < 64. h_counts h' ! i = h_counts h ! i + (if i = b then 1 else 0)) \<and>
    h_total_count h' = h_total_count h + 1 \<and> h_total_sum h' = h_total_sum h + ns"
  using bucket_of_ok [OF assms(1)] in_bucket_unique [of ns _ "bucket_of ns"] assms(2,3)
  by (intro exI [of _ "bucket_of ns"]) (auto simp: hist_record_def i64_add_def kNumBuckets_def nth_list_update)

theorem hist_record_bucket_witness:
  "\<exists>h'. hist_record 250 hist_new = Some h' \<and> h_counts h' ! 2 = 1 \<and> h_counts h' ! 1 = 0"
proof -
  obtain b h' where b: "hist_record 250 hist_new = Some h'" "b < 64" "\<forall>c. in_bucket 250 c \<longrightarrow> c = b"
      "\<forall>i < 64. h_counts h' ! i = h_counts hist_new ! i + (if i = b then 1 else 0)"
    using hist_record_bucket [of 250 hist_new] by (auto simp: hist_new_def i64_def kNumBuckets_def)
  have "in_bucket 250 2" by (simp add: in_bucket_def)
  then have "b = 2" using b(3) by blast
  then show ?thesis using b(1,4) by (simp add: hist_new_def kNumBuckets_def)
qed

lemma hist_of_merge:
  assumes "samples xs" and "samples ys" and "samples (xs @ ys)"
  shows "hist_merge (hist_of ys) (hist_of xs) = Some (hist_of (xs @ ys))"
proof -
  have "0 \<le> sum_list xs" "0 \<le> sum_list ys" using assms by (auto intro: sum_list_nonneg_int)
  then show ?thesis using assms(3) by (auto simp: hist_merge_def hist_of_def i64_add_def i64_def map2_map_map)
qed

text \<open>Per-thread histograms can be merged: merging the histograms of two runs of samples gives exactly
  the histogram of all samples recorded together, as long as the total of the samples fits in 63 bits.\<close>

theorem hist_merge_records:
  assumes "\<forall>x \<in> set (xs @ ys). 0 \<le> x \<and> x < 100 * 2 ^ 56" and "sum_list (xs @ ys) < 2 ^ 63"
  shows "oks (ofold hist_record xs hist_new) (\<lambda>h. oks (ofold hist_record ys hist_new) (\<lambda>other.
    hist_merge other h = ofold hist_record (xs @ ys) hist_new \<and> hist_merge other h \<noteq> None))"
proof -
  have pos: "0 \<le> sum_list xs" "0 \<le> sum_list ys" using assms(1) by (auto intro: sum_list_nonneg_int)
  then have s: "samples xs" "samples ys" "samples (xs @ ys)" using assms by auto
  show ?thesis using hist_of_merge [OF s] unfolding record_all [OF s(1)] record_all [OF s(2)] record_all [OF s(3)] by simp
qed

theorem hist_merge_records_witness:
  "oks (ofold hist_record [50, 250] hist_new) (\<lambda>h. oks (ofold hist_record [1000] hist_new) (\<lambda>other.
    hist_merge other h = ofold hist_record [50, 250, 1000] hist_new))"
  using hist_merge_records [of "[50, 250]" "[1000]"] by (auto elim!: oks_mono)

text \<open>C38. The percentile is right to within its bucket: after any list of samples (below \<open>100 * 2 ^ 55\<close> ns)
  the value reported for rank \<open>target\<close> is the midpoint of the bucket that contains the sample of that rank
  in sorted order (0.05 microseconds in the first bucket).\<close>

theorem percentile_correct:
  assumes "\<forall>x \<in> set xs. 0 \<le> x \<and> x < 100 * 2 ^ 55" and "sum_list xs < 2 ^ 63" and "length xs < 2 ^ 64"
    and "unat target < length xs"
  shows "oks (ofold hist_record xs hist_new) (\<lambda>h. \<exists>b. in_bucket (sort xs ! unat target) b \<and>
    percentile_us target h = Some (if b = 0 then 1 / 20 else rat_of_int (100 * 2 ^ (b - 1) + 100 * 2 ^ b) / 2000))"
proof -
  have s: "samples xs" using assms(1,2) by fastforce
  let ?x = "sort xs ! unat target"
  let ?b = "bucket_of ?x"
  have "?x \<in> set xs" using assms(4) by (metis length_sort nth_mem set_sort)
  then have x: "0 \<le> ?x" "?x < 100 * 2 ^ 55" "?x < 100 * 2 ^ 56" using assms(1) s by auto
  have b: "in_bucket ?x ?b" "?b < kNumBuckets" using bucket_of_ok [OF x(3)] by auto
  have "?b \<le> 55" by (rule bucket_of_small [OF x(2)])
  then have mid: "bucket_mid ?b = Some (if ?b = 0 then 1 / 20 else rat_of_int (100 * 2 ^ (?b - 1) + 100 * 2 ^ ?b) / 2000)"
    using bucket_mid_ok [of ?b] by (simp add: bucket_mid_def)
  have lim: "\<forall>x \<in> set xs. x < 100 * 2 ^ 56" using s by auto
  have zero: "below 0 xs = 0" by (simp add: below_def)
  have "unat (of_nat (length xs) :: u64) = length xs" using assms(3) by (simp add: unsigned_of_nat take_bit_nat_eq_self)
  then have ne: "h_total_count (hist_of xs) \<noteq> 0" using assms(4) by (auto simp: hist_of_def)
  have "percentile_us target (hist_of xs) =
      percentile_loop target (map (\<lambda>b. of_nat (length (filter (\<lambda>x. bucket_of x = b) xs))) [0..<kNumBuckets]) 0 (of_nat (below 0 xs))"
    unfolding percentile_us_def if_not_P [OF ne] by (simp only: hist_of_def zero histogram.simps semiring_1_class.of_nat_0)
  also have "\<dots> = bucket_mid ?b"
    by (rule percentile_loop_ok [OF below_rank [OF lim assms(4)] assms(3) le0 b(2)])
  finally have "percentile_us target (hist_of xs) = bucket_mid ?b" .
  then show ?thesis
    unfolding record_all [OF s] oks_Some by (intro exI [of _ ?b] conjI b(1)) (rule trans [OF _ mid])
qed

theorem percentile_correct_witness:
  "oks (ofold hist_record [50, 250, 1000] hist_new) (\<lambda>h. \<exists>b. in_bucket 250 b \<and>
    percentile_us 1 h = Some (if b = 0 then 1 / 20 else rat_of_int (100 * 2 ^ (b - 1) + 100 * 2 ^ b) / 2000))"
  using percentile_correct [of "[50, 250, 1000]" 1] by simp

text \<open>Past about 228 years the histogram is undefined: a sample of \<open>100 * 2 ^ 56\<close> ns or more makes the
  threshold's shift overflow.\<close>

theorem hist_record_overflow:
  assumes "100 * 2 ^ 56 \<le> ns"
  shows "hist_record ns h = None"
proof -
  have stuck: "bucket_loop ns 57 (200 * 2 ^ 56 - 2 ^ 64) = None"
    using assms by (simp add: bucket_loop.simps kNumBuckets_def i64_shl_def)
  have last: "bucket_loop ns 56 (100 * 2 ^ 56) = None"
    using assms stuck by (simp add: bucket_loop.simps [of ns 56] kNumBuckets_def i64_shl_def)
  have down: "bucket_loop ns (56 - n) (100 * 2 ^ (56 - n)) = None" if "n \<le> 55" for n
    using that
  proof (induction n)
    case 0
    then show ?case using last by simp
  next
    case (Suc n)
    obtain b where b: "b = 56 - Suc n" "56 - n = Suc b" "b \<le> 55" using Suc.prems by simp
    have "(2 :: int) ^ b \<le> 2 ^ 55" using power_increasing [of b 55 "2 :: int"] b by simp
    then have le: "100 * 2 ^ b \<le> ns" and sh: "i64_shl (100 * 2 ^ b) 1 = Some (100 * 2 ^ Suc b)"
      using assms by (simp_all add: i64_shl_small)
    have "bucket_loop ns b (100 * 2 ^ b) = bucket_loop ns (Suc b) (100 * 2 ^ Suc b)"
      using le sh b(3) by (simp add: bucket_loop.simps [of ns b] kNumBuckets_def)
    moreover have "bucket_loop ns (Suc b) (100 * 2 ^ Suc b) = None" using Suc.IH Suc.prems unfolding b(2) by simp
    ultimately show ?case unfolding b(1) [symmetric] by simp
  qed
  then have "bucket_loop ns 1 200 = None" using down [of 55] by simp
  then show ?thesis using assms by (simp add: hist_record_def hist_bucket_def)
qed

theorem hist_record_overflow_witness: "hist_record (100 * 2 ^ 56) hist_new = None"
  by (rule hist_record_overflow) simp

section \<open>The tracker\<close>

definition breakdown_times :: "breakdown \<Rightarrow> int list" where
  "breakdown_times bd = [bd_total bd, bd_lock_wait bd, bd_lookup bd, bd_admission bd, bd_eviction bd, bd_l2 bd,
     bd_backend bd, bd_slab bd]"

definition histograms :: "tracker \<Rightarrow> histogram list" where
  "histograms t = [tr_total t, tr_lock_wait t, tr_lookup t, tr_admission t, tr_eviction t, tr_l2 t, tr_backend t,
     tr_slab t, tr_l1_hit t, tr_l2_hit t, tr_backend_hit t, tr_full_miss t]"

text \<open>Every operation is counted under exactly one path.\<close>

definition paths_add_up :: "tracker \<Rightarrow> bool" where
  "paths_add_up t \<longleftrightarrow> h_total_count (tr_total t) =
     h_total_count (tr_l1_hit t) + h_total_count (tr_l2_hit t) + h_total_count (tr_backend_hit t) + h_total_count (tr_full_miss t)"

abbreviation short :: "int \<Rightarrow> bool" where
  "short x \<equiv> 0 \<le> x \<and> x < 2 ^ 62"

lemma hist_record_count:
  assumes "short ns" and "short (h_total_sum h)"
  shows "\<exists>h'. hist_record ns h = Some h' \<and> h_total_count h' = h_total_count h + 1"
proof -
  have "ns < 100 * 2 ^ 56" "i64 (h_total_sum h + ns)" using assms by (auto simp: i64_def)
  then show ?thesis using bucket_of_ok [of ns] by (simp add: hist_record_def i64_add_def)
qed

lemma record_positive_count:
  assumes "short ns" and "short (h_total_sum h)"
  shows "\<exists>h'. record_positive ns h = Some h' \<and> h_total_count h' = h_total_count h + (if ns > 0 then 1 else 0)"
  using hist_record_count [OF assms] by (simp add: record_positive_def)

text \<open>The tracker counts every operation once in the total and once under the path it took, so that the
  path counts always add up to the total; the optional phases are counted only when they took time.\<close>

theorem tracker_record_paths:
  assumes "\<forall>ns \<in> set (breakdown_times bd). 0 \<le> ns \<and> ns < 2 ^ 62"
    and "\<forall>h \<in> set (histograms t). 0 \<le> h_total_sum h \<and> h_total_sum h < 2 ^ 62" and "paths_add_up t"
  shows "\<exists>t'. tracker_record bd t = Some t' \<and> paths_add_up t' \<and>
    h_total_count (tr_total t') = h_total_count (tr_total t) + 1 \<and>
    h_total_count (tr_l1_hit t') = h_total_count (tr_l1_hit t) + (if bd_path bd = L1_HIT then 1 else 0) \<and>
    h_total_count (tr_full_miss t') = h_total_count (tr_full_miss t) + (if bd_path bd = MISS then 1 else 0) \<and>
    h_total_count (tr_eviction t') = h_total_count (tr_eviction t) + (if bd_eviction bd > 0 then 1 else 0)"
proof -
  have ns: "short (bd_total bd)" "short (bd_lock_wait bd)" "short (bd_lookup bd)" "short (bd_admission bd)"
      "short (bd_eviction bd)" "short (bd_l2 bd)" "short (bd_backend bd)" "short (bd_slab bd)"
    using assms(1) unfolding breakdown_times_def by auto
  have h: "short (h_total_sum (tr_total t))" "short (h_total_sum (tr_lock_wait t))" "short (h_total_sum (tr_lookup t))"
      "short (h_total_sum (tr_admission t))" "short (h_total_sum (tr_eviction t))" "short (h_total_sum (tr_l2 t))"
      "short (h_total_sum (tr_backend t))" "short (h_total_sum (tr_slab t))" "short (h_total_sum (tr_l1_hit t))"
      "short (h_total_sum (tr_l2_hit t))" "short (h_total_sum (tr_backend_hit t))" "short (h_total_sum (tr_full_miss t))"
    using assms(2) unfolding histograms_def by auto
  note phases = hist_record_count [OF ns(1) h(1)] hist_record_count [OF ns(2) h(2)] hist_record_count [OF ns(3) h(3)]
    hist_record_count [OF ns(8) h(8)] record_positive_count [OF ns(4) h(4)] record_positive_count [OF ns(5) h(5)]
    record_positive_count [OF ns(6) h(6)] record_positive_count [OF ns(7) h(7)]
  note paths = h(9,10,11,12) [THEN hist_record_count [OF ns(1)]]
  show ?thesis
    using phases paths assms(3)
    by (elim exE conjE) (cases "bd_path bd"; simp add: tracker_record_def paths_add_up_def Let_def)
qed

theorem tracker_record_paths_witness:
  "\<exists>t'. tracker_record (breakdown_new\<lparr>bd_total := 1500, bd_path := L1_HIT\<rparr>) tracker_new = Some t' \<and> paths_add_up t' \<and>
    h_total_count (tr_l1_hit t') = 1 \<and> h_total_count (tr_full_miss t') = 0"
  using tracker_record_paths [of "breakdown_new\<lparr>bd_total := 1500, bd_path := L1_HIT\<rparr>" tracker_new]
  by (auto simp: breakdown_times_def histograms_def breakdown_new_def tracker_new_def hist_new_def paths_add_up_def)

end
