(* ===== verification/Trace_Loader.thy ===== *)
theory Trace_Loader
  imports Prelude
begin

text \<open>
  The streaming trace reader (\<open>include/trace_loader.h\<close>, \<open>src/trace_loader.cpp\<close>). A string is the list of
  its bytes. A file is \<open>None\<close> when it cannot be opened and its content otherwise; a stream is the text that
  is left to read. \<open>toupper\<close> and \<open>tolower\<close> are those of the "C" locale. The \<open>op\<close> a parser fills in is
  its result, \<open>None\<close> standing for \<open>return false\<close>, where the code leaves \<open>op\<close> as it was.
\<close>

section \<open>Strings and streams\<close>

definition ws :: "char \<Rightarrow> bool" where
  "ws c \<longleftrightarrow> c \<in> {CHR '' '', CHR 0x09, CHR 0x0D, CHR 0x0A}"

definition blank :: "char \<Rightarrow> bool" where
  "blank c \<longleftrightarrow> c \<in> {CHR '' '', CHR 0x09}"

primrec find_first :: "(char \<Rightarrow> bool) \<Rightarrow> string \<Rightarrow> nat option" where
  "find_first P [] = None"
| "find_first P (c # s) = (if P c then Some 0 else map_option Suc (find_first P s))"

primrec find_last :: "(char \<Rightarrow> bool) \<Rightarrow> string \<Rightarrow> nat option" where
  "find_last P [] = None"
| "find_last P (c # s) =
     (case find_last P s of Some i \<Rightarrow> Some (Suc i) | None \<Rightarrow> if P c then Some 0 else None)"

definition substr :: "string \<Rightarrow> nat \<Rightarrow> nat \<Rightarrow> string" where
  "substr s pos n = take n (drop pos s)"

definition to_upper :: "char \<Rightarrow> char" where
  "to_upper c = (if 97 \<le> (of_char c :: nat) \<and> (of_char c :: nat) \<le> 122 then char_of (of_char c - 32 :: nat) else c)"

definition to_lower :: "char \<Rightarrow> char" where
  "to_lower c = (if 65 \<le> (of_char c :: nat) \<and> (of_char c :: nat) \<le> 90 then char_of (of_char c + 32 :: nat) else c)"

text \<open>\<open>std::getline\<close>: the text up to the delimiter, which is consumed; it fails when nothing is left.\<close>

definition getline :: "char \<Rightarrow> string \<Rightarrow> (string \<times> string) option" where
  "getline delim s =
     (if s = [] then None else Some (takeWhile (\<lambda>c. c \<noteq> delim) s, drop 1 (dropWhile (\<lambda>c. c \<noteq> delim) s)))"

section \<open>Operations and formats\<close>

datatype op_type = GET | PUT

record trace_op =
  op_type :: op_type
  op_key :: string

datatype trace_format = UNKNOWN | SIMPLE | CSV

record reader =
  rd_stream :: string
  rd_format :: trace_format
  rd_format_known :: bool
  rd_csv_header_consumed :: bool
  rd_lines_read :: u64
  rd_lines_skipped :: u64
  rd_ops_parsed :: u64

definition reader_new :: "string \<Rightarrow> reader" where
  "reader_new content = \<lparr>rd_stream = content, rd_format = UNKNOWN, rd_format_known = False,
     rd_csv_header_consumed = False, rd_lines_read = 0, rd_lines_skipped = 0, rd_ops_parsed = 0\<rparr>"

section \<open>Line parsers\<close>

definition trim :: "string \<Rightarrow> string" where
  "trim s =
     (case find_first (\<lambda>c. \<not> ws c) s of
        None \<Rightarrow> []
      | Some start \<Rightarrow> (case find_last (\<lambda>c. \<not> ws c) s of
          None \<Rightarrow> []
        | Some end \<Rightarrow> substr s start (end - start + 1)))"

definition parse_op_type :: "string \<Rightarrow> op_type" where
  "parse_op_type token =
     (let upper = map to_upper token
      in if upper = ''PUT'' \<or> upper = ''WRITE'' \<or> upper = ''SET'' \<or> upper = ''UPDATE'' \<or> upper = ''INSERT''
         then PUT else GET)"

definition first_token :: "string \<Rightarrow> string" where
  "first_token rest = (case find_first blank rest of Some sp \<Rightarrow> substr rest 0 sp | None \<Rightarrow> rest)"

definition parse_simple :: "string \<Rightarrow> trace_op option" where
  "parse_simple line =
     (case find_first blank line of
        None \<Rightarrow> if line = [] then None else Some \<lparr>op_type = GET, op_key = line\<rparr>
      | Some space_pos \<Rightarrow>
          let first = substr line 0 space_pos;
              rest = trim (drop (space_pos + 1) line);
              op_upper = map to_upper first
          in if op_upper = ''GET'' \<or> op_upper = ''READ''
             then if rest = [] then None else Some \<lparr>op_type = GET, op_key = first_token rest\<rparr>
             else if op_upper = ''PUT'' \<or> op_upper = ''WRITE'' \<or>
                     op_upper = ''SET'' \<or> op_upper = ''UPDATE'' \<or> op_upper = ''INSERT''
             then if rest = [] then None else Some \<lparr>op_type = PUT, op_key = first_token rest\<rparr>
             else Some \<lparr>op_type = GET, op_key = first\<rparr>)"

text \<open>The fallback of \<open>parse_csv\<close> for a missing third field: the line is read again.\<close>

definition csv_reparse :: "string \<Rightarrow> string" where
  "csv_reparse line =
     (case getline CHR '','' line of None \<Rightarrow> [] | Some (_, ss) \<Rightarrow>
      (case getline CHR '','' ss of None \<Rightarrow> [] | Some (_, ss) \<Rightarrow>
       (case getline CHR 0x0A ss of None \<Rightarrow> [] | Some (f3, _) \<Rightarrow> f3)))"

definition parse_csv :: "string \<Rightarrow> trace_op option" where
  "parse_csv line = do {
     (f1, ss) \<leftarrow> getline CHR '','' line;
     (f2, ss) \<leftarrow> getline CHR '','' ss;
     let f3 = (case getline CHR '','' ss of Some (f3, _) \<Rightarrow> f3 | None \<Rightarrow> csv_reparse line);
     let key = trim f3;
     if key = [] then None
     else Some \<lparr>op_type = parse_op_type (trim f2), op_key = key\<rparr>
   }"

section \<open>The reader\<close>

definition csv_second_field :: "string \<Rightarrow> string option" where
  "csv_second_field line = do {
     (f1, ss) \<leftarrow> getline CHR '','' line;
     (f2, ss) \<leftarrow> getline CHR '','' ss;
     (f3, ss) \<leftarrow> getline CHR '','' ss;
     Some (map to_lower (trim f2))
   }"

definition header_words :: "string list" where
  "header_words = [''op'', ''operation'', ''type'']"

definition op_words :: "string list" where
  "op_words = [''get'', ''put'', ''read'', ''write'']"

definition detect_format :: "string \<Rightarrow> reader \<Rightarrow> bool \<times> reader" where
  "detect_format line r =
     (case (if CHR '','' \<in> set line then csv_second_field line else None) of
        Some f2t \<Rightarrow>
          if f2t \<in> set header_words \<or> f2t \<in> set op_words
          then (True, r\<lparr>rd_format := CSV, rd_format_known := True,
                       rd_csv_header_consumed := f2t \<notin> set header_words\<rparr>)
          else (True, r\<lparr>rd_format := SIMPLE, rd_format_known := True\<rparr>)
      | None \<Rightarrow> (True, r\<lparr>rd_format := SIMPLE, rd_format_known := True\<rparr>))"

definition skip_line :: "reader \<Rightarrow> trace_op option \<times> reader" where
  "skip_line r = (None, r\<lparr>rd_lines_skipped := rd_lines_skipped r + 1\<rparr>)"

definition count_line :: "trace_op option \<Rightarrow> reader \<Rightarrow> trace_op option \<times> reader" where
  "count_line parsed r =
     (case parsed of Some op \<Rightarrow> (Some op, r\<lparr>rd_ops_parsed := rd_ops_parsed r + 1\<rparr>) | None \<Rightarrow> skip_line r)"

text \<open>The body of the loop of \<open>next\<close>: \<open>Some op\<close> is its \<open>return true\<close>.\<close>

definition next_line :: "string \<Rightarrow> reader \<Rightarrow> trace_op option \<times> reader" where
  "next_line line r =
     (let r = r\<lparr>rd_lines_read := rd_lines_read r + 1\<rparr>;
          trimmed = trim line
      in if trimmed = [] \<or> trimmed ! 0 = CHR ''#'' then skip_line r
         else let (detected, r) = (if rd_format_known r then (True, r) else detect_format trimmed r)
         in if \<not> detected then skip_line r
            else if rd_format r = CSV \<and> \<not> rd_csv_header_consumed r
            then skip_line (r\<lparr>rd_csv_header_consumed := True\<rparr>)
            else count_line (case rd_format r of SIMPLE \<Rightarrow> parse_simple trimmed | CSV \<Rightarrow> parse_csv trimmed | UNKNOWN \<Rightarrow> None) r)"

lemma skip_line_frame [simp]:
  "fst (skip_line r) = None" "rd_stream (snd (skip_line r)) = rd_stream r" "rd_format (snd (skip_line r)) = rd_format r"
  "rd_format_known (snd (skip_line r)) = rd_format_known r"
  "rd_csv_header_consumed (snd (skip_line r)) = rd_csv_header_consumed r"
  by (simp_all add: skip_line_def)

lemma count_line_frame [simp]:
  "fst (count_line p r) = p" "rd_stream (snd (count_line p r)) = rd_stream r" "rd_format (snd (count_line p r)) = rd_format r"
  "rd_format_known (snd (count_line p r)) = rd_format_known r"
  "rd_csv_header_consumed (snd (count_line p r)) = rd_csv_header_consumed r"
  by (simp_all add: count_line_def split: option.split)

lemma detect_stream [simp]: "rd_stream (snd (detect_format line r)) = rd_stream r"
  by (simp add: detect_format_def split: option.split)

lemma next_line_stream [simp]: "rd_stream (snd (next_line line r)) = rd_stream r"
proof -
  have d: "rd_stream r' = rd_stream r" if "detect_format l r = (b, r')" for l b r r'
    using detect_stream [of l r] that by simp
  show ?thesis
    by (auto simp: next_line_def Let_def dest!: d split: prod.split)
qed

lemma next_line_streamD: "next_line line r = (a, r') \<Longrightarrow> rd_stream r' = rd_stream r"
  using next_line_stream [of line r] by simp

lemma getline_shorter: "getline d s = Some (line, rest) \<Longrightarrow> length rest < length s"
  using length_dropWhile_le [of "\<lambda>c. c \<noteq> d" s] by (cases s) (auto simp: getline_def split: if_splits)

function tr_next :: "reader \<Rightarrow> trace_op option \<times> reader" where
  "tr_next r =
     (case getline CHR 0x0A (rd_stream r) of
        None \<Rightarrow> (None, r)
      | Some (line, rest) \<Rightarrow>
          (case next_line line (r\<lparr>rd_stream := rest\<rparr>) of
             (Some op, r) \<Rightarrow> (Some op, r)
           | (None, r) \<Rightarrow> tr_next r))"
  by pat_completeness auto
termination
  by (relation "measure (\<lambda>r. length (rd_stream r))")
    (auto dest!: getline_shorter next_line_streamD [OF sym])

declare tr_next.simps [simp del]

lemma tr_next_shorter: "tr_next r = (Some op, r') \<Longrightarrow> length (rd_stream r') < length (rd_stream r)"
proof (induction r rule: tr_next.induct)
  case (1 r)
  obtain line rest where l: "getline CHR 0x0A (rd_stream r) = Some (line, rest)"
    using 1(2) by (auto simp: tr_next.simps [of r] split: option.splits)
  obtain a r1 where s: "next_line line (r\<lparr>rd_stream := rest\<rparr>) = (a, r1)" by (cases "next_line line (r\<lparr>rd_stream := rest\<rparr>)")
  have "rd_stream r1 = rest" using next_line_streamD [OF s] by simp
  then show ?case
    using 1(1) [OF l refl s [symmetric]] 1(2) l s getline_shorter [OF l]
    by (cases a) (auto simp: tr_next.simps [of r])
qed

section \<open>Whole files\<close>

function load_loop :: "u64 \<Rightarrow> reader \<Rightarrow> trace_op list \<Rightarrow> trace_op list" where
  "load_loop max_ops r ops =
     (case tr_next r of
        (None, r) \<Rightarrow> ops
      | (Some op, r) \<Rightarrow>
          let ops = ops @ [op]
          in if max_ops > 0 \<and> length ops \<ge> unat max_ops then ops else load_loop max_ops r ops)"
  by pat_completeness auto
termination by (relation "measure (\<lambda>(m, r, ops). length (rd_stream r))") (auto dest: tr_next_shorter [OF sym])

declare load_loop.simps [simp del]

definition load_trace_file :: "string option \<Rightarrow> u64 \<Rightarrow> trace_op list" where
  "load_trace_file file max_ops =
     (case file of None \<Rightarrow> [] | Some content \<Rightarrow> load_loop max_ops (reader_new content) [])"

text \<open>The callback \<open>fn\<close> changes a state of its own.\<close>

function stream_loop :: "(trace_op \<Rightarrow> 's \<Rightarrow> 's) \<Rightarrow> u64 \<Rightarrow> reader \<Rightarrow> u64 \<Rightarrow> 's \<Rightarrow> u64 \<times> 's" where
  "stream_loop fn max_ops r count s =
     (case tr_next r of
        (None, r) \<Rightarrow> (count, s)
      | (Some op, r) \<Rightarrow>
          let s = fn op s; count = count + 1
          in if max_ops > 0 \<and> count \<ge> max_ops then (count, s) else stream_loop fn max_ops r count s)"
  by pat_completeness auto
termination by (relation "measure (\<lambda>(fn, m, r, count, s). length (rd_stream r))") (auto dest: tr_next_shorter [OF sym])

declare stream_loop.simps [simp del]

definition stream_trace_file :: "(trace_op \<Rightarrow> 's \<Rightarrow> 's) \<Rightarrow> string option \<Rightarrow> u64 \<Rightarrow> 's \<Rightarrow> u64 \<times> 's" where
  "stream_trace_file fn file max_ops s =
     (case file of None \<Rightarrow> (0, s) | Some content \<Rightarrow> stream_loop fn max_ops (reader_new content) 0 s)"

end
