(* ===== verification/Trace_Loader_Props.thy ===== *)
theory Trace_Loader_Props
  imports Trace_Loader
begin

text \<open>
  What the trace reader computes: the streaming loop against a reference that reads the whole file at
  once, its counters, and round trips of printed traces in both formats.
\<close>

section \<open>Searching and trimming\<close>

abbreviation all_ws :: "string \<Rightarrow> bool" where
  "all_ws s \<equiv> (\<forall>c \<in> set s. ws c)"

definition trimmed :: "string \<Rightarrow> bool" where
  "trimmed s \<longleftrightarrow> s = [] \<or> \<not> ws (hd s) \<and> \<not> ws (last s)"

lemma find_first_None: "(\<forall>c \<in> set s. \<not> P c) \<Longrightarrow> find_first P s = None"
  by (induction s) auto

lemma find_first_at: "(\<forall>c \<in> set a. \<not> P c) \<Longrightarrow> P c \<Longrightarrow> find_first P (a @ c # s) = Some (length a)"
  by (induction a) auto

lemma find_last_None: "(\<forall>c \<in> set s. \<not> P c) \<Longrightarrow> find_last P s = None"
  by (induction s) auto

lemma find_last_at: "(\<forall>c \<in> set b. \<not> P c) \<Longrightarrow> P c \<Longrightarrow> find_last P (s @ c # b) = Some (length s)"
  by (induction s) (auto simp: find_last_None)

lemma trim_all_ws: "all_ws s \<Longrightarrow> trim s = []"
  by (simp add: trim_def find_first_None)

lemma trim_middle:
  assumes "all_ws a" and "all_ws b" and "trimmed x" shows "trim (a @ x @ b) = x"
proof (cases "x = []")
  case True
  then show ?thesis using assms by (simp add: trim_all_ws ball_Un)
next
  case False
  then obtain y d where y: "x = y @ [d]" by (metis rev_exhaust)
  obtain c z where z: "x = c # z" using False by (cases x) auto
  have "\<not> ws c" using assms(3) by (simp add: z trimmed_def)
  then have "find_first (\<lambda>c. \<not> ws c) (a @ x @ b) = Some (length a)"
    using assms(1) find_first_at [of a "\<lambda>c. \<not> ws c" c "z @ b"] by (simp add: z)
  moreover have "\<not> ws d" using assms(3) by (simp add: y trimmed_def)
  then have "find_last (\<lambda>c. \<not> ws c) (a @ x @ b) = Some (length (a @ y))"
    using assms(2) find_last_at [of b "\<lambda>c. \<not> ws c" d "a @ y"] by (simp add: y)
  ultimately show ?thesis using y by (simp add: trim_def substr_def)
qed

lemma trim_split:
  obtains a b where "s = a @ trim s @ b" and "all_ws a" and "all_ws b" and "trimmed (trim s)"
proof (cases "all_ws s")
  case True
  then show ?thesis using that [of s "[]"] by (simp add: trim_all_ws trimmed_def)
next
  case False
  then obtain a c t where a: "s = a @ c # t" "\<not> ws c" "all_ws a"
    using split_list_first_prop [of s "\<lambda>c. \<not> ws c"] by auto
  then obtain y d b where y: "c # t = y @ d # b" "\<not> ws d" "all_ws b"
    using split_list_last_prop [of "c # t" "\<lambda>c. \<not> ws c"] by auto
  have x: "trimmed (y @ [d])" using a(2) y(1,2) by (cases y) (auto simp: trimmed_def)
  have s: "s = a @ (y @ [d]) @ b" using a(1) y(1) by simp
  have "trim s = y @ [d]" unfolding s by (rule trim_middle [OF a(3) y(3) x])
  then show ?thesis using that [of a b] s x a(3) y(3) by simp
qed

lemma trimmed_trim: "trimmed (trim s)"
  by (rule trim_split [of s])

lemma trim_id: "trimmed s \<Longrightarrow> trim s = s"
  using trim_middle [of "[]" "[]" s] by simp

lemma set_trim: "set (trim s) \<subseteq> set s"
  by (rule trim_split [of s]) (metis Un_iff set_append subsetI)

lemma trimmed_no_ws: "(\<forall>c \<in> set s. \<not> ws c) \<Longrightarrow> trimmed s"
  unfolding trimmed_def by (cases s) auto

section \<open>Lines\<close>

abbreviation NL :: char where "NL \<equiv> CHR 0x0A"
abbreviation comma :: char where "comma \<equiv> CHR '',''"

function file_lines :: "string \<Rightarrow> string list" where
  "file_lines s = (case getline NL s of None \<Rightarrow> [] | Some (line, rest) \<Rightarrow> line # file_lines rest)"
  by pat_completeness auto
termination by (relation "measure length") (auto dest: getline_shorter)

declare file_lines.simps [simp del]

lemma getline_at: "d \<notin> set l \<Longrightarrow> getline d (l @ d # s) = Some (l, s)"
  by (simp add: getline_def takeWhile_append dropWhile_append)

lemma getline_last: "d \<notin> set l \<Longrightarrow> l \<noteq> [] \<Longrightarrow> getline d l = Some (l, [])"
proof -
  assume "d \<notin> set l" and "l \<noteq> []"
  then have "takeWhile (\<lambda>c. c \<noteq> d) l = l" and "dropWhile (\<lambda>c. c \<noteq> d) l = []"
    by (auto simp: takeWhile_eq_all_conv dropWhile_eq_Nil_conv)
  then show ?thesis unfolding getline_def using \<open>l \<noteq> []\<close> by (simp del: dropWhile_eq_Nil_conv)
qed

lemma getline_field: "getline d s = Some (l, rest) \<Longrightarrow> d \<notin> set l \<and> set l \<subseteq> set s \<and> set rest \<subseteq> set s"
  by (auto simp: getline_def split: if_splits dest: set_takeWhileD set_dropWhileD in_set_dropD)

lemma file_lines_cons: "NL \<notin> set l \<Longrightarrow> file_lines (l @ NL # s) = l # file_lines s"
  by (simp add: file_lines.simps [of "l @ NL # s"] getline_at)

lemma file_lines_Nil: "file_lines [] = []"
  by (simp add: file_lines.simps getline_def)

lemma file_lines_concat:
  "(\<forall>l \<in> set ls. NL \<notin> set l) \<Longrightarrow> file_lines (concat (map (\<lambda>l. l @ [NL]) ls)) = ls"
  by (induction ls) (simp_all add: file_lines_Nil file_lines_cons)

text \<open>The fallback of \<open>parse_csv\<close> is dead code: a missing third field is empty however it is read.\<close>

lemma csv_reparse_empty:
  assumes "getline comma line = Some (f1, ss)" and "getline comma ss = Some (f2, ss')" and "getline comma ss' = None"
  shows "csv_reparse line = []"
  using assms by (auto simp: csv_reparse_def getline_def split: if_splits)

section \<open>The reference\<close>

definition data_line :: "string \<Rightarrow> bool" where
  "data_line l \<longleftrightarrow> l \<noteq> [] \<and> hd l \<noteq> CHR ''#''"

definition data_lines :: "string list \<Rightarrow> string list" where
  "data_lines lines = filter data_line (map trim lines)"

definition second_word :: "string \<Rightarrow> string" where
  "second_word l = (case csv_second_field l of Some w \<Rightarrow> w | None \<Rightarrow> [])"

text \<open>All operations of a file: the first data line decides the format of all of them.\<close>

definition trace_spec :: "string list \<Rightarrow> trace_op list" where
  "trace_spec lines =
     (case data_lines lines of
        [] \<Rightarrow> []
      | l # ls \<Rightarrow>
          if second_word l \<in> set header_words then List.map_filter parse_csv ls
          else if second_word l \<in> set op_words then List.map_filter parse_csv (l # ls)
          else List.map_filter parse_simple (l # ls))"

definition limit :: "u64 \<Rightarrow> 'a list \<Rightarrow> 'a list" where
  "limit n xs = (if n = 0 then xs else take (unat n) xs)"

section \<open>The loop against the reference\<close>

primrec line_ops :: "string list \<Rightarrow> reader \<Rightarrow> trace_op list" where
  "line_ops [] r = []"
| "line_ops (l # ls) r =
     (case next_line l r of (Some op, r) \<Rightarrow> op # line_ops ls r | (None, r) \<Rightarrow> line_ops ls r)"

lemma detect_upd: "detect_format l (r\<lparr>rd_stream := s\<rparr>) = (case detect_format l r of (a, r') \<Rightarrow> (a, r'\<lparr>rd_stream := s\<rparr>))"
  by (simp add: detect_format_def split: option.split)

lemma count_line_upd: "count_line p (r\<lparr>rd_stream := s\<rparr>) = (case count_line p r of (a, r') \<Rightarrow> (a, r'\<lparr>rd_stream := s\<rparr>))"
  by (simp add: count_line_def skip_line_def split: option.split)

lemma next_line_upd: "next_line l (r\<lparr>rd_stream := s\<rparr>) = (case next_line l r of (a, r') \<Rightarrow> (a, r'\<lparr>rd_stream := s\<rparr>))"
proof -
  let ?r = "r\<lparr>rd_lines_read := rd_lines_read r + 1\<rparr>"
  obtain d r1 where d: "detect_format (trim l) ?r = (d, r1)" by (cases "detect_format (trim l) ?r")
  have e: "detect_format (trim l) (?r\<lparr>rd_stream := s\<rparr>) = (d, r1\<lparr>rd_stream := s\<rparr>)" using detect_upd [of "trim l" s ?r] d by simp
  have c: "r\<lparr>rd_stream := s\<rparr>\<lparr>rd_lines_read := x\<rparr> = r\<lparr>rd_lines_read := x\<rparr>\<lparr>rd_stream := s\<rparr>" for x by simp
  show ?thesis
    by (simp add: next_line_def skip_line_def Let_def c d e count_line_upd)
qed

lemma line_ops_upd: "line_ops ls (r\<lparr>rd_stream := s\<rparr>) = line_ops ls r"
  by (induction ls arbitrary: r) (auto simp: next_line_upd split: prod.split option.split)

lemma tr_next_ops:
  "(case tr_next r of (None, r') \<Rightarrow> [] | (Some op, r') \<Rightarrow> op # line_ops (file_lines (rd_stream r')) r') =
     line_ops (file_lines (rd_stream r)) r"
proof (induction r rule: tr_next.induct)
  case (1 r)
  show ?case
  proof (cases "getline NL (rd_stream r)")
    case None
    then show ?thesis by (simp add: tr_next.simps [of r] file_lines.simps [of "rd_stream r"])
  next
    case (Some x)
    obtain line rest where x: "x = (line, rest)" by (cases x)
    obtain a r1 where s: "next_line line (r\<lparr>rd_stream := rest\<rparr>) = (a, r1)"
      by (cases "next_line line (r\<lparr>rd_stream := rest\<rparr>)")
    have r1: "rd_stream r1 = rest" using next_line_streamD [OF s] by simp
    have "line_ops (file_lines (rd_stream r)) r = line_ops (line # file_lines rest) (r\<lparr>rd_stream := rest\<rparr>)"
      using Some x by (simp add: file_lines.simps [of "rd_stream r"] line_ops_upd del: line_ops.simps)
    then show ?thesis
      using 1 [OF Some x [symmetric] s [symmetric]] Some x s r1 by (cases a) (simp_all add: tr_next.simps [of r])
  qed
qed

lemma load_loop_ops:
  "max_ops = 0 \<or> length ops < unat max_ops \<Longrightarrow>
     load_loop max_ops r ops = limit max_ops (ops @ line_ops (file_lines (rd_stream r)) r)"
proof (induction max_ops r ops rule: load_loop.induct)
  case (1 max_ops r ops)
  obtain a r' where n: "tr_next r = (a, r')" by (cases "tr_next r")
  show ?case
  proof (cases a)
    case None
    then show ?thesis
      using n tr_next_ops [of r] 1(2) by (auto simp: load_loop.simps [of max_ops r] limit_def)
  next
    case (Some op)
    have rest: "line_ops (file_lines (rd_stream r)) r = op # line_ops (file_lines (rd_stream r')) r'"
      using n Some tr_next_ops [of r] by simp
    show ?thesis
    proof (cases "max_ops > 0 \<and> length (ops @ [op]) \<ge> unat max_ops")
      case True
      then have "unat max_ops = length (ops @ [op])" using 1(2) by (auto simp: word_gt_0)
      then show ?thesis using n Some rest True by (simp add: load_loop.simps [of max_ops r] limit_def word_gt_0)
    next
      case False
      then show ?thesis
        using 1(1) [OF n [symmetric] Some refl False] n Some rest by (auto simp: load_loop.simps [of max_ops r] word_gt_0)
    qed
  qed
qed

lemma stream_loop_load:
  assumes "max_ops = 0 \<or> length ops < unat max_ops"
  shows "stream_loop fn max_ops r (of_nat (length ops)) (fold fn ops s) =
    (let ops = load_loop max_ops r ops in (of_nat (length ops), fold fn ops s))"
  using assms
proof (induction max_ops r ops rule: load_loop.induct)
  case (1 max_ops r ops)
  obtain a r' where n: "tr_next r = (a, r')" by (cases "tr_next r")
  show ?case
  proof (cases a)
    case None
    then show ?thesis using n by (simp add: stream_loop.simps [of fn max_ops r] load_loop.simps [of max_ops r])
  next
    case (Some op)
    have count: "max_ops > 0 \<and> (of_nat (length ops) + 1 :: u64) \<ge> max_ops \<longleftrightarrow>
        max_ops > 0 \<and> length (ops @ [op]) \<ge> unat max_ops"
    proof (cases "max_ops = 0")
      case False
      then have "Suc (length ops) < 2 ^ 64" using 1(2) unat_u64_bound [of max_ops] by simp
      then have "unat (of_nat (Suc (length ops)) :: u64) = Suc (length ops)"
        by (simp add: unsigned_of_nat take_bit_nat_eq_self del: of_nat_Suc)
      then show ?thesis by (simp add: word_le_nat_alt add.commute)
    qed simp
    show ?thesis
      using n Some count 1(1) [OF n [symmetric] Some refl] 
      by (auto simp: stream_loop.simps [of fn max_ops r] load_loop.simps [of max_ops r] Let_def word_gt_0 add.commute)
  qed
qed

section \<open>The settled reader\<close>

text \<open>Once the format is known and a CSV header is past, every line is parsed on its own.\<close>

definition parse_as :: "trace_format \<Rightarrow> string \<Rightarrow> trace_op option" where
  "parse_as f = (case f of SIMPLE \<Rightarrow> parse_simple | CSV \<Rightarrow> parse_csv | UNKNOWN \<Rightarrow> (\<lambda>_. None))"

lemma parse_as_simps [simp]: "parse_as SIMPLE = parse_simple" "parse_as CSV = parse_csv"
  by (simp_all add: parse_as_def)

definition settled :: "trace_format \<Rightarrow> reader \<Rightarrow> bool" where
  "settled f r \<longleftrightarrow> rd_format_known r \<and> rd_format r = f \<and> (f = CSV \<longrightarrow> rd_csv_header_consumed r)"

lemma next_line_known:
  assumes "rd_format_known r" and "rd_format r = CSV \<longrightarrow> rd_csv_header_consumed r"
  shows "next_line l r = (let r = r\<lparr>rd_lines_read := rd_lines_read r + 1\<rparr> in
    if data_line (trim l) then count_line (parse_as (rd_format r) (trim l)) r else skip_line r)"
  using assms by (auto simp: next_line_def data_line_def Let_def hd_conv_nth parse_as_def split: trace_format.split)

lemma next_line_settled:
  assumes "settled f r"
  shows "fst (next_line l r) = (if data_line (trim l) then parse_as f (trim l) else None)"
    and "settled f (snd (next_line l r))"
  using assms by (simp_all add: settled_def next_line_known Let_def)

lemma line_ops_settled: "settled f r \<Longrightarrow> line_ops ls r = List.map_filter (parse_as f) (data_lines ls)"
proof (induction ls arbitrary: r)
  case (Cons l ls)
  obtain a r' where n: "next_line l r = (a, r')" by (cases "next_line l r")
  then have "a = (if data_line (trim l) then parse_as f (trim l) else None)" "settled f r'"
    using next_line_settled [OF Cons.prems, of l] by simp_all
  then show ?case using Cons.IH [of r'] n by (auto simp: data_lines_def map_filter_simps split: option.split)
qed (simp add: data_lines_def map_filter_simps)

lemma csv_second_comma: "comma \<notin> set l \<Longrightarrow> csv_second_field l = None"
  by (cases "l = []") (simp_all add: csv_second_field_def getline_last, simp_all add: getline_def)

lemma words_nonempty: "[] \<notin> set header_words" "[] \<notin> set op_words"
  by (simp_all add: header_words_def op_words_def)

lemma detect_format_eq:
  "detect_format l r = (True,
     if second_word l \<in> set header_words then r\<lparr>rd_format := CSV, rd_format_known := True, rd_csv_header_consumed := False\<rparr>
     else if second_word l \<in> set op_words then r\<lparr>rd_format := CSV, rd_format_known := True, rd_csv_header_consumed := True\<rparr>
     else r\<lparr>rd_format := SIMPLE, rd_format_known := True\<rparr>)"
  using csv_second_comma [of l] words_nonempty
  by (cases "comma \<in> set l"; cases "csv_second_field l") (simp_all add: detect_format_def second_word_def)

lemma next_line_first:
  assumes "\<not> rd_format_known r" and "data_line (trim l)"
  defines "w \<equiv> second_word (trim l)"
  shows "fst (next_line l r) = (if w \<in> set header_words then None
      else parse_as (if w \<in> set op_words then CSV else SIMPLE) (trim l))"
    and "settled (if w \<in> set header_words \<or> w \<in> set op_words then CSV else SIMPLE) (snd (next_line l r))"
  using assms(1,2) unfolding w_def
  by (cases "second_word (trim l) \<in> set header_words"; cases "second_word (trim l) \<in> set op_words";
      simp add: next_line_def settled_def data_line_def Let_def hd_conv_nth detect_format_eq)+

lemma next_line_skip:
  assumes "\<not> data_line (trim l)"
  shows "next_line l r = (None, r\<lparr>rd_lines_read := rd_lines_read r + 1, rd_lines_skipped := rd_lines_skipped r + 1\<rparr>)"
  using assms by (auto simp: next_line_def skip_line_def data_line_def Let_def hd_conv_nth)

lemma line_ops_spec: "\<not> rd_format_known r \<Longrightarrow> line_ops ls r = trace_spec ls"
proof (induction ls arbitrary: r)
  case (Cons l ls)
  show ?case
  proof (cases "data_line (trim l)")
    case True
    obtain a r' where n: "next_line l r = (a, r')" by (cases "next_line l r")
    define w where "w = second_word (trim l)"
    have a: "a = (if w \<in> set header_words then None else parse_as (if w \<in> set op_words then CSV else SIMPLE) (trim l))"
      and s: "settled (if w \<in> set header_words \<or> w \<in> set op_words then CSV else SIMPLE) r'"
      using next_line_first [OF Cons.prems True] n unfolding w_def by simp_all
    have "trace_spec (l # ls) = (if w \<in> set header_words then List.map_filter parse_csv (data_lines ls)
        else List.map_filter (parse_as (if w \<in> set op_words then CSV else SIMPLE)) (trim l # data_lines ls))"
      using True by (simp add: trace_spec_def data_lines_def w_def map_filter_simps split: option.split)
    moreover have "line_ops ls r' = List.map_filter (parse_as (if w \<in> set header_words \<or> w \<in> set op_words then CSV else SIMPLE)) (data_lines ls)"
      by (rule line_ops_settled [OF s])
    ultimately show ?thesis
      using n a by (cases "parse_csv (trim l)"; cases "parse_simple (trim l)") (auto simp: map_filter_simps)
  next
    case False
    then show ?thesis using Cons by (simp add: next_line_skip trace_spec_def data_lines_def)
  qed
qed (simp add: trace_spec_def data_lines_def)

section \<open>Counters and keys\<close>

definition tally :: "u64 \<Rightarrow> nat \<Rightarrow> reader \<Rightarrow> bool" where
  "tally all_lines k r \<longleftrightarrow> rd_lines_read r = rd_lines_skipped r + rd_ops_parsed r \<and> rd_ops_parsed r = of_nat k \<and>
     rd_lines_read r + of_nat (length (file_lines (rd_stream r))) = all_lines"

definition usable :: "trace_op \<Rightarrow> bool" where
  "usable op \<longleftrightarrow> op_key op \<noteq> [] \<and> NL \<notin> set (op_key op)"

lemma first_token_part: "set (first_token s) \<subseteq> set s"
  by (auto simp: first_token_def substr_def split: option.splits dest: in_set_takeD)

lemma find_first_pos: "s \<noteq> [] \<Longrightarrow> \<not> P (hd s) \<Longrightarrow> find_first P s = Some i \<Longrightarrow> 0 < i"
  by (cases s) auto

lemma hd_not_blank: "trimmed s \<Longrightarrow> s \<noteq> [] \<Longrightarrow> \<not> blank (hd s)"
  by (auto simp: trimmed_def ws_def blank_def)

lemma first_token_nonempty: "trimmed s \<Longrightarrow> s \<noteq> [] \<Longrightarrow> first_token s \<noteq> []"
  by (auto simp: first_token_def substr_def split: option.splits dest: find_first_pos hd_not_blank)

lemma parse_simple_usable:
  assumes "parse_simple l = Some op" and "trimmed l" and "NL \<notin> set l" shows "usable op"
proof (cases "find_first blank l")
  case None
  then show ?thesis using assms by (auto simp: parse_simple_def usable_def split: if_splits)
next
  case (Some i)
  let ?rest = "trim (drop (i + 1) l)"
  have "l \<noteq> []" using Some by auto
  then have "0 < i" using Some assms(2) find_first_pos hd_not_blank by blast
  then have first: "substr l 0 i \<noteq> []" "NL \<notin> set (substr l 0 i)"
    using assms(3) \<open>l \<noteq> []\<close> by (auto simp: substr_def dest: in_set_takeD)
  have "NL \<notin> set ?rest" using assms(3) set_trim [of "drop (i + 1) l"] by (auto dest: in_set_dropD)
  then have "NL \<notin> set (first_token ?rest)" using first_token_part by blast
  moreover have "?rest \<noteq> [] \<Longrightarrow> first_token ?rest \<noteq> []" by (rule first_token_nonempty [OF trimmed_trim])
  ultimately show ?thesis
    using assms(1) Some first by (auto simp: parse_simple_def usable_def Let_def split: if_splits)
qed

lemma parse_csv_usable:
  assumes "parse_csv l = Some op" and "NL \<notin> set l" shows "usable op"
proof -
  obtain f1 s1 f2 s2 where f: "getline comma l = Some (f1, s1)" "getline comma s1 = Some (f2, s2)"
    using assms(1) by (auto simp: parse_csv_def split: Option.bind_splits)
  have s2: "NL \<notin> set s2" using getline_field [OF f(1)] getline_field [OF f(2)] assms(2) by auto
  show ?thesis
  proof (cases "getline comma s2")
    case None
    then show ?thesis
      using assms(1) f csv_reparse_empty [OF f None] by (simp add: parse_csv_def Let_def trim_all_ws)
  next
    case (Some x)
    obtain f3 s3 where x: "x = (f3, s3)" by (cases x)
    then have "NL \<notin> set f3" using getline_field [of comma s2 f3 s3] Some s2 by auto
    then have "NL \<notin> set (trim f3)" using set_trim [of f3] by blast
    then show ?thesis using assms(1) f Some x by (auto simp: parse_csv_def usable_def Let_def split: if_splits)
  qed
qed

lemma count_line_tally:
  "rd_lines_read (snd (count_line p r)) = rd_lines_read r"
  "rd_lines_skipped (snd (count_line p r)) = rd_lines_skipped r + (if p = None then 1 else 0)"
  "rd_ops_parsed (snd (count_line p r)) = rd_ops_parsed r + (if p = None then 0 else 1)"
  by (auto simp: count_line_def skip_line_def split: option.split)

lemma skip_line_tally:
  "rd_lines_read (snd (skip_line r)) = rd_lines_read r" "rd_lines_skipped (snd (skip_line r)) = rd_lines_skipped r + 1"
  "rd_ops_parsed (snd (skip_line r)) = rd_ops_parsed r"
  by (simp_all add: skip_line_def)

text \<open>One line: the format may be detected first, which touches no counter.\<close>

lemma next_line_shape:
  obtains r' where "next_line l r = skip_line r' \<or> (\<exists>f. next_line l r = count_line (parse_as f (trim l)) r')"
    and "rd_lines_read r' = rd_lines_read r + 1" and "rd_lines_skipped r' = rd_lines_skipped r"
    and "rd_ops_parsed r' = rd_ops_parsed r" and "rd_stream r' = rd_stream r"
proof -
  let ?r = "r\<lparr>rd_lines_read := rd_lines_read r + 1\<rparr>"
  define r1 where "r1 = (if rd_format_known r then ?r else snd (detect_format (trim l) ?r))"
  have r1: "rd_lines_read r1 = rd_lines_read r + 1" "rd_lines_skipped r1 = rd_lines_skipped r"
      "rd_ops_parsed r1 = rd_ops_parsed r" "rd_stream r1 = rd_stream r"
    by (simp_all add: r1_def detect_format_eq)
  have fmt: "(if rd_format_known ?r then (True, ?r) else detect_format (trim l) ?r) = (True, r1)"
    by (simp add: r1_def detect_format_eq)
  consider "trim l = [] \<or> trim l ! 0 = CHR ''#''" | "\<not> (trim l = [] \<or> trim l ! 0 = CHR ''#'')"
      "rd_format r1 = CSV \<and> \<not> rd_csv_header_consumed r1" | "\<not> (trim l = [] \<or> trim l ! 0 = CHR ''#'')"
      "\<not> (rd_format r1 = CSV \<and> \<not> rd_csv_header_consumed r1)" by blast
  then show ?thesis
  proof cases
    case 1
    then show ?thesis using that [of ?r] by (simp add: next_line_def Let_def)
  next
    case 2
    then have "next_line l r = skip_line (r1\<lparr>rd_csv_header_consumed := True\<rparr>)"
      unfolding next_line_def Let_def fmt by simp
    then show ?thesis using that [of "r1\<lparr>rd_csv_header_consumed := True\<rparr>"] r1 by simp
  next
    case 3
    then have "next_line l r = count_line (parse_as (rd_format r1) (trim l)) r1"
      unfolding next_line_def Let_def fmt by (simp add: parse_as_def split: trace_format.split)
    then show ?thesis using that [of r1] r1 by blast
  qed
qed

lemma next_line_tally:
  assumes "tally all_lines k r" and "getline NL (rd_stream r) = Some (l, rest)"
    and "next_line l (r\<lparr>rd_stream := rest\<rparr>) = (a, r')"
  shows "tally all_lines (if a = None then k else Suc k) r'" and "pred_option usable a"
proof -
  obtain u where u: "next_line l (r\<lparr>rd_stream := rest\<rparr>) = skip_line u \<or>
        (\<exists>f. next_line l (r\<lparr>rd_stream := rest\<rparr>) = count_line (parse_as f (trim l)) u)"
      "rd_lines_read u = rd_lines_read r + 1" "rd_lines_skipped u = rd_lines_skipped r"
      "rd_ops_parsed u = rd_ops_parsed r" "rd_stream u = rest"
    using next_line_shape [of l "r\<lparr>rd_stream := rest\<rparr>"] by auto
  have s: "rd_stream r' = rest" using next_line_streamD [OF assms(3)] by simp
  have all_lines: "rd_lines_read r + (1 + of_nat (length (file_lines rest))) = all_lines"
    using assms(1,2) by (auto simp: tally_def file_lines.simps [of "rd_stream r"])
  have nl: "NL \<notin> set (trim l)" using getline_field [OF assms(2)] set_trim [of l] by blast
  have "pred_option usable (parse_as f (trim l))" for f
    using parse_simple_usable [OF _ trimmed_trim nl] parse_csv_usable [OF _ nl]
    by (cases f) (auto simp: parse_as_def pred_option_def elem_set)
  moreover have a: "a = fst (next_line l (r\<lparr>rd_stream := rest\<rparr>))" "r' = snd (next_line l (r\<lparr>rd_stream := rest\<rparr>))"
    using assms(3) by simp_all
  ultimately show "pred_option usable a" using u(1) by auto
  show "tally all_lines (if a = None then k else Suc k) r'"
    using assms(1) u all_lines s unfolding a
    by (auto simp: tally_def count_line_tally skip_line_tally algebra_simps)
qed

lemma tr_next_tally:
  "tally all_lines k r \<Longrightarrow> (case tr_next r of (None, r') \<Rightarrow> tally all_lines k r' \<and> rd_stream r' = []
     | (Some op, r') \<Rightarrow> tally all_lines (Suc k) r' \<and> usable op)"
proof (induction r rule: tr_next.induct)
  case (1 r)
  show ?case
  proof (cases "getline NL (rd_stream r)")
    case None
    then have "rd_stream r = []" by (simp add: getline_def split: if_splits)
    then show ?thesis using None 1(2) by (simp add: tr_next.simps [of r])
  next
    case (Some x)
    obtain l rest where x: "x = (l, rest)" by (cases x)
    obtain a r1 where s: "next_line l (r\<lparr>rd_stream := rest\<rparr>) = (a, r1)"
      by (cases "next_line l (r\<lparr>rd_stream := rest\<rparr>)")
    show ?thesis
      using next_line_tally [OF 1(2) Some [unfolded x] s] 1(1) [OF Some x [symmetric] s [symmetric]] Some x s
      by (cases a) (simp_all add: tr_next.simps [of r])
  qed
qed

primrec read_ops :: "nat \<Rightarrow> reader \<Rightarrow> trace_op list \<times> reader" where
  "read_ops 0 r = ([], r)"
| "read_ops (Suc n) r =
     (case tr_next r of
        (None, r) \<Rightarrow> ([], r)
      | (Some op, r) \<Rightarrow> (case read_ops n r of (ops, r) \<Rightarrow> (op # ops, r)))"

lemma read_ops_tally:
  "tally all_lines k r \<Longrightarrow> read_ops n r = (ops, r') \<Longrightarrow>
     tally all_lines (k + length ops) r' \<and> list_all usable ops \<and> (length ops = n \<or> rd_stream r' = [])"
proof (induction n arbitrary: k r ops)
  case (Suc n)
  obtain a r1 where n: "tr_next r = (a, r1)" by (cases "tr_next r")
  show ?case
  proof (cases a)
    case None
    then show ?thesis using Suc.prems n tr_next_tally [OF Suc.prems(1)] by simp
  next
    case (Some op)
    obtain ops1 where o: "read_ops n r1 = (ops1, r')" "ops = op # ops1"
      using Suc.prems(2) n Some by (auto split: prod.splits)
    have "tally all_lines (Suc k) r1" "usable op" using tr_next_tally [OF Suc.prems(1)] n Some by simp_all
    then show ?thesis using Suc.IH [OF _ o(1)] o(2) by fastforce
  qed
qed simp

text \<open>The reader's statistics are exact: after any number of calls of next on a file, every line read was
  either skipped or parsed, exactly one operation was returned per parsed line, and every returned key is a
  non-empty string without line breaks. When next has returned false, every line of the file was read.\<close>

theorem reader_counters:
  "case read_ops n (reader_new content) of (ops, r) \<Rightarrow>
     rd_lines_read r = rd_lines_skipped r + rd_ops_parsed r \<and> rd_ops_parsed r = of_nat (length ops) \<and>
     list_all (\<lambda>op. op_key op \<noteq> [] \<and> CHR 0x0A \<notin> set (op_key op)) ops \<and>
     (length ops = n \<or> rd_stream r = [] \<and> rd_lines_read r = of_nat (length (file_lines content)))"
proof -
  obtain ops r where o: "read_ops n (reader_new content) = (ops, r)" by (cases "read_ops n (reader_new content)")
  have start: "tally (of_nat (length (file_lines content))) 0 (reader_new content)" by (simp add: tally_def reader_new_def)
  show ?thesis
    using read_ops_tally [OF start o] o by (auto simp: tally_def usable_def [abs_def] file_lines_Nil)
qed

text \<open>C36. The streaming reader computes what reading the whole file at once would: split into lines, trimmed,
  without blank lines and comments, the first data line deciding the format of all lines, malformed lines
  dropped, and cut after max_ops operations (0 for no limit). The callback interface passes the same
  operations to the callback in order and returns their number; a file that does not open is empty.\<close>

theorem trace_files_reference:
  "load_trace_file src max_ops = limit max_ops (case src of None \<Rightarrow> [] | Some content \<Rightarrow> trace_spec (file_lines content)) \<and>
   stream_trace_file fn src max_ops s =
     (of_nat (length (load_trace_file src max_ops)), fold fn (load_trace_file src max_ops) s)"
proof (cases src)
  case None
  then show ?thesis by (simp add: load_trace_file_def stream_trace_file_def limit_def)
next
  case (Some content)
  have start: "max_ops = 0 \<or> length ([] :: trace_op list) < unat max_ops" by (simp add: unat_gt_0)
  have "line_ops (file_lines content) (reader_new content) = trace_spec (file_lines content)"
    by (rule line_ops_spec) (simp add: reader_new_def)
  then show ?thesis
    using Some load_loop_ops [OF start, of "reader_new content"] stream_loop_load [OF start, of fn "reader_new content" s]
    by (simp add: load_trace_file_def stream_trace_file_def Let_def) (simp add: reader_new_def)
qed

end
