(* ===== verification/Trace_Roundtrip.thy ===== *)
theory Trace_Roundtrip
  imports Trace_Loader_Props
begin

text \<open>
  Printed traces read back: a printer for each of the two formats, and the proof that the reader of
  \<open>src/trace_loader.cpp\<close> returns the printed operations.
\<close>

section \<open>Printing\<close>

text \<open>The words the reader knows for an operation, in any mixture of cases.\<close>

definition op_words_of :: "op_type \<Rightarrow> string list" where
  "op_words_of t = (case t of GET \<Rightarrow> [''GET'', ''READ''] | PUT \<Rightarrow> [''PUT'', ''WRITE'', ''SET'', ''UPDATE'', ''INSERT''])"

definition keyword :: "op_type \<Rightarrow> string \<Rightarrow> bool" where
  "keyword t w \<longleftrightarrow> map to_upper w \<in> set (op_words_of t)"

definition plain :: "string \<Rightarrow> bool" where
  "plain s \<longleftrightarrow> s \<noteq> [] \<and> list_all (\<lambda>c. \<not> ws c \<and> c \<noteq> comma) s"

definition csv_key :: "string \<Rightarrow> bool" where
  "csv_key s \<longleftrightarrow> s \<noteq> [] \<and> trimmed s \<and> NL \<notin> set s \<and> comma \<notin> set s"

definition simple_line :: "string \<times> trace_op \<Rightarrow> string" where
  "simple_line = (\<lambda>(w, op). w @ '' '' @ op_key op)"

definition csv_line :: "string \<times> string \<times> trace_op \<Rightarrow> string" where
  "csv_line = (\<lambda>(ts, w, op). ts @ '','' @ w @ '','' @ op_key op)"

definition csv_header :: string where
  "csv_header = ''timestamp,op,key''"

definition print_lines :: "string \<Rightarrow> string list \<Rightarrow> string" where
  "print_lines eol ls = concat (map (\<lambda>l. l @ eol @ [NL]) ls)"

section \<open>Words and lines\<close>

lemma to_upper_separator: "ws c \<or> c = comma \<or> c = CHR ''#'' \<Longrightarrow> to_upper c = c"
  by (auto simp: ws_def to_upper_def)

lemma op_words_plain: "list_all (list_all (\<lambda>c. \<not> ws c \<and> c \<noteq> comma \<and> c \<noteq> CHR ''#'')) (op_words_of t)"
  by (cases t) (simp_all add: op_words_of_def ws_def)

lemma keyword_chars:
  assumes "keyword t w" shows "w \<noteq> []" and "\<forall>c \<in> set w. \<not> ws c \<and> c \<noteq> comma \<and> c \<noteq> CHR ''#''"
proof -
  show "w \<noteq> []" using assms by (cases t) (auto simp: keyword_def op_words_of_def)
  show "\<forall>c \<in> set w. \<not> ws c \<and> c \<noteq> comma \<and> c \<noteq> CHR ''#''"
  proof
    fix c assume "c \<in> set w"
    then have "to_upper c \<in> set (map to_upper w)" by simp
    then have "\<not> ws (to_upper c) \<and> to_upper c \<noteq> comma \<and> to_upper c \<noteq> CHR ''#''"
      using assms op_words_plain [of t] unfolding keyword_def list_all_iff by blast
    then show "\<not> ws c \<and> c \<noteq> comma \<and> c \<noteq> CHR ''#''" using to_upper_separator [of c] by metis
  qed
qed

lemma blank_ws: "blank c \<Longrightarrow> ws c"
  by (auto simp: blank_def ws_def)

lemma NL_ws: "ws NL"
  by (simp add: ws_def)

lemma trimmed_append: "trimmed a \<Longrightarrow> a \<noteq> [] \<Longrightarrow> trimmed b \<Longrightarrow> b \<noteq> [] \<Longrightarrow> trimmed (a @ x @ b)"
  by (simp add: trimmed_def)

lemma plain_chars: "plain s \<Longrightarrow> s \<noteq> [] \<and> trimmed s \<and> (\<forall>c \<in> set s. \<not> ws c \<and> c \<noteq> comma)"
  using trimmed_no_ws [of s] by (auto simp: plain_def list_all_iff)

lemma no_newline: "\<forall>c \<in> set s. \<not> ws c \<and> P c \<Longrightarrow> NL \<notin> set s"
  using NL_ws by blast

lemma parse_keyword:
  assumes "keyword t w" shows "parse_op_type w = t"
  using assms by (cases t) (auto simp: parse_op_type_def keyword_def op_words_of_def)

lemma parse_simple_word:
  assumes "find_first blank l = Some i" and "keyword t (substr l 0 i)" and "trim (drop (i + 1) l) \<noteq> []"
  shows "parse_simple l = Some \<lparr>op_type = t, op_key = first_token (trim (drop (i + 1) l))\<rparr>"
proof -
  obtain u where u: "map to_upper (substr l 0 i) = u" "u \<in> set (op_words_of t)"
    using assms(2) by (simp add: keyword_def)
  show ?thesis
    using assms(3) u(2) unfolding parse_simple_def assms(1) option.case Let_def u(1)
    by (cases t) (auto simp: op_words_of_def)
qed

lemma parse_simple_line:
  assumes "keyword (op_type op) w" and "plain (op_key op)"
  shows "parse_simple (simple_line (w, op)) = Some op"
proof -
  note w = keyword_chars [OF assms(1)]
  note k = plain_chars [OF assms(2)]
  have "find_first blank (w @ '' '' @ op_key op) = Some (length w)"
    using find_first_at [of w blank "CHR '' ''" "op_key op"] w(2) blank_ws by (auto simp: blank_def)
  moreover have "trim (op_key op) = op_key op" using k by (simp add: trim_id)
  moreover have "find_first blank (op_key op) = None" using k blank_ws by (intro find_first_None) blast
  then have "first_token (op_key op) = op_key op" by (simp add: first_token_def)
  moreover have "op_key op \<noteq> []" using k by simp
  ultimately show ?thesis
    using assms(1) parse_simple_word [of "simple_line (w, op)" "length w" "op_type op"]
    by (simp add: simple_line_def substr_def)
qed

lemma parse_csv_line:
  assumes "plain ts" and "keyword (op_type op) w" and "csv_key (op_key op)"
  shows "parse_csv (csv_line (ts, w, op)) = Some op"
proof -
  note w = keyword_chars [OF assms(2)]
  note ts = plain_chars [OF assms(1)]
  have f: "getline comma (ts @ '','' @ w @ '','' @ op_key op) = Some (ts, w @ '','' @ op_key op)"
      "getline comma (w @ '','' @ op_key op) = Some (w, op_key op)" "getline comma (op_key op) = Some (op_key op, [])"
    using getline_at [of comma ts] getline_at [of comma w] getline_last [of comma "op_key op"] ts w assms(3)
    by (auto simp: csv_key_def)
  have "trimmed w" using w(2) by (intro trimmed_no_ws) blast
  then have "trim w = w" "trim (op_key op) = op_key op" using assms(3) by (simp_all add: trim_id csv_key_def)
  then show ?thesis
    using assms(3) parse_keyword [OF assms(2)] f by (cases op) (simp add: parse_csv_def csv_line_def Let_def csv_key_def)
qed

text \<open>The lines of a printed file, trimmed, are the printed lines: a carriage return is no obstacle.\<close>

lemma print_lines_trim:
  assumes "list_all (\<lambda>l. trimmed l \<and> NL \<notin> set l) ls" and "eol \<in> {[], [CHR 0x0D]}"
  shows "map trim (file_lines (print_lines eol ls)) = ls"
proof -
  have eol: "all_ws eol" "NL \<notin> set eol" using assms(2) by (auto simp: ws_def)
  have "file_lines (print_lines eol ls) = map (\<lambda>l. l @ eol) ls"
    using assms(1) eol(2) file_lines_concat [of "map (\<lambda>l. l @ eol) ls"]
    by (simp add: print_lines_def list_all_iff o_def)
  moreover have "trim (l @ eol) = l" if "l \<in> set ls" for l
    using trim_middle [of "[]" eol l] eol(1) assms(1) that by (simp add: list_all_iff)
  ultimately show ?thesis by (simp add: map_idI)
qed

lemma map_filter_all: "(\<And>x. x \<in> set xs \<Longrightarrow> f (g x) = Some (h x)) \<Longrightarrow> List.map_filter f (map g xs) = map h xs"
  by (induction xs) (simp_all add: map_filter_simps)

lemma load_all: "load_trace_file (Some content) 0 = trace_spec (file_lines content)"
proof -
  have "line_ops (file_lines content) (reader_new content) = trace_spec (file_lines content)"
    by (rule line_ops_spec) (simp add: reader_new_def)
  then show ?thesis
    using load_loop_ops [of 0 "[]" "reader_new content"] by (simp add: load_trace_file_def limit_def) (simp add: reader_new_def)
qed

section \<open>Round trips\<close>

lemma simple_line_ok:
  assumes "keyword (op_type op) w" and "plain (op_key op)"
  shows "trimmed (simple_line (w, op)) \<and> NL \<notin> set (simple_line (w, op)) \<and> data_line (simple_line (w, op)) \<and>
    comma \<notin> set (simple_line (w, op))"
proof -
  note w = keyword_chars [OF assms(1)]
  note k = plain_chars [OF assms(2)]
  have "trimmed w" using w(2) by (intro trimmed_no_ws) blast
  then have "trimmed (simple_line (w, op))" using trimmed_append [of w "op_key op" "'' ''"] w(1) k by (simp add: simple_line_def)
  moreover have "hd w \<in> set w" using w(1) by simp
  ultimately show ?thesis
    using w k NL_ws by (auto simp: simple_line_def data_line_def)
qed

lemma csv_line_ok:
  assumes "plain ts" and "hd ts \<noteq> CHR ''#''" and "keyword (op_type op) w" and "csv_key (op_key op)"
  shows "trimmed (csv_line (ts, w, op)) \<and> NL \<notin> set (csv_line (ts, w, op)) \<and> data_line (csv_line (ts, w, op))"
proof -
  note w = keyword_chars [OF assms(3)]
  note ts = plain_chars [OF assms(1)]
  have "trimmed (csv_line (ts, w, op))"
    using trimmed_append [of ts "op_key op" "'','' @ w @ '',''"] ts assms(4) by (simp add: csv_line_def csv_key_def)
  then show ?thesis using w ts NL_ws assms(2,4) by (auto simp: csv_line_def data_line_def csv_key_def)
qed

text \<open>C37. Round trip of the simple format: a file with one line "word key" per operation, the word any of the
  reader's words for it in upper, lower or mixed case, loads as exactly those operations, with Unix or
  Windows line ends, provided that the keys are not empty and contain no white space and no comma.\<close>

theorem simple_roundtrip:
  assumes "list_all (\<lambda>(w, op). keyword (op_type op) w \<and> plain (op_key op)) xs" and "eol \<in> {[], [CHR 0x0D]}"
  shows "load_trace_file (Some (print_lines eol (map simple_line xs))) 0 = map snd xs"
proof -
  have ok: "trimmed (simple_line x) \<and> NL \<notin> set (simple_line x) \<and> data_line (simple_line x) \<and> comma \<notin> set (simple_line x)"
    and parse: "parse_simple (simple_line x) = Some (snd x)" if "x \<in> set xs" for x
    using assms(1) that simple_line_ok [of "snd x" "fst x"] parse_simple_line [of "snd x" "fst x"]
    by (auto simp: list_all_iff case_prod_beta)
  have "map trim (file_lines (print_lines eol (map simple_line xs))) = map simple_line xs"
    using ok by (intro print_lines_trim [OF _ assms(2)]) (auto simp: list_all_iff)
  then have lines: "data_lines (file_lines (print_lines eol (map simple_line xs))) = map simple_line xs"
    using ok by (auto simp: data_lines_def filter_id_conv)
  have "trace_spec (file_lines (print_lines eol (map simple_line xs))) = List.map_filter parse_simple (map simple_line xs)"
    using ok words_nonempty unfolding trace_spec_def lines
    by (cases xs) (simp_all add: second_word_def csv_second_comma map_filter_simps)
  then show ?thesis using map_filter_all [of xs parse_simple simple_line snd] parse by (simp add: load_all)
qed

theorem simple_roundtrip_witness:
  "load_trace_file (Some (print_lines [] (map simple_line
     [(''get'', \<lparr>op_type = GET, op_key = ''user:1''\<rparr>), (''Write'', \<lparr>op_type = PUT, op_key = ''k2''\<rparr>)]))) 0 =
   [\<lparr>op_type = GET, op_key = ''user:1''\<rparr>, \<lparr>op_type = PUT, op_key = ''k2''\<rparr>]"
proof -
  have "keyword GET ''get''" "keyword PUT ''Write''" by code_simp+
  then show ?thesis
    using simple_roundtrip [of "[(''get'', \<lparr>op_type = GET, op_key = ''user:1''\<rparr>), (''Write'', \<lparr>op_type = PUT, op_key = ''k2''\<rparr>)]" "[]"]
    by (simp add: plain_def ws_def)
qed

text \<open>C35. Round trip of the CSV format: a file with the header "timestamp,op,key" and one line per operation
  loads as exactly those operations, with Unix or Windows line ends. The keys may contain inner blanks, but
  no comma and no line break.\<close>

theorem csv_roundtrip:
  assumes "list_all (\<lambda>(ts, w, op). plain ts \<and> hd ts \<noteq> CHR ''#'' \<and> keyword (op_type op) w \<and> csv_key (op_key op)) xs"
    and "eol \<in> {[], [CHR 0x0D]}"
  shows "load_trace_file (Some (print_lines eol (csv_header # map csv_line xs))) 0 = map (\<lambda>(ts, w, op). op) xs"
proof -
  let ?ls = "csv_header # map csv_line xs"
  have ok: "trimmed (csv_line x) \<and> NL \<notin> set (csv_line x) \<and> data_line (csv_line x)"
    and parse: "parse_csv (csv_line x) = Some (case x of (ts, w, op) \<Rightarrow> op)" if "x \<in> set xs" for x
    using assms(1) that csv_line_ok [of "fst x" "snd (snd x)" "fst (snd x)"] parse_csv_line [of "fst x" "snd (snd x)" "fst (snd x)"]
    by (auto simp: list_all_iff case_prod_beta)
  have header: "trimmed csv_header" "NL \<notin> set csv_header" "data_line csv_header"
    by (simp_all add: csv_header_def trimmed_def ws_def data_line_def)
  have "second_word csv_header = ''op''" by code_simp
  then have word: "second_word csv_header \<in> set header_words" by (simp add: header_words_def)
  have "map trim (file_lines (print_lines eol ?ls)) = ?ls"
    using ok header by (intro print_lines_trim [OF _ assms(2)]) (auto simp: list_all_iff)
  then have lines: "data_lines (file_lines (print_lines eol ?ls)) = ?ls"
    using ok header(3) by (auto simp: data_lines_def filter_id_conv)
  have "trace_spec (file_lines (print_lines eol ?ls)) = List.map_filter parse_csv (map csv_line xs)"
    using word by (simp add: trace_spec_def lines)
  then show ?thesis
    using map_filter_all [of xs parse_csv csv_line "\<lambda>(ts, w, op). op"] parse by (simp add: load_all)
qed

theorem csv_roundtrip_witness:
  "load_trace_file (Some (print_lines [CHR 0x0D] (csv_header # map csv_line
     [(''1000'', ''GET'', \<lparr>op_type = GET, op_key = ''user 1''\<rparr>), (''1001'', ''set'', \<lparr>op_type = PUT, op_key = ''k2''\<rparr>)]))) 0 =
   [\<lparr>op_type = GET, op_key = ''user 1''\<rparr>, \<lparr>op_type = PUT, op_key = ''k2''\<rparr>]"
proof -
  have "keyword GET ''GET''" "keyword PUT ''set''" by code_simp+
  then show ?thesis
    using csv_roundtrip [of "[(''1000'', ''GET'', \<lparr>op_type = GET, op_key = ''user 1''\<rparr>), (''1001'', ''set'', \<lparr>op_type = PUT, op_key = ''k2''\<rparr>)]"
        "[CHR 0x0D]"]
    by (simp add: plain_def ws_def csv_key_def trimmed_def)
qed

end
