(* ===== verification/Workload.thy ===== *)
theory Workload
  imports Prelude Complex_Main
begin

text \<open>
  The synthetic workload (\<open>include/workload_generator.h\<close>, \<open>src/workload_generator.cpp\<close>): Zipf-distributed
  keys and a read/write mix with bursts of scans. A \<open>double\<close> is the rational it denotes; every arithmetic
  operation rounds its exact result with the parameter \<open>fl\<close>, and \<open>std::pow\<close> is the parameter \<open>pow\<close>.
  \<open>rng seed n\<close> is the \<open>n\<close>-th draw of \<open>uniform_real_distribution<double>(0, 1)\<close> from the 64-bit Mersenne
  Twister with that seed, a draw in \<open>[0, 1)\<close>; a generator keeps its seed and the number of draws made.
\<close>

type_synonym rng = "u64 \<Rightarrow> nat \<Rightarrow> rat"

definition rounding :: "(rat \<Rightarrow> rat) \<Rightarrow> bool" where
  "rounding fl \<longleftrightarrow> mono fl \<and> (\<forall>x. fl (fl x) = fl x) \<and> (\<forall>k \<le> 2 ^ 53. fl (of_nat k) = of_nat k)"

definition uniform01 :: "rng \<Rightarrow> bool" where
  "uniform01 rng \<longleftrightarrow> (\<forall>seed n. 0 \<le> rng seed n \<and> rng seed n < 1)"

text \<open>\<open>static_cast<uint32_t>\<close> truncates, and is undefined out of range; \<open>std::to_string\<close> is decimal.\<close>

definition f64_to_u32 :: "rat \<Rightarrow> u32 option" where
  "f64_to_u32 x = (if - 1 < x \<and> x < 2 ^ 32 then Some (of_nat (nat \<lfloor>x\<rfloor>)) else None)"

fun to_string :: "nat \<Rightarrow> string" where
  "to_string n = (if n < 10 then [char_of (48 + n)] else to_string (n div 10) @ [char_of (48 + n mod 10)])"

declare to_string.simps [simp del]

section \<open>Zipf-distributed keys\<close>

record zipf =
  zg_num_keys :: u32
  zg_alpha :: rat
  zg_seed :: u64
  zg_draws :: nat
  zg_cdf :: "rat list"

text \<open>One weight. Where \<open>std::pow\<close> underflows to 0 (a very negative exponent) the code gets an infinite weight, and NaN in the
  sums; the rational model has neither, and its quotient is 0.\<close>

definition zipf_weight :: "(rat \<Rightarrow> rat) \<Rightarrow> (rat \<Rightarrow> rat \<Rightarrow> rat) \<Rightarrow> rat \<Rightarrow> u32 \<Rightarrow> rat" where
  "zipf_weight fl pow alpha i = fl (1 / pow (of_nat (unat i)) alpha)"

partial_function (option) harmonic_loop ::
    "(rat \<Rightarrow> rat) \<Rightarrow> (rat \<Rightarrow> rat \<Rightarrow> rat) \<Rightarrow> rat \<Rightarrow> u32 \<Rightarrow> u32 \<Rightarrow> rat \<Rightarrow> rat option" where
  "harmonic_loop fl pow alpha num_keys i harmonic =
     (if i \<le> num_keys
      then harmonic_loop fl pow alpha num_keys (i + 1) (fl (harmonic + zipf_weight fl pow alpha i))
      else Some harmonic)"

definition cdf_step ::
    "(rat \<Rightarrow> rat) \<Rightarrow> (rat \<Rightarrow> rat \<Rightarrow> rat) \<Rightarrow> rat \<Rightarrow> rat \<Rightarrow> u32 \<Rightarrow> rat \<times> rat list \<Rightarrow> (rat \<times> rat list) option" where
  "cdf_step fl pow alpha harmonic i = (\<lambda>(cumulative, cdf). do {
     let cumulative = fl (cumulative + fl (zipf_weight fl pow alpha (i + 1) / harmonic));
     cdf \<leftarrow> vset cdf i cumulative;
     Some (cumulative, cdf)
   })"

definition zipf_new :: "(rat \<Rightarrow> rat) \<Rightarrow> (rat \<Rightarrow> rat \<Rightarrow> rat) \<Rightarrow> u32 \<Rightarrow> rat \<Rightarrow> u64 \<Rightarrow> zipf option" where
  "zipf_new fl pow num_keys alpha seed = do {
     harmonic \<leftarrow> harmonic_loop fl pow alpha num_keys 1 0;
     (_, cdf) \<leftarrow> ofold (cdf_step fl pow alpha harmonic) (upto32 num_keys) (0, replicate (unat num_keys) 0);
     cdf \<leftarrow> vset cdf (num_keys - 1) 1;
     Some \<lparr>zg_num_keys = num_keys, zg_alpha = alpha, zg_seed = seed, zg_draws = 0, zg_cdf = cdf\<rparr>
   }"

text \<open>\<open>std::lower_bound\<close>: the binary search of the standard library, on positions.\<close>

function lower_bound :: "rat list \<Rightarrow> rat \<Rightarrow> nat \<Rightarrow> nat \<Rightarrow> nat" where
  "lower_bound xs u first len =
     (if len > 0
      then let half = len div 2; middle = first + half
           in if xs ! middle < u then lower_bound xs u (middle + 1) (len - half - 1) else lower_bound xs u first half
      else first)"
  by pat_completeness auto
termination by (relation "measure (\<lambda>(xs, u, first, len). len)") auto

declare lower_bound.simps [simp del]

definition zipf_next_index :: "rng \<Rightarrow> zipf \<Rightarrow> u32 \<times> zipf" where
  "zipf_next_index rng z =
     (let u = rng (zg_seed z) (zg_draws z)
      in (of_nat (lower_bound (zg_cdf z) u 0 (length (zg_cdf z))), z\<lparr>zg_draws := zg_draws z + 1\<rparr>))"

definition zipf_next_key :: "rng \<Rightarrow> zipf \<Rightarrow> string \<times> zipf" where
  "zipf_next_key rng z = (let (i, z) = zipf_next_index rng z in (''key_'' @ to_string (unat i), z))"

section \<open>The generator\<close>

datatype workload_type = GET | PUT

record workload_op =
  wo_type :: workload_type
  wo_key :: string
  wo_value :: string

record workload_config =
  wc_num_keys :: u32
  wc_zipf_alpha :: rat
  wc_write_ratio :: rat
  wc_scan_probability :: rat
  wc_scan_length :: u32
  wc_seed :: u64

record generator =
  wg_config :: workload_config
  wg_zipf :: zipf
  wg_seed :: u64
  wg_draws :: nat
  wg_actual_scan_prob :: rat
  wg_scan_remaining :: u32
  wg_scan_offset :: u32
  wg_ops_generated :: u64

definition actual_scan_prob :: "(rat \<Rightarrow> rat) \<Rightarrow> workload_config \<Rightarrow> rat" where
  "actual_scan_prob fl config =
     (let R = wc_scan_probability config; S = of_nat (unat (wc_scan_length config))
      in if R > 0 \<and> R < 1 then fl (R / fl (fl (S * fl (1 - R)) + R)) else R)"

definition generator_new :: "(rat \<Rightarrow> rat) \<Rightarrow> (rat \<Rightarrow> rat \<Rightarrow> rat) \<Rightarrow> workload_config \<Rightarrow> generator option" where
  "generator_new fl pow config = do {
     z \<leftarrow> zipf_new fl pow (wc_num_keys config) (wc_zipf_alpha config) (wc_seed config);
     Some \<lparr>wg_config = config, wg_zipf = z, wg_seed = wc_seed config + 1, wg_draws = 0,
       wg_actual_scan_prob = actual_scan_prob fl config, wg_scan_remaining = 0, wg_scan_offset = 0, wg_ops_generated = 0\<rparr>
   }"

definition draw :: "rng \<Rightarrow> generator \<Rightarrow> rat \<times> generator" where
  "draw rng g = (rng (wg_seed g) (wg_draws g), g\<lparr>wg_draws := wg_draws g + 1\<rparr>)"

definition scan_op :: "generator \<Rightarrow> workload_op \<times> generator" where
  "scan_op g =
     (let g = g\<lparr>wg_scan_remaining := wg_scan_remaining g - 1\<rparr>;
          key = ''scan_'' @ to_string (unat (wg_scan_offset g + wg_scan_remaining g))
      in (\<lparr>wo_type = GET, wo_key = key, wo_value = []\<rparr>, g))"

definition normal_op :: "rng \<Rightarrow> generator \<Rightarrow> workload_op \<times> generator" where
  "normal_op rng g =
     (let (key, z) = zipf_next_key rng (wg_zipf g);
          (u, g) = draw rng (g\<lparr>wg_zipf := z\<rparr>)
      in if u < wc_write_ratio (wg_config g)
         then (\<lparr>wo_type = PUT, wo_key = key, wo_value = ''val_'' @ to_string (unat (wg_ops_generated g))\<rparr>, g)
         else (\<lparr>wo_type = GET, wo_key = key, wo_value = []\<rparr>, g))"

text \<open>\<open>next\<close> calls itself to emit the first key of a scan; \<open>None\<close> is a recursion that does not end.\<close>

partial_function (option) wg_next :: "(rat \<Rightarrow> rat) \<Rightarrow> rng \<Rightarrow> generator \<Rightarrow> (workload_op \<times> generator) option" where
  "wg_next fl rng g =
     (let g = g\<lparr>wg_ops_generated := wg_ops_generated g + 1\<rparr>
      in if wg_scan_remaining g > 0 then Some (scan_op g)
         else let (u, g) = draw rng g
         in if u < wg_actual_scan_prob g
            then let g = g\<lparr>wg_scan_remaining := wc_scan_length (wg_config g)\<rparr>; (u, g) = draw rng g
                 in f64_to_u32 (fl (fl (u * of_nat (unat (wc_num_keys (wg_config g)))) * 10)) \<bind>
                      (\<lambda>offset. wg_next fl rng (g\<lparr>wg_scan_offset := offset\<rparr>))
            else Some (normal_op rng g))"

definition generate_batch :: "(rat \<Rightarrow> rat) \<Rightarrow> rng \<Rightarrow> u32 \<Rightarrow> generator \<Rightarrow> (workload_op list \<times> generator) option" where
  "generate_batch fl rng count g =
     ofold (\<lambda>_ (ops, g). do { (op, g) \<leftarrow> wg_next fl rng g; Some (ops @ [op], g) }) (upto32 count) ([], g)"

end
