(* ===== verification/Workload_Props.thy ===== *)
theory Workload_Props
  imports Workload
begin

text \<open>
  What the workload generator produces: keys sampled by inversion of the Zipf distribution, scan bursts,
  the volume the scans make up, and that batches can always be generated, except with scans of length 0.
\<close>

section \<open>Binary search\<close>

definition partitioned :: "rat list \<Rightarrow> rat \<Rightarrow> bool" where
  "partitioned xs u \<longleftrightarrow> (\<forall>i j. i \<le> j \<and> j < length xs \<and> xs ! j < u \<longrightarrow> xs ! i < u)"

lemma partitionedD: "partitioned xs u \<Longrightarrow> i \<le> j \<Longrightarrow> j < length xs \<Longrightarrow> xs ! j < u \<Longrightarrow> xs ! i < u"
  unfolding partitioned_def by blast

lemma lower_bound_ok:
  assumes "partitioned xs u" and "first + len \<le> length xs"
    and "\<forall>i < first. xs ! i < u" and "\<forall>i. first + len \<le> i \<and> i < length xs \<longrightarrow> u \<le> xs ! i"
  shows "lower_bound xs u first len \<le> length xs \<and> (\<forall>i < lower_bound xs u first len. xs ! i < u) \<and>
    (\<forall>i. lower_bound xs u first len \<le> i \<and> i < length xs \<longrightarrow> u \<le> xs ! i)"
  using assms
proof (induction xs u first len rule: lower_bound.induct)
  case (1 xs u first len)
  let ?half = "len div 2"
  let ?mid = "first + ?half"
  show ?case
  proof (cases "len > 0")
    case True
    have mid: "?mid < length xs" using True 1(4) by linarith
    show ?thesis
    proof (cases "xs ! ?mid < u")
      case small: True
      have eq: "lower_bound xs u first len = lower_bound xs u (?mid + 1) (len - ?half - 1)"
        using True small by (simp add: lower_bound.simps [of xs u first] Let_def)
      have lo: "\<forall>i < ?mid + 1. xs ! i < u" using partitionedD [OF 1(3) _ mid small] by simp
      have "?mid + 1 + (len - ?half - 1) = first + len" using True by linarith
      then show ?thesis unfolding eq using 1(1) [OF True refl refl small 1(3) _ lo] 1(4,6) by simp
    next
      case large: False
      have eq: "lower_bound xs u first len = lower_bound xs u first ?half"
        using True large by (simp add: lower_bound.simps [of xs u first] Let_def)
      have hi: "u \<le> xs ! i" if "?mid \<le> i" "i < length xs" for i
      proof (rule ccontr)
        assume "\<not> u \<le> xs ! i"
        then have "xs ! ?mid < u" by (intro partitionedD [OF 1(3) that]) simp
        then show False using large by simp
      qed
      show ?thesis unfolding eq using hi by (intro 1(2) [OF True refl refl large 1(3) less_imp_le [OF mid] 1(5)]) blast
    qed
  next
    case False
    then show ?thesis using 1(4-6) by (simp add: lower_bound.simps [of xs u first])
  qed
qed

section \<open>The Zipf table\<close>

lemma rounding_simps:
  assumes "rounding fl" shows "fl 0 = 0" and "fl 1 = 1" and "fl (fl x) = fl x" and "x \<le> y \<Longrightarrow> fl x \<le> fl y"
proof -
  have int: "fl (of_nat k) = of_nat k" if "k \<le> 2 ^ 53" for k using assms that by (simp add: rounding_def)
  show "fl 0 = 0" "fl 1 = 1" using int [of 0] int [of 1] by simp_all
  show "fl (fl x) = fl x" and "x \<le> y \<Longrightarrow> fl x \<le> fl y" using assms by (simp_all add: rounding_def mono_def)
qed

lemma fl_add_ge: "rounding fl \<Longrightarrow> fl c = c \<Longrightarrow> 0 \<le> x \<Longrightarrow> c \<le> fl (c + x)"
  using rounding_simps(4) [of fl c "c + x"] by simp

lemma fl_nonneg: "rounding fl \<Longrightarrow> 0 \<le> x \<Longrightarrow> 0 \<le> fl x"
  using rounding_simps(1) [of fl] rounding_simps(4) [of fl 0 x] by simp

lemma weight_nonneg: "rounding fl \<Longrightarrow> (\<And>x y. 0 \<le> pow x y) \<Longrightarrow> 0 \<le> zipf_weight fl pow alpha i"
  by (simp add: zipf_weight_def fl_nonneg)

lemma harmonic_loop_fold:
  assumes "unat n < 2 ^ 32 - 1" and "k \<le> unat n"
  shows "harmonic_loop fl pow alpha n (of_nat (Suc (unat n - k))) h =
    Some (fold (\<lambda>i h. fl (h + zipf_weight fl pow alpha (of_nat i))) [Suc (unat n - k)..<Suc (unat n)] h)"
  using assms(2)
proof (induction k arbitrary: h)
  case 0
  have "unat (of_nat (Suc (unat n)) :: u32) = Suc (unat n)" using assms(1) by (intro unat_of_nat_u32) simp
  then have "\<not> (of_nat (Suc (unat n)) :: u32) \<le> n" unfolding word_le_nat_alt by linarith
  then show ?case by (simp add: harmonic_loop.simps del: of_nat_Suc)
next
  case (Suc k)
  obtain i where i: "i = Suc (unat n - Suc k)" "Suc i = Suc (unat n - k)" "i \<le> unat n" using Suc.prems by auto
  then have "unat (of_nat i :: u32) = i" using assms(1) by (intro unat_of_nat_u32) simp
  then have "(of_nat i :: u32) \<le> n" using i(3) unfolding word_le_nat_alt by simp
  then have "harmonic_loop fl pow alpha n (of_nat i) h =
      harmonic_loop fl pow alpha n (of_nat (Suc i)) (fl (h + zipf_weight fl pow alpha (of_nat i)))"
    by (subst harmonic_loop.simps) (simp add: add.commute)
  then show ?case
    using Suc.IH [of "fl (h + zipf_weight fl pow alpha (of_nat i))"] Suc.prems i(3)
    unfolding i(1) [symmetric] i(2) [symmetric] by (simp add: upt_conv_Cons del: of_nat_Suc upt_Suc)
qed

definition harmonic :: "(rat \<Rightarrow> rat) \<Rightarrow> (rat \<Rightarrow> rat \<Rightarrow> rat) \<Rightarrow> rat \<Rightarrow> nat \<Rightarrow> rat" where
  "harmonic fl pow alpha n = fold (\<lambda>i h. fl (h + zipf_weight fl pow alpha (of_nat i))) [1..<Suc n] 0"

lemma harmonic_loop_ok:
  assumes "unat n < 2 ^ 32 - 1"
  shows "harmonic_loop fl pow alpha n 1 0 = Some (harmonic fl pow alpha (unat n))"
  using harmonic_loop_fold [OF assms order_refl, of fl pow alpha 0] by (simp add: harmonic_def)

lemma harmonic_nonneg:
  assumes "rounding fl" and "\<And>x y. 0 \<le> pow x y" shows "0 \<le> harmonic fl pow alpha n"
proof -
  have "0 \<le> h \<Longrightarrow> 0 \<le> fold (\<lambda>i h. fl (h + zipf_weight fl pow alpha (of_nat i))) xs h" for xs h
  proof (induction xs arbitrary: h)
    case (Cons i xs)
    then show ?case using fl_nonneg [OF assms(1)] weight_nonneg [where fl=fl and pow=pow, OF assms] by simp
  qed simp
  then show ?thesis by (simp add: harmonic_def)
qed

text \<open>The table after \<open>k\<close> steps, as a recursive sum.\<close>

primrec cumulative :: "(rat \<Rightarrow> rat) \<Rightarrow> (rat \<Rightarrow> rat \<Rightarrow> rat) \<Rightarrow> rat \<Rightarrow> rat \<Rightarrow> nat \<Rightarrow> rat" where
  "cumulative fl pow alpha h 0 = 0"
| "cumulative fl pow alpha h (Suc k) =
     fl (cumulative fl pow alpha h k + fl (zipf_weight fl pow alpha (of_nat k + 1) / h))"

lemma cdf_fold:
  assumes "k \<le> n" and "n < 2 ^ 32"
  shows "ofold (cdf_step fl pow alpha h) (map of_nat [0..<k]) (0, replicate n 0) =
    Some (cumulative fl pow alpha h k, map (\<lambda>i. cumulative fl pow alpha h (Suc i)) [0..<k] @ replicate (n - k) 0)"
  using assms(1)
proof (induction k)
  case (Suc k)
  have k: "unat (of_nat k :: u32) = k" using Suc.prems assms(2) by (intro unat_of_nat_u32) simp
  obtain m where m: "n - k = Suc m" "n - Suc k = m" using Suc.prems by (metis Suc_diff_Suc Suc_le_lessD)
  show ?case
    using Suc k m by (simp add: cdf_step_def vset_def list_update_append Let_def)
qed simp

lemma zipf_new_ok:
  assumes "0 < num_keys" and "unat num_keys < 2 ^ 32 - 1" and h: "h = harmonic fl pow alpha (unat num_keys)"
  shows "zipf_new fl pow num_keys alpha seed =
    Some \<lparr>zg_num_keys = num_keys, zg_alpha = alpha, zg_seed = seed, zg_draws = 0,
      zg_cdf = (map (\<lambda>i. cumulative fl pow alpha h (Suc i)) [0..<unat num_keys])[unat num_keys - 1 := 1]\<rparr>"
proof -
  have n: "0 < unat num_keys" using assms(1) by (simp add: unat_gt_0 word_gt_0)
  then have "unat (num_keys - 1) = unat num_keys - 1" by (rule unat_pred_u32)
  then show ?thesis
    using cdf_fold [of "unat num_keys" "unat num_keys" fl pow alpha h] harmonic_loop_ok [OF assms(2), of fl pow alpha] n assms(2)
    by (simp add: zipf_new_def upto32_def vset_def h)
qed

lemma zipf_new_some: "0 < num_keys \<Longrightarrow> unat num_keys < 2 ^ 32 - 1 \<Longrightarrow> zipf_new fl pow num_keys alpha seed \<noteq> None"
  using zipf_new_ok [OF _ _ refl] by simp

lemma cumulative_mono:
  assumes "rounding fl" and "\<And>x y. 0 \<le> pow x y" and "0 \<le> h" and "i \<le> j"
  shows "cumulative fl pow alpha h i \<le> cumulative fl pow alpha h j"
  using assms(4)
proof (induction rule: dec_induct)
  case (step k)
  have "fl (cumulative fl pow alpha h k) = cumulative fl pow alpha h k"
    using rounding_simps [OF assms(1)] by (cases k) simp_all
  moreover have "0 \<le> fl (zipf_weight fl pow alpha (of_nat k + 1) / h)"
    using assms(3) by (intro fl_nonneg [OF assms(1)] divide_nonneg_nonneg weight_nonneg [OF assms(1,2)])
  ultimately have "cumulative fl pow alpha h k \<le> cumulative fl pow alpha h (Suc k)"
    using fl_add_ge [OF assms(1)] by simp
  then show ?case using step.IH by simp
qed simp

text \<open>A table that ends in 1 and is sorted before that is searched correctly for every draw below 1.\<close>

definition zipf_table :: "u32 \<Rightarrow> rat list \<Rightarrow> bool" where
  "zipf_table num_keys xs \<longleftrightarrow> 0 < num_keys \<and> length xs = unat num_keys \<and> xs ! (unat num_keys - 1) = 1 \<and>
     (\<forall>i j. i \<le> j \<and> j < unat num_keys - 1 \<longrightarrow> xs ! i \<le> xs ! j)"

lemma zipf_new_table:
  assumes "rounding fl" and "\<And>x y. 0 \<le> pow x y" and "0 < num_keys" and "unat num_keys < 2 ^ 32 - 1"
  obtains z where "zipf_new fl pow num_keys alpha seed = Some z" and "zipf_table num_keys (zg_cdf z)"
    and "zg_num_keys z = num_keys" and "zg_seed z = seed" and "zg_draws z = 0"
proof -
  have n: "0 < unat num_keys" using assms(3) by (simp add: unat_gt_0 word_gt_0)
  let ?h = "harmonic fl pow alpha (unat num_keys)"
  define cdf where "cdf = (map (\<lambda>i. cumulative fl pow alpha ?h (Suc i)) [0..<unat num_keys])[unat num_keys - 1 := 1]"
  have h: "0 \<le> ?h" by (rule harmonic_nonneg [OF assms(1,2)])
  have "cdf ! i \<le> cdf ! j" if "i \<le> j" "j < unat num_keys - 1" for i j
  proof -
    have "i < unat num_keys" "j < unat num_keys" using that by auto
    then show ?thesis
      using that cumulative_mono [where fl=fl and pow=pow, OF assms(1,2) h, of "Suc i" "Suc j" alpha]
      by (simp add: cdf_def del: cumulative.simps)
  qed
  moreover have "length cdf = unat num_keys" "cdf ! (unat num_keys - 1) = 1" using n by (simp_all add: cdf_def)
  ultimately have "zipf_table num_keys cdf" using assms(3) unfolding zipf_table_def by blast
  then show ?thesis using that zipf_new_ok [OF assms(3,4) refl, of fl pow alpha seed] unfolding cdf_def by simp
qed

lemma zipf_search:
  assumes "zipf_table n xs" and "u < 1"
  defines "r \<equiv> lower_bound xs u 0 (length xs)"
  shows "r < unat n" and "u \<le> xs ! r" and "\<forall>j < r. xs ! j < u"
proof -
  let ?n = "unat n"
  have n: "0 < ?n" "length xs = ?n" using assms(1) by (auto simp: zipf_table_def unat_gt_0 word_gt_0)
  have last: "u \<le> xs ! (?n - 1)" using assms(1,2) by (simp add: zipf_table_def)
  have "partitioned xs u"
    unfolding partitioned_def
  proof (intro allI impI)
    fix i j assume ij: "i \<le> j \<and> j < length xs \<and> xs ! j < u"
    then have "j \<noteq> ?n - 1" using last by auto
    then have "xs ! i \<le> xs ! j" using ij n assms(1) by (auto simp: zipf_table_def)
    then show "xs ! i < u" using ij by simp
  qed
  then have r: "r \<le> length xs" "\<forall>i < r. xs ! i < u" "\<forall>i. r \<le> i \<and> i < length xs \<longrightarrow> u \<le> xs ! i"
    using lower_bound_ok [of xs u 0 "length xs"] unfolding r_def by auto
  show "r < ?n"
  proof (rule ccontr)
    assume "\<not> r < ?n"
    then have "xs ! (?n - 1) < u" using r(1,2) n by simp
    then show False using last by simp
  qed
  then show "u \<le> xs ! r" "\<forall>j < r. xs ! j < u" using r n by auto
qed

lemma zipf_next_index_ok:
  assumes "zipf_table n (zg_cdf z)" and "uniform01 rng"
  obtains i where "zipf_next_index rng z = (i, z\<lparr>zg_draws := zg_draws z + 1\<rparr>)" and "i < n"
    and "rng (zg_seed z) (zg_draws z) \<le> zg_cdf z ! unat i" and "\<forall>j < unat i. zg_cdf z ! j < rng (zg_seed z) (zg_draws z)"
proof -
  let ?r = "lower_bound (zg_cdf z) (rng (zg_seed z) (zg_draws z)) 0 (length (zg_cdf z))"
  have r: "?r < unat n" "rng (zg_seed z) (zg_draws z) \<le> zg_cdf z ! ?r" "\<forall>j < ?r. zg_cdf z ! j < rng (zg_seed z) (zg_draws z)"
    using zipf_search [OF assms(1)] assms(2) by (simp_all add: uniform01_def)
  moreover have "unat (of_nat ?r :: u32) = ?r" using r(1) unat_u32_bound [of n] by (intro unat_of_nat_u32) simp
  ultimately show ?thesis using that [of "of_nat ?r"] by (simp add: zipf_next_index_def word_less_nat_alt)
qed

section \<open>Batches\<close>

text \<open>A batch as a recursion: \<open>count\<close> calls of \<open>next\<close>.\<close>

primrec wg_run :: "(rat \<Rightarrow> rat) \<Rightarrow> rng \<Rightarrow> nat \<Rightarrow> generator \<Rightarrow> (workload_op list \<times> generator) option" where
  "wg_run fl rng 0 g = Some ([], g)"
| "wg_run fl rng (Suc n) g = do { (op, g) \<leftarrow> wg_next fl rng g; (ops, g) \<leftarrow> wg_run fl rng n g; Some (op # ops, g) }"

lemma batch_run:
  "ofold (\<lambda>_ (ops, g). do { (op, g) \<leftarrow> wg_next fl rng g; Some (ops @ [op], g) }) xs (ops, g) =
     wg_run fl rng (length xs) g \<bind> (\<lambda>(ops', g). Some (ops @ ops', g))"
proof (induction xs arbitrary: ops g)
  case (Cons x xs)
  show ?case by (cases "wg_next fl rng g") (auto simp: Cons.IH split: prod.split bind_split)
qed simp

lemma generate_batch_run: "generate_batch fl rng count g = wg_run fl rng (unat count) g"
  by (simp add: generate_batch_def batch_run)

text \<open>The three ways a call of \<open>next\<close> can go.\<close>

abbreviation count_op :: "generator \<Rightarrow> generator" where
  "count_op g \<equiv> g\<lparr>wg_ops_generated := wg_ops_generated g + 1\<rparr>"

abbreviation scan_starts :: "rng \<Rightarrow> generator \<Rightarrow> bool" where
  "scan_starts rng g \<equiv> wg_scan_remaining g = 0 \<and> rng (wg_seed g) (wg_draws g) < wg_actual_scan_prob g"

definition scan_begin :: "u32 \<Rightarrow> generator \<Rightarrow> generator" where
  "scan_begin offset g = g\<lparr>wg_ops_generated := wg_ops_generated g + 1,
     wg_scan_remaining := wc_scan_length (wg_config g), wg_draws := wg_draws g + 2, wg_scan_offset := offset\<rparr>"

definition scan_offset_of :: "(rat \<Rightarrow> rat) \<Rightarrow> rng \<Rightarrow> generator \<Rightarrow> u32 option" where
  "scan_offset_of fl rng g =
     f64_to_u32 (fl (fl (rng (wg_seed g) (wg_draws g + 1) * of_nat (unat (wc_num_keys (wg_config g)))) * 10))"

lemma next_scanning: "0 < wg_scan_remaining g \<Longrightarrow> wg_next fl rng g = Some (scan_op (count_op g))"
  by (simp add: wg_next.simps [of fl rng g] Let_def)

lemma next_start:
  "scan_starts rng g \<Longrightarrow> wg_next fl rng g = scan_offset_of fl rng g \<bind> (\<lambda>offset. wg_next fl rng (scan_begin offset g))"
  by (subst wg_next.simps) (simp add: Let_def draw_def scan_begin_def scan_offset_of_def)

lemma next_normal:
  "wg_scan_remaining g = 0 \<Longrightarrow> \<not> rng (wg_seed g) (wg_draws g) < wg_actual_scan_prob g \<Longrightarrow>
     wg_next fl rng g = Some (normal_op rng ((count_op g)\<lparr>wg_draws := wg_draws g + 1\<rparr>))"
  by (simp add: wg_next.simps [of fl rng g] Let_def draw_def)

definition scan_get :: "u32 \<Rightarrow> workload_op" where
  "scan_get i = \<lparr>wo_type = GET, wo_key = ''scan_'' @ to_string (unat i), wo_value = []\<rparr>"

lemma scan_run:
  assumes "unat (wg_scan_remaining g) = k"
  shows "wg_run fl rng k g = Some (map (\<lambda>i. scan_get (wg_scan_offset g + of_nat i)) (rev [0..<k]),
    g\<lparr>wg_scan_remaining := 0, wg_ops_generated := wg_ops_generated g + of_nat k\<rparr>)"
  using assms
proof (induction k arbitrary: g)
  case 0
  then show ?case by (simp add: unsigned_eq_0_iff)
next
  case (Suc k)
  have pos: "0 < wg_scan_remaining g" using Suc.prems by (simp add: word_gt_0_no word_less_nat_alt)
  have k: "unat (wg_scan_remaining g - 1) = k" using unat_pred_u32 [of "wg_scan_remaining g"] Suc.prems by simp
  then have w: "wg_scan_remaining g - 1 = of_nat k" unfolding k [symmetric] by simp
  show ?case
    using Suc.IH [of "(count_op g)\<lparr>wg_scan_remaining := wg_scan_remaining g - 1\<rparr>"] k w next_scanning [OF pos, of fl rng]
    by (simp add: scan_op_def Let_def scan_get_def ac_simps)
qed

text \<open>A call of \<open>next\<close> recurses at most once when scans are not empty.\<close>

lemma next_cases:
  assumes "0 < wc_scan_length (wg_config g) \<or> \<not> scan_starts rng g"
  obtains (normal) "wg_scan_remaining g = 0"
      "wg_next fl rng g = Some (normal_op rng ((count_op g)\<lparr>wg_draws := wg_draws g + 1\<rparr>))"
  | (scanning) "wg_next fl rng g = Some (scan_op (count_op g))" "0 < wg_scan_remaining g"
  | (start) offset where "scan_starts rng g" "scan_offset_of fl rng g = Some offset"
      "wg_next fl rng g = Some (scan_op (count_op (scan_begin offset g)))"
  | (stuck) "scan_starts rng g" "scan_offset_of fl rng g = None"
proof (cases "wg_scan_remaining g = 0")
  case True
  show ?thesis
  proof (cases "scan_starts rng g")
    case s: True
    note st = next_start [of g rng fl, OF s]
    from s have "0 < wc_scan_length (wg_config g)" using assms by blast
    then have "wg_next fl rng (scan_begin offset g) = Some (scan_op (count_op (scan_begin offset g)))" for offset
      by (intro next_scanning) (simp add: scan_begin_def)
    then show ?thesis using s start stuck st by (cases "scan_offset_of fl rng g") auto
  next
    case False
    then show ?thesis using True normal next_normal [of g rng fl] by simp
  qed
next
  case False
  then have "0 < wg_scan_remaining g" by (simp add: word_gt_0)
  then show ?thesis using scanning next_scanning by blast
qed

section \<open>Well-formed generators\<close>

definition generator_ok :: "u32 \<Rightarrow> generator \<Rightarrow> bool" where
  "generator_ok n g \<longleftrightarrow> zipf_table n (zg_cdf (wg_zipf g)) \<and> wc_num_keys (wg_config g) = n \<and>
     (0 < wc_scan_length (wg_config g) \<or> wg_actual_scan_prob g \<le> 0)"

text \<open>What an operation can be: a read or a write of one of the \<open>n\<close> keys, or a read of a scan key.\<close>

definition op_ok :: "u32 \<Rightarrow> workload_op \<Rightarrow> bool" where
  "op_ok n op \<longleftrightarrow>
     (\<exists>i < n. wo_key op = ''key_'' @ to_string (unat i)) \<and>
       (wo_type op = GET \<and> wo_value op = [] \<or> wo_type op = PUT \<and> (\<exists>k. wo_value op = ''val_'' @ to_string k)) \<or>
     (\<exists>i. op = scan_get i)"

lemma normal_op_ok:
  assumes "generator_ok n g" and "uniform01 rng"
  shows "op_ok n (fst (normal_op rng g)) \<and> generator_ok n (snd (normal_op rng g))"
proof -
  have "zipf_table n (zg_cdf (wg_zipf g))" using assms(1) by (simp add: generator_ok_def)
  then obtain i where i: "zipf_next_index rng (wg_zipf g) = (i, (wg_zipf g)\<lparr>zg_draws := zg_draws (wg_zipf g) + 1\<rparr>)" "i < n"
    by (rule zipf_next_index_ok [OF _ assms(2)])
  then show ?thesis
    using assms(1) by (auto simp: normal_op_def zipf_next_key_def draw_def op_ok_def generator_ok_def Let_def)
qed

lemma scan_op_ok: "generator_ok n g \<Longrightarrow> op_ok n (fst (scan_op g)) \<and> generator_ok n (snd (scan_op g))"
  by (auto simp: scan_op_def op_ok_def generator_ok_def scan_get_def Let_def)

lemma scan_offset_ok:
  assumes "rounding fl" and "uniform01 rng" and "generator_ok n g" and "10 * unat n < 2 ^ 32"
  shows "scan_offset_of fl rng g \<noteq> None"
proof -
  let ?u = "rng (wg_seed g) (wg_draws g + 1)"
  let ?n = "of_nat (unat n) :: rat"
  have u: "0 \<le> ?u" "?u \<le> 1" using assms(2) by (simp_all add: uniform01_def less_imp_le)
  have "?u * ?n \<le> 1 * ?n" by (rule mult_right_mono [OF u(2) of_nat_0_le_iff])
  then have "?u * ?n \<le> ?n" by simp
  then have "fl (?u * ?n) \<le> fl ?n" by (rule rounding_simps(4) [OF assms(1)])
  moreover have int: "fl (of_nat k) = of_nat k" if "k \<le> 2 ^ 53" for k using assms(1) that by (simp add: rounding_def)
  have exact: "fl (of_nat (unat n)) = ?n" "fl (of_nat (10 * unat n)) = of_nat (10 * unat n)"
    by (rule int, use assms(4) in simp)+
  ultimately have "fl (?u * ?n) * 10 \<le> of_nat (10 * unat n)" by simp
  then have "fl (fl (?u * ?n) * 10) \<le> fl (of_nat (10 * unat n))" by (rule rounding_simps(4) [OF assms(1)])
  moreover have "(of_nat (10 * unat n) :: rat) < of_nat (2 ^ 32)" using assms(4) by (simp only: of_nat_less_iff)
  ultimately have "fl (fl (?u * ?n) * 10) < 2 ^ 32" unfolding exact by simp
  moreover have "0 \<le> fl (fl (?u * ?n) * 10)" 
    by (intro fl_nonneg [OF assms(1)] mult_nonneg_nonneg u(1) of_nat_0_le_iff) simp
  ultimately show ?thesis using assms(3) by (simp add: scan_offset_of_def f64_to_u32_def generator_ok_def)
qed

lemma next_ok:
  assumes "rounding fl" and "uniform01 rng" and "generator_ok n g" and "10 * unat n < 2 ^ 32"
  obtains op g' where "wg_next fl rng g = Some (op, g')" and "op_ok n op" and "generator_ok n g'"
proof -
  have "0 < wc_scan_length (wg_config g) \<or> \<not> scan_starts rng g"
    using assms(2,3) by (auto simp: generator_ok_def uniform01_def not_less intro: order_trans)
  then show ?thesis
  proof (cases rule: next_cases [where fl = fl, consumes 1, case_names normal scanning start stuck])
    case normal
    have "generator_ok n ((count_op g)\<lparr>wg_draws := wg_draws g + 1\<rparr>)" using assms(3) by (simp add: generator_ok_def)
    then show ?thesis using that normal(2) normal_op_ok [OF _ assms(2)] by (metis prod.collapse)
  next
    case scanning
    have "generator_ok n (count_op g)" using assms(3) by (simp add: generator_ok_def)
    then show ?thesis using that scanning(1) scan_op_ok by (metis prod.collapse)
  next
    case (start offset)
    have "generator_ok n (count_op (scan_begin offset g))" using assms(3) by (simp add: generator_ok_def scan_begin_def)
    then show ?thesis using that start(3) scan_op_ok by (metis prod.collapse)
  next
    case stuck
    then show ?thesis using scan_offset_ok [OF assms] by simp
  qed
qed

lemma run_ok:
  assumes "rounding fl" and "uniform01 rng" and "10 * unat n < 2 ^ 32"
  shows "generator_ok n g \<Longrightarrow> oks (wg_run fl rng k g) (\<lambda>(ops, g'). length ops = k \<and> list_all (op_ok n) ops)"
proof (induction k arbitrary: g)
  case (Suc k)
  obtain op g1 where g1: "wg_next fl rng g = Some (op, g1)" "op_ok n op" "generator_ok n g1"
    by (rule next_ok [OF assms(1,2) Suc.prems assms(3)])
  then show ?case using Suc.IH [OF g1(3)] by (auto elim!: oks_mono)
qed simp

section \<open>Exact arithmetic\<close>

definition zipf_mass :: "(rat \<Rightarrow> rat \<Rightarrow> rat) \<Rightarrow> rat \<Rightarrow> nat \<Rightarrow> rat" where
  "zipf_mass pow alpha n = (\<Sum>k \<leftarrow> [1..<Suc n]. 1 / pow (of_nat k) alpha)"

lemma zipf_mass_Suc: "zipf_mass pow alpha (Suc n) = zipf_mass pow alpha n + 1 / pow (of_nat (Suc n)) alpha"
  by (simp add: zipf_mass_def)

lemma zipf_weight_exact: "k < 2 ^ 32 \<Longrightarrow> zipf_weight (\<lambda>x. x) pow alpha (of_nat k) = 1 / pow (of_nat k) alpha"
  by (simp add: zipf_weight_def unat_of_nat_u32)

lemma harmonic_exact: "n < 2 ^ 32 \<Longrightarrow> harmonic (\<lambda>x. x) pow alpha n = zipf_mass pow alpha n"
proof (induction n)
  case (Suc n)
  then show ?case
    using zipf_weight_exact [of "Suc n" pow alpha] by (simp add: harmonic_def zipf_mass_Suc del: of_nat_Suc)
qed (simp add: harmonic_def zipf_mass_def)

lemma cumulative_exact: "n < 2 ^ 32 \<Longrightarrow> cumulative (\<lambda>x. x) pow alpha h n = zipf_mass pow alpha n / h"
proof (induction n)
  case (Suc n)
  have "of_nat n + 1 = (of_nat (Suc n) :: u32)" by simp
  then show ?case
    using Suc zipf_weight_exact [of "Suc n" pow alpha] by (simp add: zipf_mass_Suc add_divide_distrib del: of_nat_Suc)
qed (simp add: zipf_mass_def)

lemma zipf_mass_pos:
  assumes "\<And>x y. 0 < pow x y" shows "0 \<le> zipf_mass pow alpha n" and "0 < n \<Longrightarrow> 0 < zipf_mass pow alpha n"
proof -
  show nonneg: "0 \<le> zipf_mass pow alpha n" for n
    by (induction n) (use assms in \<open>simp_all add: zipf_mass_Suc less_imp_le, simp add: zipf_mass_def\<close>)
  show "0 < n \<Longrightarrow> 0 < zipf_mass pow alpha n"
    using nonneg assms by (cases n) (simp_all add: zipf_mass_Suc add_nonneg_pos)
qed

section \<open>Properties\<close>

text \<open>C39. Key sampling is inversion of the table: for any number of keys but 0 and the largest \<open>uint32_t\<close>, and any
  rounding of the arithmetic, the table can be built, and every later draw \<open>u\<close> gives a key index below the number of
  keys, the first one whose table entry reaches \<open>u\<close>.\<close>

theorem zipf_sampling:
  assumes "rounding fl" and "\<forall>x y. 0 \<le> pow x y" and "uniform01 rng" and "0 < num_keys" and "unat num_keys < 2 ^ 32 - 1"
  shows "\<exists>z. zipf_new fl pow num_keys alpha seed = Some z \<and> (\<forall>k. case zipf_next_index rng (z\<lparr>zg_draws := k\<rparr>) of (i, z') \<Rightarrow>
    i < num_keys \<and> rng seed k \<le> zg_cdf z ! unat i \<and> (\<forall>j < unat i. zg_cdf z ! j < rng seed k) \<and> z' = z\<lparr>zg_draws := k + 1\<rparr>)"
proof -
  obtain z where z: "zipf_new fl pow num_keys alpha seed = Some z" "zipf_table num_keys (zg_cdf z)" "zg_seed z = seed"
    using zipf_new_table [OF assms(1) _ assms(4,5)] assms(2) by blast
  have "case zipf_next_index rng (z\<lparr>zg_draws := k\<rparr>) of (i, z') \<Rightarrow>
    i < num_keys \<and> rng seed k \<le> zg_cdf z ! unat i \<and> (\<forall>j < unat i. zg_cdf z ! j < rng seed k) \<and> z' = z\<lparr>zg_draws := k + 1\<rparr>" for k
  proof -
    have "zipf_table num_keys (zg_cdf (z\<lparr>zg_draws := k\<rparr>))" using z(2) by simp
    then show ?thesis by (rule zipf_next_index_ok [OF _ assms(3)]) (simp add: z(3))
  qed
  then show ?thesis using z(1) by blast
qed

theorem zipf_sampling_witness:
  "\<exists>z. zipf_new (\<lambda>x. x) (\<lambda>x y. 1) 4 1 7 = Some z \<and> (case zipf_next_index (\<lambda>_ _. 3 / 5) z of (i, z') \<Rightarrow>
    i < 4 \<and> 3 / 5 \<le> zg_cdf z ! unat i \<and> (\<forall>j < unat i. zg_cdf z ! j < 3 / 5))"
proof -
  have fl: "rounding (\<lambda>x. x)" "uniform01 (\<lambda>_ _. 3 / 5)" by (simp_all add: rounding_def mono_def uniform01_def)
  have n: "0 < (4 :: u32)" "unat (4 :: u32) < 2 ^ 32 - 1" by simp_all
  have pow: "\<forall>x y :: rat. (0 :: rat) \<le> 1" by simp
  obtain z where z: "zipf_new (\<lambda>x. x) (\<lambda>x y. 1) 4 1 7 = Some z" and
      all: "\<forall>k. case zipf_next_index (\<lambda>_ _. 3 / 5) (z\<lparr>zg_draws := k\<rparr>) of (i, z') \<Rightarrow>
        i < 4 \<and> 3 / 5 \<le> zg_cdf z ! unat i \<and> (\<forall>j < unat i. zg_cdf z ! j < 3 / 5) \<and> z' = z\<lparr>zg_draws := k + 1\<rparr>"
    using zipf_sampling [where fl = "\<lambda>x. x" and pow = "\<lambda>x y. 1" and rng = "\<lambda>_ _. 3 / 5" and num_keys = 4, OF fl(1) pow fl(2) n, of 1 7]
    by (elim exE conjE)
  show ?thesis using z spec [OF all, of "zg_draws z"] by (intro exI [of _ z] conjI) (simp_all add: case_prod_beta)
qed

text \<open>The distribution is Zipf's: in exact arithmetic the table entry of key \<open>i\<close> is the sum of the first \<open>i + 1\<close>
  weights \<open>1 / k ^ alpha\<close> divided by the sum of all of them.\<close>

theorem zipf_exact:
  assumes "\<forall>x y. 0 < pow x y" and "0 < num_keys" and "unat num_keys < 2 ^ 32 - 1"
  shows "map_option zg_cdf (zipf_new (\<lambda>x. x) pow num_keys alpha seed) =
    Some (map (\<lambda>i. zipf_mass pow alpha (Suc i) / zipf_mass pow alpha (unat num_keys)) [0..<unat num_keys])"
proof -
  let ?n = "unat num_keys"
  have n: "0 < ?n" using assms(2) by (simp add: unat_gt_0 word_gt_0)
  have h: "harmonic (\<lambda>x. x) pow alpha ?n = zipf_mass pow alpha ?n" using assms(3) by (intro harmonic_exact) simp
  have "zipf_mass pow alpha ?n \<noteq> 0" using zipf_mass_pos(2) [of pow ?n alpha] assms(1) n by auto
  moreover have "cumulative (\<lambda>x. x) pow alpha (zipf_mass pow alpha ?n) (Suc i) = zipf_mass pow alpha (Suc i) / zipf_mass pow alpha ?n"
    if "i < ?n" for i using that assms(3) by (intro cumulative_exact) simp
  ultimately have "(map (\<lambda>i. cumulative (\<lambda>x. x) pow alpha (zipf_mass pow alpha ?n) (Suc i)) [0..<?n])[?n - 1 := 1] =
      map (\<lambda>i. zipf_mass pow alpha (Suc i) / zipf_mass pow alpha ?n) [0..<?n]"
    using n by (intro nth_equalityI) (auto simp: nth_list_update simp del: cumulative.simps)
  then show ?thesis using zipf_new_ok [OF assms(2,3) refl, of "\<lambda>x. x" pow alpha seed] by (simp add: h del: cumulative.simps)
qed

theorem zipf_exact_witness:
  "map_option zg_cdf (zipf_new (\<lambda>x. x) (\<lambda>x y. 2) 2 1 7) = Some [1 / 2, 1]"
  using zipf_exact [where pow = "\<lambda>x y. 2" and num_keys = 2 and alpha = 1 and seed = 7]
  by (simp add: zipf_mass_def upt_rec)

text \<open>A scan is an unbroken burst: when a scan starts, it and the following calls of next, as many as the scan
  length says, are reads of consecutive scan keys in descending order down to the random offset, with no draw in
  between. The operation counter grows by one more than the operations: the call that starts the scan counts itself
  twice.\<close>

theorem scan_burst:
  assumes "wg_scan_remaining g = 0" and "rng (wg_seed g) (wg_draws g) < wg_actual_scan_prob g"
    and "f64_to_u32 (fl (fl (rng (wg_seed g) (wg_draws g + 1) * of_nat (unat (wc_num_keys (wg_config g)))) * 10)) = Some offset"
    and "0 < wc_scan_length (wg_config g)"
  shows "generate_batch fl rng (wc_scan_length (wg_config g)) g =
    Some (map (\<lambda>i. \<lparr>wo_type = GET, wo_key = ''scan_'' @ to_string (unat (offset + of_nat i)), wo_value = []\<rparr>)
           (rev [0..<unat (wc_scan_length (wg_config g))]),
         g\<lparr>wg_scan_remaining := 0, wg_scan_offset := offset, wg_draws := wg_draws g + 2,
           wg_ops_generated := wg_ops_generated g + of_nat (unat (wc_scan_length (wg_config g))) + 1\<rparr>)"
proof -
  let ?L = "unat (wc_scan_length (wg_config g))"
  obtain k where k: "?L = Suc k" using assms(4) by (metis gr0_implies_Suc unat_0 unat_gt_0 word_gt_0)
  have "wg_next fl rng g = wg_next fl rng (scan_begin offset g)"
    using next_start [of g rng fl] assms(1-3) by (simp add: scan_offset_of_def)
  then have "wg_run fl rng ?L g = wg_run fl rng ?L (scan_begin offset g)" unfolding k by simp
  moreover have "unat (wg_scan_remaining (scan_begin offset g)) = ?L" by (simp add: scan_begin_def)
  ultimately show ?thesis
    using scan_run [of "scan_begin offset g" ?L fl rng]
    by (simp add: generate_batch_run scan_get_def scan_begin_def ac_simps)
qed

definition scan_example :: generator where
  "scan_example = \<lparr>wg_config = \<lparr>wc_num_keys = 10, wc_zipf_alpha = 1, wc_write_ratio = 0, wc_scan_probability = 1 / 2,
       wc_scan_length = 2, wc_seed = 42\<rparr>,
     wg_zipf = \<lparr>zg_num_keys = 10, zg_alpha = 1, zg_seed = 42, zg_draws = 0, zg_cdf = replicate 10 1\<rparr>,
     wg_seed = 43, wg_draws = 0, wg_actual_scan_prob = 1 / 3, wg_scan_remaining = 0, wg_scan_offset = 0, wg_ops_generated = 0\<rparr>"

theorem scan_burst_witness:
  "map_option fst (generate_batch (\<lambda>x. x) (\<lambda>_ n. if n = 0 then 0 else 1 / 4) 2 scan_example) =
     Some [\<lparr>wo_type = GET, wo_key = ''scan_26'', wo_value = []\<rparr>, \<lparr>wo_type = GET, wo_key = ''scan_25'', wo_value = []\<rparr>]"
proof -
  have "to_string 26 = ''26''" "to_string 25 = ''25''" by code_simp+
  then show ?thesis
    using scan_burst [of scan_example "\<lambda>_ n. if n = 0 then 0 else 1 / 4" "\<lambda>x. x" 25]
    by (simp add: scan_example_def f64_to_u32_def upt_rec)
qed

text \<open>Scans of length 0 hang the generator: with a scan probability strictly between 0 and 1 the corrected trigger
  probability is 1, so that every call of next starts an empty scan and calls itself again without end (in the code,
  until the stack overflows).\<close>

theorem scan_length_zero_diverges:
  assumes "rounding fl" and "uniform01 rng" and "generator_new fl pow config = Some g"
    and "wc_scan_length config = 0" and "0 < wc_scan_probability config" and "wc_scan_probability config < 1"
    and "fl (wc_scan_probability config) = wc_scan_probability config"
  shows "wg_next fl rng g = None"
proof -
  have prob: "actual_scan_prob fl config = 1"
    using assms(4-7) rounding_simps [OF assms(1)] by (simp add: actual_scan_prob_def Let_def)
  have loop: "wg_next fl rng h = Some r \<Longrightarrow> wg_scan_remaining h = 0 \<Longrightarrow> wc_scan_length (wg_config h) = 0 \<Longrightarrow>
      wg_actual_scan_prob h = 1 \<Longrightarrow> uniform01 rng \<Longrightarrow> False" for h r
  proof (induction fl rng h r rule: wg_next.raw_induct [rotated, consumes 1])
    case (1 again fl rng h r)
    have "rng (wg_seed h) (wg_draws h) < 1" using 1(6) by (simp add: uniform01_def)
    then obtain h' where "again fl rng h' = Some r" "wg_scan_remaining h' = 0" "wc_scan_length (wg_config h') = 0"
        "wg_actual_scan_prob h' = 1"
      using 1(2-5) by (auto simp: Let_def draw_def split: Option.bind_splits)
    then show False using 1(1) 1(6) by blast
  qed
  have "wg_scan_remaining g = 0" "wc_scan_length (wg_config g) = 0" "wg_actual_scan_prob g = 1"
    using assms(3,4) prob by (auto simp: generator_new_def split: Option.bind_splits)
  then show ?thesis using loop [of g] assms(2) by (cases "wg_next fl rng g") auto
qed

theorem scan_length_zero_diverges_witness:
  "\<exists>g. generator_new (\<lambda>x. x) (\<lambda>x y. 1) \<lparr>wc_num_keys = 10, wc_zipf_alpha = 1, wc_write_ratio = 0,
      wc_scan_probability = 1 / 10, wc_scan_length = 0, wc_seed = 42\<rparr> = Some g \<and> wg_next (\<lambda>x. x) (\<lambda>_ _. 1 / 2) g = None"
proof -
  let ?c = "\<lparr>wc_num_keys = 10, wc_zipf_alpha = 1, wc_write_ratio = 0, wc_scan_probability = 1 / 10, wc_scan_length = 0,
      wc_seed = 42\<rparr>"
  have fl: "rounding (\<lambda>x. x)" "uniform01 (\<lambda>_ _. 1 / 2)" by (simp_all add: rounding_def mono_def uniform01_def)
  obtain g where g: "generator_new (\<lambda>x. x) (\<lambda>x y. 1) ?c = Some g"
    using zipf_new_some [of 10 "\<lambda>x. x" "\<lambda>x y. 1" 1 42] by (auto simp: generator_new_def)
  show ?thesis
    by (intro exI [of _ g] conjI g scan_length_zero_diverges [OF fl g]) simp_all
qed

text \<open>The scans make up the configured share: with trigger probability \<open>p\<close> and scans of \<open>S\<close> operations, a share
  \<open>p * S / (p * S + (1 - p))\<close> of all operations is scans, and in exact arithmetic the corrected \<open>p\<close> makes this the
  configured scan probability.\<close>

theorem scan_share:
  assumes "0 < wc_scan_probability config" and "wc_scan_probability config < 1" and "0 < wc_scan_length config"
  defines "p \<equiv> actual_scan_prob (\<lambda>x. x) config" and "S \<equiv> of_nat (unat (wc_scan_length config))"
  shows "0 < p \<and> p \<le> 1 \<and> p * S / (p * S + (1 - p)) = wc_scan_probability config"
proof -
  define R where "R = wc_scan_probability config"
  have "1 \<le> unat (wc_scan_length config)" using assms(3) by (simp add: word_less_nat_alt Suc_le_eq)
  then have S: "1 \<le> S" unfolding S_def using of_nat_mono [of 1 "unat (wc_scan_length config)"] by simp
  have R: "0 < R" "R < 1" using assms(1,2) by (simp_all add: R_def)
  define D where "D = S * (1 - R) + R"
  have d: "0 < D" "R \<le> D" using S R by (simp_all add: D_def add_nonneg_pos)
  have p: "p = R / D" using R by (simp add: p_def actual_scan_prob_def R_def S_def D_def Let_def)
  have "p * S + (1 - p) = (R * S + (D - R)) / D" using d(1) by (simp add: p field_simps)
  also have "R * S + (D - R) = S" by (simp add: D_def algebra_simps)
  finally have "p * S / (p * S + (1 - p)) = R" using d(1) S by (simp add: p)
  moreover have "0 < p" "p \<le> 1" using d R by (simp_all add: p)
  ultimately show ?thesis by (simp add: R_def)
qed

theorem scan_share_witness:
  "let config = \<lparr>wc_num_keys = 10, wc_zipf_alpha = 1, wc_write_ratio = 0, wc_scan_probability = 1 / 10,
      wc_scan_length = 500, wc_seed = 42\<rparr>; p = actual_scan_prob (\<lambda>x. x) config
   in p * 500 / (p * 500 + (1 - p)) = 1 / 10"
  using scan_share [of "\<lparr>wc_num_keys = 10, wc_zipf_alpha = 1, wc_write_ratio = 0, wc_scan_probability = 1 / 10,
      wc_scan_length = 500, wc_seed = 42\<rparr>"]
  by (simp add: Let_def)

lemma generator_new_ok:
  assumes "rounding fl" and "\<forall>x y. 0 \<le> pow x y" and "0 < wc_num_keys config" and "unat (wc_num_keys config) < 2 ^ 32 - 1"
    and "0 < wc_scan_length config \<or> wc_scan_probability config \<le> 0"
  obtains g where "generator_new fl pow config = Some g" and "generator_ok (wc_num_keys config) g"
proof -
  have pow: "0 \<le> pow x y" for x y using assms(2) by blast
  obtain z where "zipf_new fl pow (wc_num_keys config) (wc_zipf_alpha config) (wc_seed config) = Some z"
      "zipf_table (wc_num_keys config) (zg_cdf z)"
    by (rule zipf_new_table [OF assms(1) pow assms(3,4)])
  then show ?thesis
    using that assms(5) by (auto simp: generator_new_def generator_ok_def actual_scan_prob_def Let_def)
qed

text \<open>A generator always delivers: with scans of at least one operation, or none at all, and fewer than about 429
  million keys, the generator can be built and every batch ends with exactly the operations asked for, each a read or
  write of a key below the number of keys or a read of a scan key, a value with every write and none with a read.\<close>

theorem batch_complete:
  assumes "rounding fl" and "\<forall>x y. 0 \<le> pow x y" and "uniform01 rng"
    and "0 < wc_num_keys config" and "10 * unat (wc_num_keys config) < 2 ^ 32"
    and "0 < wc_scan_length config \<or> wc_scan_probability config \<le> 0"
  shows "oks (generator_new fl pow config) (\<lambda>g. oks (generate_batch fl rng count g) (\<lambda>(ops, g').
    length ops = unat count \<and> list_all (op_ok (wc_num_keys config)) ops))"
proof -
  have n: "unat (wc_num_keys config) < 2 ^ 32 - 1" using assms(5) by simp
  obtain g where g: "generator_new fl pow config = Some g" "generator_ok (wc_num_keys config) g"
    by (rule generator_new_ok [OF assms(1,2,4) n assms(6)])
  show ?thesis using run_ok [OF assms(1,3,5) g(2)] g(1) by (simp add: generate_batch_run)
qed

theorem batch_complete_witness:
  "oks (generator_new (\<lambda>x. x) (\<lambda>x y. 1) \<lparr>wc_num_keys = 10000, wc_zipf_alpha = 99 / 100, wc_write_ratio = 1 / 20,
      wc_scan_probability = 1 / 10, wc_scan_length = 500, wc_seed = 42\<rparr>)
    (\<lambda>g. oks (generate_batch (\<lambda>x. x) (\<lambda>seed n. if even n then 1 / 3 else 0) 100000 g) (\<lambda>(ops, g'). length ops = 100000))"
proof -
  let ?rng = "\<lambda>seed n. if even n then 1 / 3 else 0"
  let ?config = "\<lparr>wc_num_keys = 10000, wc_zipf_alpha = 99 / 100, wc_write_ratio = 1 / 20,
      wc_scan_probability = 1 / 10, wc_scan_length = 500, wc_seed = 42\<rparr>"
  have fl: "rounding (\<lambda>x. x)" "uniform01 ?rng" by (simp_all add: rounding_def mono_def uniform01_def)
  have "oks (generator_new (\<lambda>x. x) (\<lambda>x y. 1) ?config) (\<lambda>g. oks (generate_batch (\<lambda>x. x) ?rng 100000 g) (\<lambda>(ops, g').
      length ops = unat (100000 :: u32) \<and> list_all (op_ok (wc_num_keys ?config)) ops))"
    by (rule batch_complete [OF fl(1) _ fl(2)]) simp_all
  then show ?thesis by (rule oks_mono) (auto elim!: oks_mono)
qed

end
