(* ===== verification/Lru_Cache.thy ===== *)
theory Lru_Cache
  imports Lru_Map Lossy_Cache
begin

text \<open>
  The baseline LRU caches of the benchmarks (\<open>benchmarks/lru_cache.h\<close>): one LRU list under one mutex, and 64 of
  them chosen by an FNV-1a hash of the key.
\<close>

section \<open>The code\<close>

text \<open>What both caches do to one list and its map. The eviction loop calls \<open>back()\<close> on the list: on an empty one
  this is undefined, \<open>None\<close>.\<close>

definition lru_find :: "string \<Rightarrow> lru_map \<Rightarrow> (string option \<times> lru_map) option" where
  "lru_find key l =
     (case lm_find key l of
        None \<Rightarrow> Some (None, l)
      | Some it \<Rightarrow> do { l \<leftarrow> lm_splice_front it l; val \<leftarrow> lm_value it l; Some (Some val, l) })"

partial_function (option) lru_evict_loop :: "u32 \<Rightarrow> lru_map \<Rightarrow> u64 \<Rightarrow> (lru_map \<times> u64) option" where
  "lru_evict_loop capacity l evictions =
     (if length (lm_list l) \<ge> unat capacity
      then lm_evict l \<bind> (\<lambda>l. lru_evict_loop capacity l (evictions + 1))
      else Some (l, evictions))"

definition lru_store :: "u32 \<Rightarrow> string \<Rightarrow> string \<Rightarrow> lru_map \<Rightarrow> u64 \<Rightarrow> (bool \<times> lru_map \<times> u64) option" where
  "lru_store capacity key val l evictions =
     (case lm_find key l of
        Some it \<Rightarrow> do { l \<leftarrow> lm_set_value it val l \<bind> lm_splice_front it; Some (False, l, evictions) }
      | None \<Rightarrow> do {
          (l, evictions) \<leftarrow> lru_evict_loop capacity l evictions;
          Some (True, lm_insert key val l, evictions)
        })"

record lru_cache =
  lc_capacity :: u32
  lc_store :: lru_map
  lc_hits :: u64
  lc_misses :: u64
  lc_evictions :: u64

definition lru_cache_new :: "u32 \<Rightarrow> lru_cache" where
  "lru_cache_new capacity = \<lparr>lc_capacity = capacity, lc_store = lm_empty, lc_hits = 0, lc_misses = 0, lc_evictions = 0\<rparr>"

definition lru_cache_get :: "string \<Rightarrow> lru_cache \<Rightarrow> (string option \<times> lru_cache) option" where
  "lru_cache_get key c = do {
     (r, l) \<leftarrow> lru_find key (lc_store c);
     Some (r, case r of None \<Rightarrow> c\<lparr>lc_store := l, lc_misses := lc_misses c + 1\<rparr>
                      | Some _ \<Rightarrow> c\<lparr>lc_store := l, lc_hits := lc_hits c + 1\<rparr>)
   }"

definition lru_cache_put :: "string \<Rightarrow> string \<Rightarrow> lru_cache \<Rightarrow> (bool \<times> lru_cache) option" where
  "lru_cache_put key val c = do {
     (r, l, evictions) \<leftarrow> lru_store (lc_capacity c) key val (lc_store c) (lc_evictions c);
     Some (r, c\<lparr>lc_store := l, lc_evictions := evictions\<rparr>)
   }"

definition lru_cache_size :: "lru_cache \<Rightarrow> u32" where
  "lru_cache_size c = of_nat (length (lm_map (lc_store c)))"

definition lru_cache_reset_stats :: "lru_cache \<Rightarrow> lru_cache" where
  "lru_cache_reset_stats c = c\<lparr>lc_hits := 0, lc_misses := 0, lc_evictions := 0\<rparr>"

record striped_lru =
  sl_per_stripe :: u32
  sl_stripes :: "lru_map list"
  sl_hits :: u64
  sl_misses :: u64
  sl_evictions :: u64

definition kStripes :: u32 where
  "kStripes = 64"

definition striped_lru_new :: "u32 \<Rightarrow> striped_lru" where
  "striped_lru_new total_capacity = \<lparr>sl_per_stripe = max 1 (total_capacity div kStripes),
     sl_stripes = replicate (unat kStripes) lm_empty, sl_hits = 0, sl_misses = 0, sl_evictions = 0\<rparr>"

definition fnv1a :: "string \<Rightarrow> u32" where
  "fnv1a key = fold (\<lambda>c h. xor h (of_char c) * 0x01000193) key 0x811C9DC5"

definition stripe_for :: "string \<Rightarrow> u32" where
  "stripe_for key = fnv1a key mod kStripes"

definition striped_lru_get :: "string \<Rightarrow> striped_lru \<Rightarrow> (string option \<times> striped_lru) option" where
  "striped_lru_get key c = do {
     l \<leftarrow> vget (sl_stripes c) (stripe_for key);
     (r, l) \<leftarrow> lru_find key l;
     ls \<leftarrow> vset (sl_stripes c) (stripe_for key) l;
     Some (r, case r of None \<Rightarrow> c\<lparr>sl_stripes := ls, sl_misses := sl_misses c + 1\<rparr>
                      | Some _ \<Rightarrow> c\<lparr>sl_stripes := ls, sl_hits := sl_hits c + 1\<rparr>)
   }"

definition striped_lru_put :: "string \<Rightarrow> string \<Rightarrow> striped_lru \<Rightarrow> (bool \<times> striped_lru) option" where
  "striped_lru_put key val c = do {
     l \<leftarrow> vget (sl_stripes c) (stripe_for key);
     (r, l, evictions) \<leftarrow> lru_store (sl_per_stripe c) key val l (sl_evictions c);
     ls \<leftarrow> vset (sl_stripes c) (stripe_for key) l;
     Some (r, c\<lparr>sl_stripes := ls, sl_evictions := evictions\<rparr>)
   }"

section \<open>The LRU policy\<close>

text \<open>The abstract cache is the list of its entries, most recently used first.\<close>

definition lru_read :: "string \<Rightarrow> kv list \<Rightarrow> string option \<times> kv list" where
  "lru_read key es = (map_of es key, e_touch key es)"

definition lru_write :: "nat \<Rightarrow> string \<Rightarrow> string \<Rightarrow> kv list \<Rightarrow> kv list" where
  "lru_write capacity key val es = take capacity (e_write key val es)"

fun lru_policy :: "nat \<Rightarrow> access list \<Rightarrow> kv list \<Rightarrow> string option list \<times> kv list" where
  "lru_policy capacity [] es = ([], es)"
| "lru_policy capacity (Read key # ops) es =
     (let (r, es) = lru_read key es; (rs, es) = lru_policy capacity ops es in (r # rs, es))"
| "lru_policy capacity (Write key val # ops) es = lru_policy capacity ops (lru_write capacity key val es)"

definition lru_ok :: "u32 \<Rightarrow> lru_map \<Rightarrow> bool" where
  "lru_ok capacity l \<longleftrightarrow> 0 < capacity \<and> lm_ok l \<and> length (lm_entries l) \<le> unat capacity"

lemma e_touch_absent: "map_of es key = None \<Longrightarrow> e_touch key es = es"
  using e_drop_absent [of es key] by (auto simp: e_touch_def e_drop_def map_of_eq_None_iff filter_empty_conv)

lemma lru_find_ok:
  assumes "lru_ok capacity l"
  shows "oks (lru_find key l) (\<lambda>(r, l'). lru_ok capacity l' \<and> (r, lm_entries l') = lru_read key (lm_entries l))"
proof (cases "lm_find key l")
  case None
  then have "map_of (lm_entries l) key = None" using lm_find_None assms by (simp add: lru_ok_def)
  then show ?thesis using assms None by (simp add: lru_find_def lru_read_def e_touch_absent)
next
  case (Some it)
  have "lm_ok l" using assms by (simp add: lru_ok_def)
  then obtain v where "map_of (lm_entries l) key = Some v"
    "oks (lm_splice_front it l) (\<lambda>l'. lm_ok l' \<and> lm_entries l' = e_touch key (lm_entries l) \<and> lm_value it l' = Some v)"
    by (rule lm_hit [OF _ Some]) (rule that; assumption)
  then show ?thesis using assms by (auto simp: lru_find_def Some lru_read_def lru_ok_def elim!: oksE)
qed

lemma length_lm_list: "length (lm_list l) = length (lm_entries l)"
  by (simp add: lm_entries_def)

text \<open>The cache never holds more than its capacity, so that the loop runs at most once.\<close>

lemma lru_evict_loop_ok:
  assumes "lru_ok capacity l"
  shows "oks (lru_evict_loop capacity l evictions) (\<lambda>(l', evictions'). lm_ok l' \<and>
    lm_entries l' = take (unat capacity - 1) (lm_entries l) \<and>
    evictions' = evictions + (if length (lm_entries l) = unat capacity then 1 else 0))"
proof (cases "unat capacity \<le> length (lm_entries l)")
  case True
  have len: "length (lm_entries l) = unat capacity" "0 < unat capacity"
    using True assms by (auto simp: lru_ok_def word_less_nat_alt)
  then have "lm_entries l \<noteq> []" by auto
  then obtain l1 where l1: "lm_evict l = Some l1" "lm_ok l1" "lm_entries l1 = butlast (lm_entries l)"
    using lm_evict_ok [of l] assms by (auto simp: lru_ok_def elim!: oksE)
  have "\<not> unat capacity \<le> length (lm_list l1)" using len l1(3) by (simp add: length_lm_list)
  then show ?thesis
    using True l1 len
    by (simp add: lru_evict_loop.simps [of capacity l] lru_evict_loop.simps [of capacity l1] length_lm_list butlast_conv_take)
next
  case False
  then show ?thesis using assms by (auto simp: lru_evict_loop.simps [of capacity l] length_lm_list lru_ok_def)
qed

lemma take_e_write: "0 < n \<Longrightarrow> map_of es key = None \<Longrightarrow> take n (e_write key val es) = (key, val) # take (n - 1) es"
  by (cases n) (simp_all add: e_write_def e_drop_absent)

lemma lru_store_ok:
  assumes "lru_ok capacity l"
  shows "oks (lru_store capacity key val l evictions) (\<lambda>(r, l', evictions'). lru_ok capacity l' \<and>
    lm_entries l' = lru_write (unat capacity) key val (lm_entries l) \<and> r = (map_of (lm_entries l) key = None))"
proof (cases "lm_find key l")
  case None
  have absent: "map_of (lm_entries l) key = None" using lm_find_None None assms by (simp add: lru_ok_def)
  have pos: "0 < unat capacity" using assms by (simp add: lru_ok_def word_less_nat_alt)
  obtain l1 n where l1: "lru_evict_loop capacity l evictions = Some (l1, n)" "lm_ok l1"
      "lm_entries l1 = take (unat capacity - 1) (lm_entries l)"
    using lru_evict_loop_ok [OF assms, of evictions] by (auto elim!: oksE)
  have "map_of (lm_entries l1) key = None" using absent l1(3) by (auto simp: map_of_eq_None_iff dest: in_set_takeD)
  then have "lm_find key l1 = None" using lm_find_None [OF l1(2)] by simp
  from lm_insert_ok [OF l1(2) this, of val] show ?thesis
    using assms l1 None absent pos
    by (auto simp: lru_store_def lru_write_def take_e_write lru_ok_def min_def)
next
  case (Some it)
  have "lm_ok l" using assms by (simp add: lru_ok_def)
  then obtain v where v: "map_of (lm_entries l) key = Some v"
    and w: "oks (lm_set_value it val l \<bind> lm_splice_front it) (\<lambda>l'. lm_ok l' \<and> lm_entries l' = e_write key val (lm_entries l))"
    by (rule lm_hit [OF _ Some]) (rule that; assumption)
  have "length (e_write key val (lm_entries l)) \<le> unat capacity"
    using length_e_drop_present [of "lm_entries l" key] v assms by (simp add: e_write_def lru_ok_def)
  then show ?thesis using w v assms by (auto simp: lru_store_def Some lru_write_def lru_ok_def elim!: oksE)
qed

section \<open>As a lossy cache\<close>

lemma lru_write_lookup:
  assumes "distinct (map fst es)" and "0 < n"
  shows "map_of (lru_write n key val es) key = Some val"
    and "k \<noteq> key \<Longrightarrow> map_of (lru_write n key val es) k \<in> {map_of es k, None}"
proof -
  show "map_of (lru_write n key val es) key = Some val" using assms(2) by (cases n) (simp_all add: lru_write_def e_write_def)
  have d: "distinct (map fst (e_write key val es))"
    using assms(1) by (auto simp: e_write_def e_drop_def intro: distinct_map_filter)
  show "map_of (lru_write n key val es) k \<in> {map_of es k, None}" if "k \<noteq> key"
  proof (cases "map_of (lru_write n key val es) k")
    case (Some v)
    then have "map_of (e_write key val es) k = Some v"
      using d by (metis in_set_takeD lru_write_def map_of_SomeD map_of_eq_Some_iff)
    then show ?thesis using Some that by (simp add: map_of_e_write)
  qed simp
qed

abbreviation lru_cache_ok :: "u32 \<Rightarrow> lru_cache \<Rightarrow> bool" where
  "lru_cache_ok capacity c \<equiv> lc_capacity c = capacity \<and> lru_ok capacity (lc_store c)"

abbreviation lru_entries :: "lru_cache \<Rightarrow> kv list" where
  "lru_entries c \<equiv> lm_entries (lc_store c)"

lemma lru_cache_get_ok:
  "lru_cache_ok capacity c \<Longrightarrow> oks (lru_cache_get key c) (\<lambda>(r, c'). lru_cache_ok capacity c' \<and>
     (r, lru_entries c') = lru_read key (lru_entries c))"
  using lru_find_ok [of capacity "lc_store c" key] by (auto simp: lru_cache_get_def elim!: oks_mono split: option.split)

lemma lru_cache_put_ok:
  "lru_cache_ok capacity c \<Longrightarrow> oks (lru_cache_put key val c) (\<lambda>(r, c'). lru_cache_ok capacity c' \<and>
     lru_entries c' = lru_write (unat capacity) key val (lru_entries c) \<and> r = (map_of (lru_entries c) key = None))"
  using lru_store_ok [of capacity "lc_store c" key val "lc_evictions c"] by (auto simp: lru_cache_put_def elim!: oks_mono)

interpretation baseline: lossy_cache lru_cache_put "\<lambda>c. map_of (lru_entries c)" "lru_cache_ok capacity" lru_cache_get for capacity
proof (unfold_locales, goal_cases)
  case (1 c key val)
  then have "distinct (map fst (lru_entries c))" "0 < unat capacity"
    by (auto simp: lru_ok_def lm_distinct word_less_nat_alt)
  note w = lru_write_lookup [OF this, where key = key and val = val]
  obtain r c1 where "lru_cache_put key val c = Some (r, c1)" "lru_cache_ok capacity c1"
      "lru_entries c1 = lru_write (unat capacity) key val (lru_entries c)"
    using lru_cache_put_ok [OF 1, of key val] by (auto elim!: oksE)
  then show ?case using w by simp
next
  case (2 c key)
  then have "distinct (map fst (lru_entries c))" by (auto simp: lru_ok_def lm_distinct)
  then show ?case
    by (intro oks_mono [OF lru_cache_get_ok [OF 2, of key]]) (auto simp: lru_read_def map_of_e_touch)
qed

section \<open>The striped cache\<close>

definition striped_lru_ok :: "u32 \<Rightarrow> striped_lru \<Rightarrow> bool" where
  "striped_lru_ok capacity c \<longleftrightarrow> sl_per_stripe c = capacity \<and> length (sl_stripes c) = 64 \<and>
     (\<forall>l \<in> set (sl_stripes c). lru_ok capacity l)"

definition striped_lookup :: "striped_lru \<Rightarrow> string \<Rightarrow> string option" where
  "striped_lookup c key = map_of (lm_entries (sl_stripes c ! unat (stripe_for key))) key"

lemma stripe_for_less: "unat (stripe_for key) < 64"
  by (simp add: stripe_for_def kStripes_def unat_mod)

lemma striped_step:
  assumes "striped_lru_ok capacity c" and "lru_ok capacity l"
    and "\<And>k. stripe_for k = stripe_for key \<Longrightarrow> P k (map_of (lm_entries l) k)"
    and "\<And>k. stripe_for k \<noteq> stripe_for key \<Longrightarrow> P k (striped_lookup c k)"
    and "sl_per_stripe c' = sl_per_stripe c" and "sl_stripes c' = (sl_stripes c)[unat (stripe_for key) := l]"
  shows "striped_lru_ok capacity c' \<and> (\<forall>k. P k (striped_lookup c' k))"
proof
  have len: "length (sl_stripes c) = 64" using assms(1) by (simp add: striped_lru_ok_def)
  show "striped_lru_ok capacity c'"
    using assms(1,2) set_update_subset_insert [of "sl_stripes c" "unat (stripe_for key)" l]
    unfolding striped_lru_ok_def assms(5,6) by auto
  show "\<forall>k. P k (striped_lookup c' k)"
  proof
    fix k
    show "P k (striped_lookup c' k)"
    proof (cases "stripe_for k = stripe_for key")
      case True
      then show ?thesis using assms(3) len stripe_for_less [of key] by (simp add: striped_lookup_def assms(6))
    next
      case False
      then show ?thesis using assms(4) [OF False] len stripe_for_less [of key] by (simp add: striped_lookup_def assms(6))
    qed
  qed
qed

interpretation striped_baseline: lossy_cache striped_lru_put striped_lookup "striped_lru_ok capacity" striped_lru_get for capacity
proof (unfold_locales, goal_cases)
  case (1 c key val)
  let ?l = "sl_stripes c ! unat (stripe_for key)"
  have l: "lru_ok capacity ?l" "length (sl_stripes c) = 64" "sl_per_stripe c = capacity"
    using 1 stripe_for_less [of key] by (auto simp: striped_lru_ok_def)
  obtain r l' n where l': "lru_store capacity key val ?l (sl_evictions c) = Some (r, l', n)" "lru_ok capacity l'"
      "lm_entries l' = lru_write (unat capacity) key val (lm_entries ?l)"
    using lru_store_ok [OF l(1), of key val "sl_evictions c"] by (auto elim!: oksE)
  let ?c = "c\<lparr>sl_stripes := (sl_stripes c)[unat (stripe_for key) := l'], sl_evictions := n\<rparr>"
  have put: "striped_lru_put key val c = Some (r, ?c)"
    using l l'(1) stripe_for_less [of key] by (simp add: striped_lru_put_def vget_def vset_def)
  have "distinct (map fst (lm_entries ?l))" "0 < unat capacity"
    using l(1) by (auto simp: lru_ok_def lm_distinct word_less_nat_alt)
  note w = lru_write_lookup [OF this, where key = key and val = val]
  let ?P = "\<lambda>k x. (k = key \<longrightarrow> x \<in> {Some val, None}) \<and> (k \<noteq> key \<longrightarrow> x \<in> {striped_lookup c k, None})"
  have "striped_lru_ok capacity ?c \<and> (\<forall>k. ?P k (striped_lookup ?c k))"
    by (rule striped_step [OF 1 l'(2), where key = key and P = ?P]) (use w in \<open>auto simp: l'(3) striped_lookup_def\<close>)
  then show ?case by (simp add: put)
next
  case (2 c key)
  let ?l = "sl_stripes c ! unat (stripe_for key)"
  have l: "lru_ok capacity ?l" "length (sl_stripes c) = 64"
    using 2 stripe_for_less [of key] by (auto simp: striped_lru_ok_def)
  obtain r l' where l': "lru_find key ?l = Some (r, l')" "lru_ok capacity l'" "(r, lm_entries l') = lru_read key (lm_entries ?l)"
    using lru_find_ok [OF l(1), of key] by (auto elim!: oksE)
  define c' where "c' = (case r of None \<Rightarrow> c\<lparr>sl_stripes := (sl_stripes c)[unat (stripe_for key) := l'], sl_misses := sl_misses c + 1\<rparr>
    | Some _ \<Rightarrow> c\<lparr>sl_stripes := (sl_stripes c)[unat (stripe_for key) := l'], sl_hits := sl_hits c + 1\<rparr>)"
  have get: "striped_lru_get key c = Some (r, c')"
    using l l'(1) stripe_for_less [of key] by (simp add: striped_lru_get_def vget_def vset_def c'_def)
  have r: "r = striped_lookup c key" using l'(3) by (simp add: lru_read_def striped_lookup_def)
  have "map_of (lm_entries l') = map_of (lm_entries ?l)"
    using l'(3) l(1) by (simp add: lru_read_def map_of_e_touch lm_distinct lru_ok_def)
  then have "striped_lru_ok capacity c' \<and> (\<forall>k. striped_lookup c' k = striped_lookup c k)"
    by (intro striped_step [OF 2 l'(2), where key = key]) (auto simp: striped_lookup_def c'_def split: option.split)
  then show ?case using r by (auto simp: get fun_eq_iff)
qed

section \<open>Properties\<close>

lemma lru_run:
  assumes "lru_cache_ok capacity c"
  shows "oks (run_access lru_cache_get lru_cache_put ops c) (\<lambda>(rs, c').
    (rs, lru_entries c') = lru_policy (unat capacity) ops (lru_entries c))"
  using assms
proof (induction ops arbitrary: c)
  case (Cons op ops)
  show ?case
  proof (cases op)
    case (Read key)
    obtain r c1 where c1: "lru_cache_get key c = Some (r, c1)" "lru_cache_ok capacity c1"
        "(r, lru_entries c1) = lru_read key (lru_entries c)"
      using lru_cache_get_ok [OF Cons.prems, of key] by (auto elim!: oksE)
    show ?thesis
      using Cons.IH [OF c1(2)] c1(1) c1(3) [symmetric]
      by (auto simp: Read case_prod_beta Let_def prod_eq_iff elim!: oks_mono)
  next
    case (Write key val)
    obtain r c1 where c1: "lru_cache_put key val c = Some (r, c1)" "lru_cache_ok capacity c1"
        "lru_entries c1 = lru_write (unat capacity) key val (lru_entries c)"
      using lru_cache_put_ok [OF Cons.prems, of key val] by (auto elim!: oksE)
    show ?thesis using Cons.IH [OF c1(2)] c1(1,3) by (simp add: Write)
  qed
qed simp

text \<open>Without capacity every read misses, and the first write is undefined.\<close>

lemma lru_run_zero:
  assumes "lc_capacity c = 0" and "lc_store c = lm_empty"
  shows "run_access lru_cache_get lru_cache_put ops c \<noteq> None \<longleftrightarrow> (\<forall>key val. Write key val \<notin> set ops)"
    and "run_access lru_cache_get lru_cache_put ops c = Some (rs, c') \<Longrightarrow> (rs, lru_entries c') = lru_policy 0 ops []"
proof -
  have find: "lru_find key lm_empty = Some (None, lm_empty)" for key by (simp add: lru_find_def lm_find_def lm_empty_def)
  have evict: "lru_evict_loop 0 lm_empty n = None" for n
    by (subst lru_evict_loop.simps) (simp add: lm_evict_def nl_last_def lm_empty_def)
  have store: "lru_store 0 key val lm_empty n = None" for key val n
  proof -
    have "lm_find key lm_empty = None" by (simp add: lm_find_def lm_empty_def)
    then show ?thesis by (simp add: lru_store_def evict)
  qed
  let ?missed = "\<lambda>c. c\<lparr>lc_store := lm_empty, lc_misses := lc_misses c + 1\<rparr>"
  have get: "lru_cache_get key c = Some (None, ?missed c)" and put: "lru_cache_put key val c = None"
    if "lc_capacity c = 0" "lc_store c = lm_empty" for c key val
    using that by (simp_all add: lru_cache_get_def lru_cache_put_def find store)
  show "run_access lru_cache_get lru_cache_put ops c \<noteq> None \<longleftrightarrow> (\<forall>key val. Write key val \<notin> set ops)"
    using assms
  proof (induction ops arbitrary: c)
    case (Cons op ops)
    have "run_access lru_cache_get lru_cache_put ops (?missed c) \<noteq> None \<longleftrightarrow> (\<forall>key val. Write key val \<notin> set ops)"
      using Cons.prems by (intro Cons.IH) simp_all
    then show ?case
      using get [OF Cons.prems] put [OF Cons.prems]
      by (cases op; cases "run_access lru_cache_get lru_cache_put ops (?missed c)") (auto simp: case_prod_beta)
  qed simp
  show "run_access lru_cache_get lru_cache_put ops c = Some (rs, c') \<Longrightarrow> (rs, lru_entries c') = lru_policy 0 ops []"
    using assms
  proof (induction ops arbitrary: c rs)
    case (Cons op ops)
    show ?case
    proof (cases op)
      case (Read key)
      obtain rs1 where rs1: "run_access lru_cache_get lru_cache_put ops (?missed c) = Some (rs1, c')" "rs = None # rs1"
        using Cons.prems(1) get [OF Cons.prems(2,3)] by (auto simp: Read split: Option.bind_splits)
      have "(rs1, lru_entries c') = lru_policy 0 ops []" using Cons.IH [OF rs1(1)] Cons.prems(2) by simp
      then show ?thesis
        using rs1(2) by (simp add: Read lru_read_def e_touch_def case_prod_beta Let_def prod_eq_iff)
    next
      case (Write key val)
      then show ?thesis using Cons.prems(1) put [OF Cons.prems(2,3)] by simp
    qed
  qed simp
qed

text \<open>C29. The baseline is exactly LRU. A sequence of reads and writes on a new cache is undefined if and only if the
  capacity is 0 and something is written: the eviction loop of the first insertion then takes the back of an empty list.
  In every other case it returns, its answers are those of the LRU policy, and its list holds the policy's entries in the
  policy's order.\<close>

theorem lru_cache_refines:
  "(run_access lru_cache_get lru_cache_put ops (lru_cache_new capacity) = None \<longleftrightarrow>
      capacity = 0 \<and> (\<exists>key val. Write key val \<in> set ops)) \<and>
   (\<forall>rs c. run_access lru_cache_get lru_cache_put ops (lru_cache_new capacity) = Some (rs, c) \<longrightarrow>
      (rs, lm_entries (lc_store c)) = lru_policy (unat capacity) ops [])"
proof (cases "capacity = 0")
  case True
  have new: "lc_capacity (lru_cache_new 0) = 0" "lc_store (lru_cache_new 0) = lm_empty" by (simp_all add: lru_cache_new_def)
  show ?thesis
    using lru_run_zero(1) [OF new, of ops] lru_run_zero(2) [OF new, of ops]
    by (cases "run_access lru_cache_get lru_cache_put ops (lru_cache_new 0)") (auto simp: True)
next
  case False
  then have "lru_cache_ok capacity (lru_cache_new capacity)" by (simp add: lru_cache_new_def lru_ok_def word_gt_0)
  from lru_run [OF this, of ops] show ?thesis
    using False by (auto simp: lru_cache_new_def elim!: oksE)
qed

text \<open>Without capacity the first write of a run already has no outcome.\<close>

theorem lru_cache_refines_witness:
  "run_access lru_cache_get lru_cache_put [Read ''a'', Write ''a'' ''1''] (lru_cache_new 0) = None \<and>
   (\<exists>rs c. run_access lru_cache_get lru_cache_put [Write ''a'' ''1'', Write ''b'' ''2'', Read ''a'', Read ''b''] (lru_cache_new 1) = Some (rs, c) \<and>
      (rs, lm_entries (lc_store c)) = ([None, Some ''2''], [(''b'', ''2'')]))"
proof -
  let ?ops = "[Write ''a'' ''1'', Write ''b'' ''2'', Read ''a'', Read ''b'']"
  obtain rs c where run: "run_access lru_cache_get lru_cache_put ?ops (lru_cache_new 1) = Some (rs, c)"
    using lru_cache_refines [of ?ops 1] by fastforce
  have "lru_policy (unat (1 :: u32)) ?ops [] = ([None, Some ''2''], [(''b'', ''2'')])"
    by (simp add: lru_write_def lru_read_def e_write_def e_touch_def e_drop_def Let_def)
  then show ?thesis
    using lru_cache_refines [of ?ops 1] run lru_cache_refines [of "[Read ''a'', Write ''a'' ''1'']" 0] by auto
qed

end
