(* ===== verification/Slab_Concurrent.thy ===== *)
theory Slab_Concurrent
  imports Slab_Allocator "HOL-Library.Multiset"
begin

text \<open>
  \<open>SlabAllocator\<close> under contention (\<open>src/slab_allocator.cpp\<close>): any number of threads inside \<open>allocate\<close>
  and \<open>deallocate\<close> at once. A thread is a program counter with its local variables, and every access to
  the shared members (\<open>head_\<close>, \<open>free_next_\<close>, \<open>pool_\<close>, \<open>free_count_\<close>) is a step of its own, so a thread can be
  overtaken between reading the head and its compare-and-swap. Accesses are sequentially consistent, and
  the plain accesses to \<open>free_next_\<close> are taken to read what was last written.

  Clients keep the contract of the slab: they deallocate an index they were given, once. Which indices
  they hold, how many compare-and-swaps have succeeded, and when each thread last loaded the head are
  auxiliary: no step depends on the last two.

  The tag has 32 bits. A thread that sleeps between its load and its compare-and-swap while exactly
  \<open>2 ^ 32\<close> operations succeed would be fooled; \<open>in_time\<close> says that no thread sleeps that long.
\<close>

datatype slab_pc =
    Outside
  | Alloc_call
  | Alloc_loaded u64
  | Alloc_next u64 u32
  | Alloc_won u32
  | Alloc_reset u32
  | Alloc_return u32
  | Free_call u32
  | Free_reset u32
  | Free_loaded u32 u64
  | Free_linked u32 u64
  | Free_won
  | Free_return

section \<open>One thread\<close>

text \<open>One step of \<open>allocate\<close>. \<open>weak\<close> is the choice of \<open>compare_exchange_weak\<close> to fail although the head is
  unchanged; a failed one loads the head again. \<open>None\<close> is a failed assertion or a subscript out of range.\<close>

fun allocate_step :: "bool \<Rightarrow> slab_pc \<Rightarrow> slab \<Rightarrow> (slab_pc \<times> slab) option" where
  "allocate_step weak Alloc_call s = Some (Alloc_loaded (sl_head s), s)"
| "allocate_step weak (Alloc_loaded old_packed) s =
     (if unpack_index old_packed = kInvalidIndex then Some (Alloc_return kInvalidIndex, s)
      else do {
        new_index \<leftarrow> vget (sl_free_next s) (unpack_index old_packed);
        Some (Alloc_next old_packed new_index, s)
      })"
| "allocate_step weak (Alloc_next old_packed new_index) s =
     (if sl_head s = old_packed \<and> \<not> weak
      then Some (Alloc_won (unpack_index old_packed), s\<lparr>sl_head := pack new_index (unpack_tag old_packed + 1)\<rparr>)
      else Some (Alloc_loaded (sl_head s), s))"
| "allocate_step weak (Alloc_won old_index) s = do {
     n \<leftarrow> vget (sl_pool s) old_index;
     pool \<leftarrow> vset (sl_pool s) old_index (node_reset n);
     Some (Alloc_reset old_index, s\<lparr>sl_pool := pool\<rparr>)
   }"
| "allocate_step weak (Alloc_reset old_index) s =
     Some (Alloc_return old_index, s\<lparr>sl_free_count := sl_free_count s - 1\<rparr>)"
| "allocate_step weak _ s = None"

text \<open>One step of \<open>deallocate\<close>.\<close>

fun deallocate_step :: "bool \<Rightarrow> slab_pc \<Rightarrow> slab \<Rightarrow> (slab_pc \<times> slab) option" where
  "deallocate_step weak (Free_call index) s = do {
     guard (index < sl_capacity s);
     n \<leftarrow> vget (sl_pool s) index;
     pool \<leftarrow> vset (sl_pool s) index (node_reset n);
     Some (Free_reset index, s\<lparr>sl_pool := pool\<rparr>)
   }"
| "deallocate_step weak (Free_reset index) s = Some (Free_loaded index (sl_head s), s)"
| "deallocate_step weak (Free_loaded index old_packed) s = do {
     free_next \<leftarrow> vset (sl_free_next s) index (unpack_index old_packed);
     Some (Free_linked index old_packed, s\<lparr>sl_free_next := free_next\<rparr>)
   }"
| "deallocate_step weak (Free_linked index old_packed) s =
     (if sl_head s = old_packed \<and> \<not> weak
      then Some (Free_won, s\<lparr>sl_head := pack index (unpack_tag old_packed + 1)\<rparr>)
      else Some (Free_loaded index (sl_head s), s))"
| "deallocate_step weak Free_won s = Some (Free_return, s\<lparr>sl_free_count := sl_free_count s + 1\<rparr>)"
| "deallocate_step weak _ s = None"

fun in_allocate :: "slab_pc \<Rightarrow> bool" where
  "in_allocate Alloc_call = True"
| "in_allocate (Alloc_loaded p) = True"
| "in_allocate (Alloc_next p n) = True"
| "in_allocate (Alloc_won i) = True"
| "in_allocate (Alloc_reset i) = True"
| "in_allocate _ = False"

fun in_deallocate :: "slab_pc \<Rightarrow> bool" where
  "in_deallocate (Free_call i) = True"
| "in_deallocate (Free_reset i) = True"
| "in_deallocate (Free_loaded i p) = True"
| "in_deallocate (Free_linked i p) = True"
| "in_deallocate Free_won = True"
| "in_deallocate _ = False"

definition slab_step :: "bool \<Rightarrow> slab_pc \<Rightarrow> slab \<Rightarrow> (slab_pc \<times> slab) option" where
  "slab_step weak pc s = (if in_allocate pc then allocate_step weak pc s else deallocate_step weak pc s)"

text \<open>A thread left alone, until it returns: one step for each element of the list, which says whether a
  \<open>compare_exchange_weak\<close> executed in that step fails spuriously.\<close>

fun slab_alone :: "bool list \<Rightarrow> slab_pc \<Rightarrow> slab \<Rightarrow> (slab_pc \<times> slab) option" where
  "slab_alone [] pc s = Some (pc, s)"
| "slab_alone (weak # ws) pc s =
     (if in_allocate pc \<or> in_deallocate pc
      then do { (pc, s) \<leftarrow> slab_step weak pc s; slab_alone ws pc s }
      else Some (pc, s))"

section \<open>All threads\<close>

record slab_threads =
  th_slab :: slab
  th_pcs :: "slab_pc list"
  th_held :: "u32 multiset"
  th_clock :: nat
  th_seen :: "nat list"

definition threads_new :: "nat \<Rightarrow> slab \<Rightarrow> slab_threads" where
  "threads_new n s = \<lparr>th_slab = s, th_pcs = replicate n Outside, th_held = {#}, th_clock = 0, th_seen = replicate n 0\<rparr>"

text \<open>The head a thread has loaded and not yet compared.\<close>

fun loaded_head :: "slab_pc \<Rightarrow> u64 option" where
  "loaded_head (Alloc_loaded p) = Some p"
| "loaded_head (Alloc_next p n) = Some p"
| "loaded_head (Free_loaded i p) = Some p"
| "loaded_head (Free_linked i p) = Some p"
| "loaded_head _ = None"

fun loads :: "slab_pc \<Rightarrow> bool" where
  "loads (Alloc_loaded p) = True"
| "loads (Free_loaded i p) = True"
| "loads _ = False"

fun won :: "slab_pc \<Rightarrow> bool" where
  "won (Alloc_won i) = True"
| "won Free_won = True"
| "won _ = False"

inductive thread_step :: "nat \<Rightarrow> slab_threads \<Rightarrow> slab_threads \<Rightarrow> bool" where
  call_allocate: "t < length (th_pcs s) \<Longrightarrow> th_pcs s ! t = Outside \<Longrightarrow>
    thread_step t s (s\<lparr>th_pcs := (th_pcs s)[t := Alloc_call]\<rparr>)"
| call_deallocate: "t < length (th_pcs s) \<Longrightarrow> th_pcs s ! t = Outside \<Longrightarrow> i \<in># th_held s \<Longrightarrow>
    thread_step t s (s\<lparr>th_pcs := (th_pcs s)[t := Free_call i], th_held := th_held s - {#i#}\<rparr>)"
| run: "t < length (th_pcs s) \<Longrightarrow> slab_step weak (th_pcs s ! t) (th_slab s) = Some (pc, m) \<Longrightarrow>
    thread_step t s (s\<lparr>th_slab := m, th_pcs := (th_pcs s)[t := pc],
      th_clock := (if won pc then Suc (th_clock s) else th_clock s),
      th_seen := (if loads pc then (th_seen s)[t := th_clock s] else th_seen s)\<rparr>)"
| return_allocate: "t < length (th_pcs s) \<Longrightarrow> th_pcs s ! t = Alloc_return i \<Longrightarrow>
    thread_step t s (s\<lparr>th_pcs := (th_pcs s)[t := Outside],
      th_held := (if i = kInvalidIndex then th_held s else add_mset i (th_held s))\<rparr>)"
| return_deallocate: "t < length (th_pcs s) \<Longrightarrow> th_pcs s ! t = Free_return \<Longrightarrow>
    thread_step t s (s\<lparr>th_pcs := (th_pcs s)[t := Outside]\<rparr>)"

definition in_time :: "slab_threads \<Rightarrow> bool" where
  "in_time s \<longleftrightarrow> (\<forall>t < length (th_pcs s). loaded_head (th_pcs s ! t) \<noteq> None \<longrightarrow> th_clock s < th_seen s ! t + 2 ^ 32)"

inductive slab_reach :: "slab_threads \<Rightarrow> slab_threads \<Rightarrow> bool" for s0 where
  start: "slab_reach s0 s0"
| step: "slab_reach s0 s \<Longrightarrow> thread_step t s s' \<Longrightarrow> in_time s' \<Longrightarrow> slab_reach s0 s'"

section \<open>The invariant\<close>

text \<open>The index a thread has to itself: taken off the free list and not yet returned, or handed back and
  not yet on the free list.\<close>

fun owns :: "slab_pc \<Rightarrow> u32 multiset" where
  "owns (Alloc_won i) = {#i#}"
| "owns (Alloc_reset i) = {#i#}"
| "owns (Alloc_return i) = (if i = kInvalidIndex then {#} else {#i#})"
| "owns (Free_call i) = {#i#}"
| "owns (Free_reset i) = {#i#}"
| "owns (Free_loaded i p) = {#i#}"
| "owns (Free_linked i p) = {#i#}"
| "owns _ = {#}"

text \<open>What a thread has still to add to \<open>free_count_\<close>.\<close>

fun due :: "slab_pc \<Rightarrow> u32" where
  "due (Alloc_won i) = - 1"
| "due (Alloc_reset i) = - 1"
| "due Free_won = 1"
| "due _ = 0"

definition free_slots :: "slab \<Rightarrow> u32 list" where
  "free_slots s = walk (unat (sl_capacity s)) (\<lambda>i. sl_free_next s ! unat i) (unpack_index (sl_head s))"

text \<open>A loaded head: as old as the auxiliary clock says, and current if no operation has succeeded since.\<close>

definition head_ok :: "slab \<Rightarrow> nat \<Rightarrow> nat \<Rightarrow> u64 \<Rightarrow> bool" where
  "head_ok m clock seen p \<longleftrightarrow>
     seen \<le> clock \<and> unpack_tag p = of_nat seen \<and> (seen = clock \<longrightarrow> sl_head m = p) \<and>
     (unpack_index p = kInvalidIndex \<or> unpack_index p < sl_capacity m)"

fun local_ok :: "slab \<Rightarrow> slab_pc \<Rightarrow> bool" where
  "local_ok m (Alloc_next p n) \<longleftrightarrow> unpack_index p \<noteq> kInvalidIndex \<and> (sl_head m = p \<longrightarrow> sl_free_next m ! unat (unpack_index p) = n)"
| "local_ok m (Free_linked i p) \<longleftrightarrow> sl_free_next m ! unat i = unpack_index p"
| "local_ok m _ \<longleftrightarrow> True"

definition threads_rep :: "slab_threads \<Rightarrow> u32 list \<Rightarrow> bool" where
  "threads_rep s fs \<longleftrightarrow>
     (let m = th_slab s in
      length (sl_pool m) = unat (sl_capacity m) \<and> length (sl_free_next m) = unat (sl_capacity m) \<and>
      length (th_seen s) = length (th_pcs s) \<and>
      mset fs + sum_list (map owns (th_pcs s)) + th_held s = mset (upto32 (sl_capacity m)) \<and>
      chain (\<lambda>i. sl_free_next m ! unat i) (unpack_index (sl_head m)) fs \<and>
      unpack_tag (sl_head m) = of_nat (th_clock s) \<and>
      sl_free_count m + sum_list (map due (th_pcs s)) = of_nat (length fs) \<and>
      (\<forall>t < length (th_pcs s). local_ok m (th_pcs s ! t) \<and>
         (\<forall>p. loaded_head (th_pcs s ! t) = Some p \<longrightarrow> head_ok m (th_clock s) (th_seen s ! t) p)))"

lemma sum_list_update_add:
  "k < length xs \<Longrightarrow> sum_list (xs[k := x]) + xs ! k = sum_list xs + (x :: 'a :: cancel_comm_monoid_add)"
  by (induction xs arbitrary: k) (auto simp: nth_Cons ac_simps split: nat.splits)

lemma split_thread:
  assumes "t < length pcs" and "f Outside = 0"
  shows "sum_list (map f pcs) = (f (pcs ! t) + sum_list (map f (pcs[t := Outside])) :: 'a :: cancel_comm_monoid_add)"
  using sum_list_update_add [of t "map f pcs" "f Outside"] assms by (simp add: map_update ac_simps)

lemma split_updated:
  assumes "t < length pcs" and "f Outside = 0"
  shows "sum_list (map f (pcs[t := pc])) = (f pc + sum_list (map f (pcs[t := Outside])) :: 'a :: cancel_comm_monoid_add)"
  using split_thread [of t "pcs[t := pc]" f] assms by simp

lemma owns_subset: "u < length pcs \<Longrightarrow> owns (pcs ! u) \<subseteq># sum_list (map owns pcs)"
  using split_thread [of u pcs owns] by simp

text \<open>The index a thread owns is in range, not free, not held, and nobody else's.\<close>

lemma count_upto32: "count (mset (upto32 n)) i \<le> 1"
  using distinct_upto32 [of n] by (simp add: distinct_count_atmost_1)

lemma threads_rep_owner:
  assumes "threads_rep s fs" and "t < length (th_pcs s)" and "i \<in># owns (th_pcs s ! t)"
  shows "i < sl_capacity (th_slab s)" and "i \<notin> set fs" and "i \<notin># th_held s"
    and "\<And>u. u < length (th_pcs s) \<Longrightarrow> u \<noteq> t \<Longrightarrow> i \<notin># owns (th_pcs s ! u)"
proof -
  let ?R = "sum_list (map owns ((th_pcs s)[t := Outside]))"
  have eq: "mset fs + (owns (th_pcs s ! t) + ?R) + th_held s = mset (upto32 (sl_capacity (th_slab s)))"
    using assms(1) split_thread [OF assms(2), of owns] by (simp add: threads_rep_def Let_def)
  then have "i \<in># mset (upto32 (sl_capacity (th_slab s)))" using assms(3) by (metis union_iff)
  then show "i < sl_capacity (th_slab s)" by (simp add: set_upto32)
  have "count (mset fs + (owns (th_pcs s ! t) + ?R) + th_held s) i \<le> 1"
    unfolding eq by (rule count_upto32)
  moreover have "1 \<le> count (owns (th_pcs s ! t)) i" using assms(3) by (metis count_greater_eq_one_iff)
  ultimately have z: "count (mset fs) i = 0" "count ?R i = 0" "count (th_held s) i = 0"
    unfolding count_union by linarith+
  then show "i \<notin> set fs" "i \<notin># th_held s" by (auto simp: not_in_iff)
  show "i \<notin># owns (th_pcs s ! u)" if "u < length (th_pcs s)" "u \<noteq> t" for u
    using owns_subset [of u "(th_pcs s)[t := Outside]"] that z(2)
    by (metis count_eq_zero_iff length_list_update mset_subset_eqD nth_list_update_neq)
qed

lemma threads_rep_free:
  assumes "threads_rep s fs"
  shows "distinct fs" and "\<And>i. i \<in> set fs \<Longrightarrow> i < sl_capacity (th_slab s)"
    and "length fs \<le> unat (sl_capacity (th_slab s))" and "free_slots (th_slab s) = fs"
proof -
  have sub: "mset fs \<subseteq># mset (upto32 (sl_capacity (th_slab s)))"
    using assms by (metis (no_types, lifting) mset_subset_eq_add_left subset_mset.order_trans threads_rep_def)
  show range: "i < sl_capacity (th_slab s)" if "i \<in> set fs" for i
    using that sub set_upto32 by (metis mem_Collect_eq mset_subset_eqD set_mset_mset)
  show "distinct fs"
    unfolding distinct_count_atmost_1
    using sub count_upto32 by (metis (no_types, lifting) count_eq_zero_iff le_zero_eq le_Suc_eq One_nat_def mset_subset_eq_count order_trans set_mset_mset)
  then show len: "length fs \<le> unat (sl_capacity (th_slab s))"
    using length_indices range by blast
  have "walk (length fs + n) nx h = fs" if "chain nx h fs" for n nx h
    using that
  proof (induction fs arbitrary: h)
    case Nil
    then show ?case by (cases n) auto
  qed auto
  from this [of _ _ "unat (sl_capacity (th_slab s)) - length fs"] len assms
  show "free_slots (th_slab s) = fs"
    by (simp add: free_slots_def threads_rep_def Let_def)
qed

text \<open>A step of thread \<open>t\<close>, seen by the invariant: what it owns and owes balances, and the other threads'
  views survive.\<close>

lemma threads_rep_update:
  assumes rep: "threads_rep s fs" and t: "t < length (th_pcs s)"
    and mem: "sl_capacity m = sl_capacity (th_slab s)" "length (sl_pool m) = length (sl_pool (th_slab s))"
      "length (sl_free_next m) = length (sl_free_next (th_slab s))" "length seen = length (th_seen s)"
    and own: "mset fs' + owns pc + held = mset fs + owns (th_pcs s ! t) + th_held s"
    and chain: "chain (\<lambda>i. sl_free_next m ! unat i) (unpack_index (sl_head m)) fs'"
    and tag: "unpack_tag (sl_head m) = of_nat clock"
    and count: "sl_free_count m + due pc + of_nat (length fs) = sl_free_count (th_slab s) + due (th_pcs s ! t) + of_nat (length fs')"
    and self: "local_ok m pc" "\<And>p. loaded_head pc = Some p \<Longrightarrow> head_ok m clock (seen ! t) p"
    and others: "\<And>u. u < length (th_pcs s) \<Longrightarrow> u \<noteq> t \<Longrightarrow> local_ok m (th_pcs s ! u) \<and> seen ! u = th_seen s ! u"
      "\<And>u p. u < length (th_pcs s) \<Longrightarrow> u \<noteq> t \<Longrightarrow> loaded_head (th_pcs s ! u) = Some p \<Longrightarrow> head_ok m clock (th_seen s ! u) p"
  shows "threads_rep \<lparr>th_slab = m, th_pcs = (th_pcs s)[t := pc], th_held = held, th_clock = clock, th_seen = seen\<rparr> fs'"
proof -
  let ?R = "sum_list (map owns ((th_pcs s)[t := Outside]))" and ?D = "sum_list (map due ((th_pcs s)[t := Outside]))"
  have "mset fs + (owns (th_pcs s ! t) + ?R) + th_held s = mset (upto32 (sl_capacity (th_slab s)))"
    using rep split_thread [OF t, of owns] by (simp add: threads_rep_def Let_def)
  then have "mset fs' + (owns pc + ?R) + held = mset (upto32 (sl_capacity (th_slab s)))"
    using own by (metis (no_types, lifting) add.commute add.left_commute)
  moreover have "sl_free_count (th_slab s) + (due (th_pcs s ! t) + ?D) = of_nat (length fs)"
    using rep split_thread [OF t, of due] by (simp add: threads_rep_def Let_def)
  then have "sl_free_count m + (due pc + ?D) + (sl_free_count (th_slab s) + due (th_pcs s ! t)) =
      of_nat (length fs') + (sl_free_count (th_slab s) + due (th_pcs s ! t))"
    using count by (metis (no_types, lifting) add.assoc add.commute)
  then have "sl_free_count m + (due pc + ?D) = of_nat (length fs')" by simp
  moreover have "local_ok m ((th_pcs s)[t := pc] ! u) \<and>
      (\<forall>p. loaded_head ((th_pcs s)[t := pc] ! u) = Some p \<longrightarrow> head_ok m clock (seen ! u) p)"
    if "u < length (th_pcs s)" for u
    using that self others [of u] t by (cases "u = t") auto
  ultimately show ?thesis
    using rep t mem chain tag split_updated [OF t, of owns pc] split_updated [OF t, of due pc]
    by (simp add: threads_rep_def Let_def)
qed

section \<open>Every step keeps it\<close>

lemma chain_invalid: "chain nx kInvalidIndex fs \<Longrightarrow> fs = []"
  by (cases fs) simp_all

lemma threads_rep_fields:
  assumes "threads_rep s fs"
  shows "length (sl_pool (th_slab s)) = unat (sl_capacity (th_slab s))"
    and "length (sl_free_next (th_slab s)) = unat (sl_capacity (th_slab s))"
    and "length (th_seen s) = length (th_pcs s)"
    and "chain (\<lambda>i. sl_free_next (th_slab s) ! unat i) (unpack_index (sl_head (th_slab s))) fs"
    and "unpack_tag (sl_head (th_slab s)) = of_nat (th_clock s)"
    and "t < length (th_pcs s) \<Longrightarrow> local_ok (th_slab s) (th_pcs s ! t)"
    and "t < length (th_pcs s) \<Longrightarrow> loaded_head (th_pcs s ! t) = Some p \<Longrightarrow> head_ok (th_slab s) (th_clock s) (th_seen s ! t) p"
  using assms by (simp_all add: threads_rep_def Let_def)

lemma local_ok_cong:
  "sl_head m = sl_head m' \<Longrightarrow> sl_free_next m = sl_free_next m' \<Longrightarrow> local_ok m pc = local_ok m' pc"
  by (cases pc) simp_all

lemma head_ok_cong:
  "sl_head m = sl_head m' \<Longrightarrow> sl_capacity m = sl_capacity m' \<Longrightarrow> head_ok m c d p = head_ok m' c d p"
  by (simp add: head_ok_def)

lemma head_ok_fresh:
  assumes "threads_rep s fs"
  shows "head_ok (th_slab s) (th_clock s) (th_clock s) (sl_head (th_slab s))"
  using threads_rep_fields(4,5) [OF assms] threads_rep_free(2) [OF assms]
  by (cases fs) (auto simp: head_ok_def)

text \<open>A step that leaves the free list alone.\<close>

lemma threads_rep_quiet:
  assumes rep: "threads_rep s fs" and t: "t < length (th_pcs s)"
    and mem: "sl_capacity m = sl_capacity (th_slab s)" "length (sl_pool m) = length (sl_pool (th_slab s))"
      "sl_free_next m = sl_free_next (th_slab s)" "sl_head m = sl_head (th_slab s)"
    and own: "owns pc + held = owns (th_pcs s ! t) + th_held s"
    and count: "sl_free_count m + due pc = sl_free_count (th_slab s) + due (th_pcs s ! t)"
    and self: "local_ok m pc"
    and head: "loaded_head pc = (if loads pc then Some (sl_head m) else None) \<or> \<not> loads pc \<and> loaded_head pc = loaded_head (th_pcs s ! t)"
  shows "threads_rep \<lparr>th_slab = m, th_pcs = (th_pcs s)[t := pc], th_held = held, th_clock = th_clock s,
    th_seen = (if loads pc then (th_seen s)[t := th_clock s] else th_seen s)\<rparr> fs"
proof (rule threads_rep_update [OF rep t])
  show "head_ok m (th_clock s) ((if loads pc then (th_seen s)[t := th_clock s] else th_seen s) ! t) p" if "loaded_head pc = Some p" for p
    using that head t threads_rep_fields(3,7) [OF rep] head_ok_fresh [OF rep] mem head_ok_cong [OF mem(4,1)]
    by (cases "loads pc") auto
  show "local_ok m (th_pcs s ! u) \<and> (if loads pc then (th_seen s)[t := th_clock s] else th_seen s) ! u = th_seen s ! u"
    if "u < length (th_pcs s)" "u \<noteq> t" for u
    using that local_ok_cong [OF mem(4,3)] threads_rep_fields(6) [OF rep] by simp
  show "head_ok m (th_clock s) (th_seen s ! u) p" if "u < length (th_pcs s)" "u \<noteq> t" "loaded_head (th_pcs s ! u) = Some p" for u p
    using that head_ok_cong [OF mem(4,1)] threads_rep_fields(7) [OF rep] by simp
qed (use mem own count self threads_rep_fields(4,5) [OF rep] in \<open>simp_all add: ac_simps\<close>)

text \<open>A successful compare-and-swap: every head loaded before it is out of date, unless a thread overslept.\<close>

lemma threads_rep_swap:
  assumes rep: "threads_rep s fs" and t: "t < length (th_pcs s)"
    and head: "loaded_head (th_pcs s ! t) = Some (sl_head (th_slab s))"
    and pc: "loaded_head pc = None" "local_ok (th_slab s) pc" "\<not> loads pc" "won pc"
    and own: "mset fs' + owns pc = mset fs + owns (th_pcs s ! t)"
    and chain: "chain (\<lambda>i. sl_free_next (th_slab s) ! unat i) new fs'"
    and count: "due pc + of_nat (length fs) = due (th_pcs s ! t) + of_nat (length fs')"
    and s': "s' = \<lparr>th_slab = (th_slab s)\<lparr>sl_head := pack new (unpack_tag (sl_head (th_slab s)) + 1)\<rparr>,
      th_pcs = (th_pcs s)[t := pc], th_held = th_held s, th_clock = Suc (th_clock s), th_seen = th_seen s\<rparr>"
    and time: "in_time s'"
  shows "threads_rep s' fs'"
  unfolding s'
proof (rule threads_rep_update [OF rep t])
  let ?m = "(th_slab s)\<lparr>sl_head := pack new (unpack_tag (sl_head (th_slab s)) + 1)\<rparr>"
  fix u assume u: "u < length (th_pcs s)" "u \<noteq> t"
  have old: "seen \<le> th_clock s \<and> unpack_tag p = of_nat seen \<and> sl_head ?m \<noteq> p"
    if "loaded_head (th_pcs s ! u) = Some p" "seen = th_seen s ! u" for p seen
  proof -
    have ok: "seen \<le> th_clock s" "unpack_tag p = of_nat seen"
      using that u(1) threads_rep_fields(7) [OF rep] by (auto simp: head_ok_def)
    have "Suc (th_clock s) < seen + 2 ^ 32"
      using time u that by (auto simp: in_time_def s')
    then have "unat (of_nat (Suc (th_clock s) - seen) :: u32) = Suc (th_clock s) - seen"
      using ok(1) by (intro unat_of_nat_u32) (simp add: less_diff_conv2)
    then have "(of_nat (Suc (th_clock s) - seen) :: u32) \<noteq> 0"
      using ok(1) by (metis Suc_diff_le nat.distinct(1) unat_0)
    then have "(of_nat (Suc (th_clock s)) :: u32) \<noteq> of_nat seen"
      using ok(1) by (simp add: of_nat_diff)
    moreover have "unpack_tag (sl_head ?m) = of_nat (Suc (th_clock s))"
      using threads_rep_fields(5) [OF rep] by (simp add: add.commute)
    ultimately show ?thesis using ok by metis
  qed
  show "local_ok ?m (th_pcs s ! u) \<and> th_seen s ! u = th_seen s ! u"
    using threads_rep_fields(6) [OF rep u(1)] old by (cases "th_pcs s ! u") auto
  show "head_ok ?m (Suc (th_clock s)) (th_seen s ! u) p" if "loaded_head (th_pcs s ! u) = Some p" for p
    using old [OF that] threads_rep_fields(7) [OF rep u(1) that] by (auto simp: head_ok_def)
next
  show "unpack_tag (sl_head ((th_slab s)\<lparr>sl_head := pack new (unpack_tag (sl_head (th_slab s)) + 1)\<rparr>)) = of_nat (Suc (th_clock s))"
    using threads_rep_fields(5) [OF rep] by (simp add: add.commute)
  show "local_ok ((th_slab s)\<lparr>sl_head := pack new (unpack_tag (sl_head (th_slab s)) + 1)\<rparr>) pc"
    using pc by (cases pc) simp_all
qed (use own chain count pc in \<open>simp_all add: ac_simps\<close>)

text \<open>The link of an index that is not on the free list.\<close>

lemma threads_rep_link:
  assumes rep: "threads_rep s fs" and t: "t < length (th_pcs s)"
    and pc: "th_pcs s ! t = Free_loaded i p"
  shows "threads_rep (s\<lparr>th_slab := (th_slab s)\<lparr>sl_free_next := (sl_free_next (th_slab s))[unat i := unpack_index p]\<rparr>,
    th_pcs := (th_pcs s)[t := Free_linked i p]\<rparr>) fs"
proof -
  let ?m = "(th_slab s)\<lparr>sl_free_next := (sl_free_next (th_slab s))[unat i := unpack_index p]\<rparr>"
  have mine: "i \<in># owns (th_pcs s ! t)" using pc by simp
  note own = threads_rep_owner [OF rep t mine]
  have i: "unat i < length (sl_free_next (th_slab s))"
    using own(1) threads_rep_fields(2) [OF rep] by (simp add: word_less_nat_alt)
  have keep: "sl_free_next ?m ! unat j = sl_free_next (th_slab s) ! unat j" if "j \<noteq> i" for j
    using i that by simp
  have "threads_rep \<lparr>th_slab = ?m, th_pcs = (th_pcs s)[t := Free_linked i p], th_held = th_held s,
      th_clock = th_clock s, th_seen = th_seen s\<rparr> fs"
  proof (rule threads_rep_update [OF rep t])
    show "chain (\<lambda>j. sl_free_next ?m ! unat j) (unpack_index (sl_head ?m)) fs"
    proof (subst chain_cong)
      show "sl_free_next ?m ! unat j = sl_free_next (th_slab s) ! unat j" if "j \<in> set fs" for j
        using that own(2) keep by metis
    qed (use threads_rep_fields(4) [OF rep] in simp)
    show "head_ok ?m (th_clock s) (th_seen s ! t) q" if "loaded_head (Free_linked i p) = Some q" for q
      using that threads_rep_fields(7) [OF rep t] pc by (auto simp: head_ok_def)
  next
    fix u assume u: "u < length (th_pcs s)" "u \<noteq> t"
    have "unpack_index q \<noteq> i" if "th_pcs s ! u = Alloc_next q n" "sl_head (th_slab s) = q" for q n
      using that threads_rep_fields(4,6) [OF rep] u(1) own(2) by (cases fs) fastforce+
    moreover have "j \<noteq> i" if "th_pcs s ! u = Free_linked j q" for j q
      using that own(4) [OF u] by auto
    ultimately show "local_ok ?m (th_pcs s ! u) \<and> th_seen s ! u = th_seen s ! u"
      using threads_rep_fields(6) [OF rep u(1)] i by (cases "th_pcs s ! u") auto
    show "head_ok ?m (th_clock s) (th_seen s ! u) q" if "loaded_head (th_pcs s ! u) = Some q" for q
      using threads_rep_fields(7) [OF rep u(1) that] by (simp add: head_ok_def)
  qed (use pc i threads_rep_fields(5) [OF rep] in simp_all)
  then show ?thesis by (cases s) simp
qed

text \<open>What a step does to the free list: nothing, unless it is the successful compare-and-swap of an
  \<open>allocate\<close> (which takes the first index off) or of a \<open>deallocate\<close> (which puts one in front).\<close>

fun slab_effect :: "slab_pc \<Rightarrow> slab_pc \<Rightarrow> u32 list \<Rightarrow> u32 list" where
  "slab_effect (Alloc_next p n) (Alloc_won i) fs = tl fs"
| "slab_effect (Free_linked i p) Free_won fs = i # fs"
| "slab_effect pc pc' fs = fs"

lemma slab_step_total:
  assumes rep: "threads_rep s fs" and t: "t < length (th_pcs s)"
    and pc: "in_allocate (th_pcs s ! t) \<or> in_deallocate (th_pcs s ! t)"
  shows "slab_step weak (th_pcs s ! t) (th_slab s) \<noteq> None"
proof -
  have own: "unat i < unat (sl_capacity (th_slab s)) \<and> i < sl_capacity (th_slab s)" if "owns (th_pcs s ! t) = {#i#}" for i
    using threads_rep_owner(1) [OF rep t, of i] that by (simp add: word_less_nat_alt)
  have head: "unat (unpack_index p) < unat (sl_capacity (th_slab s))"
    if "th_pcs s ! t = Alloc_loaded p" "unpack_index p \<noteq> kInvalidIndex" for p
    using threads_rep_fields(7) [OF rep t, of p] that by (simp add: head_ok_def word_less_nat_alt)
  show ?thesis
    using pc own head threads_rep_fields(1,2) [OF rep]
    by (cases "th_pcs s ! t") (auto simp: slab_step_def vget_def vset_def)
qed

lemma in_time_trivial: "in_time (threads_new n s)"
  by (simp add: in_time_def threads_new_def)

lemma threads_rep_run:
  assumes rep: "threads_rep s fs" and t: "t < length (th_pcs s)"
    and run: "slab_step weak (th_pcs s ! t) (th_slab s) = Some (pc, m)"
    and s': "s' = s\<lparr>th_slab := m, th_pcs := (th_pcs s)[t := pc],
      th_clock := (if won pc then Suc (th_clock s) else th_clock s),
      th_seen := (if loads pc then (th_seen s)[t := th_clock s] else th_seen s)\<rparr>"
    and time: "in_time s'"
  shows "threads_rep s' (slab_effect (th_pcs s ! t) pc fs)"
proof -
  have s'_eq: "s' = \<lparr>th_slab = m, th_pcs = (th_pcs s)[t := pc], th_held = th_held s,
      th_clock = (if won pc then Suc (th_clock s) else th_clock s),
      th_seen = (if loads pc then (th_seen s)[t := th_clock s] else th_seen s)\<rparr>"
    by (simp add: s')
  note quiet = threads_rep_quiet [OF rep t, of m pc "th_held s"]
  show ?thesis
  proof (cases "th_pcs s ! t")
    case (Alloc_loaded p)
    then show ?thesis
      using run quiet unfolding s'_eq by (auto simp: slab_step_def vget_def split: if_splits)
  next
    case (Alloc_next p n)
    show ?thesis
    proof (cases "sl_head (th_slab s) = p \<and> \<not> weak")
      case True
      have ok: "unpack_index p \<noteq> kInvalidIndex" "sl_free_next (th_slab s) ! unat (unpack_index p) = n"
        using threads_rep_fields(6) [OF rep t] Alloc_next True by auto
      then obtain fs' where fs: "fs = unpack_index p # fs'" "chain (\<lambda>i. sl_free_next (th_slab s) ! unat i) n fs'"
        using threads_rep_fields(4) [OF rep] True by (cases fs) auto
      have res: "pc = Alloc_won (unpack_index p)" "m = (th_slab s)\<lparr>sl_head := pack n (unpack_tag p + 1)\<rparr>"
        using run Alloc_next True by (auto simp: slab_step_def)
      have "threads_rep s' fs'"
        by (rule threads_rep_swap [OF rep t _ _ _ _ _ _ fs(2) _ _ time]) (use Alloc_next True res fs(1) s'_eq in auto)
      then show ?thesis by (simp add: Alloc_next res(1) fs(1))
    next
      case False
      then show ?thesis using run quiet Alloc_next unfolding s'_eq by (auto simp: slab_step_def)
    qed
  next
    case (Alloc_reset i)
    have "i \<noteq> kInvalidIndex"
      by (rule less_invalid [OF threads_rep_owner(1) [OF rep t]]) (simp add: Alloc_reset)
    then show ?thesis using run quiet Alloc_reset unfolding s'_eq by (auto simp: slab_step_def)
  next
    case (Free_loaded i p)
    have "s' = s\<lparr>th_slab := (th_slab s)\<lparr>sl_free_next := (sl_free_next (th_slab s))[unat i := unpack_index p]\<rparr>,
        th_pcs := (th_pcs s)[t := Free_linked i p]\<rparr>" "pc = Free_linked i p"
      using run Free_loaded by (auto simp: s' slab_step_def vset_def split: if_splits)
    then show ?thesis using threads_rep_link [OF rep t Free_loaded] Free_loaded by simp
  next
    case (Free_linked i p)
    show ?thesis
    proof (cases "sl_head (th_slab s) = p \<and> \<not> weak")
      case True
      have mine: "i \<in># owns (th_pcs s ! t)" using Free_linked by simp
      have "i \<noteq> kInvalidIndex" by (rule less_invalid [OF threads_rep_owner(1) [OF rep t mine]])
      moreover have "sl_free_next (th_slab s) ! unat i = unpack_index p"
        using threads_rep_fields(6) [OF rep t] Free_linked by simp
      ultimately have chain: "chain (\<lambda>i. sl_free_next (th_slab s) ! unat i) i (i # fs)"
        using threads_rep_fields(4) [OF rep] True by simp
      have res: "pc = Free_won" "m = (th_slab s)\<lparr>sl_head := pack i (unpack_tag p + 1)\<rparr>"
        using run Free_linked True by (auto simp: slab_step_def)
      have "threads_rep s' (i # fs)"
        by (rule threads_rep_swap [OF rep t _ _ _ _ _ _ chain _ _ time]) (use Free_linked True res s'_eq in auto)
      then show ?thesis by (simp add: Free_linked res(1))
    next
      case False
      then show ?thesis using run quiet Free_linked unfolding s'_eq by (auto simp: slab_step_def)
    qed
  qed (use run quiet in \<open>auto simp: s'_eq slab_step_def vget_def vset_def guard_def split: if_splits bind_splits\<close>)
qed

text \<open>What each kind of step does to the free list.\<close>

lemma thread_step_rep:
  assumes "thread_step t s s'" and "threads_rep s fs" and "in_time s'"
  shows "t < length (th_pcs s) \<and> threads_rep s' (slab_effect (th_pcs s ! t) (th_pcs s' ! t) fs)"
  using assms
proof (cases rule: thread_step.cases)
  case call_allocate
  then show ?thesis
    using threads_rep_quiet [OF assms(2), of t "th_slab s" Alloc_call "th_held s"] by (cases s) simp
next
  case (call_deallocate i)
  then show ?thesis
    using threads_rep_quiet [OF assms(2), of t "th_slab s" "Free_call i" "th_held s - {#i#}"] by (cases s) simp
next
  case (run weak pc m)
  show ?thesis using threads_rep_run [OF assms(2) run(2,3,1) assms(3)] run by simp
next
  case (return_allocate i)
  then show ?thesis
    using threads_rep_quiet [OF assms(2), of t "th_slab s" Outside "if i = kInvalidIndex then th_held s else add_mset i (th_held s)"]
    by (cases s) (simp add: if_distrib)
next
  case return_deallocate
  then show ?thesis
    using threads_rep_quiet [OF assms(2), of t "th_slab s" Outside "th_held s"] by (cases s) simp
qed

lemma threads_new_rep:
  assumes "slab_rep s fs" and "mset fs = mset (upto32 (sl_capacity s))" and "unpack_tag (sl_head s) = 0"
  shows "threads_rep (threads_new n s) fs"
proof -
  have zero: "sum_list (replicate n {#}) = {#}" by (induction n) simp_all
  show ?thesis using assms by (simp add: threads_rep_def threads_new_def slab_rep_def Let_def sum_list_replicate zero)
qed

lemma slab_reach_rep:
  assumes "slab_new c = Inr s0" and "slab_reach (threads_new n s0) s"
  shows "threads_rep s (free_slots (th_slab s)) \<and> sl_capacity (th_slab s) = c \<and> length (th_pcs s) = n \<and> in_time s"
  using assms(2)
proof (induction rule: slab_reach.induct)
  case start
  have "unpack_tag (sl_head s0) = 0" using assms(1) by (auto simp: slab_new_def split: if_splits)
  then have "threads_rep (threads_new n s0) (upto32 c)"
    by (intro threads_new_rep) (simp_all add: slab_new_rep [OF assms(1)])
  moreover have "th_slab (threads_new n s0) = s0" "length (th_pcs (threads_new n s0)) = n"
    by (simp_all add: threads_new_def)
  ultimately show ?case
    using threads_rep_free(4) slab_new_rep(2) [OF assms(1)] in_time_trivial by metis
next
  case (step s t s')
  then have rep: "threads_rep s' (slab_effect (th_pcs s ! t) (th_pcs s' ! t) (free_slots (th_slab s)))"
    using thread_step_rep by blast
  have "sl_capacity (th_slab s') = sl_capacity (th_slab s) \<and> length (th_pcs s') = length (th_pcs s)"
    using step(2)
  proof (cases rule: thread_step.cases)
    case (run weak pc m)
    then show ?thesis
      by (cases "th_pcs s ! t") (auto simp: slab_step_def split: if_splits bind_splits)
  qed simp_all
  then show ?case using rep threads_rep_free(4) [OF rep] step by simp
qed

section \<open>Executable runs\<close>

text \<open>A schedule: which thread moves, and how. Playing one gives a reachable state.\<close>

datatype slab_event = Call_allocate nat | Call_deallocate nat u32 | Run nat bool | Return nat

fun slab_schedule_step :: "slab_event \<Rightarrow> slab_threads \<Rightarrow> slab_threads option" where
  "slab_schedule_step (Call_allocate t) s =
     (if t < length (th_pcs s) \<and> th_pcs s ! t = Outside then Some (s\<lparr>th_pcs := (th_pcs s)[t := Alloc_call]\<rparr>) else None)"
| "slab_schedule_step (Call_deallocate t i) s =
     (if t < length (th_pcs s) \<and> th_pcs s ! t = Outside \<and> i \<in># th_held s
      then Some (s\<lparr>th_pcs := (th_pcs s)[t := Free_call i], th_held := th_held s - {#i#}\<rparr>) else None)"
| "slab_schedule_step (Run t weak) s =
     (if t < length (th_pcs s)
      then do {
        (pc, m) \<leftarrow> slab_step weak (th_pcs s ! t) (th_slab s);
        Some (s\<lparr>th_slab := m, th_pcs := (th_pcs s)[t := pc],
          th_clock := (if won pc then Suc (th_clock s) else th_clock s),
          th_seen := (if loads pc then (th_seen s)[t := th_clock s] else th_seen s)\<rparr>)
      }
      else None)"
| "slab_schedule_step (Return t) s =
     (if t < length (th_pcs s)
      then (case th_pcs s ! t of
              Alloc_return i \<Rightarrow> Some (s\<lparr>th_pcs := (th_pcs s)[t := Outside],
                th_held := (if i = kInvalidIndex then th_held s else add_mset i (th_held s))\<rparr>)
            | Free_return \<Rightarrow> Some (s\<lparr>th_pcs := (th_pcs s)[t := Outside]\<rparr>)
            | _ \<Rightarrow> None)
      else None)"

fun slab_play :: "slab_event list \<Rightarrow> slab_threads \<Rightarrow> slab_threads option" where
  "slab_play [] s = Some s"
| "slab_play (ev # evs) s = do { s \<leftarrow> slab_schedule_step ev s; if in_time s then slab_play evs s else None }"

lemma slab_schedule_step_ok:
  assumes "slab_schedule_step ev s = Some s'" shows "\<exists>t. thread_step t s s'"
proof (cases ev)
  case (Run t weak)
  then show ?thesis
    using assms thread_step.run [of t s weak] by (auto split: if_splits bind_splits)
next
  case (Return t)
  then show ?thesis
    using assms thread_step.return_allocate [of t s] thread_step.return_deallocate [of t s]
    by (cases "th_pcs s ! t") (auto split: if_splits)
qed (use assms in \<open>auto split: if_splits intro: thread_step.intros(1,2)\<close>)

lemma slab_play_reach: "slab_play evs s = Some s' \<Longrightarrow> slab_reach s0 s \<Longrightarrow> slab_reach s0 s'"
proof (induction evs arbitrary: s)
  case (Cons ev evs)
  then show ?case
    by (auto split: bind_splits if_splits dest!: slab_schedule_step_ok intro: slab_reach.step)
qed simp

section \<open>Properties\<close>

text \<open>C6. The lock-free slab is safe under any interleaving of any number of threads. No assertion fails and no
  subscript is out of range at any point of any thread. Every slot is in exactly one place: on the free list,
  in the hands of exactly one thread, or held by a client, so no slot is ever handed out twice or lost. When no
  thread is inside an operation, the counter agrees with the free list.
\<close>

theorem slab_concurrent_safe:
  assumes "slab_new c = Inr s0" and "slab_reach (threads_new n s0) s"
  shows "(\<forall>t < n. \<forall>weak. in_allocate (th_pcs s ! t) \<or> in_deallocate (th_pcs s ! t) \<longrightarrow> slab_step weak (th_pcs s ! t) (th_slab s) \<noteq> None) \<and>
    mset (free_slots (th_slab s)) + sum_list (map owns (th_pcs s)) + th_held s = mset (upto32 c) \<and>
    (\<forall>t < n. \<forall>u < n. t \<noteq> u \<longrightarrow> owns (th_pcs s ! t) \<inter># owns (th_pcs s ! u) = {#}) \<and>
    ((\<forall>t < n. th_pcs s ! t = Outside) \<longrightarrow>
       unat (slab_available (th_slab s)) = length (free_slots (th_slab s)) \<and> length (free_slots (th_slab s)) + size (th_held s) = unat c)"
proof -
  have rep: "threads_rep s (free_slots (th_slab s))" "sl_capacity (th_slab s) = c" "length (th_pcs s) = n"
    using slab_reach_rep [OF assms] by simp_all
  have total: "mset (free_slots (th_slab s)) + sum_list (map owns (th_pcs s)) + th_held s = mset (upto32 c)"
    using rep(1,2) by (simp add: threads_rep_def Let_def)
  have "unat (slab_available (th_slab s)) = length (free_slots (th_slab s)) \<and> length (free_slots (th_slab s)) + size (th_held s) = unat c"
    if "\<forall>t < n. th_pcs s ! t = Outside"
  proof -
    have out: "th_pcs s = replicate n Outside" using that rep(3) by (simp add: list_eq_iff_nth_eq)
    have zero: "sum_list (map owns (th_pcs s)) = {#}" "sum_list (map due (th_pcs s)) = 0"
      unfolding out by (induction n) simp_all
    have "sl_free_count (th_slab s) = of_nat (length (free_slots (th_slab s)))"
      using rep(1) zero(2) by (simp add: threads_rep_def Let_def)
    moreover have "size (mset (free_slots (th_slab s)) + th_held s) = unat c"
      using total zero(1) by simp
    ultimately show ?thesis
      using threads_rep_free(1,2) [OF rep(1)] by (simp add: slab_available_def unat_length_indices [where n = c] rep(2))
  qed
  moreover have "owns (th_pcs s ! t) \<inter># owns (th_pcs s ! u) = {#}" if "t < n" "u < n" "t \<noteq> u" for t u
    using threads_rep_owner(4) [OF rep(1), of t _ u] that rep(3) by (auto simp: disjunct_not_in)
  ultimately show ?thesis using slab_step_total [OF rep(1)] total rep(3) by simp
qed

definition demo_slab :: slab where
  "demo_slab = \<lparr>sl_capacity = 2, sl_pool = [node_default, node_default], sl_free_next = [1, kInvalidIndex],
     sl_head = pack 0 0, sl_free_count = 2\<rparr>"

lemma walk_two: "walk 2 nx h = (if h = kInvalidIndex then [] else h # (if nx h = kInvalidIndex then [] else [nx h]))"
  by (simp add: numeral_2_eq_2)

lemma demo_slab_new: "slab_new 2 = Inr demo_slab"
proof -
  have "unat (2 - 1 :: u32) = Suc 0" by simp
  then show ?thesis by (simp add: slab_new_def demo_slab_def replicate_two)
qed

definition full_allocate :: "nat \<Rightarrow> slab_event list" where
  "full_allocate t = [Call_allocate t, Run t False, Run t False, Run t False, Run t False, Run t False, Return t]"

definition full_deallocate :: "nat \<Rightarrow> u32 \<Rightarrow> slab_event list" where
  "full_deallocate t i = [Call_deallocate t i, Run t False, Run t False, Run t False, Run t False, Run t False, Return t]"

text \<open>Thread 0 reads the head and the link of slot 0; thread 1 then takes slot 0, takes slot 1 and gives
  slot 0 back, so that the head again points to slot 0, whose link is no longer slot 1.\<close>

definition aba_schedule :: "slab_event list" where
  "aba_schedule = [Call_allocate 0, Run 0 False, Run 0 False] @ full_allocate 1 @ full_allocate 1 @ full_deallocate 1 0"

definition demo_reached :: slab_threads where
  "demo_reached = \<lparr>th_slab = demo_slab\<lparr>sl_head := pack 0 3, sl_free_next := [kInvalidIndex, kInvalidIndex], sl_free_count := 1\<rparr>,
     th_pcs = [Alloc_next (pack 0 0) 1, Outside], th_held = {#1#}, th_clock = 3, th_seen = [0, 2]\<rparr>"

lemma aba_schedule_play: "slab_play aba_schedule (threads_new 2 demo_slab) = Some demo_reached"
  by (simp add: aba_schedule_def full_allocate_def full_deallocate_def threads_new_def demo_slab_def demo_reached_def
      slab_step_def vget_def vset_def in_time_def All_less_Suc replicate_two kInvalidIndex_def)

lemma demo_reach: "slab_reach (threads_new 2 demo_slab) demo_reached"
  by (rule slab_play_reach [OF aba_schedule_play slab_reach.start])

theorem slab_concurrent_safe_witness:
  "slab_step False (th_pcs demo_reached ! 0) (th_slab demo_reached) \<noteq> None \<and> free_slots (th_slab demo_reached) = [0] \<and>
   mset (free_slots (th_slab demo_reached)) + sum_list (map owns (th_pcs demo_reached)) + th_held demo_reached = {#0, 1#}"
proof -
  have "mset (upto32 2) = {#0, 1#}" by (simp add: upto32_def upt_conv_Cons)
  moreover have "free_slots (th_slab demo_reached) = [0]"
    by (simp add: free_slots_def demo_reached_def demo_slab_def walk_two kInvalidIndex_def)
  moreover have "in_allocate (th_pcs demo_reached ! 0)" by (simp add: demo_reached_def)
  ultimately show ?thesis
    using slab_concurrent_safe [OF demo_slab_new demo_reach] by (metis zero_less_numeral)
qed

text \<open>C7. The lock-free slab refines the sequential free list: every step of every thread leaves the free list as it
  is, except the one successful compare-and-swap of each operation. That of an \<open>allocate\<close> takes the first free
  slot, and its thread gets that slot, although link and head were read earlier and other threads may have
  allocated and deallocated since (the ABA case); that of a \<open>deallocate\<close> puts its slot in front. An \<open>allocate\<close>
  gives up only if the free list was empty when it read the head.
\<close>

theorem slab_concurrent_linearizable:
  assumes "slab_new c = Inr s0" and "slab_reach (threads_new n s0) s" and "thread_step t s s'" and "in_time s'"
  shows "free_slots (th_slab s') = slab_effect (th_pcs s ! t) (th_pcs s' ! t) (free_slots (th_slab s)) \<and>
    (\<forall>p m i. th_pcs s ! t = Alloc_next p m \<and> th_pcs s' ! t = Alloc_won i \<longrightarrow> free_slots (th_slab s) = i # free_slots (th_slab s')) \<and>
    (\<forall>p. th_pcs s' ! t = Alloc_loaded p \<and> unpack_index p = kInvalidIndex \<longrightarrow> free_slots (th_slab s') = [])"
proof -
  have rep: "threads_rep s (free_slots (th_slab s))" using slab_reach_rep [OF assms(1,2)] by simp
  have t: "t < length (th_pcs s)"
    and rep': "threads_rep s' (slab_effect (th_pcs s ! t) (th_pcs s' ! t) (free_slots (th_slab s)))"
    using thread_step_rep [OF assms(3) rep assms(4)] by simp_all
  note eff = threads_rep_free(4) [OF rep']
  have "free_slots (th_slab s) = i # free_slots (th_slab s')"
    if pcs: "th_pcs s ! t = Alloc_next p m" "th_pcs s' ! t = Alloc_won i" for p m i
    using assms(3)
  proof (cases rule: thread_step.cases)
    case (run weak pc mem)
    then have h: "sl_head (th_slab s) = p" "i = unpack_index p"
      using pcs by (auto simp: slab_step_def split: if_splits)
    moreover have "unpack_index p \<noteq> kInvalidIndex"
      using threads_rep_fields(6) [OF rep t] pcs(1) by simp
    ultimately show ?thesis
      using threads_rep_fields(4) [OF rep] eff pcs by (cases "free_slots (th_slab s)") auto
  qed (use pcs t in simp_all)
  moreover have "free_slots (th_slab s') = []"
    if pcs: "th_pcs s' ! t = Alloc_loaded p" "unpack_index p = kInvalidIndex" for p
    using assms(3)
  proof (cases rule: thread_step.cases)
    case (run weak pc mem)
    then have "sl_head (th_slab s') = p" using pcs t
      by (cases "th_pcs s ! t") (auto simp: slab_step_def split: if_splits bind_splits)
    then show ?thesis
      using threads_rep_fields(4) [OF rep'] eff pcs(2) chain_invalid by simp
  qed (use pcs t in simp_all)
  ultimately show ?thesis using eff by blast
qed

text \<open>In the ABA case the compare-and-swap of the overtaken thread fails, and it reads the head again.\<close>

theorem slab_concurrent_linearizable_witness:
  "let s' = demo_reached\<lparr>th_pcs := [Alloc_loaded (pack 0 3), Outside], th_seen := [3, 2]\<rparr> in
    slab_schedule_step (Run 0 False) demo_reached = Some s' \<and> free_slots (th_slab s') = free_slots (th_slab demo_reached)"
proof -
  let ?s = "demo_reached\<lparr>th_pcs := [Alloc_loaded (pack 0 3), Outside], th_seen := [3, 2]\<rparr>"
  have run: "slab_schedule_step (Run 0 False) demo_reached = Some ?s"
    by (simp add: demo_reached_def demo_slab_def slab_step_def)
  have step: "thread_step 0 demo_reached ?s"
    using thread_step.run [of 0 demo_reached False "Alloc_loaded (pack 0 3)" "th_slab demo_reached"]
    by (simp add: demo_reached_def demo_slab_def slab_step_def)
  have "in_time ?s" by (simp add: in_time_def demo_reached_def All_less_Suc)
  from slab_concurrent_linearizable [OF demo_slab_new demo_reach step this] show ?thesis
    using run by (simp add: demo_reached_def)
qed

text \<open>A thread that runs alone does what the sequential model says: its five steps from the call are
  \<open>slab_allocate\<close> and \<open>slab_deallocate\<close>, on every slab, failures included (an exhausted slab is reported after two).\<close>

theorem slab_alone_agrees:
  "slab_alone [False, False, False, False, False] Alloc_call s = map_option (\<lambda>(i, s'). (Alloc_return i, s')) (slab_allocate s) \<and>
   slab_alone [False, False, False, False, False] (Free_call i) s = map_option (Pair Free_return) (slab_deallocate i s)"
  by (simp add: slab_step_def slab_allocate_def slab_deallocate_def Let_def vget_def vset_def guard_def)

text \<open>The steps a lone thread has left when no compare-and-swap fails spuriously: two more when its head is out of date.\<close>

fun alone_left :: "slab_pc \<Rightarrow> u64 \<Rightarrow> nat" where
  "alone_left Alloc_call h = 5"
| "alone_left (Alloc_loaded p) h = (if p = h then 4 else 6)"
| "alone_left (Alloc_next p n) h = (if p = h then 3 else 5)"
| "alone_left (Alloc_won i) h = 2"
| "alone_left (Alloc_reset i) h = 1"
| "alone_left (Free_call i) h = 5"
| "alone_left (Free_reset i) h = 4"
| "alone_left (Free_loaded i p) h = (if p = h then 3 else 5)"
| "alone_left (Free_linked i p) h = (if p = h then 2 else 4)"
| "alone_left Free_won h = 1"
| "alone_left _ h = 0"

fun alone_ok :: "slab \<Rightarrow> slab_pc \<Rightarrow> bool" where
  "alone_ok s Outside \<longleftrightarrow> False"
| "alone_ok s Alloc_call \<longleftrightarrow> unpack_index (sl_head s) = kInvalidIndex \<or> unpack_index (sl_head s) < sl_capacity s"
| "alone_ok s (Alloc_loaded p) \<longleftrightarrow> (unpack_index (sl_head s) = kInvalidIndex \<or> unpack_index (sl_head s) < sl_capacity s) \<and>
     (unpack_index p = kInvalidIndex \<or> unpack_index p < sl_capacity s)"
| "alone_ok s (Alloc_next p n) \<longleftrightarrow> (unpack_index (sl_head s) = kInvalidIndex \<or> unpack_index (sl_head s) < sl_capacity s) \<and>
     unpack_index p < sl_capacity s"
| "alone_ok s (Alloc_won i) \<longleftrightarrow> i < sl_capacity s"
| "alone_ok s (Free_call i) \<longleftrightarrow> i < sl_capacity s"
| "alone_ok s (Free_reset i) \<longleftrightarrow> i < sl_capacity s"
| "alone_ok s (Free_loaded i p) \<longleftrightarrow> i < sl_capacity s"
| "alone_ok s (Free_linked i p) \<longleftrightarrow> i < sl_capacity s"
| "alone_ok s _ \<longleftrightarrow> True"

definition slab_sized :: "slab \<Rightarrow> bool" where
  "slab_sized s \<longleftrightarrow> length (sl_pool s) = unat (sl_capacity s) \<and> length (sl_free_next s) = unat (sl_capacity s)"

lemma alone_step:
  assumes "slab_sized s" and "alone_ok s pc" and "in_allocate pc \<or> in_deallocate pc"
  shows "oks (slab_step weak pc s) (\<lambda>(pc', s'). slab_sized s' \<and> alone_ok s' pc' \<and>
           Suc (alone_left pc' (sl_head s')) \<le> alone_left pc (sl_head s) + 2 * of_bool weak)"
  using assms by (cases pc) (auto simp: slab_step_def slab_sized_def vget_def vset_def guard_def word_less_nat_alt)

lemma alone_returns:
  assumes "slab_sized s" and "alone_ok s pc" and "alone_left pc (sl_head s) + 2 * count_list ws True \<le> length ws"
  shows "oks (slab_alone ws pc s) (\<lambda>(pc, _). pc = Free_return \<or> (\<exists>i. pc = Alloc_return i))"
  using assms
proof (induction ws arbitrary: pc s)
  case Nil
  then show ?case by (cases pc) (auto split: if_splits)
next
  case (Cons weak ws)
  show ?case
  proof (cases "in_allocate pc \<or> in_deallocate pc")
    case True
    obtain pc' s' where step: "slab_step weak pc s = Some (pc', s')" and "slab_sized s'" "alone_ok s' pc'"
      and "Suc (alone_left pc' (sl_head s')) \<le> alone_left pc (sl_head s) + 2 * of_bool weak"
      using alone_step [OF Cons.prems(1,2) True, of weak] by (auto elim!: oksE)
    then have "oks (slab_alone ws pc' s') (\<lambda>(pc, _). pc = Free_return \<or> (\<exists>i. pc = Alloc_return i))"
      using Cons.prems(3) by (intro Cons.IH) (auto split: if_splits)
    then show ?thesis using True step by simp
  next
    case False
    then show ?thesis using Cons.prems(2) by (cases pc) simp_all
  qed
qed

lemma threads_rep_alone:
  assumes rep: "threads_rep s fs" and t: "t < length (th_pcs s)"
    and pc: "in_allocate (th_pcs s ! t) \<or> in_deallocate (th_pcs s ! t)"
  shows "slab_sized (th_slab s)" and "alone_ok (th_slab s) (th_pcs s ! t)"
proof -
  have own: "i < sl_capacity (th_slab s)" if "owns (th_pcs s ! t) = {#i#}" for i
    using threads_rep_owner(1) [OF rep t, of i] that by (simp add: word_less_nat_alt)
  have head: "unpack_index p = kInvalidIndex \<or> unpack_index p < sl_capacity (th_slab s)"
    if "loaded_head (th_pcs s ! t) = Some p \<or> p = sl_head (th_slab s)" for p
    using that threads_rep_fields(7) [OF rep t, of p] head_ok_fresh [OF rep] by (auto simp: head_ok_def)
  show "slab_sized (th_slab s)" using threads_rep_fields(1,2) [OF rep] by (simp add: slab_sized_def)
  show "alone_ok (th_slab s) (th_pcs s ! t)"
    using pc own head threads_rep_fields(6) [OF rep t] by (cases "th_pcs s ! t") auto
qed

lemma slab_retry_iff:
  assumes "slab_step weak pc m = Some (pc', m')" and "loaded_head pc = Some p"
  shows "loads pc' \<longleftrightarrow> (\<exists>n. pc = Alloc_next p n \<or> pc = Free_linked n p) \<and> (weak \<or> sl_head m \<noteq> p)"
  using assms by (cases pc) (auto simp: slab_step_def split: if_splits bind_splits)

text \<open>C21. Lock freedom. A thread inside \<open>allocate\<close> or \<open>deallocate\<close> goes back to reading the head only when its
  compare-and-swap has failed, and that happens only if it fails spuriously, which \<open>compare_exchange_weak\<close> may, or if
  some operation has succeeded since the thread loaded the head; and from any point of any interleaving a thread that is
  left alone returns within six steps and two more for each spurious failure.
\<close>

theorem slab_lock_free:
  assumes "slab_new c = Inr s0" and "slab_reach (threads_new n s0) s" and "t < n"
    and "in_allocate (th_pcs s ! t) \<or> in_deallocate (th_pcs s ! t)"
  shows "(\<forall>p weak pc m. loaded_head (th_pcs s ! t) = Some p \<and> slab_step weak (th_pcs s ! t) (th_slab s) = Some (pc, m) \<and> loads pc \<longrightarrow>
      weak \<or> sl_head (th_slab s) \<noteq> p \<and> th_seen s ! t < th_clock s) \<and>
    (\<forall>ws. 6 + 2 * count_list ws True \<le> length ws \<longrightarrow>
      oks (slab_alone ws (th_pcs s ! t) (th_slab s)) (\<lambda>(pc, _). pc = Free_return \<or> (\<exists>i. pc = Alloc_return i)))"
proof -
  have rep: "threads_rep s (free_slots (th_slab s))" and t: "t < length (th_pcs s)"
    using slab_reach_rep [OF assms(1,2)] assms(3) by simp_all
  have "th_seen s ! t < th_clock s" if "loaded_head (th_pcs s ! t) = Some p" "sl_head (th_slab s) \<noteq> p" for p
    using threads_rep_fields(7) [OF rep t that(1)] that(2) by (auto simp: head_ok_def)
  then have "weak \<or> sl_head (th_slab s) \<noteq> p \<and> th_seen s ! t < th_clock s"
    if "loaded_head (th_pcs s ! t) = Some p" "slab_step weak (th_pcs s ! t) (th_slab s) = Some (pc, m)" "loads pc" for p weak pc m
    using slab_retry_iff [OF that(2,1)] that(1,3) by blast
  moreover have "oks (slab_alone ws (th_pcs s ! t) (th_slab s)) (\<lambda>(pc, _). pc = Free_return \<or> (\<exists>i. pc = Alloc_return i))"
    if "6 + 2 * count_list ws True \<le> length ws" for ws
  proof (rule alone_returns [OF threads_rep_alone [OF rep t assms(4)]])
    have "alone_left (th_pcs s ! t) (sl_head (th_slab s)) \<le> 6" by (cases "th_pcs s ! t") simp_all
    then show "alone_left (th_pcs s ! t) (sl_head (th_slab s)) + 2 * count_list ws True \<le> length ws" using that by simp
  qed
  ultimately show ?thesis by blast
qed

theorem slab_lock_free_witness:
  "th_seen demo_reached ! 0 < th_clock demo_reached \<and>
   oks (slab_alone [False, True, False, True, False, False, False, False, False, False] (th_pcs demo_reached ! 0) (th_slab demo_reached))
     (\<lambda>(pc, _). pc = Free_return \<or> (\<exists>i. pc = Alloc_return i))"
proof -
  have pc: "th_pcs demo_reached ! 0 = Alloc_next (pack 0 0) 1" by (simp add: demo_reached_def)
  have step: "slab_step False (th_pcs demo_reached ! 0) (th_slab demo_reached) = Some (Alloc_loaded (pack 0 3), th_slab demo_reached)"
    by (simp add: demo_reached_def demo_slab_def slab_step_def)
  have alone: "in_allocate (th_pcs demo_reached ! 0) \<or> in_deallocate (th_pcs demo_reached ! 0)"
    and head: "loaded_head (th_pcs demo_reached ! 0) = Some (pack 0 0)" by (simp_all add: pc)
  note free = slab_lock_free [OF demo_slab_new demo_reach, of 0, OF _ alone]
  have "th_seen demo_reached ! 0 < th_clock demo_reached"
    using conjunct1 [OF free, rule_format, of "pack 0 0" False] step head by simp
  moreover have "oks (slab_alone [False, True, False, True, False, False, False, False, False, False]
      (th_pcs demo_reached ! 0) (th_slab demo_reached)) (\<lambda>(pc, _). pc = Free_return \<or> (\<exists>i. pc = Alloc_return i))"
    by (rule conjunct2 [OF free, rule_format]) simp_all
  ultimately show ?thesis ..
qed

end
