(* ===== verification/Stripe_Steps.thy ===== *)
theory Stripe_Steps
  imports Cache_Stripe_Props
begin

text \<open>
  The operations of \<open>CacheStripe\<close> cut at their calls into the objects that all stripes share. An operation
  holds its own stripe's mutex from begin to end, so nobody else sees the stripe between two of its steps;
  but \<open>slab_.allocate()\<close>, \<open>slab_.deallocate()\<close> and \<open>demotion_queue_->try_push()\<close> go to objects that the
  operations running on the other stripes use at the same time. A step is therefore at most one such call
  with the stripe-local work around it. \<open>Stripe_Concurrent\<close> interleaves the steps of the 64 stripes.
\<close>

section \<open>Where an operation stands\<close>

text \<open>The program counter of an operation with the local variables it still needs; \<open>'n\<close> is the type of a
  node: an index in the code, an entry in the specification. \<open>Evicting c w\<close> is inside \<open>demote_victim(w)\<close>
  with candidate \<open>c\<close>, \<open>Pushing c item\<close> before the push of the victim's item.\<close>

datatype 'n work =
    Start cache_op
  | Allocating string string
  | Admitting
  | Rejecting 'n
  | Evicting 'n 'n
  | Pushing 'n demotion_item
  | Freeing 'n string
  | Returned cache_result

section \<open>The steps\<close>

definition start_put :: "hash32 \<Rightarrow> string \<Rightarrow> string \<Rightarrow> shard \<Rightarrow> (u32 work \<times> shard) option" where
  "start_put h32 key val v = do {
     v \<leftarrow> count_access h32 key v;
     let v = maybe_decay_cms v;
     case st_index_map (sh_stripe v) key of
       Some idx \<Rightarrow> map_option (map_prod (\<lambda>r. Returned (Flag r)) id) (put_existing idx val v)
     | None \<Rightarrow> Some (Allocating key val, v)
   }"

definition unlink_node :: "u32 \<Rightarrow> shard \<Rightarrow> shard option" where
  "unlink_node idx v = do {
     node \<leftarrow> shard_node v idx;
     case segment_of (n_segment node) of
       Some Window \<Rightarrow> on_lru Win (lru_remove idx) v
     | Some Probation \<Rightarrow> on_lru Prob (lru_remove idx) v
     | Some Protected \<Rightarrow> on_lru Prot (lru_remove idx) v
     | _ \<Rightarrow> Some v
   }"

definition start_remove :: "string \<Rightarrow> shard \<Rightarrow> (u32 work \<times> shard) option" where
  "start_remove key v =
     (case st_index_map (sh_stripe v) key of
        None \<Rightarrow> Some (Returned (Flag False), v)
      | Some idx \<Rightarrow> do { v \<leftarrow> unlink_node idx v; Some (Freeing idx key, v) })"

definition insert_step :: "string \<Rightarrow> string \<Rightarrow> shard \<Rightarrow> (u32 work \<times> shard) option" where
  "insert_step key val v = do {
     (idx, s) \<leftarrow> slab_allocate (sh_slab v);
     if idx = kInvalidIndex then Some (Returned (Flag False), v\<lparr>sh_slab := s\<rparr>)
     else do {
       s \<leftarrow> slab_modify idx (fill_node key val) s;
       let v = upd_stripe (\<lambda>st. st\<lparr>st_index_map := (st_index_map st)(key \<mapsto> idx)\<rparr>) (v\<lparr>sh_slab := s\<rparr>);
       v \<leftarrow> on_lru Win (lru_push_front idx) v;
       Some (Admitting, v)
     }
   }"

text \<open>One round of the loop in \<open>insert_into_window\<close>, up to the call that gives up the candidate or the victim.\<close>

definition judge_step :: "hash32 \<Rightarrow> u32 \<Rightarrow> shard \<Rightarrow> (u32 work \<times> shard) option" where
  "judge_step h32 candidate_idx v = do {
     candidate \<leftarrow> shard_node v candidate_idx;
     let main_size = lru_size_of Prob v + lru_size_of Prot v;
     if main_size < st_main_capacity (sh_stripe v)
     then map_option (Pair Admitting) (admit_candidate candidate_idx v)
     else if lru_empty (st_probation (sh_stripe v)) then Some (Rejecting candidate_idx, v)
     else do {
       let victim_idx = lru_peek_back (st_probation (sh_stripe v));
       victim \<leftarrow> shard_node v victim_idx;
       candidate_freq \<leftarrow> cms_estimate h32 (st_cms (sh_stripe v)) (n_key candidate);
       victim_freq \<leftarrow> cms_estimate h32 (st_cms (sh_stripe v)) (n_key victim);
       if candidate_freq > victim_freq
       then do { (_, v) \<leftarrow> pop_lru Prob v; Some (Evicting candidate_idx victim_idx, v) }
       else Some (Rejecting candidate_idx, v)
     }
   }"

definition admit_step :: "hash32 \<Rightarrow> shard \<Rightarrow> (u32 work \<times> shard) option" where
  "admit_step h32 v =
     (if lru_size_of Win v > st_window_capacity (sh_stripe v)
      then do {
        (candidate_idx, v) \<leftarrow> pop_lru Win v;
        if candidate_idx = kInvalidIndex then Some (Admitting, v) else judge_step h32 candidate_idx v
      }
      else Some (Returned (Flag True), v))"

definition reject_step :: "u32 \<Rightarrow> shard \<Rightarrow> (u32 work \<times> shard) option" where
  "reject_step candidate_idx v = do {
     candidate \<leftarrow> shard_node v candidate_idx;
     map_option (Pair Admitting) (reject_candidate candidate_idx candidate v)
   }"

text \<open>The end of \<open>demote_victim\<close> and what follows it in the round.\<close>

definition count_eviction :: "u32 \<Rightarrow> shard \<Rightarrow> (u32 work \<times> shard) option" where
  "count_eviction candidate_idx v =
     map_option (Pair Admitting)
       (admit_candidate candidate_idx (upd_stripe (\<lambda>st. st\<lparr>st_evictions := st_evictions st + 1\<rparr>) v))"

definition evict_step :: "hash32 \<Rightarrow> u32 \<Rightarrow> u32 \<Rightarrow> shard \<Rightarrow> (u32 work \<times> shard) option" where
  "evict_step h32 candidate_idx victim_idx v = do {
     victim \<leftarrow> shard_node v victim_idx;
     let v = index_erase (n_key victim) v;
     if st_demotion_queue (sh_stripe v)
     then do {
       freq \<leftarrow> cms_estimate h32 (st_cms (sh_stripe v)) (n_key victim);
       v \<leftarrow> shard_deallocate victim_idx v;
       Some (Pushing candidate_idx \<lparr>di_key = n_key victim, di_value = n_value victim, di_frequency = freq\<rparr>, v)
     }
     else do { v \<leftarrow> shard_deallocate victim_idx v; count_eviction candidate_idx v }
   }"

definition push_step :: "u32 \<Rightarrow> demotion_item \<Rightarrow> shard \<Rightarrow> (u32 work \<times> shard) option" where
  "push_step candidate_idx item v = do {
     (_, q) \<leftarrow> dq_try_push item (sh_queue v);
     count_eviction candidate_idx (v\<lparr>sh_queue := q\<rparr>)
   }"

definition free_step :: "u32 \<Rightarrow> string \<Rightarrow> shard \<Rightarrow> (u32 work \<times> shard) option" where
  "free_step idx key v = map_option (Pair (Returned (Flag True))) (shard_deallocate idx (index_erase key v))"

fun stripe_step :: "hash32 \<Rightarrow> u32 work \<Rightarrow> shard \<Rightarrow> (u32 work \<times> shard) option" where
  "stripe_step h32 (Start (Get key)) v = map_option (map_prod (\<lambda>r. Returned (Found r)) id) (stripe_get h32 key v)"
| "stripe_step h32 (Start (Put key val)) v = start_put h32 key val v"
| "stripe_step h32 (Start (Remove key)) v = start_remove key v"
| "stripe_step h32 (Allocating key val) v = insert_step key val v"
| "stripe_step h32 Admitting v = admit_step h32 v"
| "stripe_step h32 (Rejecting c) v = reject_step c v"
| "stripe_step h32 (Evicting c w) v = evict_step h32 c w v"
| "stripe_step h32 (Pushing c item) v = push_step c item v"
| "stripe_step h32 (Freeing idx key) v = free_step idx key v"
| "stripe_step h32 (Returned r) v = Some (Returned r, v)"

primrec stripe_steps :: "hash32 \<Rightarrow> nat \<Rightarrow> u32 work \<Rightarrow> shard \<Rightarrow> (u32 work \<times> shard) option" where
  "stripe_steps h32 0 t v = Some (t, v)"
| "stripe_steps h32 (Suc n) t v = do { (t, v) \<leftarrow> stripe_step h32 t v; stripe_steps h32 n t v }"

section \<open>Alone, the steps are the operation\<close>

text \<open>What the code still has to run from each point: the rest of the current round of the loop in
  \<open>insert_into_window\<close>, and the rest of the operation.\<close>

fun round_rest :: "hash32 \<Rightarrow> u32 work \<Rightarrow> shard \<Rightarrow> shard option" where
  "round_rest h32 (Rejecting c) v = do { candidate \<leftarrow> shard_node v c; reject_candidate c candidate v }"
| "round_rest h32 (Evicting c w) v = do { v \<leftarrow> demote_victim h32 w v; admit_candidate c v }"
| "round_rest h32 (Pushing c item) v = do {
     (_, q) \<leftarrow> dq_try_push item (sh_queue v);
     admit_candidate c (upd_stripe (\<lambda>st. st\<lparr>st_evictions := st_evictions st + 1\<rparr>) (v\<lparr>sh_queue := q\<rparr>))
   }"
| "round_rest h32 _ v = Some v"

fun remaining :: "hash32 \<Rightarrow> u32 work \<Rightarrow> shard \<Rightarrow> (cache_result \<times> shard) option" where
  "remaining h32 (Start op) v = stripe_do h32 op v"
| "remaining h32 (Allocating key val) v = map_option (map_prod Flag id) (put_new h32 key val v)"
| "remaining h32 (Freeing idx key) v = map_option (Pair (Flag True)) (shard_deallocate idx (index_erase key v))"
| "remaining h32 (Returned r) v = Some (r, v)"
| "remaining h32 t v = map_option (Pair (Flag True)) (round_rest h32 t v \<bind> admit_loop h32)"

lemma map_as_bind: "map_option f m = m \<bind> (\<lambda>x. Some (f x))"
  by (cases m) simp_all

lemma bind_eqI: "(\<And>x. m = Some x \<Longrightarrow> f x = g x) \<Longrightarrow> m \<bind> f = m \<bind> g" for m :: "'a option"
  by (cases m) simp_all

lemma bind_pairE:
  assumes "y = m \<bind> (\<lambda>(a, b). f a b)" and "y = Some x"
  obtains a b where "m = Some (a, b)" and "f a b = Some x"
  using assms by (cases m) auto

lemma bind_if: "(if b then m else n) \<bind> f = (if b then m \<bind> f else n \<bind> f)" for m :: "'a option"
  by simp

lemma map_prod_id: "map_prod f id x = (f (fst x), snd x)"
  by (cases x) simp

lemmas step_binds = map_as_bind bind_if case_prod_beta map_prod_id Let_def

lemma start_put_remaining:
  "map_option (map_prod Flag id) (stripe_put h32 key val v) =
   start_put h32 key val v \<bind> (\<lambda>(t, v). remaining h32 t v)"
proof -
  have "map_option (map_prod Flag id) (case m of Some idx \<Rightarrow> put_existing idx val w | None \<Rightarrow> put_new h32 key val w) =
      (case m of Some idx \<Rightarrow> map_option (map_prod (\<lambda>r. Returned (Flag r)) id) (put_existing idx val w)
       | None \<Rightarrow> Some (Allocating key val, w)) \<bind> (\<lambda>(t, v). remaining h32 t v)" for m w
    by (cases m) (simp_all add: step_binds)
  then show ?thesis
    unfolding stripe_put_def start_put_def by (cases "count_access h32 key v") (simp_all add: Let_def)
qed

lemma start_remove_remaining:
  "map_option (map_prod Flag id) (stripe_remove key v) =
   start_remove key v \<bind> (\<lambda>(t, v). remaining h32 t v)"
proof (cases "st_index_map (sh_stripe v) key")
  case (Some idx)
  then show ?thesis
    unfolding stripe_remove_def start_remove_def unlink_node_def
    by (cases "shard_node v idx") (simp_all add: step_binds)
qed (simp add: stripe_remove_def start_remove_def)

lemma admit_step_round:
  assumes "lru_size_of Win v > st_window_capacity (sh_stripe v)"
  shows "try_admit_from_window h32 v = admit_step h32 v \<bind> (\<lambda>(t, v). round_rest h32 t v)"
  using assms unfolding try_admit_from_window_def admit_step_def judge_step_def
  by (auto simp: step_binds intro!: bind_eqI)

text \<open>The points inside a round.\<close>

definition in_round :: "'n work \<Rightarrow> bool" where
  "in_round t \<longleftrightarrow> (case t of Admitting \<Rightarrow> True | Rejecting _ \<Rightarrow> True | Evicting _ _ \<Rightarrow> True | Pushing _ _ \<Rightarrow> True | _ \<Rightarrow> False)"

lemma in_round_remaining:
  "in_round t \<Longrightarrow> remaining h32 t v = map_option (Pair (Flag True)) (round_rest h32 t v \<bind> admit_loop h32)"
  by (cases t) (simp_all add: in_round_def)

lemma admit_step_in_round:
  assumes "lru_size_of Win v > st_window_capacity (sh_stripe v)" and "admit_step h32 v = Some (t, w)"
  shows "in_round t"
  using assms
  by (auto simp: admit_step_def judge_step_def step_binds in_round_def bind_eq_Some_conv split: if_splits)

lemma round_step:
  assumes "in_round t" and "t \<noteq> Admitting"
  shows "round_rest h32 t v = stripe_step h32 t v \<bind> (\<lambda>(t, v). round_rest h32 t v)"
    and "stripe_step h32 t v = Some (t', v') \<Longrightarrow> in_round t'"
proof -
  show "round_rest h32 t v = stripe_step h32 t v \<bind> (\<lambda>(t, v). round_rest h32 t v)"
    using assms
    by (cases t) (auto simp: in_round_def reject_step_def evict_step_def push_step_def demote_victim_def
        count_eviction_def step_binds intro!: bind_eqI)
  show "stripe_step h32 t v = Some (t', v') \<Longrightarrow> in_round t'"
    using assms
    by (cases t) (auto simp: in_round_def reject_step_def evict_step_def push_step_def count_eviction_def
        step_binds bind_eq_Some_conv split: if_splits)
qed

text \<open>A step keeps what the operation will return and leave behind.\<close>

lemma remaining_step: "remaining h32 t v = stripe_step h32 t v \<bind> (\<lambda>(t, v). remaining h32 t v)"
proof (cases "in_round t")
  case True
  show ?thesis
  proof (cases "t = Admitting")
    case A: True
    show ?thesis
    proof (cases "lru_size_of Win v > st_window_capacity (sh_stripe v)")
      case over: True
      have "remaining h32 t v = map_option (Pair (Flag True)) (try_admit_from_window h32 v \<bind> admit_loop h32)"
        using over by (simp add: A admit_loop.simps [of h32 v])
      also have "\<dots> = admit_step h32 v \<bind> (\<lambda>(t, v). remaining h32 t v)"
        using admit_step_in_round [OF over, of h32]
        by (cases "admit_step h32 v") (auto simp: admit_step_round [OF over] in_round_remaining)
      finally show ?thesis by (simp add: A)
    qed (simp add: A admit_step_def admit_loop.simps [of h32 v])
  next
    case False
    then show ?thesis
      using round_step(2) [OF True False, of h32 v]
      by (cases "stripe_step h32 t v")
        (auto simp: in_round_remaining True round_step(1) [OF True False, of h32 v])
  qed
next
  case False
  then show ?thesis
  proof (cases t)
    case (Start op)
    then show ?thesis
      using start_put_remaining start_remove_remaining
      by (cases op) (simp_all add: stripe_do_def step_binds)
  next
    case (Allocating key val)
    then show ?thesis
      by (auto simp: put_new_def insert_step_def insert_into_window_def step_binds intro!: bind_eqI)
  qed (simp_all add: in_round_def free_step_def step_binds)
qed

lemma remaining_steps:
  "stripe_steps h32 n t v = Some (t', v') \<Longrightarrow> remaining h32 t v = remaining h32 t' v'"
proof (induction n arbitrary: t v)
  case (Suc n)
  then show ?case using remaining_step [of h32 t v] by (auto simp: bind_eq_Some_conv)
qed simp

text \<open>And the steps get there.\<close>

definition settles :: "hash32 \<Rightarrow> u32 work \<Rightarrow> shard \<Rightarrow> u32 work \<Rightarrow> shard \<Rightarrow> bool" where
  "settles h32 t v t' v' \<longleftrightarrow> (\<exists>n. stripe_steps h32 n t v = Some (t', v'))"

lemma settles_refl: "settles h32 t v t v"
  unfolding settles_def by (rule exI [of _ 0]) simp

lemma settles_step: "stripe_step h32 t v = Some (t1, v1) \<Longrightarrow> settles h32 t1 v1 t' v' \<Longrightarrow> settles h32 t v t' v'"
  unfolding settles_def by (elim exE) (rule exI [of _ "Suc _"], simp)

lemma stripe_steps_add:
  "stripe_steps h32 n t v = Some (t1, v1) \<Longrightarrow> stripe_steps h32 (n + m) t v = stripe_steps h32 m t1 v1"
  by (induction n arbitrary: t v) (auto simp: bind_eq_Some_conv)

lemma settles_trans: "settles h32 t v t1 v1 \<Longrightarrow> settles h32 t1 v1 t' v' \<Longrightarrow> settles h32 t v t' v'"
  unfolding settles_def using stripe_steps_add by metis

lemma round_settles:
  assumes "in_round t" and "round_rest h32 t v = Some w"
  shows "settles h32 t v Admitting w"
proof -
  have push: "settles h32 (Pushing c item) v Admitting w" if "round_rest h32 (Pushing c item) v = Some w" for c item v
    using that by (intro settles_step [OF _ settles_refl])
      (auto simp: push_step_def count_eviction_def step_binds bind_eq_Some_conv)
  show ?thesis
  proof (cases t)
    case (Rejecting c)
    then show ?thesis
      using assms(2) by (intro settles_step [OF _ settles_refl]) (auto simp: reject_step_def bind_eq_Some_conv)
  next
    case (Evicting c x)
    then have t: "t \<noteq> Admitting" by simp
    obtain t1 v1 where s: "stripe_step h32 t v = Some (t1, v1)" "round_rest h32 t1 v1 = Some w"
      by (rule bind_pairE [OF round_step(1) [OF assms(1) t, of h32 v] assms(2)])
    have "t1 = Admitting \<or> (\<exists>c item. t1 = Pushing c item)"
      using s(1) Evicting
      by (auto simp: evict_step_def count_eviction_def step_binds bind_eq_Some_conv split: if_splits)
    then show ?thesis
      using s push settles_refl by (auto intro: settles_step [OF s(1)])
  qed (use assms push settles_refl in \<open>auto simp: in_round_def\<close>)
qed

lemma loop_settles:
  "admit_loop h32 v = Some w \<Longrightarrow> settles h32 Admitting v (Returned (Flag True)) w"
proof (induction rule: admit_loop.raw_induct [rotated 1, consumes 1, case_names step])
  case (step f h32 v w)
  show ?case
  proof (cases "lru_size_of Win v > st_window_capacity (sh_stripe v)")
    case over: True
    then obtain x where x: "try_admit_from_window h32 v = Some x" "f h32 x = Some w"
      using step(2) by (auto simp: bind_eq_Some_conv)
    obtain t u where s: "admit_step h32 v = Some (t, u)" "round_rest h32 t u = Some x"
      using x(1) by (auto simp: admit_step_round [OF over] bind_eq_Some_conv)
    have "settles h32 Admitting v Admitting x"
      using s by (intro settles_step [OF _ round_settles] admit_step_in_round [OF over, of h32]) simp_all
    then show ?thesis using step(1) [OF x(2)] by (rule settles_trans)
  next
    case False
    then show ?thesis
      using step(2) by (intro settles_step [OF _ settles_refl]) (simp add: admit_step_def)
  qed
qed

lemma remaining_settles:
  assumes "remaining h32 t v = Some (r, w)" and "\<And>op. t \<noteq> Start op" 
  shows "settles h32 t v (Returned r) w"
proof (cases "in_round t")
  case True
  then show ?thesis
    using assms(1) by (auto simp: in_round_remaining bind_eq_Some_conv intro: settles_trans [OF round_settles loop_settles])
next
  case False
  have ret: "settles h32 (Returned r) w (Returned r) w" by (rule settles_refl)
  obtain t1 v1 where s: "stripe_step h32 t v = Some (t1, v1)" "remaining h32 t1 v1 = Some (r, w)"
    by (rule bind_pairE [OF remaining_step [of h32 t v] assms(1)])
  have "in_round t1 \<or> (\<exists>r. t1 = Returned r)"
    using s(1) False assms(2)
    by (cases t) (auto simp: in_round_def insert_step_def free_step_def step_binds bind_eq_Some_conv split: if_splits)
  then have "settles h32 t1 v1 (Returned r) w"
    using s(2) ret
    by (auto simp: in_round_remaining bind_eq_Some_conv intro: settles_trans [OF round_settles loop_settles])
  with s(1) show ?thesis by (rule settles_step)
qed

text \<open>Cutting the operations at their calls into the shared slab and queue loses nothing: run without
  interference, the steps of a get, put or remove end, and return with some result and shard, exactly when
  the operation itself does; in particular they fail (a failed assertion, an index out of range) or go
  round for ever in the admission loop exactly when the operation does.\<close>

theorem stripe_steps_agree:
  "(\<exists>n. stripe_steps h32 n (Start op) v = Some (Returned r, w)) \<longleftrightarrow> stripe_do h32 op v = Some (r, w)"
proof
  assume "\<exists>n. stripe_steps h32 n (Start op) v = Some (Returned r, w)"
  then show "stripe_do h32 op v = Some (r, w)" using remaining_steps by fastforce
next
  assume "stripe_do h32 op v = Some (r, w)"
  then have d: "remaining h32 (Start op) v = Some (r, w)" by simp
  obtain t1 v1 where s: "stripe_step h32 (Start op) v = Some (t1, v1)" "remaining h32 t1 v1 = Some (r, w)"
    by (rule bind_pairE [OF remaining_step [of h32 "Start op" v] d])
  have "t1 \<noteq> Start op'" for op'
    using s(1) by (cases op) (auto simp: start_put_def start_remove_def Let_def bind_eq_Some_conv split: option.splits)
  then have "settles h32 t1 v1 (Returned r) w" using s(2) by (intro remaining_settles) auto
  with s(1) have "settles h32 (Start op) v (Returned r) w" by (rule settles_step)
  then show "\<exists>n. stripe_steps h32 n (Start op) v = Some (Returned r, w)" by (simp add: settles_def)
qed

end
