(* ===== verification/Stripe_Steps_Correct.thy ===== *)
theory Stripe_Steps_Correct
  imports Stripe_Steps
begin

text \<open>
  What one step of a stripe's operation does: it succeeds, keeps the stripe's representation with the nodes
  the operation holds outside the lists, touches no node of another stripe, and keeps what the operation
  will return and leave behind according to the policy. The free nodes and the queue belong to all stripes,
  so policy states are compared up to them.
\<close>

declare owned_iff [simp del]

section \<open>Policies up to the shared parts\<close>

definition same :: "policy \<Rightarrow> policy \<Rightarrow> bool" where
  "same p q \<longleftrightarrow> p_tiers p = p_tiers q \<and> p_stripe p = p_stripe q"

definition agree :: "cache_result \<times> policy \<Rightarrow> cache_result \<times> policy \<Rightarrow> bool" where
  "agree x y \<longleftrightarrow> fst x = fst y \<and> same (snd x) (snd y)"

definition p_loop :: "hash32 \<Rightarrow> policy \<Rightarrow> policy" where
  "p_loop h32 p = (p_admit h32 ^^ p_overflow p) p"

lemma same_refl [simp]: "same p p" and same_sym: "same p q \<Longrightarrow> same q p"
  and same_trans: "same p q \<Longrightarrow> same q r \<Longrightarrow> same p r"
  by (simp_all add: same_def)

lemma agree_trans: "agree x y \<Longrightarrow> agree y z \<Longrightarrow> agree x z"
  by (auto simp: agree_def intro: same_trans)

lemma agree_Pair [simp]: "agree (r, p) (s, q) \<longleftrightarrow> r = s \<and> same p q"
  by (simp add: agree_def)

lemma same_account: "same p q \<Longrightarrow> same (p_account h32 out p) (p_account h32 out q)"
  by (auto simp: same_def p_account_def p_admitted_def p_rejected_def p_demote_def p_push_def Let_def split: outcome.split)

lemma same_admit: "same p q \<Longrightarrow> same (p_admit h32 p) (p_admit h32 q)"
proof -
  assume s: "same p q"
  then have f: "p_freq h32 p = p_freq h32 q" by (simp add: same_def p_freq_def fun_eq_iff)
  let ?r = "t_admit (unat (st_main_capacity (p_stripe q))) (p_freq h32 q \<circ> fst) (p_tiers q)"
  have "same (p\<lparr>p_tiers := fst ?r\<rparr>) (q\<lparr>p_tiers := fst ?r\<rparr>)" using s by (simp add: same_def)
  then have "same (p_account h32 (snd ?r) (p\<lparr>p_tiers := fst ?r\<rparr>)) (p_account h32 (snd ?r) (q\<lparr>p_tiers := fst ?r\<rparr>))"
    by (rule same_account)
  moreover have "p_admit h32 p = p_account h32 (snd ?r) (p\<lparr>p_tiers := fst ?r\<rparr>)"
    using s f by (simp add: p_admit_def same_def case_prod_beta)
  ultimately show ?thesis by (simp add: p_admit_def case_prod_beta)
qed

lemma same_loop: "same p q \<Longrightarrow> same (p_loop h32 p) (p_loop h32 q)"
proof -
  assume s: "same p q"
  have "same ((p_admit h32 ^^ n) p) ((p_admit h32 ^^ n) q)" for n
    by (induction n) (simp_all add: s same_admit)
  moreover have "p_overflow p = p_overflow q" using s by (simp add: same_def p_overflow_def)
  ultimately show ?thesis by (simp add: p_loop_def)
qed

lemma p_loop_round:
  assumes "0 < p_overflow p" shows "p_loop h32 p = p_loop h32 (p_admit h32 p)"
proof -
  have "p_overflow p = Suc (p_overflow (p_admit h32 p))"
    using assms by (simp add: p_overflow_def p_admit_window)
  then show ?thesis by (simp add: p_loop_def funpow_swap1)
qed

lemma p_loop_idle: "p_overflow p = 0 \<Longrightarrow> p_loop h32 p = p"
  by (simp add: p_loop_def)

lemma same_tick: "same p q \<Longrightarrow> same (p_tick p) (p_tick q)"
  by (simp add: same_def p_tick_def Let_def)

lemma same_count: "same p q \<Longrightarrow> same (p_count h32 key p) (p_count h32 key q)"
  by (simp add: same_def p_count_def)

lemma same_touch: "same p q \<Longrightarrow> same (p_touch key p) (p_touch key q)"
  by (simp add: same_def p_touch_def)

lemma same_insert: "same p q \<Longrightarrow> same (p_insert e p) (p_insert e q)"
  by (simp add: same_def p_insert_def)

lemma same_lookup: "same p q \<Longrightarrow> p_lookup p = p_lookup q"
  by (simp add: same_def p_lookup_def)

lemma same_fields [simp]:
  "same (p\<lparr>p_free := n\<rparr>) q = same p q" "same p (q\<lparr>p_free := n\<rparr>) = same p q"
  by (simp_all add: same_def)

lemma agree_get:
  assumes "same p q"
  shows "agree (map_prod f id (p_get h32 key p)) (map_prod f id (p_get h32 key q))"
proof (cases "p_lookup q key")
  case None
  then show ?thesis using assms same_lookup [OF assms] by (simp add: p_get_def same_def)
next
  case (Some val)
  then show ?thesis
    using same_touch [OF same_count [OF assms]] same_lookup [OF assms] by (simp add: p_get_def Let_def same_def)
qed

lemma agree_remove: "same p q \<Longrightarrow> agree (map_prod f id (p_remove key p)) (map_prod f id (p_remove key q))"
  using same_lookup [of p q] by (auto simp: p_remove_def same_def)

lemma agree_put:
  assumes "same p q" and "p_free p \<noteq> 0" and "p_free q \<noteq> 0"
  shows "agree (map_prod f id (p_put h32 key val p)) (map_prod f id (p_put h32 key val q))"
proof -
  let ?p = "p_tick (p_count h32 key p)" and ?q = "p_tick (p_count h32 key q)"
  have s: "same ?p ?q" using assms(1) by (intro same_tick same_count)
  then have u: "same (?p\<lparr>p_tiers := T\<rparr>) (?q\<lparr>p_tiers := T\<rparr>)" and t: "p_tiers ?p = p_tiers ?q" for T
    by (simp_all add: same_def)
  show ?thesis
    using same_lookup [OF s] same_touch [OF u] t assms(2,3) same_loop [OF same_insert [OF s]]
    by (auto simp: p_put_def Let_def simp flip: p_loop_def)
qed

lemma agree_do:
  "same p q \<Longrightarrow> p_free p \<noteq> 0 \<Longrightarrow> p_free q \<noteq> 0 \<Longrightarrow> agree (policy_do h32 op p) (policy_do h32 op q)"
  by (cases op) (simp_all add: policy_do_def agree_get agree_put agree_remove)

section \<open>What the policy says an operation will do from where it stands\<close>

definition p_front :: "entry \<Rightarrow> policy \<Rightarrow> policy" where
  "p_front c p = p\<lparr>p_tiers := (p_tiers p)(Prob := c # p_tiers p Prob)\<rparr>"

definition p_evicted :: "policy \<Rightarrow> policy" where
  "p_evicted p = p\<lparr>p_stripe := (p_stripe p)\<lparr>st_evictions := st_evictions (p_stripe p) + 1\<rparr>\<rparr>"

fun p_rest :: "hash32 \<Rightarrow> entry work \<Rightarrow> policy \<Rightarrow> cache_result \<times> policy" where
  "p_rest h32 (Start op) p = policy_do h32 op (p\<lparr>p_free := 1\<rparr>)"
| "p_rest h32 (Allocating key val) p = (Flag True, p_loop h32 (p_insert (key, val) p))"
| "p_rest h32 Admitting p = (Flag True, p_loop h32 p)"
| "p_rest h32 (Rejecting c) p = (Flag True, p_loop h32 (p_rejected p))"
| "p_rest h32 (Evicting c w) p = (Flag True, p_loop h32 (p_admitted (p_evicted (p_front c p))))"
| "p_rest h32 (Pushing c item) p = (Flag True, p_loop h32 (p_admitted (p_evicted (p_front c p))))"
| "p_rest h32 (Freeing e key) p = (Flag True, p)"
| "p_rest h32 (Returned r) p = (r, p)"

lemma same_bookkeeping:
  "same p q \<Longrightarrow> same (p_rejected p) (p_rejected q)"
  "same p q \<Longrightarrow> same (p_admitted (p_evicted (p_front c p))) (p_admitted (p_evicted (p_front c q)))"
  "same p q \<Longrightarrow> same (p_admitted (p_front c p)) (p_admitted (p_front c q))"
  by (simp_all add: same_def p_rejected_def p_admitted_def p_evicted_def p_front_def)

lemma agree_rest: "same p q \<Longrightarrow> agree (p_rest h32 t p) (p_rest h32 t q)"
  by (cases t) (simp_all add: agree_do same_loop same_insert same_bookkeeping)

section \<open>A step in the middle of an operation\<close>

text \<open>The nodes an operation holds outside the lists, and how far the lists may exceed their limits.\<close>

fun loose :: "'n work \<Rightarrow> 'n list" where
  "loose (Rejecting c) = [c]"
| "loose (Evicting c w) = [w, c]"
| "loose (Pushing c item) = [c]"
| "loose (Freeing i key) = [i]"
| "loose _ = []"

definition limits :: "policy \<Rightarrow> u32 \<times> u32" where
  "limits p = (st_window_capacity (p_stripe p), st_main_capacity (p_stripe p))"

definition fits :: "u32 work \<Rightarrow> policy \<Rightarrow> bool" where
  "fits t p \<longleftrightarrow>
     length (p_tiers p Win) \<le> unat (st_window_capacity (p_stripe p)) + (case t of Admitting \<Rightarrow> 1 | _ \<Rightarrow> 0) \<and>
     length (p_tiers p Prob) + length (p_tiers p Prot) + (case t of Evicting _ _ \<Rightarrow> 1 | Pushing _ _ \<Rightarrow> 1 | _ \<Rightarrow> 0)
       \<le> unat (st_main_capacity (p_stripe p))"

text \<open>How many steps of its own an operation still has to make, at most: a put overfills the window by one
  entry, so the admission loop goes round once.\<close>

fun steps_left :: "u32 work \<Rightarrow> policy \<Rightarrow> nat" where
  "steps_left (Start op) p = 6"
| "steps_left (Allocating key val) p = 5"
| "steps_left Admitting p = 1 + 3 * p_overflow p"
| "steps_left (Evicting c w) p = 3"
| "steps_left (Pushing c item) p = 2"
| "steps_left (Rejecting c) p = 2"
| "steps_left (Freeing i key) p = 1"
| "steps_left (Returned r) p = 0"

definition work_ok :: "shard \<Rightarrow> u32 list \<Rightarrow> u32 tiers \<Rightarrow> u32 work \<Rightarrow> bool" where
  "work_ok v fs G t \<longleftrightarrow> shard_rep v fs G (loose t) \<and> cms_ok (st_cms (sh_stripe v)) \<and> dq_inv (sh_queue v) \<and>
     fits t (policy_of v fs G) \<and>
     (case t of Allocating key _ \<Rightarrow> st_index_map (sh_stripe v) key = None | Freeing i key \<Rightarrow> nkey v i = key | _ \<Rightarrow> True)"

definition outlook :: "hash32 \<Rightarrow> shard \<Rightarrow> u32 list \<Rightarrow> u32 tiers \<Rightarrow> u32 work \<Rightarrow> cache_result \<times> policy" where
  "outlook h32 v fs G t = p_rest h32 (map_work (entry_of v) t) (policy_of v fs G)"

text \<open>A new key that finds the slab empty: the put gives up, which the policy without a limit does not say.\<close>

definition refused :: "u32 list \<Rightarrow> u32 work \<Rightarrow> bool" where
  "refused fs t \<longleftrightarrow> fs = [] \<and> (case t of Allocating _ _ \<Rightarrow> True | _ \<Rightarrow> False)"

definition stepped :: "hash32 \<Rightarrow> shard \<Rightarrow> u32 list \<Rightarrow> u32 tiers \<Rightarrow> u32 work \<Rightarrow> u32 work \<times> shard \<Rightarrow> bool" where
  "stepped h32 v fs G t = (\<lambda>(t', v'). \<exists>fs' G'. work_ok v' fs' G' t' \<and> foot fs' G' (loose t') = foot fs G (loose t) \<and>
     changes v v' (foot fs G (loose t)) UNIV \<and> limits (policy_of v' fs' G') = limits (policy_of v fs G) \<and>
     (steps_left t (policy_of v fs G) = 0 \<or> steps_left t' (policy_of v' fs' G') < steps_left t (policy_of v fs G)) \<and>
     (\<not> refused fs t \<longrightarrow> agree (outlook h32 v' fs' G' t') (outlook h32 v fs G t)))"

lemma steppedI:
  assumes "work_ok v' fs' G' t'" and "foot fs' G' (loose t') = foot fs G (loose t)" and "changes v v' (foot fs G (loose t)) UNIV"
    and "limits (policy_of v' fs' G') = limits (policy_of v fs G)"
    and "steps_left t (policy_of v fs G) = 0 \<or> steps_left t' (policy_of v' fs' G') < steps_left t (policy_of v fs G)"
    and "\<not> refused fs t \<Longrightarrow> agree (outlook h32 v' fs' G' t') (outlook h32 v fs G t)"
  shows "stepped h32 v fs G t (t', v')"
  using assms unfolding stepped_def by blast

lemma stepped_implements:
  assumes "implements v' (foot fs G (loose t)) p'" and "changes v v' (foot fs G (loose t)) UNIV"
    and "loose t' = []" and "fits t' p'" and "limits p' = limits (policy_of v fs G)"
    and "\<And>key val. t' \<noteq> Allocating key val" and "steps_left t' p' < steps_left t (policy_of v fs G)"
    and "\<not> refused fs t \<Longrightarrow> agree (p_rest h32 (map_work (entry_of v') t') p') (outlook h32 v fs G t)"
  shows "stepped h32 v fs G t (t', v')"
proof -
  obtain fs' G' where "shard_ok v' fs' G'" "foot fs' G' [] = foot fs G (loose t)" "p' = policy_of v' fs' G'"
    using assms(1) by (auto simp: implements_def)
  moreover from this have "work_ok v' fs' G' t'"
    using assms(3,4,6) by (auto simp: work_ok_def shard_ok_def split: work.split)
  ultimately show ?thesis
    using assms by (intro steppedI [where fs' = fs' and G' = G']) (simp_all add: outlook_def)
qed

subsection \<open>The first step\<close>

lemma limits_caps: "caps p = caps q \<Longrightarrow> limits p = limits q"
  by (simp add: caps_def limits_def)

lemma touch_fits: "fits (Returned r) p \<Longrightarrow> fits (Returned r') (p_touch key p)"
  by (simp add: fits_def p_touch_def t_touch_Win t_touch_main)

lemma get_fits:
  assumes "fits (Start op) p"
  shows "fits (Returned r) (snd (p_get h32 key p))" and "limits (snd (p_get h32 key p)) = limits p"
  using assms
  by (auto simp: p_get_def fits_def limits_def p_touch_def p_count_def t_touch_Win t_touch_main Let_def split: option.split)

lemma get_step_ok:
  assumes v: "work_ok v fs G (Start (Get key))"
  shows "oks (stripe_step h32 (Start (Get key)) v) (stepped h32 v fs G (Start (Get key)))"
proof -
  let ?p = "policy_of v fs G"
  have imp: "implements v (foot fs G []) ?p" using v by (intro implementsI) (simp add: work_ok_def shard_ok_def)
  have f: "fits (Start (Get key)) ?p" using v by (simp add: work_ok_def)
  have a: "agree (map_prod Found id (p_get h32 key ?p)) (map_prod Found id (p_get h32 key (?p\<lparr>p_free := 1\<rparr>)))"
    by (rule agree_get) simp
  show ?thesis
    unfolding stripe_step.simps oks_map_option
    by (rule oks_mono [OF stripe_get_implements [OF imp, of h32 key]])
      (use a in \<open>auto intro!: stepped_implements get_fits [OF f] simp: outlook_def policy_do_def map_prod_id\<close>)
qed

lemma put_existing_limits:
  "limits (p_tick p) = limits p" "limits (p_count h32 key p) = limits p" "limits (p_touch key p) = limits p"
  "limits (p\<lparr>p_tiers := T\<rparr>) = limits p" "limits (p_insert e p) = limits p"
  by (simp_all add: limits_def p_tick_def p_count_def p_touch_def p_insert_def Let_def)

lemma fits_cong: "p_tiers p = p_tiers q \<Longrightarrow> limits p = limits q \<Longrightarrow> fits t p = fits t q"
  by (simp add: fits_def limits_def)

lemma start_put_ok:
  assumes v: "work_ok v fs G (Start (Put key val))"
  shows "oks (start_put h32 key val v) (stepped h32 v fs G (Start (Put key val)))"
proof -
  let ?t = "Start (Put key val)" and ?p = "p_tick (p_count h32 key (policy_of v fs G))"
  let ?q = "p_tick (p_count h32 key ((policy_of v fs G)\<lparr>p_free := 1\<rparr>))"
  have ok: "shard_ok v fs G" and f: "fits ?t (policy_of v fs G)" using v by (simp_all add: work_ok_def shard_ok_def)
  have pq: "same ?p ?q" by (intro same_tick same_count) simp
  have pt: "p_tiers ?p = p_tiers (policy_of v fs G)" by (simp del: policy_of_fields)
  have lim: "limits ?p = limits (policy_of v fs G)" by (simp add: put_existing_limits)
  have body: "oks (case st_index_map (sh_stripe w) key of
        Some idx \<Rightarrow> map_option (map_prod (\<lambda>r. Returned (Flag r)) id) (put_existing idx val w)
      | None \<Rightarrow> Some (Allocating key val, w)) (stepped h32 v fs G ?t)"
    if w: "shard_ok w fs G" "policy_of w fs G = ?p" "sh_slab w = sh_slab v" for w
  proof -
    have rep: "shard_rep w fs G []" using w(1) by (simp add: shard_ok_def)
    note lookup = lookup_index [OF rep, of key, unfolded w(2)]
    have T: "t_map (entry_of w) G = p_tiers ?p" by (simp flip: w(2))
    have ch: "changes v w F UNIV" for F by (simp add: changes_def w(3))
    show ?thesis
    proof (cases "st_index_map (sh_stripe w) key")
      case None
      have "fits (Allocating key val) ?p" using f pt lim unfolding fits_def limits_def by simp
      then have "work_ok w fs G (Allocating key val)"
        using w None by (simp add: work_ok_def shard_ok_def)
      moreover have "agree (outlook h32 w fs G (Allocating key val)) (outlook h32 v fs G ?t)"
        using lookup None same_lookup [OF pq] same_loop [OF same_insert [OF pq]]
        by (simp add: outlook_def policy_do_def p_put_def Let_def w(2) flip: p_loop_def)
      ultimately show ?thesis
        using None lim ch by (auto intro!: steppedI simp: w(2))
    next
      case (Some i)
      let ?q' = "p_touch key (?p\<lparr>p_tiers := t_map (set_value key val) (p_tiers ?p)\<rparr>)"
      have "fits (Returned r) (?p\<lparr>p_tiers := t_map (set_value key val) (p_tiers ?p)\<rparr>)" for r
        using f lim pt unfolding fits_def limits_def by simp
      then have "fits (Returned r) ?q'" for r by (rule touch_fits)
      moreover have "agree (Flag False, ?q') (outlook h32 v fs G ?t)"
        using lookup Some same_lookup [OF pq] pq
        by (auto simp: outlook_def policy_do_def p_put_def Let_def intro!: same_touch) (simp add: same_def)
      moreover have "limits ?q' = limits (policy_of v fs G)" by (simp add: put_existing_limits)
      ultimately show ?thesis
        unfolding Some option.case oks_map_option
        by (intro oks_mono [OF update_implements [OF w(1) Some, of val]])
          (auto simp: T w(2) changes_slab [OF w(3)] intro!: stepped_implements)
    qed
  qed
  show ?thesis
    unfolding start_put_def Let_def
    by (rule oks_bindI [OF count_implements [OF ok]], rule body) (use tick_implements in auto)
qed

lemma start_remove_ok:
  assumes v: "work_ok v fs G (Start (Remove key))"
  shows "oks (start_remove key v) (stepped h32 v fs G (Start (Remove key)))"
proof -
  let ?t = "Start (Remove key)" and ?p = "policy_of v fs G"
  have rep: "shard_rep v fs G []" and f: "fits ?t ?p" using v by (simp_all add: work_ok_def)
  note lookup = lookup_index [OF rep, of key]
  show ?thesis
  proof (cases "st_index_map (sh_stripe v) key")
    case None
    have "work_ok v fs G (Returned (Flag False))" using v by (simp add: work_ok_def fits_def)
    then show ?thesis
      using lookup None by (auto simp: start_remove_def outlook_def policy_do_def p_remove_def p_lookup_def intro!: steppedI)
  next
    case (Some i)
    have io: "i \<in> owned G" and key: "nkey v i = key" using shard_rep_index [OF rep] Some by auto
    let ?G = "t_drop (\<lambda>j. j = i) G"
    have G: "?G = t_drop ((\<lambda>e. fst e = key) \<circ> entry_of v) G"
      by (rule t_drop_cong) (use index_pred [OF rep Some] in simp)
    have "stepped h32 v fs G ?t (Freeing i key, w)" if w: "moves v fs G [] w fs ?G [i] {}" for w
    proof (rule steppedI [where fs' = fs and G' = ?G])
      have e: "t_map (entry_of w) ?G = t_drop (\<lambda>e. fst e = key) (t_map (entry_of v) G)"
        using moves_data [OF w] by (simp only: t_drop_map entry_of_def [abs_def] G)
      have p: "policy_of w fs ?G = ?p\<lparr>p_tiers := t_drop (\<lambda>e. fst e = key) (p_tiers ?p)\<rparr>"
        unfolding moves_policy [OF w] e by (simp add: policy_of_def)
      have le: "length (t_drop P L g) \<le> length (L g)" for P and L :: "entry tiers" and g by (simp add: t_drop_def)
      have "fits (Freeing i key) (policy_of w fs ?G)"
        using f le [of "\<lambda>e. fst e = key" "p_tiers ?p" Win] le [of "\<lambda>e. fst e = key" "p_tiers ?p" Prob]
          le [of "\<lambda>e. fst e = key" "p_tiers ?p" Prot]
        unfolding p fits_def by simp
      then show "work_ok w fs ?G (Freeing i key)"
        using v w moves_data [OF w] moves_stripe [OF w] key by (simp add: work_ok_def moves_def)
      show "limits (policy_of w fs ?G) = limits ?p" by (simp add: p limits_def)
      show "agree (outlook h32 w fs ?G (Freeing i key)) (outlook h32 v fs G ?t)"
        using lookup Some by (simp add: outlook_def p policy_do_def p_remove_def p_lookup_def same_def)
    qed (use w in \<open>auto simp: moves_def changes_sub\<close>)
    then show ?thesis
      unfolding start_remove_def Some option.case unlink_node_def
      by (intro oks_bindI [OF unlink_ix [OF rep io]]) simp
  qed
qed

subsection \<open>The steps of an insertion\<close>

lemma same_fits: "same p q \<Longrightarrow> fits t p = fits t q" and same_limits: "same p q \<Longrightarrow> limits p = limits q"
  by (simp_all add: same_def fits_def limits_def)

lemma same_left: "same p q \<Longrightarrow> steps_left t p = steps_left t q"
  by (cases t) (simp_all add: same_def p_overflow_def)

text \<open>A step described by its effect on the lists, with the policy state \<open>q\<close> it leads to.\<close>

lemma stepped_steps:
  assumes "steps v fs G (loose t) v' fs' G' (loose t') D"
    and "cms_ok (st_cms (sh_stripe v'))" and "dq_inv (sh_queue v')"
    and "same (policy_of v' fs' G') q" and "fits t' q" and "limits q = limits (policy_of v fs G)"
    and "\<And>key val. t' \<noteq> Allocating key val" and "\<And>i key. t' \<noteq> Freeing i key"
    and "steps_left t' q < steps_left t (policy_of v fs G)"
    and "agree (p_rest h32 (map_work (entry_of v') t') q) (outlook h32 v fs G t)"
  shows "stepped h32 v fs G t (t', v')"
proof (rule steppedI [where fs' = fs' and G' = G'])
  show "work_ok v' fs' G' t'"
    using assms(1-3,5,7,8) same_fits [OF assms(4), of t'] by (auto simp: work_ok_def steps_def split: work.split)
  show "limits (policy_of v' fs' G') = limits (policy_of v fs G)"
    using assms(6) same_limits [OF assms(4)] by simp
  show "steps_left t (policy_of v fs G) = 0 \<or> steps_left t' (policy_of v' fs' G') < steps_left t (policy_of v fs G)"
    using assms(9) same_left [OF assms(4)] by simp
  show "agree (outlook h32 v' fs' G' t') (outlook h32 v fs G t)"
    using agree_trans [OF agree_rest [OF assms(4)] assms(10)] by (simp add: outlook_def)
qed (use assms(1) steps_outside [OF assms(1)] in \<open>simp_all add: steps_def\<close>)

lemma insert_step_ok:
  assumes v: "work_ok v fs G (Allocating key val)"
  shows "oks (insert_step key val v) (stepped h32 v fs G (Allocating key val))"
    and "fs \<noteq> [] \<Longrightarrow> oks (insert_step key val v) (\<lambda>(t, _). t = Admitting)"
proof -
  let ?t = "Allocating key val" and ?p = "policy_of v fs G"
  have ok: "shard_ok v fs G" and key: "st_index_map (sh_stripe v) key = None" and f: "fits ?t ?p"
    using v by (simp_all add: work_ok_def shard_ok_def)
  have main: "oks (insert_step key val v) (\<lambda>(t, v'). stepped h32 v fs G ?t (t, v') \<and> (fs \<noteq> [] \<longrightarrow> t = Admitting))"
  proof (cases fs)
    case Nil
    then have "slab_allocate (sh_slab v) = Some (kInvalidIndex, sh_slab v)"
      using ok slab_allocate_empty by (auto simp: shard_ok_def shard_rep_def)
    moreover have "work_ok v fs G (Returned (Flag False))" using v by (simp add: work_ok_def fits_def)
    ultimately show ?thesis by (auto simp: insert_step_def Nil refused_def intro!: steppedI)
  next
    case (Cons i fs')
    have l: "p_overflow (p_insert (key, val) ?p) \<le> 1" using f by (simp add: fits_def p_overflow_def p_insert_def le_diff_conv)
    have "fits Admitting (p_insert (key, val) ?p)" using f by (simp add: fits_def p_insert_def)
    then have "stepped h32 v fs G ?t (Admitting, v')"
      if "implements v' (foot fs G []) (p_insert (key, val) ?p)" "changes v v' (foot fs G []) UNIV" for v'
      using that l by (intro stepped_implements [where p' = "p_insert (key, val) ?p"])
        (simp_all add: put_existing_limits outlook_def)
    then have "oks (slab_allocate (sh_slab v)) (\<lambda>(j, s). j = i \<and> i \<noteq> kInvalidIndex \<and>
      oks (slab_modify i (fill_node key val) s) (\<lambda>s'.
        oks (on_lru Win (lru_push_front i) (set_index ((st_index_map (sh_stripe v))(key \<mapsto> i)) (v\<lparr>sh_slab := s'\<rparr>)))
          (\<lambda>v'. stepped h32 v fs G ?t (Admitting, v'))))"
      by (intro oks_mono [OF insert_implements [OF ok [unfolded Cons] key, of val]])
        (auto simp: Cons elim!: oks_mono)
    then show ?thesis
      unfolding insert_step_def by (rule oks_bindI, clarify) (simp add: Let_def)
  qed
  show "oks (insert_step key val v) (stepped h32 v fs G ?t)" by (rule oks_mono [OF main]) auto
  show "fs \<noteq> [] \<Longrightarrow> oks (insert_step key val v) (\<lambda>(t, _). t = Admitting)" by (rule oks_mono [OF main]) auto
qed

lemma reject_step_ok:
  assumes v: "work_ok v fs G (Rejecting c)"
  shows "oks (reject_step c v) (stepped h32 v fs G (Rejecting c))"
proof -
  let ?p = "policy_of v fs G"
  have rep: "shard_rep v fs G [c]" and ok: "cms_ok (st_cms (sh_stripe v))" "dq_inv (sh_queue v)" and f: "fits (Rejecting c) ?p"
    using v by (simp_all add: work_ok_def)
  have node: "shard_node v c = Some (node_at (sh_slab v) c)" by (rule shard_rep_node [OF rep]) (simp add: foot_def)
  have out: "c \<notin> owned G" using rep by (auto simp: shard_rep_def owned_def)
  have "stepped h32 v fs G (Rejecting c) (Admitting, v')"
    if s: "steps v fs G [c] v' (c # fs) G [] {c}" and a: "aux v' = (aux v)\<lparr>st_rejections := st_rejections (aux v) + 1\<rparr>"
      and q: "sh_queue v' = sh_queue v" for v'
  proof (rule stepped_steps [where q = "p_rejected ?p"])
    show "same (policy_of v' (c # fs) G) (p_rejected ?p)"
      using steps_entries [OF s] out by (simp add: same_def p_rejected_def a)
    show "fits Admitting (p_rejected ?p)" using f by (simp add: fits_def p_rejected_def)
    show "cms_ok (st_cms (sh_stripe v'))" using a ok by (simp add: aux_sym)
  qed (use s q ok f in \<open>simp_all add: limits_def p_rejected_def outlook_def fits_def p_overflow_def\<close>)
  then show ?thesis
    unfolding reject_step_def by (simp add: node) (rule oks_mono [OF reject_ix [OF rep]], auto)
qed

lemma free_step_ok:
  assumes v: "work_ok v fs G (Freeing i key)"
  shows "oks (free_step i key v) (stepped h32 v fs G (Freeing i key))"
proof -
  have rep: "shard_rep v fs G [i]" and ok: "cms_ok (st_cms (sh_stripe v))" "dq_inv (sh_queue v)"
      and f: "fits (Freeing i key) (policy_of v fs G)" and key: "nkey v i = key"
    using v by (simp_all add: work_ok_def)
  have drop: "shard_deallocate i (index_erase key v) =
      map_option (\<lambda>s. index_erase (nkey v i) (v\<lparr>sh_slab := s\<rparr>)) (slab_deallocate i (sh_slab v))"
    using key by (cases "slab_deallocate i (sh_slab v)") (simp_all add: shard_deallocate_def index_erase_def)
  have out: "i \<notin> owned G" using rep by (auto simp: shard_rep_def owned_def)
  have "stepped h32 v fs G (Freeing i key) (Returned (Flag True), v')" if m: "moves v fs G [i] v' (i # fs) G [] {i}" for v'
  proof (rule stepped_steps [where q = "policy_of v fs G"])
    show "steps v fs G (loose (Freeing i key)) v' (i # fs) G (loose (Returned (Flag True))) {i}"
      using m by (simp add: moves_steps)
    then show "same (policy_of v' (i # fs) G) (policy_of v fs G)"
      using steps_entries [of v fs G "[i]" v' "i # fs" G "[]" "{i}"] out m by (simp add: same_def moves_def)
    show "fits (Returned (Flag True)) (policy_of v fs G)" using f by (simp add: fits_def)
  qed (use m moves_stripe [OF m] ok in \<open>simp_all add: outlook_def\<close>)
  then show ?thesis
    unfolding free_step_def drop by (auto intro!: oks_mono [OF st_drop [OF rep]])
qed

text \<open>The admission round on the policy's side, by its outcome; \<open>q\<close> is the state with the candidate taken
  out of the window.\<close>

lemma p_admit_outcome:
  assumes "p_tiers p Win = ws @ [c]"
  defines "q \<equiv> p\<lparr>p_tiers := (p_tiers p)(Win := ws)\<rparr>"
  defines "room \<equiv> length (p_tiers p Prob) + length (p_tiers p Prot) < unat (st_main_capacity (p_stripe p))"
  shows "room \<Longrightarrow> p_admit h32 p = p_admitted (p_front c q)"
    and "\<not> room \<Longrightarrow> p_tiers p Prob = [] \<Longrightarrow> p_admit h32 p = p_rejected q"
    and "\<not> room \<Longrightarrow> p_tiers p Prob = ps @ [e] \<Longrightarrow> p_freq h32 p (fst c) \<le> p_freq h32 p (fst e) \<Longrightarrow> p_admit h32 p = p_rejected q"
    and "\<not> room \<Longrightarrow> p_tiers p Prob = ps @ [e] \<Longrightarrow> \<not> p_freq h32 p (fst c) \<le> p_freq h32 p (fst e) \<Longrightarrow>
      same (p_admit h32 p) (p_admitted (p_evicted (p_front c (q\<lparr>p_tiers := (p_tiers q)(Prob := ps)\<rparr>))))"
  using assms(1)
  by (auto simp: room_def q_def p_admit_def t_admit_def t_judge_def Let_def p_account_def p_front_def
      p_admitted_def p_rejected_def p_evicted_def p_demote_def p_push_def same_def fun_upd_twist)

text \<open>What follows an eviction: the candidate goes to the front of probation.\<close>

lemma count_eviction_ok:
  assumes rep: "shard_rep w fs' G [c]" and ok: "cms_ok (st_cms (sh_stripe w))" "dq_inv (sh_queue w)"
    and s: "steps v fs G (loose t) w fs' G [c] D" and D: "D \<inter> (owned G \<union> {c}) = {}"
    and a: "aux w = aux v" and t: "outlook h32 v fs G t =
      (Flag True, p_loop h32 (p_admitted (p_evicted (p_front (entry_of v c) (policy_of v fs G)))))"
    and f: "fits (Pushing c item) (policy_of v fs G)" and l: "1 < steps_left t (policy_of v fs G)"
  shows "oks (count_eviction c w) (stepped h32 v fs G t)"
proof -
  let ?p = "policy_of v fs G" and ?H = "G(Prob := c # G Prob)"
  let ?w = "upd_stripe (\<lambda>st. st\<lparr>st_evictions := st_evictions st + 1\<rparr>) w"
  let ?q = "p_admitted (p_evicted (p_front (entry_of v c) ?p))"
  have rep': "shard_rep ?w fs' G [c]" using rep by (subst shard_rep_cong) simp_all
  have e: "st_evictions (sh_stripe w) = st_evictions (aux v)" by (simp add: aux_sym a)
  have "stepped h32 v fs G t (Admitting, v')"
    if s': "steps ?w fs' G [c] v' fs' ?H [] {}" and a': "aux v' = (aux ?w)\<lparr>st_admissions := st_admissions (aux ?w) + 1\<rparr>"
      and q: "sh_queue v' = sh_queue ?w" for v'
  proof (rule stepped_steps [where q = ?q])
    have "steps v fs G (loose t) ?w fs' G [c] D" using s by simp
    then show st: "steps v fs G (loose t) v' fs' ?H (loose Admitting) D"
      using steps_trans [OF _ s', of v fs G "loose t" D D] by simp
    have "owned ?H \<subseteq> owned G \<union> {c}" by (auto simp: owned_def split: if_splits)
    then have "t_map (entry_of v') ?H = t_map (entry_of v) ?H"
      using D by (intro steps_entries [OF st]) blast
    then show "same (policy_of v' fs' ?H) ?q"
      using a a' e by (simp add: same_def p_admitted_def p_evicted_def p_front_def)
    show "cms_ok (st_cms (sh_stripe v'))" using a a' ok by (simp add: aux_sym)
    show "fits Admitting ?q" using f by (simp add: fits_def p_admitted_def p_evicted_def p_front_def)
  qed (use q ok t f l in \<open>simp_all add: limits_def p_admitted_def p_evicted_def p_front_def fits_def p_overflow_def\<close>)
  then show ?thesis
    unfolding count_eviction_def by (auto intro!: oks_mono [OF admit_ix [OF rep']])
qed

lemma push_step_ok:
  assumes v: "work_ok v fs G (Pushing c item)"
  shows "oks (push_step c item v) (stepped h32 v fs G (Pushing c item))"
proof -
  have rep: "shard_rep v fs G [c]" and ok: "cms_ok (st_cms (sh_stripe v))" "dq_inv (sh_queue v)"
      and f: "fits (Pushing c item) (policy_of v fs G)"
    using v by (simp_all add: work_ok_def)
  have "shard_rep (v\<lparr>sh_queue := q\<rparr>) fs G [c]" for q using rep by (subst shard_rep_cong) simp_all
  then have "oks (count_eviction c (v\<lparr>sh_queue := pushed item (sh_queue v)\<rparr>)) (stepped h32 v fs G (Pushing c item))"
    using pushed_ok(2) [OF ok(2), of item] ok(1) steps_refl [OF rep]
    by (intro count_eviction_ok [where D = "{}", OF _ _ _ _ _ _ _ f]) (simp_all add: outlook_def)
  then show ?thesis using pushed_ok(1) [OF ok(2), of item] by (simp add: push_step_def)
qed

lemma evict_step_ok:
  assumes v: "work_ok v fs G (Evicting c i)"
  shows "oks (evict_step h32 c i v) (stepped h32 v fs G (Evicting c i))"
proof -
  let ?t = "Evicting c i" and ?p = "policy_of v fs G"
  have rep: "shard_rep v fs G [i, c]" and ok: "cms_ok (st_cms (sh_stripe v))" "dq_inv (sh_queue v)" and f: "fits ?t ?p"
    using v by (simp_all add: work_ok_def)
  have node: "shard_node v i = Some (node_at (sh_slab v) i)" by (rule shard_rep_node [OF rep]) (simp add: foot_def)
  have drop: "shard_deallocate i (index_erase (nkey v i) v) =
      map_option (\<lambda>s. index_erase (nkey v i) (v\<lparr>sh_slab := s\<rparr>)) (slab_deallocate i (sh_slab v))"
    by (cases "slab_deallocate i (sh_slab v)") (simp_all add: shard_deallocate_def index_erase_def)
  have fields: "st_cms (sh_stripe (index_erase k u)) = st_cms (sh_stripe u)"
    "st_demotion_queue (sh_stripe (index_erase k u)) = st_demotion_queue (sh_stripe u)" for k u
    by (simp_all add: index_erase_def)
  have out: "{i} \<inter> (owned G \<union> {c}) = {}" using rep by (auto simp: shard_rep_def owned_def)
  have f': "fits (Pushing c item) ?p" for item using f by (simp add: fits_def)
  have count: "oks (count_eviction c w) (stepped h32 v fs G ?t)" if m: "moves v fs G [i, c] w (i # fs) G [c] {i}" for w
    by (rule count_eviction_ok [where fs' = "i # fs", OF _ _ _ _ out _ _ f']) (use m moves_stripe [OF m] ok in \<open>simp_all add: moves_steps moves_rep outlook_def steps_def\<close>)
  have push: "stepped h32 v fs G ?t (Pushing c item, w)" if m: "moves v fs G [i, c] w (i # fs) G [c] {i}" for w item
  proof (rule stepped_steps [where q = ?p and fs' = "i # fs"])
    show s: "steps v fs G (loose ?t) w (i # fs) G (loose (Pushing c item)) {i}" using m by (simp add: moves_steps)
    show "same (policy_of w (i # fs) G) ?p"
      using steps_entries [OF s] out m by (simp add: same_def moves_def)
    have "entry_of w c = entry_of v c" using out m by (simp add: moves_def changes_def entry_of_def)
    then show "agree (p_rest h32 (map_work (entry_of w) (Pushing c item)) ?p) (outlook h32 v fs G ?t)"
      by (simp add: outlook_def)
  qed (use m moves_stripe [OF m] ok f' in simp_all)
  show ?thesis
    unfolding evict_step_def node
    by (auto simp: drop fields cms_estimate_val ok count push intro!: oks_mono [OF st_drop [OF rep]])
qed

lemma judge_step_ok:
  assumes v: "work_ok v fs G Admitting" and over: "0 < p_overflow (policy_of v fs G)" and xs: "G Win = xs @ [c]"
    and m: "moves v fs G [] w fs (G(Win := xs)) [c] {}"
  shows "oks (judge_step h32 c w) (stepped h32 v fs G Admitting)"
proof -
  let ?p = "policy_of v fs G" and ?H = "G(Win := xs)"
  let ?q = "?p\<lparr>p_tiers := (p_tiers ?p)(Win := map (entry_of v) xs)\<rparr>"
  have rep: "shard_rep w fs ?H [c]" using m by (simp add: moves_def)
  have ok: "cms_ok (st_cms (sh_stripe w))" "dq_inv (sh_queue w)"
    using v moves_stripe [OF m] by (simp_all add: work_ok_def)
  have ent: "entry_of w = entry_of v" using moves_data [OF m] by (simp add: entry_of_def fun_eq_iff)
  have q: "same (policy_of w fs ?H) ?q" using m by (simp add: same_def ent moves_def t_map_def fun_eq_iff)
  have win: "p_tiers ?p Win = map (entry_of v) xs @ [entry_of v c]" by (simp add: xs)
  have f: "length xs \<le> unat (st_window_capacity (aux v))"
    "length (G Prob) + length (G Prot) \<le> unat (st_main_capacity (aux v))"
    using v by (simp_all add: work_ok_def fits_def xs)
  have look: "outlook h32 v fs G Admitting = (Flag True, p_loop h32 (p_admit h32 ?p))"
    using p_loop_round [OF over] by (simp add: outlook_def)
  have wv: "steps v fs G [] w fs ?H [c] {}" using m by (simp add: moves_steps)
  note outcome = p_admit_outcome [OF win]
  have freq: "p_freq h32 ?p (fst (entry_of v j)) = cms_val h32 (st_cms (sh_stripe w)) (nkey w j)" for j
    using moves_data [OF m] moves_stripe [OF m] by (simp add: p_freq_def entry_of_def aux_fields)
  have node: "shard_node w c = Some (node_at (sh_slab w) c)"
    by (rule shard_rep_node [OF rep]) (simp add: foot_def)
  have sz: "lru_size_of Prob w + lru_size_of Prot w < st_main_capacity (sh_stripe w) \<longleftrightarrow>
      length (p_tiers ?p Prob) + length (p_tiers ?p Prot) < unat (st_main_capacity (p_stripe ?p))" (is "_ \<longleftrightarrow> ?room")
    using main_size_len [OF rep] moves_stripe [OF m] by (simp add: word_less_nat_alt main_len_def aux_fields)
  have pr: "lru_rep (sh_slab w) (st_probation (sh_stripe w)) (G Prob)"
    using shard_rep_list(1) [OF rep, of Prob] by simp
  have reject: "stepped h32 v fs G Admitting (Rejecting c, w)" if "p_admit h32 ?p = p_rejected ?q"
    by (rule stepped_steps [where q = ?q and fs' = fs and G' = ?H and D = "{}"])
      (use wv ok q f that look over in \<open>simp_all add: fits_def limits_def\<close>)
  show ?thesis
  proof (cases ?room)
    case True
    let ?K = "?H(Prob := c # ?H Prob)"
    have "stepped h32 v fs G Admitting (Admitting, v')"
      if s: "steps w fs ?H [c] v' fs ?K [] {}" and a: "aux v' = (aux w)\<lparr>st_admissions := st_admissions (aux w) + 1\<rparr>"
        and sq: "sh_queue v' = sh_queue w" for v'
    proof (rule stepped_steps [where q = "p_admit h32 ?p" and fs' = fs and G' = ?K and D = "{}"])
      show st: "steps v fs G (loose Admitting) v' fs ?K (loose Admitting) {}"
        using steps_trans [OF wv s, of "{}"] by simp
      have "aux w = aux v" using m by (simp add: moves_def)
      then show "same (policy_of v' fs ?K) (p_admit h32 ?p)"
        unfolding outcome(1) [OF True] using steps_entries [OF st] a
        by (simp add: same_def p_admitted_def p_front_def)
      show "cms_ok (st_cms (sh_stripe v'))" using a ok by (simp add: aux_sym)
      show "fits Admitting (p_admit h32 ?p)"
        unfolding outcome(1) [OF True] using f True by (simp add: fits_def p_admitted_def p_front_def)
    qed (use sq ok look outcome(1) [OF True] over f in \<open>simp_all add: limits_def p_admitted_def p_front_def p_overflow_def\<close>)
    then show ?thesis
      using True sz by (auto simp: judge_step_def node intro!: oks_mono [OF admit_ix [OF rep]])
  next
    case full: False
    show ?thesis
    proof (cases "G Prob = []")
      case True
      then show ?thesis
        using full sz lru_size_empty [OF pr] reject [OF outcome(2) [OF full]] by (simp add: judge_step_def node)
    next
      case False
      then obtain ps i where ps: "G Prob = ps @ [i]" by (metis append_butlast_last_id)
      have ne: "\<not> lru_empty (st_probation (sh_stripe w))" using lru_size_empty [OF pr] False by simp
      have peek: "lru_peek_back (st_probation (sh_stripe w)) = i" using lru_peek_back_last [OF pr] ps by simp
      have nodei: "shard_node w i = Some (node_at (sh_slab w) i)"
        using ps by (intro shard_rep_node [OF rep] foot_list [of i ?H Prob]) simp
      have pp: "p_tiers ?p Prob = map (entry_of v) ps @ [entry_of v i]" by (simp add: ps)
      let ?K = "?H(Prob := ps)" and ?r = "?q\<lparr>p_tiers := (p_tiers ?q)(Prob := map (entry_of v) ps)\<rparr>"
      have evict: "stepped h32 v fs G Admitting (Evicting c i, u)"
        if u: "moves w fs ?H [c] u fs ?K [i, c] {}" and gt: "\<not> p_freq h32 ?p (fst (entry_of v c)) \<le> p_freq h32 ?p (fst (entry_of v i))" for u
      proof (rule stepped_steps [where q = ?r and fs' = fs and G' = ?K and D = "{}"])
        have vu: "moves v fs G [] u fs ?K [i, c] {}" using moves_trans0 [OF m u] .
        then show st: "steps v fs G (loose Admitting) u fs ?K (loose (Evicting c i)) {}" by (simp add: moves_steps)
        have eu: "entry_of u = entry_of v" using moves_data [OF vu] by (simp add: entry_of_def fun_eq_iff)
        then show "same (policy_of u fs ?K) ?r"
          using vu by (simp add: same_def moves_def t_map_def fun_eq_iff)
        show "fits (Evicting c i) ?r" using f ps by (simp add: fits_def)
        show "agree (p_rest h32 (map_work (entry_of u) (Evicting c i)) ?r) (outlook h32 v fs G Admitting)"
          using same_loop [OF same_sym [OF outcome(4) [OF full pp gt]]] by (simp add: look eu)
      qed (use ok moves_stripe [OF u] over in \<open>simp_all add: limits_def\<close>)
      show ?thesis
        using full sz ne reject [OF outcome(3) [OF full pp]]
        by (auto simp: judge_step_def node nodei peek cms_estimate_val ok freq ps not_le [symmetric]
            intro!: oks_mono [OF st_pop [OF rep, of Prob ps i]] evict)
    qed
  qed
qed

lemma admit_step_ok:
  assumes v: "work_ok v fs G Admitting"
  shows "oks (admit_step h32 v) (stepped h32 v fs G Admitting)"
proof -
  let ?p = "policy_of v fs G"
  have rep: "shard_rep v fs G []" and ok: "cms_ok (st_cms (sh_stripe v))" "dq_inv (sh_queue v)" and f: "fits Admitting ?p"
    using v by (simp_all add: work_ok_def)
  have over: "lru_size_of Win v > st_window_capacity (sh_stripe v) \<longleftrightarrow> 0 < p_overflow ?p"
    by (rule implements_window [OF implementsI]) (simp add: shard_ok_def rep ok)
  show ?thesis
  proof (cases "0 < p_overflow ?p")
    case False
    then have "work_ok v fs G (Returned (Flag True))"
      using v by (simp add: work_ok_def fits_def p_overflow_def)
    then show ?thesis
      using False over by (auto simp: admit_step_def outlook_def p_loop_idle intro!: steppedI)
  next
    case True
    then have "G Win \<noteq> []" by (auto simp: p_overflow_def)
    then obtain xs c where xs: "G Win = xs @ [c]" by (metis append_butlast_last_id)
    have c: "c \<noteq> kInvalidIndex"
      using xs by (intro less_invalid [OF shard_rep_bound [OF rep foot_list [of c G Win]]]) simp
    show ?thesis
      using True over
      by (simp add: admit_step_def del: oks_bind)
        (rule oks_bindI [OF st_pop [OF rep xs]], clarify, unfold if_not_P [OF c] prod.case,
          rule judge_step_ok [OF v True xs])
  qed
qed

lemma stripe_step_ok: "work_ok v fs G t \<Longrightarrow> oks (stripe_step h32 t v) (stepped h32 v fs G t)"
proof (cases t)
  case (Start op)
  then show "work_ok v fs G t \<Longrightarrow> ?thesis"
    using get_step_ok start_put_ok start_remove_ok by (cases op) simp_all
next
  case (Returned r)
  then show "work_ok v fs G t \<Longrightarrow> ?thesis" by (auto intro!: steppedI simp: agree_def)
qed (simp_all add: insert_step_ok admit_step_ok reject_step_ok evict_step_ok push_step_ok free_step_ok)

end
