(* ===== verification/Stripe_Concurrent.thy ===== *)
theory Stripe_Concurrent
  imports Stripe_Steps_Correct Striped_Cache_Props
begin

text \<open>
  The 64 stripes at work at the same time. Each stripe's mutex admits one operation at a time; operations
  on different stripes run concurrently and meet in the slab and the demotion queue. The state holds the
  cache, the operation running on each stripe with its program counter, and, for the statements only, the
  number of steps it has made and the log of the operations that have returned, in that order. The drainer
  takes batches from the queue at any time. Single calls into the slab and the queue are atomic here; for
  the slab's lock-free ones that is what \<open>Slab_Concurrent\<close> proves.
\<close>

section \<open>The machine\<close>

datatype job = Unlocked | Locked cache_op "u32 work"

record stripes =
  pc_cache :: scache
  pc_jobs :: "u32 \<Rightarrow> job"
  pc_steps :: "u32 \<Rightarrow> nat"
  pc_log :: "(cache_op \<times> cache_result) list"

primrec cache_op_key :: "cache_op \<Rightarrow> string" where
  "cache_op_key (Get key) = key"
| "cache_op_key (Put key val) = key"
| "cache_op_key (Remove key) = key"

definition stripes_new :: "scache \<Rightarrow> stripes" where
  "stripes_new c = \<lparr>pc_cache = c, pc_jobs = (\<lambda>_. Unlocked), pc_steps = (\<lambda>_. 0), pc_log = []\<rparr>"

text \<open>Taking the mutex of the key's stripe, one step of the operation that holds it, the return, and the
  drainer's batch.\<close>

inductive stripes_step :: "hash32 \<Rightarrow> hash64 \<Rightarrow> stripes \<Rightarrow> stripes \<Rightarrow> bool" for h32 h64 where
  lock: "pc_jobs s i = Unlocked \<Longrightarrow> i = route h64 (cache_op_key op) \<Longrightarrow>
    stripes_step h32 h64 s (s\<lparr>pc_jobs := (pc_jobs s)(i := Locked op (Start op)), pc_steps := (pc_steps s)(i := 0)\<rparr>)"
| work: "pc_jobs s i = Locked op t \<Longrightarrow> (\<And>r. t \<noteq> Returned r) \<Longrightarrow>
    with_stripe i (stripe_step h32 t) (pc_cache s) = Some (t', c) \<Longrightarrow>
    stripes_step h32 h64 s (s\<lparr>pc_cache := c, pc_jobs := (pc_jobs s)(i := Locked op t'),
      pc_steps := (pc_steps s)(i := Suc (pc_steps s i))\<rparr>)"
| unlock: "pc_jobs s i = Locked op (Returned r) \<Longrightarrow>
    stripes_step h32 h64 s (s\<lparr>pc_jobs := (pc_jobs s)(i := Unlocked), pc_log := pc_log s @ [(op, r)]\<rparr>)"
| drain: "dq_try_pop_batch n (sc_queue (pc_cache s)) [] = Some (popped, batch, q) \<Longrightarrow>
    stripes_step h32 h64 s (s\<lparr>pc_cache := (pc_cache s)\<lparr>sc_queue := q\<rparr>\<rparr>)"

inductive stripes_reach :: "hash32 \<Rightarrow> hash64 \<Rightarrow> scache \<Rightarrow> stripes \<Rightarrow> bool" for h32 h64 c where
  start: "stripes_reach h32 h64 c (stripes_new c)"
| step: "stripes_reach h32 h64 c s \<Longrightarrow> stripes_step h32 h64 s s' \<Longrightarrow> stripes_reach h32 h64 c s'"

section \<open>The representation of the cache while operations are running\<close>

definition job_work :: "job \<Rightarrow> u32 work" where
  "job_work j = (case j of Unlocked \<Rightarrow> Returned (Flag True) | Locked op t \<Rightarrow> t)"

definition held :: "u32 tiers \<Rightarrow> u32 work \<Rightarrow> u32 set" where
  "held G t = owned G \<union> set (loose t)"

definition view_at :: "scache \<Rightarrow> u32 list \<Rightarrow> (u32 \<Rightarrow> u32 tiers) \<Rightarrow> u32 \<Rightarrow> policy" where
  "view_at c fs Gs i = policy_of (shard_at c i) fs (Gs i)"

definition cache_work :: "scache \<Rightarrow> u32 list \<Rightarrow> (u32 \<Rightarrow> u32 tiers) \<Rightarrow> (u32 \<Rightarrow> u32 work) \<Rightarrow> bool" where
  "cache_work c fs Gs T \<longleftrightarrow> length (sc_stripes c) = 64 \<and>
     (\<forall>i < 64. work_ok (shard_at c i) fs (Gs i) (T i)) \<and>
     (\<forall>i < 64. \<forall>j < 64. i \<noteq> j \<longrightarrow> held (Gs i) (T i) \<inter> held (Gs j) (T j) = {}) \<and>
     set fs \<union> (\<Union>i \<in> {i. i < 64}. held (Gs i) (T i)) = {i. i < sl_capacity (sc_slab c)}"

lemma set_loose: "set (loose t) = set_work t"
  by (cases t) auto

text \<open>What another stripe's step leaves alone.\<close>

lemma work_frame:
  assumes w: "work_ok w fs H u" and v: "sh_slab w = sh_slab v"
    and v': "work_ok v' fs' G' t'" "foot fs' G' (loose t') = foot fs G (loose t)" "changes v v' (foot fs G (loose t)) UNIV"
    and dj: "held H u \<inter> held G t = {}"
  defines "w' \<equiv> w\<lparr>sh_slab := sh_slab v', sh_queue := sh_queue v'\<rparr>"
  shows "work_ok w' fs' H u" and "held H u \<inter> held G' t' = {}"
    and "same (policy_of w' fs' H) (policy_of w fs H)"
    and "agree (outlook h32 w' fs' H u) (outlook h32 w fs H u)"
proof -
  have rep: "shard_rep w fs H (loose u)" and rep': "shard_rep v' fs' G' (loose t')"
    using w v'(1) by (simp_all add: work_ok_def)
  note frame = shard_rep_frame [OF rep v rep' v'(2,3) dj [unfolded held_def], folded w'_def]
  have "t_map (entry_of w') H = t_map (entry_of w) H" by (rule t_map_cong) (use frame(2) in auto)
  then show s: "same (policy_of w' fs' H) (policy_of w fs H)" by (simp add: same_def aux_def w'_def)
  have "map_work (entry_of w') u = map_work (entry_of w) u"
    by (rule work.map_cong0) (use frame(2) in \<open>simp add: set_loose\<close>)
  then show "agree (outlook h32 w' fs' H u) (outlook h32 w fs H u)"
    using agree_rest [OF s] by (simp add: outlook_def)
  show "held H u \<inter> held G' t' = {}" using frame(3) by (simp add: held_def)
  have "nkey w' i = nkey w i" if "u = Freeing i key" for i key
    using frame(2) [of i] that by (simp add: entry_of_def)
  then show "work_ok w' fs' H u"
    using w v'(1) frame(1) same_fits [OF s, of u] by (auto simp: work_ok_def w'_def split: work.splits)
qed

text \<open>One step of stripe \<open>i\<close>: it succeeds, the representation is kept, the stripe's own prospects are kept
  unless the slab had no free node, and so are the prospects of every other stripe.\<close>

lemma stripe_moves:
  assumes inv: "cache_work c fs Gs T" and i: "i < 64"
  shows "oks (with_stripe i (stripe_step h32 (T i)) c) (\<lambda>(t', c'). \<exists>fs' Gs'. cache_work c' fs' Gs' (T(i := t')) \<and>
    sl_capacity (sc_slab c') = sl_capacity (sc_slab c) \<and>
    (\<forall>j < 64. limits (view_at c' fs' Gs' j) = limits (view_at c fs Gs j)) \<and>
    (steps_left (T i) (view_at c fs Gs i) = 0 \<or> steps_left t' (view_at c' fs' Gs' i) < steps_left (T i) (view_at c fs Gs i)) \<and>
    (\<not> refused fs (T i) \<longrightarrow> agree (outlook h32 (shard_at c' i) fs' (Gs' i) t') (outlook h32 (shard_at c i) fs (Gs i) (T i))) \<and>
    (\<forall>j < 64. j \<noteq> i \<longrightarrow> same (view_at c' fs' Gs' j) (view_at c fs Gs j) \<and>
       agree (outlook h32 (shard_at c' j) fs' (Gs' j) (T j)) (outlook h32 (shard_at c j) fs (Gs j) (T j))))"
proof -
  have len: "length (sc_stripes c) = 64" and ok: "\<And>j. j < 64 \<Longrightarrow> work_ok (shard_at c j) fs (Gs j) (T j)"
    and dj: "\<And>j k. j < 64 \<Longrightarrow> k < 64 \<Longrightarrow> j \<noteq> k \<Longrightarrow> held (Gs j) (T j) \<inter> held (Gs k) (T k) = {}"
    and all: "set fs \<union> (\<Union>j \<in> {j. j < 64}. held (Gs j) (T j)) = {i. i < sl_capacity (sc_slab c)}"
    using inv by (auto simp: cache_work_def)
  have un: "unat j < 64" if "j < 64" for j :: u32 using that by (simp add: word_less_nat_alt)
  let ?v = "shard_at c i"
  obtain t' v' where run: "stripe_step h32 (T i) ?v = Some (t', v')" and st: "stepped h32 ?v fs (Gs i) (T i) (t', v')"
    using stripe_step_ok [OF ok [OF i], of h32] by (auto elim!: oksE)
  obtain fs' G' where ok': "work_ok v' fs' G' t'" and F: "foot fs' G' (loose t') = foot fs (Gs i) (loose (T i))"
      and ch: "changes ?v v' (foot fs (Gs i) (loose (T i))) UNIV"
      and lim: "limits (policy_of v' fs' G') = limits (policy_of ?v fs (Gs i))"
      and left: "steps_left (T i) (policy_of ?v fs (Gs i)) = 0 \<or> steps_left t' (policy_of v' fs' G') < steps_left (T i) (policy_of ?v fs (Gs i))"
      and ag: "\<not> refused fs (T i) \<longrightarrow> agree (outlook h32 v' fs' G' t') (outlook h32 ?v fs (Gs i) (T i))"
    using st unfolding stepped_def by auto
  define c' where "c' = c\<lparr>sc_slab := sh_slab v', sc_queue := sh_queue v', sc_stripes := (sc_stripes c)[unat i := sh_stripe v']\<rparr>"
  let ?Gs = "Gs(i := G')" and ?T = "T(i := t')"
  have at_i: "shard_at c' i = v'" using len un [OF i] by (simp add: shard_at_def c'_def)
  have at_j: "shard_at c' j = (shard_at c j)\<lparr>sh_slab := sh_slab v', sh_queue := sh_queue v'\<rparr>" if "j \<noteq> i" for j
    using that len un [OF i] by (simp add: shard_at_def c'_def)
  have slab: "sh_slab (shard_at c j) = sh_slab ?v" for j by (simp add: shard_at_def)
  have fr: "work_ok (shard_at c' j) fs' (Gs j) (T j)" "held (Gs j) (T j) \<inter> held G' t' = {}"
      "same (policy_of (shard_at c' j) fs' (Gs j)) (policy_of (shard_at c j) fs (Gs j))"
      "agree (outlook h32 (shard_at c' j) fs' (Gs j) (T j)) (outlook h32 (shard_at c j) fs (Gs j) (T j))"
    if j: "j < 64" "j \<noteq> i" for j
    using work_frame [OF ok [OF j(1)] slab ok' F ch dj [OF j(1) i j(2)]] at_j [OF j(2)] by simp_all
  have cap: "sl_capacity (sc_slab c') = sl_capacity (sc_slab c)"
    using ch by (simp add: c'_def changes_def shard_at_def)
  have u: "set fs' \<union> held G' t' = set fs \<union> held (Gs i) (T i)" using F by (simp add: foot_def held_def Un_assoc)
  have "set fs' \<union> (\<Union>j \<in> {j. j < 64}. held (?Gs j) (?T j)) = set fs' \<union> held G' t' \<union> (\<Union>j \<in> {j. j < 64} - {i}. held (Gs j) (T j))"
    using i by (auto split: if_splits)
  also have "\<dots> = set fs \<union> (\<Union>j \<in> {j. j < 64}. held (Gs j) (T j))" unfolding u using i by blast
  finally have "cache_work c' fs' ?Gs ?T"
    using len fr(1,2) ok' dj at_i all cap by (auto simp: cache_work_def c'_def Int_commute)
  moreover have "limits (view_at c' fs' ?Gs j) = limits (view_at c fs Gs j)" if "j < 64" for j
    using lim same_limits [OF fr(3) [OF that]] by (cases "j = i") (simp_all add: view_at_def at_i)
  moreover have "with_stripe i (stripe_step h32 (T i)) c = Some (t', c')"
    using run len un [OF i] by (simp add: with_stripe_def vget_def vset_def c'_def shard_at_def)
  ultimately show ?thesis
    using cap left ag fr(3,4) by (auto simp: view_at_def at_i intro!: exI [of _ fs'] exI [of _ ?Gs])
qed

section \<open>Why the slab has one node per stripe to spare\<close>

lemma held_card:
  assumes "work_ok v fs G t"
  shows "card (held G t) \<le> unat (fst (limits (policy_of v fs G))) + unat (snd (limits (policy_of v fs G))) +
    (case t of Allocating _ _ \<Rightarrow> 0 | _ \<Rightarrow> 1)"
proof -
  have "held G t = set (t_all G @ loose t)" by (simp add: held_def owned_def set_t_all)
  then have "card (held G t) \<le> length (t_all G @ loose t)" by (simp only: card_length)
  then show ?thesis
    using assms by (cases t) (auto simp: work_ok_def fits_def limits_def t_all_def)
qed

lemma slab_room:
  assumes inv: "cache_work c fs Gs T" and i: "i < 64" "T i = Allocating key val"
    and lim: "\<forall>j < 64. unat (fst (limits (view_at c fs Gs j))) + unat (snd (limits (view_at c fs Gs j))) \<le> N"
  shows "unat (sl_capacity (sc_slab c)) \<le> length fs + (64 * N + 63)"
proof -
  let ?S = "{j. j < (64 :: u32)}"
  have ok: "\<And>j. j < 64 \<Longrightarrow> work_ok (shard_at c j) fs (Gs j) (T j)"
    and all: "set fs \<union> (\<Union>j \<in> ?S. held (Gs j) (T j)) = {i. i < sl_capacity (sc_slab c)}"
    using inv by (auto simp: cache_work_def)
  have fin: "finite ?S" "card ?S = 64" by (simp_all add: card_less_u32)
  have le: "card (held (Gs j) (T j)) \<le> N + (if j = i then 0 else 1)" if "j \<in> ?S" for j
    using held_card [OF ok [of j]] that lim i(2) by (fastforce simp: view_at_def split: work.splits)
  have "unat (sl_capacity (sc_slab c)) = card (set fs \<union> (\<Union>j \<in> ?S. held (Gs j) (T j)))"
    unfolding all by (simp add: card_less_u32)
  also have "\<dots> \<le> card (set fs) + card (\<Union>j \<in> ?S. held (Gs j) (T j))" by (rule card_Un_le)
  also have "\<dots> \<le> length fs + (\<Sum>j \<in> ?S. card (held (Gs j) (T j)))"
    by (intro add_mono card_length card_UN_le fin)
  also have "\<dots> \<le> length fs + (\<Sum>j \<in> ?S. N + (if j = i then 0 else 1))"
    by (intro add_mono order_refl sum_mono le)
  also have "(\<Sum>j \<in> ?S. N + (if j = i then 0 else 1)) = 64 * N + (\<Sum>j \<in> ?S. if j = i then 0 else 1)"
    using fin(2) by (simp only: sum.distrib sum_constant of_nat_id)
  also have "(\<Sum>j \<in> ?S. if j = i then 0 else 1 :: nat) = card (?S - {i})"
    using fin(1) by (simp add: sum.If_cases card_Diff_subset Diff_eq Collect_neg_eq)
  also have "card (?S - {i}) = 63" using fin i(1) by simp
  finally show ?thesis .
qed

section \<open>The invariant\<close>

abbreviation works :: "stripes \<Rightarrow> u32 \<Rightarrow> u32 work" where
  "works s \<equiv> job_work \<circ> pc_jobs s"

definition conc_base :: "hash64 \<Rightarrow> u32 \<Rightarrow> stripes \<Rightarrow> u32 list \<Rightarrow> (u32 \<Rightarrow> u32 tiers) \<Rightarrow> bool" where
  "conc_base h64 capacity s fs Gs \<longleftrightarrow> cache_work (pc_cache s) fs Gs (works s) \<and>
     sl_capacity (sc_slab (pc_cache s)) = capacity + 64 \<and>
     (\<forall>i < 64. unat (fst (limits (view_at (pc_cache s) fs Gs i))) + unat (snd (limits (view_at (pc_cache s) fs Gs i)))
        \<le> max 3 (unat capacity div 64)) \<and>
     (\<forall>i op t. pc_jobs s i = Locked op t \<longrightarrow> i = route h64 (cache_op_key op) \<and>
        pc_steps s i + steps_left t (view_at (pc_cache s) fs Gs i) \<le> 6)"

text \<open>What the operations that have returned would have done one after the other, and where the running ones
  stand relative to that.\<close>

definition in_line :: "hash32 \<Rightarrow> scache \<Rightarrow> u32 list \<Rightarrow> (u32 \<Rightarrow> u32 tiers) \<Rightarrow> u32 \<Rightarrow> job \<Rightarrow> policy \<Rightarrow> bool" where
  "in_line h32 c fs Gs i j p =
     (case j of Unlocked \<Rightarrow> same (view_at c fs Gs i) p
      | Locked op t \<Rightarrow> agree (outlook h32 (shard_at c i) fs (Gs i) t) (policy_do h32 op (p\<lparr>p_free := 1\<rparr>)))"

definition conc_linear :: "hash32 \<Rightarrow> hash64 \<Rightarrow> scache \<Rightarrow> stripes \<Rightarrow> u32 list \<Rightarrow> (u32 \<Rightarrow> u32 tiers) \<Rightarrow> bool" where
  "conc_linear h32 h64 c0 s fs Gs \<longleftrightarrow>
     oks (sc_run h32 h64 (map fst (pc_log s)) c0) (\<lambda>(rs, c). rs = map snd (pc_log s) \<and>
       (\<forall>i < 64. in_line h32 (pc_cache s) fs Gs i (pc_jobs s i) (stripe_view c i)))"

definition conc_inv :: "hash32 \<Rightarrow> hash64 \<Rightarrow> u32 \<Rightarrow> scache \<Rightarrow> stripes \<Rightarrow> bool" where
  "conc_inv h32 h64 capacity c0 s \<longleftrightarrow> (\<exists>fs Gs. conc_base h64 capacity s fs Gs \<and>
     (192 \<le> unat capacity \<and> unat capacity + 64 < 2 ^ 32 \<longrightarrow> conc_linear h32 h64 c0 s fs Gs))"

lemma base_locked: "conc_base h64 capacity s fs Gs \<Longrightarrow> pc_jobs s i = Locked op t \<Longrightarrow> i < 64"
  unfolding conc_base_def by (metis route_less)

lemma base_room:
  assumes base: "conc_base h64 capacity s fs Gs" and i: "pc_jobs s i = Locked op (Allocating key val)"
    and big: "192 \<le> unat capacity" "unat capacity + 64 < 2 ^ 32"
  shows "fs \<noteq> []"
proof -
  have "unat (sl_capacity (sc_slab (pc_cache s))) \<le> length fs + (64 * max 3 (unat capacity div 64) + 63)"
    using base base_locked [OF base i] i
    by (intro slab_room [where T = "works s" and i = i and key = key and val = val]) (auto simp: conc_base_def job_work_def)
  moreover have "unat (capacity + 64) = unat capacity + 64" using big(2) by (subst unat_add_u32) simp_all
  moreover have "64 * (unat capacity div 64) \<le> unat capacity" by simp
  moreover have "max 3 (unat capacity div 64) = unat capacity div 64" using big(1) by (simp add: max_def)
  ultimately show ?thesis using base by (auto simp: conc_base_def)
qed

text \<open>A change of the program counter alone.\<close>

lemma cache_work_swap:
  assumes "cache_work c fs Gs T" and "i < 64" and "work_ok (shard_at c i) fs (Gs i) t" and "loose t = loose (T i)"
  shows "cache_work c fs Gs (T(i := t))"
proof -
  have "held (Gs j) ((T(i := t)) j) = held (Gs j) (T j)" for j using assms(4) by (simp add: held_def)
  then show ?thesis using assms(1-3) by (simp add: cache_work_def)
qed

lemma works_upd: "job_work \<circ> (pc_jobs s)(i := j) = (works s)(i := job_work j)"
  by (rule fun_upd_comp)

section \<open>Every step keeps it\<close>

lemma base_ok: "conc_base h64 capacity s fs Gs \<Longrightarrow> i < 64 \<Longrightarrow> work_ok (shard_at (pc_cache s) i) fs (Gs i) (works s i)"
  unfolding conc_base_def cache_work_def by blast

lemma quiet_work_ok:
  "work_ok v fs G t \<Longrightarrow> loose t = [] \<Longrightarrow> t \<noteq> Admitting \<Longrightarrow> loose t' = [] \<Longrightarrow>
   (\<And>key val. t' \<noteq> Allocating key val) \<Longrightarrow> work_ok v fs G t'"
  by (cases t; cases t') (auto simp: work_ok_def fits_def)

lemma linear_mono:
  assumes "conc_linear h32 h64 c0 s fs Gs" and "pc_log s' = pc_log s"
    and "\<And>j p. j < 64 \<Longrightarrow> in_line h32 (pc_cache s) fs Gs j (pc_jobs s j) p \<Longrightarrow>
      in_line h32 (pc_cache s') fs' Gs' j (pc_jobs s' j) p"
  shows "conc_linear h32 h64 c0 s' fs' Gs'"
  using assms(1,3) unfolding conc_linear_def assms(2) by (auto elim!: oks_mono)

lemma inv_lock:
  assumes base: "conc_base h64 capacity s fs Gs" and i: "pc_jobs s i = Unlocked" "i = route h64 (cache_op_key op)"
  defines "s' \<equiv> s\<lparr>pc_jobs := (pc_jobs s)(i := Locked op (Start op)), pc_steps := (pc_steps s)(i := 0)\<rparr>"
  shows "conc_base h64 capacity s' fs Gs" and "conc_linear h32 h64 c0 s fs Gs \<Longrightarrow> conc_linear h32 h64 c0 s' fs Gs"
proof -
  have i64: "i < 64" using i(2) route_less by simp
  have "work_ok (shard_at (pc_cache s) i) fs (Gs i) (Start op)"
    by (rule quiet_work_ok [OF base_ok [OF base i64]]) (simp_all add: i(1) job_work_def)
  then have "cache_work (pc_cache s) fs Gs ((works s)(i := Start op))"
    using base i64 i(1) by (intro cache_work_swap) (simp_all add: conc_base_def job_work_def)
  then show "conc_base h64 capacity s' fs Gs"
    using base i(2) by (auto simp: conc_base_def s'_def works_upd job_work_def [of "Locked _ _"])
  have "in_line h32 (pc_cache s) fs Gs i (Locked op (Start op)) p" if "in_line h32 (pc_cache s) fs Gs i Unlocked p" for p
    using that by (simp add: in_line_def outlook_def view_at_def agree_do)
  then show "conc_linear h32 h64 c0 s fs Gs \<Longrightarrow> conc_linear h32 h64 c0 s' fs Gs"
    using i(1) by (elim linear_mono) (auto simp: s'_def)
qed

lemma agree_sym: "agree x y \<Longrightarrow> agree y x"
  by (auto simp: agree_def intro: same_sym)

lemma inv_work:
  assumes base: "conc_base h64 capacity s fs Gs" and i: "pc_jobs s i = Locked op t" "\<And>r. t \<noteq> Returned r"
    and run: "with_stripe i (stripe_step h32 t) (pc_cache s) = Some (t', c)"
  defines "s' \<equiv> s\<lparr>pc_cache := c, pc_jobs := (pc_jobs s)(i := Locked op t'), pc_steps := (pc_steps s)(i := Suc (pc_steps s i))\<rparr>"
  shows "\<exists>fs' Gs'. conc_base h64 capacity s' fs' Gs' \<and>
    (\<not> refused fs t \<longrightarrow> conc_linear h32 h64 c0 s fs Gs \<longrightarrow> conc_linear h32 h64 c0 s' fs' Gs')"
proof -
  let ?c = "pc_cache s"
  have i64: "i < 64" by (rule base_locked [OF base i(1)])
  have wi: "works s i = t" by (simp add: i(1) job_work_def)
  have inv: "cache_work ?c fs Gs (works s)" using base by (simp add: conc_base_def)
  obtain fs' Gs' where inv': "cache_work c fs' Gs' ((works s)(i := t'))"
    and cap: "sl_capacity (sc_slab c) = sl_capacity (sc_slab ?c)"
    and lim: "\<forall>j < 64. limits (view_at c fs' Gs' j) = limits (view_at ?c fs Gs j)"
    and left: "steps_left t (view_at ?c fs Gs i) = 0 \<or> steps_left t' (view_at c fs' Gs' i) < steps_left t (view_at ?c fs Gs i)"
    and own: "\<not> refused fs t \<longrightarrow> agree (outlook h32 (shard_at c i) fs' (Gs' i) t') (outlook h32 (shard_at ?c i) fs (Gs i) t)"
    and others: "\<forall>j < 64. j \<noteq> i \<longrightarrow> same (view_at c fs' Gs' j) (view_at ?c fs Gs j) \<and>
       agree (outlook h32 (shard_at c j) fs' (Gs' j) (works s j)) (outlook h32 (shard_at ?c j) fs (Gs j) (works s j))"
    using stripe_moves [OF inv i64, of h32] unfolding wi run oks_Some prod.case by blast
  have pos: "steps_left t p \<noteq> 0" for p using i(2) by (cases t) auto
  have "pc_steps s' j + steps_left u (view_at c fs' Gs' j) \<le> 6" if "pc_jobs s' j = Locked op' u" for j op' u
  proof (cases "j = i")
    case True
    have "pc_steps s i + steps_left t (view_at ?c fs Gs i) \<le> 6" using base i(1) by (simp add: conc_base_def)
    then show ?thesis using True that left pos [of "view_at ?c fs Gs i"] by (simp add: s'_def)
  next
    case False
    then have j: "pc_jobs s j = Locked op' u" using that by (simp add: s'_def)
    then have "same (view_at c fs' Gs' j) (view_at ?c fs Gs j)" using others base_locked [OF base j] False by blast
    then show ?thesis using False base j by (auto simp: s'_def conc_base_def same_left [of "view_at c fs' Gs' j"])
  qed
  then have "conc_base h64 capacity s' fs' Gs'"
    using inv' cap lim base i(1)
    by (auto simp: conc_base_def s'_def works_upd job_work_def [of "Locked _ _"] split: if_splits)
  moreover have "in_line h32 c fs' Gs' j (pc_jobs s' j) p"
    if "\<not> refused fs t" "j < 64" "in_line h32 ?c fs Gs j (pc_jobs s j) p" for j p
  proof (cases "j = i")
    case True
    then show ?thesis using that own i(1) by (auto simp: in_line_def s'_def intro: agree_trans)
  next
    case False
    then show ?thesis
      using that others
      by (auto simp: in_line_def s'_def job_work_def intro: agree_trans same_trans split: job.splits)
  qed
  then have "\<not> refused fs t \<Longrightarrow> conc_linear h32 h64 c0 s fs Gs \<Longrightarrow> conc_linear h32 h64 c0 s' fs' Gs'"
    by (elim linear_mono) (simp_all add: s'_def)
  ultimately show ?thesis by blast
qed

lemma sc_run_snoc:
  "sc_run h32 h64 (ops @ [op]) c = do { (rs, c) \<leftarrow> sc_run h32 h64 ops c; (r, c) \<leftarrow> sc_do h32 h64 op c; Some (rs @ [r], c) }"
proof (induction ops arbitrary: c)
  case (Cons x ops)
  then show ?case by (cases "sc_do h32 h64 x c") (auto simp: step_binds intro!: bind_eqI)
qed (auto simp: step_binds intro!: bind_eqI)

lemma sc_do_view:
  fixes h64 :: hash64 and op :: cache_op
  assumes ok: "cache_ok c K"
  defines "i \<equiv> route h64 (cache_op_key op)"
  shows "oks (sc_do h32 h64 op c) (\<lambda>(r, c'). r = fst (policy_do h32 op (stripe_view c i)) \<and>
    stripe_view c' i = snd (policy_do h32 op (stripe_view c i)) \<and> (\<forall>j < 64. j \<noteq> i \<longrightarrow> same (stripe_view c j) (stripe_view c' j)))"
proof (cases op)
  case (Get key)
  then show ?thesis
    by (auto simp: sc_do_def sc_get_def policy_do_def i_def same_def stays_def
        intro!: oks_mono [OF op_get.with_stripe_ok [OF ok route_less]])
next
  case (Put key val)
  then show ?thesis
    by (auto simp: sc_do_def sc_put_def policy_do_def i_def same_def stays_def
        intro!: oks_mono [OF op_put.with_stripe_ok [OF ok route_less]])
next
  case (Remove key)
  then show ?thesis
    by (auto simp: sc_do_def sc_remove_def policy_do_def i_def same_def stays_def
        intro!: oks_mono [OF op_remove.with_stripe_ok [OF ok route_less]])
qed

lemma in_line_same: "in_line h32 c fs Gs i j p \<Longrightarrow> same p p' \<Longrightarrow> in_line h32 c fs Gs i j p'"
  by (auto simp: in_line_def agree_do intro: same_trans agree_trans split: job.splits)

lemma inv_unlock:
  assumes base: "conc_base h64 capacity s fs Gs" and i: "pc_jobs s i = Locked op (Returned r)"
  defines "s' \<equiv> s\<lparr>pc_jobs := (pc_jobs s)(i := Unlocked), pc_log := pc_log s @ [(op, r)]\<rparr>"
  shows "conc_base h64 capacity s' fs Gs"
    and "conc_linear h32 h64 c0 s fs Gs \<Longrightarrow>
      oks (sc_run h32 h64 (map fst (pc_log s)) c0) (\<lambda>(rs, c). cache_ok c K \<and> (\<forall>i < 64. p_free (stripe_view c i) \<noteq> 0)) \<Longrightarrow>
      conc_linear h32 h64 c0 s' fs Gs"
proof -
  have i64: "i < 64" and ir: "i = route h64 (cache_op_key op)"
    using base_locked [OF base i] base i by (auto simp: conc_base_def)
  have "work_ok (shard_at (pc_cache s) i) fs (Gs i) (Returned (Flag True))"
    by (rule quiet_work_ok [OF base_ok [OF base i64]]) (simp_all add: i job_work_def)
  then have "cache_work (pc_cache s) fs Gs ((works s)(i := Returned (Flag True)))"
    using base i64 i by (intro cache_work_swap) (simp_all add: conc_base_def job_work_def)
  then show "conc_base h64 capacity s' fs Gs"
    using base by (auto simp: conc_base_def s'_def works_upd job_work_def [of Unlocked])
  assume lin: "conc_linear h32 h64 c0 s fs Gs"
    and good: "oks (sc_run h32 h64 (map fst (pc_log s)) c0) (\<lambda>(rs, c). cache_ok c K \<and> (\<forall>i < 64. p_free (stripe_view c i) \<noteq> 0))"
  obtain c where run: "sc_run h32 h64 (map fst (pc_log s)) c0 = Some (map snd (pc_log s), c)"
    and c: "cache_ok c K" "p_free (stripe_view c i) \<noteq> 0"
    and line: "\<And>j. j < 64 \<Longrightarrow> in_line h32 (pc_cache s) fs Gs j (pc_jobs s j) (stripe_view c j)"
    using lin good i64 unfolding conc_linear_def by (auto elim!: oksE)
  have "agree (r, view_at (pc_cache s) fs Gs i) (policy_do h32 op ((stripe_view c i)\<lparr>p_free := 1\<rparr>))"
    using line [OF i64] by (simp add: in_line_def i outlook_def view_at_def)
  moreover have "agree (policy_do h32 op ((stripe_view c i)\<lparr>p_free := 1\<rparr>)) (policy_do h32 op (stripe_view c i))"
    using c(2) by (intro agree_do) simp_all
  ultimately have own: "r = fst (policy_do h32 op (stripe_view c i))"
      "same (view_at (pc_cache s) fs Gs i) (snd (policy_do h32 op (stripe_view c i)))"
    using agree_trans by (fastforce simp: agree_def)+
  obtain r' c' where d: "sc_do h32 h64 op c = Some (r', c')" "r' = fst (policy_do h32 op (stripe_view c i))"
      "stripe_view c' i = snd (policy_do h32 op (stripe_view c i))"
      "\<And>j. j < 64 \<Longrightarrow> j \<noteq> i \<Longrightarrow> same (stripe_view c j) (stripe_view c' j)"
    using sc_do_view [OF c(1), of h32 h64 op, folded ir] by (auto elim!: oksE)
  have "in_line h32 (pc_cache s) fs Gs j (pc_jobs s' j) (stripe_view c' j)" if "j < 64" for j
    using own(2) d(3) in_line_same [OF line [OF that] d(4) [OF that]]
    by (cases "j = i") (simp_all add: in_line_def [of _ _ _ _ _ Unlocked] s'_def)
  then show "conc_linear h32 h64 c0 s' fs Gs"
    using run d(1,2) own(1) by (simp add: conc_linear_def s'_def sc_run_snoc)
qed

lemma queue_frame:
  assumes "work_ok v fs G t" and "dq_inv q"
  defines "w \<equiv> v\<lparr>sh_queue := q\<rparr>"
  shows "work_ok w fs G t" and "same (policy_of w fs G) (policy_of v fs G)"
    and "agree (outlook h32 w fs G t) (outlook h32 v fs G t)"
proof -
  have e: "entry_of w = entry_of v" by (simp add: entry_of_def w_def fun_eq_iff)
  then show s: "same (policy_of w fs G) (policy_of v fs G)" by (simp add: same_def w_def)
  then show "agree (outlook h32 w fs G t) (outlook h32 v fs G t)" by (simp add: outlook_def e agree_rest)
  have "shard_rep w fs G (loose t) = shard_rep v fs G (loose t)" by (rule shard_rep_cong) (simp_all add: w_def)
  then show "work_ok w fs G t" using assms(1,2) same_fits [OF s, of t] by (auto simp: work_ok_def w_def split: work.splits)
qed

lemma inv_drain:
  assumes base: "conc_base h64 capacity s fs Gs"
    and pop: "dq_try_pop_batch n (sc_queue (pc_cache s)) [] = Some (popped, batch, q)"
  defines "s' \<equiv> s\<lparr>pc_cache := (pc_cache s)\<lparr>sc_queue := q\<rparr>\<rparr>"
  shows "conc_base h64 capacity s' fs Gs" and "conc_linear h32 h64 c0 s fs Gs \<Longrightarrow> conc_linear h32 h64 c0 s' fs Gs"
proof -
  let ?c = "pc_cache s" and ?c' = "(pc_cache s)\<lparr>sc_queue := q\<rparr>"
  have "work_ok (shard_at ?c 0) fs (Gs 0) (works s 0)" by (rule base_ok [OF base]) simp
  then have "dq_inv (sc_queue ?c)" by (simp add: work_ok_def shard_at_def)
  then have q: "dq_inv q" using dq_try_pop_batch_ok [of "sc_queue ?c" n "[]"] pop by simp
  have at: "shard_at ?c' j = (shard_at ?c j)\<lparr>sh_queue := q\<rparr>" for j by (simp add: shard_at_def)
  note frame = queue_frame [OF base_ok [OF base] q]
  have same: "same (view_at ?c' fs Gs j) (view_at ?c fs Gs j)" if "j < 64" for j
    using frame(2) [OF that] by (simp add: view_at_def at)
  have "cache_work ?c' fs Gs (works s)"
    using base frame(1) by (auto simp: conc_base_def cache_work_def at)
  moreover have "steps_left t (view_at ?c' fs Gs j) = steps_left t (view_at ?c fs Gs j)" if "pc_jobs s j = Locked op t" for j op t
    using same_left [OF same [OF base_locked [OF base that]]] .
  ultimately show "conc_base h64 capacity s' fs Gs"
    using base same_limits [OF same] by (auto simp: conc_base_def s'_def)
  have "in_line h32 ?c' fs Gs j (pc_jobs s j) p" if "j < 64" "in_line h32 ?c fs Gs j (pc_jobs s j) p" for j p
    using that frame(3) [OF that(1), of h32] same [OF that(1)]
    by (auto simp: in_line_def at job_work_def intro: same_trans agree_trans split: job.splits)
  then show "conc_linear h32 h64 c0 s fs Gs \<Longrightarrow> conc_linear h32 h64 c0 s' fs Gs"
    by (elim linear_mono) (simp_all add: s'_def)
qed

section \<open>From the fresh cache\<close>

text \<open>What the sequential cache guarantees after any operations, when its capacity is at least 192.\<close>

definition sc_roomy :: "hash32 \<Rightarrow> hash64 \<Rightarrow> u32 \<Rightarrow> scache \<Rightarrow> bool" where
  "sc_roomy h32 h64 capacity c0 \<longleftrightarrow> (192 \<le> unat capacity \<and> unat capacity + 64 < 2 ^ 32 \<longrightarrow>
     (\<forall>ops. \<exists>K. oks (sc_run h32 h64 ops c0) (\<lambda>(rs, c). cache_ok c K \<and> (\<forall>i < 64. p_free (stripe_view c i) \<noteq> 0))))"

lemma conc_start:
  fixes b :: bool
  assumes new: "sc_new q (default_pct capacity) = Some (Inr c0)" and q: "dq_inv q"
  defines "c \<equiv> sc_set_demotion_queue b c0"
  shows "conc_inv h32 h64 capacity c (stripes_new c)" and "sc_roomy h32 h64 capacity c"
proof -
  obtain st where st: "stripe_new (per_stripe capacity) f32_0_01 f32_0_20 = Some st"
    and sum: "unat (st_window_capacity st) + unat (st_main_capacity st) = max 3 (unat capacity div 64)"
    by (rule default_stripe [of capacity]) blast
  note start = sc_new_ok(1) [OF new q, simplified, OF st, of b, folded c_def] sc_new_ok(2) [OF new q, simplified, OF st]
  have cap: "sl_capacity (sc_slab c) = capacity + 64" using start(2) by (simp add: c_def sc_set_demotion_queue_def)
  obtain fs Gs where rep: "cache_rep c fs Gs" using start(1) by (auto simp: cache_ok_def)
  have view: "view_at c fs Gs i = stripe_view c i" if "i < 64" for i
    using cache_rep_view [OF rep that] by (simp add: view_at_def)
  have pol: "policy_ok (stripe_view c i)" "caps (stripe_view c i) = stripe_caps st b q" if "i < 64" for i
    using start(1) that by (auto simp: cache_ok_def)
  have "fits (Returned r) (view_at c fs Gs i)" if "i < 64" for i r
    using pol(1) [OF that] by (simp add: view [OF that] fits_def policy_ok_def)
  then have "work_ok (shard_at c i) fs (Gs i) (Returned r)" if "i < 64" for i r
    using rep that by (simp add: work_ok_def cache_rep_def shard_ok_def view_at_def)
  then have "cache_work c fs Gs (works (stripes_new c))"
    using rep by (simp add: cache_work_def cache_rep_def held_def stripes_new_def job_work_def)
  moreover have "unat (fst (limits (view_at c fs Gs i))) + unat (snd (limits (view_at c fs Gs i))) \<le> max 3 (unat capacity div 64)"
    if "i < 64" for i
    using pol(2) [OF that] sum by (simp add: view [OF that] limits_def caps_def)
  ultimately have "conc_base h64 capacity (stripes_new c) fs Gs"
    using cap by (simp add: conc_base_def stripes_new_def)
  moreover have "conc_linear h32 h64 c (stripes_new c) fs Gs"
    using view by (simp add: conc_linear_def in_line_def stripes_new_def)
  ultimately show "conc_inv h32 h64 capacity c (stripes_new c)" by (auto simp: conc_inv_def)
  have "\<exists>K. oks (sc_run h32 h64 ops c) (\<lambda>(rs, c). cache_ok c K \<and> (\<forall>i < 64. p_free (stripe_view c i) \<noteq> 0))"
    if big: "192 \<le> unat capacity" "unat capacity + 64 < 2 ^ 32" for ops
  proof -
    obtain K where "oks (sc_run h32 h64 ops c) (\<lambda>(rs, c). sc_good capacity K c)"
      unfolding c_def by (rule sc_reach [OF new q, of h32 h64 ops b])
    then have "oks (sc_run h32 h64 ops c) (\<lambda>(rs, c). cache_ok c K \<and> (\<forall>i < 64. p_free (stripe_view c i) \<noteq> 0))"
      by (rule oks_mono) (use big in \<open>auto simp: sc_good_def\<close>)
    then show ?thesis by blast
  qed
  then show "sc_roomy h32 h64 capacity c" by (simp add: sc_roomy_def)
qed

lemma conc_step:
  assumes inv: "conc_inv h32 h64 capacity c0 s" and step: "stripes_step h32 h64 s s'" and roomy: "sc_roomy h32 h64 capacity c0"
  shows "conc_inv h32 h64 capacity c0 s'"
proof -
  let ?big = "192 \<le> unat capacity \<and> unat capacity + 64 < 2 ^ 32"
  obtain fs Gs where base: "conc_base h64 capacity s fs Gs" and lin: "?big \<longrightarrow> conc_linear h32 h64 c0 s fs Gs"
    using inv by (auto simp: conc_inv_def)
  from step show ?thesis
  proof cases
    case (lock i op)
    show ?thesis
      unfolding lock(1) conc_inv_def
      using inv_lock [OF base lock(2,3)] lin by blast
  next
    case (work i op t t' c)
    have "?big \<Longrightarrow> \<not> refused fs t"
      using base_room [OF base] work(2) by (cases t) (auto simp: refused_def)
    then show ?thesis
      unfolding work(1) conc_inv_def
      using inv_work [OF base work(2-4), of c0] lin by blast
  next
    case (unlock i op r)
    show ?thesis
      unfolding unlock(1) conc_inv_def
      using inv_unlock [OF base unlock(2)] lin roomy unfolding sc_roomy_def by blast
  next
    case (drain n popped batch q)
    show ?thesis
      unfolding drain(1) conc_inv_def
      using inv_drain [OF base drain(2)] lin by blast
  qed
qed

lemma conc_reach:
  assumes new: "sc_new q (default_pct capacity) = Some (Inr c0)" and q: "dq_inv q"
    and reach: "stripes_reach h32 h64 (sc_set_demotion_queue b c0) s"
  shows "conc_inv h32 h64 capacity (sc_set_demotion_queue b c0) s"
  using reach by induction (auto intro: conc_start [OF new q] conc_step)

lemma conc_work_runs:
  assumes "conc_inv h32 h64 capacity c0 s" and "pc_jobs s i = Locked op t"
  shows "oks (with_stripe i (stripe_step h32 t) (pc_cache s)) (\<lambda>_. True)"
proof -
  obtain fs Gs where base: "conc_base h64 capacity s fs Gs" using assms(1) by (auto simp: conc_inv_def)
  have inv: "cache_work (pc_cache s) fs Gs (works s)" and w: "works s i = t"
    using base assms(2) by (simp_all add: conc_base_def job_work_def)
  show ?thesis
    using stripe_moves [OF inv base_locked [OF base assms(2)], of h32] unfolding w by (rule oks_mono) simp
qed

section \<open>The properties\<close>

text \<open>A state of the machine with a put in the middle and a get on another stripe that overtook it.\<close>

lemma with_stripe_result:
  "with_stripe i f c = Some (r, c') \<Longrightarrow> \<exists>v'. f (shard_at c i) = Some (r, v')"
  by (auto simp: with_stripe_def shard_at_def vget_def bind_eq_Some_conv split: if_splits)

lemma start_put_absent:
  "start_put h32 key val v = Some (t, w) \<Longrightarrow> st_index_map (sh_stripe v) key = None \<Longrightarrow> t = Allocating key val"
  by (auto simp: start_put_def count_access_def maybe_decay_cms_def Let_def bind_eq_Some_conv split: option.splits if_splits)

lemma reach_work:
  assumes "conc_inv h32 h64 capacity c0 s" and "stripes_reach h32 h64 c0 s" and "pc_jobs s i = Locked op t" and "\<And>r. t \<noteq> Returned r"
  obtains t' v' c where "stripe_step h32 t (shard_at (pc_cache s) i) = Some (t', v')"
    and "stripes_reach h32 h64 c0 (s\<lparr>pc_cache := c, pc_jobs := (pc_jobs s)(i := Locked op t'),
      pc_steps := (pc_steps s)(i := Suc (pc_steps s i))\<rparr>)"
proof -
  obtain t' c where w: "with_stripe i (stripe_step h32 t) (pc_cache s) = Some (t', c)"
    using conc_work_runs [OF assms(1,3)] by (auto elim!: oksE)
  show ?thesis
    using with_stripe_result [OF w] stripes_reach.step [OF assms(2) stripes_step.work [OF assms(3,4) w]] that by blast
qed

lemma reach_lock:
  "stripes_reach h32 h64 c0 s \<Longrightarrow> pc_jobs s (route h64 (cache_op_key op)) = Unlocked \<Longrightarrow>
   stripes_reach h32 h64 c0 (s\<lparr>pc_jobs := (pc_jobs s)(route h64 (cache_op_key op) := Locked op (Start op)),
     pc_steps := (pc_steps s)(route h64 (cache_op_key op) := 0)\<rparr>)"
  by (rule stripes_reach.step [OF _ stripes_step.lock [OF _ refl]])

lemma demo_running:
  obtains c0 s r where "sc_new (dq_new 4) (default_pct 256) = Some (Inr c0)" and "dq_inv (dq_new 4)"
    and "stripes_reach demo_hash demo_hash64 (sc_set_demotion_queue True c0) s"
    and "pc_jobs s (route demo_hash64 ''a'') = Locked (Put ''a'' ''1'') (Allocating ''a'' ''1'')"
    and "pc_jobs s (route demo_hash64 ''bb'') = Unlocked" and "pc_log s = [(Get ''bb'', r)]"
proof -
  obtain st where st: "stripe_new (per_stripe 256) f32_0_01 f32_0_20 = Some st" by (rule default_stripe)
  obtain c0 where c0: "sc_new (dq_new 4) (default_pct 256) = Some (Inr c0)" "dq_inv (dq_new 4)" by (rule demo_cache)
  let ?c = "sc_set_demotion_queue True c0" and ?i = "route demo_hash64 ''a''" and ?j = "route demo_hash64 ''bb''"
  let ?put = "Put ''a'' ''1''" and ?get = "Get ''bb''"
  have ij: "?i \<noteq> ?j" by (simp add: route_def kNumStripes_def)
  have "sc_stripes ?c = replicate 64 (stripe_set_demotion_queue True st)"
    using c0(1) make_stripes_eq [of "per_stripe 256" "default_pct 256" st] st
    by (auto simp: sc_new_def sc_set_demotion_queue_def split: sum.splits)
  then have idx: "st_index_map (sh_stripe (shard_at ?c ?i)) key = None" for key
    using route_less [of demo_hash64 "''a''"] stripe_new_fields(2) [OF st]
    by (simp add: shard_at_def stripe_set_demotion_queue_def word_less_nat_alt)
  note inv = conc_reach [OF c0, of demo_hash demo_hash64 True]
  have r1: "stripes_reach demo_hash demo_hash64 ?c ((stripes_new ?c)\<lparr>pc_jobs := (pc_jobs (stripes_new ?c))(?i := Locked ?put (Start ?put)),
      pc_steps := (pc_steps (stripes_new ?c))(?i := 0)\<rparr>)" (is "stripes_reach _ _ _ ?s1")
    using reach_lock [OF stripes_reach.start [of demo_hash demo_hash64 ?c], of ?put] by (simp add: stripes_new_def)
  obtain t v c where t: "stripe_step demo_hash (Start ?put) (shard_at (pc_cache ?s1) ?i) = Some (t, v)"
    and r2: "stripes_reach demo_hash demo_hash64 ?c (?s1\<lparr>pc_cache := c, pc_jobs := (pc_jobs ?s1)(?i := Locked ?put t),
      pc_steps := (pc_steps ?s1)(?i := Suc (pc_steps ?s1 ?i))\<rparr>)" (is "stripes_reach _ _ _ ?s2")
    by (rule reach_work [OF inv [OF r1] r1, of ?i ?put "Start ?put"]) simp_all
  have t: "t = Allocating ''a'' ''1''" using t idx by (intro start_put_absent) (simp_all add: stripes_new_def)
  have r3: "stripes_reach demo_hash demo_hash64 ?c (?s2\<lparr>pc_jobs := (pc_jobs ?s2)(?j := Locked ?get (Start ?get)),
      pc_steps := (pc_steps ?s2)(?j := 0)\<rparr>)" (is "stripes_reach _ _ _ ?s3")
    using reach_lock [OF r2, of ?get] ij by (simp add: stripes_new_def)
  obtain u w c' where u: "stripe_step demo_hash (Start ?get) (shard_at (pc_cache ?s3) ?j) = Some (u, w)"
    and r4: "stripes_reach demo_hash demo_hash64 ?c (?s3\<lparr>pc_cache := c', pc_jobs := (pc_jobs ?s3)(?j := Locked ?get u),
      pc_steps := (pc_steps ?s3)(?j := Suc (pc_steps ?s3 ?j))\<rparr>)" (is "stripes_reach _ _ _ ?s4")
    by (rule reach_work [OF inv [OF r3] r3, of ?j ?get "Start ?get"]) simp_all
  obtain r where r: "u = Returned r" using u by auto
  have r5: "stripes_reach demo_hash demo_hash64 ?c (?s4\<lparr>pc_jobs := (pc_jobs ?s4)(?j := Unlocked), pc_log := pc_log ?s4 @ [(?get, r)]\<rparr>)"
    by (rule stripes_reach.step [OF r4 stripes_step.unlock]) (simp add: r)
  show ?thesis by (rule that [OF c0 r5]) (use ij t in \<open>simp_all add: stripes_new_def\<close>)
qed

text \<open>C9. Operations on different stripes never get in each other's way: however the steps of the operations
  running on the 64 stripes and the drainer's batches are interleaved, an operation that holds its
  stripe's lock can always make its next step (no assertion fails, no node index is out of range, whatever
  the other stripes did to the slab and the queue in between), and it returns after at most six steps of
  its own.\<close>

theorem stripes_progress:
  assumes "sc_new q (default_pct capacity) = Some (Inr c0)" and "dq_inv q"
    and "stripes_reach h32 h64 (sc_set_demotion_queue b c0) s" and "pc_jobs s i = Locked op t"
  shows "(\<exists>r. t = Returned r) \<and> pc_steps s i \<le> 6 \<or>
    pc_steps s i < 6 \<and> oks (with_stripe i (stripe_step h32 t) (pc_cache s)) (\<lambda>_. True)"
proof -
  obtain fs Gs where base: "conc_base h64 capacity s fs Gs"
    using conc_reach [OF assms(1-3)] by (auto simp: conc_inv_def)
  have "pc_steps s i + steps_left t (view_at (pc_cache s) fs Gs i) \<le> 6" using base assms(4) by (simp add: conc_base_def)
  moreover have "oks (with_stripe i (stripe_step h32 t) (pc_cache s)) (\<lambda>_. True)"
    by (rule conc_work_runs [OF conc_reach [OF assms(1-3)] assms(4)])
  ultimately show ?thesis by (cases t) auto
qed

theorem stripes_progress_witness:
  "\<exists>c0 s. sc_new (dq_new 4) (default_pct 256) = Some (Inr c0) \<and>
    stripes_reach demo_hash demo_hash64 (sc_set_demotion_queue True c0) s \<and>
    pc_jobs s (route demo_hash64 ''a'') = Locked (Put ''a'' ''1'') (Allocating ''a'' ''1'') \<and>
    pc_steps s (route demo_hash64 ''a'') < 6 \<and>
    oks (with_stripe (route demo_hash64 ''a'') (stripe_step demo_hash (Allocating ''a'' ''1'')) (pc_cache s)) (\<lambda>_. True)"
proof -
  obtain c0 s r where d: "sc_new (dq_new 4) (default_pct 256) = Some (Inr c0)" "dq_inv (dq_new 4)"
    "stripes_reach demo_hash demo_hash64 (sc_set_demotion_queue True c0) s"
    "pc_jobs s (route demo_hash64 ''a'') = Locked (Put ''a'' ''1'') (Allocating ''a'' ''1'')" by (rule demo_running)
  show ?thesis using d(1,3,4) stripes_progress [OF d] by blast
qed

text \<open>C11. The constructor's spare nodes are enough: with a capacity of at least 192 entries, a put that asks the
  slab for a node always gets one, even when all the other 63 stripes are in the middle of a put and each
  holds a node more than its share; \<open>allocate()\<close> never returns \<open>kInvalidIndex\<close> to a stripe.\<close>

theorem stripes_never_exhaust_slab:
  assumes "sc_new q (default_pct capacity) = Some (Inr c0)" and "dq_inv q"
    and "192 \<le> unat capacity" and "unat capacity + 64 < 2 ^ 32"
    and "stripes_reach h32 h64 (sc_set_demotion_queue b c0) s" and "pc_jobs s i = Locked op (Allocating key val)"
  shows "oks (slab_allocate (sc_slab (pc_cache s))) (\<lambda>(idx, _). idx \<noteq> kInvalidIndex) \<and>
    oks (with_stripe i (stripe_step h32 (Allocating key val)) (pc_cache s)) (\<lambda>(t, _). t = Admitting)"
proof -
  let ?c = "pc_cache s"
  obtain fs Gs where base: "conc_base h64 capacity s fs Gs"
    using conc_reach [OF assms(1,2,5)] by (auto simp: conc_inv_def)
  have fs: "fs \<noteq> []" by (rule base_room [OF base assms(6,3,4)])
  have i: "i < 64" by (rule base_locked [OF base assms(6)])
  have v: "work_ok (shard_at ?c i) fs (Gs i) (Allocating key val)"
    using base_ok [OF base i] assms(6) by (simp add: job_work_def)
  then have rep: "shard_rep (shard_at ?c i) fs (Gs i) []" by (simp add: work_ok_def)
  obtain j fs' where j: "fs = j # fs'" using fs by (cases fs) auto
  have "slab_rep (sc_slab ?c) (j # fs')" using shard_rep_slab [OF rep] by (simp add: j shard_at_def)
  moreover have "j \<noteq> kInvalidIndex" by (rule less_invalid [OF shard_rep_bound [OF rep]]) (simp add: foot_def j)
  ultimately have "oks (slab_allocate (sc_slab ?c)) (\<lambda>(idx, _). idx \<noteq> kInvalidIndex)"
    by (auto intro: oks_mono [OF slab_allocate_Cons])
  moreover have "length (sc_stripes ?c) = 64" using base by (simp add: conc_base_def cache_work_def)
  then have "oks (with_stripe i (stripe_step h32 (Allocating key val)) ?c) (\<lambda>(t, _). t = Admitting)"
    using insert_step_ok(2) [OF v fs] i
    by (auto simp: with_stripe_def shard_at_def word_less_nat_alt elim!: oks_mono)
  ultimately show ?thesis by blast
qed

theorem stripes_never_exhaust_slab_witness:
  "\<exists>c0 s. sc_new (dq_new 4) (default_pct 256) = Some (Inr c0) \<and>
    stripes_reach demo_hash demo_hash64 (sc_set_demotion_queue True c0) s \<and>
    pc_jobs s (route demo_hash64 ''a'') = Locked (Put ''a'' ''1'') (Allocating ''a'' ''1'') \<and>
    oks (slab_allocate (sc_slab (pc_cache s))) (\<lambda>(idx, _). idx \<noteq> kInvalidIndex)"
proof -
  obtain c0 s r where d: "sc_new (dq_new 4) (default_pct 256) = Some (Inr c0)" "dq_inv (dq_new 4)"
    "stripes_reach demo_hash demo_hash64 (sc_set_demotion_queue True c0) s"
    "pc_jobs s (route demo_hash64 ''a'') = Locked (Put ''a'' ''1'') (Allocating ''a'' ''1'')" by (rule demo_running)
  show ?thesis using d(1,3,4) stripes_never_exhaust_slab [OF d(1,2) _ _ d(3,4)] by auto
qed

text \<open>C8. The concurrent cache is linearizable. Take any interleaving of the operations of all clients, on all
  stripes, with the drainer (capacity at least 192): running the operations that have returned one after the
  other, in the order of their returns, on the fresh cache gives every one of them the result it had in the
  concurrent run, and leaves every stripe whose lock is free with the same entries in the same recency
  order, the same frequency sketch and the same counters. So what is proved of sequences of operations
  holds of concurrent clients.\<close>

theorem stripes_linearizable:
  assumes "sc_new q (default_pct capacity) = Some (Inr c0)" and "dq_inv q"
    and "192 \<le> unat capacity" and "unat capacity + 64 < 2 ^ 32"
    and "stripes_reach h32 h64 (sc_set_demotion_queue b c0) s"
  shows "oks (sc_run h32 h64 (map fst (pc_log s)) (sc_set_demotion_queue b c0)) (\<lambda>(results, c).
    results = map snd (pc_log s) \<and> (\<forall>i < 64. pc_jobs s i = Unlocked \<longrightarrow> stays c (pc_cache s) i))"
proof -
  obtain fs Gs where base: "conc_base h64 capacity s fs Gs" and lin: "conc_linear h32 h64 (sc_set_demotion_queue b c0) s fs Gs"
    using conc_reach [OF assms(1,2,5)] assms(3,4) by (auto simp: conc_inv_def)
  have view: "stripe_view (pc_cache s) i = view_at (pc_cache s) fs Gs i" if "i < 64" "pc_jobs s i = Unlocked" for i
  proof -
    have "shard_ok (shard_at (pc_cache s) i) fs (Gs i)"
      using base_ok [OF base that(1)] that(2) by (simp add: work_ok_def shard_ok_def job_work_def)
    then show ?thesis using shard_ok_lists by (simp add: stripe_view_def shard_view_def view_at_def)
  qed
  show ?thesis
    by (rule oks_mono [OF lin [unfolded conc_linear_def]])
      (use view in \<open>auto simp: in_line_def stays_def same_def split: job.splits\<close>)
qed

theorem stripes_linearizable_witness:
  "\<exists>c0 s r. sc_new (dq_new 4) (default_pct 256) = Some (Inr c0) \<and>
    stripes_reach demo_hash demo_hash64 (sc_set_demotion_queue True c0) s \<and> pc_log s = [(Get ''bb'', r)] \<and>
    oks (sc_run demo_hash demo_hash64 [Get ''bb''] (sc_set_demotion_queue True c0)) (\<lambda>(results, c).
      results = [r] \<and> stays c (pc_cache s) (route demo_hash64 ''bb''))"
proof -
  obtain c0 s r where d: "sc_new (dq_new 4) (default_pct 256) = Some (Inr c0)" "dq_inv (dq_new 4)"
    "stripes_reach demo_hash demo_hash64 (sc_set_demotion_queue True c0) s"
    "pc_jobs s (route demo_hash64 ''bb'') = Unlocked" "pc_log s = [(Get ''bb'', r)]" by (rule demo_running)
  have lin: "oks (sc_run demo_hash demo_hash64 (map fst (pc_log s)) (sc_set_demotion_queue True c0)) (\<lambda>(results, c).
      results = map snd (pc_log s) \<and> (\<forall>i < 64. pc_jobs s i = Unlocked \<longrightarrow> stays c (pc_cache s) i))"
    by (rule stripes_linearizable [OF d(1,2) _ _ d(3)]) simp_all
  have "oks (sc_run demo_hash demo_hash64 [Get ''bb''] (sc_set_demotion_queue True c0)) (\<lambda>(results, c).
      results = [r] \<and> stays c (pc_cache s) (route demo_hash64 ''bb''))"
    by (rule oks_mono [OF lin [unfolded d(5) list.map fst_conv snd_conv]]) (use d(4) route_less in auto)
  then show ?thesis using d(1,3,5) by blast
qed

end
