(* ===== verification/Drainer_Stop.thy ===== *)
theory Drainer_Stop
  imports Demotion_Drainer
begin

text \<open>
  Stopping the drainer (\<open>src/demotion_drainer.cpp\<close>): any number of threads inside \<open>stop()\<close>, which the
  destructor calls too, while producers push and the drainer's thread runs. A call of \<open>stop()\<close> exchanges
  \<open>running_\<close>, wakes the thread, and joins it if it is joinable; \<open>notify_one\<close> changes no state, since the idle
  loop waits at most a millisecond.
\<close>

datatype stopper = Stop_idle | Stop_exchange | Stop_notify | Stop_join | Stop_return

record stopping =
  st_drainer :: drainer
  st_joinable :: bool
  st_pcs :: "stopper list"

definition stopping_new :: "nat \<Rightarrow> dqueue \<Rightarrow> stopping" where
  "stopping_new n q = \<lparr>st_drainer = drainer_init q, st_joinable = True, st_pcs = replicate n Stop_idle\<rparr>"

inductive stopping_step :: "stopping \<Rightarrow> stopping \<Rightarrow> bool" where
  work: "drainer_step (st_drainer s) d \<Longrightarrow> dr_running d = dr_running (st_drainer s) \<Longrightarrow>
    stopping_step s (s\<lparr>st_drainer := d\<rparr>)"
| call: "t < length (st_pcs s) \<Longrightarrow> st_pcs s ! t = Stop_idle \<Longrightarrow> stopping_step s (s\<lparr>st_pcs := (st_pcs s)[t := Stop_exchange]\<rparr>)"
| exchange_first: "t < length (st_pcs s) \<Longrightarrow> st_pcs s ! t = Stop_exchange \<Longrightarrow> dr_running (st_drainer s) \<Longrightarrow>
    stopping_step s (s\<lparr>st_drainer := (st_drainer s)\<lparr>dr_running := False\<rparr>, st_pcs := (st_pcs s)[t := Stop_notify]\<rparr>)"
| exchange_again: "t < length (st_pcs s) \<Longrightarrow> st_pcs s ! t = Stop_exchange \<Longrightarrow> \<not> dr_running (st_drainer s) \<Longrightarrow>
    stopping_step s (s\<lparr>st_pcs := (st_pcs s)[t := Stop_return]\<rparr>)"
| notify: "t < length (st_pcs s) \<Longrightarrow> st_pcs s ! t = Stop_notify \<Longrightarrow> stopping_step s (s\<lparr>st_pcs := (st_pcs s)[t := Stop_join]\<rparr>)"
| join: "t < length (st_pcs s) \<Longrightarrow> st_pcs s ! t = Stop_join \<Longrightarrow> st_joinable s \<Longrightarrow> dr_pc (st_drainer s) = Finished \<Longrightarrow>
    stopping_step s (s\<lparr>st_joinable := False, st_pcs := (st_pcs s)[t := Stop_return]\<rparr>)"
| not_joinable: "t < length (st_pcs s) \<Longrightarrow> st_pcs s ! t = Stop_join \<Longrightarrow> \<not> st_joinable s \<Longrightarrow>
    stopping_step s (s\<lparr>st_pcs := (st_pcs s)[t := Stop_return]\<rparr>)"
| return_to_caller: "t < length (st_pcs s) \<Longrightarrow> st_pcs s ! t = Stop_return \<Longrightarrow> stopping_step s (s\<lparr>st_pcs := (st_pcs s)[t := Stop_idle]\<rparr>)"

inductive stopping_reachable :: "stopping \<Rightarrow> stopping \<Rightarrow> bool" for s0 where
  init: "stopping_reachable s0 s0"
| step: "stopping_reachable s0 s \<Longrightarrow> stopping_step s s' \<Longrightarrow> stopping_reachable s0 s'"

section \<open>The invariant\<close>

definition joins :: "stopper \<Rightarrow> bool" where
  "joins pc \<longleftrightarrow> pc = Stop_notify \<or> pc = Stop_join"

definition joiners :: "stopping \<Rightarrow> nat" where
  "joiners s = length (filter joins (st_pcs s))"

definition stopping_inv :: "stopping \<Rightarrow> bool" where
  "stopping_inv s \<longleftrightarrow> drainer_inv (st_drainer s) \<and>
     joiners s \<le> 1 \<and> (joiners s = 1 \<longrightarrow> st_joinable s \<and> \<not> dr_running (st_drainer s)) \<and>
     (\<not> st_joinable s \<longrightarrow> dr_pc (st_drainer s) = Finished \<and> \<not> dr_running (st_drainer s)) \<and>
     (dr_running (st_drainer s) \<longrightarrow> st_joinable s) \<and>
     (dr_running (st_drainer s) \<or> joiners s = 1 \<or> \<not> st_joinable s)"

lemma joiners_update:
  "t < length (st_pcs s) \<Longrightarrow> joiners (s\<lparr>st_pcs := (st_pcs s)[t := pc]\<rparr>) + of_bool (joins (st_pcs s ! t)) = joiners s + of_bool (joins pc)"
proof -
  have "length (filter joins (xs[t := pc])) + of_bool (joins (xs ! t)) = length (filter joins xs) + of_bool (joins pc)"
    if "t < length xs" for xs
    using that
  proof (induction xs arbitrary: t)
    case (Cons x xs)
    then show ?case by (cases t) force+
  qed simp
  then show "t < length (st_pcs s) \<Longrightarrow> ?thesis" by (simp add: joiners_def)
qed

lemma joiners_simps [simp]: "joiners (s\<lparr>st_drainer := d\<rparr>) = joiners s" "joiners (s\<lparr>st_joinable := b\<rparr>) = joiners s"
  by (simp_all add: joiners_def)

lemma finished_stays: "drainer_step d d' \<Longrightarrow> dr_pc d = Finished \<Longrightarrow> dr_pc d' = Finished"
  by (erule drainer_step.cases) auto

lemma stopping_step_inv:
  assumes "stopping_step s s'" and "stopping_inv s"
  shows "stopping_inv s'"
  using assms
proof (cases rule: stopping_step.cases)
  case (work d)
  then show ?thesis
    using assms(2) drainer_step_inv [OF work(2)] finished_stays [OF work(2)] by (auto simp: stopping_inv_def)
next
  case (exchange_first t)
  have "drainer_inv ((st_drainer s)\<lparr>dr_running := False\<rparr>)"
    by (rule drainer_step_inv [OF drainer_step.stop]) (use assms(2) in \<open>simp add: stopping_inv_def\<close>)
  then show ?thesis
    using assms(2) exchange_first joiners_update [of t "s\<lparr>st_drainer := (st_drainer s)\<lparr>dr_running := False\<rparr>\<rparr>" Stop_notify]
    by (auto simp: stopping_inv_def joins_def)
next
  case (call t)
  then show ?thesis using assms(2) joiners_update [of t s Stop_exchange] by (auto simp: stopping_inv_def joins_def)
next
  case (exchange_again t)
  then show ?thesis using assms(2) joiners_update [of t s Stop_return] by (auto simp: stopping_inv_def joins_def)
next
  case (notify t)
  then show ?thesis using assms(2) joiners_update [of t s Stop_join] by (auto simp: stopping_inv_def joins_def)
next
  case (join t)
  then show ?thesis using assms(2) joiners_update [of t "s\<lparr>st_joinable := False\<rparr>" Stop_return]
    by (auto simp: stopping_inv_def joins_def)
next
  case (not_joinable t)
  then show ?thesis using assms(2) joiners_update [of t s Stop_return] by (auto simp: stopping_inv_def joins_def)
next
  case (return_to_caller t)
  then show ?thesis using assms(2) joiners_update [of t s Stop_idle] by (auto simp: stopping_inv_def joins_def)
qed

lemma stopping_reachable_inv:
  assumes "stopping_reachable (stopping_new n (dq_new capacity)) s" and "unat capacity \<le> 2 ^ 31"
  shows "stopping_inv s"
  using assms(1)
proof (induction rule: stopping_reachable.induct)
  case init
  show ?case
    using drainer_inv_init [OF dq_new_inv [OF assms(2)]]
    by (auto simp: stopping_inv_def stopping_new_def joiners_def joins_def drainer_init_def)
qed (rule stopping_step_inv)

section \<open>Shutdown ends\<close>

text \<open>The steps of the drainer's own thread are those that move its program counter.\<close>

inductive drainer_run :: "drainer \<Rightarrow> nat \<Rightarrow> nat \<Rightarrow> drainer \<Rightarrow> bool" where
  stay: "drainer_run d 0 0 d"
| own: "drainer_run d m p d' \<Longrightarrow> drainer_step d' d'' \<Longrightarrow> dr_pc d'' \<noteq> dr_pc d' \<Longrightarrow> drainer_run d (Suc m) p d''"
| other: "drainer_run d m p d' \<Longrightarrow> drainer_step d' d'' \<Longrightarrow> dr_pc d'' = dr_pc d' \<Longrightarrow> drainer_run d m (Suc p) d''"

primrec rank :: "drainer_pc \<Rightarrow> nat" where
  "rank Check = 2"
| "rank Pop = 3"
| "rank (Deliver b) = 3"
| "rank Final_pop = 1"
| "rank (Final_deliver b) = 2"
| "rank Finished = 0"

definition work_left :: "drainer \<Rightarrow> nat" where
  "work_left d = 2 * length (dq_items (dr_queue d)) + rank (dr_pc d)"

lemma work_left_step:
  assumes "drainer_step d d'" and "drainer_inv d" and "\<not> dr_running d"
  shows "\<not> dr_running d'" and "dr_pc d' \<noteq> dr_pc d \<Longrightarrow> work_left d' < work_left d" and "work_left d' \<le> work_left d + 2"
proof -
  have q: "dq_inv (dr_queue d)" using assms(2) by (simp add: drainer_inv_def)
  have popped: "length (dq_items q) + (if popped = 0 then 0 else 1) \<le> length (dq_items (dr_queue d))"
    if "dq_try_pop_batch 64 (dr_queue d) [] = Some (popped, batch, q)" for popped batch q
  proof -
    have "length batch + length (dq_items q) = length (dq_items (dr_queue d))" using batch64(2) [OF q that] by (metis length_append)
    moreover have "popped = 0 \<or> 0 < length batch" using batch64(3) [OF q that] by (auto simp: word_gt_0)
    ultimately show ?thesis by (cases "popped = 0"; simp del: length_greater_0_conv)
  qed
  have pushed: "length (dq_items q) \<le> Suc (length (dq_items (dr_queue d)))"
    if "dq_try_push item (dr_queue d) = Some (b, q)" for item b q
    using dq_try_push_ok [OF q, of item] that by (auto split: if_splits)
  show "\<not> dr_running d'" using assms(1,3) by (cases rule: drainer_step.cases) auto
  show "dr_pc d' \<noteq> dr_pc d \<Longrightarrow> work_left d' < work_left d"
    using assms(1,3) by (cases rule: drainer_step.cases) (auto simp: work_left_def word_gt_0 dest!: popped split: if_splits)
  show "work_left d' \<le> work_left d + 2"
    using assms(1,3) by (cases rule: drainer_step.cases) (auto simp: work_left_def dest!: popped pushed)
qed

lemma drainer_run_work:
  assumes "drainer_run d m p d'" and "drainer_inv d" and "\<not> dr_running d"
  shows "drainer_inv d' \<and> \<not> dr_running d' \<and> m + work_left d' \<le> work_left d + 2 * p"
  using assms
proof (induction rule: drainer_run.induct)
  case (own d m p d' d'')
  then show ?case using drainer_step_inv [OF own(2)] work_left_step [OF own(2)] by fastforce
next
  case (other d m p d' d'')
  then show ?case using drainer_step_inv [OF other(2)] work_left_step(1,3) [OF other(2)] by fastforce
qed simp

lemma drainer_progress:
  assumes "drainer_inv d" and "\<not> dr_running d" and "dr_pc d \<noteq> Finished"
  shows "\<exists>d'. drainer_step d d' \<and> dr_pc d' \<noteq> dr_pc d"
proof -
  obtain popped batch q where pop: "dq_try_pop_batch 64 (dr_queue d) [] = Some (popped, batch, q)"
    using dq_try_pop_batch_ok [of "dr_queue d" 64 "[]"] assms(1) by (auto simp: drainer_inv_def elim!: oksE)
  show ?thesis
  proof (cases "dr_pc d")
    case Check
    then show ?thesis using drainer_step.check_stop [OF Check assms(2)] by fastforce
  next
    case Pop
    then show ?thesis
      using drainer_step.pop [OF Pop pop] drainer_step.idle [OF Pop pop] by (cases "popped = 0") (fastforce simp: word_gt_0)+
  next
    case (Deliver b)
    then show ?thesis using drainer_step.deliver [OF Deliver] by fastforce
  next
    case Final_pop
    then show ?thesis
      using drainer_step.final_pop [OF Final_pop pop] drainer_step.final_end [OF Final_pop pop]
      by (cases "popped = 0") (fastforce simp: word_gt_0)+
  next
    case (Final_deliver b)
    then show ?thesis using drainer_step.final_deliver [OF Final_deliver] by fastforce
  qed (use assms(3) in simp)
qed

section \<open>Properties\<close>

text \<open>C18. Shutdown terminates: once \<open>running_\<close> is cleared, the drainer's thread takes at most two steps for every item
  queued then or pushed later and three more, whatever the interleaving with producers, and until it has
  ended it always has a next step.\<close>

theorem drainer_shutdown_terminates:
  assumes "unat capacity \<le> 2 ^ 31" and "drainer_reachable (dq_new capacity) d" and "\<not> dr_running d" and "drainer_run d m p d'"
  shows "m \<le> 2 * (length (dq_items (dr_queue d)) + p) + 3 \<and>
    (dr_pc d' \<noteq> Finished \<longrightarrow> (\<exists>d''. drainer_step d' d'' \<and> dr_pc d'' \<noteq> dr_pc d'))"
proof -
  have inv: "drainer_inv d" by (rule drainer_reachable_inv [OF assms(2) dq_new_inv [OF assms(1)]])
  have run: "drainer_inv d'" "\<not> dr_running d'" "m + work_left d' \<le> work_left d + 2 * p"
    using drainer_run_work [OF assms(4) inv assms(3)] by simp_all
  have "rank (dr_pc d) \<le> 3" by (cases "dr_pc d") simp_all
  then show ?thesis using run drainer_progress [OF run(1,2)] by (simp add: work_left_def)
qed

theorem drainer_shutdown_terminates_witness:
  "\<exists>d d'. drainer_reachable (dq_new 16) d \<and> drainer_run d 1 0 d' \<and> dr_pc d' = Finished \<and> 1 \<le> 2 * (length (dq_items (dr_queue d)) + 0) + 3"
proof -
  let ?d = "(drainer_init (dq_new 16))\<lparr>dr_running := False, dr_pc := Final_pop\<rparr>"
  have run: "drainer_run ?d 1 0 (?d\<lparr>dr_pc := Finished\<rparr>)"
    using drainer_run.own [OF drainer_run.stay drainer_demo_finish(2)] by simp
  have "1 \<le> 2 * (length (dq_items (dr_queue ?d)) + 0) + (3 :: nat)"
    using drainer_shutdown_terminates [OF _ drainer_demo_finish(1) _ run] by simp
  then show ?thesis using drainer_demo_finish(1) run by (intro exI [of _ ?d] exI [of _ "?d\<lparr>dr_pc := Finished\<rparr>"]) simp
qed

text \<open>C19. \<open>stop()\<close> may be called by any number of threads (the destructor is one more call): at most one of them gets as far
  as the join, the thread is then still joinable, so it is joined exactly once; and when that join returns, the thread
  has ended, the queue holds nothing but what was pushed after its end, and everything accepted before was delivered.\<close>

theorem drainer_stop_joins_once:
  assumes "unat capacity \<le> 2 ^ 31" and "stopping_reachable (stopping_new n (dq_new capacity)) s"
  shows "(\<forall>t < length (st_pcs s). \<forall>u < length (st_pcs s). joins (st_pcs s ! t) \<and> joins (st_pcs s ! u) \<longrightarrow> t = u) \<and>
    (\<forall>t < length (st_pcs s). st_pcs s ! t = Stop_join \<longrightarrow> st_joinable s) \<and>
    (\<not> st_joinable s \<longrightarrow> dr_pc (st_drainer s) = Finished \<and>
       dr_accepted (st_drainer s) = concat (dr_log (st_drainer s)) @ dr_late (st_drainer s) \<and>
       dq_items (dr_queue (st_drainer s)) = dr_late (st_drainer s))"
proof -
  have inv: "stopping_inv s" by (rule stopping_reachable_inv [OF assms(2,1)])
  let ?J = "{t. t < length (st_pcs s) \<and> joins (st_pcs s ! t)}"
  have card: "joiners s = card ?J" by (simp add: joiners_def length_filter_conv_card)
  have "card ?J \<le> 1" using inv card by (simp add: stopping_inv_def)
  then have "t = u" if "t \<in> ?J" "u \<in> ?J" for t u using that by (simp add: card_le_Suc0_iff_eq)
  moreover have "st_joinable s" if "t \<in> ?J" for t
  proof -
    have "0 < card ?J" using that by (auto simp: card_gt_0_iff)
    then show ?thesis using inv card by (simp add: stopping_inv_def)
  qed
  moreover have "dr_pc (st_drainer s) = Finished \<and>
      dr_accepted (st_drainer s) = concat (dr_log (st_drainer s)) @ dr_late (st_drainer s) \<and>
      dq_items (dr_queue (st_drainer s)) = dr_late (st_drainer s)" if "\<not> st_joinable s"
  proof -
    have "drainer_inv (st_drainer s)" and fin: "dr_pc (st_drainer s) = Finished" using inv that by (simp_all add: stopping_inv_def)
    then have "dr_accepted (st_drainer s) =
        concat (dr_log (st_drainer s)) @ in_flight (dr_pc (st_drainer s)) @ dq_items (dr_queue (st_drainer s))"
      unfolding drainer_inv_def by blast
    moreover have "dr_late (st_drainer s) = dq_items (dr_queue (st_drainer s))"
      using \<open>drainer_inv (st_drainer s)\<close> fin by (simp add: drainer_inv_def)
    ultimately show ?thesis by (simp add: fin)
  qed
  ultimately show ?thesis unfolding joins_def by blast
qed

lemma stopping_demo:
  "\<exists>s. stopping_reachable (stopping_new 2 (dq_new 16)) s \<and> st_pcs s = [Stop_return, Stop_exchange] \<and> \<not> st_joinable s"
proof -
  let ?q = "dq_new 16" and ?d0 = "drainer_init (dq_new 16)"
  let ?s = "\<lambda>d j pcs. \<lparr>st_drainer = d, st_joinable = j, st_pcs = pcs\<rparr>"
  let ?R = "\<lambda>d j pcs. stopping_reachable (stopping_new 2 ?q) (?s d j pcs)"
  let ?d1 = "?d0\<lparr>dr_running := False\<rparr>"
  let ?d2 = "?d0\<lparr>dr_running := False, dr_pc := Final_pop\<rparr>"
  let ?d3 = "?d2\<lparr>dr_pc := Finished\<rparr>"
  note go = stopping_reachable.step
  have "?R ?d0 True [Stop_idle, Stop_idle]"
    using stopping_reachable.init [of "stopping_new 2 ?q"] by (simp add: stopping_new_def replicate_two)
  from go [OF this stopping_step.call [of 0]] have "?R ?d0 True [Stop_exchange, Stop_idle]" by simp
  from go [OF this stopping_step.call [of 1]] have "?R ?d0 True [Stop_exchange, Stop_exchange]" by simp
  from go [OF this stopping_step.exchange_first [of 0]] have "?R ?d1 True [Stop_notify, Stop_exchange]"
    by (simp add: drainer_init_def)
  from go [OF this stopping_step.notify [of 0]] have r: "?R ?d1 True [Stop_join, Stop_exchange]" by simp
  have "drainer_step ?d1 ?d2" using drainer_step.check_stop [of ?d1] by (simp add: drainer_init_def)
  then have "stopping_step (?s ?d1 True [Stop_join, Stop_exchange]) (?s ?d2 True [Stop_join, Stop_exchange])"
    using stopping_step.work [of "?s ?d1 True [Stop_join, Stop_exchange]" ?d2] by simp
  from go [OF r this] have r2: "?R ?d2 True [Stop_join, Stop_exchange]" .
  have "stopping_step (?s ?d2 True [Stop_join, Stop_exchange]) (?s ?d3 True [Stop_join, Stop_exchange])"
    using stopping_step.work [of "?s ?d2 True [Stop_join, Stop_exchange]" ?d3] drainer_demo_finish(2) by simp
  from go [OF r2 this] have "?R ?d3 True [Stop_join, Stop_exchange]" .
  from go [OF this stopping_step.join [of 0]] have "?R ?d3 False [Stop_return, Stop_exchange]" by simp
  then show ?thesis by (intro exI [of _ "?s ?d3 False [Stop_return, Stop_exchange]"]) simp
qed

theorem drainer_stop_joins_once_witness:
  "\<exists>s. stopping_reachable (stopping_new 2 (dq_new 16)) s \<and> st_pcs s = [Stop_return, Stop_exchange] \<and>
    dr_pc (st_drainer s) = Finished \<and> dr_accepted (st_drainer s) = concat (dr_log (st_drainer s)) @ dr_late (st_drainer s)"
proof -
  obtain s where s: "stopping_reachable (stopping_new 2 (dq_new 16)) s" "st_pcs s = [Stop_return, Stop_exchange]" "\<not> st_joinable s"
    using stopping_demo by blast
  show ?thesis using s drainer_stop_joins_once [OF _ s(1)] by (intro exI [of _ s]) auto
qed

end
