(* ===== verification/Engine_Concurrent.thy ===== *)
theory Engine_Concurrent
  imports Cache_Engine_Run
begin

text \<open>
  Several clients inside the cache engine at once (\<open>src/cache_engine.cpp\<close>). \<open>get\<close>, \<open>put\<close> and \<open>remove\<close> lock
  nothing themselves: each is a sequence of calls into L1, L2 and the backend, and each of those calls
  locks its component for its whole duration, so the calls are the steps. Between two calls of one client
  any number of calls of other clients and of the drainer may happen. A client is a program counter with
  the local variables that are still needed; a history records calls and returns.
\<close>

datatype client =
    Idle
  | Get_l1 string
  | Get_l2 string
  | Get_backend string
  | Get_fill string string
  | Get_return string "string option"
  | Put_backend string string
  | Put_l1 string string
  | Put_return string string bool
  | Remove_l1 string
  | Remove_l2 string bool
  | Remove_backend string bool
  | Remove_return string bool

section \<open>One client\<close>

fun client_step :: "'b backend \<Rightarrow> hash32 \<Rightarrow> hash64 \<Rightarrow> client \<Rightarrow> 'b engine \<Rightarrow> (client \<times> 'b engine) option" where
  "client_step B h32 h64 (Get_l1 key) e = do {
     (l1_result, l1) \<leftarrow> sc_get h32 h64 key (en_l1 e);
     Some (case l1_result of Some val \<Rightarrow> Get_return key (Some val) | None \<Rightarrow> Get_l2 key, e\<lparr>en_l1 := l1\<rparr>)
   }"
| "client_step B h32 h64 (Get_l2 key) e = do {
     (l2_result, e) \<leftarrow> l2_get h64 key e;
     Some (case l2_result of Some val \<Rightarrow> Get_fill key val | None \<Rightarrow> Get_backend key, e)
   }"
| "client_step B h32 h64 (Get_backend key) e =
     (let (backend_result, b) = bk_get B key (en_backend e)
      in Some (case backend_result of Some val \<Rightarrow> Get_fill key val | None \<Rightarrow> Get_return key None, e\<lparr>en_backend := b\<rparr>))"
| "client_step B h32 h64 (Get_fill key val) e = do {
     (_, e) \<leftarrow> l1_put h32 h64 key val e;
     Some (Get_return key (Some val), e)
   }"
| "client_step B h32 h64 (Put_backend key val) e =
     (let (_, b) = bk_put B key val (en_backend e) in Some (Put_l1 key val, e\<lparr>en_backend := b\<rparr>))"
| "client_step B h32 h64 (Put_l1 key val) e = do {
     (r, e) \<leftarrow> l1_put h32 h64 key val e;
     Some (Put_return key val r, e)
   }"
| "client_step B h32 h64 (Remove_l1 key) e = do {
     (in_l1, l1) \<leftarrow> sc_remove h64 key (en_l1 e);
     Some (Remove_l2 key in_l1, e\<lparr>en_l1 := l1\<rparr>)
   }"
| "client_step B h32 h64 (Remove_l2 key in_l1) e = do {
     (_, e) \<leftarrow> with_l2 (l2_index h64 key) (l2_stripe_remove key) e;
     Some (Remove_backend key in_l1, e)
   }"
| "client_step B h32 h64 (Remove_backend key in_l1) e =
     (let (in_backend, b) = bk_remove B key (en_backend e)
      in Some (Remove_return key (in_l1 \<or> in_backend), e\<lparr>en_backend := b\<rparr>))"
| "client_step B h32 h64 _ e = None"

fun client_call :: "engine_op \<Rightarrow> client option" where
  "client_call (E_get key) = Some (Get_l1 key)"
| "client_call (E_put key val) = Some (Put_backend key val)"
| "client_call (E_remove key) = Some (Remove_l1 key)"
| "client_call _ = None"

fun client_return :: "client \<Rightarrow> (engine_op \<times> engine_result) option" where
  "client_return (Get_return key r) = Some (E_get key, Answer r)"
| "client_return (Put_return key val r) = Some (E_put key val, Stored r)"
| "client_return (Remove_return key r) = Some (E_remove key, Removed r)"
| "client_return _ = None"

definition client_runs :: "client \<Rightarrow> bool" where
  "client_runs pc \<longleftrightarrow> pc \<noteq> Idle \<and> client_return pc = None"

text \<open>A client that nobody interrupts, from its call to its return.\<close>

fun client_alone :: "nat \<Rightarrow> 'b backend \<Rightarrow> hash32 \<Rightarrow> hash64 \<Rightarrow> client \<Rightarrow> 'b engine \<Rightarrow> (client \<times> 'b engine) option" where
  "client_alone 0 B h32 h64 pc e = Some (pc, e)"
| "client_alone (Suc n) B h32 h64 pc e =
     (if client_runs pc then do { (pc, e) \<leftarrow> client_step B h32 h64 pc e; client_alone n B h32 h64 pc e }
      else Some (pc, e))"

section \<open>All clients and the drainer\<close>

record 'b clients =
  cl_engine :: "'b engine"
  cl_pcs :: "client list"

definition clients_new :: "nat \<Rightarrow> 'b engine \<Rightarrow> 'b clients" where
  "clients_new n e = \<lparr>cl_engine = e, cl_pcs = replicate n Idle\<rparr>"

datatype client_event = Called nat engine_op | Returned nat engine_op engine_result

fun event_client :: "client_event \<Rightarrow> nat" where
  "event_client (Called c op) = c"
| "event_client (Returned c op r) = c"

text \<open>A schedule says who moves next. A move that is not possible (a call by a busy client, a step of an
  idle one) changes nothing; \<open>None\<close> is a failure of the code.\<close>

datatype move = Invoke nat engine_op | Advance nat | Respond nat | Drainer_pop | Drainer_insert

fun clients_move :: "'b backend \<Rightarrow> hash32 \<Rightarrow> hash64 \<Rightarrow> move \<Rightarrow> 'b clients \<Rightarrow> (client_event list \<times> 'b clients) option" where
  "clients_move B h32 h64 (Invoke c op) s =
     (if c < length (cl_pcs s) \<and> cl_pcs s ! c = Idle
      then (case client_call op of
              None \<Rightarrow> Some ([], s)
            | Some pc \<Rightarrow> Some ([Called c op], s\<lparr>cl_pcs := (cl_pcs s)[c := pc]\<rparr>))
      else Some ([], s))"
| "clients_move B h32 h64 (Advance c) s =
     (if c < length (cl_pcs s) \<and> client_runs (cl_pcs s ! c)
      then do {
        (pc, e) \<leftarrow> client_step B h32 h64 (cl_pcs s ! c) (cl_engine s);
        Some ([], \<lparr>cl_engine = e, cl_pcs = (cl_pcs s)[c := pc]\<rparr>)
      }
      else Some ([], s))"
| "clients_move B h32 h64 (Respond c) s =
     (if c < length (cl_pcs s)
      then (case client_return (cl_pcs s ! c) of
              None \<Rightarrow> Some ([], s)
            | Some (op, r) \<Rightarrow> Some ([Returned c op r], s\<lparr>cl_pcs := (cl_pcs s)[c := Idle]\<rparr>))
      else Some ([], s))"
| "clients_move B h32 h64 Drainer_pop s = do { e \<leftarrow> drain_pop (cl_engine s); Some ([], s\<lparr>cl_engine := e\<rparr>) }"
| "clients_move B h32 h64 Drainer_insert s = do { e \<leftarrow> drain_insert h64 (cl_engine s); Some ([], s\<lparr>cl_engine := e\<rparr>) }"

text \<open>A run, given the history so far.\<close>

fun clients_run :: "'b backend \<Rightarrow> hash32 \<Rightarrow> hash64 \<Rightarrow> move list \<Rightarrow> client_event list \<Rightarrow> 'b clients \<Rightarrow> (client_event list \<times> 'b clients) option" where
  "clients_run B h32 h64 [] hist s = Some (hist, s)"
| "clients_run B h32 h64 (m # ms) hist s = do {
     (evs, s) \<leftarrow> clients_move B h32 h64 m s;
     clients_run B h32 h64 ms (hist @ evs) s
   }"

text \<open>The pairs ever put, and the pairs that some completed operation has shown to be in the store: a put
  that returned, or a get that answered.\<close>

definition put_pairs :: "client_event list \<Rightarrow> (string \<times> string) set" where
  "put_pairs hist = {(k, v). \<exists>c. Called c (E_put k v) \<in> set hist}"

definition shown :: "client_event list \<Rightarrow> (string \<times> string) set" where
  "shown hist = {(k, v). (\<exists>c r. Returned c (E_put k v) r \<in> set hist) \<or> (\<exists>c. Returned c (E_get k) (Answer (Some v)) \<in> set hist)}"

definition called_put_keys :: "client_event list \<Rightarrow> string list" where
  "called_put_keys hist = concat (map (\<lambda>ev. case ev of Called c (E_put k v) \<Rightarrow> [k] | _ \<Rightarrow> []) hist)"

lemma put_pairs_simps [simp]:
  "put_pairs [] = {}" "put_pairs (hist @ evs) = put_pairs hist \<union> put_pairs evs"
  "put_pairs [Called c op] = (case op of E_put k v \<Rightarrow> {(k, v)} | _ \<Rightarrow> {})" "put_pairs [Returned c op r] = {}"
  by (auto simp: put_pairs_def split: engine_op.splits)

section \<open>Steps of one client on the engine\<close>

text \<open>The values a client carries to a place where others can read them, and the values it has already
  read.\<close>

fun writes :: "client \<Rightarrow> (string \<times> string) set" where
  "writes (Get_fill key val) = {(key, val)}"
| "writes (Put_l1 key val) = {(key, val)}"
| "writes _ = {}"

fun carries :: "client \<Rightarrow> (string \<times> string) set" where
  "carries (Get_fill key val) = {(key, val)}"
| "carries (Get_return key (Some val)) = {(key, val)}"
| "carries (Put_l1 key val) = {(key, val)}"
| "carries (Put_return key val r) = {(key, val)}"
| "carries _ = {}"

fun client_effect :: "client \<Rightarrow> (string \<rightharpoonup> string) \<Rightarrow> (string \<rightharpoonup> string)" where
  "client_effect (Put_backend key val) w = w(key \<mapsto> val)"
| "client_effect (Remove_backend key in_l1) w = w(key := None)"
| "client_effect _ w = w"

lemma engine_inv_backend [simp]: "engine_inv h64 K (e\<lparr>en_backend := b\<rparr>) = engine_inv h64 K e"
  by (simp add: engine_inv_def)

lemma holds_backend [simp]: "holds h64 (e\<lparr>en_backend := b\<rparr>) = holds h64 e"
  by (simp add: holds_def waits_def pending_def fun_eq_iff)

lemma l2_only_holds:
  assumes "l2_only e e'" and "l2_lookup h64 e' = (l2_lookup h64 e)(key := None)" and "holds h64 e' k v"
  shows "holds h64 e k v"
  using assms(3) l2_only_simps [OF assms(1)] by (auto simp: holds_def assms(2) split: if_splits)

lemma l2_only_inv: "l2_only e e' \<Longrightarrow> l2_ok h64 e' \<Longrightarrow> engine_inv h64 K e \<Longrightarrow> engine_inv h64 K e'"
  by (simp add: engine_inv_def l2_only_simps)

text \<open>Every answer of a history is a pair of \<open>S\<close> or was put before.\<close>

definition answers_put :: "(string \<times> string) set \<Rightarrow> client_event list \<Rightarrow> bool" where
  "answers_put S hist \<longleftrightarrow>
     (\<forall>hist1 c k v hist2. hist = hist1 @ Returned c (E_get k) (Answer (Some v)) # hist2 \<longrightarrow> (k, v) \<in> S \<union> put_pairs hist1)"

lemma answers_put_snoc:
  assumes "answers_put S hist" and "length evs \<le> 1"
    and "\<And>c k v. Returned c (E_get k) (Answer (Some v)) \<in> set evs \<Longrightarrow> (k, v) \<in> S \<union> put_pairs hist"
  shows "answers_put S (hist @ evs)"
proof (cases evs)
  case (Cons ev evs')
  then have evs: "evs = [ev]" using assms(2) by simp
  show ?thesis
    unfolding answers_put_def evs
  proof (intro allI impI)
    fix hist1 c k v hist2
    assume "hist @ [ev] = hist1 @ Returned c (E_get k) (Answer (Some v)) # hist2"
    then show "(k, v) \<in> S \<union> put_pairs hist1"
      using assms(1,3) evs unfolding answers_put_def by (cases hist2 rule: rev_cases) auto
  qed
qed (use assms(1) in simp)

context kv_store
begin

lemma client_step_ok:
  assumes inv: "engine_inv h64 K e" and runs: "client_runs pc"
  obtains pc' e' where "client_step B h32 h64 pc e = Some (pc', e')" and "engine_inv h64 K e'"
    and "content (en_backend e') = client_effect pc (content (en_backend e))"
    and "\<And>k v. holds h64 e' k v \<Longrightarrow> holds h64 e k v \<or> (k, v) \<in> writes pc"
    and "\<And>k v. (k, v) \<in> carries pc' \<Longrightarrow> (k, v) \<in> carries pc \<or> holds h64 e k v \<or> content (en_backend e') k = Some v"
    and "\<And>key. pc' = Get_return key None \<Longrightarrow> pc = Get_backend key \<and> content (en_backend e) key = None"
    and "\<And>k v. pc' \<noteq> Put_backend k v"
proof (cases pc)
  case (Get_l1 key)
  have l1: "l1_ok h64 K (en_l1 e)" using inv by (simp add: engine_inv_def)
  obtain c where c: "sc_get h32 h64 key (en_l1 e) = Some (sc_lookup h64 (en_l1 e) key, c)" "l1_ok h64 K c"
      "sc_lookup h64 c = sc_lookup h64 (en_l1 e)" "sc_items c = sc_items (en_l1 e)"
    using sc_get_flow [OF l1, of h32 key] by (auto elim!: oksE)
  let ?e = "e\<lparr>en_l1 := c\<rparr>"
  have "holds h64 ?e = holds h64 e" by (simp add: holds_def waits_def pending_def c(3,4) fun_eq_iff)
  moreover have "engine_inv h64 K ?e" using inv c(2) by (simp add: engine_inv_def)
  ultimately show ?thesis
    by (intro that [of "case sc_lookup h64 (en_l1 e) key of Some val \<Rightarrow> Get_return key (Some val) | None \<Rightarrow> Get_l2 key" ?e])
      (auto simp: Get_l1 c(1) holds_def split: option.splits)
next
  case (Get_l2 key)
  have l2: "l2_ok h64 e" using inv by (simp add: engine_inv_def)
  obtain e2 where e2: "l2_get h64 key e = Some (l2_lookup h64 e key, e2)" "l2_ok h64 e2" "l2_only e e2"
      "l2_lookup h64 e2 = (l2_lookup h64 e)(key := None)"
    by (rule l2_get_ok [OF l2, of key]) (rule that; assumption)
  show ?thesis
    by (rule that [of "case l2_lookup h64 e key of Some val \<Rightarrow> Get_fill key val | None \<Rightarrow> Get_backend key" e2])
      (use l2_only_inv [OF e2(3,2) inv] l2_only_holds [OF e2(3,4)] l2_only_simps(2) [OF e2(3)]
        in \<open>auto simp: Get_l2 e2(1) holds_def split: option.splits\<close>)
next
  case (Get_backend key)
  obtain b where b: "bk_get B key (en_backend e) = (content (en_backend e) key, b)" "content b = content (en_backend e)"
    using get_law [of key "en_backend e"] by (cases "bk_get B key (en_backend e)") simp
  show ?thesis
    by (rule that [of "case content (en_backend e) key of Some val \<Rightarrow> Get_fill key val | None \<Rightarrow> Get_return key None" "e\<lparr>en_backend := b\<rparr>"])
      (use inv in \<open>auto simp: Get_backend b split: option.splits\<close>)
next
  case (Get_fill key val)
  obtain r e' where e': "l1_put h32 h64 key val e = Some (r, e')" "engine_inv h64 K e'" "en_backend e' = en_backend e"
      "\<And>k v. holds h64 e' k v \<Longrightarrow> k = key \<and> v = val \<or> holds h64 e k v"
    by (rule l1_put_ok [OF inv, of h32 key val]) (rule that; assumption)
  show ?thesis
    by (rule that [of "Get_return key (Some val)" e']) (use e' in \<open>auto simp: Get_fill\<close>)
next
  case (Put_l1 key val)
  obtain r e' where e': "l1_put h32 h64 key val e = Some (r, e')" "engine_inv h64 K e'" "en_backend e' = en_backend e"
      "\<And>k v. holds h64 e' k v \<Longrightarrow> k = key \<and> v = val \<or> holds h64 e k v"
    by (rule l1_put_ok [OF inv, of h32 key val]) (rule that; assumption)
  show ?thesis
    by (rule that [of "Put_return key val r" e']) (use e' in \<open>auto simp: Put_l1\<close>)
next
  case (Put_backend key val)
  obtain r b where b: "bk_put B key val (en_backend e) = (r, b)" by fastforce
  show ?thesis
    by (rule that [of "Put_l1 key val" "e\<lparr>en_backend := b\<rparr>"])
      (use inv put_law [of key val "en_backend e"] in \<open>auto simp: Put_backend b\<close>)
next
  case (Remove_l1 key)
  have l1: "l1_ok h64 K (en_l1 e)" using inv by (simp add: engine_inv_def)
  obtain c where c: "sc_remove h64 key (en_l1 e) = Some (sc_lookup h64 (en_l1 e) key \<noteq> None, c)" "l1_ok h64 K c"
      "sc_lookup h64 c = (sc_lookup h64 (en_l1 e))(key := None)" "sc_items c = sc_items (en_l1 e)"
    using sc_remove_flow [OF l1, of key] by (auto elim!: oksE)
  show ?thesis
    by (rule that [of "Remove_l2 key (sc_lookup h64 (en_l1 e) key \<noteq> None)" "e\<lparr>en_l1 := c\<rparr>"])
      (use inv c(2) in \<open>auto simp: Remove_l1 c(1,3,4) engine_inv_def holds_def waits_def pending_def split: if_splits\<close>)
next
  case (Remove_l2 key in_l1)
  have l2: "l2_ok h64 e" using inv by (simp add: engine_inv_def)
  obtain e2 where e2: "with_l2 (l2_index h64 key) (l2_stripe_remove key) e = Some ((), e2)" "l2_ok h64 e2" "l2_only e e2"
      "l2_lookup h64 e2 = (l2_lookup h64 e)(key := None)"
    by (rule l2_remove_ok [OF l2, of key]) (rule that; assumption)
  show ?thesis
    by (rule that [of "Remove_backend key in_l1" e2])
      (use l2_only_inv [OF e2(3,2) inv] l2_only_holds [OF e2(3,4)] l2_only_simps(2) [OF e2(3)] in \<open>auto simp: Remove_l2 e2(1)\<close>)
next
  case (Remove_backend key in_l1)
  obtain r b where b: "bk_remove B key (en_backend e) = (r, b)" by fastforce
  show ?thesis
    by (rule that [of "Remove_return key (in_l1 \<or> r)" "e\<lparr>en_backend := b\<rparr>"])
      (use inv remove_law(2) [of key "en_backend e"] in \<open>auto simp: Remove_backend b\<close>)
qed (use runs in \<open>simp_all add: client_runs_def\<close>)

text \<open>What every move keeps, whatever the clients do: copies, values in flight and the store itself are
  pairs of \<open>S\<close>.\<close>

definition known :: "hash64 \<Rightarrow> (string \<times> string) set \<Rightarrow> 'b clients \<Rightarrow> bool" where
  "known h64 S s \<longleftrightarrow>
     (\<forall>k v. holds h64 (cl_engine s) k v \<longrightarrow> (k, v) \<in> S) \<and>
     (\<forall>k v. content (en_backend (cl_engine s)) k = Some v \<longrightarrow> (k, v) \<in> S) \<and>
     (\<forall>pc \<in> set (cl_pcs s). carries pc \<subseteq> S \<and> (\<forall>k v. pc = Put_backend k v \<longrightarrow> (k, v) \<in> S))"

lemma client_call_carries: "client_call op = Some pc \<Longrightarrow> carries pc = {}"
  by (cases op) auto

lemma client_return_answer: "client_return pc = Some (E_get k, Answer (Some v)) \<Longrightarrow> (k, v) \<in> carries pc"
  by (cases pc) auto

lemma set_update_elim: "x \<in> set (xs[i := y]) \<Longrightarrow> (x = y \<Longrightarrow> P) \<Longrightarrow> (x \<in> set xs \<Longrightarrow> P) \<Longrightarrow> P"
  using set_update_subset_insert [of xs i y] by auto

lemma known_advance:
  assumes inv: "engine_inv h64 K (cl_engine s)" and known: "known h64 S s"
    and c: "c < length (cl_pcs s)" and runs: "client_runs (cl_pcs s ! c)"
  shows "oks (clients_move B h32 h64 (Advance c) s) (\<lambda>(evs, s'). engine_inv h64 K (cl_engine s') \<and> known h64 S s' \<and> evs = [])"
proof -
  let ?pc = "cl_pcs s ! c"
  obtain pc' e' where e': "client_step B h32 h64 ?pc (cl_engine s) = Some (pc', e')" "engine_inv h64 K e'"
      "content (en_backend e') = client_effect ?pc (content (en_backend (cl_engine s)))"
      "\<And>k v. holds h64 e' k v \<Longrightarrow> holds h64 (cl_engine s) k v \<or> (k, v) \<in> writes ?pc"
      "\<And>k v. (k, v) \<in> carries pc' \<Longrightarrow> (k, v) \<in> carries ?pc \<or> holds h64 (cl_engine s) k v \<or> content (en_backend e') k = Some v"
      "\<And>k v. pc' \<noteq> Put_backend k v"
    by (rule client_step_ok [OF inv runs, of h32]) (rule that; assumption)
  have pc: "?pc \<in> set (cl_pcs s)" using c by simp
  have "writes ?pc \<subseteq> carries ?pc" by (cases ?pc) auto
  then have w: "writes ?pc \<subseteq> S" using known pc unfolding known_def by blast
  have content: "(k, v) \<in> S" if "content (en_backend e') k = Some v" for k v
    using that known pc unfolding e'(3) known_def by (cases ?pc) (auto split: if_splits)
  have "(k, v) \<in> S" if "(k, v) \<in> carries pc'" for k v
    using e'(5) [OF that] content [of k v] known pc unfolding known_def by blast
  then have new: "carries pc' \<subseteq> S" by auto
  have "known h64 S \<lparr>cl_engine = e', cl_pcs = (cl_pcs s)[c := pc']\<rparr>"
    unfolding known_def
  proof (intro conjI allI impI ballI)
    show "(k, v) \<in> S" if "holds h64 (cl_engine \<lparr>cl_engine = e', cl_pcs = (cl_pcs s)[c := pc']\<rparr>) k v" for k v
      using e'(4) [of k v] that w known unfolding known_def by auto
    fix q assume q: "q \<in> set (cl_pcs \<lparr>cl_engine = e', cl_pcs = (cl_pcs s)[c := pc']\<rparr>)"
    then show "carries q \<subseteq> S"
      using new known unfolding known_def by (auto elim!: set_update_elim)
    show "(k, v) \<in> S" if "q = Put_backend k v" for k v
    proof -
      have "q \<in> set (cl_pcs s)" using q that e'(6) [of k v] by (auto elim!: set_update_elim)
      then show ?thesis using that known unfolding known_def by blast
    qed
  qed (use content in simp)
  then show ?thesis using c runs e'(1,2) by simp
qed

lemma known_idle: "known h64 S s \<Longrightarrow> known h64 S (s\<lparr>cl_pcs := (cl_pcs s)[c := Idle]\<rparr>)"
  unfolding known_def by (auto elim!: set_update_elim)

lemma known_engine:
  assumes "known h64 S s" and "content (en_backend e) = content (en_backend (cl_engine s))"
    and "\<And>k v. holds h64 e k v \<Longrightarrow> holds h64 (cl_engine s) k v"
  shows "known h64 S (s\<lparr>cl_engine := e\<rparr>)"
  using assms unfolding known_def by auto

lemma clients_move_known:
  assumes inv: "engine_inv h64 K (cl_engine s)" and known: "known h64 S s"
  shows "oks (clients_move B h32 h64 m s) (\<lambda>(evs, s'). engine_inv h64 K (cl_engine s') \<and> known h64 (S \<union> put_pairs evs) s' \<and>
    length evs \<le> 1 \<and> (\<forall>c k v. Returned c (E_get k) (Answer (Some v)) \<in> set evs \<longrightarrow> (k, v) \<in> S))"
proof (cases m)
  case (Advance c)
  show ?thesis
    using known_advance [OF inv known] inv known by (cases "c < length (cl_pcs s) \<and> client_runs (cl_pcs s ! c)")
      (auto simp: Advance elim!: oks_mono)
next
  case (Invoke c op)
  have "known h64 (S \<union> put_pairs [Called c op]) (s\<lparr>cl_pcs := (cl_pcs s)[c := pc]\<rparr>)" if "client_call op = Some pc" for pc
    using known that unfolding known_def by (cases op) (fastforce elim: set_update_elim)+
  then show ?thesis using inv known by (auto simp: Invoke split: option.splits)
next
  case (Respond c)
  have "(k, v) \<in> S" if "c < length (cl_pcs s)" "client_return (cl_pcs s ! c) = Some (E_get k, Answer (Some v))" for k v
    using client_return_answer [OF that(2)] that(1) known unfolding known_def by (metis in_mono nth_mem)
  then show ?thesis using inv known known_idle [OF known] by (auto simp: Respond split: option.splits)
next
  case Drainer_pop
  obtain e' where e': "drain_pop (cl_engine s) = Some e'" "engine_inv h64 K e'" "en_backend e' = en_backend (cl_engine s)"
      "pending e' = pending (cl_engine s)" "sc_lookup h64 (en_l1 e') = sc_lookup h64 (en_l1 (cl_engine s))"
      "l2_lookup h64 e' = l2_lookup h64 (cl_engine s)"
    by (rule drain_pop_ok [OF inv]) (rule that; assumption)
  have "holds h64 e' = holds h64 (cl_engine s)" using e'(4-6) by (simp add: holds_def waits_def fun_eq_iff)
  then show ?thesis using known_engine [OF known, of e'] e'(1-3) by (simp add: Drainer_pop)
next
  case Drainer_insert
  obtain e' where e': "drain_insert h64 (cl_engine s) = Some e'" "engine_inv h64 K e'" "en_backend e' = en_backend (cl_engine s)"
      "\<And>k v. holds h64 e' k v \<Longrightarrow> holds h64 (cl_engine s) k v"
    by (rule drain_insert_ok [OF inv]) (rule that; assumption)
  then show ?thesis using known_engine [OF known, of e'] by (simp add: Drainer_insert)
qed

lemma clients_run_known:
  assumes "engine_inv h64 K (cl_engine s)" and "known h64 (S \<union> put_pairs hist) s" and "answers_put S hist"
  shows "oks (clients_run B h32 h64 ms hist s) (\<lambda>(hist', s'). engine_inv h64 K (cl_engine s') \<and>
    known h64 (S \<union> put_pairs hist') s' \<and> answers_put S hist')"
  using assms
proof (induction ms arbitrary: hist s)
  case (Cons m ms)
  show ?case
    unfolding clients_run.simps oks_bind
    by (rule oks_mono [OF clients_move_known [OF Cons.prems(1,2)]])
      (auto intro!: Cons.IH answers_put_snoc [OF Cons.prems(3)] simp: Un_assoc)
qed simp

end

section \<open>Keys that are written once\<close>

lemma called_put_keys_simps [simp]:
  "called_put_keys [] = []" "called_put_keys (hist @ evs) = called_put_keys hist @ called_put_keys evs"
  "called_put_keys [Called c op] = (case op of E_put k v \<Rightarrow> [k] | _ \<Rightarrow> [])" "called_put_keys [Returned c op r] = []"
  by (auto simp: called_put_keys_def split: engine_op.splits)

lemma shown_append [simp]: "shown (hist @ evs) = shown hist \<union> shown evs"
  by (auto simp: shown_def)

lemma shown_simps [simp]: "shown [] = {}" "shown [Called c op] = {}"
  by (auto simp: shown_def)

lemma shown_return: "client_return pc = Some (op, r) \<Longrightarrow> shown [Returned c op r] = carries pc"
  by (cases pc rule: carries.cases) (auto simp: shown_def)

text \<open>A get that missed everything was called before anybody had shown a value for its key.\<close>

definition missed_ok :: "client_event list \<Rightarrow> nat \<Rightarrow> string \<Rightarrow> bool" where
  "missed_ok hist c key \<longleftrightarrow>
     (\<forall>hist1 hist2 v. hist = hist1 @ Called c (E_get key) # hist2 \<and> (\<forall>ev \<in> set hist2. event_client ev \<noteq> c) \<longrightarrow> (key, v) \<notin> shown hist1)"

definition answers_shown :: "client_event list \<Rightarrow> bool" where
  "answers_shown hist \<longleftrightarrow>
     (\<forall>hist1 c k hist2 r hist3 v.
        hist = hist1 @ [Called c (E_get k)] @ hist2 @ [Returned c (E_get k) (Answer r)] @ hist3 \<and>
        (\<forall>ev \<in> set hist2. event_client ev \<noteq> c) \<and> (k, v) \<in> shown hist1 \<longrightarrow> r = Some v)"

lemma missed_ok_snoc:
  assumes "missed_ok hist c key" and "event_client ev \<noteq> c"
  shows "missed_ok (hist @ [ev]) c key"
  unfolding missed_ok_def
proof (intro allI impI, elim conjE)
  fix hist1 hist2 v
  assume "hist @ [ev] = hist1 @ Called c (E_get key) # hist2" "\<forall>ev \<in> set hist2. event_client ev \<noteq> c"
  then show "(key, v) \<notin> shown hist1"
    using assms unfolding missed_ok_def by (cases hist2 rule: rev_cases) auto
qed

lemma missed_ok_shown: "(\<And>v. (key, v) \<notin> shown hist) \<Longrightarrow> missed_ok hist c key"
  by (auto simp: missed_ok_def)

lemma answers_shown_snoc:
  assumes "answers_shown hist"
    and "\<And>c k r hist1 hist2 v. ev = Returned c (E_get k) (Answer r) \<Longrightarrow> hist = hist1 @ Called c (E_get k) # hist2 \<Longrightarrow>
      \<forall>ev \<in> set hist2. event_client ev \<noteq> c \<Longrightarrow> (k, v) \<in> shown hist1 \<Longrightarrow> r = Some v"
  shows "answers_shown (hist @ [ev])"
  unfolding answers_shown_def
proof (intro allI impI, elim conjE)
  fix hist1 c k hist2 r hist3 v
  assume eq: "hist @ [ev] = hist1 @ [Called c (E_get k)] @ hist2 @ [Returned c (E_get k) (Answer r)] @ hist3"
    and other: "\<forall>ev \<in> set hist2. event_client ev \<noteq> c" and sh: "(k, v) \<in> shown hist1"
  show "r = Some v"
  proof (cases hist3 rule: rev_cases)
    case Nil
    then show ?thesis using eq assms(2) [of c k r hist1 hist2 v] other sh by simp
  next
    case (snoc hist3' x)
    then have "hist = hist1 @ [Called c (E_get k)] @ hist2 @ [Returned c (E_get k) (Answer r)] @ hist3'"
      using eq by simp
    then show ?thesis using assms(1) other sh unfolding answers_shown_def by blast
  qed
qed

text \<open>Of one client: the values it carries are in the store; a put that has not written yet is alone with
  its key; it removes nothing.\<close>

definition client_settled :: "(string \<rightharpoonup> string) \<Rightarrow> client_event list \<Rightarrow> client list \<Rightarrow> nat \<Rightarrow> bool" where
  "client_settled w hist pcs c \<longleftrightarrow>
     (\<forall>k v. (k, v) \<in> carries (pcs ! c) \<longrightarrow> w k = Some v) \<and>
     (\<forall>k v. pcs ! c = Put_backend k v \<longrightarrow> w k = None \<and> k \<in> set (called_put_keys hist) \<and>
        (\<forall>d < length pcs. \<forall>v'. d \<noteq> c \<longrightarrow> pcs ! d \<noteq> Put_backend k v')) \<and>
     (\<forall>k i. pcs ! c \<noteq> Remove_backend k i \<and> pcs ! c \<noteq> Remove_l2 k i \<and> pcs ! c \<noteq> Remove_l1 k) \<and>
     (\<forall>k. pcs ! c = Get_return k None \<longrightarrow> missed_ok hist c k)"

lemma client_settledD:
  assumes "client_settled w hist pcs c"
  shows "(k, v) \<in> carries (pcs ! c) \<Longrightarrow> w k = Some v"
    and "pcs ! c = Put_backend k v \<Longrightarrow> w k = None \<and> k \<in> set (called_put_keys hist)"
    and "pcs ! c = Put_backend k v \<Longrightarrow> d < length pcs \<Longrightarrow> d \<noteq> c \<Longrightarrow> pcs ! d \<noteq> Put_backend k v'"
    and "pcs ! c \<noteq> Remove_backend k i" and "pcs ! c \<noteq> Remove_l2 k i" and "pcs ! c \<noteq> Remove_l1 k"
    and "pcs ! c = Get_return k None \<Longrightarrow> missed_ok hist c k"
  using assms unfolding client_settled_def by blast+

lemma client_settled_frame:
  assumes "client_settled w hist pcs d" and "d \<noteq> c" and "d < length pcs" and "c < length pcs"
    and "\<And>k v. w k = Some v \<Longrightarrow> w' k = Some v"
    and "\<And>k v. pcs ! d = Put_backend k v \<Longrightarrow> w' k = None \<and> (\<forall>v'. pc \<noteq> Put_backend k v')"
    and "set (called_put_keys hist) \<subseteq> set (called_put_keys hist')"
    and "\<And>k. missed_ok hist d k \<Longrightarrow> missed_ok hist' d k"
  shows "client_settled w' hist' (pcs[c := pc]) d"
  unfolding client_settled_def
proof (intro conjI allI impI)
  show "w' k = Some v" if "(k, v) \<in> carries (pcs[c := pc] ! d)" for k v
    using that client_settledD(1) [OF assms(1)] assms(2,5) by simp
  show "w' k = None" "k \<in> set (called_put_keys hist')" if "pcs[c := pc] ! d = Put_backend k v" for k v
    using that client_settledD(2) [OF assms(1), of k v] assms(2,6,7) by auto
  show "pcs[c := pc] ! e \<noteq> Put_backend k v'"
    if "pcs[c := pc] ! d = Put_backend k v" "e < length (pcs[c := pc])" "e \<noteq> d" for k v e v'
    using that client_settledD(3) [OF assms(1), of k v e v'] assms(2,4,6) by (cases "e = c") auto
  show "missed_ok hist' d k" if "pcs[c := pc] ! d = Get_return k None" for k
    using that client_settledD(7) [OF assms(1), of k] assms(2,8) by simp
qed (use client_settledD(4-6) [OF assms(1)] assms(2) in simp_all)

context kv_store
begin

text \<open>Only keys whose put has been called are in the store, and every copy and every value shown agrees
  with it.\<close>

definition settled :: "hash64 \<Rightarrow> client_event list \<Rightarrow> 'b clients \<Rightarrow> bool" where
  "settled h64 hist s \<longleftrightarrow>
     (\<forall>k v. holds h64 (cl_engine s) k v \<longrightarrow> content (en_backend (cl_engine s)) k = Some v) \<and>
     (\<forall>k v. (k, v) \<in> shown hist \<longrightarrow> content (en_backend (cl_engine s)) k = Some v) \<and>
     dom (content (en_backend (cl_engine s))) \<subseteq> set (called_put_keys hist) \<and>
     (\<forall>c < length (cl_pcs s). client_settled (content (en_backend (cl_engine s))) hist (cl_pcs s) c) \<and>
     answers_shown hist"

lemma settledD:
  assumes "settled h64 hist s"
  shows "holds h64 (cl_engine s) k v \<Longrightarrow> content (en_backend (cl_engine s)) k = Some v"
    and "(k, v) \<in> shown hist \<Longrightarrow> content (en_backend (cl_engine s)) k = Some v"
    and "dom (content (en_backend (cl_engine s))) \<subseteq> set (called_put_keys hist)"
    and "c < length (cl_pcs s) \<Longrightarrow> client_settled (content (en_backend (cl_engine s))) hist (cl_pcs s) c"
    and "answers_shown hist"
  using assms unfolding settled_def by blast+

lemma settled_advance:
  assumes inv: "engine_inv h64 K (cl_engine s)" and settled: "settled h64 hist s"
    and c: "c < length (cl_pcs s)" and runs: "client_runs (cl_pcs s ! c)"
  shows "oks (clients_move B h32 h64 (Advance c) s) (\<lambda>(evs, s'). engine_inv h64 K (cl_engine s') \<and> settled h64 hist s' \<and> evs = [])"
proof -
  let ?pc = "cl_pcs s ! c" and ?w = "content (en_backend (cl_engine s))"
  obtain pc' e' where e': "client_step B h32 h64 ?pc (cl_engine s) = Some (pc', e')" "engine_inv h64 K e'"
      "content (en_backend e') = client_effect ?pc ?w"
      "\<And>k v. holds h64 e' k v \<Longrightarrow> holds h64 (cl_engine s) k v \<or> (k, v) \<in> writes ?pc"
      "\<And>k v. (k, v) \<in> carries pc' \<Longrightarrow> (k, v) \<in> carries ?pc \<or> holds h64 (cl_engine s) k v \<or> content (en_backend e') k = Some v"
      "\<And>key. pc' = Get_return key None \<Longrightarrow> ?pc = Get_backend key \<and> ?w key = None"
      "\<And>k v. pc' \<noteq> Put_backend k v"
    by (rule client_step_ok [OF inv runs, of h32]) (rule that; assumption)
  note me = client_settledD [OF settledD(4) [OF settled c]]
  have up: "content (en_backend e') k = Some v" if "?w k = Some v" for k v
    using that me(2) me(4) unfolding e'(3) by (cases ?pc) auto
  have "writes ?pc \<subseteq> carries ?pc" by (cases ?pc) auto
  then have "content (en_backend e') k = Some v" if "holds h64 e' k v" for k v
    using e'(4) [OF that] settledD(1) [OF settled] me(1) up by blast
  moreover have "dom (content (en_backend e')) \<subseteq> set (called_put_keys hist)"
    using settledD(3) [OF settled] me(2) unfolding e'(3) by (cases ?pc) auto
  moreover have "client_settled (content (en_backend e')) hist ((cl_pcs s)[c := pc']) d" if d: "d < length (cl_pcs s)" for d
  proof (cases "d = c")
    case True
    have "pc' \<noteq> Remove_backend k i \<and> pc' \<noteq> Remove_l2 k i \<and> pc' \<noteq> Remove_l1 k" for k i
      using e'(1) me(4-6) runs
      by (cases ?pc) (auto simp: client_runs_def case_prod_beta Let_def split: bind_splits option.splits)
    moreover have "missed_ok hist c k" if "pc' = Get_return k None" for k
      using e'(6) [OF that] settledD(2) [OF settled] by (intro missed_ok_shown) fastforce
    ultimately show ?thesis
      using c e'(5,7) me(1) settledD(1) [OF settled] up unfolding client_settled_def True by fastforce
  next
    case False
    note you = client_settledD [OF settledD(4) [OF settled d]]
    have "content (en_backend e') k = None" if "cl_pcs s ! d = Put_backend k v" for k v
      using you(2) [OF that] you(3) [OF that c] False unfolding e'(3) by (cases ?pc) auto
    then show ?thesis
      by (intro client_settled_frame [OF settledD(4) [OF settled d] False d c] up) (use e'(7) in auto)
  qed
  ultimately show ?thesis
    using c runs e'(1,2) settledD(2,5) [OF settled] up by (simp add: settled_def)
qed

lemma settled_invoke:
  assumes settled: "settled h64 hist s" and c: "c < length (cl_pcs s)" and pc: "client_call op = Some pc"
    and once: "distinct (called_put_keys (hist @ [Called c op]))" and op: "\<And>k. op \<noteq> E_remove k"
  shows "settled h64 (hist @ [Called c op]) (s\<lparr>cl_pcs := (cl_pcs s)[c := pc]\<rparr>)"
proof -
  let ?w = "content (en_backend (cl_engine s))" and ?hist = "hist @ [Called c op]"
  have put: "op = E_put k v" if "pc = Put_backend k v" for k v using pc that by (cases op) auto
  have fresh: "k \<notin> set (called_put_keys hist) \<and> ?w k = None \<and> k \<in> set (called_put_keys ?hist)" if "op = E_put k v" for k v
    using once settledD(3) [OF settled] that by auto
  have alone: "cl_pcs s ! d \<noteq> Put_backend k v'" if "op = E_put k v" "d < length (cl_pcs s)" for k v d v'
    using client_settledD(2) [OF settledD(4) [OF settled that(2)], of k v'] fresh [OF that(1)] by auto
  have "client_settled ?w ?hist ((cl_pcs s)[c := pc]) d" if d: "d < length (cl_pcs s)" for d
  proof (cases "d = c")
    case True
    have "pc \<noteq> Get_return k None \<and> pc \<noteq> Remove_backend k i \<and> pc \<noteq> Remove_l2 k i \<and> pc \<noteq> Remove_l1 k" for k i
      using pc op by (cases op) auto
    then show ?thesis
      using c client_call_carries [OF pc] put fresh alone by (auto simp: client_settled_def True)
  next
    case False
    have "pc \<noteq> Put_backend k v'" if "cl_pcs s ! d = Put_backend k v" for k v v'
      using that put [of k v'] alone [OF _ d] by blast
    then show ?thesis
      using False client_settledD(2) [OF settledD(4) [OF settled d]]
      by (intro client_settled_frame [OF settledD(4) [OF settled d] False d c] missed_ok_snoc) auto
  qed
  moreover have "answers_shown ?hist"
    by (rule answers_shown_snoc [OF settledD(5) [OF settled]]) simp
  ultimately show ?thesis
    using settledD(1-3) [OF settled] by (auto simp: settled_def)
qed

lemma settled_respond:
  assumes settled: "settled h64 hist s" and c: "c < length (cl_pcs s)" and ret: "client_return (cl_pcs s ! c) = Some (op, r)"
  shows "settled h64 (hist @ [Returned c op r]) (s\<lparr>cl_pcs := (cl_pcs s)[c := Idle]\<rparr>)"
proof -
  let ?w = "content (en_backend (cl_engine s))" and ?hist = "hist @ [Returned c op r]"
  note me = client_settledD [OF settledD(4) [OF settled c]]
  have "answers_shown ?hist"
  proof (rule answers_shown_snoc [OF settledD(5) [OF settled]])
    fix c' k r' hist1 hist2 v
    assume eq: "Returned c op r = Returned c' (E_get k) (Answer r')" "hist = hist1 @ Called c' (E_get k) # hist2"
      and other: "\<forall>ev \<in> set hist2. event_client ev \<noteq> c'" and sh: "(k, v) \<in> shown hist1"
    have pc: "cl_pcs s ! c = Get_return k r'" using ret eq(1) by (cases "cl_pcs s ! c") auto
    have v: "?w k = Some v" using sh settledD(2) [OF settled] eq(2) by auto
    show "r' = Some v"
    proof (cases r')
      case None
      then show ?thesis using me(7) pc eq other sh unfolding missed_ok_def by blast
    next
      case (Some x)
      then show ?thesis using me(1) [of k x] pc v by simp
    qed
  qed
  moreover have "client_settled ?w ?hist ((cl_pcs s)[c := Idle]) d" if d: "d < length (cl_pcs s)" for d
  proof (cases "d = c")
    case True
    then show ?thesis using c by (simp add: client_settled_def)
  next
    case False
    then show ?thesis
      using client_settledD(2) [OF settledD(4) [OF settled d]]
      by (intro client_settled_frame [OF settledD(4) [OF settled d] False d c] missed_ok_snoc) auto
  qed
  moreover have "?w k = Some v" if "(k, v) \<in> shown ?hist" for k v
    using that me(1) settledD(2) [OF settled] shown_return [OF ret, of c] by auto
  ultimately show ?thesis
    using settledD(1,3) [OF settled] by (simp add: settled_def)
qed

lemma settled_engine:
  assumes "settled h64 hist s" and "content (en_backend e) = content (en_backend (cl_engine s))"
    and "\<And>k v. holds h64 e k v \<Longrightarrow> holds h64 (cl_engine s) k v"
  shows "settled h64 hist (s\<lparr>cl_engine := e\<rparr>)"
  using assms by (simp add: settled_def)

lemma clients_move_settled:
  assumes inv: "engine_inv h64 K (cl_engine s)" and settled: "settled h64 hist s"
  shows "oks (clients_move B h32 h64 m s) (\<lambda>(evs, s'). engine_inv h64 K (cl_engine s') \<and>
    (distinct (called_put_keys (hist @ evs)) \<and> (\<forall>c k. Called c (E_remove k) \<notin> set evs) \<longrightarrow> settled h64 (hist @ evs) s'))"
proof (cases m)
  case (Advance c)
  show ?thesis
  proof (cases "c < length (cl_pcs s) \<and> client_runs (cl_pcs s ! c)")
    case True
    then show ?thesis
      unfolding Advance by (intro oks_mono [OF settled_advance [OF inv settled]]) auto
  next
    case False
    then show ?thesis using inv settled by (auto simp: Advance)
  qed
next
  case (Invoke c op)
  show ?thesis using inv settled settled_invoke [OF settled, of c op] by (auto simp: Invoke split: option.splits)
next
  case (Respond c)
  show ?thesis using inv settled settled_respond [OF settled, of c] by (auto simp: Respond split: option.splits)
next
  case Drainer_pop
  obtain e' where e': "drain_pop (cl_engine s) = Some e'" "engine_inv h64 K e'" "en_backend e' = en_backend (cl_engine s)"
      "pending e' = pending (cl_engine s)" "sc_lookup h64 (en_l1 e') = sc_lookup h64 (en_l1 (cl_engine s))"
      "l2_lookup h64 e' = l2_lookup h64 (cl_engine s)"
    by (rule drain_pop_ok [OF inv]) (rule that; assumption)
  have "holds h64 e' = holds h64 (cl_engine s)" using e'(4-6) by (simp add: holds_def waits_def fun_eq_iff)
  then show ?thesis using settled_engine [OF settled, of e'] e'(1-3) by (simp add: Drainer_pop)
next
  case Drainer_insert
  obtain e' where e': "drain_insert h64 (cl_engine s) = Some e'" "engine_inv h64 K e'" "en_backend e' = en_backend (cl_engine s)"
      "\<And>k v. holds h64 e' k v \<Longrightarrow> holds h64 (cl_engine s) k v"
    by (rule drain_insert_ok [OF inv]) (rule that; assumption)
  then show ?thesis using settled_engine [OF settled, of e'] by (simp add: Drainer_insert)
qed

lemma clients_run_extends: "clients_run B h32 h64 ms hist s = Some (hist', s') \<Longrightarrow> \<exists>evs. hist' = hist @ evs"
  by (induction ms arbitrary: hist s) (fastforce split: bind_splits)+

lemma clients_run_settled:
  assumes "engine_inv h64 K (cl_engine s)" and "settled h64 hist s"
  shows "oks (clients_run B h32 h64 ms hist s) (\<lambda>(hist', s'). engine_inv h64 K (cl_engine s') \<and>
    (distinct (called_put_keys hist') \<and> (\<forall>c k. Called c (E_remove k) \<notin> set hist') \<longrightarrow> settled h64 hist' s'))"
  using assms
proof (induction ms arbitrary: hist s)
  case (Cons m ms)
  obtain evs s1 where s1: "clients_move B h32 h64 m s = Some (evs, s1)" "engine_inv h64 K (cl_engine s1)"
      "distinct (called_put_keys (hist @ evs)) \<and> (\<forall>c k. Called c (E_remove k) \<notin> set evs) \<longrightarrow> settled h64 (hist @ evs) s1"
    by (rule oksE [OF clients_move_settled [OF Cons.prems, of h32 m]]) (clarify, rule that; assumption)
  obtain hist' s' where run: "clients_run B h32 h64 ms (hist @ evs) s1 = Some (hist', s')" "engine_inv h64 K (cl_engine s')"
    using clients_run_known [OF s1(2), of UNIV "hist @ evs" h32 ms] by (auto simp: known_def answers_put_def elim!: oksE)
  obtain rest where rest: "hist' = (hist @ evs) @ rest" using clients_run_extends [OF run(1)] by blast
  show ?case
  proof (cases "distinct (called_put_keys hist') \<and> (\<forall>c k. Called c (E_remove k) \<notin> set hist')")
    case True
    then have "settled h64 (hist @ evs) s1" using s1(3) unfolding rest by auto
    from Cons.IH [OF s1(2) this] show ?thesis by (simp add: s1(1) run(1))
  next
    case False
    then show ?thesis unfolding clients_run.simps oks_bind s1(1) oks_Some case_prod_conv run(1) using run(2) by blast
  qed
qed simp

end

section \<open>Properties\<close>

text \<open>The steps are the code's: a client that nobody interrupts does exactly what \<open>engine_get\<close>, \<open>engine_put\<close> and
  \<open>engine_remove\<close> do in one piece, failures included, for every backend.\<close>

theorem engine_calls_are_steps:
  "client_alone 4 B h32 h64 (Get_l1 key) e = map_option (\<lambda>(r, e). (Get_return key r, e)) (engine_get B h32 h64 key e) \<and>
   client_alone 2 B h32 h64 (Put_backend key val) e = map_option (\<lambda>(r, e). (Put_return key val r, e)) (engine_put B h32 h64 key val e) \<and>
   client_alone 3 B h32 h64 (Remove_l1 key) e = map_option (\<lambda>(r, e). (Remove_return key r, e)) (engine_remove B h64 key e)"
proof -
  have four: "(4 :: nat) = Suc (Suc (Suc (Suc 0)))" and three: "(3 :: nat) = Suc (Suc (Suc 0))" by simp_all
  show ?thesis
    unfolding four three numeral_2_eq_2
    by (auto simp: client_runs_def engine_get_def engine_put_def engine_remove_def l1_put_def Let_def case_prod_beta
        split: option.splits bind_splits)
qed

lemma clients_new_known:
  assumes new: "engine_new config b = Some (Inr e0)" and q: "unat (ec_queue_size config) \<le> 2 ^ 31"
  obtains K where "engine_inv h64 K (cl_engine (clients_new n e0))"
    and "en_backend (cl_engine (clients_new n e0)) = b" and "\<And>k v. \<not> holds h64 (cl_engine (clients_new n e0)) k v"
proof (rule engine_new_ok [OF new q, of h64])
  fix K assume "engine_inv h64 K e0" "en_backend e0 = b" "\<And>k v. \<not> holds h64 e0 k v"
  then show ?thesis by (intro that [of K]) (simp_all add: clients_new_def)
qed

text \<open>C5. Any number of clients inside the engine at once, and the drainer: whatever the interleaving of their calls into
  L1, L2 and the backend, nothing fails, every value a get answers was put for that key by a put called before the
  get returned, and so was everything in the backend.
\<close>

theorem engine_concurrent_never_invents:
  assumes "engine_new config memory_new = Some (Inr e0)" and "unat (ec_queue_size config) \<le> 2 ^ 31"
  shows "oks (clients_run memory_ops h32 h64 ms [] (clients_new n e0)) (\<lambda>(hist, s).
    (\<forall>hist1 c k v hist2. hist = hist1 @ Returned c (E_get k) (Answer (Some v)) # hist2 \<longrightarrow> (\<exists>c'. Called c' (E_put k v) \<in> set hist1)) \<and>
    (\<forall>k v. mb_store (en_backend (cl_engine s)) k = Some v \<longrightarrow> (\<exists>c. Called c (E_put k v) \<in> set hist)))"
proof (rule clients_new_known [OF assms, of h64 n])
  fix K assume e: "engine_inv h64 K (cl_engine (clients_new n e0))" "en_backend (cl_engine (clients_new n e0)) = memory_new"
    "\<And>k v. \<not> holds h64 (cl_engine (clients_new n e0)) k v"
  have "memory.known h64 ({} \<union> put_pairs []) (clients_new n e0)"
    using e(2,3) by (simp add: memory.known_def memory_new_def) (simp add: clients_new_def)
  moreover have "answers_put {} []" by (simp add: answers_put_def)
  ultimately show ?thesis
    by (rule oks_mono [OF memory.clients_run_known [OF e(1)]])
      (auto simp: answers_put_def memory.known_def put_pairs_def)
qed

theorem engine_concurrent_never_invents_witness:
  "\<exists>e0. engine_new demo_config memory_new = Some (Inr e0) \<and>
    oks (clients_run memory_ops demo_hash demo_hash64 [Invoke 0 (E_put ''a'' ''1''), Invoke 1 (E_get ''a''), Advance 0, Advance 1, Drainer_pop, Advance 1, Advance 0] []
      (clients_new 2 e0)) (\<lambda>(hist, s). \<forall>v. mb_store (en_backend (cl_engine s)) ''a'' = Some v \<longrightarrow> (\<exists>c. Called c (E_put ''a'' v) \<in> set hist))"
proof -
  obtain e0 where e0: "engine_new demo_config memory_new = Some (Inr e0)" by (rule demo_engine)
  show ?thesis
    by (intro exI [of _ e0] conjI e0, rule oks_mono [OF engine_concurrent_never_invents [OF e0]]) (simp, fastforce)
qed

text \<open>C4. For keys that are written once (no key is put twice, nothing is removed) the engine is linearizable under any
  interleaving of any number of clients and the drainer: once some operation on a key has returned that shows its
  value (the put itself, or a get that answered it), every get of the key called after that answers the value.
\<close>

theorem engine_concurrent_write_once:
  assumes "engine_new config memory_new = Some (Inr e0)" and "unat (ec_queue_size config) \<le> 2 ^ 31"
  shows "oks (clients_run memory_ops h32 h64 ms [] (clients_new n e0)) (\<lambda>(hist, s).
    distinct (called_put_keys hist) \<and> (\<forall>c k. Called c (E_remove k) \<notin> set hist) \<longrightarrow>
    (\<forall>hist1 c k hist2 r hist3 v.
       hist = hist1 @ [Called c (E_get k)] @ hist2 @ [Returned c (E_get k) (Answer r)] @ hist3 \<and>
       (\<forall>ev \<in> set hist2. event_client ev \<noteq> c) \<and> (k, v) \<in> shown hist1 \<longrightarrow> r = Some v))"
proof (rule clients_new_known [OF assms, of h64 n])
  fix K assume e: "engine_inv h64 K (cl_engine (clients_new n e0))" "en_backend (cl_engine (clients_new n e0)) = memory_new"
    "\<And>k v. \<not> holds h64 (cl_engine (clients_new n e0)) k v"
  have "memory.settled h64 [] (clients_new n e0)"
    using e(2,3) by (simp add: memory.settled_def memory_new_def answers_shown_def) (simp add: clients_new_def client_settled_def)
  from memory.clients_run_settled [OF e(1) this] show ?thesis
    by (rule oks_mono) (use memory.settledD(5) in \<open>force simp: answers_shown_def\<close>)
qed

theorem engine_concurrent_write_once_witness:
  "\<exists>e0. engine_new demo_config memory_new = Some (Inr e0) \<and>
    oks (clients_run memory_ops demo_hash demo_hash64
      [Invoke 0 (E_put ''a'' ''1''), Advance 0, Advance 0, Respond 0, Invoke 1 (E_get ''a''), Advance 1, Advance 1, Advance 1, Advance 1, Respond 1] []
      (clients_new 2 e0)) (\<lambda>(hist, s). \<forall>hist1 r. distinct (called_put_keys hist) \<and> (\<forall>c k. Called c (E_remove k) \<notin> set hist) \<and>
        hist = hist1 @ [Called 1 (E_get ''a''), Returned 1 (E_get ''a'') (Answer r)] \<and> (''a'', ''1'') \<in> shown hist1 \<longrightarrow> r = Some ''1'')"
proof -
  obtain e0 where e0: "engine_new demo_config memory_new = Some (Inr e0)" by (rule demo_engine)
  have last: "r = Some v"
    if P: "\<forall>hist1 c k hist2 r hist3 v.
        hist = hist1 @ [Called c (E_get k)] @ hist2 @ [Returned c (E_get k) (Answer r)] @ hist3 \<and>
        (\<forall>ev \<in> set hist2. event_client ev \<noteq> c) \<and> (k, v) \<in> shown hist1 \<longrightarrow> r = Some v"
      and "hist = hist1 @ [Called c (E_get k), Returned c (E_get k) (Answer r)]" "(k, v) \<in> shown hist1" for hist hist1 c k r v
    using P [rule_format, of hist1 c k "[]" r "[]" v] that(2,3) by simp
  show ?thesis
    by (intro exI [of _ e0] conjI e0, rule oks_mono [OF engine_concurrent_write_once [OF e0]]) (simp, clarify, rule last, auto)
qed

text \<open>A schedule: a reader reads the backend, a writer overwrites the key, the reader fills L1.\<close>

definition stale_fill :: "string \<Rightarrow> string \<Rightarrow> move list" where
  "stale_fill key val =
     [Invoke 0 (E_get key), Advance 0, Advance 0, Advance 0] @
     [Invoke 1 (E_put key val), Advance 1, Advance 1, Respond 1] @
     [Advance 0, Respond 0] @ [Invoke 1 (E_get key), Advance 1, Respond 1]"

text \<open>C22. A lost race leaves a stale copy in L1 (a defect of the code): a reader misses L1 and L2 and reads \<open>v1\<close> from the
  backend; before it fills L1, a writer puts \<open>v2\<close> and returns; the reader's fill then overwrites the new value. From
  then on the writer itself, its put long returned, reads \<open>v1\<close> from L1, while the backend holds \<open>v2\<close>.
\<close>

theorem engine_stale_fill:
  assumes "engine_new config b = Some (Inr e0)" and "unat (ec_queue_size config) \<le> 2 ^ 31"
    and "ec_l1 config = default_pct capacity" and "256 \<le> unat capacity" and "unat capacity + 64 < 2 ^ 32"
    and "mb_store b key = Some v1"
  shows "oks (clients_run memory_ops h32 h64 (stale_fill key v2) [] (clients_new 2 e0)) (\<lambda>(hist, s).
    (\<exists>stored. hist = [Called 0 (E_get key), Called 1 (E_put key v2), Returned 1 (E_put key v2) (Stored stored),
       Returned 0 (E_get key) (Answer (Some v1)), Called 1 (E_get key), Returned 1 (E_get key) (Answer (Some v1))]) \<and>
    mb_store (en_backend (cl_engine s)) key = Some v2)"
proof -
  have big: "192 \<le> unat capacity" using assms(4) by simp
  obtain K where win: "256 \<le> unat capacity \<Longrightarrow> fst (snd K) \<noteq> 0"
    and inv: "engine_inv h64 K e0"
    and room: "\<And>e :: memory_backend engine. engine_inv h64 K e \<Longrightarrow>
      unat (total_size (en_l1 e)) \<le> unat capacity \<and> (\<forall>i < 64. 64 \<le> p_free (stripe_view (en_l1 e) i))"
    by (rule engine_room [OF assms(1-3) big assms(5), of h64]) (rule that; assumption)
  obtain none: "\<And>k v. \<not> holds h64 e0 k v" and en: "en_backend e0 = b"
    by (rule engine_new_ok [OF assms(1,2), of h64]) (rule that; assumption)
  have put: "\<exists>r e'. l1_put h32 h64 key v e = Some (r, e') \<and> engine_inv h64 K e' \<and> en_backend e' = en_backend e \<and>
      sc_lookup h64 (en_l1 e') key = Some v" if ok: "engine_inv h64 K e" for v and e :: "memory_backend engine"
  proof -
    obtain r e' where e': "l1_put h32 h64 key v e = Some (r, e')" "engine_inv h64 K e'" "en_backend e' = en_backend e"
      by (rule l1_put_ok [OF ok, of h32 key v]) (rule that; assumption)
    have "p_free (stripe_view (en_l1 e) (route h64 key)) \<noteq> 0"
      using room [OF ok] route_less [of h64 key] by fastforce
    from l1_put_readable [OF ok win [OF assms(4)] this e'(1)] e' show ?thesis by blast
  qed
  have get: "\<exists>c. sc_get h32 h64 key (en_l1 e) = Some (sc_lookup h64 (en_l1 e) key, c) \<and> engine_inv h64 K (e\<lparr>en_l1 := c\<rparr>) \<and>
      sc_lookup h64 c = sc_lookup h64 (en_l1 e)" if "engine_inv h64 K e" for e :: "memory_backend engine"
  proof -
    have l1: "l1_ok h64 K (en_l1 e)" using that by (simp add: engine_inv_def)
    show ?thesis using sc_get_flow [OF l1, of h32 key] that by (auto simp: engine_inv_def elim!: oksE)
  qed
  obtain c1 where c1: "sc_get h32 h64 key (en_l1 e0) = Some (None, c1)" "engine_inv h64 K (e0\<lparr>en_l1 := c1\<rparr>)"
    using get [OF inv] none by (cases "sc_lookup h64 (en_l1 e0) key") (auto simp: holds_def)
  let ?e1 = "e0\<lparr>en_l1 := c1\<rparr>"
  have l2: "l2_ok h64 ?e1" "l2_lookup h64 ?e1 key = None"
    using c1(2) none by (auto simp: engine_inv_def holds_def) (metis not_None_eq)
  obtain e2 where e2: "l2_get h64 key ?e1 = Some (None, e2)" "engine_inv h64 K e2" "en_backend e2 = b"
    by (rule l2_get_ok [OF l2(1), of key]) (use l2(2) l2_only_inv c1(2) en l2_only_simps(2) in fastforce)
  have b1: "bk_get memory_ops key b = (Some v1, b\<lparr>mb_reads := mb_reads b + 1\<rparr>)"
    using assms(6) by (simp add: memory_ops_def memory_get_def)
  let ?b2 = "snd (bk_put memory_ops key v2 (b\<lparr>mb_reads := mb_reads b + 1\<rparr>))"
  have store: "mb_store ?b2 key = Some v2" by (simp add: memory_ops_def memory_put_def)
  obtain r3 e3 where e3: "l1_put h32 h64 key v2 (e2\<lparr>en_backend := ?b2\<rparr>) = Some (r3, e3)" "engine_inv h64 K e3" "en_backend e3 = ?b2"
    using put [of "e2\<lparr>en_backend := ?b2\<rparr>" v2] e2(2) by auto
  obtain r4 e4 where e4: "l1_put h32 h64 key v1 e3 = Some (r4, e4)" "engine_inv h64 K e4" "en_backend e4 = ?b2"
      "sc_lookup h64 (en_l1 e4) key = Some v1"
    using put [OF e3(2), of v1] e3(3) by auto
  obtain c5 where c5: "sc_get h32 h64 key (en_l1 e4) = Some (Some v1, c5)"
    using get [OF e4(2)] e4(4) by auto
  show ?thesis
    using c1(1) e2(1,3) b1 e3(1) e4(1,3) c5 store
    by (simp add: stale_fill_def clients_new_def client_runs_def replicate_two case_prod_beta Let_def)
qed

theorem engine_stale_fill_witness:
  "\<exists>e0. engine_new demo_config (memory_new\<lparr>mb_store := [''a'' \<mapsto> ''1'']\<rparr>) = Some (Inr e0) \<and>
    oks (clients_run memory_ops demo_hash demo_hash64 (stale_fill ''a'' ''2'') [] (clients_new 2 e0)) (\<lambda>(hist, s).
      last hist = Returned 1 (E_get ''a'') (Answer (Some ''1'')) \<and> mb_store (en_backend (cl_engine s)) ''a'' = Some ''2'')"
proof -
  let ?b = "memory_new\<lparr>mb_store := [''a'' \<mapsto> ''1'']\<rparr>"
  obtain e0 where e0: "engine_new demo_config ?b = Some (Inr e0)" by (rule demo_engine_on)
  show ?thesis
    using e0 by (intro exI [of _ e0] conjI)
      (auto intro!: oks_mono [OF engine_stale_fill [OF e0, of 256 "''a''" "''1''" demo_hash demo_hash64 "''2''"]])
qed

end
