(* ===== verification/Doorkeeper.thy ===== *)
theory Doorkeeper
  imports Count_Min_Sketch
begin

unbundle bit_operations_syntax

text \<open>
  The two frequency structures of the baseline W-TinyLFU cache (\<open>benchmarks/wtinylfu_cache.h\<close>): the Bloom
  filter that keeps one-hit keys out of the sketch, and its sketch. Subscripts out of range and a zero
  modulus are \<open>None\<close>.
\<close>

section \<open>The Bloom filter\<close>

record doorkeeper =
  dk_num_bits :: u32
  dk_bits :: "u64 list"

text \<open>The number of words is computed in 32 bits: \<open>num_bits + 63\<close> may wrap.\<close>

definition dk_new :: "u32 \<Rightarrow> doorkeeper" where
  "dk_new num_bits = \<lparr>dk_num_bits = num_bits, dk_bits = replicate (unat ((num_bits + 63) div 64)) 0\<rparr>"

definition dk_hash1 :: "doorkeeper \<Rightarrow> string \<Rightarrow> u32 option" where
  "dk_hash1 d key = do {
     guard (dk_num_bits d \<noteq> 0);
     Some (fold (\<lambda>c h. (h XOR of_char c) * 0x01000193) key 0x811C9DC5 mod dk_num_bits d)
   }"

definition dk_hash2 :: "doorkeeper \<Rightarrow> string \<Rightarrow> u32 option" where
  "dk_hash2 d key = do {
     guard (dk_num_bits d \<noteq> 0);
     Some (fold (\<lambda>c h. push_bit 5 h + h + of_char c) key 5381 mod dk_num_bits d)
   }"

definition dk_test_bit :: "doorkeeper \<Rightarrow> u32 \<Rightarrow> bool option" where
  "dk_test_bit d pos = do {
     w \<leftarrow> vget (dk_bits d) (pos div 64);
     Some (drop_bit (unat (pos mod 64)) w AND 1 \<noteq> 0)
   }"

definition dk_set_bit :: "u32 \<Rightarrow> doorkeeper \<Rightarrow> doorkeeper option" where
  "dk_set_bit pos d = do {
     w \<leftarrow> vget (dk_bits d) (pos div 64);
     bits \<leftarrow> vset (dk_bits d) (pos div 64) (w OR push_bit (unat (pos mod 64)) 1);
     Some (d\<lparr>dk_bits := bits\<rparr>)
   }"

text \<open>\<open>&&\<close> does not test the second bit when the first is clear.\<close>

definition dk_contains :: "doorkeeper \<Rightarrow> string \<Rightarrow> bool option" where
  "dk_contains d key = do {
     h1 \<leftarrow> dk_hash1 d key;
     b1 \<leftarrow> dk_test_bit d h1;
     if b1 then do { h2 \<leftarrow> dk_hash2 d key; dk_test_bit d h2 } else Some False
   }"

definition dk_contains_and_add :: "string \<Rightarrow> doorkeeper \<Rightarrow> (bool \<times> doorkeeper) option" where
  "dk_contains_and_add key d = do {
     h1 \<leftarrow> dk_hash1 d key;
     h2 \<leftarrow> dk_hash2 d key;
     b1 \<leftarrow> dk_test_bit d h1;
     was_present \<leftarrow> (if b1 then dk_test_bit d h2 else Some False);
     d \<leftarrow> dk_set_bit h1 d;
     d \<leftarrow> dk_set_bit h2 d;
     Some (was_present, d)
   }"

definition dk_reset :: "doorkeeper \<Rightarrow> doorkeeper" where
  "dk_reset d = d\<lparr>dk_bits := map (\<lambda>_. 0) (dk_bits d)\<rparr>"

section \<open>The sketch\<close>

text \<open>\<open>TinyLFUSketch\<close> is \<open>CountMinSketch\<close> again, without its assertions and with a hash of its own; its other
  operations are the same code.\<close>

definition tl_new :: "u32 \<Rightarrow> u32 \<Rightarrow> cms" where
  "tl_new depth width =
     \<lparr>cm_depth = depth, cm_width = width, cm_counters = replicate (unat depth * unat width) 0,
      cm_seeds = map (\<lambda>i. 0x9E3779B9 + i * 0x6C62272E) (upto32 depth), cm_total = 0\<rparr>"

definition tl_hash :: hash32 where
  "tl_hash key seed = fold (\<lambda>c h. let h = (h XOR of_char c) * 0x01000193 in h XOR drop_bit 16 h) key seed"

definition tl_increment :: "string \<Rightarrow> cms \<Rightarrow> cms option" where
  "tl_increment key c = cms_increment tl_hash key c"

definition tl_estimate :: "cms \<Rightarrow> string \<Rightarrow> u32 option" where
  "tl_estimate c key = cms_estimate tl_hash c key"

definition tl_decay :: "cms \<Rightarrow> cms" where
  "tl_decay c = cms_decay c"

definition tl_reset :: "cms \<Rightarrow> cms" where
  "tl_reset c = cms_reset c"

section \<open>The filter as a set of positions\<close>

definition dk_ok :: "doorkeeper \<Rightarrow> bool" where
  "dk_ok d \<longleftrightarrow> 0 < dk_num_bits d \<and> length (dk_bits d) = (unat (dk_num_bits d) + 63) div 64"

definition dk_marked :: "doorkeeper \<Rightarrow> u32 \<Rightarrow> bool" where
  "dk_marked d pos \<longleftrightarrow> bit (dk_bits d ! (unat pos div 64)) (unat pos mod 64)"

definition dk_pos1 :: "doorkeeper \<Rightarrow> string \<Rightarrow> u32" where
  "dk_pos1 d key = fold (\<lambda>c h. (h XOR of_char c) * 0x01000193) key 0x811C9DC5 mod dk_num_bits d"

definition dk_pos2 :: "doorkeeper \<Rightarrow> string \<Rightarrow> u32" where
  "dk_pos2 d key = fold (\<lambda>c h. push_bit 5 h + h + of_char c) key 5381 mod dk_num_bits d"

definition dk_has :: "doorkeeper \<Rightarrow> string \<Rightarrow> bool" where
  "dk_has d key \<longleftrightarrow> dk_marked d (dk_pos1 d key) \<and> dk_marked d (dk_pos2 d key)"

lemma dk_new_ok: "0 < n \<Longrightarrow> unat n + 63 < 2 ^ 32 \<Longrightarrow> dk_ok (dk_new n)"
  by (simp add: dk_ok_def dk_new_def unat_div unat_add_u32)

lemma dk_hash_ok:
  assumes "dk_ok d"
  shows "dk_hash1 d key = Some (dk_pos1 d key)" "dk_hash2 d key = Some (dk_pos2 d key)"
    and "dk_pos1 d key < dk_num_bits d" "dk_pos2 d key < dk_num_bits d"
proof -
  have "dk_num_bits d \<noteq> 0" using assms by (auto simp: dk_ok_def)
  then show "dk_hash1 d key = Some (dk_pos1 d key)" "dk_hash2 d key = Some (dk_pos2 d key)"
    "dk_pos1 d key < dk_num_bits d" "dk_pos2 d key < dk_num_bits d"
    by (simp_all add: dk_hash1_def dk_hash2_def dk_pos1_def dk_pos2_def word_mod_less_divisor word_gt_0)
qed

lemma dk_index:
  assumes "dk_ok d" and "pos < dk_num_bits d"
  shows "unat (pos div 64) < length (dk_bits d)" and "unat (pos div 64) = unat pos div 64" and "unat (pos mod 64) = unat pos mod 64"
proof -
  show "unat (pos div 64) = unat pos div 64" "unat (pos mod 64) = unat pos mod 64"
    by (simp_all add: unat_div unat_mod)
  then show "unat (pos div 64) < length (dk_bits d)"
    using assms by (simp add: dk_ok_def word_less_nat_alt)
qed

lemma dk_test_bit_ok:
  "dk_ok d \<Longrightarrow> pos < dk_num_bits d \<Longrightarrow> dk_test_bit d pos = Some (dk_marked d pos)"
  using dk_index [of d pos]
  by (simp add: dk_test_bit_def dk_marked_def vget_def and_one_eq mod_2_eq_odd bit_iff_odd_drop_bit)

lemma dk_set_bit_ok:
  assumes "dk_ok d" and "pos < dk_num_bits d"
  shows "oks (dk_set_bit pos d) (\<lambda>d'. dk_ok d' \<and> dk_num_bits d' = dk_num_bits d \<and>
    (\<forall>p < dk_num_bits d. dk_marked d' p \<longleftrightarrow> p = pos \<or> dk_marked d p))"
proof -
  note i = dk_index [OF assms]
  have "bit ((dk_bits d)[unat pos div 64 := dk_bits d ! (unat pos div 64) OR push_bit (unat pos mod 64) 1] ! (unat p div 64)) (unat p mod 64) \<longleftrightarrow>
      p = pos \<or> bit (dk_bits d ! (unat p div 64)) (unat p mod 64)" if "p < dk_num_bits d" for p
  proof (cases "unat p div 64 = unat pos div 64")
    case True
    have "unat p mod 64 = unat pos mod 64 \<longleftrightarrow> p = pos"
      using True by (metis div_mult_mod_eq unsigned_word_eqI)
    moreover have "unat p mod 64 < 64" by simp
    ultimately show ?thesis
      using i True by (auto simp: bit_simps)
  next
    case False
    then show ?thesis by auto
  qed
  then show ?thesis
    using i assms by (simp add: dk_set_bit_def dk_ok_def dk_marked_def)
qed

lemma dk_contains_ok: "dk_ok d \<Longrightarrow> dk_contains d key = Some (dk_has d key)"
  by (simp add: dk_contains_def dk_hash_ok dk_test_bit_ok dk_has_def)

text \<open>Adding a key: the answer is whether both positions were marked, and nothing is ever unmarked.\<close>

lemma dk_add_ok:
  assumes "dk_ok d"
  obtains d' where "dk_contains_and_add key d = Some (dk_has d key, d')" and "dk_ok d'"
    and "dk_has d' key" and "\<And>k. dk_has d k \<Longrightarrow> dk_has d' k"
proof -
  note h = dk_hash_ok [OF assms, of key]
  obtain d1 where d1: "dk_set_bit (dk_pos1 d key) d = Some d1" "dk_ok d1" "dk_num_bits d1 = dk_num_bits d"
      "\<And>p. p < dk_num_bits d \<Longrightarrow> dk_marked d1 p \<longleftrightarrow> p = dk_pos1 d key \<or> dk_marked d p"
    using dk_set_bit_ok [OF assms h(3)] by (auto elim!: oksE)
  have h2: "dk_pos2 d key < dk_num_bits d1" using h(4) d1(3) by simp
  obtain d2 where d2: "dk_set_bit (dk_pos2 d key) d1 = Some d2" "dk_ok d2" "dk_num_bits d2 = dk_num_bits d1"
      "\<And>p. p < dk_num_bits d1 \<Longrightarrow> dk_marked d2 p \<longleftrightarrow> p = dk_pos2 d key \<or> dk_marked d1 p"
    using dk_set_bit_ok [OF d1(2) h2] by (auto elim!: oksE)
  have same: "dk_pos1 d2 k = dk_pos1 d k" "dk_pos2 d2 k = dk_pos2 d k" for k
    using d1(3) d2(3) by (simp_all add: dk_pos1_def dk_pos2_def)
  have mark: "dk_marked d2 p \<longleftrightarrow> p = dk_pos1 d key \<or> p = dk_pos2 d key \<or> dk_marked d p" if "p < dk_num_bits d" for p
    using that d1(3,4) d2(4) by auto
  show ?thesis
  proof (rule that [OF _ d2(2)])
    show "dk_contains_and_add key d = Some (dk_has d key, d2)"
      using assms h d1(1) d2(1) by (simp add: dk_contains_and_add_def dk_test_bit_ok dk_has_def)
    show "dk_has d2 key" using mark h by (simp add: dk_has_def same)
    show "dk_has d2 k" if "dk_has d k" for k
      using that mark dk_hash_ok(3,4) [OF assms, of k] by (simp add: dk_has_def same)
  qed
qed

lemma dk_reset_ok: "dk_ok d \<Longrightarrow> dk_ok (dk_reset d)"
  by (simp add: dk_ok_def dk_reset_def)

lemma dk_reset_has: "dk_ok d \<Longrightarrow> \<not> dk_has (dk_reset d) key"
  using dk_index [of d "dk_pos1 d key"] dk_hash_ok(3) [of d key]
  by (simp add: dk_has_def dk_marked_def dk_reset_def dk_pos1_def)

lemma tl_new_ok: "cms_ok (tl_new 4 8192)"
  by (simp add: cms_ok_def tl_new_def)

section \<open>Properties\<close>

text \<open>The doorkeeper has no false negatives: whatever keys are added in whatever order, every key that was added
  is reported present, when it is added again as when it is looked up; and a reset empties it.\<close>

theorem doorkeeper_no_false_negative:
  assumes "0 < n" and "unat n + 63 < 2 ^ 32"
  shows "oks (ofold (\<lambda>key d. map_option snd (dk_contains_and_add key d)) keys (dk_new n)) (\<lambda>d.
    (\<forall>key \<in> set keys. dk_contains d key = Some True \<and> oks (dk_contains_and_add key d) (\<lambda>(present, _). present)) \<and>
    (\<forall>key. dk_contains (dk_reset d) key = Some False))"
proof -
  have "oks (ofold (\<lambda>key d. map_option snd (dk_contains_and_add key d)) keys d) (\<lambda>d'. dk_ok d' \<and> (\<forall>k. dk_has d k \<or> k \<in> set keys \<longrightarrow> dk_has d' k))"
    if "dk_ok d" for d
    using that
  proof (induction keys arbitrary: d)
    case (Cons key keys)
    obtain d1 where d1: "dk_contains_and_add key d = Some (dk_has d key, d1)" "dk_ok d1" "dk_has d1 key" "\<And>k. dk_has d k \<Longrightarrow> dk_has d1 k"
      by (rule dk_add_ok [OF Cons.prems, of key]) (rule that; assumption)
    show ?case using Cons.IH [OF d1(2)] d1 by (auto elim!: oks_mono)
  qed simp
  moreover have "dk_contains d key = Some True \<and> oks (dk_contains_and_add key d) (\<lambda>(present, _). present)"
    if "dk_ok d" "dk_has d key" for d key
    using that dk_contains_ok [OF that(1), of key] dk_add_ok [OF that(1), of key] by fastforce
  ultimately show ?thesis
    using dk_new_ok [OF assms] dk_contains_ok dk_reset_ok dk_reset_has by (fastforce elim!: oks_mono)
qed

theorem doorkeeper_no_false_negative_witness:
  "oks (ofold (\<lambda>key d. map_option snd (dk_contains_and_add key d)) [''a'', ''b''] (dk_new 64)) (\<lambda>d. dk_contains d ''a'' = Some True)"
  using doorkeeper_no_false_negative [of 64 "[''a'', ''b'']"] by (auto elim!: oks_mono)

end
