(* ===== verification/Wtinylfu.thy ===== *)
theory Wtinylfu
  imports Doorkeeper Node_List Lossy_Cache Float32
begin

text \<open>
  \<open>WTinyLFUCache\<close>, the baseline W-TinyLFU cache of the benchmarks (\<open>benchmarks/wtinylfu_cache.h\<close>): three
  \<open>std::list\<close>s of entries with one map of iterators, a sketch behind a doorkeeper, all under one mutex.
  A node keeps its identity when it is spliced from list to list; a reference to an erased node is
  dangling, and reading through it is \<open>None\<close>.
\<close>

datatype wt_segment = Seg_Window | Seg_Probation | Seg_Protected

record wt_entry =
  we_key :: string
  we_value :: string
  we_segment :: wt_segment

record wtinylfu =
  wt_total :: u32
  wt_window_capacity :: u32
  wt_probation_capacity :: u32
  wt_protected_capacity :: u32
  wt_window :: "wt_entry nlist"
  wt_probation :: "wt_entry nlist"
  wt_protected :: "wt_entry nlist"
  wt_map :: "string index"
  wt_fresh :: nat
  wt_doorkeeper :: doorkeeper
  wt_cms :: cms
  wt_decay_interval :: u64
  wt_ops_since_decay :: u64
  wt_hits :: u64
  wt_misses :: u64
  wt_evictions :: u64
  wt_admissions :: u64
  wt_rejections :: u64

section \<open>Construction\<close>

text \<open>\<open>capacity - 2\<close>, \<open>capacity * 8\<close> and \<open>capacity - window_capacity_\<close> are 32-bit operations.\<close>

definition wt_new :: "u32 \<Rightarrow> float32 \<Rightarrow> float32 \<Rightarrow> wtinylfu option" where
  "wt_new capacity window_pct probation_pct = do {
     w \<leftarrow> f32_to_u32 (u32_times_f32 capacity window_pct);
     let window_capacity = max 3 w;
     let window_capacity = (if window_capacity \<ge> capacity - 2 then capacity div 4 else window_capacity);
     let main_capacity = capacity - window_capacity;
     p \<leftarrow> f32_to_u32 (u32_times_f32 main_capacity probation_pct);
     let probation_capacity = max 1 p;
     let decay_interval = (ucast capacity * 5 :: u64);
     Some \<lparr>wt_total = capacity, wt_window_capacity = window_capacity,
       wt_probation_capacity = probation_capacity, wt_protected_capacity = main_capacity - probation_capacity,
       wt_window = [], wt_probation = [], wt_protected = [], wt_map = [], wt_fresh = 0,
       wt_doorkeeper = dk_new (capacity * 8), wt_cms = tl_new 4 8192,
       wt_decay_interval = (if decay_interval = 0 then 1 else decay_interval), wt_ops_since_decay = 0,
       wt_hits = 0, wt_misses = 0, wt_evictions = 0, wt_admissions = 0, wt_rejections = 0\<rparr>
   }"

section \<open>Recording accesses\<close>

definition wt_maybe_decay :: "wtinylfu \<Rightarrow> wtinylfu" where
  "wt_maybe_decay c =
     (let c = c\<lparr>wt_ops_since_decay := wt_ops_since_decay c + 1\<rparr>
      in if wt_ops_since_decay c \<ge> wt_decay_interval c
         then c\<lparr>wt_cms := tl_decay (wt_cms c), wt_doorkeeper := dk_reset (wt_doorkeeper c), wt_ops_since_decay := 0\<rparr>
         else c)"

definition wt_record_access :: "string \<Rightarrow> wtinylfu \<Rightarrow> wtinylfu option" where
  "wt_record_access key c = do {
     (seen_before, d) \<leftarrow> dk_contains_and_add key (wt_doorkeeper c);
     let c = c\<lparr>wt_doorkeeper := d\<rparr>;
     s \<leftarrow> (if seen_before then tl_increment key (wt_cms c) else Some (wt_cms c));
     Some (wt_maybe_decay (c\<lparr>wt_cms := s\<rparr>))
   }"

section \<open>Moving entries\<close>

text \<open>All nodes that exist: what an iterator or a reference can point to.\<close>

abbreviation wt_nodes :: "wtinylfu \<Rightarrow> wt_entry nlist" where
  "wt_nodes c \<equiv> wt_window c @ wt_probation c @ wt_protected c"

definition wt_deref :: "nat \<Rightarrow> wtinylfu \<Rightarrow> wt_entry option" where
  "wt_deref it c = nl_deref it (wt_nodes c)"

text \<open>Steps of the code: dropping a window or a probation entry, and entering a new probation entry.\<close>

definition wt_drop_window :: "nat \<Rightarrow> string \<Rightarrow> wtinylfu \<Rightarrow> wtinylfu option" where
  "wt_drop_window it key c = do {
     xs \<leftarrow> nl_erase it (wt_window c);
     Some (c\<lparr>wt_map := AList.delete key (wt_map c), wt_window := xs\<rparr>)
   }"

definition wt_drop_probation :: "nat \<Rightarrow> string \<Rightarrow> wtinylfu \<Rightarrow> wtinylfu option" where
  "wt_drop_probation it key c = do {
     xs \<leftarrow> nl_erase it (wt_probation c);
     Some (c\<lparr>wt_map := AList.delete key (wt_map c), wt_probation := xs\<rparr>)
   }"

definition wt_enter_probation :: "string \<Rightarrow> string \<Rightarrow> wtinylfu \<Rightarrow> wtinylfu" where
  "wt_enter_probation key val c =
     c\<lparr>wt_probation := (wt_fresh c, \<lparr>we_key = key, we_value = val, we_segment = Seg_Probation\<rparr>) # wt_probation c,
       wt_map := AList.update key (wt_fresh c) (wt_map c), wt_fresh := Suc (wt_fresh c)\<rparr>"

definition wt_try_admit_from_window :: "wtinylfu \<Rightarrow> wtinylfu option" where
  "wt_try_admit_from_window c =
     (if wt_window c = [] then Some c
      else do {
        (candidate_it, cand) \<leftarrow> nl_last (wt_window c);
        let cand_key = we_key cand;
        let cand_val = we_value cand;
        let main_size = (of_nat (length (wt_probation c) + length (wt_protected c)) :: u32);
        if main_size < wt_probation_capacity c + wt_protected_capacity c
        then do {
          c \<leftarrow> wt_drop_window candidate_it cand_key c;
          let c = wt_enter_probation cand_key cand_val c;
          Some (c\<lparr>wt_admissions := wt_admissions c + 1\<rparr>)
        }
        else if wt_probation c = []
        then do {
          c \<leftarrow> wt_drop_window candidate_it cand_key c;
          Some (c\<lparr>wt_rejections := wt_rejections c + 1\<rparr>)
        }
        else do {
          (victim_it, victim) \<leftarrow> nl_last (wt_probation c);
          cand_freq \<leftarrow> tl_estimate (wt_cms c) cand_key;
          victim_freq \<leftarrow> tl_estimate (wt_cms c) (we_key victim);
          if cand_freq > victim_freq
          then do {
            c \<leftarrow> wt_drop_probation victim_it (we_key victim) c;
            let c = c\<lparr>wt_evictions := wt_evictions c + 1\<rparr>;
            c \<leftarrow> wt_drop_window candidate_it cand_key c;
            let c = wt_enter_probation cand_key cand_val c;
            Some (c\<lparr>wt_admissions := wt_admissions c + 1\<rparr>)
          }
          else do {
            c \<leftarrow> wt_drop_window candidate_it cand_key c;
            Some (c\<lparr>wt_rejections := wt_rejections c + 1\<rparr>)
          }
        }
      })"

text \<open>Demoting the least recent protected entry: \<open>std::prev(end())\<close> of an empty list is undefined.\<close>

definition wt_demote :: "wtinylfu \<Rightarrow> wtinylfu option" where
  "wt_demote c = do {
     (demoted_it, demoted) \<leftarrow> nl_last (wt_protected c);
     protected \<leftarrow> nl_modify demoted_it (\<lambda>e. e\<lparr>we_segment := Seg_Probation\<rparr>) (wt_protected c);
     (protected, probation) \<leftarrow> nl_splice demoted_it protected (wt_probation c);
     Some (c\<lparr>wt_protected := protected, wt_probation := probation, wt_map := AList.update (we_key demoted) demoted_it (wt_map c)\<rparr>)
   }"

text \<open>The promoted entry is moved into a new node: the old one is erased.\<close>

definition wt_promote_to_protected :: "nat \<Rightarrow> wtinylfu \<Rightarrow> wtinylfu option" where
  "wt_promote_to_protected it c = do {
     entry \<leftarrow> wt_deref it c;
     c \<leftarrow> wt_drop_probation it (we_key entry) c;
     c \<leftarrow> (if length (wt_protected c) \<ge> unat (wt_protected_capacity c) then wt_demote c else Some c);
     Some (c\<lparr>wt_protected := (wt_fresh c, entry\<lparr>we_segment := Seg_Protected\<rparr>) # wt_protected c,
       wt_map := AList.update (we_key entry) (wt_fresh c) (wt_map c), wt_fresh := Suc (wt_fresh c)\<rparr>)
   }"

text \<open>The switch both operations make on the segment of the entry they found.\<close>

definition wt_touch :: "nat \<Rightarrow> wtinylfu \<Rightarrow> wtinylfu option" where
  "wt_touch it c = do {
     entry \<leftarrow> wt_deref it c;
     case we_segment entry of
       Seg_Window \<Rightarrow> do { xs \<leftarrow> nl_to_front it (wt_window c); Some (c\<lparr>wt_window := xs\<rparr>) }
     | Seg_Probation \<Rightarrow> wt_promote_to_protected it c
     | Seg_Protected \<Rightarrow> do { xs \<leftarrow> nl_to_front it (wt_protected c); Some (c\<lparr>wt_protected := xs\<rparr>) }
   }"

section \<open>Operations\<close>

text \<open>\<open>entry\<close> is a reference: the value is read through it after the switch.\<close>

definition wt_get :: "string \<Rightarrow> wtinylfu \<Rightarrow> (string option \<times> wtinylfu) option" where
  "wt_get key c =
     (case map_of (wt_map c) key of
        None \<Rightarrow> Some (None, c\<lparr>wt_misses := wt_misses c + 1\<rparr>)
      | Some it \<Rightarrow> do {
          c \<leftarrow> wt_record_access key c;
          c \<leftarrow> wt_touch it c;
          let c = c\<lparr>wt_hits := wt_hits c + 1\<rparr>;
          entry \<leftarrow> wt_deref it c;
          Some (Some (we_value entry), c)
        })"

text \<open>\<open>entry.value = value\<close> through the reference, wherever the node is.\<close>

definition wt_set_value :: "nat \<Rightarrow> string \<Rightarrow> wtinylfu \<Rightarrow> wtinylfu option" where
  "wt_set_value it val c = do {
     _ \<leftarrow> wt_deref it c;
     let upd = map (\<lambda>(j, e). (j, if j = it then e\<lparr>we_value := val\<rparr> else e));
     Some (c\<lparr>wt_window := upd (wt_window c), wt_probation := upd (wt_probation c), wt_protected := upd (wt_protected c)\<rparr>)
   }"

partial_function (option) wt_admit_loop :: "wtinylfu \<Rightarrow> wtinylfu option" where
  "wt_admit_loop c =
     (if length (wt_window c) > unat (wt_window_capacity c)
      then wt_try_admit_from_window c \<bind> wt_admit_loop
      else Some c)"

definition wt_put :: "string \<Rightarrow> string \<Rightarrow> wtinylfu \<Rightarrow> (bool \<times> wtinylfu) option" where
  "wt_put key val c = do {
     c \<leftarrow> wt_record_access key c;
     case map_of (wt_map c) key of
       Some it \<Rightarrow> do {
         c \<leftarrow> wt_set_value it val c;
         c \<leftarrow> wt_touch it c;
         Some (False, c)
       }
     | None \<Rightarrow> do {
         let c = c\<lparr>wt_window := (wt_fresh c, \<lparr>we_key = key, we_value = val, we_segment = Seg_Window\<rparr>) # wt_window c,
           wt_map := AList.update key (wt_fresh c) (wt_map c), wt_fresh := Suc (wt_fresh c)\<rparr>;
         c \<leftarrow> wt_admit_loop c;
         Some (True, c)
       }
   }"

definition wt_size :: "wtinylfu \<Rightarrow> u32" where
  "wt_size c = of_nat (length (wt_map c))"

definition wt_reset_stats :: "wtinylfu \<Rightarrow> wtinylfu" where
  "wt_reset_stats c = c\<lparr>wt_hits := 0, wt_misses := 0, wt_evictions := 0, wt_admissions := 0, wt_rejections := 0\<rparr>"

end
