(* ===== verification/Wtinylfu_Props.thy ===== *)
theory Wtinylfu_Props
  imports Wtinylfu
begin

text \<open>
  The baseline W-TinyLFU cache (\<open>benchmarks/wtinylfu_cache.h\<close>): its invariant, what each operation does to
  the entries, and the one input on which it is undefined.
\<close>

section \<open>The invariant\<close>

definition wt_inv :: "wtinylfu \<Rightarrow> bool" where
  "wt_inv c \<longleftrightarrow>
     indexed we_key (wt_nodes c) (wt_map c) (wt_fresh c) \<and>
     (\<forall>p \<in> set (wt_window c). we_segment (snd p) = Seg_Window) \<and>
     (\<forall>p \<in> set (wt_probation c). we_segment (snd p) = Seg_Probation) \<and>
     (\<forall>p \<in> set (wt_protected c). we_segment (snd p) = Seg_Protected) \<and>
     length (wt_probation c) + length (wt_protected c) \<le> unat (wt_probation_capacity c) + unat (wt_protected_capacity c) \<and>
     length (wt_protected c) \<le> unat (wt_protected_capacity c) \<and> 0 < wt_protected_capacity c \<and>
     unat (wt_probation_capacity c) + unat (wt_protected_capacity c) < 2 ^ 32 \<and>
     dk_ok (wt_doorkeeper c) \<and> cms_ok (wt_cms c)"

definition wt_kv :: "wtinylfu \<Rightarrow> (string \<times> string) set" where
  "wt_kv c = (\<lambda>p. (we_key (snd p), we_value (snd p))) ` set (wt_nodes c)"

definition wt_lookup :: "wtinylfu \<Rightarrow> string \<Rightarrow> string option" where
  "wt_lookup c key = map_of (map (\<lambda>p. (we_key (snd p), we_value (snd p))) (wt_nodes c)) key"

definition wt_caps :: "wtinylfu \<Rightarrow> u32 \<times> u32 \<times> u32" where
  "wt_caps c = (wt_window_capacity c, wt_probation_capacity c, wt_protected_capacity c)"

lemma wt_invD:
  assumes "wt_inv c"
  shows "indexed we_key (wt_nodes c) (wt_map c) (wt_fresh c)"
    and "dk_ok (wt_doorkeeper c)" and "cms_ok (wt_cms c)" and "0 < wt_protected_capacity c"
  using assms by (simp_all add: wt_inv_def)

lemma wt_lookup_Some: "wt_inv c \<Longrightarrow> wt_lookup c k = Some v \<longleftrightarrow> (k, v) \<in> wt_kv c"
proof -
  assume "wt_inv c"
  then have "distinct (map (\<lambda>p. we_key (snd p)) (wt_nodes c))" by (simp add: wt_inv_def indexed_def)
  then have "distinct (map fst (map (\<lambda>p. (we_key (snd p), we_value (snd p))) (wt_nodes c)))" by (simp add: comp_def)
  then show ?thesis unfolding wt_lookup_def wt_kv_def by (simp only: map_of_eq_Some_iff set_map)
qed

lemma wt_lookup_subset:
  assumes "wt_inv c" and "wt_inv c'" and "wt_kv c' \<subseteq> wt_kv c"
  shows "wt_lookup c' k \<in> {wt_lookup c k, None}"
proof (cases "wt_lookup c' k")
  case (Some v)
  then have "(k, v) \<in> wt_kv c" using wt_lookup_Some [OF assms(2), of k v] assms(3) by blast
  then show ?thesis using Some wt_lookup_Some [OF assms(1), of k v] by simp
qed simp

lemma wt_lookup_eq: "wt_inv c \<Longrightarrow> wt_inv c' \<Longrightarrow> wt_kv c' = wt_kv c \<Longrightarrow> wt_lookup c' = wt_lookup c"
proof
  fix k assume "wt_inv c" "wt_inv c'" "wt_kv c' = wt_kv c"
  then have "wt_lookup c' k = Some v \<longleftrightarrow> wt_lookup c k = Some v" for v by (simp add: wt_lookup_Some)
  then show "wt_lookup c' k = wt_lookup c k" by (metis not_None_eq)
qed

text \<open>What recording an access leaves alone.\<close>

definition wt_same :: "wtinylfu \<Rightarrow> wtinylfu \<Rightarrow> bool" where
  "wt_same c c' \<longleftrightarrow> wt_window c' = wt_window c \<and> wt_probation c' = wt_probation c \<and> wt_protected c' = wt_protected c \<and>
     wt_map c' = wt_map c \<and> wt_fresh c' = wt_fresh c \<and> wt_caps c' = wt_caps c"

lemma wt_same_kv: "wt_same c c' \<Longrightarrow> wt_kv c' = wt_kv c"
  by (simp add: wt_same_def wt_kv_def)

lemma wt_same_inv: "wt_same c c' \<Longrightarrow> wt_inv c \<Longrightarrow> dk_ok (wt_doorkeeper c') \<Longrightarrow> cms_ok (wt_cms c') \<Longrightarrow> wt_inv c'"
  by (simp add: wt_same_def wt_inv_def wt_caps_def)

lemma wt_record_access_ok:
  assumes inv: "wt_inv c"
  obtains c' where "wt_record_access key c = Some c'" and "wt_same c c'" and "wt_inv c'"
proof -
  obtain d where d: "dk_contains_and_add key (wt_doorkeeper c) = Some (dk_has (wt_doorkeeper c) key, d)" "dk_ok d"
    by (rule dk_add_ok [OF wt_invD(2) [OF inv], of key]) (rule that; assumption)
  obtain s where s: "(if dk_has (wt_doorkeeper c) key then tl_increment key (wt_cms c) else Some (wt_cms c)) = Some s" "cms_ok s"
    using cms_increment_ok [OF wt_invD(3) [OF inv], of tl_hash key] wt_invD(3) [OF inv] cms_shape_ok
    by (cases "dk_has (wt_doorkeeper c) key") (auto simp: tl_increment_def elim!: oksE)
  let ?c = "wt_maybe_decay (c\<lparr>wt_doorkeeper := d, wt_cms := s\<rparr>)"
  have same: "wt_same c ?c" by (simp add: wt_maybe_decay_def Let_def wt_same_def wt_caps_def)
  have "wt_inv ?c"
    by (rule wt_same_inv [OF same inv])
      (use d(2) s(2) dk_reset_ok cms_decay_ok in \<open>simp_all add: wt_maybe_decay_def Let_def tl_decay_def\<close>)
  then show ?thesis
    using that [OF _ same] d(1) s(1) by (cases "dk_has (wt_doorkeeper c) key") (auto simp: wt_record_access_def Let_def)
qed

section \<open>Moving entries\<close>

definition wt_ids :: "wtinylfu \<Rightarrow> nat set" where
  "wt_ids c = fst ` set (wt_nodes c)"

definition wt_keys :: "wtinylfu \<Rightarrow> string set" where
  "wt_keys c = (\<lambda>p. we_key (snd p)) ` set (wt_nodes c)"

lemma wt_find_None: "wt_inv c \<Longrightarrow> map_of (wt_map c) key = None \<longleftrightarrow> key \<notin> wt_keys c"
  using indexed_find_None [of we_key "wt_nodes c" "wt_map c" "wt_fresh c" key] by (simp add: wt_inv_def wt_keys_def)

lemma wt_lookup_None: "wt_lookup c key = None \<longleftrightarrow> key \<notin> wt_keys c"
  unfolding wt_lookup_def wt_keys_def map_of_eq_None_iff set_map image_image by simp

lemma wt_same_keys: "wt_same c c' \<Longrightarrow> wt_keys c' = wt_keys c"
  by (simp add: wt_same_def wt_keys_def)

text \<open>Taking a node out of the lists and the map.\<close>

lemma wt_take_out:
  assumes inv: "wt_inv c" and mset: "mset (wt_nodes c) = mset ((i, e) # rest)" and rest: "mset (wt_nodes c') = mset rest"
    and m: "wt_map c' = AList.delete (we_key e) (wt_map c)" and fresh: "wt_fresh c' = wt_fresh c"
  shows "indexed we_key (wt_nodes c') (wt_map c') (wt_fresh c')"
    and "wt_kv c' = wt_kv c - {(we_key e, we_value e)}" and "we_key e \<notin> wt_keys c'" and "i \<notin> wt_ids c'"
proof -
  have ix: "indexed we_key ((i, e) # rest) (wt_map c) (wt_fresh c)"
    using indexed_perm [OF mset] wt_invD(1) [OF inv] by blast
  from indexed_delete [OF this] show "indexed we_key (wt_nodes c') (wt_map c') (wt_fresh c')"
    using indexed_perm [OF rest, of we_key] by (simp add: m fresh)
  have out: "we_key e \<notin> (\<lambda>p. we_key (snd p)) ` set rest" using ix by (simp add: indexed_def)
  moreover have same: "set (wt_nodes c') = set rest" and all: "set (wt_nodes c) = insert (i, e) (set rest)"
    using mset_eq_setD [OF rest] mset_eq_setD [OF mset] by simp_all
  ultimately show "we_key e \<notin> wt_keys c'" "wt_kv c' = wt_kv c - {(we_key e, we_value e)}"
    unfolding wt_keys_def wt_kv_def all by (auto simp: image_iff)
  show "i \<notin> wt_ids c'" using ix unfolding wt_ids_def same by (simp add: indexed_def)
qed

lemma wt_drop_window_ok:
  assumes inv: "wt_inv c" and mem: "(i, e) \<in> set (wt_window c)"
  obtains c' where "wt_drop_window i (we_key e) c = Some c'" and "wt_inv c'" and "wt_caps c' = wt_caps c"
    and "wt_kv c' = wt_kv c - {(we_key e, we_value e)}" and "we_key e \<notin> wt_keys c'"
    and "length (wt_window c') = length (wt_window c) - 1" and "wt_probation c' = wt_probation c" and "wt_protected c' = wt_protected c"
    and "wt_cms c' = wt_cms c"
proof -
  have "distinct (map fst (wt_window c))" using wt_invD(1) [OF inv] by (simp add: indexed_def)
  then obtain as bs where s: "wt_window c = as @ (i, e) # bs" "nl_erase i (wt_window c) = Some (as @ bs)"
    by (rule nl_split [OF _ mem])
  let ?c = "c\<lparr>wt_map := AList.delete (we_key e) (wt_map c), wt_window := as @ bs\<rparr>"
  note out = wt_take_out [OF inv, of i e "as @ bs @ wt_probation c @ wt_protected c" ?c]
  have "wt_inv ?c" using inv out(1) by (simp add: wt_inv_def s(1))
  then show ?thesis
    using that [of ?c] out(2,3) s by (simp add: wt_drop_window_def wt_caps_def)
qed

lemma wt_drop_probation_ok:
  assumes inv: "wt_inv c" and mem: "(i, e) \<in> set (wt_probation c)"
  obtains c' where "wt_drop_probation i (we_key e) c = Some c'" and "wt_inv c'" and "wt_caps c' = wt_caps c"
    and "wt_kv c' = wt_kv c - {(we_key e, we_value e)}" and "we_key e \<notin> wt_keys c'"
    and "length (wt_probation c') = length (wt_probation c) - 1" and "wt_window c' = wt_window c" and "wt_protected c' = wt_protected c"
    and "wt_cms c' = wt_cms c" and "wt_fresh c' = wt_fresh c" and "i \<notin> wt_ids c'"
proof -
  have "distinct (map fst (wt_probation c))" using wt_invD(1) [OF inv] by (simp add: indexed_def)
  then obtain as bs where s: "wt_probation c = as @ (i, e) # bs" "nl_erase i (wt_probation c) = Some (as @ bs)"
    by (rule nl_split [OF _ mem])
  let ?c = "c\<lparr>wt_map := AList.delete (we_key e) (wt_map c), wt_probation := as @ bs\<rparr>"
  note out = wt_take_out [OF inv, of i e "wt_window c @ as @ bs @ wt_protected c" ?c]
  have "wt_inv ?c" using inv out(1) by (simp add: wt_inv_def s(1))
  then show ?thesis
    using that [of ?c] out(2-4) s by (simp add: wt_drop_probation_def wt_caps_def)
qed

text \<open>Putting a new node in.\<close>

lemma wt_put_in:
  assumes inv: "wt_inv c" and key: "we_key e \<notin> wt_keys c" and mset: "mset (wt_nodes c') = mset ((wt_fresh c, e) # wt_nodes c)"
    and m: "wt_map c' = AList.update (we_key e) (wt_fresh c) (wt_map c)" and fresh: "wt_fresh c' = Suc (wt_fresh c)"
  shows "indexed we_key (wt_nodes c') (wt_map c') (wt_fresh c')" and "wt_kv c' = insert (we_key e, we_value e) (wt_kv c)"
proof -
  have "indexed we_key ((wt_fresh c, e) # wt_nodes c) (AList.update (we_key e) (wt_fresh c) (wt_map c)) (Suc (wt_fresh c))"
    by (rule indexed_insert [OF wt_invD(1) [OF inv]]) (use key in \<open>simp add: wt_keys_def\<close>)
  then show "indexed we_key (wt_nodes c') (wt_map c') (wt_fresh c')" using indexed_perm [OF mset, of we_key] by (simp add: m fresh)
  have "set (wt_nodes c') = insert (wt_fresh c, e) (set (wt_nodes c))" using mset_eq_setD [OF mset] by simp
  then show "wt_kv c' = insert (we_key e, we_value e) (wt_kv c)" by (simp add: wt_kv_def)
qed

lemma wt_enter_probation_ok:
  assumes inv: "wt_inv c" and key: "key \<notin> wt_keys c"
    and room: "length (wt_probation c) + length (wt_protected c) < unat (wt_probation_capacity c) + unat (wt_protected_capacity c)"
  shows "wt_inv (wt_enter_probation key val c)" and "wt_kv (wt_enter_probation key val c) = insert (key, val) (wt_kv c)"
    and "wt_caps (wt_enter_probation key val c) = wt_caps c" and "wt_window (wt_enter_probation key val c) = wt_window c"
proof -
  note ins = wt_put_in [OF inv, of "\<lparr>we_key = key, we_value = val, we_segment = Seg_Probation\<rparr>" "wt_enter_probation key val c"]
  show "wt_inv (wt_enter_probation key val c)"
    using inv room ins(1) key by (simp add: wt_inv_def wt_enter_probation_def)
qed (use wt_put_in(2) [OF inv, of "\<lparr>we_key = key, we_value = val, we_segment = Seg_Probation\<rparr>" "wt_enter_probation key val c"] key
    in \<open>simp_all add: wt_enter_probation_def wt_caps_def\<close>)

text \<open>The admission step: the window loses its last entry, nothing else is gained.\<close>

lemma nl_last_split:
  assumes "xs \<noteq> []" obtains i e where "nl_last xs = Some (i, e)" and "(i, e) \<in> set xs"
  using assms that [of "fst (last xs)" "snd (last xs)"] by (simp add: nl_last_def)

lemma wt_main_size:
  assumes "wt_inv c"
  shows "of_nat (length (wt_probation c) + length (wt_protected c)) < wt_probation_capacity c + wt_protected_capacity c \<longleftrightarrow>
    length (wt_probation c) + length (wt_protected c) < unat (wt_probation_capacity c) + unat (wt_protected_capacity c)"
  using assms by (auto simp: wt_inv_def word_less_nat_alt unat_add_u32 unat_of_nat_u32 simp del: of_nat_add)

lemma wt_try_admit_ok:
  assumes inv: "wt_inv c" and ne: "wt_window c \<noteq> []"
  shows "oks (wt_try_admit_from_window c) (\<lambda>c'. wt_inv c' \<and> wt_caps c' = wt_caps c \<and> wt_kv c' \<subseteq> wt_kv c \<and>
    length (wt_window c') = length (wt_window c) - 1)"
proof -
  obtain i e where last: "nl_last (wt_window c) = Some (i, e)" and mem: "(i, e) \<in> set (wt_window c)"
    by (rule nl_last_split [OF ne])
  have kv: "(we_key e, we_value e) \<in> wt_kv c" using mem by (force simp: wt_kv_def)
  let ?full = "\<not> length (wt_probation c) + length (wt_protected c) < unat (wt_probation_capacity c) + unat (wt_protected_capacity c)"
  obtain c1 where c1: "wt_drop_window i (we_key e) c = Some c1" "wt_inv c1" "wt_caps c1 = wt_caps c"
      "wt_kv c1 = wt_kv c - {(we_key e, we_value e)}" "we_key e \<notin> wt_keys c1"
      "length (wt_window c1) = length (wt_window c) - 1" "wt_probation c1 = wt_probation c" "wt_protected c1 = wt_protected c"
    by (rule wt_drop_window_ok [OF inv mem]) (rule that; assumption)
  have caps1: "wt_probation_capacity c1 = wt_probation_capacity c" "wt_protected_capacity c1 = wt_protected_capacity c"
    using c1(3) by (simp_all add: wt_caps_def)
  have count: "wt_inv (c'\<lparr>wt_admissions := n\<rparr>) = wt_inv c'" "wt_inv (c'\<lparr>wt_rejections := n\<rparr>) = wt_inv c'"
      "wt_inv (c'\<lparr>wt_evictions := n\<rparr>) = wt_inv c'" "wt_kv (c'\<lparr>wt_admissions := n\<rparr>) = wt_kv c'"
      "wt_kv (c'\<lparr>wt_rejections := n\<rparr>) = wt_kv c'" "wt_kv (c'\<lparr>wt_evictions := n\<rparr>) = wt_kv c'"
      "wt_keys (c'\<lparr>wt_evictions := n\<rparr>) = wt_keys c'"
      "wt_caps (c'\<lparr>wt_admissions := n\<rparr>) = wt_caps c'" "wt_caps (c'\<lparr>wt_rejections := n\<rparr>) = wt_caps c'"
      "wt_caps (c'\<lparr>wt_evictions := n\<rparr>) = wt_caps c'" for c' n
    by (simp_all add: wt_inv_def wt_kv_def wt_keys_def wt_caps_def)
  show ?thesis
  proof (cases ?full)
    case False
    then have room: "length (wt_probation c1) + length (wt_protected c1) < unat (wt_probation_capacity c1) + unat (wt_protected_capacity c1)"
      using c1(7,8) caps1 by simp
    note e = wt_enter_probation_ok [OF c1(2,5) room, of "we_value e"]
    show ?thesis
      using False ne last wt_main_size [OF inv] c1(1,3,4,6) e kv
      by (auto simp: wt_try_admit_from_window_def count Let_def simp del: of_nat_add)
  next
    case full: True
    show ?thesis
    proof (cases "wt_probation c = []")
      case True
      show ?thesis
        using True full ne last wt_main_size [OF inv] c1(1-4,6)
      by (auto simp: wt_try_admit_from_window_def count Let_def simp del: of_nat_add)
    next
      case False
      obtain j v where victim: "nl_last (wt_probation c) = Some (j, v)" and vmem: "(j, v) \<in> set (wt_probation c)"
        by (rule nl_last_split [OF False])
      have est: "tl_estimate (wt_cms c) k = Some (cms_val tl_hash (wt_cms c) k)" for k
        using cms_estimate_val [OF wt_invD(3) [OF inv]] by (simp add: tl_estimate_def)
      show ?thesis
      proof (cases "cms_val tl_hash (wt_cms c) (we_key e) > cms_val tl_hash (wt_cms c) (we_key v)")
        case True
        obtain c2 where c2: "wt_drop_probation j (we_key v) c = Some c2" "wt_inv c2" "wt_caps c2 = wt_caps c"
            "wt_kv c2 = wt_kv c - {(we_key v, we_value v)}"
            "length (wt_probation c2) = length (wt_probation c) - 1" "wt_window c2 = wt_window c" "wt_protected c2 = wt_protected c"
          by (rule wt_drop_probation_ok [OF inv vmem]) (rule that; assumption)
        let ?c2 = "c2\<lparr>wt_evictions := wt_evictions c2 + 1\<rparr>"
        have inv2: "wt_inv ?c2" and mem2: "(i, e) \<in> set (wt_window ?c2)" using c2(2,6) mem count by simp_all
        obtain c3 where c3: "wt_drop_window i (we_key e) ?c2 = Some c3" "wt_inv c3" "wt_caps c3 = wt_caps ?c2"
            "wt_kv c3 = wt_kv ?c2 - {(we_key e, we_value e)}" "we_key e \<notin> wt_keys c3"
            "length (wt_window c3) = length (wt_window ?c2) - 1" "wt_probation c3 = wt_probation ?c2" "wt_protected c3 = wt_protected ?c2"
          by (rule wt_drop_window_ok [OF inv2 mem2]) (rule that; assumption)
        have "length (wt_probation c) + length (wt_protected c) \<le> unat (wt_probation_capacity c) + unat (wt_protected_capacity c)"
          using inv by (simp add: wt_inv_def)
        moreover have "0 < length (wt_probation c)" using False by simp
        ultimately have "length (wt_probation c) - 1 + length (wt_protected c) < unat (wt_probation_capacity c) + unat (wt_protected_capacity c)"
          by linarith
        then have room: "length (wt_probation c3) + length (wt_protected c3) < unat (wt_probation_capacity c3) + unat (wt_protected_capacity c3)"
          using c3(3,7,8) c2(3,5,7) by (simp add: wt_caps_def)
        note en = wt_enter_probation_ok [OF c3(2,5) room, of "we_value e"]
        show ?thesis
          using True full False ne last victim est wt_main_size [OF inv] c2(1,3,4,6) c3(1,3,4,6) en kv
      by (auto simp: wt_try_admit_from_window_def count Let_def simp del: of_nat_add)
      next
        case no: False
        show ?thesis
          using no full False ne last victim est wt_main_size [OF inv] c1(1-4,6)
      by (auto simp: wt_try_admit_from_window_def count Let_def simp del: of_nat_add)
      qed
    qed
  qed
qed

lemma wt_admit_loop_ok:
  assumes "wt_inv c"
  shows "oks (wt_admit_loop c) (\<lambda>c'. wt_inv c' \<and> wt_caps c' = wt_caps c \<and> wt_kv c' \<subseteq> wt_kv c \<and>
    length (wt_window c') \<le> unat (wt_window_capacity c'))"
  using assms
proof (induction "length (wt_window c)" arbitrary: c rule: less_induct)
  case less
  show ?case
  proof (cases "length (wt_window c) > unat (wt_window_capacity c)")
    case True
    then have ne: "wt_window c \<noteq> []" by auto
    obtain c1 where c1: "wt_try_admit_from_window c = Some c1" "wt_inv c1" "wt_caps c1 = wt_caps c"
        "wt_kv c1 \<subseteq> wt_kv c" "length (wt_window c1) = length (wt_window c) - 1"
      using wt_try_admit_ok [OF less.prems ne] by (auto elim!: oksE)
    have "length (wt_window c1) < length (wt_window c)" using c1(5) ne by simp
    from less.hyps [OF this c1(2)] show ?thesis
      using True c1 by (subst wt_admit_loop.simps) (auto elim!: oks_mono)
  qed (use less.prems in \<open>subst wt_admit_loop.simps; simp\<close>)
qed

text \<open>Demotion and promotion keep every entry.\<close>

lemma wt_kv_perm:
  assumes "mset (wt_nodes c') = mset ((i, e\<lparr>we_segment := s\<rparr>) # rest)" and "mset (wt_nodes c) = mset ((i, e) # rest)"
  shows "wt_kv c' = wt_kv c"
  unfolding wt_kv_def using mset_eq_setD [OF assms(1)] mset_eq_setD [OF assms(2)] by simp

lemma wt_demote_ok:
  assumes inv: "wt_inv c" and ne: "wt_protected c \<noteq> []"
  shows "oks (wt_demote c) (\<lambda>c'. wt_inv c' \<and> wt_caps c' = wt_caps c \<and> wt_kv c' = wt_kv c \<and> wt_keys c' = wt_keys c \<and> wt_ids c' = wt_ids c \<and>
    wt_fresh c' = wt_fresh c \<and> wt_window c' = wt_window c \<and>
    length (wt_protected c') < unat (wt_protected_capacity c) \<and> length (wt_probation c') + length (wt_protected c') = length (wt_probation c) + length (wt_protected c))"
proof -
  obtain i e where last: "nl_last (wt_protected c) = Some (i, e)" and mem: "(i, e) \<in> set (wt_protected c)"
    by (rule nl_last_split [OF ne])
  have dist: "distinct (map fst (wt_protected c))" using wt_invD(1) [OF inv] by (simp add: indexed_def)
  obtain as bs where s: "wt_protected c = as @ (i, e) # bs" "i \<notin> fst ` set as" "i \<notin> fst ` set bs"
      "\<And>f. nl_modify i f (wt_protected c) = Some (as @ (i, f e) # bs)"
    by (rule nl_split [OF dist mem]) (rule that; assumption)
  let ?e = "e\<lparr>we_segment := Seg_Probation\<rparr>"
  have "map_of as i = None" "map_of bs i = None" using s(2,3) by (simp_all add: map_of_eq_None_iff)
  then have splice: "nl_splice i (as @ (i, ?e) # bs) (wt_probation c) = Some (as @ bs, (i, ?e) # wt_probation c)"
    using s(2,3) by (simp add: nl_splice_def nl_deref_def nl_erase_def map_add_def)
  have "map_of (wt_map c) (we_key e) = Some i"
    using indexed_find [OF wt_invD(1) [OF inv], of "we_key e" i] mem by auto
  then have upd: "AList.update (we_key e) i (wt_map c) = wt_map c" by (rule update_triv)
  let ?c = "c\<lparr>wt_protected := as @ bs, wt_probation := (i, ?e) # wt_probation c\<rparr>"
  let ?rest = "wt_window c @ wt_probation c @ as @ bs"
  have perm: "mset (wt_nodes c) = mset ((i, e) # ?rest)" "mset (wt_nodes ?c) = mset ((i, ?e) # ?rest)" by (simp_all add: s(1))
  have "indexed we_key ((i, ?e) # ?rest) (wt_map c) (wt_fresh c)"
    by (rule indexed_modify [OF indexed_perm [OF perm(1), THEN iffD1, OF wt_invD(1) [OF inv]]]) simp
  then have "indexed we_key (wt_nodes ?c) (wt_map c) (wt_fresh c)" by (rule indexed_perm [OF perm(2), THEN iffD2])
  then have "wt_inv ?c" using inv by (auto simp: wt_inv_def s(1))
  moreover have "wt_keys ?c = wt_keys c" "wt_ids ?c = wt_ids c"
    unfolding wt_keys_def wt_ids_def mset_eq_setD [OF perm(1)] mset_eq_setD [OF perm(2)] by simp_all
  moreover have "length (as @ (i, e) # bs) \<le> unat (wt_protected_capacity c)" using inv s(1) by (simp add: wt_inv_def)
  ultimately show ?thesis
    using last s(1,4) splice upd wt_kv_perm [OF perm(2,1)] by (auto simp: wt_demote_def wt_caps_def s(4) [unfolded s(1)])
qed

lemma wt_promote_ok:
  assumes inv: "wt_inv c" and mem: "(i, e) \<in> set (wt_probation c)"
  shows "oks (wt_promote_to_protected i c) (\<lambda>c'. wt_inv c' \<and> wt_caps c' = wt_caps c \<and> wt_kv c' = wt_kv c \<and>
    wt_window c' = wt_window c \<and> wt_deref i c' = None)"
proof -
  have deref: "wt_deref i c = Some e"
    using nl_deref_Some [OF indexed_ids [OF wt_invD(1) [OF inv]], of i e] mem by (simp add: wt_deref_def)
  obtain c1 where c1: "wt_drop_probation i (we_key e) c = Some c1" "wt_inv c1" "wt_caps c1 = wt_caps c"
      "wt_kv c1 = wt_kv c - {(we_key e, we_value e)}" "we_key e \<notin> wt_keys c1"
      "length (wt_probation c1) = length (wt_probation c) - 1" "wt_window c1 = wt_window c" "wt_protected c1 = wt_protected c"
      "wt_fresh c1 = wt_fresh c" "i \<notin> wt_ids c1"
    by (rule wt_drop_probation_ok [OF inv mem]) (rule that; assumption)
  have caps: "wt_probation_capacity c1 = wt_probation_capacity c" "wt_protected_capacity c1 = wt_protected_capacity c"
    using c1(3) by (simp_all add: wt_caps_def)
  have room1: "length (wt_probation c1) + length (wt_protected c1) < unat (wt_probation_capacity c) + unat (wt_protected_capacity c)"
  proof -
    have "0 < length (wt_probation c)" using mem by (cases "wt_probation c") auto
    moreover have "length (wt_probation c) + length (wt_protected c) \<le> unat (wt_probation_capacity c) + unat (wt_protected_capacity c)"
      using inv by (simp add: wt_inv_def)
    ultimately show ?thesis unfolding c1(6,8) by linarith
  qed
  let ?full = "length (wt_protected c1) \<ge> unat (wt_protected_capacity c1)"
  have "oks (if ?full then wt_demote c1 else Some c1) (\<lambda>c2. wt_inv c2 \<and> wt_caps c2 = wt_caps c1 \<and> wt_kv c2 = wt_kv c1 \<and>
    wt_keys c2 = wt_keys c1 \<and> wt_ids c2 = wt_ids c1 \<and> wt_fresh c2 = wt_fresh c1 \<and> wt_window c2 = wt_window c1 \<and>
    length (wt_protected c2) < unat (wt_protected_capacity c1) \<and>
    length (wt_probation c2) + length (wt_protected c2) = length (wt_probation c1) + length (wt_protected c1))"
  proof (cases ?full)
    case True
    then have "wt_protected c1 \<noteq> []" using wt_invD(4) [OF c1(2)] by (auto simp: word_less_nat_alt)
    then show ?thesis using wt_demote_ok [OF c1(2)] True by simp
  qed (use c1(2) in simp)
  then obtain c2 where c2: "(if ?full then wt_demote c1 else Some c1) = Some c2" "wt_inv c2" "wt_caps c2 = wt_caps c1"
      "wt_kv c2 = wt_kv c1" "wt_keys c2 = wt_keys c1" "wt_ids c2 = wt_ids c1" "wt_fresh c2 = wt_fresh c1" "wt_window c2 = wt_window c1"
      "length (wt_protected c2) < unat (wt_protected_capacity c1)"
      "length (wt_probation c2) + length (wt_protected c2) = length (wt_probation c1) + length (wt_protected c1)"
    by (rule oksE) (elim conjE, rule that; assumption)
  let ?e = "e\<lparr>we_segment := Seg_Protected\<rparr>"
  let ?c = "c2\<lparr>wt_protected := (wt_fresh c2, ?e) # wt_protected c2, wt_map := AList.update (we_key e) (wt_fresh c2) (wt_map c2),
    wt_fresh := Suc (wt_fresh c2)\<rparr>"
  have key: "we_key ?e \<notin> wt_keys c2" using c1(5) c2(5) by simp
  note ins = wt_put_in [OF c2(2) key, of ?c]
  have "wt_inv ?c" using c2(2,3,9,10) room1 ins(1) caps by (simp add: wt_inv_def wt_caps_def)
  moreover have "(we_key e, we_value e) \<in> wt_kv c" using mem by (force simp: wt_kv_def)
  then have "insert (we_key e, we_value e) (wt_kv c2) = wt_kv c" unfolding c2(4) c1(4) by auto
  then have "wt_kv ?c = wt_kv c" using ins(2) by simp
  moreover have "wt_deref i ?c = None"
  proof -
    have "\<forall>p \<in> set (wt_nodes c). fst p < wt_fresh c" using wt_invD(1) [OF inv] unfolding indexed_def by (elim conjE)
    moreover have "(i, e) \<in> set (wt_nodes c)" using mem by simp
    ultimately have "i < wt_fresh c" by (metis fst_conv)
    then have "i \<notin> insert (wt_fresh c2) (wt_ids c2)" using c1(9,10) c2(6,7) by simp
    moreover have "fst ` set (wt_nodes ?c) = insert (wt_fresh c2) (wt_ids c2)" by (simp add: wt_ids_def image_Un)
    ultimately show ?thesis unfolding wt_deref_def nl_deref_def map_of_eq_None_iff by (simp only: not_False_eq_True)
  qed
  ultimately show ?thesis
    using deref c1(1,3,7) c2(1,3,8) by (simp add: wt_promote_to_protected_def wt_caps_def)
qed

text \<open>The switch on the segment: order and lists change, the entries do not.\<close>

lemma nl_to_front_ok:
  assumes "distinct (map fst xs)" and "(i, x) \<in> set xs"
  obtains ys where "nl_to_front i xs = Some ys" and "mset ys = mset xs" and "set ys = set xs"
proof -
  obtain as bs where "xs = as @ (i, x) # bs" "nl_to_front i xs = Some ((i, x) # as @ bs)"
    by (rule nl_split [OF assms])
  then show ?thesis by (intro that [of "(i, x) # as @ bs"]) auto
qed

lemma wt_reorder:
  assumes "wt_inv c" and "mset (wt_window c') = mset (wt_window c)" and "mset (wt_protected c') = mset (wt_protected c)"
    and "wt_probation c' = wt_probation c" and "wt_map c' = wt_map c" and "wt_fresh c' = wt_fresh c" and "wt_caps c' = wt_caps c"
    and "wt_doorkeeper c' = wt_doorkeeper c" and "wt_cms c' = wt_cms c"
  shows "wt_inv c'" and "wt_kv c' = wt_kv c"
proof -
  have perm: "mset (wt_nodes c') = mset (wt_nodes c)" by (simp add: assms(2-4))
  have "indexed we_key (wt_nodes c') (wt_map c) (wt_fresh c)" using indexed_perm [OF perm, of we_key] wt_invD(1) [OF assms(1)] by simp
  moreover have "set (wt_window c') = set (wt_window c)" "set (wt_protected c') = set (wt_protected c)"
    "length (wt_protected c') = length (wt_protected c)"
    using mset_eq_setD mset_eq_length assms(2,3) by blast+
  ultimately show "wt_inv c'" using assms by (simp add: wt_inv_def wt_caps_def)
  show "wt_kv c' = wt_kv c" unfolding wt_kv_def mset_eq_setD [OF perm] by simp
qed

lemma wt_deref_Some: "wt_inv c \<Longrightarrow> wt_deref i c = Some e \<longleftrightarrow> (i, e) \<in> set (wt_nodes c)"
  unfolding wt_deref_def by (rule nl_deref_Some [OF indexed_ids [OF wt_invD(1)]])

lemma wt_touch_ok:
  assumes inv: "wt_inv c" and mem: "(i, e) \<in> set (wt_nodes c)"
  shows "oks (wt_touch i c) (\<lambda>c'. wt_inv c' \<and> wt_caps c' = wt_caps c \<and> wt_kv c' = wt_kv c \<and>
    length (wt_window c') = length (wt_window c) \<and>
    wt_deref i c' = (if we_segment e = Seg_Probation then None else Some e))"
proof -
  have deref: "wt_deref i c = Some e" using wt_deref_Some [OF inv] mem by simp
  have seg: "(i, e) \<in> set (wt_window c)" if "we_segment e = Seg_Window" using that inv mem by (auto simp: wt_inv_def)
  have seg2: "(i, e) \<in> set (wt_probation c)" if "we_segment e = Seg_Probation" using that inv mem by (auto simp: wt_inv_def)
  have seg3: "(i, e) \<in> set (wt_protected c)" if "we_segment e = Seg_Protected" using that inv mem by (auto simp: wt_inv_def)
  have dist: "distinct (map fst (wt_window c))" "distinct (map fst (wt_protected c))"
    using wt_invD(1) [OF inv] by (simp_all add: indexed_def)
  show ?thesis
  proof (cases "we_segment e")
    case Seg_Window
    obtain xs where xs: "nl_to_front i (wt_window c) = Some xs" "mset xs = mset (wt_window c)" "set xs = set (wt_window c)"
      by (rule nl_to_front_ok [OF dist(1) seg [OF Seg_Window]])
    note r = wt_reorder [OF inv, of "c\<lparr>wt_window := xs\<rparr>"]
    have inv': "wt_inv (c\<lparr>wt_window := xs\<rparr>)" using r(1) xs(2) by (simp add: wt_caps_def)
    show ?thesis
      using deref Seg_Window xs inv' r(2) mset_eq_length [OF xs(2)] wt_deref_Some [OF inv', of i e] mem by (simp add: wt_touch_def wt_caps_def)
  next
    case Seg_Probation
    show ?thesis
      using deref Seg_Probation wt_promote_ok [OF inv seg2 [OF Seg_Probation]] by (auto simp: wt_touch_def elim!: oks_mono)
  next
    case Seg_Protected
    obtain xs where xs: "nl_to_front i (wt_protected c) = Some xs" "mset xs = mset (wt_protected c)" "set xs = set (wt_protected c)"
      by (rule nl_to_front_ok [OF dist(2) seg3 [OF Seg_Protected]])
    note r = wt_reorder [OF inv, of "c\<lparr>wt_protected := xs\<rparr>"]
    have inv': "wt_inv (c\<lparr>wt_protected := xs\<rparr>)" using r(1) xs(2) by (simp add: wt_caps_def)
    show ?thesis
      using deref Seg_Protected xs inv' r(2) wt_deref_Some [OF inv', of i e] mem by (simp add: wt_touch_def wt_caps_def)
  qed
qed

section \<open>Operations\<close>

lemma wt_find:
  assumes "wt_inv c"
  shows "map_of (wt_map c) key = Some i \<longleftrightarrow> (\<exists>e. (i, e) \<in> set (wt_nodes c) \<and> we_key e = key)"
  using indexed_find [OF wt_invD(1) [OF assms]] by blast

definition in_probation :: "wtinylfu \<Rightarrow> string \<Rightarrow> bool" where
  "in_probation c key \<longleftrightarrow> (\<exists>p \<in> set (wt_probation c). we_key (snd p) = key)"

lemma wt_get_ok:
  assumes inv: "wt_inv c"
  shows "if in_probation c key then wt_get key c = None
    else oks (wt_get key c) (\<lambda>(r, c'). wt_inv c' \<and> wt_caps c' = wt_caps c \<and> r = wt_lookup c key \<and> wt_kv c' = wt_kv c \<and>
      length (wt_window c') = length (wt_window c))"
proof (cases "map_of (wt_map c) key")
  case None
  then have out: "key \<notin> wt_keys c" using wt_find_None [OF inv] by simp
  then have "\<not> in_probation c key" by (auto simp: in_probation_def wt_keys_def)
  moreover have "wt_inv (c\<lparr>wt_misses := n\<rparr>) = wt_inv c" "wt_kv (c\<lparr>wt_misses := n\<rparr>) = wt_kv c" for n
    by (simp_all add: wt_inv_def wt_kv_def)
  ultimately show ?thesis
    using None inv out wt_lookup_None [of c key] by (simp add: wt_get_def wt_caps_def)
next
  case (Some i)
  obtain e where e: "(i, e) \<in> set (wt_nodes c)" "we_key e = key" using Some wt_find [OF inv] by blast
  obtain c1 where c1: "wt_record_access key c = Some c1" "wt_same c c1" "wt_inv c1"
    by (rule wt_record_access_ok [OF inv])
  have nodes: "wt_nodes c1 = wt_nodes c" "wt_window c1 = wt_window c" "wt_caps c1 = wt_caps c" using c1(2) by (simp_all add: wt_same_def)
  have "(i, e) \<in> set (wt_nodes c1)" using e(1) nodes(1) by simp
  from wt_touch_ok [OF c1(3) this] obtain c2 where c2: "wt_touch i c1 = Some c2" "wt_inv c2" "wt_caps c2 = wt_caps c1" "wt_kv c2 = wt_kv c1"
      "length (wt_window c2) = length (wt_window c1)" "wt_deref i c2 = (if we_segment e = Seg_Probation then None else Some e)"
    by (rule oksE) (elim conjE, rule that; assumption)
  have count: "wt_inv (c2\<lparr>wt_hits := n\<rparr>) = wt_inv c2" "wt_kv (c2\<lparr>wt_hits := n\<rparr>) = wt_kv c2" "wt_caps (c2\<lparr>wt_hits := n\<rparr>) = wt_caps c2"
      "wt_deref i (c2\<lparr>wt_hits := n\<rparr>) = wt_deref i c2" for n
    by (simp_all add: wt_inv_def wt_kv_def wt_caps_def wt_deref_def)
  have "in_probation c key \<longleftrightarrow> we_segment e = Seg_Probation"
  proof
    assume "in_probation c key"
    then obtain p where p: "p \<in> set (wt_probation c)" "we_key (snd p) = key" unfolding in_probation_def by blast
    have "(fst p, snd p) \<in> set (wt_nodes c)" using p(1) by simp
    then have "e = snd p" using indexed_key_inj [OF wt_invD(1) [OF inv] e(1)] p(2) e(2) by blast
    then show "we_segment e = Seg_Probation" using p(1) inv by (auto simp: wt_inv_def)
  next
    assume "we_segment e = Seg_Probation"
    then have "(i, e) \<in> set (wt_probation c)" using e(1) inv by (auto simp: wt_inv_def)
    then show "in_probation c key" using e(2) unfolding in_probation_def by force
  qed
  moreover have "wt_lookup c key = Some (we_value e)"
    using wt_lookup_Some [OF inv, of key "we_value e"] e by (force simp: wt_kv_def)
  ultimately show ?thesis
    using Some c1 c2 nodes count wt_same_kv [OF c1(2)] by (simp add: wt_get_def Let_def)
qed

lemma indexed_map:
  assumes f: "\<And>p. fst (f p) = fst p" "\<And>p. key (snd (f p)) = key (snd p)" and ix: "indexed key xs m n"
  shows "indexed key (map f xs) m n"
proof -
  have "map fst (map f xs) = map fst xs" "map (\<lambda>p. key (snd p)) (map f xs) = map (\<lambda>p. key (snd p)) xs"
    by (simp_all add: f)
  moreover have "(\<lambda>p. (key (snd p), fst p)) ` set (map f xs) = (\<lambda>p. (key (snd p), fst p)) ` set xs"
    by (simp add: image_image f)
  moreover have "(\<forall>p \<in> set (map f xs). fst p < n) \<longleftrightarrow> (\<forall>p \<in> set xs. fst p < n)" by (simp add: f)
  ultimately show ?thesis using ix unfolding indexed_def by argo
qed

lemma wt_set_value_ok:
  assumes inv: "wt_inv c" and mem: "(i, e) \<in> set (wt_nodes c)"
  shows "oks (wt_set_value i val c) (\<lambda>c'. wt_inv c' \<and> wt_caps c' = wt_caps c \<and> length (wt_window c') = length (wt_window c) \<and>
    (i, e\<lparr>we_value := val\<rparr>) \<in> set (wt_nodes c') \<and> wt_kv c' = insert (we_key e, val) (wt_kv c - {(we_key e, we_value e)}))"
proof -
  define f :: "nat \<times> wt_entry \<Rightarrow> nat \<times> wt_entry" where "f = (\<lambda>(j, x). (j, if j = i then x\<lparr>we_value := val\<rparr> else x))"
  define d where "d = c\<lparr>wt_window := map f (wt_window c), wt_probation := map f (wt_probation c), wt_protected := map f (wt_protected c)\<rparr>"
  have d: "wt_window d = map f (wt_window c)" "wt_probation d = map f (wt_probation c)" "wt_protected d = map f (wt_protected c)"
      "wt_map d = wt_map c" "wt_fresh d = wt_fresh c" "wt_caps d = wt_caps c" "wt_doorkeeper d = wt_doorkeeper c" "wt_cms d = wt_cms c"
    by (simp_all add: d_def wt_caps_def)
  have f: "fst (f p) = fst p" "we_key (snd (f p)) = we_key (snd p)" "we_segment (snd (f p)) = we_segment (snd p)" for p
    by (simp_all add: f_def case_prod_beta)
  have run: "wt_set_value i val c = Some d"
    using wt_deref_Some [OF inv, of i e] mem by (simp add: wt_set_value_def Let_def d_def f_def)
  have nodes: "wt_nodes d = map f (wt_nodes c)" by (simp add: d)
  have "indexed we_key (wt_nodes d) (wt_map d) (wt_fresh d)"
    unfolding nodes d(4,5) by (rule indexed_map [OF f(1,2) wt_invD(1) [OF inv]])
  then have inv': "wt_inv d" using inv d(1-3,6-8) by (simp add: wt_inv_def wt_caps_def f del: map_append)
  obtain as bs where split: "wt_nodes c = as @ (i, e) # bs" using split_list [OF mem] by blast
  have "distinct (map fst (wt_nodes c))" by (rule indexed_ids [OF wt_invD(1) [OF inv]])
  then have out: "\<forall>p \<in> set as \<union> set bs. fst p \<noteq> i" unfolding split by force
  have keys: "\<forall>p \<in> set as \<union> set bs. we_key (snd p) \<noteq> we_key e"
  proof -
    have "distinct (map (\<lambda>p. we_key (snd p)) (wt_nodes c))" using wt_invD(1) [OF inv] by (simp add: indexed_def)
    then have "we_key e \<notin> (\<lambda>p. we_key (snd p)) ` (set as \<union> set bs)" unfolding split by (simp add: image_Un)
    then show ?thesis by (metis image_eqI)
  qed
  have "f p = p" if "p \<in> set as \<union> set bs" for p using that out by (cases p) (force simp: f_def)
  then have "map f as = as" "map f bs = bs" by (simp_all add: map_idI)
  then have nodes': "wt_nodes d = as @ (i, e\<lparr>we_value := val\<rparr>) # bs" unfolding nodes split by (simp add: f_def)
  have kv: "wt_kv d = insert (we_key e, val) (wt_kv c - {(we_key e, we_value e)})"
  proof -
    let ?g = "\<lambda>p. (we_key (snd p), we_value (snd p))"
    have "(we_key e, we_value e) \<notin> ?g ` set as \<union> ?g ` set bs"
    proof
      assume "(we_key e, we_value e) \<in> ?g ` set as \<union> ?g ` set bs"
      then have "we_key e \<in> (\<lambda>p. we_key (snd p)) ` (set as \<union> set bs)" by fastforce
      with keys show False by force
    qed
    then show ?thesis unfolding wt_kv_def nodes' split by (simp add: image_Un)
  qed
  have "(i, e\<lparr>we_value := val\<rparr>) \<in> set (wt_nodes d)" unfolding nodes' by simp
  moreover have "length (wt_window d) = length (wt_window c)" by (simp add: d)
  ultimately show ?thesis unfolding run oks_Some using inv' kv d(6) by blast
qed

lemma wt_put_ok:
  assumes inv: "wt_inv c" and win: "length (wt_window c) \<le> unat (wt_window_capacity c)"
  shows "oks (wt_put key val c) (\<lambda>(r, c'). wt_inv c' \<and> wt_caps c' = wt_caps c \<and> length (wt_window c') \<le> unat (wt_window_capacity c') \<and>
    r = (wt_lookup c key = None) \<and> wt_kv c' \<subseteq> insert (key, val) {(k, v) \<in> wt_kv c. k \<noteq> key})"
proof -
  obtain c1 where c1: "wt_record_access key c = Some c1" "wt_same c c1" "wt_inv c1"
    by (rule wt_record_access_ok [OF inv])
  have nodes: "wt_nodes c1 = wt_nodes c" "wt_window c1 = wt_window c" "wt_caps c1 = wt_caps c" "wt_kv c1 = wt_kv c"
    using c1(2) wt_same_kv [OF c1(2)] by (simp_all add: wt_same_def)
  have look: "wt_lookup c1 = wt_lookup c" by (rule wt_lookup_eq [OF inv c1(3) nodes(4)])
  show ?thesis
  proof (cases "map_of (wt_map c1) key")
    case None
    then have out: "key \<notin> wt_keys c1" using wt_find_None [OF c1(3)] by simp
    let ?e = "\<lparr>we_key = key, we_value = val, we_segment = Seg_Window\<rparr>"
    let ?c = "c1\<lparr>wt_window := (wt_fresh c1, ?e) # wt_window c1, wt_map := AList.update key (wt_fresh c1) (wt_map c1), wt_fresh := Suc (wt_fresh c1)\<rparr>"
    have key: "we_key ?e \<notin> wt_keys c1" using out by simp
    note ins = wt_put_in [OF c1(3) key, of ?c]
    have inv2: "wt_inv ?c" using c1(3) ins(1) by (simp add: wt_inv_def)
    have kv2: "wt_kv ?c = insert (key, val) (wt_kv c)" using ins(2) nodes(4) by simp
    have fresh: "k \<noteq> key" if "(k, v) \<in> wt_kv c" for k v
      using that out nodes(1) by (auto simp: wt_kv_def wt_keys_def)
    have new: "wt_lookup c key = None" using out look wt_lookup_None [of c1 key] by simp
    obtain c3 where c3: "wt_admit_loop ?c = Some c3" "wt_inv c3" "wt_caps c3 = wt_caps ?c" "wt_kv c3 \<subseteq> wt_kv ?c"
        "length (wt_window c3) \<le> unat (wt_window_capacity c3)"
      by (rule oksE [OF wt_admit_loop_ok [OF inv2]]) (elim conjE, rule that; assumption)
    have "wt_kv c3 \<subseteq> insert (key, val) {(k, v) \<in> wt_kv c. k \<noteq> key}" using c3(4) fresh unfolding kv2 by auto
    then show ?thesis
      using c1(1) None c3 nodes(3) new by (simp add: wt_put_def Let_def wt_caps_def)
  next
    case (Some i)
    obtain e where e: "(i, e) \<in> set (wt_nodes c1)" "we_key e = key" using Some wt_find [OF c1(3)] by blast
    have kve: "(key, we_value e) \<in> wt_kv c1" using e by (force simp: wt_kv_def)
    then have old: "wt_lookup c key = Some (we_value e)" using wt_lookup_Some [OF c1(3)] look by simp
    obtain c2 where c2: "wt_set_value i val c1 = Some c2" "wt_inv c2" "wt_caps c2 = wt_caps c1" "length (wt_window c2) = length (wt_window c1)"
        "(i, e\<lparr>we_value := val\<rparr>) \<in> set (wt_nodes c2)" "wt_kv c2 = insert (we_key e, val) (wt_kv c1 - {(we_key e, we_value e)})"
      by (rule oksE [OF wt_set_value_ok [OF c1(3) e(1)]]) (elim conjE, rule that; assumption)
    obtain c3 where c3: "wt_touch i c2 = Some c3" "wt_inv c3" "wt_caps c3 = wt_caps c2" "wt_kv c3 = wt_kv c2"
        "length (wt_window c3) = length (wt_window c2)"
      by (rule oksE [OF wt_touch_ok [OF c2(2,5)]]) (elim conjE, rule that; assumption)
    have "k = key \<Longrightarrow> v = we_value e" if "(k, v) \<in> wt_kv c1" for k v
      using that kve wt_lookup_Some [OF c1(3)] by (metis option.inject)
    then have "wt_kv c3 \<subseteq> insert (key, val) {(k, v) \<in> wt_kv c. k \<noteq> key}"
      using c3(4) c2(6) e(2) nodes(4) by auto
    moreover have "length (wt_window c3) \<le> unat (wt_window_capacity c3)"
      using win c3(3,5) c2(3,4) nodes(2,3) by (simp add: wt_caps_def)
    ultimately show ?thesis
      using c1(1) Some c2(1,3) c3(1-3) nodes(3) old by (simp add: wt_put_def wt_caps_def)
  qed
qed

section \<open>A cache in use\<close>

definition wt_good :: "u32 \<Rightarrow> wtinylfu \<Rightarrow> bool" where
  "wt_good capacity c \<longleftrightarrow> wt_inv c \<and> length (wt_window c) \<le> unat (wt_window_capacity c) \<and>
     unat (wt_window_capacity c) + unat (wt_probation_capacity c) + unat (wt_protected_capacity c) = unat capacity"

lemma wt_split_capacity:
  assumes c: "2 \<le> capacity" and w: "unat (w :: u32) < unat capacity"
  obtains v m where "v = (if max 3 w \<ge> capacity - 2 then capacity div 4 else max 3 w)" and "m = capacity - v"
    and "unat v + unat m = unat capacity" and "2 \<le> unat m"
proof -
  have c': "2 \<le> unat capacity" "unat (capacity - 2) = unat capacity - 2" using c by (simp_all add: word_le_nat_alt unat_sub)
  let ?v = "if max 3 w \<ge> capacity - 2 then capacity div 4 else max 3 w"
  have v: "unat ?v + 2 \<le> unat capacity"
  proof (cases "max 3 w \<ge> capacity - 2")
    case False
    then have "unat (max 3 w) < unat capacity - 2" using c'(2) by (simp add: word_less_nat_alt not_le)
    then show ?thesis using False by auto
  qed (use c'(1) in \<open>simp add: unat_div\<close>)
  then have "?v \<le> capacity" by (simp add: word_le_nat_alt)
  then have "unat (capacity - ?v) = unat capacity - unat ?v" by (rule unat_sub)
  then have "unat ?v + unat (capacity - ?v) = unat capacity \<and> 2 \<le> unat (capacity - ?v)" using v by linarith
  then show ?thesis by (intro that [OF refl refl]) (erule conjunct1, erule conjunct2)
qed

lemma f32_fraction_less:
  assumes "4 * f_mant f < 2 ^ f_scale f" and "0 < unat c"
  obtains w where "f32_to_u32 (u32_times_f32 c f) = Some w" and "unat w < unat c"
  by (rule f32_fraction [OF assms(1), of c]) (use assms(2) that in blast)

lemma wt_new_ok:
  assumes c: "2 \<le> capacity" "unat capacity * 8 + 63 < 2 ^ 32"
    and pct: "4 * f_mant window_pct < 2 ^ f_scale window_pct" "4 * f_mant probation_pct < 2 ^ f_scale probation_pct"
  shows "oks (wt_new capacity window_pct probation_pct) (\<lambda>c. wt_good capacity c \<and> wt_nodes c = [] \<and> wt_map c = [])"
proof -
  have pos: "0 < unat capacity" using c(1) by (simp add: word_le_nat_alt)
  obtain w where w: "f32_to_u32 (u32_times_f32 capacity window_pct) = Some w" "unat w < unat capacity"
    by (rule f32_fraction_less [OF pct(1) pos])
  obtain v m where vm: "v = (if max 3 w \<ge> capacity - 2 then capacity div 4 else max 3 w)" "m = capacity - v"
      "unat v + unat m = unat capacity" "2 \<le> unat m"
    by (rule wt_split_capacity [OF c(1) w(2)])
  obtain p where p: "f32_to_u32 (u32_times_f32 m probation_pct) = Some p" "unat p < unat m"
    by (rule f32_fraction_less [OF pct(2), of m]) (use vm(4) in simp)
  have q: "unat (max 1 p) < unat m" using p(2) vm(4) by (auto simp: max_def)
  then have "unat (m - max 1 p) = unat m - unat (max 1 p)" by (intro unat_sub) (simp add: word_le_nat_alt)
  then have sum: "unat (max 1 p) + unat (m - max 1 p) = unat m" "0 < m - max 1 p" using q by (simp_all add: word_less_nat_alt)
  have dk: "dk_ok (dk_new (capacity * 8))"
    by (rule dk_new_ok) (use c pos in \<open>simp_all add: unat_mult_u32 word_less_nat_alt\<close>)
  show ?thesis
    using w(1) p(1) vm(1-3) sum dk tl_new_ok unat_u32_bound [of m]
    by (simp add: wt_new_def Let_def wt_good_def wt_inv_def del: unat_eq_zero)
qed

lemma wt_good_inv: "wt_good capacity c \<Longrightarrow> wt_inv c"
  by (simp add: wt_good_def)

lemma wt_good_size:
  assumes "wt_good capacity c" shows "wt_size c \<le> capacity"
proof -
  have inv: "wt_inv c" using assms by (simp add: wt_good_def)
  have "length (wt_map c) = length (wt_nodes c)" by (rule indexed_length [OF wt_invD(1) [OF inv]])
  then have "length (wt_map c) \<le> unat capacity" using assms by (simp add: wt_good_def wt_inv_def)
  then show ?thesis using unat_u32_bound [of capacity] by (simp add: wt_size_def word_le_nat_alt unat_of_nat_u32)
qed

lemma wt_get_good:
  assumes "wt_good capacity c" and "\<not> in_probation c key"
  shows "oks (wt_get key c) (\<lambda>(r, c'). wt_good capacity c' \<and> r = wt_lookup c key \<and> wt_lookup c' = wt_lookup c)"
proof -
  have inv: "wt_inv c" using assms(1) by (simp add: wt_good_def)
  obtain r c' where c': "wt_get key c = Some (r, c')" "wt_inv c'" "wt_caps c' = wt_caps c" "r = wt_lookup c key"
      "wt_kv c' = wt_kv c" "length (wt_window c') = length (wt_window c)"
    using wt_get_ok [OF inv, of key] assms(2) by (auto elim!: oksE)
  have "wt_good capacity c'" using assms(1) c'(2,3,6) by (simp add: wt_good_def wt_caps_def)
  moreover have "wt_lookup c' = wt_lookup c" by (rule wt_lookup_eq [OF inv c'(2,5)])
  ultimately show ?thesis unfolding c'(1) using c'(4) by simp
qed

lemma wt_put_good:
  assumes "wt_good capacity c"
  shows "oks (wt_put key val c) (\<lambda>(r, c'). wt_good capacity c' \<and> wt_lookup c' key \<in> {Some val, None} \<and>
    (\<forall>k. k \<noteq> key \<longrightarrow> wt_lookup c' k \<in> {wt_lookup c k, None}))"
proof -
  have inv: "wt_inv c" and win: "length (wt_window c) \<le> unat (wt_window_capacity c)" using assms by (simp_all add: wt_good_def)
  obtain r c' where c': "wt_put key val c = Some (r, c')" "wt_inv c'" "wt_caps c' = wt_caps c"
      "length (wt_window c') \<le> unat (wt_window_capacity c')" "wt_kv c' \<subseteq> insert (key, val) {(k, v) \<in> wt_kv c. k \<noteq> key}"
    using wt_put_ok [OF inv win, of key val] by (auto elim!: oksE)
  have "wt_lookup c' key \<in> {Some val, None}"
    using c'(5) wt_lookup_Some [OF c'(2), of key] by (cases "wt_lookup c' key") auto
  moreover have "wt_lookup c' k \<in> {wt_lookup c k, None}" if "k \<noteq> key" for k
  proof (cases "wt_lookup c' k")
    case (Some v)
    then have "(k, v) \<in> wt_kv c" using c'(5) that wt_lookup_Some [OF c'(2), of k v] by auto
    then show ?thesis using Some wt_lookup_Some [OF inv, of k v] by simp
  qed simp
  moreover have "wt_good capacity c'" using assms c'(2-4) by (simp add: wt_good_def wt_caps_def)
  ultimately show ?thesis unfolding c'(1) by simp
qed

interpretation wt: lossy_put wt_put wt_lookup "wt_good capacity" for capacity
  by unfold_locales (rule wt_put_good)

text \<open>Any sequence of operations: it ends well, or at a read of a key that is in probation.\<close>

lemma wt_run:
  assumes "wt_good capacity c" and "wt_lookup c \<subseteq>\<^sub>m w"
  shows "case run_access wt_get wt_put ops c of
      Some (rs, c') \<Rightarrow> wt_good capacity c' \<and> list_all2 sound_answer rs (exact_answers ops w) \<and> wt_lookup c' \<subseteq>\<^sub>m written ops w
    | None \<Rightarrow> \<exists>before k rest rs c'. ops = before @ Read k # rest \<and> run_access wt_get wt_put before c = Some (rs, c') \<and> in_probation c' k"
  using assms
proof (induction ops arbitrary: c w)
  case (Cons op ops)
  show ?case
  proof (cases op)
    case (Read k)
    show ?thesis
    proof (cases "in_probation c k")
      case True
      then have "wt_get k c = None" using wt_get_ok [of c k] Cons.prems(1) by (simp add: wt_good_def)
      moreover have "run_access wt_get wt_put [] c = Some ([], c)" by simp
      ultimately show ?thesis using True unfolding Read by (simp del: run_access.simps(1)) (metis append_Nil)
    next
      case False
      obtain r c1 where e: "wt_get k c = Some (r, c1)" "wt_good capacity c1" "r = wt_lookup c k" "wt_lookup c1 = wt_lookup c"
        using wt_get_good [OF Cons.prems(1) False] by (auto elim!: oksE)
      have "sound_answer r (w k)"
        using Cons.prems(2) e(3) by (cases "wt_lookup c k") (auto simp: sound_answer_def map_le_def dom_def)
      moreover have "\<exists>before k' rest rs c'. op # ops = before @ Read k' # rest \<and> run_access wt_get wt_put before c = Some (rs, c') \<and> in_probation c' k'"
        if "ops = before @ Read k' # rest" "run_access wt_get wt_put before c1 = Some (rs, c')" "in_probation c' k'" for before k' rest rs c'
        using that e(1) by (intro exI [of _ "op # before"] exI [of _ k'] exI [of _ rest] exI [of _ "r # rs"] exI [of _ c']) (simp add: Read)
      ultimately show ?thesis using Cons.IH [of c1 w] Cons.prems(2) e unfolding Read by (fastforce split: option.splits)
    qed
  next
    case (Write k v)
    obtain r c1 where e: "wt_put k v c = Some (r, c1)" "wt_good capacity c1" "wt_lookup c1 \<subseteq>\<^sub>m w(k \<mapsto> v)"
      using wt.put_sound [OF Cons.prems, of k v] by (auto elim!: oksE)
    have "\<exists>before k' rest rs c'. op # ops = before @ Read k' # rest \<and> run_access wt_get wt_put before c = Some (rs, c') \<and> in_probation c' k'"
      if "ops = before @ Read k' # rest" "run_access wt_get wt_put before c1 = Some (rs, c')" "in_probation c' k'" for before k' rest rs c'
      using that e(1) by (intro exI [of _ "op # before"] exI [of _ k'] exI [of _ rest] exI [of _ rs] exI [of _ c']) (simp add: Write)
    then show ?thesis using Cons.IH [OF e(2,3)] e(1) unfolding Write by (fastforce simp del: fun_upd_apply split: option.splits)
  qed
qed simp

section \<open>Properties\<close>

lemma wt_default_fractions: "4 * f_mant f32_0_01 < 2 ^ f_scale f32_0_01" "4 * f_mant f32_0_20 < 2 ^ f_scale f32_0_20"
  by (simp_all add: f32_0_01_def f32_0_20_def)

lemma wt_started:
  assumes "2 \<le> capacity" and "unat capacity * 8 + 63 < 2 ^ 32"
  obtains c where "wt_new capacity f32_0_01 f32_0_20 = Some c" and "wt_good capacity c" and "wt_lookup c = Map.empty"
proof -
  obtain c where c: "wt_new capacity f32_0_01 f32_0_20 = Some c" "wt_good capacity c" "wt_nodes c = []"
    using wt_new_ok [OF assms wt_default_fractions] by (auto elim!: oksE)
  have "wt_lookup c = Map.empty" using c(3) by (simp add: wt_lookup_def fun_eq_iff)
  then show ?thesis by (rule that [OF c(1,2)])
qed

text \<open>C30. Type safety of the baseline W-TinyLFU cache: for every capacity from 2 up to the point where the filter's size wraps,
  construction succeeds, and any sequence of reads and writes either ends in a well-formed cache (every
  entry in the list its segment names, indexed once, within the segment capacities), with at most
  \<open>capacity\<close> entries and every read answered with the last value written to its key or a miss, or stops
  at a read of a key that is in probation.\<close>

theorem wt_cache_well_formed:
  assumes "2 \<le> capacity" and "unat capacity * 8 + 63 < 2 ^ 32"
  shows "oks (wt_new capacity f32_0_01 f32_0_20) (\<lambda>c0. case run_access wt_get wt_put ops c0 of
      Some (rs, c) \<Rightarrow> wt_inv c \<and> wt_size c \<le> capacity \<and> list_all2 sound_answer rs (exact_answers ops Map.empty)
    | None \<Rightarrow> \<exists>before k rest rs c. ops = before @ Read k # rest \<and>
        run_access wt_get wt_put before c0 = Some (rs, c) \<and> in_probation c k)"
proof -
  obtain c0 where c0: "wt_new capacity f32_0_01 f32_0_20 = Some c0" "wt_good capacity c0" "wt_lookup c0 = Map.empty"
    by (rule wt_started [OF assms])
  have "wt_lookup c0 \<subseteq>\<^sub>m Map.empty" by (simp add: c0(3))
  from wt_run [OF c0(2) this, of ops] show ?thesis
    unfolding c0(1) oks_Some by (auto simp: wt_good_inv wt_good_size split: option.splits)
qed

theorem wt_cache_well_formed_witness:
  "oks (wt_new 4 f32_0_01 f32_0_20) (\<lambda>c0. case run_access wt_get wt_put [Write ''a'' ''1'', Write ''b'' ''2'', Read ''b''] c0 of
      Some (rs, c) \<Rightarrow> wt_inv c \<and> wt_size c \<le> 4 \<and> list_all2 sound_answer rs [Some ''2'']
    | None \<Rightarrow> \<exists>before k rest rs c. [Write ''a'' ''1'', Write ''b'' ''2'', Read ''b''] = before @ Read k # rest \<and>
        run_access wt_get wt_put before c0 = Some (rs, c) \<and> in_probation c k)"
proof -
  have cap: "(2 :: u32) \<le> 4" "unat (4 :: u32) * 8 + 63 < 2 ^ 32" by simp_all
  have exact: "exact_answers [Write ''a'' ''1'', Write ''b'' ''2'', Read ''b''] Map.empty = [Some ''2'']" by simp
  show ?thesis using wt_cache_well_formed [OF cap, of "[Write ''a'' ''1'', Write ''b'' ''2'', Read ''b'']"] unfolding exact .
qed

text \<open>C31. In every state the baseline W-TinyLFU cache reaches, a read is undefined (it returns the value through a
  reference to an erased list node) exactly when its key is in the probation segment: the hit that
  promotes an entry.\<close>

theorem wt_read_undefined_iff:
  assumes "2 \<le> capacity" and "unat capacity * 8 + 63 < 2 ^ 32"
    and "wt_new capacity f32_0_01 f32_0_20 = Some c0" and "run_access wt_get wt_put ops c0 = Some (rs, c)"
  shows "wt_get key c = None \<longleftrightarrow> in_probation c key"
proof -
  have "wt_good capacity c0" "wt_lookup c0 = Map.empty" using wt_started [OF assms(1,2)] assms(3) by (metis option.inject)+
  then have "wt_inv c" using wt_run [of capacity c0 Map.empty ops] assms(4) by (auto dest: wt_good_inv)
  from wt_get_ok [OF this, of key] show ?thesis by (cases "in_probation c key") (auto elim: oksE)
qed

text \<open>Two writes to a cache of capacity 4: the first key is then in probation.\<close>

lemma wt_demo_new:
  obtains c where "wt_new 4 f32_0_01 f32_0_20 = Some c" and "wt_caps c = (1, 1, 2)" and "wt_map c = []" and "wt_fresh c = 0"
    and "wt_window c = []" and "wt_probation c = []" and "wt_protected c = []"
proof -
  obtain w where w: "f32_to_u32 (u32_times_f32 4 f32_0_01) = Some w"
    by (rule f32_fraction_less [OF wt_default_fractions(1), of 4]) simp_all
  have "f32_round 3 = 3" using f32_round_exact [of 3 0] by simp
  then have "u32_times_f32 3 f32_0_20 \<le> 80530638 div 67108864"
    using f32_round_upper [of 40265319] by (simp add: u32_times_f32_def f32_0_20_def div_le_mono)
  then have p: "u32_times_f32 3 f32_0_20 \<le> 1" by simp
  then have "f32_to_u32 (u32_times_f32 3 f32_0_20) = Some (of_nat (u32_times_f32 3 f32_0_20))"
    and "max 1 (of_nat (u32_times_f32 3 f32_0_20) :: u32) = 1"
    by (auto simp: f32_to_u32_def le_Suc_eq)
  moreover have "(4 :: u32) - 2 \<le> max 3 w" by (simp add: le_max_iff_disj)
  ultimately have "oks (wt_new 4 f32_0_01 f32_0_20) (\<lambda>c. wt_caps c = (1, 1, 2) \<and> wt_map c = [] \<and> wt_fresh c = 0 \<and>
    wt_window c = [] \<and> wt_probation c = [] \<and> wt_protected c = [])"
    by (simp add: wt_new_def Let_def w wt_caps_def)
  then show ?thesis by (rule oksE) (elim conjE, rule that; assumption)
qed

lemma wt_admit_loop_unfold:
  "length (wt_window c) \<le> unat (wt_window_capacity c) \<Longrightarrow> wt_admit_loop c = Some c"
  "length (wt_window c) > unat (wt_window_capacity c) \<Longrightarrow> wt_admit_loop c = wt_try_admit_from_window c \<bind> wt_admit_loop"
  by (subst wt_admit_loop.simps; simp)+

lemma wt_demo_run:
  obtains c0 rs c where "wt_new 4 f32_0_01 f32_0_20 = Some c0"
    and "run_access wt_get wt_put [Write ''a'' ''1'', Write ''b'' ''2''] c0 = Some (rs, c)" and "in_probation c ''a''"
proof -
  obtain c0 where c0: "wt_new 4 f32_0_01 f32_0_20 = Some c0" "wt_caps c0 = (1, 1, 2)" "wt_map c0 = []" "wt_fresh c0 = 0"
      "wt_window c0 = []" "wt_probation c0 = []" "wt_protected c0 = []"
    by (rule wt_demo_new)
  have "wt_good 4 c0" using wt_started [of 4] c0(1) by auto
  then have inv: "wt_inv c0" "length (wt_window c0) \<le> unat (wt_window_capacity c0)" by (simp_all add: wt_good_def)
  obtain c1 where c1: "wt_record_access ''a'' c0 = Some c1" "wt_same c0 c1" "wt_inv c1"
    by (rule wt_record_access_ok [OF inv(1)])
  let ?c2 = "c1\<lparr>wt_window := [(0, \<lparr>we_key = ''a'', we_value = ''1'', we_segment = Seg_Window\<rparr>)], wt_map := [(''a'', 0)], wt_fresh := 1\<rparr>"
  have c2: "wt_put ''a'' ''1'' c0 = Some (True, ?c2)"
    using c0 c1 by (simp add: wt_put_def wt_same_def wt_caps_def wt_admit_loop_unfold)
  have inv2: "wt_inv ?c2" using wt_put_ok [OF inv, of "''a''" "''1''"] unfolding c2 by simp
  obtain c3 where c3: "wt_record_access ''b'' ?c2 = Some c3" "wt_same ?c2 c3" "wt_inv c3"
    by (rule wt_record_access_ok [OF inv2])
  have "oks (wt_put ''b'' ''2'' ?c2) (\<lambda>(r, c). in_probation c ''a'')"
    using c0 c1(2) c3(1,2) by (simp add: wt_put_def wt_same_def wt_caps_def wt_admit_loop_unfold wt_try_admit_from_window_def nl_last_def
      wt_drop_window_def nl_erase_def nl_deref_def wt_enter_probation_def in_probation_def Let_def)
  then show ?thesis using that [OF c0(1)] c2 by (auto elim!: oksE)
qed

theorem wt_read_undefined_iff_witness:
  "\<exists>c0 rs c. wt_new 4 f32_0_01 f32_0_20 = Some c0 \<and>
    run_access wt_get wt_put [Write ''a'' ''1'', Write ''b'' ''2''] c0 = Some (rs, c) \<and> in_probation c ''a'' \<and> wt_get ''a'' c = None"
proof -
  obtain c0 rs c where d: "wt_new 4 f32_0_01 f32_0_20 = Some c0"
    "run_access wt_get wt_put [Write ''a'' ''1'', Write ''b'' ''2''] c0 = Some (rs, c)" "in_probation c ''a''"
    by (rule wt_demo_run)
  then show ?thesis using wt_read_undefined_iff [of 4 c0 _ rs c "''a''"] by fastforce
qed

text \<open>A capacity of 1 wraps in \<open>capacity - window_capacity_\<close>: the segments are then far larger than the capacity.\<close>

lemma wt_new_one: "oks (wt_new 1 f32_0_01 f32_0_20) (\<lambda>c. unat (wt_probation_capacity c) + unat (wt_protected_capacity c) = 2 ^ 32 - 2)"
proof -
  obtain w where w: "f32_to_u32 (u32_times_f32 1 f32_0_01) = Some w" "unat w < unat (1 :: u32)"
    by (rule f32_fraction_less [OF wt_default_fractions(1), of 1]) simp_all
  then have v: "w = 0" by (simp add: unat_eq_zero)
  have m: "(- 2 :: u32) = 0xFFFFFFFE" "\<not> (- 1 :: u32) \<le> 3" by (simp_all add: not_le word_less_no)
  obtain p where p: "f32_to_u32 (u32_times_f32 0xFFFFFFFE f32_0_20) = Some p" "unat p < unat (0xFFFFFFFE :: u32)"
    by (rule f32_fraction_less [OF wt_default_fractions(2), of "0xFFFFFFFE :: u32"]) simp_all
  have "max 1 p \<le> 0xFFFFFFFE" using p(2) by (auto simp: word_le_nat_alt max_def)
  then have "unat (max 1 p) + unat (0xFFFFFFFE - max 1 p) = 2 ^ 32 - 2"
    by (simp add: unat_sub word_le_nat_alt)
  then show ?thesis by (simp add: wt_new_def Let_def w(1) v m p(1))
qed

end
