(* ===== verification/Accessors.thy ===== *)
theory Accessors
  imports Engine_Timed Engine_Stats Demotion_Drainer Trace_Loader Workload
begin

text \<open>
  What the classes let a reader see: the inline accessors of the headers under \<open>include/\<close>, and \<open>ScopedTimer\<close>
  (\<open>include/latency_instrumentation.h\<close>), the reusable form of the measurements the stripe writes out by hand.
\<close>

section \<open>Accessors\<close>

definition slab_capacity :: "slab \<Rightarrow> u32" where "slab_capacity s = sl_capacity s"

definition lru_size :: "lru \<Rightarrow> u32" where "lru_size l = l_size l"

definition cms_total_increments :: "cms \<Rightarrow> u64" where "cms_total_increments c = cm_total c"

definition dq_capacity :: "dqueue \<Rightarrow> u32" where "dq_capacity q = q_capacity q"

definition dq_drops :: "dqueue \<Rightarrow> u64" where "dq_drops q = q_drops q"

definition total_drained :: "drainer \<Rightarrow> u64" where "total_drained d = dr_drained d"

definition is_running :: "drainer \<Rightarrow> bool" where "is_running d = dr_running d"

definition stripe_capacity :: "stripe \<Rightarrow> u32" where "stripe_capacity st = st_total_capacity st"

definition stripe_hit_count :: "stripe \<Rightarrow> u64" where "stripe_hit_count st = st_hits st"

definition stripe_miss_count :: "stripe \<Rightarrow> u64" where "stripe_miss_count st = st_misses st"

definition stripe_eviction_count :: "stripe \<Rightarrow> u64" where "stripe_eviction_count st = st_evictions st"

definition stripe_admission_count :: "stripe \<Rightarrow> u64" where "stripe_admission_count st = st_admissions st"

definition stripe_rejection_count :: "stripe \<Rightarrow> u64" where "stripe_rejection_count st = st_rejections st"

definition engine_l1_hits :: "'b engine \<Rightarrow> u64" where "engine_l1_hits e = total_hits (en_l1 e)"

definition engine_l1_misses :: "'b engine \<Rightarrow> u64" where "engine_l1_misses e = total_misses (en_l1 e)"

definition engine_l1_evictions :: "'b engine \<Rightarrow> u64" where "engine_l1_evictions e = total_evictions (en_l1 e)"

definition engine_l1_admissions :: "'b engine \<Rightarrow> u64" where "engine_l1_admissions e = total_admissions (en_l1 e)"

definition engine_l1_rejections :: "'b engine \<Rightarrow> u64" where "engine_l1_rejections e = total_rejections (en_l1 e)"

definition engine_l1_size :: "'b engine \<Rightarrow> u32" where "engine_l1_size e = total_size (en_l1 e)"

definition engine_backend_reads :: "'b backend \<Rightarrow> 'b engine \<Rightarrow> u64" where "engine_backend_reads B e = bk_reads B (en_backend e)"

definition engine_backend_writes :: "'b backend \<Rightarrow> 'b engine \<Rightarrow> u64" where "engine_backend_writes B e = bk_writes B (en_backend e)"

definition hist_count :: "histogram \<Rightarrow> u64" where "hist_count h = h_total_count h"

definition reader_is_open :: "string option \<Rightarrow> bool" where "reader_is_open file = (file \<noteq> None)"

definition ops_generated :: "generator \<Rightarrow> u64" where "ops_generated g = wg_ops_generated g"

text \<open>The totals of the striped cache are the sums of what its stripes report, in 64 bits.\<close>

lemma engine_l1_totals:
  "engine_l1_hits e = sum_list (map stripe_hit_count (sc_stripes (en_l1 e)))"
  "engine_l1_misses e = sum_list (map stripe_miss_count (sc_stripes (en_l1 e)))"
  "engine_l1_evictions e = sum_list (map stripe_eviction_count (sc_stripes (en_l1 e)))"
  "engine_l1_admissions e = sum_list (map stripe_admission_count (sc_stripes (en_l1 e)))"
  "engine_l1_rejections e = sum_list (map stripe_rejection_count (sc_stripes (en_l1 e)))"
proof -
  have sum: "fold (\<lambda>s sum. sum + f s) xs a = a + sum_list (map f xs)" for f :: "stripe \<Rightarrow> u64" and xs a
    by (induction xs arbitrary: a) (simp_all add: ac_simps)
  show "engine_l1_hits e = sum_list (map stripe_hit_count (sc_stripes (en_l1 e)))"
    "engine_l1_misses e = sum_list (map stripe_miss_count (sc_stripes (en_l1 e)))"
    "engine_l1_evictions e = sum_list (map stripe_eviction_count (sc_stripes (en_l1 e)))"
    "engine_l1_admissions e = sum_list (map stripe_admission_count (sc_stripes (en_l1 e)))"
    "engine_l1_rejections e = sum_list (map stripe_rejection_count (sc_stripes (en_l1 e)))"
    unfolding engine_l1_hits_def engine_l1_misses_def engine_l1_evictions_def engine_l1_admissions_def engine_l1_rejections_def
      total_hits_def total_misses_def total_evictions_def total_admissions_def total_rejections_def
      stripe_hit_count_def stripe_miss_count_def stripe_eviction_count_def stripe_admission_count_def stripe_rejection_count_def
    by (simp_all only: sum add_0)
qed

section \<open>The scoped timer\<close>

text \<open>The constructor reads the clock; the destructor reads it again and stores the difference in the target, which is
  a field of a breakdown: the parameter \<open>upd\<close>.\<close>

record scoped_timer =
  ti_upd :: "int \<Rightarrow> breakdown \<Rightarrow> breakdown"
  ti_start :: int

definition scoped_timer_new :: "clock \<Rightarrow> (int \<Rightarrow> breakdown \<Rightarrow> breakdown) \<Rightarrow> timed \<Rightarrow> scoped_timer \<times> timed" where
  "scoped_timer_new clk upd t = (let (start, t) = now clk t in (\<lparr>ti_upd = upd, ti_start = start\<rparr>, t))"

definition scoped_timer_end :: "clock \<Rightarrow> scoped_timer \<Rightarrow> timed \<Rightarrow> timed" where
  "scoped_timer_end clk ti t = (let (end, t) = now clk t in t\<lparr>tm_bd := ti_upd ti (end - ti_start ti) (tm_bd t)\<rparr>)"

text \<open>It measures what the stripe's hand-written code measures, around any code that counts its own clock readings.\<close>

lemma scoped_timer_agrees:
  "(let (ti, t) = scoped_timer_new clk upd t; (r, t) = body t in (r, scoped_timer_end clk ti t)) =
   (let (start, t) = now clk t; (r, t) = body t in (r, stop clk start upd t))"
  by (simp add: scoped_timer_new_def scoped_timer_end_def stop_def now_def Let_def case_prod_beta)

end
