(* ===== verification/Bench_Workload.thy ===== *)
theory Bench_Workload
  imports Workload_Props Trace_Roundtrip
begin

text \<open>
  The workloads of the benchmarks (\<open>benchmarks/bench_workloads.h\<close>, \<open>benchmarks/trace_bench.h\<close>): the YCSB mixes over
  Zipf, uniform and latest keys, the scan mix, and replayed traces. Doubles, rounding and the generator's
  draws are as in \<open>Workload\<close>; \<open>urng seed n hi\<close> is the \<open>n\<close>-th draw of
  \<open>uniform_int_distribution<uint32_t>(0, hi)\<close> from the Mersenne Twister with that seed.
\<close>

type_synonym urng = "u64 \<Rightarrow> nat \<Rightarrow> u32 \<Rightarrow> u32"

definition uniform_upto :: "urng \<Rightarrow> bool" where
  "uniform_upto urng \<longleftrightarrow> (\<forall>seed n hi. urng seed n hi \<le> hi)"

datatype bench_type = Bench_GET | Bench_PUT | Bench_RMW

record bench_op =
  bo_type :: bench_type
  bo_key :: string
  bo_value :: string

definition bench_op_default :: bench_op where
  "bench_op_default = \<lparr>bo_type = Bench_GET, bo_key = [], bo_value = []\<rparr>"

datatype ycsb_workload = YCSB_A | YCSB_B | YCSB_C | YCSB_D | YCSB_F

section \<open>Key generators\<close>

text \<open>\<open>BenchZipfian\<close> repeats the code of \<open>ZipfianGenerator\<close>.\<close>

definition bench_zipf_new :: "(rat \<Rightarrow> rat) \<Rightarrow> (rat \<Rightarrow> rat \<Rightarrow> rat) \<Rightarrow> u32 \<Rightarrow> rat \<Rightarrow> u64 \<Rightarrow> zipf option" where
  "bench_zipf_new fl pow num_keys alpha seed = zipf_new fl pow num_keys alpha seed"

definition bench_zipf_next :: "rng \<Rightarrow> zipf \<Rightarrow> u32 \<times> zipf" where
  "bench_zipf_next rng z = zipf_next_index rng z"

record bench_uniform =
  un_hi :: u32
  un_seed :: u64
  un_draws :: nat

definition bench_uniform_new :: "u32 \<Rightarrow> u64 \<Rightarrow> bench_uniform" where
  "bench_uniform_new num_keys seed = \<lparr>un_hi = num_keys - 1, un_seed = seed, un_draws = 0\<rparr>"

definition bench_uniform_next :: "urng \<Rightarrow> bench_uniform \<Rightarrow> u32 \<times> bench_uniform" where
  "bench_uniform_next urng u = (urng (un_seed u) (un_draws u) (un_hi u), u\<lparr>un_draws := un_draws u + 1\<rparr>)"

record latest_gen =
  la_zipf :: zipf
  la_num_keys :: u32
  la_insert_count :: u32

definition latest_new :: "(rat \<Rightarrow> rat) \<Rightarrow> (rat \<Rightarrow> rat \<Rightarrow> rat) \<Rightarrow> u32 \<Rightarrow> rat \<Rightarrow> u64 \<Rightarrow> latest_gen option" where
  "latest_new fl pow num_keys alpha seed = do {
     z \<leftarrow> bench_zipf_new fl pow num_keys alpha seed;
     Some \<lparr>la_zipf = z, la_num_keys = num_keys, la_insert_count = num_keys\<rparr>
   }"

definition latest_next :: "rng \<Rightarrow> latest_gen \<Rightarrow> u32 \<times> latest_gen" where
  "latest_next rng l =
     (let (offset, z) = bench_zipf_next rng (la_zipf l);
          offset = (if offset \<ge> la_insert_count l then la_insert_count l - 1 else offset)
      in (la_insert_count l - 1 - offset, l\<lparr>la_zipf := z\<rparr>))"

definition latest_record_insert :: "latest_gen \<Rightarrow> latest_gen" where
  "latest_record_insert l = l\<lparr>la_insert_count := la_insert_count l + 1\<rparr>"

section \<open>The YCSB mixes\<close>

record bench_config =
  bc_workload :: ycsb_workload
  bc_num_keys :: u32
  bc_zipf_alpha :: rat
  bc_seed :: u64
  bc_use_uniform :: bool

record bench_gen =
  bg_config :: bench_config
  bg_zipf :: zipf
  bg_uniform :: bench_uniform
  bg_latest :: latest_gen
  bg_seed :: u64
  bg_draws :: nat
  bg_read_ratio :: rat
  bg_ops_generated :: u64

text \<open>\<open>0.95\<close> is not a \<open>double\<close>: the literal is rounded.\<close>

fun read_ratio_of :: "(rat \<Rightarrow> rat) \<Rightarrow> ycsb_workload \<Rightarrow> rat" where
  "read_ratio_of fl YCSB_A = 1 / 2"
| "read_ratio_of fl YCSB_B = fl (95 / 100)"
| "read_ratio_of fl YCSB_C = 1"
| "read_ratio_of fl YCSB_D = fl (95 / 100)"
| "read_ratio_of fl YCSB_F = 1 / 2"

definition bench_gen_new :: "(rat \<Rightarrow> rat) \<Rightarrow> (rat \<Rightarrow> rat \<Rightarrow> rat) \<Rightarrow> bench_config \<Rightarrow> bench_gen option" where
  "bench_gen_new fl pow cfg = do {
     z \<leftarrow> bench_zipf_new fl pow (bc_num_keys cfg) (bc_zipf_alpha cfg) (bc_seed cfg);
     let u = bench_uniform_new (bc_num_keys cfg) (bc_seed cfg + 100);
     l \<leftarrow> latest_new fl pow (bc_num_keys cfg) (bc_zipf_alpha cfg) (bc_seed cfg + 200);
     Some \<lparr>bg_config = cfg, bg_zipf = z, bg_uniform = u, bg_latest = l, bg_seed = bc_seed cfg + 300, bg_draws = 0,
       bg_read_ratio = read_ratio_of fl (bc_workload cfg), bg_ops_generated = 0\<rparr>
   }"

definition bench_key_index :: "rng \<Rightarrow> urng \<Rightarrow> bench_gen \<Rightarrow> u32 \<times> bench_gen" where
  "bench_key_index rng urng g =
     (if bc_use_uniform (bg_config g)
      then let (i, u) = bench_uniform_next urng (bg_uniform g) in (i, g\<lparr>bg_uniform := u\<rparr>)
      else if bc_workload (bg_config g) = YCSB_D
      then let (i, l) = latest_next rng (bg_latest g) in (i, g\<lparr>bg_latest := l\<rparr>)
      else let (i, z) = bench_zipf_next rng (bg_zipf g) in (i, g\<lparr>bg_zipf := z\<rparr>))"

definition bench_next :: "rng \<Rightarrow> urng \<Rightarrow> bench_gen \<Rightarrow> bench_op \<times> bench_gen" where
  "bench_next rng urng g =
     (let g = g\<lparr>bg_ops_generated := bg_ops_generated g + 1\<rparr>;
          (key_idx, g) = bench_key_index rng urng g;
          op = bench_op_default\<lparr>bo_key := ''key_'' @ to_string (unat key_idx)\<rparr>;
          r = rng (bg_seed g) (bg_draws g);
          g = g\<lparr>bg_draws := bg_draws g + 1\<rparr>
      in if bc_workload (bg_config g) = YCSB_F
         then if r < 1 / 2 then (op\<lparr>bo_type := Bench_GET\<rparr>, g)
              else (op\<lparr>bo_type := Bench_RMW, bo_value := ''rmw_'' @ to_string (unat (bg_ops_generated g))\<rparr>, g)
         else if bc_workload (bg_config g) = YCSB_D
         then if r < bg_read_ratio g then (op\<lparr>bo_type := Bench_GET\<rparr>, g)
              else let key_idx = la_insert_count (bg_latest g);
                       g = g\<lparr>bg_latest := latest_record_insert (bg_latest g)\<rparr>
                   in (op\<lparr>bo_key := ''key_'' @ to_string (unat key_idx), bo_type := Bench_PUT,
                         bo_value := ''val_'' @ to_string (unat (bg_ops_generated g))\<rparr>, g)
         else if r < bg_read_ratio g then (op\<lparr>bo_type := Bench_GET\<rparr>, g)
              else (op\<lparr>bo_type := Bench_PUT, bo_value := ''val_'' @ to_string (unat (bg_ops_generated g))\<rparr>, g))"

definition bench_batch :: "rng \<Rightarrow> urng \<Rightarrow> u32 \<Rightarrow> bench_gen \<Rightarrow> bench_op list \<times> bench_gen" where
  "bench_batch rng urng count g =
     fold (\<lambda>_ (ops, g). let (op, g) = bench_next rng urng g in (ops @ [op], g)) (upto32 count) ([], g)"

section \<open>The scan mix\<close>

record scan_config =
  sn_num_keys :: u32
  sn_zipf_alpha :: rat
  sn_scan_fraction :: rat
  sn_scan_length :: u32
  sn_write_ratio :: rat
  sn_seed :: u64

record scan_gen =
  sg_config :: scan_config
  sg_zipf :: zipf
  sg_seed :: u64
  sg_draws :: nat
  sg_scan_trigger_prob :: rat
  sg_scan_remaining :: u32
  sg_scan_offset :: u32
  sg_ops_generated :: u64

definition scan_gen_new :: "(rat \<Rightarrow> rat) \<Rightarrow> (rat \<Rightarrow> rat \<Rightarrow> rat) \<Rightarrow> scan_config \<Rightarrow> scan_gen option" where
  "scan_gen_new fl pow cfg = do {
     z \<leftarrow> bench_zipf_new fl pow (sn_num_keys cfg) (sn_zipf_alpha cfg) (sn_seed cfg);
     let R = sn_scan_fraction cfg;
     let S = of_nat (unat (sn_scan_length cfg));
     Some \<lparr>sg_config = cfg, sg_zipf = z, sg_seed = sn_seed cfg + 500, sg_draws = 0,
       sg_scan_trigger_prob = (if R > 0 \<and> R < 1 then fl (R / fl (fl (S * fl (1 - R)) + R)) else 0),
       sg_scan_remaining = 0, sg_scan_offset = 0, sg_ops_generated = 0\<rparr>
   }"

definition scan_coin :: "rng \<Rightarrow> scan_gen \<Rightarrow> rat \<times> scan_gen" where
  "scan_coin rng g = (rng (sg_seed g) (sg_draws g), g\<lparr>sg_draws := sg_draws g + 1\<rparr>)"

partial_function (option) scan_next :: "(rat \<Rightarrow> rat) \<Rightarrow> rng \<Rightarrow> scan_gen \<Rightarrow> (bench_op \<times> scan_gen) option" where
  "scan_next fl rng g =
     (let g = g\<lparr>sg_ops_generated := sg_ops_generated g + 1\<rparr>
      in if sg_scan_remaining g > 0
         then let g = g\<lparr>sg_scan_remaining := sg_scan_remaining g - 1\<rparr>
              in Some (bench_op_default\<lparr>bo_type := Bench_GET,
                   bo_key := ''scan_'' @ to_string (unat (sg_scan_offset g + sg_scan_remaining g))\<rparr>, g)
         else let (u, g) = scan_coin rng g
         in if u < sg_scan_trigger_prob g
            then let g = g\<lparr>sg_scan_remaining := sn_scan_length (sg_config g)\<rparr>; (u, g) = scan_coin rng g
                 in f64_to_u32 (fl (fl (u * of_nat (unat (sn_num_keys (sg_config g)))) * 10)) \<bind>
                      (\<lambda>offset. scan_next fl rng (g\<lparr>sg_scan_offset := offset\<rparr>))
            else let (i, z) = bench_zipf_next rng (sg_zipf g);
                     op = bench_op_default\<lparr>bo_key := ''key_'' @ to_string (unat i)\<rparr>;
                     (u, g) = scan_coin rng (g\<lparr>sg_zipf := z\<rparr>)
                 in if u < sn_write_ratio (sg_config g)
                    then Some (op\<lparr>bo_type := Bench_PUT, bo_value := ''val_'' @ to_string (unat (sg_ops_generated g))\<rparr>, g)
                    else Some (op\<lparr>bo_type := Bench_GET\<rparr>, g))"

definition scan_batch :: "(rat \<Rightarrow> rat) \<Rightarrow> rng \<Rightarrow> u32 \<Rightarrow> scan_gen \<Rightarrow> (bench_op list \<times> scan_gen) option" where
  "scan_batch fl rng count g =
     ofold (\<lambda>_ (ops, g). do { (op, g) \<leftarrow> scan_next fl rng g; Some (ops @ [op], g) }) (upto32 count) ([], g)"

section \<open>Traces\<close>

text \<open>\<open>end - start + 1\<close> is computed in 64 bits also when \<open>end\<close> is \<open>npos\<close>.\<close>

definition load_trace_line :: "string \<Rightarrow> bench_op option" where
  "load_trace_line line =
     (if line = [] \<or> hd line = CHR ''#'' then None
      else case find_first (\<lambda>c. \<not> blank c) line of
        None \<Rightarrow> None
      | Some start \<Rightarrow>
          let n = (case find_last (\<lambda>c. \<not> ws c) line of Some end \<Rightarrow> end - start + 1 | None \<Rightarrow> (2 ^ 64 - start) mod 2 ^ 64);
              trimmed = substr line start n;
              key = (case find_first blank trimmed of Some space_pos \<Rightarrow> substr trimmed 0 space_pos | None \<Rightarrow> trimmed)
          in if key = [] then None else Some (bench_op_default\<lparr>bo_type := Bench_GET, bo_key := key\<rparr>))"

function load_trace_loop :: "string \<Rightarrow> bench_op list \<Rightarrow> bench_op list" where
  "load_trace_loop s ops =
     (case getline (CHR 0x0A) s of
        None \<Rightarrow> ops
      | Some (line, s) \<Rightarrow> load_trace_loop s (case load_trace_line line of None \<Rightarrow> ops | Some op \<Rightarrow> ops @ [op]))"
  by pat_completeness auto
termination by (relation "measure (\<lambda>(s, ops). length s)") (auto simp: getline_shorter)

declare load_trace_loop.simps [simp del]

definition load_trace :: "string option \<Rightarrow> bench_op list" where
  "load_trace file = (case file of None \<Rightarrow> [] | Some content \<Rightarrow> load_trace_loop content [])"

primrec to_bench_from :: "u64 \<Rightarrow> trace_op list \<Rightarrow> bench_op list" where
  "to_bench_from seq [] = []"
| "to_bench_from seq (tr_op # trace_ops) =
     (let bop = bench_op_default\<lparr>bo_key := op_key tr_op\<rparr>;
          bop = (case op_type tr_op of
                   Trace_Loader.PUT \<Rightarrow> bop\<lparr>bo_type := Bench_PUT, bo_value := ''trace_val_'' @ to_string (unat seq)\<rparr>
                 | Trace_Loader.GET \<Rightarrow> bop\<lparr>bo_type := Bench_GET\<rparr>)
      in bop # to_bench_from (seq + 1) trace_ops)"

definition to_bench_ops :: "trace_op list \<Rightarrow> bench_op list" where
  "to_bench_ops trace_ops = to_bench_from 0 trace_ops"

definition load_trace_as_bench_ops :: "string option \<Rightarrow> u64 \<Rightarrow> bench_op list" where
  "load_trace_as_bench_ops file max_ops = to_bench_ops (load_trace_file file max_ops)"

end
