(* ===== verification/Bench_Harness.thy ===== *)
theory Bench_Harness
  imports Accessors Lru_Cache Wtinylfu Bench_Workload
begin

text \<open>
  The harness of the benchmarks (\<open>benchmarks/benchmark_runner.cpp\<close>, \<open>benchmarks/benchmark_main.cpp\<close>,
  \<open>benchmarks/benchmark_result.h\<close>): the command line, the backends it fills, and the measured runs of the three
  caches over one sequence of operations, down to the numbers they report. A \<open>double\<close> result is the exact rational of
  which the code computes the nearest one; only the rank of a percentile is rounded (\<open>fl\<close>), because it is truncated to
  an integer. \<open>clk\<close> is the steady clock in nanoseconds. The drainer thread of WALDE works between the calls of the
  client: \<open>sched n\<close> are its steps before the \<open>n\<close>-th call (\<open>True\<close> pops a batch, \<open>False\<close> inserts an item).
\<close>

section \<open>The command line\<close>

record run_config =
  rc_cache_size :: u32
  rc_num_keys :: u32
  rc_zipf_alpha :: rat
  rc_warmup_ops :: u32
  rc_measure_ops :: u32
  rc_num_threads :: u32
  rc_num_runs :: u32
  rc_trace_file :: string

definition run_config_default :: "(rat \<Rightarrow> rat) \<Rightarrow> run_config" where
  "run_config_default fl = \<lparr>rc_cache_size = 8192, rc_num_keys = 100000, rc_zipf_alpha = fl (99 / 100),
     rc_warmup_ops = 100000, rc_measure_ops = 500000, rc_num_threads = 1, rc_num_runs = 1, rc_trace_file = []\<rparr>"

text \<open>\<open>std::atoi\<close>: white space, a sign, the longest run of digits; a value outside of \<open>int\<close> is undefined.\<close>

definition c_space :: "char \<Rightarrow> bool" where
  "c_space c \<longleftrightarrow> (let n = of_char c :: nat in n = 32 \<or> 9 \<le> n \<and> n \<le> 13)"

definition c_digit :: "char \<Rightarrow> bool" where
  "c_digit c \<longleftrightarrow> (let n = of_char c :: nat in 48 \<le> n \<and> n \<le> 57)"

definition digits_value :: "string \<Rightarrow> int" where
  "digits_value s = foldl (\<lambda>n c. 10 * n + (int (of_char c) - 48)) 0 (takeWhile c_digit s)"

definition atoi :: "string \<Rightarrow> int option" where
  "atoi s =
     (let s = dropWhile c_space s;
          n = (case s of [] \<Rightarrow> 0
               | c # cs \<Rightarrow> if c = CHR ''-'' then - digits_value cs else if c = CHR ''+'' then digits_value cs else digits_value s)
      in if - (2 ^ 31) \<le> n \<and> n < 2 ^ 31 then Some n else None)"

definition arg_u32 :: "string \<Rightarrow> u32 option" where
  "arg_u32 s = map_option word_of_int (atoi s)"

text \<open>\<open>--help\<close> prints the usage and exits. \<open>std::atof\<close> is the parameter \<open>atof\<close>. The list starts at \<open>argv[1]\<close>.\<close>

datatype parsed = Exit | Run run_config

fun parse_args :: "(string \<Rightarrow> rat) \<Rightarrow> string list \<Rightarrow> run_config \<Rightarrow> parsed option" where
  "parse_args atof [] rc = Some (Run rc)"
| "parse_args atof [arg] rc = Some (if arg = ''--help'' then Exit else Run rc)"
| "parse_args atof (arg # val # args) rc =
     (if arg = ''--cache-size'' then arg_u32 val \<bind> (\<lambda>n. parse_args atof args (rc\<lparr>rc_cache_size := n\<rparr>))
      else if arg = ''--num-keys'' then arg_u32 val \<bind> (\<lambda>n. parse_args atof args (rc\<lparr>rc_num_keys := n\<rparr>))
      else if arg = ''--zipf-alpha'' then parse_args atof args (rc\<lparr>rc_zipf_alpha := atof val\<rparr>)
      else if arg = ''--ops'' then arg_u32 val \<bind> (\<lambda>n. parse_args atof args (rc\<lparr>rc_measure_ops := n\<rparr>))
      else if arg = ''--warmup'' then arg_u32 val \<bind> (\<lambda>n. parse_args atof args (rc\<lparr>rc_warmup_ops := n\<rparr>))
      else if arg = ''--threads'' then arg_u32 val \<bind> (\<lambda>n. parse_args atof args (rc\<lparr>rc_num_threads := n\<rparr>))
      else if arg = ''--runs'' then arg_u32 val \<bind> (\<lambda>n. parse_args atof args (rc\<lparr>rc_num_runs := n\<rparr>))
      else if arg = ''--trace'' then parse_args atof args (rc\<lparr>rc_trace_file := val\<rparr>)
      else if arg = ''--help'' then Some Exit
      else parse_args atof (val # args) rc)"

section \<open>Operations and backends\<close>

definition generate_ops ::
    "(rat \<Rightarrow> rat) \<Rightarrow> (rat \<Rightarrow> rat \<Rightarrow> rat) \<Rightarrow> rng \<Rightarrow> urng \<Rightarrow> bench_config \<Rightarrow> u32 \<Rightarrow> u32 \<Rightarrow> bench_op list option" where
  "generate_ops fl pow rng urng cfg warmup measure_ops = do {
     gen \<leftarrow> bench_gen_new fl pow cfg;
     Some (fst (bench_batch rng urng (warmup + measure_ops) gen))
   }"

definition generate_scan_ops ::
    "(rat \<Rightarrow> rat) \<Rightarrow> (rat \<Rightarrow> rat \<Rightarrow> rat) \<Rightarrow> rng \<Rightarrow> scan_config \<Rightarrow> u32 \<Rightarrow> u32 \<Rightarrow> bench_op list option" where
  "generate_scan_ops fl pow rng cfg warmup measure_ops = do {
     gen \<leftarrow> scan_gen_new fl pow cfg;
     (ops, gen) \<leftarrow> scan_batch fl rng (warmup + measure_ops) gen;
     Some ops
   }"

definition make_backend :: "u32 \<Rightarrow> memory_backend" where
  "make_backend num_keys =
     fold (\<lambda>i b. snd (memory_put (''key_'' @ to_string (unat i)) (''value_'' @ to_string (unat i)) b)) (upto32 num_keys) memory_new"

text \<open>\<open>keys\<close> enumerates the \<open>unordered_set\<close> in its order of iteration.\<close>

definition make_trace_backend :: "string list \<Rightarrow> memory_backend" where
  "make_trace_backend keys = fold (\<lambda>key b. snd (memory_put key (''trace_val_'' @ key) b)) keys memory_new"

section \<open>Reported numbers\<close>

record policy_result =
  pr_name :: string
  pr_hit_rate :: rat
  pr_l1_hit_rate :: rat
  pr_l2_hit_rate :: rat
  pr_admission_rate :: rat
  pr_rejection_rate :: rat
  pr_throughput :: "rat option"
  pr_p50 :: rat
  pr_p95 :: rat
  pr_p99 :: rat
  pr_mean :: rat
  pr_total_ops :: u64
  pr_duration :: rat
  pr_evictions :: u64
  pr_memory :: u64

definition policy_result_default :: policy_result where
  "policy_result_default = \<lparr>pr_name = [], pr_hit_rate = 0, pr_l1_hit_rate = 0, pr_l2_hit_rate = 0, pr_admission_rate = 0,
     pr_rejection_rate = 0, pr_throughput = Some 0, pr_p50 = 0, pr_p95 = 0, pr_p99 = 0, pr_mean = 0, pr_total_ops = 0,
     pr_duration = 0, pr_evictions = 0, pr_memory = 0\<rparr>"

definition ratio :: "u64 \<Rightarrow> u64 \<Rightarrow> rat" where
  "ratio x n = (if n > 0 then of_nat (unat x) / of_nat (unat n) else 0)"

definition lru_hit_rate :: "lru_cache \<Rightarrow> rat" where
  "lru_hit_rate c = ratio (lc_hits c) (lc_hits c + lc_misses c)"

definition striped_lru_hit_rate :: "striped_lru \<Rightarrow> rat" where
  "striped_lru_hit_rate c = ratio (sl_hits c) (sl_hits c + sl_misses c)"

definition wt_hit_rate :: "wtinylfu \<Rightarrow> rat" where
  "wt_hit_rate c = ratio (wt_hits c) (wt_hits c + wt_misses c)"

text \<open>\<open>percentile_us(p)\<close> with its rank \<open>p * total_count_\<close>: a product of two doubles, truncated.\<close>

definition percentile :: "(rat \<Rightarrow> rat) \<Rightarrow> rat \<Rightarrow> histogram \<Rightarrow> rat option" where
  "percentile fl p h =
     (if h_total_count h = 0 then Some 0
      else let rank = fl (fl p * fl (of_nat (unat (h_total_count h))))
           in if 0 \<le> rank \<and> rank < 2 ^ 64 then percentile_us (of_int \<lfloor>rank\<rfloor>) h else None)"

text \<open>The operations from \<open>warmup\<close> on: both bounds are 32-bit, and so is their difference \<open>mops\<close>.\<close>

definition measured :: "u32 \<Rightarrow> bench_op list \<Rightarrow> bench_op list" where
  "measured warmup ops = map ((!) ops) [unat warmup..<unat (of_nat (length ops) :: u32)]"

definition measured_count :: "u32 \<Rightarrow> bench_op list \<Rightarrow> u64" where
  "measured_count warmup ops = ucast ((of_nat (length ops) :: u32) - warmup)"

definition seconds :: "int \<Rightarrow> rat" where
  "seconds ns = rat_of_int ns / 10 ^ 9"

text \<open>Over no time at all the throughput is infinite or not a number: \<open>None\<close>.\<close>

definition per_second :: "u64 \<Rightarrow> rat \<Rightarrow> rat option" where
  "per_second n sec = (if sec = 0 then None else Some (of_nat (unat n) / sec))"

section \<open>The baselines\<close>

text \<open>A read that misses is followed by a put, as a client of the cache would do.\<close>

definition cached_read ::
    "(string \<Rightarrow> 'c \<Rightarrow> (string option \<times> 'c) option) \<Rightarrow> (string \<Rightarrow> string \<Rightarrow> 'c \<Rightarrow> (bool \<times> 'c) option) \<Rightarrow> string \<Rightarrow> 'c \<Rightarrow> 'c option" where
  "cached_read get put key c = do {
     (v, c) \<leftarrow> get key c;
     case v of None \<Rightarrow> map_option snd (put key (''value_'' @ key) c) | Some _ \<Rightarrow> Some c
   }"

definition warmup_step ::
    "(string \<Rightarrow> 'c \<Rightarrow> (string option \<times> 'c) option) \<Rightarrow> (string \<Rightarrow> string \<Rightarrow> 'c \<Rightarrow> (bool \<times> 'c) option) \<Rightarrow> bench_op \<Rightarrow> 'c \<Rightarrow> 'c option" where
  "warmup_step get put op c =
     (if bo_type op = Bench_PUT \<or> bo_type op = Bench_RMW then map_option snd (put (bo_key op) (bo_value op) c)
      else cached_read get put (bo_key op) c)"

definition measured_step ::
    "(string \<Rightarrow> 'c \<Rightarrow> (string option \<times> 'c) option) \<Rightarrow> (string \<Rightarrow> string \<Rightarrow> 'c \<Rightarrow> (bool \<times> 'c) option) \<Rightarrow> bench_op \<Rightarrow> 'c \<Rightarrow> 'c option" where
  "measured_step get put op c =
     (if bo_type op = Bench_PUT then map_option snd (put (bo_key op) (bo_value op) c)
      else if bo_type op = Bench_RMW
      then cached_read get put (bo_key op) c \<bind> (\<lambda>c. map_option snd (put (bo_key op) (bo_value op) c))
      else cached_read get put (bo_key op) c)"

text \<open>One iteration of the measuring loop: the step between two readings of the clock.\<close>

definition clocked_step ::
    "clock \<Rightarrow> ('op \<Rightarrow> 'c \<Rightarrow> 'c option) \<Rightarrow> 'op \<Rightarrow> 'c \<times> histogram \<times> nat \<Rightarrow> ('c \<times> histogram \<times> nat) option" where
  "clocked_step clk step op = (\<lambda>(c, hist, n). do {
     let t0 = clk n;
     c \<leftarrow> step op c;
     let t1 = clk (n + 1);
     hist \<leftarrow> hist_record (t1 - t0) hist;
     Some (c, hist, n + 2)
   })"

definition run_lru :: "(rat \<Rightarrow> rat) \<Rightarrow> clock \<Rightarrow> bench_op list \<Rightarrow> u32 \<Rightarrow> u32 \<Rightarrow> policy_result option" where
  "run_lru fl clk ops warmup capacity = do {
     cache \<leftarrow> ofold (warmup_step lru_cache_get lru_cache_put) (take (unat warmup) ops) (lru_cache_new capacity);
     let cache = lru_cache_reset_stats cache;
     (cache, hist, n) \<leftarrow> ofold (clocked_step clk (measured_step lru_cache_get lru_cache_put)) (measured warmup ops) (cache, hist_new, 1);
     let wall_sec = seconds (clk n - clk 0);
     let mops = measured_count warmup ops;
     p50 \<leftarrow> percentile fl (50 / 100) hist;
     p95 \<leftarrow> percentile fl (95 / 100) hist;
     p99 \<leftarrow> percentile fl (99 / 100) hist;
     Some (policy_result_default\<lparr>pr_name := ''LRU'', pr_hit_rate := lru_hit_rate cache, pr_l1_hit_rate := lru_hit_rate cache,
       pr_throughput := per_second mops wall_sec, pr_p50 := p50, pr_p95 := p95, pr_p99 := p99, pr_mean := mean_us hist,
       pr_total_ops := mops, pr_duration := wall_sec, pr_evictions := lc_evictions cache,
       pr_memory := ucast capacity * (10 + 10 + 48 + 64)\<rparr>)
   }"

text \<open>The memory estimate adds the capacity to an \<open>int\<close> in 32 bits first.\<close>

definition run_wtinylfu :: "(rat \<Rightarrow> rat) \<Rightarrow> clock \<Rightarrow> bench_op list \<Rightarrow> u32 \<Rightarrow> u32 \<Rightarrow> policy_result option" where
  "run_wtinylfu fl clk ops warmup capacity = do {
     cache \<leftarrow> wt_new capacity f32_0_01 f32_0_20;
     cache \<leftarrow> ofold (warmup_step wt_get wt_put) (take (unat warmup) ops) cache;
     let cache = wt_reset_stats cache;
     (cache, hist, n) \<leftarrow> ofold (clocked_step clk (measured_step wt_get wt_put)) (measured warmup ops) (cache, hist_new, 1);
     let wall_sec = seconds (clk n - clk 0);
     let mops = measured_count warmup ops;
     let adm = wt_admissions cache;
     let rej = wt_rejections cache;
     p50 \<leftarrow> percentile fl (50 / 100) hist;
     p95 \<leftarrow> percentile fl (95 / 100) hist;
     p99 \<leftarrow> percentile fl (99 / 100) hist;
     Some (policy_result_default\<lparr>pr_name := ''W-TinyLFU'', pr_hit_rate := wt_hit_rate cache, pr_l1_hit_rate := wt_hit_rate cache,
       pr_admission_rate := ratio adm (adm + rej), pr_rejection_rate := ratio rej (adm + rej),
       pr_throughput := per_second mops wall_sec, pr_p50 := p50, pr_p95 := p95, pr_p99 := p99, pr_mean := mean_us hist,
       pr_total_ops := mops, pr_duration := wall_sec, pr_evictions := wt_evictions cache,
       pr_memory := ucast (4 * 8192 * 4 + capacity) + ucast capacity * (10 + 10 + 48 + 64)\<rparr>)
   }"

section \<open>WALDE\<close>

definition walde_config :: "u32 \<Rightarrow> engine_config" where
  "walde_config capacity = \<lparr>ec_l1 = default_config\<lparr>cf_total_capacity := capacity, cf_window_pct := f32_0_01, cf_probation_pct := f32_0_20\<rparr>,
     ec_l2_capacity = capacity div 2, ec_queue_size = 2048\<rparr>"

text \<open>The state of a run: the engine, the number of client calls made, the number of clock readings and the tracker.\<close>

record 'b run_state =
  rs_engine :: "'b engine"
  rs_calls :: nat
  rs_reads :: nat
  rs_tracker :: tracker

type_synonym schedule = "nat \<Rightarrow> bool list"

definition drainer_works :: "hash64 \<Rightarrow> schedule \<Rightarrow> 'b run_state \<Rightarrow> 'b run_state option" where
  "drainer_works h64 sched s = do {
     e \<leftarrow> ofold (\<lambda>pop e. if pop then drain_pop e else drain_insert h64 e) (sched (rs_calls s)) (rs_engine s);
     Some (s\<lparr>rs_engine := e, rs_calls := rs_calls s + 1\<rparr>)
   }"

text \<open>The calls of the client, without and with a breakdown.\<close>

definition call_get :: "'b backend \<Rightarrow> hash32 \<Rightarrow> hash64 \<Rightarrow> schedule \<Rightarrow> string \<Rightarrow> 'b run_state \<Rightarrow> 'b run_state option" where
  "call_get B h32 h64 sched key s = do {
     s \<leftarrow> drainer_works h64 sched s;
     (v, e) \<leftarrow> engine_get B h32 h64 key (rs_engine s);
     Some (s\<lparr>rs_engine := e\<rparr>)
   }"

definition call_put :: "'b backend \<Rightarrow> hash32 \<Rightarrow> hash64 \<Rightarrow> schedule \<Rightarrow> string \<Rightarrow> string \<Rightarrow> 'b run_state \<Rightarrow> 'b run_state option" where
  "call_put B h32 h64 sched key val s = do {
     s \<leftarrow> drainer_works h64 sched s;
     (v, e) \<leftarrow> engine_put B h32 h64 key val (rs_engine s);
     Some (s\<lparr>rs_engine := e\<rparr>)
   }"

definition call_get_timed ::
    "'b backend \<Rightarrow> hash32 \<Rightarrow> hash64 \<Rightarrow> clock \<Rightarrow> schedule \<Rightarrow> string \<Rightarrow> breakdown \<Rightarrow> 'b run_state \<Rightarrow> (breakdown \<times> 'b run_state) option" where
  "call_get_timed B h32 h64 clk sched key bd s = do {
     s \<leftarrow> drainer_works h64 sched s;
     (v, e, t) \<leftarrow> engine_get_timed B h32 h64 clk key (rs_engine s) \<lparr>tm_reads = rs_reads s, tm_bd = bd\<rparr>;
     Some (tm_bd t, s\<lparr>rs_engine := e, rs_reads := tm_reads t\<rparr>)
   }"

definition call_put_timed ::
    "'b backend \<Rightarrow> hash32 \<Rightarrow> hash64 \<Rightarrow> clock \<Rightarrow> schedule \<Rightarrow> string \<Rightarrow> string \<Rightarrow> breakdown \<Rightarrow> 'b run_state \<Rightarrow> (breakdown \<times> 'b run_state) option" where
  "call_put_timed B h32 h64 clk sched key val bd s = do {
     s \<leftarrow> drainer_works h64 sched s;
     (v, e, t) \<leftarrow> engine_put_timed B h32 h64 clk key val (rs_engine s) \<lparr>tm_reads = rs_reads s, tm_bd = bd\<rparr>;
     Some (tm_bd t, s\<lparr>rs_engine := e, rs_reads := tm_reads t\<rparr>)
   }"

definition walde_warmup_step :: "'b backend \<Rightarrow> hash32 \<Rightarrow> hash64 \<Rightarrow> schedule \<Rightarrow> bench_op \<Rightarrow> 'b run_state \<Rightarrow> 'b run_state option" where
  "walde_warmup_step B h32 h64 sched op s =
     (if bo_type op = Bench_PUT \<or> bo_type op = Bench_RMW then call_put B h32 h64 sched (bo_key op) (bo_value op) s
      else call_get B h32 h64 sched (bo_key op) s)"

text \<open>\<open>t0\<close> is read before the operation and \<open>t1\<close> after it. The put of a read-modify-write has no breakdown.\<close>

definition recorded ::
    "clock \<Rightarrow> (breakdown \<Rightarrow> 'b run_state \<Rightarrow> (breakdown \<times> 'b run_state) option) \<Rightarrow> 'b run_state \<Rightarrow> 'b run_state option" where
  "recorded clk body s = do {
     let t0 = clk (rs_reads s);
     (bd, s) \<leftarrow> body breakdown_new (s\<lparr>rs_reads := rs_reads s + 1\<rparr>);
     let t1 = clk (rs_reads s);
     tracker \<leftarrow> tracker_record (bd\<lparr>bd_total := t1 - t0\<rparr>) (rs_tracker s);
     Some (s\<lparr>rs_reads := rs_reads s + 1, rs_tracker := tracker\<rparr>)
   }"

definition walde_body ::
    "'b backend \<Rightarrow> hash32 \<Rightarrow> hash64 \<Rightarrow> clock \<Rightarrow> schedule \<Rightarrow> bench_op \<Rightarrow> breakdown \<Rightarrow> 'b run_state \<Rightarrow> (breakdown \<times> 'b run_state) option" where
  "walde_body B h32 h64 clk sched op bd s =
     (if bo_type op = Bench_PUT then call_put_timed B h32 h64 clk sched (bo_key op) (bo_value op) bd s
      else if bo_type op = Bench_RMW then do {
        (bd, s) \<leftarrow> call_get_timed B h32 h64 clk sched (bo_key op) bd s;
        s \<leftarrow> call_put B h32 h64 sched (bo_key op) (bo_value op) s;
        Some (bd, s)
      }
      else call_get_timed B h32 h64 clk sched (bo_key op) bd s)"

definition walde_step :: "'b backend \<Rightarrow> hash32 \<Rightarrow> hash64 \<Rightarrow> clock \<Rightarrow> schedule \<Rightarrow> bench_op \<Rightarrow> 'b run_state \<Rightarrow> 'b run_state option" where
  "walde_step B h32 h64 clk sched op = recorded clk (walde_body B h32 h64 clk sched op)"

text \<open>\<open>run_walde\<close> and \<open>run_walde_with_backend\<close> share their text but for the backend; \<open>Inl\<close> is the exception of the engine's
  constructor. The second component is the tracker handed out through \<open>out_tracker\<close>.\<close>

definition run_walde_with_backend ::
    "(rat \<Rightarrow> rat) \<Rightarrow> hash32 \<Rightarrow> hash64 \<Rightarrow> clock \<Rightarrow> schedule \<Rightarrow> bench_op list \<Rightarrow> u32 \<Rightarrow> u32 \<Rightarrow> memory_backend \<Rightarrow>
     (string + policy_result \<times> tracker) option" where
  "run_walde_with_backend fl h32 h64 clk sched ops warmup capacity backend = do {
     engine \<leftarrow> engine_new (walde_config capacity) backend;
     case engine of
       Inl error \<Rightarrow> Some (Inl error)
     | Inr engine \<Rightarrow> do {
         s \<leftarrow> ofold (walde_warmup_step memory_ops h32 h64 sched) (take (unat warmup) ops)
                \<lparr>rs_engine = engine, rs_calls = 0, rs_reads = 1, rs_tracker = tracker_new\<rparr>;
         let e0 = rs_engine s;
         s \<leftarrow> ofold (walde_step memory_ops h32 h64 clk sched) (measured warmup ops) s;
         let e = rs_engine s;
         let tracker = rs_tracker s;
         let wall_sec = seconds (clk (rs_reads s) - clk 0);
         let mops = measured_count warmup ops;
         let h1 = engine_l1_hits e - engine_l1_hits e0;
         let m1 = engine_l1_misses e - engine_l1_misses e0;
         let h2 = engine_l2_hits e - engine_l2_hits e0;
         let adm = engine_l1_admissions e - engine_l1_admissions e0;
         let rej = engine_l1_rejections e - engine_l1_rejections e0;
         p50 \<leftarrow> percentile fl (50 / 100) (tr_total tracker);
         p95 \<leftarrow> percentile fl (95 / 100) (tr_total tracker);
         p99 \<leftarrow> percentile fl (99 / 100) (tr_total tracker);
         Some (Inr (policy_result_default\<lparr>pr_name := ''WALDE'', pr_hit_rate := ratio (h1 + h2) (h1 + m1),
           pr_l1_hit_rate := ratio h1 (h1 + m1), pr_l2_hit_rate := ratio h2 m1,
           pr_admission_rate := ratio adm (adm + rej), pr_rejection_rate := ratio rej (adm + rej),
           pr_throughput := per_second mops wall_sec, pr_p50 := p50, pr_p95 := p95, pr_p99 := p99,
           pr_mean := mean_us (tr_total tracker), pr_total_ops := mops, pr_duration := wall_sec,
           pr_evictions := engine_l1_evictions e - engine_l1_evictions e0,
           pr_memory := ucast (capacity + 64) * 128 + 4 * 8192 * 4 + ucast (capacity div 2) * (10 + 10 + 48 + 64) +
             ucast capacity * 64\<rparr>, tracker))
       }
   }"

definition run_walde ::
    "(rat \<Rightarrow> rat) \<Rightarrow> hash32 \<Rightarrow> hash64 \<Rightarrow> clock \<Rightarrow> schedule \<Rightarrow> bench_op list \<Rightarrow> u32 \<Rightarrow> u32 \<Rightarrow> u32 \<Rightarrow>
     (string + policy_result \<times> tracker) option" where
  "run_walde fl h32 h64 clk sched ops warmup capacity num_keys =
     run_walde_with_backend fl h32 h64 clk sched ops warmup capacity (make_backend num_keys)"

section \<open>The instrumented benchmark\<close>

record path_latency =
  pl_p50 :: rat
  pl_p95 :: rat
  pl_p99 :: rat
  pl_p999 :: rat
  pl_mean :: rat
  pl_count :: u64

definition from_histogram :: "(rat \<Rightarrow> rat) \<Rightarrow> histogram \<Rightarrow> path_latency option" where
  "from_histogram fl h = do {
     p50 \<leftarrow> percentile fl (50 / 100) h;
     p95 \<leftarrow> percentile fl (95 / 100) h;
     p99 \<leftarrow> percentile fl (99 / 100) h;
     p999 \<leftarrow> percentile fl (999 / 1000) h;
     Some \<lparr>pl_p50 = p50, pl_p95 = p95, pl_p99 = p99, pl_p999 = p999, pl_mean = mean_us h, pl_count = hist_count h\<rparr>
   }"

record benchmark_config =
  bm_workload_type :: string
  bm_cache_capacity :: u32
  bm_num_threads :: u32
  bm_num_ops :: u32
  bm_zipf_alpha :: rat
  bm_scan_probability :: rat
  bm_trace_file :: string

record benchmark_result =
  br_config :: benchmark_config
  br_throughput :: "rat option"
  br_duration :: rat
  br_total_ops :: u64
  br_l1_hit_rate :: rat
  br_l2_hit_rate :: rat
  br_l1_hits :: u64
  br_l1_misses :: u64
  br_l2_hits :: u64
  br_admissions :: u64
  br_rejections :: u64
  br_evictions :: u64
  br_total :: path_latency
  br_l1_hit_path :: path_latency
  br_l2_hit_path :: path_latency
  br_backend_hit_path :: path_latency
  br_lock_wait :: path_latency
  br_lookup :: path_latency
  br_admission :: path_latency
  br_eviction :: path_latency
  br_l2_access :: path_latency
  br_backend_access :: path_latency
  br_slab_alloc :: path_latency

definition populate_from_tracker :: "(rat \<Rightarrow> rat) \<Rightarrow> tracker \<Rightarrow> benchmark_result \<Rightarrow> benchmark_result option" where
  "populate_from_tracker fl t r = do {
     all_ops \<leftarrow> from_histogram fl (tr_total t);
     l1_hit \<leftarrow> from_histogram fl (tr_l1_hit t);
     l2_hit \<leftarrow> from_histogram fl (tr_l2_hit t);
     backend_hit \<leftarrow> from_histogram fl (tr_backend_hit t);
     lock_wait \<leftarrow> from_histogram fl (tr_lock_wait t);
     lookup \<leftarrow> from_histogram fl (tr_lookup t);
     admission \<leftarrow> from_histogram fl (tr_admission t);
     eviction \<leftarrow> from_histogram fl (tr_eviction t);
     l2_access \<leftarrow> from_histogram fl (tr_l2 t);
     backend_access \<leftarrow> from_histogram fl (tr_backend t);
     slab_alloc \<leftarrow> from_histogram fl (tr_slab t);
     Some (r\<lparr>br_total := all_ops, br_l1_hit_path := l1_hit, br_l2_hit_path := l2_hit, br_backend_hit_path := backend_hit,
       br_lock_wait := lock_wait, br_lookup := lookup, br_admission := admission, br_eviction := eviction,
       br_l2_access := l2_access, br_backend_access := backend_access, br_slab_alloc := slab_alloc\<rparr>)
   }"

text \<open>A fresh result is not initialised; its latencies are all set by \<open>populate_from_tracker\<close>.\<close>

definition blank_latency :: path_latency where
  "blank_latency = \<lparr>pl_p50 = 0, pl_p95 = 0, pl_p99 = 0, pl_p999 = 0, pl_mean = 0, pl_count = 0\<rparr>"

definition make_engine :: "engine_config \<Rightarrow> u32 \<Rightarrow> (string + memory_backend engine) option" where
  "make_engine cfg num_records = engine_new cfg (make_backend num_records)"

definition warm_up ::
    "(rat \<Rightarrow> rat) \<Rightarrow> (rat \<Rightarrow> rat \<Rightarrow> rat) \<Rightarrow> rng \<Rightarrow> hash32 \<Rightarrow> hash64 \<Rightarrow> schedule \<Rightarrow> u32 \<Rightarrow> u32 \<Rightarrow> rat \<Rightarrow> u64 \<Rightarrow>
     memory_backend run_state \<Rightarrow> memory_backend run_state option" where
  "warm_up fl pow rng h32 h64 sched num_ops num_keys alpha seed s = do {
     gen \<leftarrow> generator_new fl pow \<lparr>wc_num_keys = num_keys, wc_zipf_alpha = alpha, wc_write_ratio = fl (5 / 100),
              wc_scan_probability = 0, wc_scan_length = 500, wc_seed = seed\<rparr>;
     (s, gen) \<leftarrow> ofold (\<lambda>_ (s, gen). do {
         (op, gen) \<leftarrow> wg_next fl rng gen;
         s \<leftarrow> (if wo_type op = Workload.PUT then call_put memory_ops h32 h64 sched (wo_key op) (wo_value op) s
               else call_get memory_ops h32 h64 sched (wo_key op) s);
         Some (s, gen)
       }) (upto32 num_ops) (s, gen);
     Some s
   }"

definition instrumented_step ::
    "hash32 \<Rightarrow> hash64 \<Rightarrow> clock \<Rightarrow> schedule \<Rightarrow> workload_op \<Rightarrow> memory_backend run_state \<Rightarrow> memory_backend run_state option" where
  "instrumented_step h32 h64 clk sched op = recorded clk (\<lambda>bd s.
     if wo_type op = Workload.PUT then call_put_timed memory_ops h32 h64 clk sched (wo_key op) (wo_value op) bd s
     else call_get_timed memory_ops h32 h64 clk sched (wo_key op) bd s)"

text \<open>The engine and the generator are passed by reference: both come back updated.\<close>

definition run_instrumented ::
    "(rat \<Rightarrow> rat) \<Rightarrow> rng \<Rightarrow> hash32 \<Rightarrow> hash64 \<Rightarrow> clock \<Rightarrow> schedule \<Rightarrow> memory_backend engine \<Rightarrow> generator \<Rightarrow> u32 \<Rightarrow>
     benchmark_config \<Rightarrow> (benchmark_result \<times> memory_backend engine \<times> generator) option" where
  "run_instrumented fl rng h32 h64 clk sched e0 gen num_ops bcfg = do {
     (s, gen) \<leftarrow> ofold (\<lambda>_ (s, gen). do {
         (op, gen) \<leftarrow> wg_next fl rng gen;
         s \<leftarrow> instrumented_step h32 h64 clk sched op s;
         Some (s, gen)
       }) (upto32 num_ops) (\<lparr>rs_engine = e0, rs_calls = 0, rs_reads = 1, rs_tracker = tracker_new\<rparr>, gen);
     let e = rs_engine s;
     let wall_sec = seconds (clk (rs_reads s) - clk 0);
     let h1 = engine_l1_hits e - engine_l1_hits e0;
     let m1 = engine_l1_misses e - engine_l1_misses e0;
     let h2 = engine_l2_hits e - engine_l2_hits e0;
     result \<leftarrow> populate_from_tracker fl (rs_tracker s)
       \<lparr>br_config = bcfg, br_throughput = per_second (ucast num_ops) wall_sec, br_duration = wall_sec,
        br_total_ops = ucast num_ops, br_l1_hit_rate = ratio h1 (h1 + m1), br_l2_hit_rate = ratio h2 m1,
        br_l1_hits = h1, br_l1_misses = m1, br_l2_hits = h2,
        br_admissions = engine_l1_admissions e - engine_l1_admissions e0,
        br_rejections = engine_l1_rejections e - engine_l1_rejections e0,
        br_evictions = engine_l1_evictions e - engine_l1_evictions e0,
        br_total = blank_latency, br_l1_hit_path = blank_latency, br_l2_hit_path = blank_latency,
        br_backend_hit_path = blank_latency, br_lock_wait = blank_latency, br_lookup = blank_latency,
        br_admission = blank_latency, br_eviction = blank_latency, br_l2_access = blank_latency,
        br_backend_access = blank_latency, br_slab_alloc = blank_latency\<rparr>;
     Some (result, e, gen)
   }"

text \<open>The first two benchmarks of the program differ in the workload \<open>wl\<close>. \<open>sched\<close> and \<open>clk\<close> start anew with the measured part.\<close>

definition instrumented_benchmark ::
    "(rat \<Rightarrow> rat) \<Rightarrow> (rat \<Rightarrow> rat \<Rightarrow> rat) \<Rightarrow> rng \<Rightarrow> hash32 \<Rightarrow> hash64 \<Rightarrow> clock \<Rightarrow> schedule \<Rightarrow> schedule \<Rightarrow> engine_config \<Rightarrow>
     u32 \<Rightarrow> u32 \<Rightarrow> u32 \<Rightarrow> rat \<Rightarrow> workload_config \<Rightarrow> benchmark_config \<Rightarrow> (string + benchmark_result) option" where
  "instrumented_benchmark fl pow rng h32 h64 clk warm_sched sched cfg num_records warmup_ops measure_ops alpha wl bcfg = do {
     engine \<leftarrow> make_engine cfg num_records;
     case engine of
       Inl error \<Rightarrow> Some (Inl error)
     | Inr engine \<Rightarrow> do {
         s \<leftarrow> warm_up fl pow rng h32 h64 warm_sched warmup_ops num_records alpha 42
                \<lparr>rs_engine = engine, rs_calls = 0, rs_reads = 0, rs_tracker = tracker_new\<rparr>;
         gen \<leftarrow> generator_new fl pow wl;
         (r, _, _) \<leftarrow> run_instrumented fl rng h32 h64 clk sched (rs_engine s) gen measure_ops bcfg;
         Some (Inr r)
       }
   }"

text \<open>The latency model of the second benchmark: the mean of the paths, weighted with the hit rates; a path without
  samples is replaced by a percentile of the total.\<close>

definition expected_latency :: "rat \<Rightarrow> rat \<Rightarrow> path_latency \<Rightarrow> path_latency \<Rightarrow> path_latency \<Rightarrow> path_latency \<Rightarrow> rat" where
  "expected_latency h1 h2 all l1 l2 backend =
     (let t1 = (if pl_count l1 = 0 then pl_p50 all else pl_p50 l1);
          t2 = (if pl_count l2 = 0 then pl_p95 all else pl_p50 l2);
          tm = (if pl_count backend = 0 then pl_p99 all else pl_p50 backend)
      in h1 * t1 + (1 - h1) * h2 * t2 + (1 - h1) * (1 - h2) * tm)"

definition model_error :: "rat \<Rightarrow> rat \<Rightarrow> rat" where
  "model_error expected mean = (if mean > 0 then \<bar>expected - mean\<bar> / mean * 100 else 0)"

section \<open>The settings of the comparison\<close>

definition run_seed :: "u32 \<Rightarrow> u64" where
  "run_seed r = 42 + ucast r * 7919"

definition fair_capacity :: "u32 \<Rightarrow> u32" where
  "fair_capacity cache_size = cache_size + cache_size div 2"

text \<open>A trace of \<open>n\<close> operations is measured after at most a quarter of it.\<close>

definition trace_run_config :: "run_config \<Rightarrow> bench_op list \<Rightarrow> run_config" where
  "trace_run_config rc trace_ops =
     (let trace_warmup = min (rc_warmup_ops rc) (of_nat (length trace_ops div 4));
          unique_keys = card (set (map bo_key trace_ops))
      in rc\<lparr>rc_warmup_ops := trace_warmup, rc_measure_ops := of_nat (length trace_ops) - trace_warmup,
            rc_num_keys := of_nat (min unique_keys (2 ^ 32 - 1))\<rparr>)"

end
