(* ===== verification/Bench_Threads.thy ===== *)
theory Bench_Threads
  imports Bench_Harness
begin

text \<open>
  The benchmark with several client threads (\<open>run_mt_instrumented\<close> of \<open>benchmarks/benchmark_main.cpp\<close>): every thread
  has its own generator and tracker, and all call the one engine. A thread moves in three steps per operation: it
  draws an operation and reads the clock, it calls the engine, and it reads the clock again and records. The moves of the
  threads and of the drainer come in any order; a call of the engine is one move, as in \<open>Cache_Engine_Run\<close>.
\<close>

section \<open>A client thread\<close>

text \<open>Where a thread is in the body of its loop, with the local variables it has set: \<open>op\<close> and \<open>t0\<close>, and \<open>bd\<close> after the
  call.\<close>

datatype bench_phase = Ready | Timing workload_op int | Answered breakdown int

record bench_thread =
  bt_gen :: generator
  bt_i :: u32
  bt_phase :: bench_phase
  bt_tracker :: tracker

text \<open>\<open>t * 7919\<close> is a product of two \<open>int\<close>s.\<close>

definition bench_thread_new :: "(rat \<Rightarrow> rat) \<Rightarrow> (rat \<Rightarrow> rat \<Rightarrow> rat) \<Rightarrow> workload_config \<Rightarrow> nat \<Rightarrow> bench_thread option" where
  "bench_thread_new fl pow wl_cfg t =
     (if t * 7919 < 2 ^ 31
      then do {
        gen \<leftarrow> generator_new fl pow (wl_cfg\<lparr>wc_seed := wc_seed wl_cfg + of_nat (t * 7919)\<rparr>);
        Some \<lparr>bt_gen = gen, bt_i = 0, bt_phase = Ready, bt_tracker = tracker_new\<rparr>
      }
      else None)"

definition bench_threads_new :: "(rat \<Rightarrow> rat) \<Rightarrow> (rat \<Rightarrow> rat \<Rightarrow> rat) \<Rightarrow> workload_config \<Rightarrow> nat \<Rightarrow> bench_thread list option" where
  "bench_threads_new fl pow wl_cfg num_threads =
     ofold (\<lambda>t ths. do { th \<leftarrow> bench_thread_new fl pow wl_cfg t; Some (ths @ [th]) }) [0..<num_threads] []"

record crowd =
  cr_engine :: "memory_backend engine"
  cr_reads :: nat
  cr_threads :: "bench_thread list"

definition returned :: "u32 \<Rightarrow> bench_thread \<Rightarrow> bool" where
  "returned ops_per_thread th \<longleftrightarrow> bt_phase th = Ready \<and> \<not> bt_i th < ops_per_thread"

text \<open>The call of the engine, with the breakdown of the operation.\<close>

definition timed_call ::
    "hash32 \<Rightarrow> hash64 \<Rightarrow> clock \<Rightarrow> workload_op \<Rightarrow> memory_backend engine \<Rightarrow> timed \<Rightarrow> (memory_backend engine \<times> timed) option" where
  "timed_call h32 h64 clk op e t =
     (if wo_type op = Workload.PUT
      then engine_put_timed memory_ops h32 h64 clk (wo_key op) (wo_value op) e t \<bind> (\<lambda>(_, e, t). Some (e, t))
      else engine_get_timed memory_ops h32 h64 clk (wo_key op) e t \<bind> (\<lambda>(_, e, t). Some (e, t)))"

definition thread_moves ::
    "(rat \<Rightarrow> rat) \<Rightarrow> rng \<Rightarrow> hash32 \<Rightarrow> hash64 \<Rightarrow> clock \<Rightarrow> u32 \<Rightarrow> nat \<Rightarrow> crowd \<Rightarrow> crowd option" where
  "thread_moves fl rng h32 h64 clk ops_per_thread t s =
     (let th = cr_threads s ! t
      in case bt_phase th of
           Ready \<Rightarrow>
             if bt_i th < ops_per_thread
             then do {
               (op, gen) \<leftarrow> wg_next fl rng (bt_gen th);
               let t0 = clk (cr_reads s);
               Some (s\<lparr>cr_reads := cr_reads s + 1,
                       cr_threads := (cr_threads s)[t := th\<lparr>bt_gen := gen, bt_phase := Timing op t0\<rparr>]\<rparr>)
             }
             else Some s
         | Timing op t0 \<Rightarrow> do {
             (e, tm) \<leftarrow> timed_call h32 h64 clk op (cr_engine s) \<lparr>tm_reads = cr_reads s, tm_bd = breakdown_new\<rparr>;
             Some (s\<lparr>cr_engine := e, cr_reads := tm_reads tm, cr_threads := (cr_threads s)[t := th\<lparr>bt_phase := Answered (tm_bd tm) t0\<rparr>]\<rparr>)
           }
         | Answered bd t0 \<Rightarrow> do {
             let t1 = clk (cr_reads s);
             tracker \<leftarrow> tracker_record (bd\<lparr>bd_total := t1 - t0\<rparr>) (bt_tracker th);
             Some (s\<lparr>cr_reads := cr_reads s + 1,
                     cr_threads := (cr_threads s)[t := th\<lparr>bt_i := bt_i th + 1, bt_phase := Ready, bt_tracker := tracker\<rparr>]\<rparr>)
           })"

section \<open>The run\<close>

datatype bench_move = Thread nat | Drainer bool

definition crowd_move ::
    "(rat \<Rightarrow> rat) \<Rightarrow> rng \<Rightarrow> hash32 \<Rightarrow> hash64 \<Rightarrow> clock \<Rightarrow> u32 \<Rightarrow> bench_move \<Rightarrow> crowd \<Rightarrow> crowd option" where
  "crowd_move fl rng h32 h64 clk ops_per_thread move s =
     (case move of
        Thread t \<Rightarrow> if t < length (cr_threads s) then thread_moves fl rng h32 h64 clk ops_per_thread t s else Some s
      | Drainer pop \<Rightarrow> do {
          e \<leftarrow> (if pop then drain_pop (cr_engine s) else drain_insert h64 (cr_engine s));
          Some (s\<lparr>cr_engine := e\<rparr>)
        })"

text \<open>The threads are joined before anything is reported: \<open>None\<close> if some thread has not returned when \<open>script\<close> ends. The
  engine is passed by reference and comes back updated.\<close>

definition run_mt_instrumented ::
    "(rat \<Rightarrow> rat) \<Rightarrow> (rat \<Rightarrow> rat \<Rightarrow> rat) \<Rightarrow> rng \<Rightarrow> hash32 \<Rightarrow> hash64 \<Rightarrow> clock \<Rightarrow> bench_move list \<Rightarrow> memory_backend engine \<Rightarrow>
     u32 \<Rightarrow> nat \<Rightarrow> workload_config \<Rightarrow> benchmark_config \<Rightarrow> (benchmark_result \<times> memory_backend engine) option" where
  "run_mt_instrumented fl pow rng h32 h64 clk script e0 ops_per_thread num_threads wl_cfg bcfg = do {
     threads \<leftarrow> bench_threads_new fl pow wl_cfg num_threads;
     s \<leftarrow> ofold (crowd_move fl rng h32 h64 clk ops_per_thread) script \<lparr>cr_engine = e0, cr_reads = 1, cr_threads = threads\<rparr>;
     _ \<leftarrow> (if list_all (returned ops_per_thread) (cr_threads s) then Some () else None);
     let e = cr_engine s;
     let wall_sec = seconds (clk (cr_reads s) - clk 0);
     merged \<leftarrow> ofold (\<lambda>th merged. tracker_merge (bt_tracker th) merged) (cr_threads s) tracker_new;
     let num_ops = ucast ops_per_thread * of_nat num_threads;
     let h1 = engine_l1_hits e - engine_l1_hits e0;
     let m1 = engine_l1_misses e - engine_l1_misses e0;
     let h2 = engine_l2_hits e - engine_l2_hits e0;
     result \<leftarrow> populate_from_tracker fl merged
       \<lparr>br_config = bcfg, br_throughput = per_second num_ops wall_sec, br_duration = wall_sec,
        br_total_ops = num_ops, br_l1_hit_rate = ratio h1 (h1 + m1), br_l2_hit_rate = ratio h2 m1,
        br_l1_hits = h1, br_l1_misses = m1, br_l2_hits = h2,
        br_admissions = engine_l1_admissions e - engine_l1_admissions e0,
        br_rejections = engine_l1_rejections e - engine_l1_rejections e0,
        br_evictions = engine_l1_evictions e - engine_l1_evictions e0,
        br_total = blank_latency, br_l1_hit_path = blank_latency, br_l2_hit_path = blank_latency,
        br_backend_hit_path = blank_latency, br_lock_wait = blank_latency, br_lookup = blank_latency,
        br_admission = blank_latency, br_eviction = blank_latency, br_l2_access = blank_latency,
        br_backend_access = blank_latency, br_slab_alloc = blank_latency\<rparr>;
     Some (result, e)
   }"

text \<open>One round of the third benchmark of the program.\<close>

definition scaling_round ::
    "(rat \<Rightarrow> rat) \<Rightarrow> (rat \<Rightarrow> rat \<Rightarrow> rat) \<Rightarrow> rng \<Rightarrow> hash32 \<Rightarrow> hash64 \<Rightarrow> clock \<Rightarrow> schedule \<Rightarrow> bench_move list \<Rightarrow> engine_config \<Rightarrow>
     u32 \<Rightarrow> u32 \<Rightarrow> u32 \<Rightarrow> nat \<Rightarrow> rat \<Rightarrow> workload_config \<Rightarrow> benchmark_config \<Rightarrow> (string + benchmark_result) option" where
  "scaling_round fl pow rng h32 h64 clk warm_sched script cfg num_records warmup_ops ops_per_thread num_threads alpha wl bcfg = do {
     engine \<leftarrow> make_engine cfg num_records;
     case engine of
       Inl error \<Rightarrow> Some (Inl error)
     | Inr engine \<Rightarrow> do {
         s \<leftarrow> warm_up fl pow rng h32 h64 warm_sched warmup_ops num_records alpha 42
                \<lparr>rs_engine = engine, rs_calls = 0, rs_reads = 0, rs_tracker = tracker_new\<rparr>;
         (r, _) \<leftarrow> run_mt_instrumented fl pow rng h32 h64 clk script (rs_engine s) ops_per_thread num_threads wl bcfg;
         Some (Inr r)
       }
   }"

section \<open>The overhead of the timer\<close>

text \<open>The fourth benchmark: \<open>n\<close> pairs of readings, sorted.\<close>

definition timer_overhead :: "clock \<Rightarrow> nat \<Rightarrow> (rat \<times> int \<times> int) option" where
  "timer_overhead clk n =
     (let ov = sort (map (\<lambda>i. clk (2 * i + 1) - clk (2 * i)) [0..<n])
      in if n > 0 then Some (rat_of_int (sum_list ov) / of_nat n, ov ! (n div 2), ov ! (n * 99 div 100)) else None)"

end
