(* ===== verification/Breakdown_Sums.thy ===== *)
theory Breakdown_Sums
  imports Engine_Timed Cache_Engine_Run
begin

text \<open>
  What the phases of a breakdown add up to: on a clock that never goes back, every phase is nonnegative, and all of them
  together are at most the time the call took. No time is counted twice, although a second stripe operation inside one get
  overwrites the lock, lookup and slab times of the first.
\<close>

section \<open>Intervals\<close>

definition phases :: "breakdown \<Rightarrow> int list" where
  "phases bd = [bd_lock_wait bd, bd_lookup bd, bd_slab bd, bd_admission bd, bd_eviction bd, bd_l2 bd, bd_backend bd]"

definition steady :: "clock \<Rightarrow> bool" where
  "steady clk \<longleftrightarrow> (\<forall>n. clk n \<le> clk (Suc n))"

lemma steady_le: "steady clk \<Longrightarrow> m \<le> n \<Longrightarrow> clk m \<le> clk n"
  by (rule lift_Suc_mono_le) (simp_all add: steady_def)

text \<open>From the \<open>n\<close>-th reading on, the phases fit into the time until the next reading.\<close>

definition fits :: "clock \<Rightarrow> nat \<Rightarrow> timed \<Rightarrow> bool" where
  "fits clk n t \<longleftrightarrow> n \<le> tm_reads t \<and> (\<forall>ns \<in> set (phases (tm_bd t)). 0 \<le> ns) \<and>
     sum_list (phases (tm_bd t)) \<le> clk (tm_reads t) - clk n"

text \<open>An update that stores the length of an interval in one phase, or adds it.\<close>

definition stores :: "(int \<Rightarrow> breakdown \<Rightarrow> breakdown) \<Rightarrow> bool" where
  "stores upd \<longleftrightarrow> (\<forall>ns bd. 0 \<le> ns \<longrightarrow> (\<forall>x \<in> set (phases bd). 0 \<le> x) \<longrightarrow>
     (\<forall>x \<in> set (phases (upd ns bd)). 0 \<le> x) \<and> sum_list (phases (upd ns bd)) \<le> sum_list (phases bd) + ns)"

lemma stores_all [simp]:
  "stores set_lock_wait" "stores set_lookup" "stores set_slab" "stores add_admission" "stores add_eviction"
  "stores set_l2" "stores set_backend"
  by (auto simp: stores_def phases_def set_lock_wait_def set_lookup_def set_slab_def add_admission_def add_eviction_def
      set_l2_def set_backend_def)

lemma storesD:
  assumes "stores upd" and "0 \<le> ns" and "\<forall>x \<in> set (phases bd). 0 \<le> x"
  shows "\<forall>x \<in> set (phases (upd ns bd)). 0 \<le> x" and "sum_list (phases (upd ns bd)) \<le> sum_list (phases bd) + ns"
  using assms unfolding stores_def by blast+

lemma fits_interval:
  assumes "steady clk" and "fits clk n t" and "stores upd" and "now clk t = (start, t1)"
  shows "fits clk n (stop clk start upd t1)"
proof -
  have t1: "start = clk (tm_reads t)" "tm_reads t1 = tm_reads t + 1" "tm_bd t1 = tm_bd t"
    using assms(4) by (auto simp: now_def)
  have le: "clk (tm_reads t) \<le> clk (tm_reads t + 1)" "clk (tm_reads t + 1) \<le> clk (tm_reads t + 2)"
    using steady_le [OF assms(1)] by simp_all
  have nonneg: "\<forall>x \<in> set (phases (tm_bd t)). 0 \<le> x" "0 \<le> clk (tm_reads t + 1) - start"
    using assms(2) le(1) unfolding t1(1) by (simp_all add: fits_def)
  show ?thesis using storesD [OF assms(3) nonneg(2,1)] assms(2) le t1 by (simp add: fits_def)
qed

lemma fits_path: "fits clk n (set_path p t) \<longleftrightarrow> fits clk n t"
  by (simp add: fits_def set_path_def phases_def)

section \<open>The stripe\<close>

lemma stripe_get_fits:
  assumes "steady clk" and "stripe_get_timed h32 clk key v t = Some (r, v', t')" and "fits clk n t"
  shows "fits clk n t'"
  using assms(2,3) unfolding stripe_get_timed_def
  by (auto simp: Let_def case_prod_beta split: Option.bind_splits option.splits
      intro!: fits_interval [OF assms(1) _ _ surjective_pairing])

lemma try_admit_fits:
  assumes "steady clk" and "try_admit_timed h32 clk v t = Some (v', t')" and "fits clk n t"
  shows "fits clk n t'"
  using assms(2,3) unfolding try_admit_timed_def
  by (auto simp: Let_def case_prod_beta split: Option.bind_splits if_splits
      intro!: fits_interval [OF assms(1) _ _ surjective_pairing])

lemma admit_loop_fits:
  "admit_loop_timed h32 clk s = Some s' \<Longrightarrow> steady clk \<Longrightarrow> fits clk n (snd s) \<Longrightarrow> fits clk n (snd s')"
proof (induction h32 clk s s' rule: admit_loop_timed.raw_induct [rotated, consumes 1])
  case (1 loop h32 clk s s')
  show ?case
  proof (cases "lru_size_of Win (fst s) > st_window_capacity (sh_stripe (fst s))")
    case True
    then obtain s1 where s1: "try_admit_timed h32 clk (fst s) (snd s) = Some s1" "loop h32 clk s1 = Some s'"
      using 1(2) by (auto split: Option.bind_splits)
    then show ?thesis using 1(1) [OF s1(2) 1(3)] try_admit_fits [OF 1(3) _ 1(4), of h32 "fst s" "fst s1" "snd s1"] by simp
  qed (use 1(2,4) in simp)
qed

lemma stripe_put_fits:
  assumes "steady clk" and "stripe_put_timed h32 clk key val v t = Some (r, v', t')" and "fits clk n t"
  shows "fits clk n t'"
  using assms(2,3) unfolding stripe_put_timed_def insert_into_window_timed_def
  by (auto simp: Let_def case_prod_beta split: Option.bind_splits if_splits option.splits
      intro!: fits_interval [OF assms(1) _ _ surjective_pairing] dest!: admit_loop_fits [OF _ assms(1)])

section \<open>The engine\<close>

lemma with_stripe_fits:
  assumes "with_stripe_timed i f c t = Some (r, c', t')" and "\<And>v v'. f v t = Some (r, v', t') \<Longrightarrow> fits clk n t'"
  shows "fits clk n t'"
  using assms unfolding with_stripe_timed_def with_stripe_def
  by (auto simp: case_prod_beta split: Option.bind_splits)

lemma sc_get_fits:
  "steady clk \<Longrightarrow> fits clk n t \<Longrightarrow> sc_get_timed h32 h64 clk key c t = Some (r, c', t') \<Longrightarrow> fits clk n t'"
  unfolding sc_get_timed_def by (erule with_stripe_fits) (rule stripe_get_fits)

lemma l1_put_fits:
  assumes "steady clk" and "fits clk n t" and "l1_put_timed h32 h64 clk key val e t = Some (r, e', t')"
  shows "fits clk n t'"
proof -
  obtain c' where "sc_put_timed h32 h64 clk key val (en_l1 e) t = Some (r, c', t')"
    using assms(3) by (auto simp: l1_put_timed_def split: Option.bind_splits)
  then show ?thesis unfolding sc_put_timed_def by (rule with_stripe_fits) (rule stripe_put_fits [OF assms(1) _ assms(2)])
qed

lemma l2_get_fits:
  "steady clk \<Longrightarrow> fits clk n t \<Longrightarrow> l2_get_timed h64 clk key e t = Some (r, e', t') \<Longrightarrow> fits clk n t'"
  unfolding l2_get_timed_def
  by (auto simp: Let_def case_prod_beta split: Option.bind_splits intro!: fits_interval [OF _ _ _ surjective_pairing])

lemma engine_get_fits:
  assumes c: "steady clk" and g: "engine_get_timed B h32 h64 clk key e t = Some (r, e', t')" and t: "fits clk n t"
  shows "fits clk n t'"
proof -
  obtain r1 l1 t1 where l1: "sc_get_timed h32 h64 clk key (en_l1 e) t = Some (r1, l1, t1)"
    using g by (auto simp: engine_get_timed_def split: Option.bind_splits)
  note f1 = sc_get_fits [OF c t l1]
  show ?thesis
  proof (cases r1)
    case (Some val)
    then show ?thesis using g l1 f1 by (auto simp: engine_get_timed_def fits_path)
  next
    case None
    obtain r2 e2 t2 where l2: "l2_get_timed h64 clk key (e\<lparr>en_l1 := l1\<rparr>) t1 = Some (r2, e2, t2)"
      using g l1 None by (auto simp: engine_get_timed_def split: Option.bind_splits)
    note f2 = l2_get_fits [OF c f1 l2]
    show ?thesis
    proof (cases r2)
      case (Some val)
      obtain r3 e3 t3 where l3: "l1_put_timed h32 h64 clk key val e2 (set_path L2_HIT t2) = Some (r3, e3, t3)"
        using g l1 None l2 Some by (auto simp: engine_get_timed_def split: Option.bind_splits)
      then show ?thesis using g l1 None l2 Some l1_put_fits [OF c _ l3] f2 by (simp add: engine_get_timed_def fits_path)
    next
      case miss: None
      define t3 where "t3 = stop clk (fst (now clk t2)) set_backend (snd (now clk t2))"
      have f3: "fits clk n t3" unfolding t3_def by (rule fits_interval [OF c f2 _ surjective_pairing]) simp
      obtain r4 b where b: "bk_get B key (en_backend e2) = (r4, b)" by fastforce
      show ?thesis
      proof (cases r4)
        case None
        then show ?thesis
          using g l1 \<open>r1 = None\<close> l2 miss b f3 by (auto simp: engine_get_timed_def case_prod_beta Let_def t3_def fits_path)
      next
        case (Some val)
        then have p: "l1_put_timed h32 h64 clk key val (e2\<lparr>en_backend := b\<rparr>) (set_path BACKEND_HIT t3) \<bind>
            (\<lambda>(_, e, t). Some (Some val, e, t)) = Some (r, e', t')"
          using g l1 \<open>r1 = None\<close> l2 miss b by (simp add: engine_get_timed_def case_prod_beta Let_def t3_def)
        obtain r5 e5 t5 where l5: "l1_put_timed h32 h64 clk key val (e2\<lparr>en_backend := b\<rparr>) (set_path BACKEND_HIT t3) = Some (r5, e5, t5)"
          using p by (auto split: Option.bind_splits)
        then show ?thesis using p l1_put_fits [OF c _ l5] f3 by (simp add: fits_path)
      qed
    qed
  qed
qed

lemma engine_put_fits:
  "steady clk \<Longrightarrow> engine_put_timed B h32 h64 clk key val e t = Some (r, e', t') \<Longrightarrow> fits clk n t \<Longrightarrow> fits clk n t'"
  unfolding engine_put_timed_def by (auto simp: case_prod_beta intro: l1_put_fits)

section \<open>Property\<close>

lemma fits_start: "fits clk n \<lparr>tm_reads = n, tm_bd = breakdown_new\<rparr>"
  by (simp add: fits_def phases_def breakdown_new_def)

text \<open>C28. A breakdown never accounts for more time than passed: on any clock that does not go back, the phases of a
  measured get or put are nonnegative, and the lock, lookup, slab, admission, eviction, L2 and backend times
  together are at most the time from the reading before the call to the reading after it.\<close>

theorem breakdown_fits:
  assumes "\<forall>n. clk n \<le> clk (Suc n)"
  shows "pred_option (\<lambda>(r, e', t). fits clk n t) (engine_get_timed B h32 h64 clk key e \<lparr>tm_reads = n, tm_bd = breakdown_new\<rparr>) \<and>
    pred_option (\<lambda>(r, e', t). fits clk n t) (engine_put_timed B h32 h64 clk key val e \<lparr>tm_reads = n, tm_bd = breakdown_new\<rparr>)"
proof -
  have c: "steady clk" using assms by (simp add: steady_def)
  show ?thesis
    using engine_get_fits [OF c _ fits_start, of B h32 h64 key e n] engine_put_fits [OF c _ fits_start, of B h32 h64 key val e n]
    by (auto simp: pred_option_def elem_set)
qed

theorem breakdown_fits_witness:
  "\<exists>e. engine_new demo_config memory_new = Some (Inr e) \<and>
    oks (engine_get_timed memory_ops demo_hash demo_hash64 (\<lambda>n. 250 * int n) ''a'' e \<lparr>tm_reads = 1, tm_bd = breakdown_new\<rparr>)
      (\<lambda>(r, e', t). fits (\<lambda>n. 250 * int n) 1 t)"
proof -
  obtain e where e: "engine_new demo_config memory_new = Some (Inr e)" by (rule demo_engine)
  obtain K where "engine_inv demo_hash64 K e" by (rule engine_new_ok [OF e, of demo_hash64]) simp_all
  then obtain r e' where "engine_get memory_ops demo_hash demo_hash64 ''a'' e = Some (r, e')" by (rule memory.engine_get_ok)
  then obtain t where t: "engine_get_timed memory_ops demo_hash demo_hash64 (\<lambda>n. 250 * int n) ''a'' e
      \<lparr>tm_reads = 1, tm_bd = breakdown_new\<rparr> = Some (r, e', t)"
    using engine_get_untimed [of memory_ops demo_hash demo_hash64 "\<lambda>n. 250 * int n" "''a''" e "\<lparr>tm_reads = 1, tm_bd = breakdown_new\<rparr>"]
    by auto
  show ?thesis
    using e t breakdown_fits [of "\<lambda>n. 250 * int n" 1 memory_ops demo_hash demo_hash64 "''a''" e]
    by (intro exI [of _ e]) (simp add: pred_option_def)
qed

end
