(* ===== verification/Bench_Harness_Props.thy ===== *)
theory Bench_Harness_Props
  imports Bench_Harness Breakdown_Sums Latency_Props Wtinylfu_Props Workload_Props
begin

text \<open>
  What the harness does before and around the measured operations: the command line is read back exactly, the measured
  range is what it is meant to be (when the operations reach past the warmup), the latency numbers always exist, and the
  hit rate of each baseline is over the reads of the measured range. For LRU it is the rate of the LRU policy.
\<close>

section \<open>The command line\<close>

text \<open>The arguments that ask for a configuration; \<open>sh\<close> writes a \<open>double\<close> so that \<open>atof\<close> reads it back.\<close>

definition option_args :: "(rat \<Rightarrow> string) \<Rightarrow> run_config \<Rightarrow> string list" where
  "option_args sh rc =
     [''--cache-size'', to_string (unat (rc_cache_size rc)), ''--num-keys'', to_string (unat (rc_num_keys rc)),
      ''--zipf-alpha'', sh (rc_zipf_alpha rc), ''--ops'', to_string (unat (rc_measure_ops rc)),
      ''--warmup'', to_string (unat (rc_warmup_ops rc)), ''--threads'', to_string (unat (rc_num_threads rc)),
      ''--runs'', to_string (unat (rc_num_runs rc)), ''--trace'', rc_trace_file rc]"

definition int_sized :: "run_config \<Rightarrow> bool" where
  "int_sized rc \<longleftrightarrow> (\<forall>n \<in> {rc_cache_size rc, rc_num_keys rc, rc_measure_ops rc, rc_warmup_ops rc, rc_num_threads rc, rc_num_runs rc}.
     unat n < 2 ^ 31)"

lemma digit_char: "d < 10 \<Longrightarrow> c_digit (char_of (48 + d)) \<and> int (of_char (char_of (48 + d :: nat) :: char)) - 48 = int d"
  by (simp add: c_digit_def Let_def)

lemma to_string_digits: "(\<forall>c \<in> set (to_string n). c_digit c) \<and> to_string n \<noteq> [] \<and>
    foldl (\<lambda>n c. 10 * n + (int (of_char c) - 48)) 0 (to_string n) = int n"
proof (induction n rule: to_string.induct)
  case (1 n)
  show ?case
  proof (cases "n < 10")
    case True
    then show ?thesis using digit_char [of n] by (simp add: to_string.simps [of n])
  next
    case False
    have "n mod 10 < 10" by simp
    note d = digit_char [OF this]
    have "10 * int (n div 10) + int (n mod 10) = int n" by (metis mult.commute of_nat_add of_nat_mult of_nat_numeral div_mult_mod_eq)
    then show ?thesis using 1 False d by (subst (1 2 3) to_string.simps) (auto simp: Let_def)
  qed
qed

lemma digits_value_to_string: "digits_value (to_string n) = int n"
  using to_string_digits [of n] by (simp add: digits_value_def takeWhile_eq_all_conv [THEN iffD2])

lemma atoi_to_string:
  assumes "n < 2 ^ 31" shows "atoi (to_string n) = Some (int n)"
proof -
  obtain c cs where s: "to_string n = c # cs" using to_string_digits [of n] by (cases "to_string n") auto
  then have "c_digit c" using to_string_digits [of n] by auto
  then have "\<not> c_space c" "c \<noteq> CHR ''-''" "c \<noteq> CHR ''+''" by (auto simp: c_digit_def c_space_def Let_def)
  then have "atoi (to_string n) = (if - (2 ^ 31) \<le> digits_value (to_string n) \<and> digits_value (to_string n) < 2 ^ 31
      then Some (digits_value (to_string n)) else None)"
    by (simp add: atoi_def s Let_def)
  then show ?thesis using assms by (simp add: digits_value_to_string)
qed

lemma arg_u32_to_string: "unat w < 2 ^ 31 \<Longrightarrow> arg_u32 (to_string (unat w)) = Some w"
  by (simp add: arg_u32_def atoi_to_string)

text \<open>The command line round trip: the arguments written for a configuration (numbers below \<open>2 ^ 31\<close>, a
  \<open>double\<close> that is read back) are parsed to exactly that configuration, whatever the defaults were.\<close>

theorem args_roundtrip:
  assumes "int_sized rc" and "atof (sh (rc_zipf_alpha rc)) = rc_zipf_alpha rc"
  shows "parse_args atof (option_args sh rc) rc0 = Some (Run rc)"
proof -
  have n: "arg_u32 (to_string (unat (rc_cache_size rc))) = Some (rc_cache_size rc)"
    "arg_u32 (to_string (unat (rc_num_keys rc))) = Some (rc_num_keys rc)"
    "arg_u32 (to_string (unat (rc_measure_ops rc))) = Some (rc_measure_ops rc)"
    "arg_u32 (to_string (unat (rc_warmup_ops rc))) = Some (rc_warmup_ops rc)"
    "arg_u32 (to_string (unat (rc_num_threads rc))) = Some (rc_num_threads rc)"
    "arg_u32 (to_string (unat (rc_num_runs rc))) = Some (rc_num_runs rc)"
    using assms(1) by (intro arg_u32_to_string; simp add: int_sized_def)+
  show ?thesis by (simp add: option_args_def n assms(2))
qed

theorem args_roundtrip_witness:
  "parse_args (\<lambda>s. 3 / 4) (option_args (\<lambda>x. ''0.75'') \<lparr>rc_cache_size = 16, rc_num_keys = 100, rc_zipf_alpha = 3 / 4,
     rc_warmup_ops = 5, rc_measure_ops = 10, rc_num_threads = 2, rc_num_runs = 3, rc_trace_file = ''t''\<rparr>) (run_config_default id) =
   Some (Run \<lparr>rc_cache_size = 16, rc_num_keys = 100, rc_zipf_alpha = 3 / 4, rc_warmup_ops = 5, rc_measure_ops = 10,
     rc_num_threads = 2, rc_num_runs = 3, rc_trace_file = ''t''\<rparr>)"
  by (rule args_roundtrip) (simp_all add: int_sized_def)

text \<open>A negative number wraps: \<open>--ops -1\<close> asks for \<open>2 ^ 32 - 1\<close> operations. An option without its value is ignored.\<close>

lemma parse_args_negative: "parse_args atof [''--ops'', ''-1''] rc = Some (Run (rc\<lparr>rc_measure_ops := 0xFFFFFFFF\<rparr>))"
proof -
  have "atoi ''-1'' = Some (- 1)"
    by (simp add: atoi_def c_space_def digits_value_def c_digit_def Let_def)
  then show ?thesis by (simp add: arg_u32_def)
qed

lemma parse_args_missing_value: "parse_args atof [''--ops''] rc = Some (Run rc)"
  by simp

section \<open>The measured range\<close>

definition reads :: "bench_op list \<Rightarrow> nat" where
  "reads ops = length (filter (\<lambda>op. bo_type op \<noteq> Bench_PUT) ops)"

lemma reads_Cons: "reads (op # ops) = (if bo_type op = Bench_PUT then 0 else 1) + reads ops"
  by (simp add: reads_def)

lemma reads_le: "reads ops \<le> length ops"
  by (simp add: reads_def)

lemma measured_drop:
  assumes "length ops < 2 ^ 32" shows "measured warmup ops = drop (unat warmup) ops"
  by (rule nth_equalityI) (simp_all add: measured_def unat_of_nat_u32 [OF assms])

text \<open>The reported number of operations is the number of measured ones exactly when the warmup leaves something or all was
  warmup; otherwise nothing is measured and the reported number has wrapped.\<close>

lemma measured_count_ok:
  assumes "length ops < 2 ^ 32"
  shows "unat (measured_count warmup ops) = (if unat warmup \<le> length ops then length (measured warmup ops)
    else 2 ^ 32 - (unat warmup - length ops))"
proof -
  let ?n = "of_nat (length ops) :: u32"
  have n: "unat ?n = length ops" using assms by (rule unat_of_nat_u32)
  have c: "unat (measured_count warmup ops) = unat (?n - warmup)"
    by (simp add: measured_count_def unsigned_ucast_eq take_bit_nat_eq_self unat_u32_bound [THEN order_less_le_trans])
  show ?thesis
  proof (cases "unat warmup \<le> length ops")
    case True
    then have "warmup \<le> ?n" by (simp add: word_le_nat_alt n)
    then show ?thesis using True by (simp add: c measured_drop [OF assms] unat_sub n)
  next
    case False
    then have "\<not> warmup \<le> ?n" by (simp add: word_le_nat_alt n)
    then show ?thesis using False by (simp add: c unat_sub_if' n word_le_nat_alt)
  qed
qed

lemma measured_none: "length ops < 2 ^ 32 \<Longrightarrow> length ops \<le> unat warmup \<Longrightarrow> measured warmup ops = []"
  by (simp add: measured_drop)

text \<open>A replayed trace always leaves at least three quarters to measure.\<close>

lemma trace_run_config_ok:
  assumes "length ops < 2 ^ 32"
  shows "4 * unat (rc_warmup_ops (trace_run_config rc ops)) \<le> length ops \<and>
    unat (rc_warmup_ops (trace_run_config rc ops)) + unat (rc_measure_ops (trace_run_config rc ops)) = length ops"
proof -
  let ?n = "of_nat (length ops) :: u32" and ?q = "of_nat (length ops div 4) :: u32"
  let ?w = "min (rc_warmup_ops rc) ?q"
  have n: "unat ?n = length ops" "unat ?q = length ops div 4" using assms by (simp_all add: unat_of_nat_u32)
  have w: "unat ?w \<le> length ops div 4" using n(2) by (metis min.cobounded2 word_le_nat_alt)
  then have "?w \<le> ?n" using n by (simp add: word_le_nat_alt)
  then have "unat (?n - ?w) = length ops - unat ?w" by (simp add: unat_sub n)
  then show ?thesis using w by (simp add: trace_run_config_def Let_def) linarith
qed

section \<open>The clock and the latencies\<close>

text \<open>A run takes less than the 114 years a histogram can hold.\<close>

definition ticking :: "clock \<Rightarrow> bool" where
  "ticking clk \<longleftrightarrow> steady clk \<and> (\<forall>n. clk n - clk 0 < 100 * 2 ^ 55)"

text \<open>Samples taken up to the \<open>n\<close>-th reading, in disjoint intervals.\<close>

definition taken :: "clock \<Rightarrow> nat \<Rightarrow> int list \<Rightarrow> bool" where
  "taken clk n xs \<longleftrightarrow> (\<forall>x \<in> set xs. 0 \<le> x) \<and> sum_list xs \<le> clk n - clk 0"

lemma taken_Nil: "ticking clk \<Longrightarrow> taken clk n []"
  using steady_le [of clk 0 n] by (simp add: taken_def ticking_def)

lemma taken_later: "ticking clk \<Longrightarrow> taken clk m xs \<Longrightarrow> m \<le> n \<Longrightarrow> taken clk n xs"
  using steady_le [of clk m n] by (auto simp: taken_def ticking_def)

lemma taken_snoc:
  assumes "ticking clk" and "taken clk m xs" and "m \<le> n" and "0 \<le> x" and "x \<le> clk n - clk m"
  shows "taken clk n (xs @ [x])"
  using assms by (auto simp: taken_def)

lemma taken_short:
  assumes "ticking clk" and "taken clk n xs" shows "\<forall>x \<in> set xs. 0 \<le> x \<and> x < 100 * 2 ^ 55" and "samples xs"
proof -
  have s: "sum_list xs < 100 * 2 ^ 55" using assms by (auto simp: taken_def ticking_def intro: le_less_trans)
  have "x \<le> sum_list xs" if "x \<in> set xs" for x
    using that assms(2) by (auto simp: taken_def intro: member_le_sum_list)
  then show "\<forall>x \<in> set xs. 0 \<le> x \<and> x < 100 * 2 ^ 55" using assms(2) s by (fastforce simp: taken_def)
  then show "samples xs" using s by fastforce
qed

lemma hist_record_taken:
  assumes "ticking clk" and "taken clk m xs" and "m \<le> n" and "0 \<le> x" and "x \<le> clk n - clk m"
  shows "hist_record x (hist_of xs) = Some (hist_of (xs @ [x]))"
  by (rule hist_of_snoc(1) [OF taken_short(2) [OF assms(1) taken_snoc [OF assms]]])

lemma percentile_short:
  assumes fl: "rounding fl" and p: "0 \<le> p" "p \<le> 1" and short: "\<forall>x \<in> set xs. 0 \<le> x \<and> x < 100 * 2 ^ 55" and len: "length xs \<le> 2 ^ 53"
  shows "percentile fl p (hist_of xs) \<noteq> None"
proof -
  let ?n = "h_total_count (hist_of xs)"
  have n: "unat ?n = length xs" using len by (simp add: hist_of_def unsigned_of_nat take_bit_nat_eq_self)
  have int: "fl (of_nat k) = of_nat k" if "k \<le> 2 ^ 53" for k using fl that by (simp add: rounding_def)
  note r = rounding_simps [OF fl]
  have "0 \<le> fl p" "fl p \<le> 1" using r(4) [OF p(1)] r(4) [OF p(2)] r(1,2) by simp_all
  then have "0 \<le> fl p * of_nat (length xs)" "fl p * of_nat (length xs) \<le> of_nat (length xs)"
    by (simp_all add: mult_left_le_one_le)
  then have "0 \<le> fl (fl p * of_nat (length xs))" "fl (fl p * of_nat (length xs)) \<le> of_nat (length xs)"
    using r(1) r(4) [of 0] r(4) [of _ "of_nat (length xs)"] int [OF len] by fastforce+
  moreover have "(of_nat (length xs) :: rat) \<le> 2 ^ 53" using len of_nat_mono [OF len, where 'a = rat] by simp
  moreover have "percentile_us t (hist_of xs) \<noteq> None" for t
    using percentile_us_some [of xs t] short by auto
  ultimately show ?thesis by (simp add: percentile_def Let_def n int [OF len])
qed

lemma percentile_some:
  assumes "rounding fl" and "0 \<le> p" "p \<le> 1" and "ticking clk" "taken clk n xs" and "length xs \<le> 2 ^ 53"
  obtains y where "percentile fl p (hist_of xs) = Some y"
  using percentile_short [OF assms(1-3) taken_short(1) [OF assms(4,5)] assms(6)] that by blast

text \<open>The measuring loop records one sample per operation and otherwise does what the operations do.\<close>

lemma clocked_untimed: "ofold (clocked_step clk step) ops (c, h, n) = Some (c', h', n') \<Longrightarrow> ofold step ops c = Some c'"
  by (induction ops arbitrary: c h n) (auto simp: clocked_step_def Let_def split: Option.bind_splits)

lemma clocked_run:
  assumes "ticking clk"
  shows "ofold step ops c = Some c' \<Longrightarrow> taken clk n xs \<Longrightarrow> \<exists>ys. length ys = length xs + length ops \<and>
    ofold (clocked_step clk step) ops (c, hist_of xs, n) = Some (c', hist_of ys, n + 2 * length ops) \<and> taken clk (n + 2 * length ops) ys"
proof (induction ops arbitrary: c n xs)
  case (Cons op ops)
  obtain c1 where c1: "step op c = Some c1" "ofold step ops c1 = Some c'" using Cons.prems(1) by (auto split: Option.bind_splits)
  let ?x = "clk (n + 1) - clk n"
  have x: "0 \<le> ?x" "?x \<le> clk (n + 2) - clk n" using assms steady_le [of clk] by (simp_all add: ticking_def)
  note rec = hist_record_taken [OF assms Cons.prems(2) _ x] taken_snoc [OF assms Cons.prems(2) _ x]
  obtain ys where ys: "length ys = length (xs @ [?x]) + length ops" "taken clk (n + 2 + 2 * length ops) ys"
      "ofold (clocked_step clk step) ops (c1, hist_of (xs @ [?x]), n + 2) = Some (c', hist_of ys, n + 2 + 2 * length ops)"
    using Cons.IH [OF c1(2) rec(2)] by auto
  have "clocked_step clk step op (c, hist_of xs, n) = Some (c1, hist_of (xs @ [?x]), n + 2)"
    using c1(1) rec(1) by (simp add: clocked_step_def Let_def)
  then show ?case using ys by (intro exI [of _ ys]) simp
qed auto

section \<open>Counting hits and misses\<close>

text \<open>What the harness needs to know of a cache to read its hit rate: a get counts one hit or one miss, a put nothing.\<close>

locale counting_cache =
  fixes get :: "string \<Rightarrow> 'c \<Rightarrow> (string option \<times> 'c) option" and put :: "string \<Rightarrow> string \<Rightarrow> 'c \<Rightarrow> (bool \<times> 'c) option"
    and hits :: "'c \<Rightarrow> u64" and misses :: "'c \<Rightarrow> u64"
  assumes get_counts: "get key c = Some (r, c') \<Longrightarrow> hits c' = hits c + (if r = None then 0 else 1) \<and>
      misses c' = misses c + (if r = None then 1 else 0)"
    and put_counts: "put key val c = Some (b, c') \<Longrightarrow> hits c' = hits c \<and> misses c' = misses c"
begin

definition tally :: "nat \<Rightarrow> 'c \<Rightarrow> 'c \<Rightarrow> bool" where
  "tally n c c' \<longleftrightarrow> (\<exists>h m. hits c' = hits c + of_nat h \<and> misses c' = misses c + of_nat m \<and> h + m = n)"

lemma tally_trans: "tally m c c1 \<Longrightarrow> tally n c1 c2 \<Longrightarrow> tally (m + n) c c2"
  by (clarsimp simp: tally_def) (metis (no_types, opaque_lifting) add.assoc add.left_commute of_nat_add)

lemma put_tally: "map_option snd (put key val c) = Some c' \<Longrightarrow> tally 0 c c'"
  using put_counts by (fastforce simp: tally_def)

lemma read_tally:
  assumes "cached_read get put key c = Some c'" shows "tally 1 c c'"
proof -
  obtain r c1 where g: "get key c = Some (r, c1)"
    and f: "(case r of None \<Rightarrow> map_option snd (put key (''value_'' @ key) c1) | Some _ \<Rightarrow> Some c1) = Some c'"
    using assms by (auto simp: cached_read_def split: Option.bind_splits)
  have "tally 1 c c1" using get_counts [OF g] unfolding tally_def
    by (intro exI [of _ "if r = None then 0 else 1"] exI [of _ "if r = None then 1 else 0"]) simp
  moreover have "tally 0 c1 c'" using f put_tally by (cases r) (auto simp: tally_def)
  ultimately show ?thesis using tally_trans [of 1 c c1 0 c'] by simp
qed

lemma step_tally:
  assumes "measured_step get put op c = Some c'" shows "tally (reads [op]) c c'"
proof (cases "bo_type op")
  case Bench_RMW
  then obtain c1 where "cached_read get put (bo_key op) c = Some c1" "map_option snd (put (bo_key op) (bo_value op) c1) = Some c'"
    using assms by (auto simp: measured_step_def split: Option.bind_splits)
  then show ?thesis using tally_trans [OF read_tally put_tally] Bench_RMW by (simp add: reads_def)
qed (use assms in \<open>auto simp: measured_step_def reads_def put_tally [simplified] intro: read_tally [simplified]\<close>)

lemma run_tally: "ofold (measured_step get put) ops c = Some c' \<Longrightarrow> tally (reads ops) c c'"
proof (induction ops arbitrary: c)
  case (Cons op ops)
  then obtain c1 where c1: "measured_step get put op c = Some c1" "ofold (measured_step get put) ops c1 = Some c'"
    by (auto split: Option.bind_splits)
  have "reads (op # ops) = reads [op] + reads ops" by (simp add: reads_Cons reads_def)
  then show ?case using tally_trans [OF step_tally [OF c1(1)] Cons.IH [OF c1(2)]] by simp
qed (auto simp: tally_def reads_def)

lemma run_rate:
  assumes "ofold (measured_step get put) ops c = Some c'" and "hits c = 0" and "misses c = 0" and "reads ops < 2 ^ 64"
  obtains h where "h \<le> reads ops" and "ratio (hits c') (hits c' + misses c') = of_nat h / of_nat (reads ops)"
    and "hits c' = of_nat h"
proof -
  obtain h m where hm: "hits c' = of_nat h" "misses c' = of_nat m" "h + m = reads ops"
    using run_tally [OF assms(1)] assms(2,3) by (auto simp: tally_def)
  have "unat (of_nat k :: u64) = k" if "k \<le> reads ops" for k
    using that assms(4) by (simp add: unsigned_of_nat take_bit_nat_eq_self)
  then have u: "unat (hits c') = h" "unat (hits c' + misses c') = reads ops"
    unfolding hm(1,2) of_nat_add [symmetric] using hm(3) by simp_all
  then have "hits c' + misses c' > 0 \<longleftrightarrow> reads ops > 0" by (metis unat_gt_0 word_gt_0)
  then show ?thesis using that [of h] hm u by (simp add: ratio_def)
qed

end

interpretation lru: counting_cache lru_cache_get lru_cache_put lc_hits lc_misses
  by unfold_locales
    (auto simp: lru_cache_get_def lru_cache_put_def split: Option.bind_splits option.splits)

interpretation striped: counting_cache striped_lru_get striped_lru_put sl_hits sl_misses
  by unfold_locales
    (auto simp: striped_lru_get_def striped_lru_put_def split: Option.bind_splits option.splits)

text \<open>In the W-TinyLFU cache only the two ends of a get touch the counters.\<close>

abbreviation wt_counts :: "wtinylfu \<Rightarrow> u64 \<times> u64" where
  "wt_counts c \<equiv> (wt_hits c, wt_misses c)"

lemma wt_record_counts: "wt_record_access key c = Some c' \<Longrightarrow> wt_counts c' = wt_counts c"
  by (auto simp: wt_record_access_def wt_maybe_decay_def Let_def split: Option.bind_splits)

lemma wt_drop_counts:
  "wt_drop_window i key c = Some c' \<Longrightarrow> wt_counts c' = wt_counts c"
  "wt_drop_probation i key c = Some c' \<Longrightarrow> wt_counts c' = wt_counts c"
  "wt_demote c = Some c' \<Longrightarrow> wt_counts c' = wt_counts c"
  by (auto simp: wt_drop_window_def wt_drop_probation_def wt_demote_def split: Option.bind_splits)

lemma wt_touch_counts: "wt_touch i c = Some c' \<Longrightarrow> wt_counts c' = wt_counts c"
  unfolding wt_touch_def wt_promote_to_protected_def
  by (auto split: Option.bind_splits wt_segment.splits if_splits dest!: wt_drop_counts)

lemma wt_try_admit_counts: "wt_try_admit_from_window c = Some c' \<Longrightarrow> wt_counts c' = wt_counts c"
  unfolding wt_try_admit_from_window_def
  by (auto simp: Let_def wt_enter_probation_def split: Option.bind_splits if_splits dest!: wt_drop_counts)

lemma wt_admit_counts: "wt_admit_loop c = Some c' \<Longrightarrow> wt_counts c' = wt_counts c"
proof (induction c c' rule: wt_admit_loop.raw_induct [rotated, consumes 1])
  case (1 loop c c')
  then show ?case by (auto split: Option.bind_splits if_splits dest!: wt_try_admit_counts)
qed

interpretation wt_bench: counting_cache wt_get wt_put wt_hits wt_misses
  by unfold_locales
    (auto simp: wt_get_def wt_put_def wt_set_value_def Let_def split: Option.bind_splits option.splits
      dest!: wt_record_counts wt_touch_counts wt_admit_counts)

text \<open>Where the W-TinyLFU run is defined, that is, where no read promotes an entry out of probation, its hit rate too is over the
  reads of the measured range.\<close>

lemma run_wtinylfu_rate:
  assumes "run_wtinylfu fl clk ops warmup capacity = Some r" and "length ops < 2 ^ 32"
  shows "\<exists>h \<le> reads (drop (unat warmup) ops). pr_hit_rate r = of_nat h / of_nat (reads (drop (unat warmup) ops))"
proof -
  let ?ms = "drop (unat warmup) ops" and ?step = "measured_step wt_get wt_put"
  obtain c c' hist n where run: "ofold (clocked_step clk ?step) ?ms (wt_reset_stats c, hist_new, 1) = Some (c', hist, n)"
    and rate: "pr_hit_rate r = wt_hit_rate c'"
    using assms(1) unfolding run_wtinylfu_def measured_drop [OF assms(2)]
    by (auto simp: Let_def policy_result_default_def split: Option.bind_splits)
  have start: "wt_hits (wt_reset_stats c) = 0" "wt_misses (wt_reset_stats c) = 0" by (simp_all add: wt_reset_stats_def)
  have "reads ?ms < 2 ^ 64" using reads_le [of ?ms] assms(2) by simp
  from wt_bench.run_rate [OF clocked_untimed [OF run] start this] show ?thesis
    using rate by (metis wt_hit_rate_def)
qed

section \<open>The LRU baseline\<close>

text \<open>The policy as the harness drives it: the hits of the reads, and the entries left.\<close>

definition policy_read :: "nat \<Rightarrow> string \<Rightarrow> kv list \<Rightarrow> nat \<times> kv list" where
  "policy_read capacity key es =
     (case lru_read key es of (None, es) \<Rightarrow> (0, lru_write capacity key (''value_'' @ key) es) | (Some _, es) \<Rightarrow> (1, es))"

fun policy_warmup :: "nat \<Rightarrow> bench_op list \<Rightarrow> kv list \<Rightarrow> kv list" where
  "policy_warmup capacity [] es = es"
| "policy_warmup capacity (op # ops) es = policy_warmup capacity ops
     (case bo_type op of Bench_GET \<Rightarrow> snd (policy_read capacity (bo_key op) es)
      | _ \<Rightarrow> lru_write capacity (bo_key op) (bo_value op) es)"

fun policy_measure :: "nat \<Rightarrow> bench_op list \<Rightarrow> kv list \<Rightarrow> nat" where
  "policy_measure capacity [] es = 0"
| "policy_measure capacity (op # ops) es =
     (case bo_type op of
        Bench_GET \<Rightarrow> (case policy_read capacity (bo_key op) es of (h, es) \<Rightarrow> h + policy_measure capacity ops es)
      | Bench_PUT \<Rightarrow> policy_measure capacity ops (lru_write capacity (bo_key op) (bo_value op) es)
      | Bench_RMW \<Rightarrow> (case policy_read capacity (bo_key op) es of
          (h, es) \<Rightarrow> h + policy_measure capacity ops (lru_write capacity (bo_key op) (bo_value op) es)))"

lemma lru_cached_read:
  assumes "lru_cache_ok capacity c"
  obtains c' where "cached_read lru_cache_get lru_cache_put key c = Some c'" and "lru_cache_ok capacity c'"
    and "lru_entries c' = snd (policy_read (unat capacity) key (lru_entries c))"
    and "lc_hits c' = lc_hits c + of_nat (fst (policy_read (unat capacity) key (lru_entries c)))"
proof -
  obtain r c1 where g: "lru_cache_get key c = Some (r, c1)" "lru_cache_ok capacity c1" "(r, lru_entries c1) = lru_read key (lru_entries c)"
    using lru_cache_get_ok [OF assms, of key] by (auto elim!: oksE)
  note n = lru.get_counts [OF g(1)]
  show ?thesis
  proof (cases r)
    case None
    obtain b c2 where p: "lru_cache_put key (''value_'' @ key) c1 = Some (b, c2)" "lru_cache_ok capacity c2"
        "lru_entries c2 = lru_write (unat capacity) key (''value_'' @ key) (lru_entries c1)"
      using lru_cache_put_ok [OF g(2), of key "''value_'' @ key"] by (auto elim!: oksE)
    show ?thesis
      using that [of c2] g p None n lru.put_counts [OF p(1)]
      by (simp add: cached_read_def policy_read_def g(3) [symmetric] split: prod.splits)
  next
    case (Some v)
    then show ?thesis using that [of c1] g n by (simp add: cached_read_def policy_read_def g(3) [symmetric])
  qed
qed

lemma lru_write_step:
  assumes "lru_cache_ok capacity c"
  obtains b c' where "lru_cache_put key val c = Some (b, c')" and "lru_cache_ok capacity c'"
    and "lru_entries c' = lru_write (unat capacity) key val (lru_entries c)" and "lc_hits c' = lc_hits c"
proof -
  obtain b c' where p: "lru_cache_put key val c = Some (b, c')" "lru_cache_ok capacity c'"
      "lru_entries c' = lru_write (unat capacity) key val (lru_entries c)"
    using lru_cache_put_ok [OF assms, of key val] by (auto elim!: oksE)
  then show ?thesis using that [of b c'] lru.put_counts [OF p(1)] by simp
qed

lemma lru_warmup_run:
  "lru_cache_ok capacity c \<Longrightarrow> oks (ofold (warmup_step lru_cache_get lru_cache_put) ops c) (\<lambda>c'. lru_cache_ok capacity c' \<and>
     lru_entries c' = policy_warmup (unat capacity) ops (lru_entries c))"
proof (induction ops arbitrary: c)
  case (Cons op ops)
  show ?case
  proof (cases "bo_type op = Bench_GET")
    case True
    obtain c' where "cached_read lru_cache_get lru_cache_put (bo_key op) c = Some c'" "lru_cache_ok capacity c'"
        "lru_entries c' = snd (policy_read (unat capacity) (bo_key op) (lru_entries c))"
      by (rule lru_cached_read [OF Cons.prems])
    then show ?thesis using Cons.IH [of c'] True by (simp add: warmup_step_def)
  next
    case False
    obtain b c' where "lru_cache_put (bo_key op) (bo_value op) c = Some (b, c')" "lru_cache_ok capacity c'"
        "lru_entries c' = lru_write (unat capacity) (bo_key op) (bo_value op) (lru_entries c)"
      by (rule lru_write_step [OF Cons.prems])
    then show ?thesis using Cons.IH [of c'] False by (cases "bo_type op") (simp_all add: warmup_step_def)
  qed
qed simp

lemma lru_measured_run:
  "lru_cache_ok capacity c \<Longrightarrow> oks (ofold (measured_step lru_cache_get lru_cache_put) ops c) (\<lambda>c'.
     lc_hits c' = lc_hits c + of_nat (policy_measure (unat capacity) ops (lru_entries c)))"
proof (induction ops arbitrary: c)
  case (Cons op ops)
  obtain c1 where c1: "cached_read lru_cache_get lru_cache_put (bo_key op) c = Some c1" "lru_cache_ok capacity c1"
      "lru_entries c1 = snd (policy_read (unat capacity) (bo_key op) (lru_entries c))"
      "lc_hits c1 = lc_hits c + of_nat (fst (policy_read (unat capacity) (bo_key op) (lru_entries c)))"
    by (rule lru_cached_read [OF Cons.prems])
  show ?case
  proof (cases "bo_type op")
    case Bench_GET
    then show ?thesis using Cons.IH [OF c1(2)] c1 by (simp add: measured_step_def case_prod_beta ac_simps)
  next
    case Bench_PUT
    obtain b c2 where "lru_cache_put (bo_key op) (bo_value op) c = Some (b, c2)" "lru_cache_ok capacity c2"
        "lru_entries c2 = lru_write (unat capacity) (bo_key op) (bo_value op) (lru_entries c)" "lc_hits c2 = lc_hits c"
      by (rule lru_write_step [OF Cons.prems])
    then show ?thesis using Cons.IH [of c2] Bench_PUT by (simp add: measured_step_def)
  next
    case Bench_RMW
    obtain b c2 where "lru_cache_put (bo_key op) (bo_value op) c1 = Some (b, c2)" "lru_cache_ok capacity c2"
        "lru_entries c2 = lru_write (unat capacity) (bo_key op) (bo_value op) (lru_entries c1)" "lc_hits c2 = lc_hits c1"
      by (rule lru_write_step [OF c1(2)])
    then show ?thesis using Cons.IH [of c2] Bench_RMW c1 by (simp add: measured_step_def case_prod_beta ac_simps)
  qed
qed simp

lemma policy_measure_le: "policy_measure capacity ops es \<le> reads ops"
proof (induction ops arbitrary: es)
  case (Cons op ops)
  have "fst (policy_read capacity key es) \<le> 1" for key by (auto simp: policy_read_def split: prod.split option.split)
  then have "fst (policy_read capacity key es) + policy_measure capacity ops es' \<le> Suc (reads ops)" for key es'
    using add_mono [OF _ Cons [of es'], of "fst (policy_read capacity key es)" 1] by simp
  moreover have "policy_measure capacity ops es' \<le> reads ops" for es' by (rule Cons)
  ultimately show ?case by (cases "bo_type op") (simp_all add: reads_Cons case_prod_beta)
qed (simp add: reads_def)

text \<open>C27. The LRU benchmark reports the LRU policy: for any operations and a cache of at least one entry it ends, and the hit
  rate is the share of reads in the measured range that hit in an LRU list warmed up by the operations before it
  (misses filled in); the number of operations is that of the measured range.\<close>

theorem run_lru_reports:
  assumes "0 < capacity" and "length ops < 2 ^ 32" and "unat warmup \<le> length ops" and "ticking clk" and "rounding fl"
  defines "hits \<equiv> policy_measure (unat capacity) (drop (unat warmup) ops) (policy_warmup (unat capacity) (take (unat warmup) ops) [])"
  shows "oks (run_lru fl clk ops warmup capacity) (\<lambda>r. pr_hit_rate r = of_nat hits / of_nat (reads (drop (unat warmup) ops)) \<and>
    hits \<le> reads (drop (unat warmup) ops) \<and> unat (pr_total_ops r) = length ops - unat warmup)"
proof -
  let ?ms = "drop (unat warmup) ops" and ?get = lru_cache_get and ?put = lru_cache_put
  have ms: "measured warmup ops = ?ms" by (rule measured_drop [OF assms(2)])
  have "lru_cache_ok capacity (lru_cache_new capacity)" using assms(1) by (simp add: lru_cache_new_def lru_ok_def)
  from lru_warmup_run [OF this, of "take (unat warmup) ops"]
  obtain c where c: "ofold (warmup_step ?get ?put) (take (unat warmup) ops) (lru_cache_new capacity) = Some c" "lru_cache_ok capacity c"
      "lru_entries c = policy_warmup (unat capacity) (take (unat warmup) ops) []"
    by (auto simp: lru_cache_new_def elim!: oksE)
  let ?c = "lru_cache_reset_stats c"
  have r: "lru_cache_ok capacity ?c" "lru_entries ?c = lru_entries c" "lc_hits ?c = 0" "lc_misses ?c = 0"
    using c(2) by (simp_all add: lru_cache_reset_stats_def)
  obtain c' where c': "ofold (measured_step ?get ?put) ?ms ?c = Some c'" "lc_hits c' = of_nat hits"
    using lru_measured_run [OF r(1), of ?ms] c(3) by (auto simp: r hits_def elim!: oksE)
  have le: "hits \<le> reads ?ms" "reads ?ms < 2 ^ 64"
    unfolding hits_def using policy_measure_le reads_le [of ?ms] assms(2) by (simp_all add: le_less_trans)
  obtain h where h: "ratio (lc_hits c') (lc_hits c' + lc_misses c') = of_nat h / of_nat (reads ?ms)" "lc_hits c' = of_nat h" "h \<le> reads ?ms"
    by (rule lru.run_rate [OF c'(1) r(3,4) le(2)])
  have "unat (of_nat k :: u64) = k" if "k \<le> reads ?ms" for k
    using that le(2) by (simp add: unsigned_of_nat take_bit_nat_eq_self)
  then have "h = hits" using h(2,3) c'(2) le(1) by metis
  then have rate: "lru_hit_rate c' = of_nat hits / of_nat (reads ?ms)" using h(1) by (simp add: lru_hit_rate_def)
  obtain ys where ys: "length ys = length ?ms" "taken clk (1 + 2 * length ?ms) ys"
      "ofold (clocked_step clk (measured_step ?get ?put)) ?ms (?c, hist_new, 1) = Some (c', hist_of ys, 1 + 2 * length ?ms)"
    using clocked_run [OF assms(4) c'(1) taken_Nil [OF assms(4), of 1]] by (auto simp: hist_of_Nil)
  have p: "\<exists>y. percentile fl p (hist_of ys) = Some y" if "0 \<le> p" "p \<le> 1" for p
    by (rule percentile_some [OF assms(5) that assms(4) ys(2)]) (use ys(1) assms(2) in auto)
  obtain p50 p95 p99 where "percentile fl (50 / 100) (hist_of ys) = Some p50" "percentile fl (95 / 100) (hist_of ys) = Some p95"
      "percentile fl (99 / 100) (hist_of ys) = Some p99"
    using p [of "50 / 100"] p [of "95 / 100"] p [of "99 / 100"] by auto
  then show ?thesis
    using c(1) ys(3) rate le(1) measured_count_ok [OF assms(2), of warmup] assms(3)
    by (simp add: run_lru_def Let_def ms policy_result_default_def)
qed

text \<open>A clock that counts up for a while, and some operations.\<close>

abbreviation demo_clock :: clock where
  "demo_clock \<equiv> (\<lambda>n. 250 * int (min n 1000))"

lemma demo_ticking: "ticking demo_clock"
  by (auto simp: ticking_def steady_def)

lemma demo_rounding: "rounding id"
  by (simp add: rounding_def mono_def)

abbreviation demo_ops :: "bench_op list" where
  "demo_ops \<equiv> map (\<lambda>(t, k). \<lparr>bo_type = t, bo_key = k, bo_value = ''v''\<rparr>)
     [(Bench_PUT, ''a''), (Bench_GET, ''b''), (Bench_RMW, ''a''), (Bench_GET, ''c''), (Bench_GET, ''b'')]"

theorem run_lru_reports_witness:
  "oks (run_lru id demo_clock demo_ops 1 2) (\<lambda>r. pr_hit_rate r = 1 / 4 \<and> unat (pr_total_ops r) = 4)"
proof -
  have "policy_measure 2 (drop 1 demo_ops) (policy_warmup 2 (take 1 demo_ops) []) = 1"
    by (simp add: policy_read_def lru_read_def lru_write_def e_write_def e_drop_def e_touch_def)
  moreover have "reads (drop 1 demo_ops) = 4" by (simp add: reads_def)
  ultimately show ?thesis
    using run_lru_reports [of 2 demo_ops 1 demo_clock id] demo_ticking demo_rounding by (auto elim!: oks_mono)
qed

end
