(* ===== verification/Bench_Walde_Props.thy ===== *)
theory Bench_Walde_Props
  imports Bench_Harness_Props
begin

text \<open>
  The WALDE run of the harness: it always ends, its hit rates are over the reads of the measured range, and the tracker's
  paths count what the counters count. The drainer's steps between the calls are arbitrary.
\<close>

section \<open>The tracker\<close>

text \<open>A histogram of \<open>k\<close> samples taken up to the \<open>n\<close>-th reading.\<close>

definition sampled :: "clock \<Rightarrow> nat \<Rightarrow> nat \<Rightarrow> histogram \<Rightarrow> bool" where
  "sampled clk n k h \<longleftrightarrow> (\<exists>xs. h = hist_of xs \<and> taken clk n xs \<and> length xs = k)"

lemma sampled_new: "ticking clk \<Longrightarrow> sampled clk n 0 hist_new"
  unfolding sampled_def by (intro exI [of _ "[]"]) (simp add: hist_of_Nil taken_Nil)

lemma sampled_later: "ticking clk \<Longrightarrow> sampled clk m k h \<Longrightarrow> m \<le> n \<Longrightarrow> sampled clk n k h"
  unfolding sampled_def by (blast intro: taken_later)

lemma sampled_count: "sampled clk n k h \<Longrightarrow> k < 2 ^ 64 \<Longrightarrow> unat (h_total_count h) = k"
  by (auto simp: sampled_def hist_of_def unsigned_of_nat take_bit_nat_eq_self)

definition during :: "clock \<Rightarrow> nat \<Rightarrow> nat \<Rightarrow> int \<Rightarrow> bool" where
  "during clk m n x \<longleftrightarrow> m \<le> n \<and> 0 \<le> x \<and> x \<le> clk n - clk m"

lemma sampled_record:
  assumes "ticking clk" and "sampled clk m k h" and "during clk m n x"
  obtains h' where "hist_record x h = Some h'" and "sampled clk n (Suc k) h'"
proof -
  obtain xs where xs: "h = hist_of xs" "taken clk m xs" "length xs = k" using assms(2) by (auto simp: sampled_def)
  have x: "m \<le> n" "0 \<le> x" "x \<le> clk n - clk m" using assms(3) by (simp_all add: during_def)
  show ?thesis
    using that [of "hist_of (xs @ [x])"] hist_record_taken [OF assms(1) xs(2) x] taken_snoc [OF assms(1) xs(2) x] xs
    unfolding sampled_def by (metis length_append_singleton)
qed

text \<open>A phase is recorded at most once per operation.\<close>

definition some_sampled :: "clock \<Rightarrow> nat \<Rightarrow> nat \<Rightarrow> histogram \<Rightarrow> bool" where
  "some_sampled clk n k h \<longleftrightarrow> (\<exists>j \<le> k. sampled clk n j h)"

lemma some_sampled_record:
  assumes "ticking clk" and "some_sampled clk m k h" and "during clk m n x"
  obtains h' where "hist_record x h = Some h'" and "some_sampled clk n (Suc k) h'"
proof -
  obtain j where j: "j \<le> k" "sampled clk m j h" using assms(2) by (auto simp: some_sampled_def)
  obtain h' where "hist_record x h = Some h'" "sampled clk n (Suc j) h'" by (rule sampled_record [OF assms(1) j(2) assms(3)])
  then show ?thesis using that j(1) by (auto simp: some_sampled_def)
qed

lemma some_sampled_positive:
  assumes "ticking clk" and "some_sampled clk m k h" and "during clk m n x"
  obtains h' where "record_positive x h = Some h'" and "some_sampled clk n (Suc k) h'"
proof (cases "x > 0")
  case True
  then show ?thesis using that some_sampled_record [OF assms] by (auto simp: record_positive_def)
next
  case False
  have "m \<le> n" using assms(3) by (simp add: during_def)
  then have "some_sampled clk n (Suc k) h"
    using assms(2) sampled_later [OF assms(1)] by (auto simp: some_sampled_def intro: le_SucI)
  then show ?thesis using that False by (simp add: record_positive_def)
qed

definition tracks :: "clock \<Rightarrow> nat \<Rightarrow> nat \<Rightarrow> nat \<Rightarrow> nat \<Rightarrow> nat \<Rightarrow> tracker \<Rightarrow> bool" where
  "tracks clk n l1 l2 b m t \<longleftrightarrow> sampled clk n (l1 + l2 + b + m) (tr_total t) \<and>
     sampled clk n l1 (tr_l1_hit t) \<and> sampled clk n l2 (tr_l2_hit t) \<and> sampled clk n b (tr_backend_hit t) \<and>
     sampled clk n m (tr_full_miss t) \<and>
     (\<forall>h \<in> {tr_lock_wait t, tr_lookup t, tr_slab t, tr_admission t, tr_eviction t, tr_l2 t, tr_backend t}.
       some_sampled clk n (l1 + l2 + b + m) h)"

lemma tracks_new: "ticking clk \<Longrightarrow> tracks clk n 0 0 0 0 tracker_new"
  using sampled_new by (auto simp: tracks_def tracker_new_def some_sampled_def)

lemma tracks_later: "ticking clk \<Longrightarrow> tracks clk m l1 l2 b k t \<Longrightarrow> m \<le> n \<Longrightarrow> tracks clk n l1 l2 b k t"
  unfolding tracks_def some_sampled_def by (meson sampled_later)

abbreviation on_path :: "path \<Rightarrow> breakdown \<Rightarrow> nat" where
  "on_path p bd \<equiv> (if bd_path bd = p then 1 else 0)"

lemma tracker_record_tracks:
  assumes clk: "ticking clk" and t: "tracks clk m l1 l2 b k t"
    and bd: "during clk m n (bd_total bd)" "\<forall>x \<in> set (phases bd). during clk m n x"
  obtains t' where "tracker_record bd t = Some t'"
    and "tracks clk n (l1 + on_path L1_HIT bd) (l2 + on_path L2_HIT bd) (b + on_path BACKEND_HIT bd) (k + on_path MISS bd) t'"
proof -
  note rec = sampled_record [OF clk _ bd(1)]
  let ?some = "some_sampled clk m (l1 + l2 + b + k)" and ?more = "some_sampled clk n (Suc (l1 + l2 + b + k))"
  have some: "?some (tr_lock_wait t)" "?some (tr_lookup t)" "?some (tr_slab t)" "?some (tr_admission t)" "?some (tr_eviction t)"
    "?some (tr_l2 t)" "?some (tr_backend t)"
    using t by (simp_all add: tracks_def)
  have dur: "during clk m n (bd_lock_wait bd)" "during clk m n (bd_lookup bd)" "during clk m n (bd_slab bd)"
    "during clk m n (bd_admission bd)" "during clk m n (bd_eviction bd)" "during clk m n (bd_l2 bd)" "during clk m n (bd_backend bd)"
    using bd(2) by (simp_all add: phases_def)
  have le: "m \<le> n" using bd(1) by (simp add: during_def)
  obtain total where total: "hist_record (bd_total bd) (tr_total t) = Some total" "sampled clk n (Suc (l1 + l2 + b + k)) total"
    by (rule rec [of "l1 + l2 + b + k" "tr_total t"]) (use t in \<open>simp add: tracks_def\<close>)
  obtain lw where lw: "hist_record (bd_lock_wait bd) (tr_lock_wait t) = Some lw" "?more lw"
    by (rule some_sampled_record [OF clk some(1) dur(1)])
  obtain lo where lo: "hist_record (bd_lookup bd) (tr_lookup t) = Some lo" "?more lo"
    by (rule some_sampled_record [OF clk some(2) dur(2)])
  obtain sl where sl: "hist_record (bd_slab bd) (tr_slab t) = Some sl" "?more sl"
    by (rule some_sampled_record [OF clk some(3) dur(3)])
  obtain ad where ad: "record_positive (bd_admission bd) (tr_admission t) = Some ad" "?more ad"
    by (rule some_sampled_positive [OF clk some(4) dur(4)])
  obtain ev where ev: "record_positive (bd_eviction bd) (tr_eviction t) = Some ev" "?more ev"
    by (rule some_sampled_positive [OF clk some(5) dur(5)])
  obtain l where l: "record_positive (bd_l2 bd) (tr_l2 t) = Some l" "?more l"
    by (rule some_sampled_positive [OF clk some(6) dur(6)])
  obtain ba where ba: "record_positive (bd_backend bd) (tr_backend t) = Some ba" "?more ba"
    by (rule some_sampled_positive [OF clk some(7) dur(7)])
  have old: "sampled clk m l1 (tr_l1_hit t)" "sampled clk m l2 (tr_l2_hit t)" "sampled clk m b (tr_backend_hit t)"
    "sampled clk m k (tr_full_miss t)"
    using t by (simp_all add: tracks_def)
  obtain p1 p2 p3 p4 where p: "hist_record (bd_total bd) (tr_l1_hit t) = Some p1" "sampled clk n (Suc l1) p1"
      "hist_record (bd_total bd) (tr_l2_hit t) = Some p2" "sampled clk n (Suc l2) p2"
      "hist_record (bd_total bd) (tr_backend_hit t) = Some p3" "sampled clk n (Suc b) p3"
      "hist_record (bd_total bd) (tr_full_miss t) = Some p4" "sampled clk n (Suc k) p4"
    using rec [OF old(1)] rec [OF old(2)] rec [OF old(3)] rec [OF old(4)] by metis
  note rest = old [THEN sampled_later [OF clk _ le]]
  define u where "u = t\<lparr>tr_total := total, tr_lock_wait := lw, tr_lookup := lo, tr_slab := sl, tr_admission := ad,
    tr_eviction := ev, tr_l2 := l, tr_backend := ba\<rparr>"
  define t' where "t' = (case bd_path bd of L1_HIT \<Rightarrow> u\<lparr>tr_l1_hit := p1\<rparr> | L2_HIT \<Rightarrow> u\<lparr>tr_l2_hit := p2\<rparr>
    | BACKEND_HIT \<Rightarrow> u\<lparr>tr_backend_hit := p3\<rparr> | MISS \<Rightarrow> u\<lparr>tr_full_miss := p4\<rparr>)"
  show ?thesis
  proof (rule that [of t'])
    show "tracker_record bd t = Some t'"
      by (cases "bd_path bd") (simp_all add: tracker_record_def Let_def total lw lo sl ad ev l ba p t'_def u_def)
    show "tracks clk n (l1 + on_path L1_HIT bd) (l2 + on_path L2_HIT bd) (b + on_path BACKEND_HIT bd) (k + on_path MISS bd) t'"
      using total(2) lw(2) lo(2) sl(2) ad(2) ev(2) l(2) ba(2) p rest
      by (cases "bd_path bd") (simp_all add: tracks_def t'_def u_def)
  qed
qed

section \<open>The engine's counters\<close>

abbreviation counters :: "'b engine \<Rightarrow> u64 \<times> u64 \<times> u64" where
  "counters e \<equiv> (engine_l1_hits e, engine_l1_misses e, engine_l2_hits e)"

lemmas counter_defs = engine_l1_hits_def engine_l1_misses_def

lemma untimedD: "untimed m = p \<Longrightarrow> m = Some (r, s, t) \<Longrightarrow> p = Some (r, s)"
  by auto

lemma engine_l2_hits_cong: "en_l2 e' = en_l2 e \<Longrightarrow> engine_l2_hits e' = engine_l2_hits e"
  by (simp add: totals)

text \<open>The path of a measured get says which counters it moved; the drainer and the puts move none.\<close>

lemma get_path_counts:
  assumes "engine_get_timed B h32 h64 clk key e t = Some (r, e', t')"
  defines "p \<equiv> bd_path (tm_bd t')"
  shows "counters e' = (engine_l1_hits e + (if p = L1_HIT then 1 else 0), engine_l1_misses e + (if p = L1_HIT then 0 else 1),
    engine_l2_hits e + (if p = L2_HIT then 1 else 0)) \<and> (p = MISS \<longleftrightarrow> r = None)"
proof -
  obtain r1 l1 t1 where l1: "sc_get_timed h32 h64 clk key (en_l1 e) t = Some (r1, l1, t1)"
    using assms(1) by (auto simp: engine_get_timed_def split: Option.bind_splits)
  note c1 = sc_get_totals [OF untimedD [OF sc_get_timed_agrees l1]]
  let ?e1 = "e\<lparr>en_l1 := l1\<rparr>"
  have e1: "engine_l2_hits ?e1 = engine_l2_hits e" by (simp add: totals)
  show ?thesis
  proof (cases r1)
    case (Some val)
    then show ?thesis using assms(1) l1 c1 e1 by (auto simp: engine_get_timed_def counter_defs set_path_def p_def)
  next
    case None
    obtain r2 e2 t2 where l2: "l2_get_timed h64 clk key ?e1 t1 = Some (r2, e2, t2)"
      using assms(1) l1 None by (auto simp: engine_get_timed_def split: Option.bind_splits)
    note c2 = l2_get_totals [OF untimedD [OF l2_get_timed_agrees l2]]
    note put = l1_put_totals [OF untimedD [OF l1_put_timed_agrees]] l1_put_timed_path
    show ?thesis
    proof (cases r2)
      case (Some val)
      obtain r3 e3 t3 where l3: "l1_put_timed h32 h64 clk key val e2 (set_path L2_HIT t2) = Some (r3, e3, t3)"
        using assms(1) l1 None l2 Some by (auto simp: engine_get_timed_def split: Option.bind_splits)
      have "e' = e3" "t' = t3" "r = Some val" using assms(1) l1 None l2 Some l3 by (simp_all add: engine_get_timed_def)
      then show ?thesis
        using c1 c2 put(1) [OF l3] put(2) [OF l3] None Some e1 engine_l2_hits_cong [of e3 e2] by (simp add: counter_defs p_def set_path_def)
    next
      case miss: None
      define t3 where "t3 = stop clk (fst (now clk t2)) set_backend (snd (now clk t2))"
      obtain r4 b where b: "bk_get B key (en_backend e2) = (r4, b)" by fastforce
      have e2: "engine_l2_hits (e2\<lparr>en_backend := b\<rparr>) = engine_l2_hits e2" by (simp add: totals)
      show ?thesis
      proof (cases r4)
        case None
        then show ?thesis
          using assms(1) l1 \<open>r1 = None\<close> l2 miss b c1 c2 e1 e2
          by (auto simp: engine_get_timed_def case_prod_beta Let_def counter_defs p_def set_path_def)
      next
        case (Some val)
        then have q: "l1_put_timed h32 h64 clk key val (e2\<lparr>en_backend := b\<rparr>) (set_path BACKEND_HIT t3) \<bind>
            (\<lambda>(_, e, t). Some (Some val, e, t)) = Some (r, e', t')"
          using assms(1) l1 \<open>r1 = None\<close> l2 miss b by (simp add: engine_get_timed_def case_prod_beta Let_def t3_def)
        obtain r5 e5 t5 where l5: "l1_put_timed h32 h64 clk key val (e2\<lparr>en_backend := b\<rparr>) (set_path BACKEND_HIT t3) = Some (r5, e5, t5)"
          using q by (auto split: Option.bind_splits)
        have "e' = e5" "t' = t5" "r = Some val" using q l5 by simp_all
        then show ?thesis
          using c1 c2 put(1) [OF l5] put(2) [OF l5] \<open>r1 = None\<close> miss e1 e2 engine_l2_hits_cong [of e5 "e2\<lparr>en_backend := b\<rparr>"]
          by (simp add: counter_defs p_def set_path_def)
      qed
    qed
  qed
qed

lemma put_counts: "engine_put B h32 h64 key val e = Some (r, e') \<Longrightarrow> counters e' = counters e"
  by (auto simp: engine_put_def case_prod_beta counter_defs totals dest!: l1_put_totals)

lemma drain_pop_counts: "drain_pop e = Some e' \<Longrightarrow> counters e' = counters e"
  by (auto simp: drain_pop_def counter_defs totals split: Option.bind_splits if_splits)

lemma drain_insert_counts: "drain_insert h64 e = Some e' \<Longrightarrow> counters e' = counters e"
  by (auto simp: drain_insert_def counter_defs totals split: Option.bind_splits list.splits dest!: l2_put_totals)

section \<open>The calls\<close>

text \<open>What a call keeps: the engine is well formed, the keys of \<open>D\<close> stay in the backend, and no level has those of \<open>W\<close>.\<close>

definition sustained :: "hash64 \<Rightarrow> l1_shape \<Rightarrow> string set \<Rightarrow> string set \<Rightarrow> memory_backend engine \<Rightarrow> bool" where
  "sustained h64 K D W e \<longleftrightarrow> engine_inv h64 K e \<and> D \<subseteq> dom (mb_store (en_backend e)) \<and>
     (\<forall>k \<in> W. mb_store (en_backend e) k = None \<and> (\<forall>v. \<not> holds h64 e k v))"

lemma sustained_inv: "sustained h64 K D W e \<Longrightarrow> engine_inv h64 K e"
  by (simp add: sustained_def)

lemma sustained_drain:
  assumes "sustained h64 K D W e"
  shows "oks (if pop then drain_pop e else drain_insert h64 e) (\<lambda>e'. sustained h64 K D W e' \<and> counters e' = counters e)"
proof (cases pop)
  case True
  obtain e' where e': "drain_pop e = Some e'" "engine_inv h64 K e'" "en_backend e' = en_backend e"
      "pending e' = pending e" "sc_lookup h64 (en_l1 e') = sc_lookup h64 (en_l1 e)" "l2_lookup h64 e' = l2_lookup h64 e"
    by (rule drain_pop_ok [OF sustained_inv [OF assms]])
  have "holds h64 e' = holds h64 e" using e'(4-6) by (simp add: holds_def waits_def fun_eq_iff)
  then show ?thesis using True e'(1-3) assms drain_pop_counts [OF e'(1)] by (simp add: sustained_def)
next
  case False
  obtain e' where e': "drain_insert h64 e = Some e'" "engine_inv h64 K e'" "en_backend e' = en_backend e"
      "\<And>k v. holds h64 e' k v \<Longrightarrow> holds h64 e k v"
    by (rule drain_insert_ok [OF sustained_inv [OF assms]]) (rule that; assumption)
  have "sustained h64 K D W e'" using assms e'(2-4) unfolding sustained_def by (metis (no_types))
  then show ?thesis using False e'(1) drain_insert_counts [OF e'(1)] by simp
qed

lemma sustained_put:
  assumes "sustained h64 K D W e" and "key \<notin> W"
  obtains r e' where "engine_put memory_ops h32 h64 key val e = Some (r, e')" and "sustained h64 K D W e'" and "counters e' = counters e"
proof -
  obtain r e' where e': "engine_put memory_ops h32 h64 key val e = Some (r, e')" "engine_inv h64 K e'"
      "mb_store (en_backend e') = (mb_store (en_backend e))(key \<mapsto> val)"
      "\<And>k v. holds h64 e' k v \<Longrightarrow> k = key \<and> v = val \<or> holds h64 e k v"
    by (rule memory.engine_put_ok [OF sustained_inv [OF assms(1)], of h32 key val]) (rule that; assumption)
  have "sustained h64 K D W e'"
    unfolding sustained_def using assms e'(2,3) by (auto simp: sustained_def dest: e'(4))
  then show ?thesis by (rule that [OF e'(1) _ put_counts [OF e'(1)]])
qed

lemma sustained_get:
  assumes "sustained h64 K D W e"
  obtains r e' where "engine_get memory_ops h32 h64 key e = Some (r, e')" and "sustained h64 K D W e'"
    and "key \<in> D \<longrightarrow> r \<noteq> None" and "key \<in> W \<longrightarrow> r = None"
proof -
  obtain r e' where e': "engine_get memory_ops h32 h64 key e = Some (r, e')" "engine_inv h64 K e'"
      "mb_store (en_backend e') = mb_store (en_backend e)"
      "\<And>k v. holds h64 e' k v \<Longrightarrow> holds h64 e k v \<or> k = key \<and> mb_store (en_backend e) key = Some v"
      "\<And>v. r = Some v \<Longrightarrow> holds h64 e key v \<or> mb_store (en_backend e) key = Some v"
      "r = None \<Longrightarrow> mb_store (en_backend e) key = None"
    by (rule memory.engine_get_ok [OF sustained_inv [OF assms], of h32 key]) (rule that; assumption)
  have "sustained h64 K D W e'"
    unfolding sustained_def using assms e'(2,3) by (auto simp: sustained_def dest: e'(4))
  moreover have "r = None" if "key \<in> W" using that assms e'(5) by (cases r) (auto simp: sustained_def)
  moreover have "r \<noteq> None" if "key \<in> D" using that assms e'(6) by (auto simp: sustained_def)
  ultimately show ?thesis using that [OF e'(1)] by blast
qed

abbreviation keeps :: "hash64 \<Rightarrow> l1_shape \<Rightarrow> string set \<Rightarrow> string set \<Rightarrow> memory_backend run_state \<Rightarrow> bool" where
  "keeps h64 K D W s \<equiv> sustained h64 K D W (rs_engine s)"

lemma drainer_works_ok:
  assumes "keeps h64 K D W s"
  obtains s' where "drainer_works h64 sched s = Some s'" and "keeps h64 K D W s'" and "counters (rs_engine s') = counters (rs_engine s)"
    and "rs_reads s' = rs_reads s" and "rs_tracker s' = rs_tracker s"
proof -
  let ?step = "\<lambda>pop e. if pop then drain_pop e else drain_insert h64 e"
  let ?I = "\<lambda>e'. sustained h64 K D W e' \<and> counters e' = counters (rs_engine s)"
  have step: "oks (?step pop e) ?I" if "?I e" for pop e
    by (rule oks_mono [OF sustained_drain [of h64 K D W e pop]]) (use that in simp_all)
  have "oks (ofold ?step (sched (rs_calls s)) (rs_engine s)) ?I"
    by (rule ofold_inv) (rule step, assumption, use assms in simp)
  then obtain e' where e': "ofold ?step (sched (rs_calls s)) (rs_engine s) = Some e'" "?I e'" by (auto elim!: oksE)
  then show ?thesis
    using that [of "s\<lparr>rs_engine := e', rs_calls := rs_calls s + 1\<rparr>"] by (simp add: drainer_works_def)
qed

lemma call_put_ok:
  assumes "keeps h64 K D W s" and "key \<notin> W"
  obtains s' where "call_put memory_ops h32 h64 sched key val s = Some s'" and "keeps h64 K D W s'"
    and "counters (rs_engine s') = counters (rs_engine s)" and "rs_reads s' = rs_reads s" and "rs_tracker s' = rs_tracker s"
proof -
  obtain s1 where s1: "drainer_works h64 sched s = Some s1" "keeps h64 K D W s1" "counters (rs_engine s1) = counters (rs_engine s)"
      "rs_reads s1 = rs_reads s" "rs_tracker s1 = rs_tracker s"
    by (rule drainer_works_ok [OF assms(1)])
  obtain r e where "engine_put memory_ops h32 h64 key val (rs_engine s1) = Some (r, e)" "sustained h64 K D W e"
      "counters e = counters (rs_engine s1)"
    by (rule sustained_put [OF s1(2) assms(2)])
  then show ?thesis using that [of "s1\<lparr>rs_engine := e\<rparr>"] s1 by (simp add: call_put_def)
qed

lemma call_put_timed_ok:
  assumes "keeps h64 K D W s" and "key \<notin> W" and "steady clk"
  obtains bd s' where "call_put_timed memory_ops h32 h64 clk sched key val breakdown_new s = Some (bd, s')" and "keeps h64 K D W s'"
    and "counters (rs_engine s') = counters (rs_engine s)" and "rs_tracker s' = rs_tracker s" and "bd_path bd = MISS"
    and "fits clk (rs_reads s) \<lparr>tm_reads = rs_reads s', tm_bd = bd\<rparr>"
proof -
  obtain s1 where s1: "drainer_works h64 sched s = Some s1" "keeps h64 K D W s1" "counters (rs_engine s1) = counters (rs_engine s)"
      "rs_reads s1 = rs_reads s" "rs_tracker s1 = rs_tracker s"
    by (rule drainer_works_ok [OF assms(1)])
  obtain r e where e: "engine_put memory_ops h32 h64 key val (rs_engine s1) = Some (r, e)" "sustained h64 K D W e"
      "counters e = counters (rs_engine s1)"
    by (rule sustained_put [OF s1(2) assms(2)])
  let ?t = "\<lparr>tm_reads = rs_reads s, tm_bd = breakdown_new\<rparr>"
  obtain t where t: "engine_put_timed memory_ops h32 h64 clk key val (rs_engine s1) ?t = Some (r, e, t)"
    using engine_put_untimed [of memory_ops h32 h64 clk key val "rs_engine s1" ?t] e(1) by auto
  have "bd_path (tm_bd t) = MISS"
    using t by (auto simp: engine_put_timed_def case_prod_beta breakdown_new_def dest!: l1_put_timed_path)
  moreover have "fits clk (rs_reads s) \<lparr>tm_reads = tm_reads t, tm_bd = tm_bd t\<rparr>"
    using engine_put_fits [OF assms(3) t fits_start] by (simp add: fits_def)
  ultimately show ?thesis
    using that [of "tm_bd t" "s1\<lparr>rs_engine := e, rs_reads := tm_reads t\<rparr>"] s1 e t by (simp add: call_put_timed_def)
qed

lemma call_get_timed_ok:
  assumes "keeps h64 K D W s" and "steady clk"
  obtains bd s' where "call_get_timed memory_ops h32 h64 clk sched key breakdown_new s = Some (bd, s')" and "keeps h64 K D W s'"
    and "counters (rs_engine s') = (engine_l1_hits (rs_engine s) + of_nat (on_path L1_HIT bd),
      engine_l1_misses (rs_engine s) + of_nat (on_path L2_HIT bd + on_path BACKEND_HIT bd + on_path MISS bd),
      engine_l2_hits (rs_engine s) + of_nat (on_path L2_HIT bd))"
    and "rs_tracker s' = rs_tracker s" and "key \<in> D \<Longrightarrow> bd_path bd \<noteq> MISS" and "key \<in> W \<Longrightarrow> bd_path bd = MISS"
    and "fits clk (rs_reads s) \<lparr>tm_reads = rs_reads s', tm_bd = bd\<rparr>"
proof -
  obtain s1 where s1: "drainer_works h64 sched s = Some s1" "keeps h64 K D W s1" "counters (rs_engine s1) = counters (rs_engine s)"
      "rs_reads s1 = rs_reads s" "rs_tracker s1 = rs_tracker s"
    by (rule drainer_works_ok [OF assms(1)])
  obtain r e where e: "engine_get memory_ops h32 h64 key (rs_engine s1) = Some (r, e)" "sustained h64 K D W e"
      "key \<in> D \<longrightarrow> r \<noteq> None" "key \<in> W \<longrightarrow> r = None"
    by (rule sustained_get [OF s1(2), of h32 key]) (rule that; assumption)
  let ?t = "\<lparr>tm_reads = rs_reads s, tm_bd = breakdown_new\<rparr>"
  obtain t where t: "engine_get_timed memory_ops h32 h64 clk key (rs_engine s1) ?t = Some (r, e, t)"
    using engine_get_untimed [of memory_ops h32 h64 clk key "rs_engine s1" ?t] e(1) by auto
  note c = get_path_counts [OF t]
  have miss: "key \<in> D \<Longrightarrow> bd_path (tm_bd t) \<noteq> MISS" "key \<in> W \<Longrightarrow> bd_path (tm_bd t) = MISS" using c e(3,4) by simp_all
  have count: "counters e = (engine_l1_hits (rs_engine s) + of_nat (on_path L1_HIT (tm_bd t)),
      engine_l1_misses (rs_engine s) + of_nat (on_path L2_HIT (tm_bd t) + on_path BACKEND_HIT (tm_bd t) + on_path MISS (tm_bd t)),
      engine_l2_hits (rs_engine s) + of_nat (on_path L2_HIT (tm_bd t)))"
    using c s1(3) by (cases "bd_path (tm_bd t)") simp_all
  have fit: "fits clk (rs_reads s) \<lparr>tm_reads = tm_reads t, tm_bd = tm_bd t\<rparr>"
    using engine_get_fits [OF assms(2) t fits_start] by (simp add: fits_def)
  show ?thesis
    by (rule that [of "tm_bd t" "s1\<lparr>rs_engine := e, rs_reads := tm_reads t\<rparr>"])
      (use s1 e t miss count fit in \<open>simp_all add: call_get_timed_def\<close>)
qed

section \<open>The measuring loop\<close>

lemma fits_during:
  assumes "steady clk" and "fits clk (Suc m) \<lparr>tm_reads = n, tm_bd = bd\<rparr>"
  shows "\<forall>x \<in> set (phases bd). during clk m (Suc n) x" and "during clk m (Suc n) (clk n - clk m)"
proof -
  have le: "clk m \<le> clk (Suc m)" "clk n \<le> clk (Suc n)" "Suc m \<le> n" using assms by (simp_all add: steady_def fits_def)
  show "during clk m (Suc n) (clk n - clk m)" using le steady_le [OF assms(1), of m n] by (simp add: during_def)
  have "x \<le> sum_list (phases bd)" if "x \<in> set (phases bd)" for x
    using that assms(2) by (auto simp: fits_def intro: member_le_sum_list)
  then show "\<forall>x \<in> set (phases bd). during clk m (Suc n) x"
    using assms(2) le by (fastforce simp: fits_def during_def)
qed

lemma recorded_ok:
  assumes clk: "ticking clk" and t: "tracks clk (rs_reads s) l1 l2 b k (rs_tracker s)"
    and body: "body breakdown_new (s\<lparr>rs_reads := rs_reads s + 1\<rparr>) = Some (bd, s')"
    and s': "rs_tracker s' = rs_tracker s" "fits clk (rs_reads s + 1) \<lparr>tm_reads = rs_reads s', tm_bd = bd\<rparr>"
  obtains s2 where "recorded clk body s = Some s2" and "rs_engine s2 = rs_engine s'" and "rs_reads s2 = Suc (rs_reads s')"
    and "tracks clk (rs_reads s2) (l1 + on_path L1_HIT bd) (l2 + on_path L2_HIT bd) (b + on_path BACKEND_HIT bd)
      (k + on_path MISS bd) (rs_tracker s2)"
proof -
  let ?bd = "bd\<lparr>bd_total := clk (rs_reads s') - clk (rs_reads s)\<rparr>"
  have steady: "steady clk" using clk by (simp add: ticking_def)
  note d = fits_during [OF steady s'(2) [unfolded Suc_eq_plus1 [symmetric]]]
  obtain tr where tr: "tracker_record ?bd (rs_tracker s) = Some tr"
    "tracks clk (Suc (rs_reads s')) (l1 + on_path L1_HIT ?bd) (l2 + on_path L2_HIT ?bd) (b + on_path BACKEND_HIT ?bd) (k + on_path MISS ?bd) tr"
    by (rule tracker_record_tracks [OF clk t, of "Suc (rs_reads s')" ?bd]) (use d in \<open>simp_all add: phases_def\<close>)
  show ?thesis
    by (rule that [of "s'\<lparr>rs_reads := rs_reads s' + 1, rs_tracker := tr\<rparr>"])
      (use tr body s'(1) in \<open>simp_all add: recorded_def Let_def\<close>)
qed

definition unknown :: "string set \<Rightarrow> bench_op list \<Rightarrow> nat" where
  "unknown D ops = length (filter (\<lambda>op. bo_type op \<noteq> Bench_PUT \<and> bo_key op \<notin> D) ops)"

definition written_keys :: "bench_op list \<Rightarrow> string set" where
  "written_keys ops = bo_key ` {op \<in> set ops. bo_type op \<noteq> Bench_GET}"

lemma written_keys_Cons:
  "written_keys (op # ops) = written_keys ops \<union> (if bo_type op = Bench_GET then {} else {bo_key op})"
  by (auto simp: written_keys_def)

definition progress ::
    "clock \<Rightarrow> hash64 \<Rightarrow> l1_shape \<Rightarrow> string set \<Rightarrow> string set \<Rightarrow> 'b engine \<Rightarrow> bench_op list \<Rightarrow> memory_backend run_state \<Rightarrow> bool" where
  "progress clk h64 K D W e0 ops s \<longleftrightarrow> keeps h64 K D W s \<and>
     (\<exists>l1 l2 b m. tracks clk (rs_reads s) l1 l2 b (m + (length ops - reads ops)) (rs_tracker s) \<and>
       counters (rs_engine s) = (engine_l1_hits e0 + of_nat l1, engine_l1_misses e0 + of_nat (l2 + b + m), engine_l2_hits e0 + of_nat l2) \<and>
       l1 + l2 + b + m = reads ops \<and> m \<le> unknown D ops \<and> unknown (- W) ops \<le> m)"

text \<open>An operation that reads: \<open>s1\<close> is the state after its get, \<open>s'\<close> after its put, if it has one.\<close>

lemma walde_read_step:
  assumes clk: "ticking clk" and s: "progress clk h64 K D W e0 ops s" and get: "bo_type op \<noteq> Bench_PUT"
    and key: "bo_type op \<noteq> Bench_GET \<Longrightarrow> bo_key op \<notin> W"
  obtains s2 where "walde_step memory_ops h32 h64 clk sched op s = Some s2" and "progress clk h64 K D W e0 (ops @ [op]) s2"
proof -
  let ?s = "s\<lparr>rs_reads := rs_reads s + 1\<rparr>"
  obtain l1 l2 b m where p: "tracks clk (rs_reads s) l1 l2 b (m + (length ops - reads ops)) (rs_tracker s)"
      "counters (rs_engine s) = (engine_l1_hits e0 + of_nat l1, engine_l1_misses e0 + of_nat (l2 + b + m), engine_l2_hits e0 + of_nat l2)"
      "l1 + l2 + b + m = reads ops" "m \<le> unknown D ops" "unknown (- W) ops \<le> m"
    using s by (auto simp: progress_def)
  have k: "keeps h64 K D W ?s" using s by (simp add: progress_def)
  obtain bd s1 where s1: "call_get_timed memory_ops h32 h64 clk sched (bo_key op) breakdown_new ?s = Some (bd, s1)" "keeps h64 K D W s1"
      "counters (rs_engine s1) = (engine_l1_hits (rs_engine ?s) + of_nat (on_path L1_HIT bd),
        engine_l1_misses (rs_engine ?s) + of_nat (on_path L2_HIT bd + on_path BACKEND_HIT bd + on_path MISS bd),
        engine_l2_hits (rs_engine ?s) + of_nat (on_path L2_HIT bd))"
      "rs_tracker s1 = rs_tracker ?s" "bo_key op \<in> D \<Longrightarrow> bd_path bd \<noteq> MISS" "bo_key op \<in> W \<Longrightarrow> bd_path bd = MISS"
      "fits clk (rs_reads ?s) \<lparr>tm_reads = rs_reads s1, tm_bd = bd\<rparr>"
    by (rule call_get_timed_ok [OF k clk [unfolded ticking_def, THEN conjunct1], of h32 sched "bo_key op"]) (rule that; assumption)
  obtain s' where s': "if bo_type op = Bench_RMW then call_put memory_ops h32 h64 sched (bo_key op) (bo_value op) s1 = Some s' else s' = s1"
      "keeps h64 K D W s'" "counters (rs_engine s') = counters (rs_engine s1)" "rs_reads s' = rs_reads s1" "rs_tracker s' = rs_tracker s1"
  proof (cases "bo_type op = Bench_RMW")
    case True
    obtain s' where "call_put memory_ops h32 h64 sched (bo_key op) (bo_value op) s1 = Some s'" "keeps h64 K D W s'"
        "counters (rs_engine s') = counters (rs_engine s1)" "rs_reads s' = rs_reads s1" "rs_tracker s' = rs_tracker s1"
      by (rule call_put_ok [OF s1(2) key]) (use True in simp_all)
    then show ?thesis using that [of s'] True by simp
  qed (use that s1(2) in simp)
  have body: "walde_body memory_ops h32 h64 clk sched op breakdown_new ?s = Some (bd, s')"
    using s1(1) s'(1) get by (cases "bo_type op") (simp_all add: walde_body_def)
  obtain s2 where s2: "walde_step memory_ops h32 h64 clk sched op s = Some s2" "rs_engine s2 = rs_engine s'" "rs_reads s2 = Suc (rs_reads s')"
      "tracks clk (rs_reads s2) (l1 + on_path L1_HIT bd) (l2 + on_path L2_HIT bd) (b + on_path BACKEND_HIT bd)
        (m + (length ops - reads ops) + on_path MISS bd) (rs_tracker s2)"
    unfolding walde_step_def by (rule recorded_ok [where body = "walde_body memory_ops h32 h64 clk sched op", OF clk p(1) body]) (use s1 s' in simp_all)
  have r: "reads (ops @ [op]) = Suc (reads ops)" "unknown D (ops @ [op]) = unknown D ops + (if bo_key op \<in> D then 0 else 1)"
    "unknown (- W) (ops @ [op]) = unknown (- W) ops + (if bo_key op \<in> W then 1 else 0)"
    using get by (simp_all add: reads_def unknown_def)
  have one: "on_path L1_HIT bd + on_path L2_HIT bd + on_path BACKEND_HIT bd + on_path MISS bd = 1" by (cases "bd_path bd") simp_all
  show ?thesis
  proof (rule that [of s2])
    show "walde_step memory_ops h32 h64 clk sched op s = Some s2" by (rule s2(1))
    have "tracks clk (rs_reads s2) (l1 + on_path L1_HIT bd) (l2 + on_path L2_HIT bd) (b + on_path BACKEND_HIT bd)
        ((m + on_path MISS bd) + (length (ops @ [op]) - reads (ops @ [op]))) (rs_tracker s2)"
      using s2(4) by (simp add: r ac_simps)
    moreover have "counters (rs_engine s2) = (engine_l1_hits e0 + of_nat (l1 + on_path L1_HIT bd),
        engine_l1_misses e0 + of_nat ((l2 + on_path L2_HIT bd) + (b + on_path BACKEND_HIT bd) + (m + on_path MISS bd)),
        engine_l2_hits e0 + of_nat (l2 + on_path L2_HIT bd))"
      using s1(3) s'(3) p(2) by (simp add: s2(2) ac_simps)
    moreover have "(l1 + on_path L1_HIT bd) + (l2 + on_path L2_HIT bd) + (b + on_path BACKEND_HIT bd) + (m + on_path MISS bd) = reads (ops @ [op])"
      using p(3) one unfolding r by linarith
    moreover have "m + on_path MISS bd \<le> unknown D (ops @ [op])" using p(4) s1(5) unfolding r by auto
    moreover have "unknown (- W) (ops @ [op]) \<le> m + on_path MISS bd" using p(5) s1(6) unfolding r by auto
    moreover have "keeps h64 K D W s2" using s'(2) by (simp add: s2(2))
    ultimately show "progress clk h64 K D W e0 (ops @ [op]) s2" unfolding progress_def by blast
  qed
qed

lemma walde_put_step:
  assumes clk: "ticking clk" and s: "progress clk h64 K D W e0 ops s" and put: "bo_type op = Bench_PUT"
    and key: "bo_key op \<notin> W"
  obtains s2 where "walde_step memory_ops h32 h64 clk sched op s = Some s2" and "progress clk h64 K D W e0 (ops @ [op]) s2"
proof -
  let ?s = "s\<lparr>rs_reads := rs_reads s + 1\<rparr>"
  obtain l1 l2 b m where p: "tracks clk (rs_reads s) l1 l2 b (m + (length ops - reads ops)) (rs_tracker s)"
      "counters (rs_engine s) = (engine_l1_hits e0 + of_nat l1, engine_l1_misses e0 + of_nat (l2 + b + m), engine_l2_hits e0 + of_nat l2)"
      "l1 + l2 + b + m = reads ops" "m \<le> unknown D ops" "unknown (- W) ops \<le> m"
    using s by (auto simp: progress_def)
  have k: "keeps h64 K D W ?s" using s by (simp add: progress_def)
  obtain bd s' where s': "call_put_timed memory_ops h32 h64 clk sched (bo_key op) (bo_value op) breakdown_new ?s = Some (bd, s')" "keeps h64 K D W s'"
      "counters (rs_engine s') = counters (rs_engine ?s)" "rs_tracker s' = rs_tracker ?s" "bd_path bd = MISS"
      "fits clk (rs_reads ?s) \<lparr>tm_reads = rs_reads s', tm_bd = bd\<rparr>"
    by (rule call_put_timed_ok [OF k key clk [unfolded ticking_def, THEN conjunct1], of h32 sched "bo_value op"])
      (rule that; assumption)
  have body: "walde_body memory_ops h32 h64 clk sched op breakdown_new ?s = Some (bd, s')" using s'(1) put by (simp add: walde_body_def)
  obtain s2 where s2: "walde_step memory_ops h32 h64 clk sched op s = Some s2" "rs_engine s2 = rs_engine s'" "rs_reads s2 = Suc (rs_reads s')"
      "tracks clk (rs_reads s2) (l1 + on_path L1_HIT bd) (l2 + on_path L2_HIT bd) (b + on_path BACKEND_HIT bd)
        (m + (length ops - reads ops) + on_path MISS bd) (rs_tracker s2)"
    unfolding walde_step_def by (rule recorded_ok [where body = "walde_body memory_ops h32 h64 clk sched op", OF clk p(1) body]) (use s' in simp_all)
  have r: "reads (ops @ [op]) = reads ops" "unknown D (ops @ [op]) = unknown D ops"
    "unknown (- W) (ops @ [op]) = unknown (- W) ops" "Suc (length ops) - reads ops = Suc (length ops - reads ops)"
    using put reads_le [of ops] by (simp_all add: reads_def unknown_def Suc_diff_le)
  have "tracks clk (rs_reads s2) l1 l2 b (m + (length (ops @ [op]) - reads (ops @ [op]))) (rs_tracker s2)"
  proof -
    have "m + (length ops - reads ops) + on_path MISS bd = m + (length (ops @ [op]) - reads (ops @ [op]))"
      using s'(5) r by simp
    from s2(4) [unfolded this] show ?thesis using s'(5) by (simp only: if_False add_0_right path.distinct simp_thms)
  qed
  moreover have "counters (rs_engine s2) = (engine_l1_hits e0 + of_nat l1, engine_l1_misses e0 + of_nat (l2 + b + m), engine_l2_hits e0 + of_nat l2)"
    using s'(3) p(2) by (simp add: s2(2))
  moreover have "keeps h64 K D W s2" using s'(2) by (simp add: s2(2))
  ultimately have "progress clk h64 K D W e0 (ops @ [op]) s2" using p(3-5) unfolding progress_def r by blast
  then show ?thesis using that s2(1) by blast
qed

lemma walde_run_ok:
  assumes "ticking clk"
  shows "progress clk h64 K D W e0 ops s \<Longrightarrow> written_keys ops' \<inter> W = {} \<Longrightarrow> oks (ofold (walde_step memory_ops h32 h64 clk sched) ops' s) (progress clk h64 K D W e0 (ops @ ops'))"
proof (induction ops' arbitrary: ops s)
  case (Cons op ops')
  obtain s1 where s1: "walde_step memory_ops h32 h64 clk sched op s = Some s1" "progress clk h64 K D W e0 (ops @ [op]) s1"
    proof (cases "bo_type op = Bench_PUT")
    case True
    show ?thesis
      by (rule walde_put_step [OF assms Cons.prems(1) True]) (use Cons.prems(2) True in \<open>auto simp: written_keys_Cons intro: that\<close>)
  next
    case False
    show ?thesis
      by (rule walde_read_step [OF assms Cons.prems(1) False]) (use Cons.prems(2) in \<open>auto simp: written_keys_Cons intro: that\<close>)
  qed
  have "written_keys ops' \<inter> W = {}" using Cons.prems(2) by (auto simp: written_keys_Cons)
  then show ?case using Cons.IH [OF s1(2)] by (simp add: s1(1))
qed simp

section \<open>The run\<close>

lemma walde_warmup_ok:
  "keeps h64 K D W s \<Longrightarrow> written_keys ops \<inter> W = {} \<Longrightarrow> oks (ofold (walde_warmup_step memory_ops h32 h64 sched) ops s) (\<lambda>s'. keeps h64 K D W s' \<and>
     rs_reads s' = rs_reads s \<and> rs_tracker s' = rs_tracker s)"
proof (induction ops arbitrary: s)
  case (Cons op ops)
  obtain s1 where s1: "walde_warmup_step memory_ops h32 h64 sched op s = Some s1" "keeps h64 K D W s1" "rs_reads s1 = rs_reads s"
      "rs_tracker s1 = rs_tracker s"
  proof (cases "bo_type op = Bench_PUT \<or> bo_type op = Bench_RMW")
    case True
    obtain s' where "call_put memory_ops h32 h64 sched (bo_key op) (bo_value op) s = Some s'" "keeps h64 K D W s'"
        "rs_reads s' = rs_reads s" "rs_tracker s' = rs_tracker s"
      by (rule call_put_ok [OF Cons.prems(1), of "bo_key op" h32 sched "bo_value op"])
        (use Cons.prems(2) True in \<open>auto simp: written_keys_Cons\<close>)
    then show ?thesis using that [of s'] True by (simp add: walde_warmup_step_def)
  next
    case False
    obtain s2 where s2: "drainer_works h64 sched s = Some s2" "keeps h64 K D W s2" "rs_reads s2 = rs_reads s" "rs_tracker s2 = rs_tracker s"
      by (rule drainer_works_ok [OF Cons.prems(1)])
    obtain r e where "engine_get memory_ops h32 h64 (bo_key op) (rs_engine s2) = Some (r, e)" "sustained h64 K D W e"
      by (rule sustained_get [OF s2(2), of h32 "bo_key op"])
    then show ?thesis
      using that [of "s2\<lparr>rs_engine := e\<rparr>"] s2 False by (simp add: walde_warmup_step_def call_get_def)
  qed
  have "written_keys ops \<inter> W = {}" using Cons.prems(2) by (auto simp: written_keys_Cons)
  then show ?case using Cons.IH [OF s1(2)] s1 by simp
qed simp

text \<open>What a run has counted at its end, as the harness reads it off: \<open>l1\<close> reads answered by L1, \<open>l2\<close> by L2, \<open>b\<close> by the
  backend, \<open>m\<close> by nobody.\<close>

definition path_counts :: "tracker \<Rightarrow> nat \<times> nat \<times> nat \<times> nat \<times> nat" where
  "path_counts t = (unat (h_total_count (tr_total t)), unat (h_total_count (tr_l1_hit t)), unat (h_total_count (tr_l2_hit t)),
     unat (h_total_count (tr_backend_hit t)), unat (h_total_count (tr_full_miss t)))"

lemma unat_small: "k < 2 ^ 64 \<Longrightarrow> unat (of_nat k :: u64) = k"
  by (simp add: unsigned_of_nat take_bit_nat_eq_self)

lemma ratio_small: "x < 2 ^ 64 \<Longrightarrow> y < 2 ^ 64 \<Longrightarrow> ratio (of_nat x) (of_nat y) = of_nat x / of_nat y"
  using word_gt_0 [of "of_nat y :: u64"] by (auto simp: ratio_def unat_small unat_gt_0 [symmetric])

lemma progress_report:
  assumes "progress clk h64 K D W e0 ms s" and "length ms < 2 ^ 32"
  obtains l1 l2 b m where "l1 + l2 + b + m = reads ms" and "m \<le> unknown D ms" and "unknown (- W) ms \<le> m"
    and "engine_l1_hits (rs_engine s) - engine_l1_hits e0 = of_nat l1"
    and "engine_l1_misses (rs_engine s) - engine_l1_misses e0 = of_nat (l2 + b + m)"
    and "engine_l2_hits (rs_engine s) - engine_l2_hits e0 = of_nat l2"
    and "ratio (of_nat l1 + of_nat l2) (of_nat l1 + of_nat (l2 + b + m)) = of_nat (l1 + l2) / of_nat (reads ms)"
    and "ratio (of_nat l1) (of_nat l1 + of_nat (l2 + b + m)) = of_nat l1 / of_nat (reads ms)"
    and "ratio (of_nat l2) (of_nat (l2 + b + m)) = of_nat l2 / of_nat (l2 + b + m)"
    and "path_counts (rs_tracker s) = (length ms, l1, l2, b, m + (length ms - reads ms))"
proof -
  obtain l1 l2 b m where p: "tracks clk (rs_reads s) l1 l2 b (m + (length ms - reads ms)) (rs_tracker s)"
      "counters (rs_engine s) = (engine_l1_hits e0 + of_nat l1, engine_l1_misses e0 + of_nat (l2 + b + m), engine_l2_hits e0 + of_nat l2)"
      "l1 + l2 + b + m = reads ms" "m \<le> unknown D ms" "unknown (- W) ms \<le> m"
    using assms(1) by (auto simp: progress_def)
  have ratio: "ratio (of_nat x) (of_nat y) = of_nat x / of_nat y" if "x \<le> reads ms" "y \<le> reads ms" for x y
    using that assms(2) reads_le [of ms] by (intro ratio_small) simp_all
  have sums: "(of_nat l1 + of_nat (l2 + b + m) :: u64) = of_nat (reads ms)" "(of_nat l1 + of_nat l2 :: u64) = of_nat (l1 + l2)"
    by (simp_all flip: p(3))
  have total: "l1 + l2 + b + (m + (length ms - reads ms)) = length ms" using p(3) reads_le [of ms] by linarith
  show ?thesis
  proof (rule that [OF p(3-5)])
    show "path_counts (rs_tracker s) = (length ms, l1, l2, b, m + (length ms - reads ms))"
      using p(1) total p(3) assms(2) reads_le [of ms] unfolding path_counts_def tracks_def by (auto intro!: sampled_count)
    show "ratio (of_nat l1 + of_nat l2) (of_nat l1 + of_nat (l2 + b + m)) = of_nat (l1 + l2) / of_nat (reads ms)"
      unfolding sums by (rule ratio) (use p(3) in simp_all)
    show "ratio (of_nat l1) (of_nat l1 + of_nat (l2 + b + m)) = of_nat l1 / of_nat (reads ms)"
      unfolding sums by (rule ratio) (use p(3) in simp_all)
    show "ratio (of_nat l2) (of_nat (l2 + b + m)) = of_nat l2 / of_nat (l2 + b + m)"
      by (rule ratio) (use p(3) in simp_all)
  qed (use p(2) in simp_all)
qed

text \<open>Every histogram of the tracker has its percentiles.\<close>

lemma sampled_percentile:
  assumes "rounding fl" and "ticking clk" and "some_sampled clk n k h" and "k < 2 ^ 32" and "0 \<le> q" and "q \<le> 1"
  obtains y where "percentile fl q h = Some y"
proof -
  obtain xs where xs: "h = hist_of xs" "taken clk n xs" "length xs \<le> k" using assms(3) by (auto simp: some_sampled_def sampled_def)
  show ?thesis unfolding xs(1)
    by (rule percentile_some [OF assms(1,5,6,2) xs(2)]) (use xs that assms(4) in auto)
qed

lemma tracks_sampled:
  assumes "tracks clk n l1 l2 b m t"
  shows "\<forall>h \<in> set (histograms t). some_sampled clk n (l1 + l2 + b + m) h"
proof -
  have "some_sampled clk n (l1 + l2 + b + m) h" if "sampled clk n j h" "j \<le> l1 + l2 + b + m" for j h
    using that by (auto simp: some_sampled_def)
  then show ?thesis using assms by (auto simp: tracks_def histograms_def)
qed

lemma progress_percentiles:
  assumes "progress clk h64 K D W e0 ms s" and "length ms < 2 ^ 32" and "ticking clk" and "rounding fl"
    and "h \<in> set (histograms (rs_tracker s))" and "0 \<le> q" and "q \<le> 1"
  shows "\<exists>y. percentile fl q h = Some y"
proof -
  obtain l1 l2 b m where p: "tracks clk (rs_reads s) l1 l2 b (m + (length ms - reads ms)) (rs_tracker s)" "l1 + l2 + b + m = reads ms"
    using assms(1) by (auto simp: progress_def)
  have "l1 + l2 + b + (m + (length ms - reads ms)) = length ms" using p(2) reads_le [of ms] by linarith
  then have "some_sampled clk (rs_reads s) (length ms) h" using tracks_sampled [OF p(1)] assms(5) by simp
  then obtain y where "percentile fl q h = Some y" by (rule sampled_percentile [OF assms(4,3) _ assms(2,6,7)])
  then show ?thesis ..
qed

lemma progress_start:
  assumes "keeps h64 K D W s" and "rs_tracker s = tracker_new" and "ticking clk"
  shows "progress clk h64 K D W (rs_engine s) [] s"
  unfolding progress_def using assms(1) tracks_new [OF assms(3)] assms(2)
  by (intro conjI exI [of _ 0]) (simp_all add: reads_def unknown_def)

lemma run_walde_counts:
  assumes "engine_new (walde_config capacity) backend = Some (Inr e0)" and "length ops < 2 ^ 32" and "unat warmup \<le> length ops"
    and "ticking clk" and "rounding fl"
  defines "ms \<equiv> drop (unat warmup) ops"
  shows "oks (run_walde_with_backend fl h32 h64 clk sched ops warmup capacity backend) (\<lambda>res. \<exists>r t l1 l2 b m. res = Inr (r, t) \<and>
    l1 + l2 + b + m = reads ms \<and> m \<le> unknown (dom (mb_store backend)) ms \<and>
    unknown (dom (mb_store backend) \<union> written_keys ops) ms \<le> m \<and>
    pr_hit_rate r = of_nat (l1 + l2) / of_nat (reads ms) \<and> pr_l1_hit_rate r = of_nat l1 / of_nat (reads ms) \<and>
    pr_l2_hit_rate r = of_nat l2 / of_nat (l2 + b + m) \<and> unat (pr_total_ops r) = length ms \<and>
    path_counts t = (length ms, l1, l2, b, m + (length ms - reads ms)))"
proof -
  let ?D = "dom (mb_store backend)" and ?W = "- (dom (mb_store backend) \<union> written_keys ops)" and ?warm = "walde_warmup_step memory_ops h32 h64 sched"
  let ?init = "\<lparr>rs_engine = e0, rs_calls = 0, rs_reads = 1, rs_tracker = tracker_new\<rparr>"
  have ms: "measured warmup ops = ms" "length ms < 2 ^ 32"
    unfolding ms_def using measured_drop [OF assms(2)] assms(2) by (simp_all add: less_imp_diff_less)
  have q: "unat (ec_queue_size (walde_config capacity)) \<le> 2 ^ 31" by (simp add: walde_config_def)
  obtain K where K: "engine_inv h64 K e0" "en_backend e0 = backend" "\<And>k v. \<not> holds h64 e0 k v"
    by (rule engine_new_ok [OF assms(1) q, of h64]) (rule that; assumption)
  have w: "written_keys (take (unat warmup) ops) \<inter> ?W = {}" "written_keys ms \<inter> ?W = {}"
    using set_take_subset [of "unat warmup" ops] set_drop_subset [of "unat warmup" ops]
    unfolding ms_def written_keys_def by blast+
  have "keeps h64 K ?D ?W ?init" using K by (auto simp: sustained_def)
  then obtain s where s: "ofold ?warm (take (unat warmup) ops) ?init = Some s" "keeps h64 K ?D ?W s" "rs_tracker s = tracker_new"
    using walde_warmup_ok [of h64 K ?D ?W ?init "take (unat warmup) ops" h32 sched, OF _ w(1)] by (auto elim!: oksE)
  from walde_run_ok [OF assms(4) progress_start [OF s(2,3) assms(4)] w(2), of h32 sched]
  obtain s' where s': "ofold (walde_step memory_ops h32 h64 clk sched) ms s = Some s'" "progress clk h64 K ?D ?W (rs_engine s) ms s'"
    by (auto elim!: oksE)
  obtain l1 l2 b m where p: "l1 + l2 + b + m = reads ms" "m \<le> unknown ?D ms"
      "unknown (dom (mb_store backend) \<union> written_keys ops) ms \<le> m"
      "path_counts (rs_tracker s') = (length ms, l1, l2, b, m + (length ms - reads ms))"
    and n: "engine_l1_hits (rs_engine s') - engine_l1_hits (rs_engine s) = of_nat l1"
      "engine_l1_misses (rs_engine s') - engine_l1_misses (rs_engine s) = of_nat (l2 + b + m)"
      "engine_l2_hits (rs_engine s') - engine_l2_hits (rs_engine s) = of_nat l2"
      "ratio (of_nat l1 + of_nat l2) (of_nat l1 + of_nat (l2 + b + m)) = of_nat (l1 + l2) / of_nat (reads ms)"
      "ratio (of_nat l1) (of_nat l1 + of_nat (l2 + b + m)) = of_nat l1 / of_nat (reads ms)"
      "ratio (of_nat l2) (of_nat (l2 + b + m)) = of_nat l2 / of_nat (l2 + b + m)"
    by (rule progress_report [OF s'(2) ms(2)]) (rule that; simp)
  have pc: "\<exists>y. percentile fl x (tr_total (rs_tracker s')) = Some y" if "0 \<le> x" "x \<le> 1" for x
    by (rule progress_percentiles [OF s'(2) ms(2) assms(4,5) _ that]) (simp add: histograms_def)
  obtain p50 p95 p99 where pcs: "percentile fl (50 / 100) (tr_total (rs_tracker s')) = Some p50"
      "percentile fl (95 / 100) (tr_total (rs_tracker s')) = Some p95" "percentile fl (99 / 100) (tr_total (rs_tracker s')) = Some p99"
    using pc [of "50 / 100"] pc [of "95 / 100"] pc [of "99 / 100"] by auto
  have mops: "unat (measured_count warmup ops) = length ms"
    using measured_count_ok [OF assms(2), of warmup] assms(3) by (simp add: ms(1))
  have "oks (run_walde_with_backend fl h32 h64 clk sched ops warmup capacity backend) (\<lambda>res. \<exists>r. res = Inr (r, rs_tracker s') \<and>
      pr_hit_rate r = of_nat (l1 + l2) / of_nat (reads ms) \<and> pr_l1_hit_rate r = of_nat l1 / of_nat (reads ms) \<and>
      pr_l2_hit_rate r = of_nat l2 / of_nat (l2 + b + m) \<and> pr_total_ops r = measured_count warmup ops)"
    unfolding run_walde_with_backend_def assms(1) ms(1)
    by (simp only: bind.bind_lunit sum.case Let_def s(1) s'(1) pcs n oks_Some) simp
  then show ?thesis
    by (rule oks_mono) (elim exE conjE, intro exI conjI, assumption, (use p mops in simp)+)
qed

text \<open>C23. The WALDE benchmark is sound: whatever the drainer does between the calls, the run ends; its hit rates are over
  the reads of the measured range (\<open>l1\<close> answered by L1, \<open>l2\<close> by L2, \<open>b\<close> by the backend, \<open>m\<close> by nobody: at most the
  reads of keys the backend did not start with, and every read of one of these that no operation writes, however often
  it is repeated); and the tracker, filled from the breakdowns, agrees with the counters
  path by path, except that every put is recorded as a full miss.\<close>

theorem run_walde_reports:
  assumes "engine_new (walde_config capacity) backend = Some (Inr e0)" and "length ops < 2 ^ 32" and "unat warmup \<le> length ops"
    and "ticking clk" and "rounding fl"
  defines "ms \<equiv> drop (unat warmup) ops"
  shows "oks (run_walde_with_backend fl h32 h64 clk sched ops warmup capacity backend) (\<lambda>res. \<exists>r t l1 l2 b m. res = Inr (r, t) \<and>
    l1 + l2 + b + m = reads ms \<and> m \<le> unknown (dom (mb_store backend)) ms \<and>
    unknown (dom (mb_store backend) \<union> written_keys ops) ms \<le> m \<and>
    pr_hit_rate r = of_nat (l1 + l2) / of_nat (reads ms) \<and> pr_l1_hit_rate r = of_nat l1 / of_nat (reads ms) \<and>
    pr_l2_hit_rate r = of_nat l2 / of_nat (l2 + b + m) \<and> unat (pr_total_ops r) = length ms \<and>
    path_counts t = (length ms, l1, l2, b, m + (length ms - reads ms)))"
  unfolding ms_def by (rule run_walde_counts [OF assms(1-5)])

lemma demo_walde:
  obtains e where "engine_new (walde_config 256) b = Some (Inr e)"
proof -
  obtain st where "stripe_new (per_stripe 256) f32_0_01 f32_0_20 = Some st" by (rule default_stripe)
  then have "make_stripes (default_pct 256) (per_stripe 256) = Some (replicate 64 st)"
    by (intro make_stripes_eq) simp
  then show ?thesis using that by (auto simp: engine_new_def sc_new_def slab_new_def kNumStripes_def walde_config_def default_config_def)
qed

theorem run_walde_reports_witness:
  "oks (run_walde_with_backend id demo_hash demo_hash64 demo_clock (\<lambda>n. [True, False]) demo_ops 1 256 (make_trace_backend [''a'', ''b'']))
    (\<lambda>res. \<exists>r t l1 l2 b. res = Inr (r, t) \<and> unat (pr_total_ops r) = 4 \<and> path_counts t = (4, l1, l2, b, 1) \<and> l1 + l2 + b = 3)"
proof -
  let ?b = "make_trace_backend [''a'', ''b'']"
  obtain e where e: "engine_new (walde_config 256) ?b = Some (Inr e)" by (rule demo_walde)
  have "dom (mb_store ?b) = {''a'', ''b''}" by (auto simp: make_trace_backend_def memory_put_def memory_new_def)
  then have "unknown (dom (mb_store ?b)) (drop 1 demo_ops) = 1"
    and "unknown (dom (mb_store ?b) \<union> written_keys demo_ops) (drop 1 demo_ops) = 1" and "reads (drop 1 demo_ops) = 4"
    by (simp_all add: unknown_def reads_def written_keys_Cons) (simp add: written_keys_def)
  then show ?thesis
    using run_walde_reports [OF e, of demo_ops 1 demo_clock id demo_hash demo_hash64 "\<lambda>n. [True, False]"] demo_ticking demo_rounding
    by (auto elim!: oks_mono)
qed

end
