(* ===== verification/Bench_Workload_Props.thy ===== *)
theory Bench_Workload_Props
  imports Bench_Workload
begin

text \<open>
  What the workloads of the benchmarks are: which keys each YCSB mix touches, that the scan mix is the one of
  the library's own generator, and which keys a replayed trace has.
\<close>

section \<open>Keys\<close>

lemma latest_next_ok:
  assumes "zipf_table n (zg_cdf (la_zipf l))" and "uniform01 rng" and "0 < la_insert_count l"
  obtains i where "latest_next rng l = (i, l\<lparr>la_zipf := (la_zipf l)\<lparr>zg_draws := zg_draws (la_zipf l) + 1\<rparr>\<rparr>)"
    and "i < la_insert_count l"
    and "unat i = unat (la_insert_count l) - 1 - min (unat (fst (zipf_next_index rng (la_zipf l)))) (unat (la_insert_count l) - 1)"
proof -
  obtain offset where o: "zipf_next_index rng (la_zipf l) = (offset, (la_zipf l)\<lparr>zg_draws := zg_draws (la_zipf l) + 1\<rparr>)"
    by (rule zipf_next_index_ok [OF assms(1,2)])
  let ?c = "la_insert_count l"
  let ?o = "if offset \<ge> ?c then ?c - 1 else offset"
  have pred: "unat (?c - 1) = unat ?c - 1" "0 < unat ?c" using assms(3) unat_pred_u32 [of ?c] by (simp_all add: unat_gt_0 word_gt_0)
  have "?o \<le> ?c - 1" using pred by (auto simp: word_le_nat_alt)
  then have "unat (?c - 1 - ?o) = unat ?c - 1 - unat ?o" using pred(1) by (simp add: unat_sub)
  then have "?c - 1 - ?o < ?c" using pred(2) by (simp add: word_less_nat_alt)
  moreover have "unat ?o = min (unat offset) (unat ?c - 1)" using pred by (auto simp: word_le_nat_alt min_def)
  ultimately show ?thesis
    using that [of "?c - 1 - ?o"] o \<open>unat (?c - 1 - ?o) = unat ?c - 1 - unat ?o\<close>
    by (simp add: latest_next_def bench_zipf_next_def Let_def)
qed

section \<open>The YCSB mixes\<close>

text \<open>A batch as a recursion.\<close>

primrec bench_run :: "rng \<Rightarrow> urng \<Rightarrow> nat \<Rightarrow> bench_gen \<Rightarrow> bench_op list \<times> bench_gen" where
  "bench_run rng urng 0 g = ([], g)"
| "bench_run rng urng (Suc k) g =
     (let (op, g) = bench_next rng urng g; (ops, g) = bench_run rng urng k g in (op # ops, g))"

lemma bench_batch_run: "bench_batch rng urng count g = bench_run rng urng (unat count) g"
proof -
  have "fold (\<lambda>_ (ops, g). let (op, g) = bench_next rng urng g in (ops @ [op], g)) xs (ops, g) =
      (let (ops', g') = bench_run rng urng (length xs) g in (ops @ ops', g'))" for xs :: "u32 list" and ops g
    by (induction xs arbitrary: ops g) (simp_all add: Let_def case_prod_beta)
  then show ?thesis by (simp add: bench_batch_def)
qed

text \<open>The type of an operation of a mix, by the draw of its coin: half of A are reads, 95 percent of B and D, all of C; the
  others are writes, in F read-modify-writes. \<open>0.95\<close> is rounded to a \<open>double\<close>.\<close>

definition ycsb_type :: "(rat \<Rightarrow> rat) \<Rightarrow> ycsb_workload \<Rightarrow> rat \<Rightarrow> bench_type" where
  "ycsb_type fl workload r = (case workload of
     YCSB_A \<Rightarrow> if r < 1 / 2 then Bench_GET else Bench_PUT
   | YCSB_B \<Rightarrow> if r < fl (95 / 100) then Bench_GET else Bench_PUT
   | YCSB_C \<Rightarrow> Bench_GET
   | YCSB_D \<Rightarrow> if r < fl (95 / 100) then Bench_GET else Bench_PUT
   | YCSB_F \<Rightarrow> if r < 1 / 2 then Bench_GET else Bench_RMW)"

text \<open>The key an operation draws, for a generator as it was built: uniform, or by the first Zipf table, or, in \<open>YCSB_D\<close>, so far
  back from the newest of the \<open>avail\<close> keys as the second Zipf table says (from the newest, if there are fewer).\<close>

definition ycsb_index :: "rng \<Rightarrow> urng \<Rightarrow> bench_gen \<Rightarrow> nat \<Rightarrow> nat \<Rightarrow> nat" where
  "ycsb_index rng urng g avail m =
     (let cfg = bg_config g in
      if bc_use_uniform cfg then unat (urng (bc_seed cfg + 100) m (bc_num_keys cfg - 1))
      else if bc_workload cfg = YCSB_D
      then avail - 1 - min (unat (fst (zipf_next_index rng ((la_zipf (bg_latest g))\<lparr>zg_draws := m\<rparr>)))) (avail - 1)
      else unat (fst (zipf_next_index rng ((bg_zipf g)\<lparr>zg_draws := m\<rparr>))))"

text \<open>The \<open>m\<close>-th operation of a mix, from 0, when \<open>avail\<close> keys exist: its type and its key are the ones drawn. A write of
  \<open>YCSB_D\<close> creates the next key instead, everything else touches a key that exists.\<close>

definition ycsb_op :: "(rat \<Rightarrow> rat) \<Rightarrow> rng \<Rightarrow> urng \<Rightarrow> bench_gen \<Rightarrow> nat \<Rightarrow> nat \<Rightarrow> bench_op \<Rightarrow> bool" where
  "ycsb_op fl rng urng g avail m op \<longleftrightarrow>
     (let cfg = bg_config g in
      bo_type op = ycsb_type fl (bc_workload cfg) (rng (bc_seed cfg + 300) m) \<and>
      bo_value op = (case bo_type op of Bench_GET \<Rightarrow> [] | Bench_PUT \<Rightarrow> ''val_'' @ to_string (Suc m)
        | Bench_RMW \<Rightarrow> ''rmw_'' @ to_string (Suc m)) \<and>
      (if bc_workload cfg = YCSB_D \<and> bo_type op = Bench_PUT then bo_key op = ''key_'' @ to_string avail
       else ycsb_index rng urng g avail m < avail \<and> bo_key op = ''key_'' @ to_string (ycsb_index rng urng g avail m)))"

abbreviation avail_after :: "bench_gen \<Rightarrow> nat \<Rightarrow> bench_op \<Rightarrow> nat" where
  "avail_after g avail op \<equiv> if bc_workload (bg_config g) = YCSB_D \<and> bo_type op = Bench_PUT then Suc avail else avail"

fun ycsb_ops :: "(rat \<Rightarrow> rat) \<Rightarrow> rng \<Rightarrow> urng \<Rightarrow> bench_gen \<Rightarrow> nat \<Rightarrow> nat \<Rightarrow> bench_op list \<Rightarrow> bool" where
  "ycsb_ops fl rng urng g avail m [] = True"
| "ycsb_ops fl rng urng g avail m (op # ops) =
     (ycsb_op fl rng urng g avail m op \<and> ycsb_ops fl rng urng g (avail_after g avail op) (Suc m) ops)"

text \<open>The state of the generator \<open>g0\<close> after \<open>m\<close> operations, and that of the key generator in use after \<open>d\<close> draws.\<close>

definition bench_ok :: "(rat \<Rightarrow> rat) \<Rightarrow> bench_gen \<Rightarrow> nat \<Rightarrow> nat \<Rightarrow> bench_gen \<Rightarrow> bool" where
  "bench_ok fl g0 avail m g \<longleftrightarrow> bg_config g = bg_config g0 \<and>
     (let cfg = bg_config g0 in
      zipf_table (bc_num_keys cfg) (zg_cdf (bg_zipf g)) \<and> zipf_table (bc_num_keys cfg) (zg_cdf (la_zipf (bg_latest g))) \<and>
      0 < bc_num_keys cfg \<and> unat (bc_num_keys cfg) \<le> avail \<and> unat (la_insert_count (bg_latest g)) = avail \<and>
      unat (bg_ops_generated g) = m \<and> bg_seed g = bc_seed cfg + 300 \<and> bg_read_ratio g = read_ratio_of fl (bc_workload cfg))"

definition keys_at :: "bench_gen \<Rightarrow> nat \<Rightarrow> bench_gen \<Rightarrow> bool" where
  "keys_at g0 d g \<longleftrightarrow>
     (let cfg = bg_config g0 in
      if bc_use_uniform cfg then bg_uniform g = \<lparr>un_hi = bc_num_keys cfg - 1, un_seed = bc_seed cfg + 100, un_draws = d\<rparr>
      else if bc_workload cfg = YCSB_D then la_zipf (bg_latest g) = (la_zipf (bg_latest g0))\<lparr>zg_draws := d\<rparr>
      else bg_zipf g = (bg_zipf g0)\<lparr>zg_draws := d\<rparr>)"

lemma bench_key_index_ok:
  assumes ok: "bench_ok fl g0 avail m g" and at: "keys_at g0 d g" and rng: "uniform01 rng" "uniform_upto urng"
  obtains i g' where "bench_key_index rng urng g = (i, g')" and "unat i < avail" and "unat i = ycsb_index rng urng g0 avail d"
    and "bench_ok fl g0 avail m g'" and "keys_at g0 (Suc d) g'" and "bg_draws g' = bg_draws g"
proof -
  let ?cfg = "bg_config g0"
  let ?n = "bc_num_keys ?cfg"
  have cfg: "bg_config g = ?cfg" using ok by (simp add: bench_ok_def)
  have n: "zipf_table ?n (zg_cdf (bg_zipf g))" "zipf_table ?n (zg_cdf (la_zipf (bg_latest g)))" "0 < ?n" "unat ?n \<le> avail"
      "unat (la_insert_count (bg_latest g)) = avail"
    using ok by (simp_all add: bench_ok_def Let_def)
  have pos: "0 < la_insert_count (bg_latest g)" "0 < unat ?n" using n(3-5) by (auto simp: word_less_nat_alt)
  consider (uniform) "bc_use_uniform ?cfg" | (latest) "\<not> bc_use_uniform ?cfg" "bc_workload ?cfg = YCSB_D"
    | (zipf) "\<not> bc_use_uniform ?cfg" "bc_workload ?cfg \<noteq> YCSB_D" by blast
  then show ?thesis
  proof cases
    case uniform
    let ?i = "urng (bc_seed ?cfg + 100) d (?n - 1)"
    have "?i \<le> ?n - 1" using rng(2) by (simp add: uniform_upto_def)
    then have "unat ?i < avail" using n(4) pos(2) unat_pred_u32 [of ?n] by (simp add: word_le_nat_alt)
    moreover have u: "bg_uniform g = \<lparr>un_hi = ?n - 1, un_seed = bc_seed ?cfg + 100, un_draws = d\<rparr>"
      using at uniform by (simp add: keys_at_def Let_def)
    ultimately show ?thesis
      by (intro that [of ?i "g\<lparr>bg_uniform := (bg_uniform g)\<lparr>un_draws := un_draws (bg_uniform g) + 1\<rparr>\<rparr>"])
        (use uniform ok cfg u in \<open>simp_all add: bench_key_index_def bench_uniform_next_def bench_ok_def keys_at_def ycsb_index_def Let_def\<close>)
  next
    case latest
    let ?z = "la_zipf (bg_latest g)"
    have z: "?z = (la_zipf (bg_latest g0))\<lparr>zg_draws := d\<rparr>" using at latest by (simp add: keys_at_def Let_def)
    obtain i where l: "latest_next rng (bg_latest g) = (i, (bg_latest g)\<lparr>la_zipf := ?z\<lparr>zg_draws := zg_draws ?z + 1\<rparr>\<rparr>)"
        "i < la_insert_count (bg_latest g)" "unat i = avail - 1 - min (unat (fst (zipf_next_index rng ?z))) (avail - 1)"
      by (rule latest_next_ok [OF n(2) rng(1) pos(1), unfolded n(5)])
    have "unat i < avail" using l(2) n(5) by (simp add: word_less_nat_alt)
    then show ?thesis
      by (intro that [of i "g\<lparr>bg_latest := (bg_latest g)\<lparr>la_zipf := ?z\<lparr>zg_draws := zg_draws ?z + 1\<rparr>\<rparr>\<rparr>"])
        (use latest ok cfg l z in \<open>simp_all add: bench_key_index_def bench_ok_def keys_at_def ycsb_index_def Let_def\<close>)
  next
    case zipf
    have z: "bg_zipf g = (bg_zipf g0)\<lparr>zg_draws := d\<rparr>" using at zipf by (simp add: keys_at_def Let_def)
    obtain i where i: "zipf_next_index rng (bg_zipf g) = (i, (bg_zipf g)\<lparr>zg_draws := zg_draws (bg_zipf g) + 1\<rparr>)" "i < ?n"
      by (rule zipf_next_index_ok [OF n(1) rng(1)])
    have "unat i < avail" using i(2) n(4) by (simp add: word_less_nat_alt)
    then show ?thesis
      by (intro that [of i "g\<lparr>bg_zipf := (bg_zipf g)\<lparr>zg_draws := zg_draws (bg_zipf g) + 1\<rparr>\<rparr>"])
        (use zipf ok cfg i(1) z in \<open>simp_all add: bench_key_index_def bench_zipf_next_def bench_ok_def keys_at_def ycsb_index_def Let_def\<close>)
  qed
qed

lemma bench_ok_count:
  assumes "bench_ok fl g0 avail m g" and "m < 2 ^ 64 - 1"
  shows "bench_ok fl g0 avail (Suc m) (g\<lparr>bg_ops_generated := bg_ops_generated g + 1\<rparr>)"
proof -
  have "unat (bg_ops_generated g + 1) = Suc m"
    using assms by (simp add: bench_ok_def Let_def unat_word_ariths)
  then show ?thesis using assms(1) by (simp add: bench_ok_def Let_def)
qed

lemma keys_at_count [simp]:
  "keys_at g0 d (g\<lparr>bg_ops_generated := k\<rparr>) = keys_at g0 d g" "keys_at g0 d (g\<lparr>bg_draws := b\<rparr>) = keys_at g0 d g"
  "keys_at g0 d (g\<lparr>bg_draws := b, bg_latest := latest_record_insert (bg_latest g)\<rparr>) = keys_at g0 d g"
  by (simp_all add: keys_at_def latest_record_insert_def)

lemma bench_next_ok:
  assumes ok: "bench_ok fl g0 avail m g" and at: "keys_at g0 m g" "bg_draws g = m"
    and rng: "uniform01 rng" "uniform_upto urng" and b: "avail < 2 ^ 32 - 1" "m < 2 ^ 64 - 1"
  obtains op g' where "bench_next rng urng g = (op, g')" and "ycsb_op fl rng urng g0 avail m op"
    and "keys_at g0 (Suc m) g'" and "bg_draws g' = Suc m" and "bench_ok fl g0 (avail_after g0 avail op) (Suc m) g'"
proof -
  have at': "keys_at g0 m (g\<lparr>bg_ops_generated := bg_ops_generated g + 1\<rparr>)" using at(1) by simp
  obtain i g1 where g1: "bench_key_index rng urng (g\<lparr>bg_ops_generated := bg_ops_generated g + 1\<rparr>) = (i, g1)" "unat i < avail"
      "unat i = ycsb_index rng urng g0 avail m" "bench_ok fl g0 avail (Suc m) g1" "keys_at g0 (Suc m) g1" "bg_draws g1 = m"
    by (rule bench_key_index_ok [OF bench_ok_count [OF ok b(2)] at' rng]) (use at(2) in simp)
  let ?w = "bc_workload (bg_config g0)" and ?r = "rng (bc_seed (bg_config g0) + 300) m"
  let ?g2 = "g1\<lparr>bg_draws := bg_draws g1 + 1\<rparr>"
  have r: "?r < 1" using rng(1) by (simp add: uniform01_def)
  have ok2: "bench_ok fl g0 avail (Suc m) ?g2" using g1(4) by (simp add: bench_ok_def)
  have f: "bg_config g1 = bg_config g0" "unat (bg_ops_generated g1) = Suc m" "unat (la_insert_count (bg_latest g1)) = avail"
      "bg_read_ratio g1 = read_ratio_of fl ?w" "bg_seed g1 = bc_seed (bg_config g0) + 300"
    using g1(4) by (simp_all add: bench_ok_def Let_def)
  have "unat (la_insert_count (bg_latest g1) + 1) = Suc avail"
    using f(3) b(1) by (simp add: unat_word_ariths)
  then have ok3: "bench_ok fl g0 (Suc avail) (Suc m) (?g2\<lparr>bg_latest := latest_record_insert (bg_latest g1)\<rparr>)"
    using g1(4) by (auto simp: bench_ok_def latest_record_insert_def Let_def)
  obtain op g' where e: "bench_next rng urng g = (op, g')" by fastforce
  have "ycsb_op fl rng urng g0 avail m op \<and> keys_at g0 (Suc m) g' \<and> bg_draws g' = Suc m \<and>
      bench_ok fl g0 (avail_after g0 avail op) (Suc m) g'"
    using e g1(1,2,5,6) g1(3) [symmetric] f r ok2 ok3
    by (cases ?w) (auto simp: bench_next_def bench_op_default_def ycsb_op_def ycsb_type_def Let_def split: if_splits)
  then show ?thesis using that e by blast
qed

lemma bench_run_ok:
  assumes "uniform01 rng" and "uniform_upto urng"
  shows "bench_ok fl g0 avail m g \<Longrightarrow> keys_at g0 m g \<Longrightarrow> bg_draws g = m \<Longrightarrow> avail + k < 2 ^ 32 \<Longrightarrow> m + k < 2 ^ 64 \<Longrightarrow>
    length (fst (bench_run rng urng k g)) = k \<and> ycsb_ops fl rng urng g0 avail m (fst (bench_run rng urng k g))"
proof (induction k arbitrary: avail m g)
  case (Suc k)
  have b: "avail < 2 ^ 32 - 1" "m < 2 ^ 64 - 1" using Suc.prems(4,5) by simp_all
  obtain op g1 where g1: "bench_next rng urng g = (op, g1)" "ycsb_op fl rng urng g0 avail m op" "keys_at g0 (Suc m) g1"
      "bg_draws g1 = Suc m" "bench_ok fl g0 (avail_after g0 avail op) (Suc m) g1"
    by (rule bench_next_ok [OF Suc.prems(1-3) assms b])
  from Suc.IH [OF g1(5,3,4)] Suc.prems(4,5) g1(1,2) show ?case by (simp add: Let_def case_prod_beta split: if_splits)
qed simp

lemma bench_gen_new_ok:
  assumes "rounding fl" and "\<And>x y. 0 \<le> pow x y" and "0 < bc_num_keys cfg" and "unat (bc_num_keys cfg) < 2 ^ 32 - 1"
  shows "oks (bench_gen_new fl pow cfg) (\<lambda>g. bench_ok fl g (unat (bc_num_keys cfg)) 0 g \<and> keys_at g 0 g \<and> bg_draws g = 0 \<and>
    bg_config g = cfg \<and> zipf_new fl pow (bc_num_keys cfg) (bc_zipf_alpha cfg) (bc_seed cfg) = Some (bg_zipf g) \<and>
    zipf_new fl pow (bc_num_keys cfg) (bc_zipf_alpha cfg) (bc_seed cfg + 200) = Some (la_zipf (bg_latest g)))"
proof -
  obtain z where z: "zipf_new fl pow (bc_num_keys cfg) (bc_zipf_alpha cfg) (bc_seed cfg) = Some z" "zipf_table (bc_num_keys cfg) (zg_cdf z)"
    by (rule zipf_new_table [OF assms(1) assms(2) assms(3,4)])
  obtain l where l: "zipf_new fl pow (bc_num_keys cfg) (bc_zipf_alpha cfg) (bc_seed cfg + 200) = Some l" "zipf_table (bc_num_keys cfg) (zg_cdf l)"
    by (rule zipf_new_table [OF assms(1) assms(2) assms(3,4)])
  have d: "zg_draws z = 0" "zg_draws l = 0"
    using z(1) l(1) by (auto simp: zipf_new_def Let_def split: Option.bind_splits)
  then have "z\<lparr>zg_draws := 0\<rparr> = z" "l\<lparr>zg_draws := 0\<rparr> = l" by simp_all
  then show ?thesis
    using z l assms(3)
    by (simp add: bench_gen_new_def latest_new_def bench_zipf_new_def bench_uniform_new_def bench_ok_def keys_at_def Let_def)
qed

text \<open>C40. A batch of a YCSB mix: for every draw of the generators it has the operations asked for. The type of the
  \<open>m\<close>-th is decided by the \<open>m\<close>-th draw \<open>r\<close> of the coin, seeded with \<open>seed + 300\<close>: a read if \<open>r < 0.5\<close> in A and F and if
  \<open>r < 0.95\<close> in B and D, always in C, and otherwise a put, in F a read-modify-write. Its key is the one that the
  generator in use draws then: uniform (\<open>seed + 100\<close>), by the Zipf table (\<open>seed\<close>), or in mix D by the Zipf table counted
  back from the newest key (\<open>seed + 200\<close>); it exists at that point. Every write of mix D inserts the next key instead,
  consecutively from \<open>num_keys\<close>. Values are numbered from 1.\<close>

theorem ycsb_batch:
  assumes "rounding fl" and "\<forall>x y. 0 \<le> pow x y" and "uniform01 rng" and "uniform_upto urng"
    and "0 < bc_num_keys cfg" and "unat (bc_num_keys cfg) + unat count < 2 ^ 32 - 1"
  shows "oks (bench_gen_new fl pow cfg) (\<lambda>g. bg_config g = cfg \<and>
    zipf_new fl pow (bc_num_keys cfg) (bc_zipf_alpha cfg) (bc_seed cfg) = Some (bg_zipf g) \<and>
    zipf_new fl pow (bc_num_keys cfg) (bc_zipf_alpha cfg) (bc_seed cfg + 200) = Some (la_zipf (bg_latest g)) \<and>
    length (fst (bench_batch rng urng count g)) = unat count \<and>
    ycsb_ops fl rng urng g (unat (bc_num_keys cfg)) 0 (fst (bench_batch rng urng count g)))"
proof -
  have n: "unat (bc_num_keys cfg) < 2 ^ 32 - 1" "unat (bc_num_keys cfg) + unat count < 2 ^ 32" "0 + unat count < (2 :: nat) ^ 64"
    using assms(6) by simp_all
  show ?thesis
    unfolding bench_batch_run
    by (rule oks_mono [OF bench_gen_new_ok [OF assms(1) _ assms(5) n(1)]])
      (use assms(2) bench_run_ok [OF assms(3,4) _ _ _ n(2,3)] in blast)+
qed

text \<open>The coin of the witness falls on a read and on an insertion in turn.\<close>

theorem ycsb_batch_witness:
  "oks (bench_gen_new id (\<lambda>x y. x ^ 2) \<lparr>bc_workload = YCSB_D, bc_num_keys = 3, bc_zipf_alpha = 1, bc_seed = 42, bc_use_uniform = False\<rparr>)
    (\<lambda>g. map bo_type (fst (bench_batch (\<lambda>seed n. if even n then 0 else 97 / 100) (\<lambda>seed n hi. 0) 2 g)) = [Bench_GET, Bench_PUT])"
proof -
  let ?cfg = "\<lparr>bc_workload = YCSB_D, bc_num_keys = 3, bc_zipf_alpha = 1, bc_seed = 42, bc_use_uniform = False\<rparr>"
  let ?rng = "\<lambda>seed n. if even n then 0 else 97 / 100 :: rat" and ?urng = "\<lambda>seed n hi. 0"
  have types: "map bo_type ops = [Bench_GET, Bench_PUT]"
    if "length ops = 2" "ycsb_ops id ?rng ?urng g avail 0 ops" "bg_config g = ?cfg" for ops avail g
    using that by (cases ops; cases "tl ops") (auto simp: ycsb_op_def ycsb_type_def Let_def)
  have "rounding id" "uniform01 ?rng" "uniform_upto ?urng"
    by (auto simp: rounding_def mono_def uniform01_def uniform_upto_def)
  from ycsb_batch [OF this(1) _ this(2,3), of "\<lambda>x y. x ^ 2" ?cfg 2] show ?thesis by (auto elim!: oks_mono intro!: types)
qed

section \<open>The scan mix\<close>

text \<open>The generator of the library with the same configuration.\<close>

definition as_config :: "scan_config \<Rightarrow> workload_config" where
  "as_config cfg = \<lparr>wc_num_keys = sn_num_keys cfg, wc_zipf_alpha = sn_zipf_alpha cfg, wc_write_ratio = sn_write_ratio cfg,
     wc_scan_probability = sn_scan_fraction cfg, wc_scan_length = sn_scan_length cfg, wc_seed = sn_seed cfg\<rparr>"

definition as_generator :: "scan_gen \<Rightarrow> generator" where
  "as_generator g = \<lparr>wg_config = as_config (sg_config g), wg_zipf = sg_zipf g, wg_seed = sg_seed g, wg_draws = sg_draws g,
     wg_actual_scan_prob = sg_scan_trigger_prob g, wg_scan_remaining = sg_scan_remaining g,
     wg_scan_offset = sg_scan_offset g, wg_ops_generated = sg_ops_generated g\<rparr>"

definition as_bench_op :: "workload_op \<Rightarrow> bench_op" where
  "as_bench_op op = \<lparr>bo_type = (case wo_type op of Workload.GET \<Rightarrow> Bench_GET | Workload.PUT \<Rightarrow> Bench_PUT),
     bo_key = wo_key op, bo_value = wo_value op\<rparr>"

lemma scan_next_scanning:
  assumes "0 < sg_scan_remaining g"
  shows "map_option (map_prod id as_generator) (scan_next fl rng g) =
    map_option (map_prod as_bench_op id) (wg_next fl rng (as_generator g))"
  using assms by (subst scan_next.simps, subst wg_next.simps)
    (simp add: as_generator_def as_bench_op_def scan_op_def bench_op_default_def Let_def)

lemma scan_next_agrees:
  assumes "0 < sn_scan_length (sg_config g)"
  shows "map_option (map_prod id as_generator) (scan_next fl rng g) =
    map_option (map_prod as_bench_op id) (wg_next fl rng (as_generator g))"
proof (cases "sg_scan_remaining g > 0")
  case False
  show ?thesis
  proof (cases "rng (sg_seed g) (sg_draws g) < sg_scan_trigger_prob g")
    case True
    let ?g = "\<lambda>offset. g\<lparr>sg_ops_generated := sg_ops_generated g + 1, sg_scan_remaining := sn_scan_length (sg_config g),
      sg_draws := sg_draws g + 2, sg_scan_offset := offset\<rparr>"
    have "scan_next fl rng g =
        f64_to_u32 (fl (fl (rng (sg_seed g) (sg_draws g + 1) * of_nat (unat (sn_num_keys (sg_config g)))) * 10)) \<bind>
          (\<lambda>offset. scan_next fl rng (?g offset))"
      using False True by (subst scan_next.simps) (simp add: scan_coin_def Let_def)
    moreover have "wg_next fl rng (as_generator g) =
        f64_to_u32 (fl (fl (rng (sg_seed g) (sg_draws g + 1) * of_nat (unat (sn_num_keys (sg_config g)))) * 10)) \<bind>
          (\<lambda>offset. wg_next fl rng (as_generator (?g offset)))"
      using False True by (subst wg_next.simps) (simp add: draw_def Let_def as_generator_def as_config_def)
    moreover have "map_option (map_prod id as_generator) (scan_next fl rng (?g offset)) =
        map_option (map_prod as_bench_op id) (wg_next fl rng (as_generator (?g offset)))" for offset
      by (rule scan_next_scanning) (use assms in simp)
    ultimately show ?thesis by (simp split: bind_split)
  next
    case normal: False
    show ?thesis
      using False normal
      by (subst scan_next.simps, subst wg_next.simps)
        (simp add: as_generator_def as_bench_op_def normal_op_def zipf_next_key_def bench_zipf_next_def scan_coin_def draw_def
          bench_op_default_def as_config_def Let_def case_prod_beta)
  qed
qed (rule scan_next_scanning)

lemma wg_next_config: "wg_next fl rng g = Some (op, g') \<Longrightarrow> 0 < wc_scan_length (wg_config g) \<Longrightarrow> wg_config g' = wg_config g"
proof -
  assume e: "wg_next fl rng g = Some (op, g')" and "0 < wc_scan_length (wg_config g)"
  then have "0 < wc_scan_length (wg_config g) \<or> \<not> scan_starts rng g" by simp
  then show ?thesis
    by (cases rule: next_cases [where fl = fl, consumes 1, case_names normal scanning start stuck])
      (use e next_start [of g rng fl] in \<open>auto simp: normal_op_def scan_op_def zipf_next_key_def draw_def scan_begin_def Let_def
        case_prod_beta split: if_splits\<close>)
qed

primrec scan_run :: "(rat \<Rightarrow> rat) \<Rightarrow> rng \<Rightarrow> nat \<Rightarrow> scan_gen \<Rightarrow> (bench_op list \<times> scan_gen) option" where
  "scan_run fl rng 0 g = Some ([], g)"
| "scan_run fl rng (Suc k) g = do { (op, g) \<leftarrow> scan_next fl rng g; (ops, g) \<leftarrow> scan_run fl rng k g; Some (op # ops, g) }"

lemma scan_batch_run: "scan_batch fl rng count g = scan_run fl rng (unat count) g"
proof -
  have "ofold (\<lambda>_ (ops, g). do { (op, g) \<leftarrow> scan_next fl rng g; Some (ops @ [op], g) }) xs (ops, g) =
      scan_run fl rng (length xs) g \<bind> (\<lambda>(ops', g). Some (ops @ ops', g))" for xs :: "u32 list" and ops g
  proof (induction xs arbitrary: ops g)
    case (Cons x xs)
    show ?case by (cases "scan_next fl rng g") (auto simp: Cons.IH split: prod.split bind_split)
  qed simp
  then show ?thesis by (simp add: scan_batch_def)
qed

lemma scan_run_agrees:
  "0 < sn_scan_length (sg_config g) \<Longrightarrow>
    map_option fst (scan_run fl rng k g) = map_option (\<lambda>(ops, _). map as_bench_op ops) (wg_run fl rng k (as_generator g))"
proof (induction k arbitrary: g)
  case (Suc k)
  have agree: "map_option (map_prod id as_generator) (scan_next fl rng g) =
      map_option (map_prod as_bench_op id) (wg_next fl rng (as_generator g))"
    by (rule scan_next_agrees [OF Suc.prems])
  show ?case
  proof (cases "scan_next fl rng g")
    case None
    then show ?thesis using agree by (cases "wg_next fl rng (as_generator g)") simp_all
  next
    case (Some r)
    then obtain op g1 w1 where e: "scan_next fl rng g = Some (as_bench_op op, g1)" "wg_next fl rng (as_generator g) = Some (op, as_generator g1)"
      using agree by (cases "wg_next fl rng (as_generator g)") (auto simp: prod_eq_iff map_prod_def case_prod_beta)
    have "wg_config (as_generator g1) = wg_config (as_generator g)"
      by (rule wg_next_config [OF e(2)]) (use Suc.prems in \<open>simp add: as_generator_def as_config_def\<close>)
    then have "0 < sn_scan_length (sg_config g1)" using Suc.prems by (simp add: as_generator_def as_config_def)
    from Suc.IH [OF this] show ?thesis
      by (cases "scan_run fl rng k g1"; cases "wg_run fl rng k (as_generator g1)") (auto simp: e)
  qed
qed simp

text \<open>The scan mix of the benchmarks is the workload of the library: with non-empty scans and a share of scans strictly
  between 0 and 1, every batch is the batch of \<open>WorkloadGenerator\<close> with the same configuration, its coin
  seeded with \<open>seed + 500\<close> instead of \<open>seed + 1\<close>.\<close>

theorem scan_batch_agrees:
  assumes "0 < sn_scan_length cfg" and "0 < sn_scan_fraction cfg" and "sn_scan_fraction cfg < 1"
  shows "map_option (\<lambda>g. map_option fst (scan_batch fl rng count g)) (scan_gen_new fl pow cfg) =
    map_option (\<lambda>w. map_option (\<lambda>(ops, _). map as_bench_op ops) (generate_batch fl rng count (w\<lparr>wg_seed := sn_seed cfg + 500\<rparr>)))
      (generator_new fl pow (as_config cfg))"
proof (cases "zipf_new fl pow (sn_num_keys cfg) (sn_zipf_alpha cfg) (sn_seed cfg)")
  case None
  then show ?thesis by (simp add: scan_gen_new_def bench_zipf_new_def generator_new_def as_config_def)
next
  case (Some z)
  obtain g w where g: "scan_gen_new fl pow cfg = Some g" "generator_new fl pow (as_config cfg) = Some w"
      "as_generator g = w\<lparr>wg_seed := sn_seed cfg + 500\<rparr>" "sg_config g = cfg"
    using Some assms
    by (simp add: scan_gen_new_def bench_zipf_new_def generator_new_def as_config_def as_generator_def actual_scan_prob_def Let_def)
  have "0 < sn_scan_length (sg_config g)" using assms(1) g(4) by simp
  from scan_run_agrees [OF this] show ?thesis
    by (simp add: g(1-3) scan_batch_run generate_batch_run)
qed

section \<open>Traces\<close>

lemma first_token_key:
  assumes "\<forall>c \<in> set key. \<not> blank c" and "t = [] \<or> blank (hd t)"
  shows "first_token (key @ t) = key"
proof (cases t)
  case Nil
  then show ?thesis using assms(1) by (simp add: first_token_def find_first_None)
next
  case (Cons c t')
  then have "find_first blank (key @ t) = Some (length key)" using assms find_first_at [of key blank c t'] by simp
  then show ?thesis by (simp add: first_token_def substr_def)
qed

lemma load_trace_line_key:
  assumes "key \<noteq> []" and "\<forall>c \<in> set key. \<not> ws c" and "hd key \<noteq> CHR ''#''" and "rest = [] \<or> blank (hd rest)" and "all_ws eol"
  shows "load_trace_line (key @ rest @ eol) = Some \<lparr>bo_type = Bench_GET, bo_key = key, bo_value = []\<rparr>"
proof -
  let ?line = "key @ rest @ eol"
  obtain k d where k: "key = k @ [d]" using assms(1) by (metis rev_exhaust)
  have nb: "\<forall>c \<in> set key. \<not> blank c" using assms(2) blank_ws by blast
  have first: "find_first (\<lambda>c. \<not> blank c) ?line = Some 0" using assms(1) nb by (cases key) auto
  obtain e t where e: "find_last (\<lambda>c. \<not> ws c) ?line = Some e" "take (Suc e) ?line = key @ t" "t = [] \<or> blank (hd t)"
  proof (cases "all_ws (rest @ eol)")
    case True
    have "find_last (\<lambda>c. \<not> ws c) ?line = Some (length k)"
      using find_last_at [of "rest @ eol" "\<lambda>c. \<not> ws c" d k] True assms(2) by (simp add: k)
    then show ?thesis using that [of "length k" "[]"] by (simp add: k)
  next
    case False
    then obtain y c b where y: "rest @ eol = y @ c # b" "\<not> ws c" "all_ws b"
      using split_list_last_prop [of "rest @ eol" "\<lambda>c. \<not> ws c"] by auto
    have "rest \<noteq> []" using False assms(5) by auto
    then have "blank (hd (rest @ eol))" using assms(4) by simp
    then have "blank (hd (y @ [c]))" unfolding y(1) by (cases y) simp_all
    moreover have "find_last (\<lambda>c. \<not> ws c) ?line = Some (length (key @ y))"
      using find_last_at [of b "\<lambda>c. \<not> ws c" c "key @ y"] y by simp
    ultimately show ?thesis using that [of "length (key @ y)" "y @ [c]"] y(1) by simp
  qed
  have "hd ?line \<noteq> CHR ''#''" "?line \<noteq> []" using assms(1,3) by simp_all
  moreover have "(case find_first blank (key @ t) of Some space_pos \<Rightarrow> substr (key @ t) 0 space_pos | None \<Rightarrow> key @ t) = key"
    using first_token_key [OF nb e(3)] by (simp add: first_token_def)
  ultimately show ?thesis
    using e(1,2) assms(1) first unfolding load_trace_line_def
    by (cases "find_first blank (key @ t)") (simp_all add: Let_def substr_def bench_op_default_def del: take_append)
qed

lemma load_trace_lines: "load_trace_loop s ops = ops @ List.map_filter load_trace_line (file_lines s)"
proof (induction s ops rule: load_trace_loop.induct)
  case (1 s ops)
  show ?case
  proof (cases "getline NL s")
    case None
    then show ?thesis by (simp add: load_trace_loop.simps [of s] file_lines.simps [of s] map_filter_simps)
  next
    case (Some r)
    then show ?thesis using 1 [OF Some, of "fst r" "snd r"]
      by (cases r) (simp add: load_trace_loop.simps [of s] file_lines.simps [of s] map_filter_simps split: option.split)
  qed
qed

text \<open>Replaying a trace: of a file with one access per line, in one or several columns, with Unix or Windows line ends,
  the loader reads exactly the keys of the first column, in order.\<close>

theorem load_trace_keys:
  assumes "list_all (\<lambda>(key, rest). key \<noteq> [] \<and> (\<forall>c \<in> set key. \<not> ws c) \<and> hd key \<noteq> CHR ''#'' \<and>
      (rest = [] \<or> blank (hd rest)) \<and> NL \<notin> set rest) xs" and "eol \<in> {[], [CHR 0x0D]}"
  shows "load_trace (Some (print_lines eol (map (\<lambda>(key, rest). key @ rest) xs))) =
    map (\<lambda>(key, rest). \<lparr>bo_type = Bench_GET, bo_key = key, bo_value = []\<rparr>) xs"
proof -
  have eol: "all_ws eol" "NL \<notin> set eol" using assms(2) by (auto simp: ws_def)
  let ?line = "\<lambda>(key, rest). key @ rest @ eol"
  have "NL \<notin> set (?line x)" if "x \<in> set xs" for x
    using that assms(1) eol(2) NL_ws by (auto simp: list_all_iff)
  then have "file_lines (print_lines eol (map (\<lambda>(key, rest). key @ rest) xs)) = map ?line xs"
    using file_lines_concat [of "map ?line xs"] by (simp add: print_lines_def o_def case_prod_beta)
  moreover have "load_trace_line (?line x) = Some (case x of (key, rest) \<Rightarrow> \<lparr>bo_type = Bench_GET, bo_key = key, bo_value = []\<rparr>)"
    if "x \<in> set xs" for x
  proof -
    obtain key rest where x: "x = (key, rest)" by fastforce
    have "key \<noteq> [] \<and> (\<forall>c \<in> set key. \<not> ws c) \<and> hd key \<noteq> CHR ''#'' \<and> (rest = [] \<or> blank (hd rest))"
      using bspec [OF assms(1) [unfolded list_all_iff] that] by (simp add: x)
    then show ?thesis using load_trace_line_key [OF _ _ _ _ eol(1), of key rest] by (simp add: x)
  qed
  ultimately show ?thesis by (simp add: load_trace_def load_trace_lines map_filter_all)
qed

text \<open>A line of blanks with a Windows line end is not skipped: \<open>npos - start + 1\<close> wraps to a large length, and
  the carriage return is taken for a key.\<close>

lemma load_trace_blank_line:
  "load_trace_line [CHR '' '', CHR 0x0D] = Some \<lparr>bo_type = Bench_GET, bo_key = [CHR 0x0D], bo_value = []\<rparr>"
  by (simp add: load_trace_line_def blank_def ws_def substr_def Let_def bench_op_default_def)

text \<open>Traces of the trace reader: one benchmark operation per trace operation, with its key and its type.\<close>

lemma to_bench_from_keys:
  "map (\<lambda>b. (bo_type b = Bench_PUT, bo_key b)) (to_bench_from seq ops) = map (\<lambda>t. (op_type t = Trace_Loader.PUT, op_key t)) ops"
  by (induction ops arbitrary: seq) (auto simp: bench_op_default_def Let_def split: op_type.splits)

end
