(* ===== verification/Bench_Scan_Props.thy ===== *)
theory Bench_Scan_Props
  imports Bench_Walde_Props Bench_Workload_Props
begin

text \<open>
  The scan workload against WALDE: the backend of the benchmark holds the keys of the Zipfian part and none of the keys
  of the scans, so every read of a scan goes through all levels and finds nothing, also when it is repeated.
\<close>

section \<open>The backend of the benchmarks\<close>

lemma make_backend_store:
  "mb_store (make_backend n) key =
     (if \<exists>i < n. key = ''key_'' @ to_string (unat i) then Some (''value_'' @ drop 4 key) else None)"
proof -
  let ?put = "\<lambda>i :: u32. \<lambda>b. snd (memory_put (''key_'' @ to_string (unat i)) (''value_'' @ to_string (unat i)) b)"
  have "mb_store (fold ?put xs b) key =
      (if \<exists>i \<in> set xs. key = ''key_'' @ to_string (unat i) then Some (''value_'' @ drop 4 key) else mb_store b key)" for xs b
    by (induction xs arbitrary: b) (auto simp: memory_put_def Let_def)
  then show ?thesis by (simp add: make_backend_def set_upto32 memory_new_def)
qed

lemma dom_make_backend: "dom (mb_store (make_backend n)) = {''key_'' @ to_string (unat i) | i. i < n}"
  by (auto simp: dom_def make_backend_store)

section \<open>The scan workload\<close>

definition scan_read :: "bench_op \<Rightarrow> bool" where
  "scan_read op \<longleftrightarrow> take 5 (bo_key op) = ''scan_''"

lemma as_bench_op_ok:
  assumes "op_ok n op"
  shows "if scan_read (as_bench_op op) then bo_type (as_bench_op op) = Bench_GET \<and> bo_key (as_bench_op op) \<notin> dom (mb_store (make_backend n))
    else bo_key (as_bench_op op) \<in> dom (mb_store (make_backend n))"
  using assms by (auto simp: op_ok_def as_bench_op_def scan_read_def scan_get_def dom_make_backend)

lemma generate_scan_ops_ok:
  assumes "rounding fl" and "\<forall>x y. 0 \<le> pow x y" and "uniform01 rng"
    and "0 < sn_num_keys cfg" and "10 * unat (sn_num_keys cfg) < 2 ^ 32"
    and "0 < sn_scan_length cfg" and "0 < sn_scan_fraction cfg" and "sn_scan_fraction cfg < 1"
  obtains wops where "generate_scan_ops fl pow rng cfg warmup mops = Some (map as_bench_op wops)"
    and "length wops = unat (warmup + mops)" and "list_all (op_ok (sn_num_keys cfg)) wops"
proof -
  have n: "unat (wc_num_keys (as_config cfg)) < 2 ^ 32 - 1" using assms(5) by (simp add: as_config_def)
  obtain w where w: "generator_new fl pow (as_config cfg) = Some w" "generator_ok (sn_num_keys cfg) w"
    by (rule generator_new_ok [OF assms(1,2) _ n]) (use assms(4,6) in \<open>simp_all add: as_config_def\<close>)
  obtain g where g: "scan_gen_new fl pow cfg = Some g" "as_generator g = w\<lparr>wg_seed := sn_seed cfg + 500\<rparr>" "sg_config g = cfg"
    using w(1) assms(6-8)
    by (auto simp: scan_gen_new_def bench_zipf_new_def generator_new_def as_config_def as_generator_def actual_scan_prob_def Let_def
        split: Option.bind_splits)
  have "generator_ok (sn_num_keys cfg) (as_generator g)" using w(2) by (simp add: g(2) generator_ok_def)
  from run_ok [OF assms(1,3,5) this, of "unat (warmup + mops)"]
  obtain wops w' where r: "wg_run fl rng (unat (warmup + mops)) (as_generator g) = Some (wops, w')"
      "length wops = unat (warmup + mops)" "list_all (op_ok (sn_num_keys cfg)) wops"
    by (auto elim!: oksE)
  have "0 < sn_scan_length (sg_config g)" using assms(6) g(3) by simp
  from scan_run_agrees [OF this, of fl rng "unat (warmup + mops)"]
  obtain g' where "scan_run fl rng (unat (warmup + mops)) g = Some (map as_bench_op wops, g')"
    by (auto simp: r(1))
  then show ?thesis using that [of wops] r(2,3) g(1) by (simp add: generate_scan_ops_def scan_batch_run)
qed

lemma scan_unknown:
  assumes "list_all (op_ok n) wops" and "ms = drop k (map as_bench_op wops)"
  defines "D \<equiv> dom (mb_store (make_backend n))"
  shows "unknown D ms = length (filter scan_read ms)" and "written_keys (map as_bench_op wops) \<subseteq> D"
proof -
  note ok = as_bench_op_ok [where n = n, folded D_def]
  have "(bo_type op \<noteq> Bench_PUT \<and> bo_key op \<notin> D) = scan_read op" if "op \<in> set ms" for op
  proof -
    from that obtain w where "w \<in> set wops" "op = as_bench_op w" by (auto simp: assms(2) drop_map dest: in_set_dropD)
    then show ?thesis using ok [of w] assms(1) by (auto simp: list_all_iff split: if_splits)
  qed
  then show "unknown D ms = length (filter scan_read ms)" unfolding unknown_def by (simp cong: filter_cong)
  have "bo_key op \<in> D" if "op \<in> set (map as_bench_op wops)" "bo_type op \<noteq> Bench_GET" for op
    using that ok assms(1) by (force simp: list_all_iff split: if_splits)
  then show "written_keys (map as_bench_op wops) \<subseteq> D" unfolding written_keys_def by blast
qed

text \<open>C26. The scan benchmark of WALDE: the workload can always be generated, and whatever the hash functions and the drainer
  do, its run ends with every read of a scan key on the full-miss path, each time it is read, and no other read
  there. The hit rate of WALDE has the reads of the scans in its denominator and never in its numerator.\<close>

theorem scan_reads_miss:
  assumes "rounding fl" and "\<forall>x y. 0 \<le> pow x y" and "uniform01 rng" and "ticking clk"
    and "0 < sn_num_keys cfg" and "10 * unat (sn_num_keys cfg) < 2 ^ 32"
    and "0 < sn_scan_length cfg" and "0 < sn_scan_fraction cfg" and "sn_scan_fraction cfg < 1"
    and "unat warmup + unat mops < 2 ^ 32"
    and "engine_new (walde_config capacity) (make_backend (sn_num_keys cfg)) = Some (Inr e0)"
  shows "oks (generate_scan_ops fl pow rng cfg warmup mops) (\<lambda>ops.
    oks (run_walde fl h32 h64 clk sched ops warmup capacity (sn_num_keys cfg)) (\<lambda>res.
      let ms = drop (unat warmup) ops; scans = length (filter scan_read ms)
      in length ms = unat mops \<and> (\<exists>r t l1 l2 b. res = Inr (r, t) \<and> l1 + l2 + b + scans = reads ms \<and>
        path_counts t = (unat mops, l1, l2, b, scans + (length ms - reads ms)) \<and>
        pr_hit_rate r = of_nat (l1 + l2) / of_nat (l1 + l2 + b + scans))))"
proof -
  let ?D = "dom (mb_store (make_backend (sn_num_keys cfg)))"
  obtain wops where w: "generate_scan_ops fl pow rng cfg warmup mops = Some (map as_bench_op wops)"
      "length wops = unat (warmup + mops)" "list_all (op_ok (sn_num_keys cfg)) wops"
    by (rule generate_scan_ops_ok [OF assms(1-3,5-9)])
  let ?ops = "map as_bench_op wops" and ?ms = "drop (unat warmup) (map as_bench_op wops)"
  have len: "length wops = unat warmup + unat mops" using w(2) assms(10) by (simp add: unat_word_ariths)
  have u: "unknown ?D ?ms = length (filter scan_read ?ms)" by (rule scan_unknown(1) [OF w(3) refl])
  have same: "?D \<union> written_keys ?ops = ?D" using scan_unknown(2) [OF w(3) refl] by blast
  have "oks (run_walde_with_backend fl h32 h64 clk sched ?ops warmup capacity (make_backend (sn_num_keys cfg))) (\<lambda>res.
      \<exists>r t l1 l2 b. res = Inr (r, t) \<and> l1 + l2 + b + length (filter scan_read ?ms) = reads ?ms \<and>
        path_counts t = (unat mops, l1, l2, b, length (filter scan_read ?ms) + (length ?ms - reads ?ms)) \<and>
        pr_hit_rate r = of_nat (l1 + l2) / of_nat (l1 + l2 + b + length (filter scan_read ?ms)))"
    by (rule oks_mono [OF run_walde_counts [OF assms(11) _ _ assms(4,1), of ?ops warmup h32 h64 sched]])
      (use assms(10) len u same in \<open>auto simp: eq_iff [symmetric] simp del: drop_map\<close>)
  then show ?thesis using len by (simp add: w(1) run_walde_def Let_def)
qed


text \<open>A stream of random numbers for which every operation belongs to a scan.\<close>

theorem scan_reads_miss_witness:
  "oks (generate_scan_ops id (\<lambda>x y. 1) (\<lambda>seed n. 0) \<lparr>sn_num_keys = 2, sn_zipf_alpha = 99 / 100, sn_scan_fraction = 1 / 10,
      sn_scan_length = 2, sn_write_ratio = 1 / 20, sn_seed = 42\<rparr> 1 3)
    (\<lambda>ops. oks (run_walde id demo_hash demo_hash64 demo_clock (\<lambda>n. [True, False]) ops 1 256 2)
      (\<lambda>res. \<exists>r t. res = Inr (r, t) \<and> fst (path_counts t) = 3))"
proof -
  let ?cfg = "\<lparr>sn_num_keys = 2, sn_zipf_alpha = 99 / 100, sn_scan_fraction = 1 / 10, sn_scan_length = 2, sn_write_ratio = 1 / 20,
    sn_seed = 42\<rparr>"
  obtain e where e: "engine_new (walde_config 256) (make_backend (sn_num_keys ?cfg)) = Some (Inr e)" by (rule demo_walde)
  have rng: "uniform01 (\<lambda>seed n. 0)" by (simp add: uniform01_def)
  show ?thesis
    using scan_reads_miss [OF demo_rounding _ rng demo_ticking, of "\<lambda>x y. 1" ?cfg 1 3 256, OF _ _ _ _ _ _ _ e, of demo_hash demo_hash64
        "\<lambda>n. [True, False]"]
    by (auto simp: Let_def elim!: oks_mono)
qed

end
