(* ===== verification/Bench_Instrumented_Props.thy ===== *)
theory Bench_Instrumented_Props
  imports Bench_Scan_Props
begin

text \<open>
  The instrumented benchmark: generating the operations one by one between the calls is generating the batch first, its
  step is the step of the WALDE run, and its report, counters and histograms, is consistent.
\<close>

section \<open>Generating while running\<close>

lemma ofold_cong_map: "ofold f (map h xs) = ofold (\<lambda>x. f (h x)) xs"
  by (induction xs) (rule ext, simp)+

lemma generate_and_run:
  "ofold (\<lambda>_ (s, gen). do { (op, gen) \<leftarrow> wg_next fl rng gen; s \<leftarrow> f op s; Some (s, gen) }) xs (s, gen) =
     wg_run fl rng (length xs) gen \<bind> (\<lambda>(ops, gen). ofold f ops s \<bind> (\<lambda>s. Some (s, gen)))"
proof (induction xs arbitrary: s gen)
  case (Cons x xs)
  show ?case
  proof (cases "wg_next fl rng gen")
    case (Some r)
    obtain op g where r: "r = (op, g)" by fastforce
    show ?thesis
    proof (cases "f op s")
      case None
      then show ?thesis by (cases "wg_run fl rng (length xs) g") (auto simp: Some r)
    next
      case (Some s1)
      then show ?thesis using Cons.IH [of s1 g]
        by (cases "wg_run fl rng (length xs) g") (auto simp: \<open>wg_next fl rng gen = Some r\<close> r)
    qed
  qed simp
qed simp

lemma instrumented_step_eq: "instrumented_step h32 h64 clk sched op = walde_step memory_ops h32 h64 clk sched (as_bench_op op)"
proof -
  have "(\<lambda>bd s. if wo_type op = Workload.PUT then call_put_timed memory_ops h32 h64 clk sched (wo_key op) (wo_value op) bd s
      else call_get_timed memory_ops h32 h64 clk sched (wo_key op) bd s) = walde_body memory_ops h32 h64 clk sched (as_bench_op op)"
    by (cases "wo_type op") (simp_all add: walde_body_def as_bench_op_def fun_eq_iff)
  then show ?thesis by (simp only: instrumented_step_def walde_step_def)
qed

lemma warmup_step_eq:
  "(if wo_type op = Workload.PUT then call_put memory_ops h32 h64 sched (wo_key op) (wo_value op) s
    else call_get memory_ops h32 h64 sched (wo_key op) s) = walde_warmup_step memory_ops h32 h64 sched (as_bench_op op) s"
  by (cases "wo_type op") (simp_all add: walde_warmup_step_def as_bench_op_def)

lemma warm_up_run:
  "warm_up fl pow rng h32 h64 sched num_ops num_keys alpha seed s =
     generator_new fl pow \<lparr>wc_num_keys = num_keys, wc_zipf_alpha = alpha, wc_write_ratio = fl (5 / 100),
       wc_scan_probability = 0, wc_scan_length = 500, wc_seed = seed\<rparr> \<bind>
     (\<lambda>gen. wg_run fl rng (unat num_ops) gen \<bind>
       (\<lambda>(ops, gen). ofold (walde_warmup_step memory_ops h32 h64 sched) (map as_bench_op ops) s))"
  unfolding warm_up_def warmup_step_eq generate_and_run ofold_cong_map
  by (simp split: bind_split prod.split)

lemma run_instrumented_loop:
  "ofold (\<lambda>_ (s, gen). do { (op, gen) \<leftarrow> wg_next fl rng gen; s \<leftarrow> instrumented_step h32 h64 clk sched op s; Some (s, gen) })
      (upto32 n) (s, gen) =
     wg_run fl rng (unat n) gen \<bind> (\<lambda>(ops, gen). ofold (walde_step memory_ops h32 h64 clk sched) (map as_bench_op ops) s \<bind>
       (\<lambda>s. Some (s, gen)))"
  unfolding instrumented_step_eq generate_and_run by (simp add: ofold_cong_map)

section \<open>The report\<close>

text \<open>Trackers all of whose percentiles exist.\<close>

definition reportable :: "(rat \<Rightarrow> rat) \<Rightarrow> tracker \<Rightarrow> bool" where
  "reportable fl t \<longleftrightarrow> (\<forall>h \<in> set (histograms t). \<forall>q. 0 \<le> q \<and> q \<le> 1 \<longrightarrow> (\<exists>y. percentile fl q h = Some y))"

lemma from_histogram_some:
  assumes "reportable fl t" and "h \<in> set (histograms t)"
  obtains p where "from_histogram fl h = Some p" and "pl_count p = h_total_count h"
proof -
  have some: "\<exists>y. percentile fl q h = Some y" if "0 \<le> q" "q \<le> 1" for q
    using assms that by (auto simp: reportable_def)
  obtain a b c d where "percentile fl (50 / 100) h = Some a" "percentile fl (95 / 100) h = Some b" "percentile fl (99 / 100) h = Some c"
      "percentile fl (999 / 1000) h = Some d"
    using some [of "50 / 100"] some [of "95 / 100"] some [of "99 / 100"] some [of "999 / 1000"] by auto
  then show ?thesis by (intro that) (auto simp: from_histogram_def hist_count_def)
qed

definition path_report :: "benchmark_result \<Rightarrow> nat \<times> nat \<times> nat \<times> nat" where
  "path_report r = (unat (pl_count (br_total r)), unat (pl_count (br_l1_hit_path r)), unat (pl_count (br_l2_hit_path r)),
     unat (pl_count (br_backend_hit_path r)))"

lemma populate_some:
  assumes "reportable fl t"
  obtains r' where "populate_from_tracker fl t r = Some r'"
    and "\<exists>m. path_counts t = (case path_report r' of (t, l1, l2, b) \<Rightarrow> (t, l1, l2, b, m))"
    and "br_l1_hits r' = br_l1_hits r" and "br_l1_misses r' = br_l1_misses r" and "br_l2_hits r' = br_l2_hits r"
    and "br_l1_hit_rate r' = br_l1_hit_rate r" and "br_l2_hit_rate r' = br_l2_hit_rate r" and "br_total_ops r' = br_total_ops r"
proof -
  let ?t = t
  have some: "\<exists>p. from_histogram fl h = Some p \<and> pl_count p = h_total_count h" if "h \<in> set (histograms ?t)" for h
    using from_histogram_some [OF assms that] by blast
  obtain p1 where p1: "from_histogram fl (tr_total ?t) = Some p1" "pl_count p1 = h_total_count (tr_total ?t)"
    using some [of "tr_total ?t"] by (auto simp: histograms_def)
  obtain p2 where p2: "from_histogram fl (tr_l1_hit ?t) = Some p2" "pl_count p2 = h_total_count (tr_l1_hit ?t)"
    using some [of "tr_l1_hit ?t"] by (auto simp: histograms_def)
  obtain p3 where p3: "from_histogram fl (tr_l2_hit ?t) = Some p3" "pl_count p3 = h_total_count (tr_l2_hit ?t)"
    using some [of "tr_l2_hit ?t"] by (auto simp: histograms_def)
  obtain p4 where p4: "from_histogram fl (tr_backend_hit ?t) = Some p4" "pl_count p4 = h_total_count (tr_backend_hit ?t)"
    using some [of "tr_backend_hit ?t"] by (auto simp: histograms_def)
  have "\<forall>h \<in> {tr_lock_wait ?t, tr_lookup ?t, tr_admission ?t, tr_eviction ?t, tr_l2 ?t, tr_backend ?t, tr_slab ?t}.
      \<exists>p. from_histogram fl h = Some p"
    using some by (auto simp: histograms_def)
  then obtain q1 q2 q3 q4 q5 q6 q7 where q: "from_histogram fl (tr_lock_wait ?t) = Some q1" "from_histogram fl (tr_lookup ?t) = Some q2"
      "from_histogram fl (tr_admission ?t) = Some q3" "from_histogram fl (tr_eviction ?t) = Some q4" "from_histogram fl (tr_l2 ?t) = Some q5"
      "from_histogram fl (tr_backend ?t) = Some q6" "from_histogram fl (tr_slab ?t) = Some q7"
    by auto
  show ?thesis
    by (rule that [of "r\<lparr>br_total := p1, br_l1_hit_path := p2, br_l2_hit_path := p3, br_backend_hit_path := p4, br_lock_wait := q1,
        br_lookup := q2, br_admission := q3, br_eviction := q4, br_l2_access := q5, br_backend_access := q6, br_slab_alloc := q7\<rparr>"])
      (simp_all add: populate_from_tracker_def p1 p2 p3 p4 q path_counts_def path_report_def)
qed

lemma run_instrumented_counts:
  assumes "ticking clk" and "rounding fl" and "sustained h64 K D W e0"
    and "wg_run fl rng (unat num_ops) gen = Some (wops, gen')" and "length wops = unat num_ops"
    and "written_keys (map as_bench_op wops) \<inter> W = {}"
  defines "ops \<equiv> map as_bench_op wops"
  shows "oks (run_instrumented fl rng h32 h64 clk sched e0 gen num_ops bcfg) (\<lambda>(r, e, g). g = gen' \<and> sustained h64 K D W e \<and>
    (\<exists>l1 l2 b m. l1 + l2 + b + m = reads ops \<and> m \<le> unknown D ops \<and> unknown (- W) ops \<le> m \<and>
      path_report r = (unat num_ops, l1, l2, b) \<and> unat (br_total_ops r) = unat num_ops \<and>
      br_l1_hits r = of_nat l1 \<and> br_l1_misses r = of_nat (l2 + b + m) \<and> br_l2_hits r = of_nat l2 \<and>
      br_l1_hit_rate r = of_nat l1 / of_nat (reads ops) \<and> br_l2_hit_rate r = of_nat l2 / of_nat (l2 + b + m)))"
proof -
  let ?init = "\<lparr>rs_engine = e0, rs_calls = 0, rs_reads = 1, rs_tracker = tracker_new\<rparr> :: memory_backend run_state"
  have len: "length ops = unat num_ops" "length ops < 2 ^ 32" using assms(5) unat_u32_bound [of num_ops] by (simp_all add: ops_def)
  have "progress clk h64 K D W e0 [] ?init"
    using progress_start [of h64 K D W ?init, OF _ _ assms(1)] assms(3) by simp
  from walde_run_ok [OF assms(1) this, of ops h32 sched]
  obtain s where s: "ofold (walde_step memory_ops h32 h64 clk sched) ops ?init = Some s" "progress clk h64 K D W e0 ops s"
    using assms(6) by (auto simp: ops_def elim!: oksE)
  have reportable: "reportable fl (rs_tracker s)"
    unfolding reportable_def using progress_percentiles [OF s(2) len(2) assms(1,2)] by blast
  obtain l1 l2 b m where p: "l1 + l2 + b + m = reads ops" "m \<le> unknown D ops" "unknown (- W) ops \<le> m"
      "path_counts (rs_tracker s) = (length ops, l1, l2, b, m + (length ops - reads ops))"
    and n: "engine_l1_hits (rs_engine s) - engine_l1_hits e0 = of_nat l1"
      "engine_l1_misses (rs_engine s) - engine_l1_misses e0 = of_nat (l2 + b + m)"
      "engine_l2_hits (rs_engine s) - engine_l2_hits e0 = of_nat l2"
      "ratio (of_nat l1) (of_nat l1 + of_nat (l2 + b + m)) = of_nat l1 / of_nat (reads ops)"
      "ratio (of_nat l2) (of_nat (l2 + b + m)) = of_nat l2 / of_nat (l2 + b + m)"
    by (rule progress_report [OF s(2) len(2)]) (rule that; simp)
  let ?r = "\<lambda>wall. \<lparr>br_config = bcfg, br_throughput = per_second (ucast num_ops) wall, br_duration = wall,
        br_total_ops = ucast num_ops, br_l1_hit_rate = of_nat l1 / of_nat (reads ops), br_l2_hit_rate = of_nat l2 / of_nat (l2 + b + m),
        br_l1_hits = of_nat l1, br_l1_misses = of_nat (l2 + b + m), br_l2_hits = of_nat l2,
        br_admissions = engine_l1_admissions (rs_engine s) - engine_l1_admissions e0,
        br_rejections = engine_l1_rejections (rs_engine s) - engine_l1_rejections e0,
        br_evictions = engine_l1_evictions (rs_engine s) - engine_l1_evictions e0,
        br_total = blank_latency, br_l1_hit_path = blank_latency, br_l2_hit_path = blank_latency,
        br_backend_hit_path = blank_latency, br_lock_wait = blank_latency, br_lookup = blank_latency,
        br_admission = blank_latency, br_eviction = blank_latency, br_l2_access = blank_latency,
        br_backend_access = blank_latency, br_slab_alloc = blank_latency\<rparr>"
  obtain r where r: "populate_from_tracker fl (rs_tracker s) (?r (seconds (clk (rs_reads s) - clk 0))) = Some r"
      "\<exists>k. path_counts (rs_tracker s) = (case path_report r of (t, l1, l2, b) \<Rightarrow> (t, l1, l2, b, k))"
      "br_l1_hits r = of_nat l1" "br_l1_misses r = of_nat (l2 + b + m)" "br_l2_hits r = of_nat l2"
      "br_l1_hit_rate r = of_nat l1 / of_nat (reads ops)" "br_l2_hit_rate r = of_nat l2 / of_nat (l2 + b + m)" "br_total_ops r = ucast num_ops"
    by (rule populate_some [OF reportable, of "?r (seconds (clk (rs_reads s) - clk 0))"]) (rule that; simp)
  have "path_report r = (unat num_ops, l1, l2, b)" using r(2) p(4) len(1) by (cases "path_report r") auto
  moreover have "run_instrumented fl rng h32 h64 clk sched e0 gen num_ops bcfg = Some (r, rs_engine s, gen')"
    unfolding run_instrumented_def run_instrumented_loop
    by (simp only: assms(4) bind.bind_lunit prod.case ops_def [symmetric] s(1) Let_def n r(1))
  moreover have "sustained h64 K D W (rs_engine s)" using s(2) by (simp add: progress_def)
  moreover have "unat (br_total_ops r) = unat num_ops" unfolding r(8) using len by (simp add: unsigned_ucast_eq take_bit_nat_eq_self)
  ultimately show ?thesis using p(1-3) r(3-7) by (simp only: oks_Some prod.case) blast
qed


text \<open>The warm-up reads and writes keys of the backend only.\<close>

lemma warm_up_ok:
  assumes "rounding fl" and "\<forall>x y. 0 \<le> pow x y" and "uniform01 rng" and "0 < n" and "10 * unat n < 2 ^ 32"
    and "keeps h64 K D W s" and "dom (mb_store (make_backend n)) \<inter> W = {}"
  shows "oks (warm_up fl pow rng h32 h64 sched num_ops n alpha seed s) (keeps h64 K D W)"
proof -
  let ?cfg = "\<lparr>wc_num_keys = n, wc_zipf_alpha = alpha, wc_write_ratio = fl (5 / 100), wc_scan_probability = 0,
    wc_scan_length = 500, wc_seed = seed\<rparr>"
  obtain gen where gen: "generator_new fl pow ?cfg = Some gen" "generator_ok n gen"
    by (rule generator_new_ok [OF assms(1,2), of ?cfg]) (use assms(4,5) in simp_all)
  obtain wops g where w: "wg_run fl rng (unat num_ops) gen = Some (wops, g)" "list_all (op_ok n) wops"
    using run_ok [OF assms(1,3,5) gen(2), of "unat num_ops"] by (auto elim!: oksE)
  have "written_keys (map as_bench_op wops) \<inter> W = {}" using scan_unknown(2) [OF w(2) refl] assms(7) by blast
  from walde_warmup_ok [OF assms(6) this, of h32 sched] show ?thesis
    unfolding warm_up_run gen(1) bind.bind_lunit w(1) prod.case by (rule oks_mono) blast
qed

text \<open>C24. The first two benchmarks of the main program report what happened: from an empty engine over the populated backend, with
  any hash functions, any steps of the drainer and any clock that does not run back, the engine is warmed up, the
  operations are generated and measured, and the report exists. Its latency counts are the numbers of operations
  answered on each path, equal to the engine's counters, and they sum up: a read is a hit of L1, of L2, of the backend, or a
  read of a scan key; the reads of scan keys all miss, and all count as misses of L1 in the reported hit rates.\<close>

theorem instrumented_benchmark_reports:
  assumes "rounding fl" and "\<forall>x y. 0 \<le> pow x y" and "uniform01 rng" and "ticking clk"
    and "0 < num_records" and "10 * unat num_records < 2 ^ 32"
    and "wc_num_keys wl = num_records" and "0 < wc_scan_length wl \<or> wc_scan_probability wl \<le> 0"
    and "engine_new cfg (make_backend num_records) = Some (Inr e0)" and "unat (ec_queue_size cfg) \<le> 2 ^ 31"
  shows "oks (instrumented_benchmark fl pow rng h32 h64 clk warm_sched sched cfg num_records warmup_ops measure_ops alpha wl bcfg)
    (\<lambda>res. \<exists>r gen wops gen' l1 l2 b. res = Inr r \<and> generator_new fl pow wl = Some gen \<and>
      generate_batch fl rng measure_ops gen = Some (wops, gen') \<and>
      (let ops = map as_bench_op wops; scans = length (filter scan_read ops)
       in l1 + l2 + b + scans = reads ops \<and> path_report r = (unat measure_ops, l1, l2, b) \<and>
          unat (br_l1_hits r) = l1 \<and> unat (br_l2_hits r) = l2 \<and> unat (br_l1_misses r) = l2 + b + scans \<and>
          br_l1_hit_rate r = of_nat l1 / of_nat (reads ops) \<and> br_l2_hit_rate r = of_nat l2 / of_nat (l2 + b + scans)))"
proof -
  let ?D = "dom (mb_store (make_backend num_records))"
  let ?init = "\<lparr>rs_engine = e0, rs_calls = 0, rs_reads = 0, rs_tracker = tracker_new\<rparr> :: memory_backend run_state"
  obtain K where K: "engine_inv h64 K e0" "en_backend e0 = make_backend num_records" "\<And>k v. \<not> holds h64 e0 k v"
    by (rule engine_new_ok [OF assms(9,10), of h64]) (rule that; assumption)
  have "keeps h64 K ?D (- ?D) ?init" using K by (auto simp: sustained_def)
  from warm_up_ok [OF assms(1-3,5,6) this, of h32 warm_sched warmup_ops alpha 42]
  obtain s where s: "warm_up fl pow rng h32 h64 warm_sched warmup_ops num_records alpha 42 ?init = Some s" "keeps h64 K ?D (- ?D) s"
    by (auto elim!: oksE)
  obtain gen where gen: "generator_new fl pow wl = Some gen" "generator_ok num_records gen"
    by (rule generator_new_ok [OF assms(1,2), of wl]) (use assms(5-8) in simp_all)
  obtain wops g where w: "wg_run fl rng (unat measure_ops) gen = Some (wops, g)" "length wops = unat measure_ops"
      "list_all (op_ok num_records) wops"
    using run_ok [OF assms(1,3,6) gen(2), of "unat measure_ops"] by (auto elim!: oksE)
  let ?ops = "map as_bench_op wops"
  have u: "unknown ?D ?ops = length (filter scan_read ?ops)" by (rule scan_unknown(1) [OF w(3), of _ 0]) simp
  have "written_keys ?ops \<inter> (- ?D) = {}" using scan_unknown(2) [OF w(3) refl] by blast
  from run_instrumented_counts [OF assms(4,1) s(2) w(1,2) this, of h32 sched bcfg]
  obtain r e g' l1 l2 b m where r: "run_instrumented fl rng h32 h64 clk sched (rs_engine s) gen measure_ops bcfg = Some (r, e, g')"
      "l1 + l2 + b + m = reads ?ops" "m \<le> unknown ?D ?ops" "unknown (- (- ?D)) ?ops \<le> m"
      "path_report r = (unat measure_ops, l1, l2, b)" "br_l1_hits r = of_nat l1" "br_l1_misses r = of_nat (l2 + b + m)"
      "br_l2_hits r = of_nat l2" "br_l1_hit_rate r = of_nat l1 / of_nat (reads ?ops)" "br_l2_hit_rate r = of_nat l2 / of_nat (l2 + b + m)"
    by (auto elim!: oksE)
  have m: "m = length (filter scan_read ?ops)" using r(3,4) u by simp
  have small: "unat (of_nat k :: u64) = k" if "k \<le> reads ?ops" for k
  proof -
    have "k < 2 ^ 32" using that reads_le [of ?ops] w(2) unat_u32_bound [of measure_ops] by simp
    then show ?thesis by (simp add: unsigned_of_nat take_bit_nat_eq_self)
  qed
  have counts: "unat (br_l1_hits r) = l1" "unat (br_l2_hits r) = l2" "unat (br_l1_misses r) = l2 + b + m"
    unfolding r(6-8) by (rule small, use r(2) in simp)+
  have "instrumented_benchmark fl pow rng h32 h64 clk warm_sched sched cfg num_records warmup_ops measure_ops alpha wl bcfg = Some (Inr r)"
    by (simp add: instrumented_benchmark_def make_engine_def assms(9) s(1) gen(1) r(1))
  then show ?thesis
    using gen(1) w(1) r(2,5,9,10) counts unfolding m Let_def generate_batch_run by (simp only: oks_Some) blast
qed

text \<open>Two records, five operations to warm up and three to measure, the first of them from a scan.\<close>

theorem instrumented_benchmark_reports_witness:
  "oks (instrumented_benchmark id (\<lambda>x y. 1) (\<lambda>seed n. if seed = 7778 \<and> n = 0 then 0 else 1 / 2) demo_hash demo_hash64 demo_clock
      (\<lambda>n. [True, False]) (\<lambda>n. [True]) (walde_config 256) 2 5 3 (99 / 100)
      \<lparr>wc_num_keys = 2, wc_zipf_alpha = 99 / 100, wc_write_ratio = 1 / 20, wc_scan_probability = 1 / 10, wc_scan_length = 2, wc_seed = 7777\<rparr>
      \<lparr>bm_workload_type = ''zipfian+scan'', bm_cache_capacity = 256, bm_num_threads = 1, bm_num_ops = 3, bm_zipf_alpha = 99 / 100,
        bm_scan_probability = 1 / 10, bm_trace_file = []\<rparr>)
    (\<lambda>res. \<exists>r. res = Inr r \<and> fst (path_report r) = 3)"
proof -
  obtain e where e: "engine_new (walde_config 256) (make_backend 2) = Some (Inr e)" by (rule demo_walde)
  have rng: "uniform01 (\<lambda>seed n. if seed = 7778 \<and> n = 0 then 0 else 1 / 2)" by (simp add: uniform01_def)
  show ?thesis
    by (rule oks_mono [OF instrumented_benchmark_reports [OF demo_rounding _ rng demo_ticking _ _ _ _ e]])
      (auto simp: walde_config_def Let_def)
qed

end
