(* ===== verification/Bench_Threads_Props.thy ===== *)
theory Bench_Threads_Props
  imports Bench_Threads Bench_Instrumented_Props
begin

text \<open>
  The benchmark with several threads: however the moves of the threads and the drainer are ordered, every thread
  returns, the trackers can be merged, and the report agrees with the counters of the engine path by path.
\<close>

section \<open>Threads without scans\<close>

definition scan_free :: "u32 \<Rightarrow> generator \<Rightarrow> bool" where
  "scan_free n g \<longleftrightarrow> generator_ok n g \<and> wg_scan_remaining g = 0 \<and> wg_actual_scan_prob g \<le> 0"

lemma scan_free_next:
  assumes "uniform01 rng" and "scan_free n g"
  obtains op g' where "wg_next fl rng g = Some (op, g')" and "wo_key op \<in> dom (mb_store (make_backend n))" and "scan_free n g'"
proof -
  let ?g = "(count_op g)\<lparr>wg_draws := wg_draws g + 1\<rparr>"
  have "\<not> rng (wg_seed g) (wg_draws g) < wg_actual_scan_prob g"
    using assms by (auto simp: scan_free_def uniform01_def not_less intro: order_trans)
  then have next_op: "wg_next fl rng g = Some (normal_op rng ?g)" using assms(2) by (simp add: next_normal scan_free_def)
  have g: "generator_ok n ?g" using assms(2) by (simp add: scan_free_def generator_ok_def)
  obtain op g' where op: "normal_op rng ?g = (op, g')" by fastforce
  have ok: "op_ok n op" "generator_ok n g'" using normal_op_ok [OF g assms(1)] unfolding op by simp_all
  have "take 4 (wo_key op) = ''key_''" "wg_scan_remaining g' = 0" "wg_actual_scan_prob g' \<le> 0"
    using op assms(2) by (auto simp: normal_op_def zipf_next_key_def draw_def scan_free_def Let_def split: prod.splits if_splits)
  then have "wo_key op \<in> dom (mb_store (make_backend n))" and "scan_free n g'"
    using ok by (auto simp: op_ok_def scan_get_def dom_make_backend scan_free_def)
  then show ?thesis using that next_op op by simp
qed

section \<open>One call\<close>

lemma fits_earlier: "steady clk \<Longrightarrow> fits clk n t \<Longrightarrow> m \<le> n \<Longrightarrow> fits clk m t"
  using steady_le [of clk m n] by (auto simp: fits_def)

lemma timed_call_ok:
  assumes "sustained h64 K D {} e" and "steady clk" and "wo_key op \<in> D"
  obtains e' t where "timed_call h32 h64 clk op e \<lparr>tm_reads = n, tm_bd = breakdown_new\<rparr> = Some (e', t)" and "sustained h64 K D {} e'"
    and "counters e' = (engine_l1_hits e + of_nat (on_path L1_HIT (tm_bd t)),
      engine_l1_misses e + of_nat (on_path L2_HIT (tm_bd t) + on_path BACKEND_HIT (tm_bd t)),
      engine_l2_hits e + of_nat (on_path L2_HIT (tm_bd t)))"
    and "fits clk n t"
proof (cases "wo_type op = Workload.PUT")
  case True
  let ?t = "\<lparr>tm_reads = n, tm_bd = breakdown_new\<rparr>"
  obtain r e' where e': "engine_put memory_ops h32 h64 (wo_key op) (wo_value op) e = Some (r, e')" "sustained h64 K D {} e'"
      "counters e' = counters e"
    by (rule sustained_put [OF assms(1), of "wo_key op" h32 "wo_value op"]) simp_all
  obtain t where t: "engine_put_timed memory_ops h32 h64 clk (wo_key op) (wo_value op) e ?t = Some (r, e', t)"
    using engine_put_untimed [of memory_ops h32 h64 clk "wo_key op" "wo_value op" e ?t] e'(1) by auto
  have "bd_path (tm_bd t) = MISS"
    using t by (auto simp: engine_put_timed_def case_prod_beta breakdown_new_def dest!: l1_put_timed_path)
  then show ?thesis
    using that [of e' t] True t e'(2,3) engine_put_fits [OF assms(2) t fits_start] by (simp add: timed_call_def)
next
  case False
  let ?t = "\<lparr>tm_reads = n, tm_bd = breakdown_new\<rparr>"
  obtain r e' where e': "engine_get memory_ops h32 h64 (wo_key op) e = Some (r, e')" "sustained h64 K D {} e'"
      "wo_key op \<in> D \<longrightarrow> r \<noteq> None"
    by (rule sustained_get [OF assms(1), of h32 "wo_key op"]) (rule that; assumption)
  obtain t where t: "engine_get_timed memory_ops h32 h64 clk (wo_key op) e ?t = Some (r, e', t)"
    using engine_get_untimed [of memory_ops h32 h64 clk "wo_key op" e ?t] e'(1) by auto
  have "bd_path (tm_bd t) \<noteq> MISS" using get_path_counts [OF t] e'(3) assms(3) by simp
  then have "counters e' = (engine_l1_hits e + of_nat (on_path L1_HIT (tm_bd t)),
      engine_l1_misses e + of_nat (on_path L2_HIT (tm_bd t) + on_path BACKEND_HIT (tm_bd t)),
      engine_l2_hits e + of_nat (on_path L2_HIT (tm_bd t)))"
    using get_path_counts [OF t] by (cases "bd_path (tm_bd t)") simp_all
  then show ?thesis
    using that [of e' t] False t e'(2) engine_get_fits [OF assms(2) t fits_start] by (simp add: timed_call_def)
qed

section \<open>One thread\<close>

definition path_hist :: "path \<Rightarrow> tracker \<Rightarrow> histogram" where
  "path_hist p t = (case p of L1_HIT \<Rightarrow> tr_l1_hit t | L2_HIT \<Rightarrow> tr_l2_hit t | BACKEND_HIT \<Rightarrow> tr_backend_hit t | MISS \<Rightarrow> tr_full_miss t)"

abbreviation on_record :: "path \<Rightarrow> bench_thread \<Rightarrow> nat" where
  "on_record p th \<equiv> unat (h_total_count (path_hist p (bt_tracker th)))"

text \<open>The operations of a thread the engine has answered on a path, recorded or not yet.\<close>

definition answered_on :: "path \<Rightarrow> bench_thread \<Rightarrow> nat" where
  "answered_on p th = on_record p th + (case bt_phase th of Answered bd t0 \<Rightarrow> on_path p bd | _ \<Rightarrow> 0)"

text \<open>\<open>k\<close> is the reading of the clock at the start of the operation, or one before it.\<close>

definition bench_thread_ok :: "clock \<Rightarrow> u32 \<Rightarrow> u32 \<Rightarrow> nat \<Rightarrow> bench_thread \<Rightarrow> bool" where
  "bench_thread_ok clk num_keys n now_at th \<longleftrightarrow> scan_free num_keys (bt_gen th) \<and> bt_i th \<le> n \<and>
     on_record L1_HIT th + on_record L2_HIT th + on_record BACKEND_HIT th + on_record MISS th = unat (bt_i th) \<and>
     (\<exists>k \<le> now_at. tracks clk k (on_record L1_HIT th) (on_record L2_HIT th) (on_record BACKEND_HIT th) (on_record MISS th) (bt_tracker th) \<and>
       (case bt_phase th of
          Ready \<Rightarrow> True
        | Timing op t0 \<Rightarrow> bt_i th < n \<and> t0 = clk k \<and> Suc k \<le> now_at \<and> wo_key op \<in> dom (mb_store (make_backend num_keys))
        | Answered bd t0 \<Rightarrow> bt_i th < n \<and> t0 = clk k \<and> (\<exists>r \<le> now_at. fits clk (Suc k) \<lparr>tm_reads = r, tm_bd = bd\<rparr>)))"

lemma bench_thread_later: "bench_thread_ok clk num_keys n m th \<Longrightarrow> m \<le> m' \<Longrightarrow> bench_thread_ok clk num_keys n m' th"
proof -
  assume th: "bench_thread_ok clk num_keys n m th" and le: "m \<le> m'"
  have "k \<le> m'" if "k \<le> m" for k using that le by simp
  then show "bench_thread_ok clk num_keys n m' th"
    using th unfolding bench_thread_ok_def by (cases "bt_phase th") (simp_all, blast+)
qed

definition work_left :: "u32 \<Rightarrow> bench_thread \<Rightarrow> nat" where
  "work_left n th = 3 * (unat n - unat (bt_i th)) - (case bt_phase th of Ready \<Rightarrow> 0 | Timing op t0 \<Rightarrow> 1 | Answered bd t0 \<Rightarrow> 2)"

lemma work_left_0: "bench_thread_ok clk num_keys n m th \<Longrightarrow> work_left n th = 0 \<Longrightarrow> returned n th"
  by (auto simp: bench_thread_ok_def work_left_def returned_def word_less_nat_alt split: bench_phase.splits)


text \<open>Recording: the tracker counts the operation under the path of its breakdown.\<close>

lemma thread_records:
  assumes clk: "ticking clk" and th: "bench_thread_ok clk num_keys n m th" and bd: "bt_phase th = Answered bd t0"
  obtains t where "tracker_record (bd\<lparr>bd_total := clk m - t0\<rparr>) (bt_tracker th) = Some t"
    and "bench_thread_ok clk num_keys n (Suc m) (th\<lparr>bt_i := bt_i th + 1, bt_phase := Ready, bt_tracker := t\<rparr>)"
    and "\<And>p. answered_on p (th\<lparr>bt_i := bt_i th + 1, bt_phase := Ready, bt_tracker := t\<rparr>) = answered_on p th"
    and "unat (bt_i th + 1) = Suc (unat (bt_i th))"
proof -
  let ?c = "\<lambda>p. on_record p th" and ?bd = "bd\<lparr>bd_total := clk m - t0\<rparr>"
  obtain k r where k: "k \<le> m" "tracks clk k (?c L1_HIT) (?c L2_HIT) (?c BACKEND_HIT) (?c MISS) (bt_tracker th)" "t0 = clk k"
      "r \<le> m" "fits clk (Suc k) \<lparr>tm_reads = r, tm_bd = bd\<rparr>" "bt_i th < n"
    using th bd by (auto simp: bench_thread_ok_def)
  have steady: "steady clk" using clk by (simp add: ticking_def)
  note d = fits_during [OF steady k(5)]
  have le: "r \<le> m" "Suc k \<le> r" "clk r \<le> clk m" "clk (Suc r) \<le> clk (Suc m)" "clk m \<le> clk (Suc m)"
    using k(4,5) steady_le [OF steady] by (simp_all add: fits_def)
  have phases: "\<forall>x \<in> set (phases ?bd). during clk k (Suc m) x" using d(1) le by (fastforce simp: during_def phases_def)
  have total: "during clk k (Suc m) (bd_total ?bd)" using d(2) le k(3) by (simp add: during_def)
  obtain t where t: "tracker_record ?bd (bt_tracker th) = Some t"
      "tracks clk (Suc m) (?c L1_HIT + on_path L1_HIT ?bd) (?c L2_HIT + on_path L2_HIT ?bd) (?c BACKEND_HIT + on_path BACKEND_HIT ?bd)
        (?c MISS + on_path MISS ?bd) t"
    by (rule tracker_record_tracks [OF clk k(2) total phases])
  have i: "unat (bt_i th + 1) = Suc (unat (bt_i th))" using k(6) unat_u32_bound [of n] by (simp add: unat_word_ariths word_less_nat_alt)
  have sum: "?c L1_HIT + ?c L2_HIT + ?c BACKEND_HIT + ?c MISS = unat (bt_i th)" using th by (simp add: bench_thread_ok_def)
  have new: "unat (h_total_count (path_hist p t)) = ?c p + on_path p bd" for p
  proof -
    have "sampled clk (Suc m) (?c p + on_path p bd) (path_hist p t)" using t(2) by (cases p) (simp_all add: tracks_def path_hist_def)
    moreover have "?c p \<le> unat (bt_i th)" using sum by (cases p) simp_all
    ultimately show ?thesis using unat_u32_bound [of "bt_i th"] by (intro sampled_count) auto
  qed
  let ?th = "th\<lparr>bt_i := bt_i th + 1, bt_phase := Ready, bt_tracker := t\<rparr>"
  have "on_path L1_HIT bd + on_path L2_HIT bd + on_path BACKEND_HIT bd + on_path MISS bd = 1" by (cases "bd_path bd") simp_all
  then have "on_record L1_HIT ?th + on_record L2_HIT ?th + on_record BACKEND_HIT ?th + on_record MISS ?th = unat (bt_i ?th)"
    using sum i new by simp
  moreover have "tracks clk (Suc m) (on_record L1_HIT ?th) (on_record L2_HIT ?th) (on_record BACKEND_HIT ?th) (on_record MISS ?th) t"
    using t(2) new by simp
  moreover have "bt_i ?th \<le> n" using k(6) i by (simp add: word_le_nat_alt word_less_nat_alt)
  ultimately have "bench_thread_ok clk num_keys n (Suc m) ?th" using th unfolding bench_thread_ok_def by auto
  moreover have "answered_on p ?th = answered_on p th" for p using new [of p] bd by (simp add: answered_on_def)
  ultimately show ?thesis using that t(1) i by blast
qed

section \<open>The crowd\<close>

abbreviation crowd_on :: "path \<Rightarrow> crowd \<Rightarrow> nat" where
  "crowd_on p s \<equiv> sum_list (map (answered_on p) (cr_threads s))"

definition crowd_ok :: "clock \<Rightarrow> hash64 \<Rightarrow> l1_shape \<Rightarrow> u32 \<Rightarrow> u32 \<Rightarrow> nat \<Rightarrow> 'b engine \<Rightarrow> crowd \<Rightarrow> bool" where
  "crowd_ok clk h64 K num_keys n num_threads e0 s \<longleftrightarrow> sustained h64 K (dom (mb_store (make_backend num_keys))) {} (cr_engine s) \<and>
     length (cr_threads s) = num_threads \<and> (\<forall>th \<in> set (cr_threads s). bench_thread_ok clk num_keys n (cr_reads s) th) \<and>
     counters (cr_engine s) = (engine_l1_hits e0 + of_nat (crowd_on L1_HIT s),
       engine_l1_misses e0 + of_nat (crowd_on L2_HIT s + crowd_on BACKEND_HIT s), engine_l2_hits e0 + of_nat (crowd_on L2_HIT s))"

lemma sum_list_map_update:
  fixes f :: "'a \<Rightarrow> nat"
  assumes "t < length xs" and "f y = f (xs ! t) + d"
  shows "sum_list (map f (xs[t := y])) = sum_list (map f xs) + d"
  using assms by (induction xs arbitrary: t) (auto simp: nth_Cons split: nat.splits)

lemma crowd_update:
  assumes s: "crowd_ok clk h64 K num_keys n num_threads e0 s" and t: "t < num_threads" and m: "cr_reads s \<le> m"
    and e: "sustained h64 K (dom (mb_store (make_backend num_keys))) {} e"
      "counters e = (engine_l1_hits (cr_engine s) + of_nat (d L1_HIT), engine_l1_misses (cr_engine s) + of_nat (d L2_HIT + d BACKEND_HIT),
        engine_l2_hits (cr_engine s) + of_nat (d L2_HIT))"
    and th: "bench_thread_ok clk num_keys n m th" "\<And>p. p \<noteq> MISS \<Longrightarrow> answered_on p th = answered_on p (cr_threads s ! t) + d p"
  shows "crowd_ok clk h64 K num_keys n num_threads e0 (s\<lparr>cr_engine := e, cr_reads := m, cr_threads := (cr_threads s)[t := th]\<rparr>)"
proof -
  have len: "t < length (cr_threads s)" using s t by (simp add: crowd_ok_def)
  have sum: "sum_list (map (answered_on p) ((cr_threads s)[t := th])) = crowd_on p s + d p" if "p \<noteq> MISS" for p
    by (rule sum_list_map_update [OF len th(2) [OF that]])
  have "\<forall>th \<in> set (cr_threads s). bench_thread_ok clk num_keys n m th"
    using s bench_thread_later [OF _ m] by (auto simp: crowd_ok_def)
  then have "\<forall>th \<in> set ((cr_threads s)[t := th]). bench_thread_ok clk num_keys n m th"
    using th(1) set_update_subset_insert [of "cr_threads s" t th] by blast
  then show ?thesis using s e sum by (simp add: crowd_ok_def)
qed


text \<open>Every move succeeds and keeps the counts; a move of a thread brings it one step nearer to its end.\<close>

definition one_less :: "u32 \<Rightarrow> nat option \<Rightarrow> crowd \<Rightarrow> crowd \<Rightarrow> bool" where
  "one_less n who s s' \<longleftrightarrow> (\<forall>u < length (cr_threads s).
     work_left n (cr_threads s' ! u) = work_left n (cr_threads s ! u) - (if who = Some u then 1 else 0))"

lemma one_less_update:
  assumes "t < length (cr_threads s)" and "work_left n th = work_left n (cr_threads s ! t) - 1"
  shows "one_less n (Some t) s (s'\<lparr>cr_threads := (cr_threads s)[t := th]\<rparr>)"
  using assms by (auto simp: one_less_def nth_list_update)

lemma thread_moves_ok:
  assumes rng: "uniform01 rng" and clk: "ticking clk" and s: "crowd_ok clk h64 K num_keys n num_threads e0 s" and t: "t < num_threads"
  shows "oks (thread_moves fl rng h32 h64 clk n t s) (\<lambda>s'. crowd_ok clk h64 K num_keys n num_threads e0 s' \<and> one_less n (Some t) s s')"
proof -
  let ?th = "cr_threads s ! t" and ?D = "dom (mb_store (make_backend num_keys))"
  have len: "t < length (cr_threads s)" using s t by (simp add: crowd_ok_def)
  then have th: "bench_thread_ok clk num_keys n (cr_reads s) ?th" using s by (simp add: crowd_ok_def)
  have e: "sustained h64 K ?D {} (cr_engine s)" using s by (simp add: crowd_ok_def)
  have steady: "steady clk" using clk by (simp add: ticking_def)
  note update = crowd_update [OF s t]
  have same: "s\<lparr>cr_engine := cr_engine s, cr_reads := x, cr_threads := y\<rparr> = s\<lparr>cr_reads := x, cr_threads := y\<rparr>" for x y
    by (cases s) simp
  show ?thesis
  proof (cases "bt_phase ?th")
    case Ready
    show ?thesis
    proof (cases "bt_i ?th < n")
      case True
      obtain op g where g: "wg_next fl rng (bt_gen ?th) = Some (op, g)" "wo_key op \<in> ?D" "scan_free num_keys g"
        by (rule scan_free_next [OF rng, of num_keys "bt_gen ?th" fl]) (use th in \<open>simp add: bench_thread_ok_def\<close>)
      let ?new = "?th\<lparr>bt_gen := g, bt_phase := Timing op (clk (cr_reads s))\<rparr>"
      obtain k where k: "k \<le> cr_reads s" "tracks clk k (on_record L1_HIT ?th) (on_record L2_HIT ?th) (on_record BACKEND_HIT ?th)
          (on_record MISS ?th) (bt_tracker ?th)"
        using th by (auto simp: bench_thread_ok_def)
      have "tracks clk (cr_reads s) (on_record L1_HIT ?th) (on_record L2_HIT ?th) (on_record BACKEND_HIT ?th) (on_record MISS ?th) (bt_tracker ?th)"
        by (rule tracks_later [OF clk k(2,1)])
      then have new: "bench_thread_ok clk num_keys n (Suc (cr_reads s)) ?new"
        using th True g(2,3) unfolding bench_thread_ok_def by (auto intro!: exI [of _ "cr_reads s"])
      have "crowd_ok clk h64 K num_keys n num_threads e0
          (s\<lparr>cr_engine := cr_engine s, cr_reads := Suc (cr_reads s), cr_threads := (cr_threads s)[t := ?new]\<rparr>)"
        by (rule update [OF _ e _ new, where d = "\<lambda>p. 0"]) (simp_all add: answered_on_def Ready)
      moreover have "work_left n ?new = work_left n ?th - 1"
        by (simp add: work_left_def Ready)
      ultimately show ?thesis using one_less_update [OF len, of n ?new "s\<lparr>cr_reads := Suc (cr_reads s)\<rparr>"] True g(1)
        by (simp add: thread_moves_def Ready Let_def same)
    next
      case False
      then have "work_left n ?th = 0" using th by (simp add: work_left_def Ready bench_thread_ok_def word_less_nat_alt)
      then show ?thesis using s False by (auto simp: thread_moves_def Ready one_less_def)
    qed
  next
    case (Timing op t0)
    obtain k where k: "t0 = clk k" "Suc k \<le> cr_reads s" "wo_key op \<in> ?D" "bt_i ?th < n"
        "tracks clk k (on_record L1_HIT ?th) (on_record L2_HIT ?th) (on_record BACKEND_HIT ?th) (on_record MISS ?th) (bt_tracker ?th)"
      using th by (auto simp: bench_thread_ok_def Timing)
    obtain e' tm where tm: "timed_call h32 h64 clk op (cr_engine s) \<lparr>tm_reads = cr_reads s, tm_bd = breakdown_new\<rparr> = Some (e', tm)"
        "sustained h64 K ?D {} e'"
        "counters e' = (engine_l1_hits (cr_engine s) + of_nat (on_path L1_HIT (tm_bd tm)),
          engine_l1_misses (cr_engine s) + of_nat (on_path L2_HIT (tm_bd tm) + on_path BACKEND_HIT (tm_bd tm)),
          engine_l2_hits (cr_engine s) + of_nat (on_path L2_HIT (tm_bd tm)))"
        "fits clk (cr_reads s) tm"
      by (rule timed_call_ok [OF e steady k(3), of h32 "cr_reads s"])
    let ?new = "?th\<lparr>bt_phase := Answered (tm_bd tm) t0\<rparr>"
    have "fits clk (Suc k) tm" by (rule fits_earlier [OF steady tm(4) k(2)])
    then have fit: "fits clk (Suc k) \<lparr>tm_reads = tm_reads tm, tm_bd = tm_bd tm\<rparr>" by (simp add: fits_def)
    have le: "cr_reads s \<le> tm_reads tm" using tm(4) by (simp add: fits_def)
    have new: "bench_thread_ok clk num_keys n (tm_reads tm) ?new"
    proof -
      have "scan_free num_keys (bt_gen ?th)" "bt_i ?th \<le> n"
        "on_record L1_HIT ?th + on_record L2_HIT ?th + on_record BACKEND_HIT ?th + on_record MISS ?th = unat (bt_i ?th)"
        using th by (simp_all add: bench_thread_ok_def)
      moreover have "k \<le> tm_reads tm" using k(2) le by simp
      moreover have "\<exists>r \<le> tm_reads tm. fits clk (Suc k) \<lparr>tm_reads = r, tm_bd = tm_bd tm\<rparr>" using fit by blast
      ultimately show ?thesis unfolding bench_thread_ok_def using k(1,4,5) by simp blast
    qed
    have "crowd_ok clk h64 K num_keys n num_threads e0 (s\<lparr>cr_engine := e', cr_reads := tm_reads tm, cr_threads := (cr_threads s)[t := ?new]\<rparr>)"
      by (rule update [OF le tm(2,3) new]) (simp add: answered_on_def Timing)
    moreover have "work_left n ?new = work_left n ?th - 1"
      by (simp add: work_left_def Timing)
    ultimately show ?thesis
      using one_less_update [OF len, of n ?new "s\<lparr>cr_engine := e', cr_reads := tm_reads tm\<rparr>"] tm(1)
      by (simp add: thread_moves_def Timing)
  next
    case (Answered bd t0)
    obtain tr where tr: "tracker_record (bd\<lparr>bd_total := clk (cr_reads s) - t0\<rparr>) (bt_tracker ?th) = Some tr"
        "bench_thread_ok clk num_keys n (Suc (cr_reads s)) (?th\<lparr>bt_i := bt_i ?th + 1, bt_phase := Ready, bt_tracker := tr\<rparr>)"
        "\<And>p. answered_on p (?th\<lparr>bt_i := bt_i ?th + 1, bt_phase := Ready, bt_tracker := tr\<rparr>) = answered_on p ?th"
        "unat (bt_i ?th + 1) = Suc (unat (bt_i ?th))"
      by (rule thread_records [OF clk th Answered]) (rule that; assumption)
    let ?new = "?th\<lparr>bt_i := bt_i ?th + 1, bt_phase := Ready, bt_tracker := tr\<rparr>"
    have "crowd_ok clk h64 K num_keys n num_threads e0
        (s\<lparr>cr_engine := cr_engine s, cr_reads := Suc (cr_reads s), cr_threads := (cr_threads s)[t := ?new]\<rparr>)"
      by (rule update [OF _ e _ tr(2), where d = "\<lambda>p. 0"]) (simp_all only: tr(3), simp_all)
    moreover have "work_left n ?new = work_left n ?th - 1" using tr(4)
      by (simp add: work_left_def Answered)
    ultimately show ?thesis using one_less_update [OF len, of n ?new "s\<lparr>cr_reads := Suc (cr_reads s)\<rparr>"] tr(1)
      by (simp add: thread_moves_def Answered Let_def same)
  qed
qed

lemma crowd_move_ok:
  assumes "uniform01 rng" and "ticking clk" and s: "crowd_ok clk h64 K num_keys n num_threads e0 s"
  shows "oks (crowd_move fl rng h32 h64 clk n move s) (\<lambda>s'. crowd_ok clk h64 K num_keys n num_threads e0 s' \<and>
    one_less n (case move of Thread t \<Rightarrow> Some t | Drainer pop \<Rightarrow> None) s s')"
proof (cases move)
  case (Thread t)
  have "length (cr_threads s) = num_threads" using s by (simp add: crowd_ok_def)
  then show ?thesis using thread_moves_ok [OF assms, of t fl h32] s by (auto simp: crowd_move_def Thread one_less_def)
next
  case (Drainer pop)
  have "sustained h64 K (dom (mb_store (make_backend num_keys))) {} (cr_engine s)" using s by (simp add: crowd_ok_def)
  from sustained_drain [OF this, of pop] show ?thesis
    using s by (auto simp: crowd_move_def Drainer one_less_def crowd_ok_def elim!: oksE)
qed

text \<open>Enough moves of a thread bring it to its end, whatever comes between them.\<close>

lemma crowd_run_ok:
  assumes "uniform01 rng" and "ticking clk"
  shows "crowd_ok clk h64 K num_keys n num_threads e0 s \<Longrightarrow>
    oks (ofold (crowd_move fl rng h32 h64 clk n) script s) (\<lambda>s'. crowd_ok clk h64 K num_keys n num_threads e0 s' \<and>
      (\<forall>u < num_threads. work_left n (cr_threads s' ! u) = work_left n (cr_threads s ! u) - count_list script (Thread u)))"
proof (induction script arbitrary: s)
  case (Cons move script)
  obtain s1 where s1: "crowd_move fl rng h32 h64 clk n move s = Some s1" "crowd_ok clk h64 K num_keys n num_threads e0 s1"
      "one_less n (case move of Thread t \<Rightarrow> Some t | Drainer pop \<Rightarrow> None) s s1"
    using crowd_move_ok [OF assms Cons.prems, of fl h32 move] by (auto elim!: oksE)
  have "length (cr_threads s) = num_threads" using Cons.prems by (simp add: crowd_ok_def)
  then have "work_left n (cr_threads s1 ! u) = work_left n (cr_threads s ! u) - (if move = Thread u then 1 else 0)" if "u < num_threads" for u
    using s1(3) that by (auto simp: one_less_def split: bench_move.splits)
  then show ?case using Cons.IH [OF s1(2)] by (auto simp: s1(1) elim!: oks_mono)
qed simp


section \<open>Merging\<close>

text \<open>A histogram of \<open>k\<close> samples of together at most \<open>A\<close> ns.\<close>

definition gathered :: "int \<Rightarrow> nat \<Rightarrow> histogram \<Rightarrow> bool" where
  "gathered A k h \<longleftrightarrow> (\<exists>xs. h = hist_of xs \<and> (\<forall>x \<in> set xs. 0 \<le> x \<and> x < 100 * 2 ^ 55) \<and> sum_list xs \<le> A \<and> length xs = k)"

lemma sampled_gathered: "ticking clk \<Longrightarrow> sampled clk n k h \<Longrightarrow> gathered (clk n - clk 0) k h"
  unfolding sampled_def gathered_def using taken_short(1) by (fastforce simp: taken_def)

lemma gathered_count: "gathered A k h \<Longrightarrow> k < 2 ^ 64 \<Longrightarrow> unat (h_total_count h) = k"
  by (auto simp: gathered_def hist_of_def unsigned_of_nat take_bit_nat_eq_self)

lemma gathered_percentile:
  "rounding fl \<Longrightarrow> gathered A k h \<Longrightarrow> k \<le> 2 ^ 53 \<Longrightarrow> 0 \<le> q \<Longrightarrow> q \<le> 1 \<Longrightarrow> \<exists>y. percentile fl q h = Some y"
  unfolding gathered_def using percentile_short [of fl q] by blast

lemma gathered_merge:
  assumes "gathered A j h" and "gathered B k other" and "A + B < 2 ^ 63"
  obtains h' where "hist_merge other h = Some h'" and "gathered (A + B) (j + k) h'"
proof -
  obtain xs where xs: "h = hist_of xs" "\<forall>x \<in> set xs. 0 \<le> x \<and> x < 100 * 2 ^ 55" "sum_list xs \<le> A" "length xs = j"
    using assms(1) by (auto simp: gathered_def)
  obtain ys where ys: "other = hist_of ys" "\<forall>x \<in> set ys. 0 \<le> x \<and> x < 100 * 2 ^ 55" "sum_list ys \<le> B" "length ys = k"
    using assms(2) by (auto simp: gathered_def)
  have sums: "0 \<le> sum_list xs" "0 \<le> sum_list ys" using xs(2) ys(2) by (auto intro: sum_list_nonneg_int)
  have "samples xs" "samples ys" "samples (xs @ ys)" using xs(2,3) ys(2,3) sums assms(3) by auto
  then have "hist_merge other h = Some (hist_of (xs @ ys))" unfolding xs(1) ys(1) by (rule hist_of_merge)
  moreover have "gathered (A + B) (j + k) (hist_of (xs @ ys))"
    unfolding gathered_def using xs ys by (intro exI [of _ "xs @ ys"]) auto
  ultimately show ?thesis by (rule that)
qed

definition some_gathered :: "int \<Rightarrow> nat \<Rightarrow> histogram \<Rightarrow> bool" where
  "some_gathered A k h \<longleftrightarrow> (\<exists>j \<le> k. gathered A j h)"

lemma some_gathered_merge:
  assumes "some_gathered A j h" and "some_gathered B k other" and "A + B < 2 ^ 63"
  obtains h' where "hist_merge other h = Some h'" and "some_gathered (A + B) (j + k) h'"
proof -
  obtain i l where i: "i \<le> j" "gathered A i h" "l \<le> k" "gathered B l other" using assms(1,2) by (auto simp: some_gathered_def)
  obtain h' where "hist_merge other h = Some h'" "gathered (A + B) (i + l) h'" by (rule gathered_merge [OF i(2,4) assms(3)])
  moreover have "i + l \<le> j + k" using i(1,3) by simp
  ultimately show ?thesis using that unfolding some_gathered_def by blast
qed

abbreviation on_all :: "(path \<Rightarrow> nat) \<Rightarrow> nat" where
  "on_all c \<equiv> c L1_HIT + c L2_HIT + c BACKEND_HIT + c MISS"

definition collected :: "int \<Rightarrow> (path \<Rightarrow> nat) \<Rightarrow> tracker \<Rightarrow> bool" where
  "collected A c t \<longleftrightarrow> gathered A (on_all c) (tr_total t) \<and> (\<forall>p. gathered A (c p) (path_hist p t)) \<and>
     (\<forall>h \<in> {tr_lock_wait t, tr_lookup t, tr_slab t, tr_admission t, tr_eviction t, tr_l2 t, tr_backend t}. some_gathered A (on_all c) h)"

lemma collected_new: "collected 0 (\<lambda>p. 0) tracker_new"
proof -
  have "gathered 0 0 hist_new" unfolding gathered_def by (intro exI [of _ "[]"]) (simp add: hist_of_Nil)
  then show ?thesis by (auto simp: collected_def tracker_new_def some_gathered_def path_hist_def split: path.splits)
qed

lemma tracks_collected:
  assumes "ticking clk" and "tracks clk n l1 l2 b m t"
  shows "collected (clk n - clk 0) (\<lambda>p. case p of L1_HIT \<Rightarrow> l1 | L2_HIT \<Rightarrow> l2 | BACKEND_HIT \<Rightarrow> b | MISS \<Rightarrow> m) t"
  using assms(2) sampled_gathered [OF assms(1), of n]
  by (auto simp: collected_def tracks_def some_gathered_def some_sampled_def path_hist_def split: path.splits)

lemma tracker_merge_ok:
  assumes t: "collected A c t" and other: "collected B d other" and sum: "A + B < 2 ^ 63"
  obtains t' where "tracker_merge other t = Some t'" and "collected (A + B) (\<lambda>p. c p + d p) t'"
proof -
  let ?some = "some_gathered (A + B) (on_all c + on_all d)"
  have path: "\<exists>h'. hist_merge (path_hist p other) (path_hist p t) = Some h' \<and> gathered (A + B) (c p + d p) h'" for p
    using gathered_merge [of A "c p" "path_hist p t" B "d p" "path_hist p other", OF _ _ sum] t other unfolding collected_def by metis
  obtain p1 p2 p3 p4 where p: "hist_merge (tr_l1_hit other) (tr_l1_hit t) = Some p1" "gathered (A + B) (c L1_HIT + d L1_HIT) p1"
      "hist_merge (tr_l2_hit other) (tr_l2_hit t) = Some p2" "gathered (A + B) (c L2_HIT + d L2_HIT) p2"
      "hist_merge (tr_backend_hit other) (tr_backend_hit t) = Some p3" "gathered (A + B) (c BACKEND_HIT + d BACKEND_HIT) p3"
      "hist_merge (tr_full_miss other) (tr_full_miss t) = Some p4" "gathered (A + B) (c MISS + d MISS) p4"
    using path [of L1_HIT] path [of L2_HIT] path [of BACKEND_HIT] path [of MISS] by (auto simp: path_hist_def)
  obtain q where q: "hist_merge (tr_total other) (tr_total t) = Some q" "gathered (A + B) (on_all c + on_all d) q"
    by (rule gathered_merge [of A "on_all c" "tr_total t" B "on_all d" "tr_total other", OF _ _ sum])
      (use t other in \<open>simp_all add: collected_def\<close>)
  have part: "\<exists>h'. hist_merge (f other) (f t) = Some h' \<and> ?some h'"
    if "some_gathered A (on_all c) (f t)" "some_gathered B (on_all d) (f other)" for f
    using some_gathered_merge [OF that sum] by metis
  obtain r1 r2 r3 r4 r5 r6 r7 where r: "hist_merge (tr_lock_wait other) (tr_lock_wait t) = Some r1" "?some r1"
      "hist_merge (tr_lookup other) (tr_lookup t) = Some r2" "?some r2" "hist_merge (tr_slab other) (tr_slab t) = Some r3" "?some r3"
      "hist_merge (tr_admission other) (tr_admission t) = Some r4" "?some r4" "hist_merge (tr_eviction other) (tr_eviction t) = Some r5" "?some r5"
      "hist_merge (tr_l2 other) (tr_l2 t) = Some r6" "?some r6" "hist_merge (tr_backend other) (tr_backend t) = Some r7" "?some r7"
    using part [of tr_lock_wait] part [of tr_lookup] part [of tr_slab] part [of tr_admission] part [of tr_eviction] part [of tr_l2]
      part [of tr_backend] t other
    by (auto simp: collected_def)
  define t' where "t' = \<lparr>tr_total = q, tr_lock_wait = r1, tr_lookup = r2, tr_admission = r4, tr_eviction = r5, tr_l2 = r6, tr_backend = r7,
    tr_slab = r3, tr_l1_hit = p1, tr_l2_hit = p2, tr_backend_hit = p3, tr_full_miss = p4\<rparr>"
  have all: "on_all (\<lambda>p. c p + d p) = on_all c + on_all d" by simp
  show ?thesis
  proof (rule that [of t'])
    show "tracker_merge other t = Some t'" by (simp add: tracker_merge_def p q r t'_def)
    show "collected (A + B) (\<lambda>p. c p + d p) t'"
      unfolding collected_def all using p q r by (auto simp: t'_def path_hist_def split: path.splits)
  qed
qed

lemma merge_all:
  assumes "0 \<le> S"
  shows "\<forall>th \<in> set ths. collected S (\<lambda>p. on_record p th) (bt_tracker th) \<Longrightarrow> collected A c t \<Longrightarrow> A + int (length ths) * S < 2 ^ 63 \<Longrightarrow>
    oks (ofold (\<lambda>th merged. tracker_merge (bt_tracker th) merged) ths t)
      (collected (A + int (length ths) * S) (\<lambda>p. c p + sum_list (map (on_record p) ths)))"
proof (induction ths arbitrary: A c t)
  case (Cons th ths)
  have len: "A + int (length (th # ths)) * S = (A + S) + int (length ths) * S" by (simp add: algebra_simps)
  have "0 \<le> int (length ths) * S" using assms by simp
  then have sum: "A + S < 2 ^ 63" "(A + S) + int (length ths) * S < 2 ^ 63" using Cons.prems(3) unfolding len by linarith+
  obtain t' where t': "tracker_merge (bt_tracker th) t = Some t'" "collected (A + S) (\<lambda>p. c p + on_record p th) t'"
    by (rule tracker_merge_ok [OF Cons.prems(2) _ sum(1), of "\<lambda>p. on_record p th" "bt_tracker th"]) (use Cons.prems(1) in simp)
  show ?case using Cons.IH [OF _ t'(2) sum(2)] Cons.prems(1) unfolding len by (simp add: t'(1) add.assoc)
qed simp

lemma collected_report:
  assumes "collected A c t" and "on_all c \<le> 2 ^ 53" and "rounding fl"
  shows "reportable fl t" and "path_counts t = (on_all c, c L1_HIT, c L2_HIT, c BACKEND_HIT, c MISS)"
proof -
  have path: "gathered A (c L1_HIT) (tr_l1_hit t)" "gathered A (c L2_HIT) (tr_l2_hit t)" "gathered A (c BACKEND_HIT) (tr_backend_hit t)"
      "gathered A (c MISS) (tr_full_miss t)" "gathered A (on_all c) (tr_total t)"
    using assms(1) unfolding collected_def by (auto simp: path_hist_def dest: spec [of _ L1_HIT] spec [of _ L2_HIT] spec [of _ BACKEND_HIT]
        spec [of _ MISS])
  then show "path_counts t = (on_all c, c L1_HIT, c L2_HIT, c BACKEND_HIT, c MISS)"
    using assms(2) by (simp add: path_counts_def gathered_count)
  have "\<exists>j \<le> 2 ^ 53. gathered A j h" if "h \<in> set (histograms t)" for h
  proof -
    have "c p \<le> on_all c" for p by (cases p) simp_all
    then have "some_gathered A (on_all c) h"
      using that path assms(1) by (auto simp: histograms_def collected_def some_gathered_def)
    then show ?thesis using assms(2) unfolding some_gathered_def by (meson order_trans)
  qed
  then show "reportable fl t" unfolding reportable_def using gathered_percentile [OF assms(3)] by blast
qed


section \<open>The report\<close>

lemma bench_threads_new_ok:
  assumes "rounding fl" and "\<forall>x y. 0 \<le> pow x y" and "0 < wc_num_keys wl" and "unat (wc_num_keys wl) < 2 ^ 32 - 1"
    and "wc_scan_probability wl \<le> 0" and "num_threads \<le> 2 ^ 18"
  obtains ths where "bench_threads_new fl pow wl num_threads = Some ths" and "length ths = num_threads"
    and "\<forall>th \<in> set ths. scan_free (wc_num_keys wl) (bt_gen th) \<and> bt_i th = 0 \<and> bt_phase th = Ready \<and> bt_tracker th = tracker_new"
proof -
  let ?fresh = "\<lambda>th. scan_free (wc_num_keys wl) (bt_gen th) \<and> bt_i th = 0 \<and> bt_phase th = Ready \<and> bt_tracker th = tracker_new"
  have one: "\<exists>th. bench_thread_new fl pow wl t = Some th \<and> ?fresh th" if "t < num_threads" for t
  proof -
    let ?wl = "wl\<lparr>wc_seed := wc_seed wl + of_nat (t * 7919)\<rparr>"
    obtain g where g: "generator_new fl pow ?wl = Some g" "generator_ok (wc_num_keys ?wl) g"
      by (rule generator_new_ok [OF assms(1,2), of ?wl]) (use assms(3-5) in simp_all)
    have "wg_scan_remaining g = 0" "wg_actual_scan_prob g \<le> 0"
      using g(1) assms(5) by (auto simp: generator_new_def actual_scan_prob_def Let_def split: Option.bind_splits)
    then show ?thesis using g that assms(6) by (simp add: bench_thread_new_def scan_free_def)
  qed
  have "\<exists>ths'. ofold (\<lambda>t ths. do { th \<leftarrow> bench_thread_new fl pow wl t; Some (ths @ [th]) }) ts ths = Some (ths @ ths') \<and>
      length ths' = length ts \<and> (\<forall>th \<in> set ths'. ?fresh th)" if "set ts \<subseteq> {..<num_threads}" for ts ths
    using that
  proof (induction ts arbitrary: ths)
    case (Cons t ts)
    obtain th where th: "bench_thread_new fl pow wl t = Some th" "?fresh th" using one [of t] Cons.prems by auto
    obtain ths' where ths': "ofold (\<lambda>t ths. do { th \<leftarrow> bench_thread_new fl pow wl t; Some (ths @ [th]) }) ts (ths @ [th]) =
        Some ((ths @ [th]) @ ths')" "length ths' = length ts" "\<forall>th \<in> set ths'. ?fresh th"
      using Cons.IH [of "ths @ [th]"] Cons.prems by auto
    then show ?case using th by (intro exI [of _ "th # ths'"]) simp
  qed simp
  from this [of "[0..<num_threads]" "[]"] obtain ths where "bench_threads_new fl pow wl num_threads = Some ths"
      "length ths = num_threads" "\<forall>th \<in> set ths. ?fresh th"
    by (auto simp: bench_threads_new_def atLeast0LessThan)
  then show ?thesis by (rule that)
qed

lemma crowd_start:
  assumes "ticking clk" and "sustained h64 K (dom (mb_store (make_backend num_keys))) {} e0"
    and "\<forall>th \<in> set ths. scan_free num_keys (bt_gen th) \<and> bt_i th = 0 \<and> bt_phase th = Ready \<and> bt_tracker th = tracker_new"
  shows "crowd_ok clk h64 K num_keys n (length ths) e0 \<lparr>cr_engine = e0, cr_reads = 1, cr_threads = ths\<rparr>"
proof -
  have zero: "unat (h_total_count (path_hist p tracker_new)) = 0" for p
    by (cases p) (simp_all add: path_hist_def tracker_new_def hist_new_def)
  have "bench_thread_ok clk num_keys n 1 th" if "th \<in> set ths" for th
    using assms(3) that zero tracks_new [OF assms(1), of 0] unfolding bench_thread_ok_def by auto
  moreover have none: "sum_list (map (answered_on p) ths) = 0" for p
    using assms(3) zero by (simp add: answered_on_def)
  ultimately show ?thesis using assms(2) by (simp add: crowd_ok_def none del: sum_list_eq_0_iff)
qed

lemma work_left_start: "bt_i th = 0 \<Longrightarrow> bt_phase th = Ready \<Longrightarrow> work_left n th = 3 * unat n"
  by (simp add: work_left_def)

text \<open>When all threads have returned, everything answered is on record, \<open>n\<close> operations for each.\<close>

lemma crowd_end:
  assumes "crowd_ok clk h64 K num_keys n num_threads e0 s" and "list_all (returned n) (cr_threads s)"
  shows "crowd_on p s = sum_list (map (on_record p) (cr_threads s))" and "on_all (\<lambda>p. crowd_on p s) = num_threads * unat n"
proof -
  have th: "answered_on p th = on_record p th" "on_all (\<lambda>p. answered_on p th) = unat n" if "th \<in> set (cr_threads s)" for th p
  proof -
    have r: "bt_phase th = Ready" "\<not> bt_i th < n" using assms(2) that by (auto simp: list_all_iff returned_def)
    have ok: "bench_thread_ok clk num_keys n (cr_reads s) th" using assms(1) that by (simp add: crowd_ok_def)
    then have "bt_i th = n" using r(2) by (simp add: bench_thread_ok_def)
    then show "answered_on p th = on_record p th" "on_all (\<lambda>p. answered_on p th) = unat n"
      using ok r(1) by (simp_all add: answered_on_def bench_thread_ok_def)
  qed
  show "crowd_on p s = sum_list (map (on_record p) (cr_threads s))"
    by (rule arg_cong [where f = sum_list, OF map_cong [OF refl th(1)]])
  have "on_all (\<lambda>p. crowd_on p s) = sum_list (map (\<lambda>th. on_all (\<lambda>p. answered_on p th)) (cr_threads s))"
    by (simp add: sum_list_addf)
  also have "\<dots> = sum_list (map (\<lambda>th. unat n) (cr_threads s))" by (intro arg_cong [where f = sum_list] map_cong) (simp_all only: th(2))
  also have "\<dots> = num_threads * unat n" using assms(1) by (simp add: crowd_ok_def sum_list_triv)
  finally show "on_all (\<lambda>p. crowd_on p s) = num_threads * unat n" .
qed

lemma run_mt_counts:
  assumes "rounding fl" and "\<forall>x y. 0 \<le> pow x y" and "uniform01 rng" and "ticking clk" and "\<forall>k. int num_threads * (clk k - clk 0) < 2 ^ 63"
    and "num_threads \<le> 2 ^ 18" and "0 < wc_num_keys wl" and "unat (wc_num_keys wl) < 2 ^ 32 - 1" and "wc_scan_probability wl \<le> 0"
    and "\<forall>t < num_threads. 3 * unat n \<le> count_list script (Thread t)"
    and "sustained h64 K (dom (mb_store (make_backend (wc_num_keys wl)))) {} e0"
  shows "oks (run_mt_instrumented fl pow rng h32 h64 clk script e0 n num_threads wl bcfg) (\<lambda>(r, e). \<exists>l1 l2 b.
    l1 + l2 + b \<le> num_threads * unat n \<and> path_report r = (num_threads * unat n, l1, l2, b) \<and>
    unat (br_total_ops r) = num_threads * unat n \<and> unat (br_l1_hits r) = l1 \<and> unat (br_l1_misses r) = l2 + b \<and> unat (br_l2_hits r) = l2 \<and>
    br_l1_hit_rate r = of_nat l1 / of_nat (l1 + l2 + b) \<and> br_l2_hit_rate r = of_nat l2 / of_nat (l2 + b))"
proof -
  let ?N = "num_threads * unat n"
  obtain ths where ths: "bench_threads_new fl pow wl num_threads = Some ths" "length ths = num_threads"
      "\<forall>th \<in> set ths. scan_free (wc_num_keys wl) (bt_gen th) \<and> bt_i th = 0 \<and> bt_phase th = Ready \<and> bt_tracker th = tracker_new"
    by (rule bench_threads_new_ok [OF assms(1,2,7-9,6)])
  let ?init = "\<lparr>cr_engine = e0, cr_reads = 1, cr_threads = ths\<rparr>"
  from crowd_run_ok [OF assms(3,4) crowd_start [OF assms(4,11) ths(3)], of fl h32 n script]
  obtain s where s: "ofold (crowd_move fl rng h32 h64 clk n) script ?init = Some s"
      "crowd_ok clk h64 K (wc_num_keys wl) n num_threads e0 s"
      "\<forall>u < num_threads. work_left n (cr_threads s ! u) = work_left n (ths ! u) - count_list script (Thread u)"
    using ths(2) by (auto elim!: oksE)
  have len: "length (cr_threads s) = num_threads" using s(2) by (simp add: crowd_ok_def)
  have "returned n (cr_threads s ! u)" if u: "u < num_threads" for u
  proof (rule work_left_0)
    show "bench_thread_ok clk (wc_num_keys wl) n (cr_reads s) (cr_threads s ! u)" using s(2) u len by (simp add: crowd_ok_def)
    have "work_left n (ths ! u) = 3 * unat n" using ths(2,3) u by (simp add: work_left_start)
    then show "work_left n (cr_threads s ! u) = 0" using s(3) assms(10) u by simp
  qed
  then have ret: "list_all (returned n) (cr_threads s)" using len by (auto simp: list_all_length)
  let ?c = "\<lambda>p. crowd_on p s" and ?S = "clk (cr_reads s) - clk 0"
  have S: "0 \<le> ?S" using assms(4) steady_le [of clk 0 "cr_reads s"] by (simp add: ticking_def)
  have "collected ?S (\<lambda>p. on_record p th) (bt_tracker th)" if "th \<in> set (cr_threads s)" for th
  proof -
    obtain k where k: "k \<le> cr_reads s" "tracks clk k (on_record L1_HIT th) (on_record L2_HIT th) (on_record BACKEND_HIT th) (on_record MISS th) (bt_tracker th)"
      using s(2) \<open>th \<in> set (cr_threads s)\<close> by (auto simp: crowd_ok_def bench_thread_ok_def)
    have "(\<lambda>p. case p of L1_HIT \<Rightarrow> on_record L1_HIT th | L2_HIT \<Rightarrow> on_record L2_HIT th | BACKEND_HIT \<Rightarrow> on_record BACKEND_HIT th
        | MISS \<Rightarrow> on_record MISS th) = (\<lambda>p. on_record p th)"
      by (rule ext) (simp split: path.split)
    then show ?thesis using tracks_collected [OF assms(4) tracks_later [OF assms(4) k(2,1)]] by simp
  qed
  moreover have "0 + int (length (cr_threads s)) * ?S < 2 ^ 63" using assms(5) len by simp
  ultimately obtain t where t: "ofold (\<lambda>th merged. tracker_merge (bt_tracker th) merged) (cr_threads s) tracker_new = Some t"
      "collected (0 + int (length (cr_threads s)) * ?S) (\<lambda>p. 0 + sum_list (map (on_record p) (cr_threads s))) t"
    using merge_all [OF S, of "cr_threads s" 0 "\<lambda>p. 0" tracker_new] collected_new by (auto elim!: oksE)
  have all: "on_all ?c = ?N" by (rule crowd_end(2) [OF s(2) ret])
  have "(\<lambda>p. 0 + sum_list (map (on_record p) (cr_threads s))) = ?c" using crowd_end(1) [OF s(2) ret] by simp
  then have c: "collected (0 + int (length (cr_threads s)) * ?S) ?c t" using t(2) by simp
  have N: "?N < 2 ^ 52"
  proof -
    have "?N \<le> 2 ^ 18 * unat n" using assms(6) by simp
    also have "\<dots> < 2 ^ 52" using unat_u32_bound [of n] by simp
    finally show ?thesis .
  qed
  note rep = collected_report [OF c _ assms(1)]
  have "on_all ?c < 2 ^ 64" unfolding all by (rule less_trans [OF N]) simp
  then have small: "?c L1_HIT < 2 ^ 64" "?c L2_HIT + ?c BACKEND_HIT < 2 ^ 64" "?c L2_HIT < 2 ^ 64" "?c L1_HIT + ?c L2_HIT + ?c BACKEND_HIT < 2 ^ 64"
    by linarith+
  have ops: "unat (ucast n * of_nat num_threads :: u64) = ?N"
  proof -
    have "(ucast n * of_nat num_threads :: u64) = of_nat ?N" by (simp add: mult.commute)
    moreover have "?N < 2 ^ 64" by (rule less_trans [OF N]) simp
    ultimately show ?thesis by (simp only: unat_small)
  qed
  have n: "engine_l1_hits (cr_engine s) - engine_l1_hits e0 = of_nat (?c L1_HIT)"
      "engine_l1_misses (cr_engine s) - engine_l1_misses e0 = of_nat (?c L2_HIT + ?c BACKEND_HIT)"
      "engine_l2_hits (cr_engine s) - engine_l2_hits e0 = of_nat (?c L2_HIT)"
    using s(2) by (simp_all add: crowd_ok_def)
  have sum: "(of_nat (?c L1_HIT) + of_nat (?c L2_HIT + ?c BACKEND_HIT) :: u64) = of_nat (?c L1_HIT + ?c L2_HIT + ?c BACKEND_HIT)" by simp
  have rates: "ratio (of_nat (?c L1_HIT)) (of_nat (?c L1_HIT) + of_nat (?c L2_HIT + ?c BACKEND_HIT)) =
      of_nat (?c L1_HIT) / of_nat (?c L1_HIT + ?c L2_HIT + ?c BACKEND_HIT)"
      "ratio (of_nat (?c L2_HIT)) (of_nat (?c L2_HIT + ?c BACKEND_HIT)) = of_nat (?c L2_HIT) / of_nat (?c L2_HIT + ?c BACKEND_HIT)"
    unfolding sum by (rule ratio_small [OF small(1,4)], rule ratio_small [OF small(3,2)])
  define r0 where "r0 = \<lparr>br_config = bcfg, br_throughput = per_second (ucast n * of_nat num_threads) (seconds ?S), br_duration = seconds ?S,
        br_total_ops = ucast n * of_nat num_threads, br_l1_hit_rate = of_nat (?c L1_HIT) / of_nat (?c L1_HIT + ?c L2_HIT + ?c BACKEND_HIT),
        br_l2_hit_rate = of_nat (?c L2_HIT) / of_nat (?c L2_HIT + ?c BACKEND_HIT),
        br_l1_hits = of_nat (?c L1_HIT), br_l1_misses = of_nat (?c L2_HIT + ?c BACKEND_HIT), br_l2_hits = of_nat (?c L2_HIT),
        br_admissions = engine_l1_admissions (cr_engine s) - engine_l1_admissions e0,
        br_rejections = engine_l1_rejections (cr_engine s) - engine_l1_rejections e0,
        br_evictions = engine_l1_evictions (cr_engine s) - engine_l1_evictions e0,
        br_total = blank_latency, br_l1_hit_path = blank_latency, br_l2_hit_path = blank_latency,
        br_backend_hit_path = blank_latency, br_lock_wait = blank_latency, br_lookup = blank_latency,
        br_admission = blank_latency, br_eviction = blank_latency, br_l2_access = blank_latency,
        br_backend_access = blank_latency, br_slab_alloc = blank_latency\<rparr>"
  have reportable: "reportable fl t" using rep(1) N all by simp
  have counts: "path_counts t = (?N, ?c L1_HIT, ?c L2_HIT, ?c BACKEND_HIT, ?c MISS)" using rep(2) N unfolding all by simp
  obtain r where r: "populate_from_tracker fl t r0 = Some r"
      "\<exists>m. path_counts t = (case path_report r of (t, l1, l2, b) \<Rightarrow> (t, l1, l2, b, m))"
      "br_l1_hits r = br_l1_hits r0" "br_l1_misses r = br_l1_misses r0" "br_l2_hits r = br_l2_hits r0"
      "br_l1_hit_rate r = br_l1_hit_rate r0" "br_l2_hit_rate r = br_l2_hit_rate r0" "br_total_ops r = br_total_ops r0"
    by (rule populate_some [OF reportable])
  have "path_report r = (?N, ?c L1_HIT, ?c L2_HIT, ?c BACKEND_HIT)" using r(2) counts by (cases "path_report r") auto
  moreover have "run_mt_instrumented fl pow rng h32 h64 clk script e0 n num_threads wl bcfg = Some (r, cr_engine s)"
    unfolding run_mt_instrumented_def using r(1)
    by (simp only: ths(1) bind.bind_lunit s(1) ret if_True Let_def t(1) n rates r0_def)
  moreover have "?c L1_HIT + ?c L2_HIT + ?c BACKEND_HIT \<le> ?N" using all by linarith
  moreover have "unat (br_l1_hits r) = ?c L1_HIT" "unat (br_l1_misses r) = ?c L2_HIT + ?c BACKEND_HIT" "unat (br_l2_hits r) = ?c L2_HIT"
      "unat (br_total_ops r) = ?N"
    unfolding r(3-5,8) r0_def using unat_small [OF small(1)] unat_small [OF small(2)] unat_small [OF small(3)] ops
    by (simp_all del: of_nat_add)
  ultimately show ?thesis using r(6,7)
    by (simp only: oks_Some prod.case)
      (intro exI [of _ "?c L1_HIT"] exI [of _ "?c L2_HIT"] exI [of _ "?c BACKEND_HIT"], simp add: r0_def)
qed


text \<open>C25. The benchmark with several threads reports what happened: from an empty engine over the populated backend, warmed up, with
  any number of threads up to \<open>2 ^ 18\<close>, in any order of their steps and the steps of the drainer that lets every
  thread make three steps per operation, nothing fails, every thread returns, and the trackers can be merged (if the sum of
  all threads' time fits in 63 bits). The merged latency counts per path equal the counters of the engine: every read
  is a hit of L1, of L2 or of the backend, and all operations of all threads are counted.\<close>

theorem scaling_round_reports:
  assumes "rounding fl" and "\<forall>x y. 0 \<le> pow x y" and "uniform01 rng" and "ticking clk" and "\<forall>k. int num_threads * (clk k - clk 0) < 2 ^ 63"
    and "num_threads \<le> 2 ^ 18" and "0 < num_records" and "10 * unat num_records < 2 ^ 32"
    and "wc_num_keys wl = num_records" and "wc_scan_probability wl \<le> 0"
    and "engine_new cfg (make_backend num_records) = Some (Inr e0)" and "unat (ec_queue_size cfg) \<le> 2 ^ 31"
    and "\<forall>t < num_threads. 3 * unat n \<le> count_list script (Thread t)"
  shows "oks (scaling_round fl pow rng h32 h64 clk warm_sched script cfg num_records warmup_ops n num_threads alpha wl bcfg)
    (\<lambda>res. \<exists>r l1 l2 b. res = Inr r \<and> l1 + l2 + b \<le> num_threads * unat n \<and> path_report r = (num_threads * unat n, l1, l2, b) \<and>
      unat (br_total_ops r) = num_threads * unat n \<and> unat (br_l1_hits r) = l1 \<and> unat (br_l1_misses r) = l2 + b \<and>
      unat (br_l2_hits r) = l2 \<and> br_l1_hit_rate r = of_nat l1 / of_nat (l1 + l2 + b) \<and> br_l2_hit_rate r = of_nat l2 / of_nat (l2 + b))"
proof -
  let ?D = "dom (mb_store (make_backend num_records))"
  let ?init = "\<lparr>rs_engine = e0, rs_calls = 0, rs_reads = 0, rs_tracker = tracker_new\<rparr> :: memory_backend run_state"
  obtain K where K: "engine_inv h64 K e0" "en_backend e0 = make_backend num_records"
    by (rule engine_new_ok [OF assms(11,12), of h64]) (rule that; assumption)
  have "keeps h64 K ?D {} ?init" using K by (auto simp: sustained_def)
  from warm_up_ok [OF assms(1-3,7,8) this, of h32 warm_sched warmup_ops alpha 42]
  obtain s where s: "warm_up fl pow rng h32 h64 warm_sched warmup_ops num_records alpha 42 ?init = Some s" "keeps h64 K ?D {} s"
    by (auto elim!: oksE)
  have wl: "0 < wc_num_keys wl" "unat (wc_num_keys wl) < 2 ^ 32 - 1" using assms(7-9) by simp_all
  have "oks (run_mt_instrumented fl pow rng h32 h64 clk script (rs_engine s) n num_threads wl bcfg) (\<lambda>(r, e). \<exists>l1 l2 b.
      l1 + l2 + b \<le> num_threads * unat n \<and> path_report r = (num_threads * unat n, l1, l2, b) \<and>
      unat (br_total_ops r) = num_threads * unat n \<and> unat (br_l1_hits r) = l1 \<and> unat (br_l1_misses r) = l2 + b \<and> unat (br_l2_hits r) = l2 \<and>
      br_l1_hit_rate r = of_nat l1 / of_nat (l1 + l2 + b) \<and> br_l2_hit_rate r = of_nat l2 / of_nat (l2 + b))"
    by (rule run_mt_counts [OF assms(1-6) wl assms(10,13)]) (use s(2) assms(9) in simp)
  then show ?thesis
    by (auto simp: scaling_round_def make_engine_def assms(11) s(1) elim!: oksE)
qed

text \<open>Two threads with two operations each: the second comes first, a batch is popped in between, and then they alternate.\<close>

theorem scaling_round_reports_witness:
  "oks (scaling_round id (\<lambda>x y. 1) (\<lambda>seed n. 1 / 2) demo_hash demo_hash64 demo_clock (\<lambda>n. [True, False])
      [Thread 1, Thread 1, Drainer True, Thread 0, Thread 1, Thread 0, Thread 1, Thread 0, Thread 1, Thread 0, Thread 1, Thread 0,
       Thread 1, Thread 0]
      (walde_config 256) 2 5 2 2 (99 / 100)
      \<lparr>wc_num_keys = 2, wc_zipf_alpha = 99 / 100, wc_write_ratio = 1 / 20, wc_scan_probability = 0, wc_scan_length = 0, wc_seed = 5555\<rparr>
      \<lparr>bm_workload_type = ''zipfian'', bm_cache_capacity = 256, bm_num_threads = 2, bm_num_ops = 4, bm_zipf_alpha = 99 / 100,
        bm_scan_probability = 0, bm_trace_file = []\<rparr>)
    (\<lambda>res. \<exists>r. res = Inr r \<and> fst (path_report r) = 4 \<and> unat (br_total_ops r) = 4)"
proof -
  let ?script = "[Thread 1, Thread 1, Drainer True, Thread 0, Thread 1, Thread 0, Thread 1, Thread 0, Thread 1, Thread 0, Thread 1, Thread 0,
       Thread 1, Thread 0]"
  obtain e where e: "engine_new (walde_config 256) (make_backend 2) = Some (Inr e)" by (rule demo_walde)
  have rng: "uniform01 (\<lambda>seed n. 1 / 2)" by (simp add: uniform01_def)
  have moves: "\<forall>t < 2. 3 * unat (2 :: u32) \<le> count_list ?script (Thread t)" by (auto simp: less_2_cases_iff)
  have short: "\<forall>k. int 2 * (demo_clock k - demo_clock 0) < 2 ^ 63" by (auto simp: min_def)
  show ?thesis
    by (rule oks_mono [OF scaling_round_reports [OF demo_rounding _ rng demo_ticking short _ _ _ _ _ e _ moves]])
      (auto simp: walde_config_def)
qed


section \<open>The timer\<close>

lemma timer_overhead_ok:
  assumes "steady clk" and "0 < n"
  obtains mean p50 p99 where "timer_overhead clk n = Some (mean, p50, p99)" and "0 \<le> p50" and "p50 \<le> p99"
    and "0 \<le> mean" and "mean * of_nat n \<le> of_int (clk (2 * n - 1) - clk 0)"
proof -
  let ?ds = "map (\<lambda>i. clk (2 * i + 1) - clk (2 * i)) [0..<n]"
  have nonneg: "0 \<le> x" if "x \<in> set ?ds" for x using that steady_le [OF assms(1)] by auto
  have len: "n div 2 \<le> n * 99 div 100" "n * 99 div 100 < n" using assms(2) by auto
  then have "sort ?ds ! (n div 2) \<le> sort ?ds ! (n * 99 div 100)" by (intro sorted_nth_mono) simp_all
  moreover have "0 \<le> sort ?ds ! (n div 2)"
    by (rule nonneg) (use nth_mem [of "n div 2" "sort ?ds"] assms(2) in simp)
  moreover have "sum_list ?ds \<le> clk (2 * n - 1) - clk 0"
    using assms(2)
  proof (induction n rule: nat_induct_non_zero)
    case (Suc n)
    have "clk (2 * n - 1) \<le> clk (2 * n)" "2 * Suc n - 1 = 2 * n + 1" using steady_le [OF assms(1)] by simp_all
    then show ?case using Suc.IH by simp
  qed simp
  moreover have "sum_list (sort ?ds) = sum_list ?ds" by (simp only: sum_mset_sum_list [symmetric] mset_sort)
  moreover have "0 \<le> sum_list ?ds" using nonneg by (intro sum_list_nonneg) blast
  ultimately have facts: "sort ?ds ! (n div 2) \<le> sort ?ds ! (n * 99 div 100)" "0 \<le> sort ?ds ! (n div 2)"
      "0 \<le> sum_list (sort ?ds)" "sum_list (sort ?ds) \<le> clk (2 * n - 1) - clk 0"
    by simp_all
  show ?thesis
  proof (rule that [OF _ facts(2,1)])
    show "timer_overhead clk n = Some (rat_of_int (sum_list (sort ?ds)) / of_nat n, sort ?ds ! (n div 2), sort ?ds ! (n * 99 div 100))"
      using assms(2) by (simp only: timer_overhead_def Let_def if_True)
    show "0 \<le> rat_of_int (sum_list (sort ?ds)) / of_nat n" using facts(3) by simp
    have "rat_of_int (sum_list (sort ?ds)) \<le> of_int (clk (2 * n - 1) - clk 0)" using facts(4) by (simp only: of_int_le_iff)
    moreover have "rat_of_int (sum_list (sort ?ds)) / of_nat n * of_nat n = of_int (sum_list (sort ?ds))" using assms(2) by simp
    ultimately show "rat_of_int (sum_list (sort ?ds)) / of_nat n * of_nat n \<le> of_int (clk (2 * n - 1) - clk 0)" by simp
  qed
qed

end
