(* ===== verification/Spec2Isabelle.thy ===== *)
theory Spec2Isabelle
  imports Float32 Lru_List Count_Min_Sketch Demotion_Drainer Engine_Stats Engine_Timed Latency_Props Trace_Roundtrip Workload_Props Lru_Cache
    Slab_Concurrent Stripe_Concurrent Drainer_Stop Engine_Concurrent Wtinylfu_Props Bench_Threads_Props Accessors
begin

text \<open>
  WALDE is a concurrent two-level cache in front of a storage backend. \<open>CacheEngine\<close> asks an L1 cache of 64
  stripes (\<open>StripedCache\<close>), then an L2 cache of 16 exclusive LRU stripes, then the backend, and puts what it
  found back into L1. A stripe (\<open>CacheStripe\<close>) is a W-TinyLFU cache: a window, a probation and a protected LRU
  list over the nodes of one slab that all stripes share, and a count-min sketch whose frequencies decide which
  window entry may evict which probation entry. Evicted entries go through a bounded queue to a background
  thread (\<open>DemotionDrainer\<close>), which moves them into L2 in batches. Around it: latency histograms, a trace reader
  and a workload generator.

  This library models the files of \<open>include/\<close> and \<open>src/\<close>, and of \<open>benchmarks/\<close> the baseline caches, the workloads and the
  harness that measures WALDE against them.
  The code is translated operation by operation, in
  the order of the source; the theory of a component opens with the files it stands for.

  Conventions. An operation returns an \<open>option\<close>: \<open>None\<close> is a failed assertion or undefined behaviour (a
  subscript out of range, signed overflow, a float conversion out of range) or a loop that does not end, and
  \<open>oks m P\<close> is total correctness. Exceptions are \<open>Inl\<close>. Unsigned integers are words of their width, with
  wrap-around; \<open>int64_t\<close> is an integer with its range checked. Strings are lists of bytes. Hash functions
  (XXH32, XXH64), the clock, the random number generator and \<open>std::pow\<close> are parameters. Fixed-size loops are folds
  over their indices (\<open>ofold\<close>), loops that may not end are \<open>partial_function (option)\<close>; no model uses fuel.

  Theories, and the source each models:

  \<^item> \<open>Prelude\<close>: the conventions above, vectors, words. \<open>Float32\<close>: single-precision products of an integer and a
    literal, as the constructors compute capacities.
  \<^item> \<open>Cache_Types\<close> (\<open>types.h\<close>), \<open>Slab_Allocator\<close> (\<open>slab_allocator.*\<close>): the free list in the packed head and
    \<open>free_next_\<close>. Each operation is one successful pass of its compare-and-swap loop. Lemmas: allocate and
    deallocate keep a duplicate-free free list, and the tag grows with both. \<open>Slab_Concurrent\<close>: the loops step by
    step, any number of threads inside them; ownership of slots, linearizability (the ABA case included), lock
    freedom (a thread left alone returns after a bounded number of steps, counted with the spurious failures of
    \<open>compare_exchange_weak\<close>), and agreement with the sequential model.
  \<^item> \<open>Lru_List\<close> (\<open>lru_list.*\<close>): the intrusive doubly linked list over the slab's nodes. Its lemmas state every
    operation on the list of indices it represents, and that it leaves other lists alone.
  \<^item> \<open>Count_Min_Sketch\<close> (\<open>count_min_sketch.*\<close>), over the abstract counters of \<open>Freq_Sketch\<close>: no underestimates,
    exact without collisions.
  \<^item> \<open>Demotion_Queue\<close> (\<open>demotion_queue.*\<close>): the ring buffer answers every sequence of calls like a bounded FIFO
    list (the interface \<open>bounded_queue\<close>); back-pressure at 80 percent.
    \<open>Demotion_Drainer\<close> (\<open>demotion_drainer.*\<close>): the thread as a step relation interleaved with producers and stop;
    every accepted item is delivered once and in order, and when the thread has ended all that was accepted before.
    \<open>Drainer_Stop\<close>: concurrent calls of \<open>stop()\<close>, which join the thread once, and termination of the shutdown.
  \<^item> \<open>Cache_Stripe\<close> (\<open>cache_stripe.*\<close>): the code without measuring. \<open>Cache_Stripe_Inv\<close>: the invariant (the lists
    are disjoint, tagged with their segment, and together are the range of the index). \<open>Cache_Stripe_Spec\<close>: the
    abstract policy, on lists of entries. \<open>Cache_Stripe_Correct\<close>: every operation refines its abstract one, with
    termination of the admission loop. \<open>Cache_Stripe_Policy\<close>: bounds and safety of the policy.
    \<open>Cache_Stripe_Props\<close>: the properties of the code that follow.
  \<^item> \<open>Cache_Stripe_Timed\<close>: the second copy of get, put and the admission gate that runs when a breakdown is
    passed; it agrees with the first.
  \<^item> \<open>Striped_Cache\<close>, \<open>Striped_Cache_Props\<close> (\<open>striped_cache.*\<close>): 64 stripes over one slab and one queue.
    \<open>Lossy_Cache\<close>: the interface of a cache that may forget but never lie, as locales; \<open>Cache_Flow\<close> interprets them
    on the stripes of the code, and follows entries from L1 into the queue.
  \<^item> \<open>Stripe_Steps\<close>, \<open>Stripe_Steps_Correct\<close>, \<open>Stripe_Concurrent\<close>: the operations of a stripe cut at their calls into
    the shared slab and queue, each step against the policy, and the steps of the 64 stripes and the drainer
    interleaved. No step fails, locks are held for at most six steps, the slab's 64 spare nodes suffice, and the
    cache is linearizable to the sequence of its operations.
  \<^item> \<open>Storage_Backend\<close> (\<open>storage_backend.*\<close>): the virtual interface as a record of operations, its contract as the
    locale \<open>kv_store\<close>, and the in-memory backend as its interpretation.
  \<^item> \<open>Node_List\<close>, \<open>Lru_Map\<close>: a \<open>std::list\<close> with stable iterators and a map into it, as an L2 stripe uses them.
    \<open>Cache_Engine\<close> (\<open>cache_engine.*\<close>): the engine over any backend. \<open>Cache_Engine_Props\<close>: its invariant and where a
    value can be (in L1, in the queue, in the drainer's batch, in L2, in the backend), proved for every backend that
    keeps the contract. \<open>Cache_Engine_Run\<close>: runs of client operations and drainer steps in any order, against a plain
    map, and the destructor, which inserts all that is pending into L2. \<open>Engine_Stats\<close>: the counters and hit rates against
    the levels that answered. \<open>Engine_Timed\<close>: the measured get and put.
    \<open>Engine_Concurrent\<close>: clients interleaved inside their operations, one call into a component at a time; no
    value is invented, keys written once are linearizable, and the race that leaves a stale value in L1.
  \<^item> \<open>Latency\<close>, \<open>Latency_Props\<close> (\<open>latency_instrumentation.h\<close>): breakdown, histogram and tracker; a histogram against
    the list of its samples.
  \<^item> \<open>Trace_Loader\<close> (\<open>trace_loader.*\<close>), \<open>Trace_Loader_Props\<close>: the reader against a reference that reads the whole
    file at once, and its counters. \<open>Trace_Roundtrip\<close>: printed traces load back.
  \<^item> \<open>Workload\<close>, \<open>Workload_Props\<close> (\<open>workload_generator.*\<close>): Zipf sampling and scan bursts. A \<open>double\<close> is the rational it
    denotes, with the rounding of every operation a parameter that is monotone, idempotent and exact on integers up
    to \<open>2 ^ 53\<close>; infinities and NaN are outside the model.
  \<^item> \<open>Lru_Cache\<close> (\<open>benchmarks/lru_cache.h\<close>): the two baseline LRU caches, the first as a refinement of the LRU policy,
    both as interpretations of the interface of \<open>Lossy_Cache\<close>. \<open>Doorkeeper\<close>, \<open>Wtinylfu\<close>, \<open>Wtinylfu_Props\<close>
    (\<open>benchmarks/wtinylfu_cache.h\<close>): the baseline W-TinyLFU cache with its Bloom filter, its invariant, and the
    reads that are undefined.
  \<^item> \<open>Bench_Workload\<close>, \<open>Bench_Workload_Props\<close> (\<open>benchmarks/bench_workloads.h\<close>, \<open>benchmarks/trace_bench.h\<close>): the YCSB
    mixes with their ratios, the scan mix as an instance of \<open>Workload\<close>, and replayed traces.
  \<^item> \<open>Breakdown_Sums\<close>: the phases of the measured get and put against the clock. They do not overlap, so that together they
    take at most the time of the call.
  \<^item> \<open>Bench_Harness\<close> (\<open>benchmarks/benchmark_runner.cpp\<close>, \<open>benchmark_main.cpp\<close>, \<open>benchmark_result.h\<close>): the command line, the
    backends, the measured runs of LRU, W-TinyLFU and WALDE over one sequence of operations, and the instrumented
    benchmark, down to the numbers they report. \<open>Bench_Harness_Props\<close>: the command line reads back, the percentiles
    exist, and the hit rate of a baseline is over the reads of the measured range (the interface \<open>counting_cache\<close>,
    interpreted on the three baselines); for LRU it is that of the policy. \<open>Bench_Walde_Props\<close>: the WALDE run ends,
    and its counters, its tracker and its operations agree. \<open>Bench_Scan_Props\<close>: the reads of the scan workload that
    no level can answer. \<open>Bench_Instrumented_Props\<close>: the two single-threaded benchmarks of the main program.
    \<open>Bench_Threads\<close>, \<open>Bench_Threads_Props\<close>: its benchmark with several threads, step by step in any order. Every thread
    returns, and the merged trackers agree with the engine's counters.
  \<^item> \<open>Accessors\<close>: the inline accessors of the headers, and the scoped timer.

  Bounds. The queue's requested capacity is at most \<open>2 ^ 31\<close> (above, it rounds up to 0). The properties that promise
  room in L1 need a total capacity of at least 192 (256 for a non-empty window in every stripe) and at most
  \<open>2 ^ 32 - 65\<close>, the slab having 64 nodes more. Histograms are right for samples below \<open>100 * 2 ^ 56\<close> ns; past that
  the code's threshold overflows. The W-TinyLFU baseline needs a capacity of at least 2 and below \<open>2 ^ 29 - 7\<close>, where
  the size of its filter wraps. Generators need between 1 and \<open>2 ^ 32 / 10\<close> keys and scans that are not empty.

  Concurrency. Every stripe, every L2 stripe, the queue and the in-memory backend hold their mutex for a whole
  operation, so the operation is one step. \<open>Cache_Engine_Run\<close> interleaves whole operations of the engine with the
  drainer item by item; \<open>Engine_Concurrent\<close> also interleaves the calls inside the operations. An operation of a
  stripe calls into the slab and the queue while other stripes do: \<open>Stripe_Concurrent\<close> interleaves these calls and
  shows that a stripe's operation is one step all the same. \<open>Slab_Concurrent\<close>, below it,
  interleaves single accesses to the slab's shared members, where no thread may sleep between its load and its
  compare-and-swap while \<open>2 ^ 32\<close> operations succeed (the tag has 32 bits). Accesses are sequentially
  consistent: memory orders, and the data race on \<open>free_next_\<close>, are outside the model.

  A run of the harness has one client. The steps of the drainer before each of its calls are an arbitrary list
  (\<open>schedule\<close>), and \<open>clk n\<close> is the \<open>n\<close>-th reading of the clock; the properties ask that it does not run back and that a
  run is shorter than \<open>100 * 2 ^ 55\<close> ns, which keeps the histograms in their bounds. In \<open>Bench_Threads\<close> the steps of the
  clients and the drainer are one arbitrary list, a call of the engine being one step; three steps per operation are
  enough for a thread to return.

  Not modelled. Opening a file: a file is its content, or does not open. Deleted copy operations and printing. Of the
  harness \<open>run_concurrency_scaling\<close>, which repeats the same loops with several threads on each of the baseline caches, and
  the mean and deviation over several runs, which are only printed. \<open>tests/\<close> are unit tests of the components.
\<close>

end
